(* ===== verification/Prelude.thy ===== *)
theory Prelude
  imports Main "HOL-Library.Word" "HOL-Library.Monad_Syntax"
begin

text \<open>
  Shared vocabulary of the development: the machine integer types of \<open>include/rtdef.h\<close>,
  the kernel's error codes, the option-monad reading of a call that may stop in
  \<open>RT_ASSERT\<close>, and the generic facts on words, lists and options the components share.
\<close>

unbundle bit_operations_syntax

section \<open>Machine integers and error codes\<close>

type_synonym u8 = "8 word"
type_synonym u16 = "16 word"
type_synonym u32 = "32 word"

text \<open>
  \<open>rt_err_t\<close> is a signed long; every value the kernel returns is zero or the negation of one
  of the codes of \<open>rtdef.h\<close>, so it is an \<open>int\<close> here and no wrap-around is involved.
\<close>

type_synonym rt_err = int

definition RT_EOK :: rt_err where "RT_EOK = 0"
definition RT_ERROR :: rt_err where "RT_ERROR = 1"
definition RT_ETIMEOUT :: rt_err where "RT_ETIMEOUT = 2"
definition RT_EFULL :: rt_err where "RT_EFULL = 3"
definition RT_EEMPTY :: rt_err where "RT_EEMPTY = 4"
definition RT_ENOMEM :: rt_err where "RT_ENOMEM = 5"
definition RT_ENOSYS :: rt_err where "RT_ENOSYS = 6"
definition RT_EBUSY :: rt_err where "RT_EBUSY = 7"
definition RT_EIO :: rt_err where "RT_EIO = 8"
definition RT_EINTR :: rt_err where "RT_EINTR = 9"
definition RT_EINVAL :: rt_err where "RT_EINVAL = 10"

text \<open>The drivers and the file system also use the code of the C library.\<close>

definition EINVAL :: rt_err where "EINVAL = 22"

lemmas err_defs = RT_EOK_def RT_ERROR_def RT_ETIMEOUT_def RT_EFULL_def RT_EEMPTY_def
  RT_ENOMEM_def RT_ENOSYS_def RT_EBUSY_def RT_EIO_def RT_EINTR_def RT_EINVAL_def

text \<open>
  A call that can stop in \<open>RT_ASSERT\<close> (whose handler never returns) has type \<open>'a option\<close>:
  \<open>None\<close> is the stopped kernel. \<open>rt_assert\<close> is the macro.
\<close>

definition rt_assert :: "bool \<Rightarrow> unit option" where
  "rt_assert b = (if b then Some () else None)"

lemma rt_assert_simps [simp]:
  "rt_assert True = Some ()" "rt_assert False = None"
  by (simp_all add: rt_assert_def)

lemma rt_assert_Some [simp]: "rt_assert b = Some u \<longleftrightarrow> b"
  by (cases u) (simp add: rt_assert_def)

section \<open>Lists\<close>

text \<open>Insertion of \<open>n\<close> in front of the first occurrence of \<open>y\<close>.\<close>

fun insert_before :: "'a \<Rightarrow> 'a \<Rightarrow> 'a list \<Rightarrow> 'a list" where
  "insert_before y n [] = []"
| "insert_before y n (x # xs) = (if x = y then n # x # xs else x # insert_before y n xs)"

lemma insert_before_notin [simp]: "y \<notin> set xs \<Longrightarrow> insert_before y n xs = xs"
  by (induction xs) auto

lemma insert_before_split:
  "y \<notin> set as \<Longrightarrow> insert_before y n (as @ y # bs) = as @ n # y # bs"
  by (induction as) auto

lemma set_insert_before [simp]:
  "set (insert_before y n xs) = (if y \<in> set xs then insert n (set xs) else set xs)"
  by (induction xs) auto

lemma distinct_insert_before:
  "n \<notin> set xs \<Longrightarrow> distinct xs \<Longrightarrow> distinct (insert_before y n xs)"
  by (induction xs) auto

lemma removeAll_split:
  "x \<notin> set as \<Longrightarrow> x \<notin> set bs \<Longrightarrow> removeAll x (as @ x # bs) = as @ bs"
  by simp

lemma removeAll_head:
  "distinct (x # xs) \<Longrightarrow> removeAll x (x # xs) = xs"
  by simp

lemma removeAll_neq_Nil: "xs \<noteq> [] \<Longrightarrow> x \<notin> set xs \<Longrightarrow> removeAll x xs \<noteq> []"
  by simp

section \<open>Positions of a ring\<close>

lemma mod_distinct:
  fixes i e n :: nat
  assumes "i < n" "e < n" "(out + i) mod n = (out + e) mod n"
  shows "i = e"
proof -
  have False if "a < b" "b < n" "(out + a) mod n = (out + b) mod n" for a b :: nat
  proof -
    have "n dvd (out + b) - (out + a)" using that by (subst mod_eq_dvd_iff_nat[symmetric]) auto
    then show False using that by (auto dest: dvd_imp_le)
  qed
  then show ?thesis using assms by (metis linorder_neqE_nat)
qed

text \<open>
  The list read from \<open>n\<close> consecutive places of a ring from \<open>out\<close> on; \<open>ring_list\<close> is what the
  bounded buffers of the system contain.
\<close>

definition ring_list :: "'a list \<Rightarrow> nat \<Rightarrow> nat \<Rightarrow> 'a list" where
  "ring_list p out n = map (\<lambda>i. p ! ((out + i) mod length p)) [0..<n]"

lemma length_ring_list [simp]: "length (ring_list p out n) = n"
  by (simp add: ring_list_def)

lemma ring_list_push:
  assumes "n < length p"
  shows "ring_list (p[(out + n) mod length p := v]) out (Suc n) = ring_list p out n @ [v]"
proof -
  have "(out + n) mod length p \<noteq> (out + i) mod length p" if "i < n" for i
    using mod_distinct[of i "length p" n out] that assms by auto
  moreover have "(out + n) mod length p < length p" using assms by (intro mod_less_divisor) linarith
  ultimately show ?thesis by (auto simp: ring_list_def nth_list_update)
qed

lemma ring_list_pop:
  "0 < n \<Longrightarrow> ring_list p out n = p ! (out mod length p) # ring_list p (Suc out mod length p) (n - 1)"
proof -
  assume "0 < n"
  then have "[0..<n] = 0 # map Suc [0..<n - 1]" by (cases n) (simp_all add: map_Suc_upt upt_conv_Cons del: upt_Suc)
  moreover have "(out + Suc i) mod length p = (Suc out mod length p + i) mod length p" for i
    by (simp add: mod_add_left_eq)
  ultimately show ?thesis by (simp add: ring_list_def del: upt_Suc)
qed

lemma unat_inc_wrap:
  fixes x :: u16
  shows "unat (x + 1) = (if x = 0xFFFF then 0 else unat x + 1)"
proof (cases "x = 0xFFFF")
  case False
  then have "unat x \<noteq> 65535" by (simp add: word_unat_eq_iff)
  moreover have "unat x < 65536" using unsigned_less[of x, where 'a = nat] by simp
  ultimately show ?thesis using False by (simp add: unat_plus_if')
qed simp

section \<open>Blocks written into a ring\<close>

text \<open>
  \<open>ring_put w bs p\<close> writes the values \<open>bs\<close> at the places \<open>w\<close>, \<open>w + 1\<close>, \dots of the ring, going
  round at its end; a copy in one or two pieces is the same.
\<close>

fun ring_put :: "nat \<Rightarrow> 'a list \<Rightarrow> 'a list \<Rightarrow> 'a list" where
  "ring_put w [] p = p"
| "ring_put w (b # bs) p = ring_put (Suc w mod length p) bs (p[w := b])"

lemma length_ring_put [simp]: "length (ring_put w bs p) = length p"
  by (induction w bs p rule: ring_put.induct) auto

lemma ring_put_append:
  "w < length p \<Longrightarrow> ring_put w (xs @ ys) p = ring_put ((w + length xs) mod length p) ys (ring_put w xs p)"
proof (induction w xs p rule: ring_put.induct)
  case (2 w b bs p)
  have "0 < length p" using 2(2) by linarith
  then show ?case using 2(1) by (simp add: mod_add_left_eq)
qed simp

lemma ring_put_straight:
  "w + length bs \<le> length p \<Longrightarrow> ring_put w bs p = take w p @ bs @ drop (w + length bs) p"
proof (induction w bs p rule: ring_put.induct)
  case (2 w b bs p)
  have u: "take (Suc w) (p[w := b]) = take w p @ [b]" using 2(2) by (simp add: take_Suc_conv_app_nth)
  show ?case
  proof (cases "bs = []")
    case True
    then show ?thesis using 2(2) by (simp add: upd_conv_take_nth_drop)
  next
    case False
    then have w: "Suc w < length p" using 2(2) by (cases bs) auto
    then show ?thesis using 2 u by simp
  qed
qed simp

lemma ring_put_wrap:
  assumes "w < length p" "length p \<le> w + length bs" "length bs \<le> length p"
  shows "ring_put w bs p = drop (length p - w) bs @ drop (length bs - (length p - w)) (take w p) @ take (length p - w) bs"
proof -
  let ?k = "length p - w"
  let ?q = "ring_put w (take ?k bs) p"
  have k: "length (take ?k bs) = ?k" "w + ?k = length p" using assms by simp_all
  have q: "?q = take w p @ take ?k bs" using ring_put_straight[of w "take ?k bs" p] k by simp
  have "ring_put w bs p = ring_put ((w + length (take ?k bs)) mod length p) (drop ?k bs) ?q"
    using ring_put_append[OF assms(1), of "take ?k bs" "drop ?k bs"] by simp
  also have "(w + length (take ?k bs)) mod length p = 0" using k by simp
  also have "ring_put 0 (drop ?k bs) ?q = drop ?k bs @ drop (length bs - ?k) ?q"
    using ring_put_straight[of 0 "drop ?k bs" ?q] assms by simp
  finally show ?thesis using q assms by simp
qed

lemma ring_list_put:
  "length (bs) + n \<le> length p \<Longrightarrow> n < length p \<or> bs = [] \<Longrightarrow>
   ring_list (ring_put ((r + n) mod length p) bs p) r (n + length bs) = ring_list p r n @ bs"
proof (induction bs arbitrary: n p)
  case (Cons b bs)
  have n: "n < length p" using Cons.prems(1) by simp
  let ?p = "p[(r + n) mod length p := b]"
  have s: "Suc ((r + n) mod length p) mod length p = (r + Suc n) mod length p" by (simp add: mod_Suc_eq)
  have "ring_list (ring_put ((r + Suc n) mod length ?p) bs ?p) r (Suc n + length bs) = ring_list ?p r (Suc n) @ bs"
    by (rule Cons.IH) (use Cons.prems in \<open>cases bs; simp\<close>)+
  then show ?case using ring_list_push[OF n, of r b] s by simp
qed simp

text \<open>Writing into a full ring replaces the oldest value.\<close>

lemma ring_list_push_full:
  assumes "w < length p"
  shows "ring_list (p[w := b]) (Suc w mod length p) (length p) = tl (ring_list p w (length p)) @ [b]"
proof -
  let ?n = "length p"
  have pos: "0 < ?n" using assms by linarith
  obtain d where d: "?n = Suc d" using assms by (cases ?n) auto
  have p0: "ring_list p w ?n = p ! w # ring_list p (Suc w mod ?n) (?n - 1)"
    using ring_list_pop[OF pos, of p w] assms by simp
  have "(Suc w mod ?n + d) mod ?n = (w + ?n) mod ?n" using d by (simp add: mod_add_left_eq)
  then have i: "(Suc w mod ?n + d) mod ?n = w" using assms by simp
  then have "ring_list (p[(Suc w mod ?n + d) mod ?n := b]) (Suc w mod ?n) (Suc d) = ring_list p (Suc w mod ?n) d @ [b]"
    using d by (intro ring_list_push) simp
  then show ?thesis unfolding p0 i using d by simp
qed

lemma ring_list_put_full:
  "w < length p \<Longrightarrow> length bs \<le> length p \<Longrightarrow>
   ring_list (ring_put w bs p) ((w + length bs) mod length p) (length p) = drop (length bs) (ring_list p w (length p)) @ bs"
proof (induction w bs p rule: ring_put.induct)
  case (2 w b bs p)
  have lt: "Suc w mod length p < length p" using 2(2) by (intro mod_less_divisor) linarith
  have e: "(Suc w mod length p + length bs) mod length p = (w + length (b # bs)) mod length p" by (simp add: mod_add_left_eq)
  have "ring_list (ring_put (Suc w mod length p) bs (p[w := b])) ((w + length (b # bs)) mod length p) (length p) =
      drop (length bs) (ring_list (p[w := b]) (Suc w mod length p) (length p)) @ bs"
    using 2(1,3) lt e by simp
  also have "\<dots> = drop (length bs) (tl (ring_list p w (length p)) @ [b]) @ bs" by (simp add: ring_list_push_full[OF 2(2)])
  also have "\<dots> = drop (length (b # bs)) (ring_list p w (length p)) @ b # bs"
    using 2(3) by (simp add: drop_Suc)
  finally show ?case by simp
qed simp


section \<open>Reading a ring\<close>

lemma take_ring_list: "m \<le> n \<Longrightarrow> take m (ring_list p r n) = ring_list p r m"
  by (simp add: ring_list_def take_map min_def)

lemma drop_ring_list: "drop m (ring_list p r n) = ring_list p ((r + m) mod length p) (n - m)"
proof (rule nth_equalityI)
  fix i
  assume "i < length (drop m (ring_list p r n))"
  then have i: "m + i < n" by simp
  have "((r + m) mod length p + i) mod length p = (r + (m + i)) mod length p" by (simp add: mod_add_left_eq add.assoc)
  then show "drop m (ring_list p r n) ! i = ring_list p ((r + m) mod length p) (n - m) ! i"
    using i by (simp add: ring_list_def nth_upt less_diff_conv add.commute[of i m])
qed simp

lemma ring_list_straight: "r + n \<le> length p \<Longrightarrow> ring_list p r n = take n (drop r p)"
  by (rule nth_equalityI) (auto simp: ring_list_def)

lemma ring_list_wrap:
  assumes "r < length p" "length p \<le> r + n" "n \<le> length p"
  shows "ring_list p r n = drop r p @ take (r + n - length p) p"
proof -
  let ?k = "length p - r"
  have "ring_list p r n = take ?k (ring_list p r n) @ drop ?k (ring_list p r n)" by simp
  also have "take ?k (ring_list p r n) = drop r p"
    using take_ring_list[of ?k n p r] ring_list_straight[of r ?k p] assms by simp
  also have "drop ?k (ring_list p r n) = ring_list p 0 (n - ?k)" using drop_ring_list[of ?k p r n] assms by simp
  also have "ring_list p 0 (n - ?k) = take (n - ?k) p" using ring_list_straight[of 0 "n - ?k" p] assms by simp
  finally show ?thesis using assms by (simp add: add.commute)
qed

text \<open>Seen from the write position, a whole ring ends with its content.\<close>

lemma ring_list_whole:
  assumes "r < length p" "n \<le> length p"
  shows "drop (length p - n) (ring_list p ((r + n) mod length p) (length p)) = ring_list p r n"
proof -
  have "((r + n) mod length p + (length p - n)) mod length p = (r + n + (length p - n)) mod length p"
    by (rule mod_add_left_eq)
  also have "\<dots> = r" using assms by simp
  finally have e: "((r + n) mod length p + (length p - n)) mod length p = r" .
  have "length p - (length p - n) = n" using assms by simp
  then show ?thesis unfolding drop_ring_list e by simp
qed

section \<open>Alignment\<close>

text \<open>\<open>RT_ALIGN\<close> to \<open>RT_ALIGN_SIZE\<close>, which is 4. The sum wraps for the three largest numbers.\<close>

definition rt_align :: "u32 \<Rightarrow> u32" where
  "rt_align sz = (sz + 4 - 1) AND NOT (4 - 1)"

lemma unat_align_down: "unat (x AND NOT 3 :: u32) = unat x div 4 * 4"
proof -
  have "x AND NOT (mask 2) = push_bit 2 (drop_bit 2 x)"
    by (rule bit_eqI) (auto simp: bit_simps not_less dest!: le_Suc_ex)
  then have "x AND NOT 3 = push_bit 2 (drop_bit 2 x)" by (simp add: mask_eq_exp_minus_1)
  moreover have "unat (push_bit 2 (drop_bit 2 x)) = unat x div 4 * 4"
    using unsigned_less[of x, where 'a = nat] unfolding unsigned_push_bit_eq unsigned_drop_bit_eq
    by (simp add: push_bit_nat_def drop_bit_nat_def take_bit_nat_eq_self)
  ultimately show ?thesis by simp
qed

lemma unat_rt_align: "unat (rt_align n) = (if unat n + 3 < 2 ^ 32 then (unat n + 3) div 4 * 4 else 0)"
proof -
  have eq: "rt_align n = n + 3 AND NOT 3" by (simp add: rt_align_def add.commute)
  show ?thesis
  proof (cases "unat n + 3 < 2 ^ 32")
    case True
    then have "unat (n + 3) = unat n + 3" by (simp add: unat_plus_if')
    then show ?thesis using True unfolding eq unat_align_down by simp
  next
    case False
    then have "unat (n + 3) = unat n + 3 - 2 ^ 32" using unsigned_less[of n, where 'a = nat] by (simp add: unat_plus_if')
    then have "unat (n + 3) div 4 = 0" using unsigned_less[of n, where 'a = nat] by simp
    then show ?thesis using False unfolding eq unat_align_down by simp
  qed
qed

lemma rt_align_dvd [simp]: "4 dvd unat (rt_align n)"
  by (simp add: unat_rt_align)

lemma rt_align_room: "unat (rt_align n) + 3 < 2 ^ 32"
proof -
  obtain y where y: "unat (rt_align n) = 4 * y" using rt_align_dvd[of n] by (elim dvdE)
  moreover have "unat (rt_align n) < 2 ^ 32" using unsigned_less[of "rt_align n", where 'a = nat] by simp
  ultimately have "y < 2 ^ 30" by simp
  then show ?thesis unfolding y by simp
qed

text \<open>Addition and subtraction of 32-bit numbers and addresses kept as natural numbers.\<close>

definition uadd :: "nat \<Rightarrow> nat \<Rightarrow> nat" where
  "uadd a b = (a + b) mod 2 ^ 32"

definition usub :: "nat \<Rightarrow> nat \<Rightarrow> nat" where
  "usub a b = (a + 2 ^ 32 - b) mod 2 ^ 32"

lemma uadd_exact [simp]: "a + b < 2 ^ 32 \<Longrightarrow> uadd a b = a + b"
  by (simp add: uadd_def)

lemma usub_exact [simp]: "b \<le> a \<Longrightarrow> a < 2 ^ 32 \<Longrightarrow> usub a b = a - b"
  by (auto simp: usub_def le_iff_add)

end
