(* ===== verification/RtList.thy ===== *)
theory RtList
  imports Prelude
begin

text \<open>
  The intrusive lists of \<open>include/rtservice.h\<close>: the circular doubly linked \<open>rt_list_t\<close>
  and the singly linked \<open>rt_slist_t\<close>, as pointer updates on an explicit store. The theory
  proves that the pointer operations implement operations on plain HOL lists, which is how
  every other component of the development uses them.
\<close>

section \<open>The pointer store\<close>

record 'a lheap =
  nxt :: "'a \<Rightarrow> 'a"
  prv :: "'a \<Rightarrow> 'a"

definition set_next :: "'a \<Rightarrow> 'a \<Rightarrow> 'a lheap \<Rightarrow> 'a lheap" where
  "set_next a b h = h\<lparr>nxt := (nxt h)(a := b)\<rparr>"

definition set_prev :: "'a \<Rightarrow> 'a \<Rightarrow> 'a lheap \<Rightarrow> 'a lheap" where
  "set_prev a b h = h\<lparr>prv := (prv h)(a := b)\<rparr>"

text \<open>Each C statement is one update; the right-hand sides read the store as left so far.\<close>

definition rt_list_init :: "'a \<Rightarrow> 'a lheap \<Rightarrow> 'a lheap" where
  "rt_list_init l h = set_next l l (set_prev l l h)"

definition rt_list_insert_after :: "'a \<Rightarrow> 'a \<Rightarrow> 'a lheap \<Rightarrow> 'a lheap" where
  "rt_list_insert_after l n h =
    (let h1 = set_prev (nxt h l) n h;
         h2 = set_next n (nxt h1 l) h1;
         h3 = set_next l n h2
     in set_prev n l h3)"

definition rt_list_insert_before :: "'a \<Rightarrow> 'a \<Rightarrow> 'a lheap \<Rightarrow> 'a lheap" where
  "rt_list_insert_before l n h =
    (let h1 = set_next (prv h l) n h;
         h2 = set_prev n (prv h1 l) h1;
         h3 = set_prev l n h2
     in set_next n l h3)"

definition rt_list_remove :: "'a \<Rightarrow> 'a lheap \<Rightarrow> 'a lheap" where
  "rt_list_remove n h =
    (let h1 = set_prev (nxt h n) (prv h n) h;
         h2 = set_next (prv h1 n) (nxt h1 n) h1
     in set_next n n (set_prev n n h2))"

definition rt_list_isempty :: "'a \<Rightarrow> 'a lheap \<Rightarrow> bool" where
  "rt_list_isempty l h \<longleftrightarrow> nxt h l = l"

text \<open>The counting loop need not end on a store that is not a ring, so it is an option.\<close>

partial_function (option) rt_list_len_loop :: "'a lheap \<Rightarrow> 'a \<Rightarrow> 'a \<Rightarrow> nat \<Rightarrow> nat option" where
  "rt_list_len_loop h l p len =
     (if nxt h p \<noteq> l then rt_list_len_loop h l (nxt h p) (Suc len) else Some len)"

definition rt_list_len :: "'a \<Rightarrow> 'a lheap \<Rightarrow> nat option" where
  "rt_list_len l h = rt_list_len_loop h l l 0"

lemmas list_op_defs = rt_list_init_def rt_list_insert_after_def rt_list_insert_before_def
  rt_list_remove_def set_next_def set_prev_def

section \<open>Rings of nodes\<close>

text \<open>
  \<open>seg h a xs b\<close>: from \<open>a\<close> the next pointers run through \<open>xs\<close> to \<open>b\<close> and the
  previous pointers run back. A list head \<open>l\<close> with contents \<open>xs\<close> is the ring
  \<open>seg h l xs l\<close>.
\<close>

fun seg :: "'a lheap \<Rightarrow> 'a \<Rightarrow> 'a list \<Rightarrow> 'a \<Rightarrow> bool" where
  "seg h a [] b \<longleftrightarrow> nxt h a = b \<and> prv h b = a"
| "seg h a (x # xs) b \<longleftrightarrow> nxt h a = x \<and> prv h x = a \<and> seg h x xs b"

definition ring :: "'a lheap \<Rightarrow> 'a \<Rightarrow> 'a list \<Rightarrow> bool" where
  "ring h l xs \<longleftrightarrow> seg h l xs l \<and> distinct (l # xs)"

lemma seg_append: "seg h a (xs @ y # ys) b \<longleftrightarrow> seg h a xs y \<and> seg h y ys b"
  by (induction xs arbitrary: a) auto

lemma seg_cong:
  "(\<And>x. x \<in> insert a (set xs) \<Longrightarrow> nxt h' x = nxt h x) \<Longrightarrow>
   (\<And>x. x \<in> insert b (set xs) \<Longrightarrow> prv h' x = prv h x) \<Longrightarrow>
   seg h' a xs b \<longleftrightarrow> seg h a xs b"
  by (induction xs arbitrary: a) auto

lemma seg_next: "seg h a xs b \<Longrightarrow> nxt h a = hd (xs @ [b])"
  by (cases xs) auto

lemma seg_prev: "seg h a xs b \<Longrightarrow> prv h b = last (a # xs)"
  by (induction xs arbitrary: a) auto

lemma ring_isempty: "ring h l xs \<Longrightarrow> rt_list_isempty l h \<longleftrightarrow> xs = []"
  by (cases xs) (auto simp: ring_def rt_list_isempty_def)

lemma ring_first: "ring h l (x # xs) \<Longrightarrow> nxt h l = x"
  by (simp add: ring_def)

lemma len_loop_seg:
  "seg h p xs l \<Longrightarrow> l \<notin> set xs \<Longrightarrow> rt_list_len_loop h l p n = Some (n + length xs)"
proof (induction xs arbitrary: p n)
  case Nil
  then show ?case by (subst rt_list_len_loop.simps) simp
next
  case (Cons x xs)
  then show ?case by (subst rt_list_len_loop.simps) auto
qed

lemma ring_len: "ring h l xs \<Longrightarrow> rt_list_len l h = Some (length xs)"
  by (auto simp: rt_list_len_def ring_def len_loop_seg)

lemma ring_init: "ring (rt_list_init l h) l []"
  by (simp add: ring_def list_op_defs)

section \<open>Families of lists sharing one store\<close>

text \<open>
  The kernel keeps many lists in one store: a head (\<open>Inl\<close>) per queue and one node
  (\<open>Inr\<close>) per object, each node in at most one list. \<open>lists_in h Q\<close> states that
  \<open>Q\<close> gives the contents of every head and that a node outside every list is linked to
  itself, which is what \<open>rt_list_init\<close> and \<open>rt_list_remove\<close> leave behind.
\<close>

type_synonym ('h, 'n) queues = "'h \<Rightarrow> 'n list"

definition linked :: "('h, 'n) queues \<Rightarrow> 'n \<Rightarrow> bool" where
  "linked Q n \<longleftrightarrow> (\<exists>l. n \<in> set (Q l))"

definition lists_ok :: "('h, 'n) queues \<Rightarrow> bool" where
  "lists_ok Q \<longleftrightarrow> (\<forall>l. distinct (Q l)) \<and> (\<forall>l l'. l \<noteq> l' \<longrightarrow> set (Q l) \<inter> set (Q l') = {})"

definition lists_in :: "('h + 'n) lheap \<Rightarrow> ('h, 'n) queues \<Rightarrow> bool" where
  "lists_in h Q \<longleftrightarrow> lists_ok Q \<and> (\<forall>l. seg h (Inl l) (map Inr (Q l)) (Inl l)) \<and>
     (\<forall>n. \<not> linked Q n \<longrightarrow> nxt h (Inr n) = Inr n \<and> prv h (Inr n) = Inr n)"

text \<open>The operations on plain lists that the pointer operations implement.\<close>

definition q_remove :: "'n \<Rightarrow> ('h, 'n) queues \<Rightarrow> ('h, 'n) queues" where
  "q_remove n Q = (\<lambda>l. removeAll n (Q l))"

definition q_push_back :: "'h \<Rightarrow> 'n \<Rightarrow> ('h, 'n) queues \<Rightarrow> ('h, 'n) queues" where
  "q_push_back l n Q = Q(l := Q l @ [n])"

definition q_push_front :: "'h \<Rightarrow> 'n \<Rightarrow> ('h, 'n) queues \<Rightarrow> ('h, 'n) queues" where
  "q_push_front l n Q = Q(l := n # Q l)"

definition q_insert_before :: "'n \<Rightarrow> 'n \<Rightarrow> ('h, 'n) queues \<Rightarrow> ('h, 'n) queues" where
  "q_insert_before y n Q = (\<lambda>l. insert_before y n (Q l))"

lemmas q_defs = q_remove_def q_push_back_def q_push_front_def q_insert_before_def

lemma q_remove_apply [simp]: "q_remove n Q l = removeAll n (Q l)"
  by (simp add: q_remove_def)

lemma q_push_back_apply [simp]: "q_push_back l n Q l' = (if l' = l then Q l @ [n] else Q l')"
  by (simp add: q_push_back_def)

lemma q_push_front_apply [simp]: "q_push_front l n Q l' = (if l' = l then n # Q l else Q l')"
  by (simp add: q_push_front_def)

lemma q_insert_before_apply [simp]: "q_insert_before y n Q l = insert_before y n (Q l)"
  by (simp add: q_insert_before_def)

lemma lists_ok_unique: "lists_ok Q \<Longrightarrow> n \<in> set (Q l) \<Longrightarrow> n \<in> set (Q l') \<Longrightarrow> l = l'"
  by (auto simp: lists_ok_def)

lemma lists_ok_distinct: "lists_ok Q \<Longrightarrow> distinct (Q l)"
  by (simp add: lists_ok_def)

lemma lists_ok_remove [intro]: "lists_ok Q \<Longrightarrow> lists_ok (q_remove n Q)"
  by (auto simp: lists_ok_def distinct_removeAll)

lemma linked_remove [simp]: "linked (q_remove n Q) m \<longleftrightarrow> m \<noteq> n \<and> linked Q m"
  by (auto simp: linked_def)

lemma q_remove_unlinked: "\<not> linked Q n \<Longrightarrow> q_remove n Q = Q"
  by (rule ext) (simp add: linked_def)

lemma lists_ok_push_back [intro]:
  "lists_ok Q \<Longrightarrow> \<not> linked Q n \<Longrightarrow> lists_ok (q_push_back l n Q)"
  by (auto simp: lists_ok_def linked_def)

lemma lists_ok_push_front [intro]:
  "lists_ok Q \<Longrightarrow> \<not> linked Q n \<Longrightarrow> lists_ok (q_push_front l n Q)"
  by (auto simp: lists_ok_def linked_def)

lemma lists_ok_insert_before [intro]:
  assumes "lists_ok Q" "\<not> linked Q n" shows "lists_ok (q_insert_before y n Q)"
  using assms unfolding lists_ok_def linked_def
  by (auto simp: distinct_insert_before split: if_splits) blast

lemma linked_push_back [simp]: "linked (q_push_back l n Q) m \<longleftrightarrow> m = n \<or> linked Q m"
  by (auto simp: linked_def split: if_splits)

lemma linked_push_front [simp]: "linked (q_push_front l n Q) m \<longleftrightarrow> m = n \<or> linked Q m"
  by (auto simp: linked_def split: if_splits)

section \<open>The pointer operations implement the list operations\<close>

text \<open>
  One lemma carries all insertions: splicing a self-linked node between two neighbours that
  belong to the list of \<open>l\<close>.
\<close>

definition splice :: "'a \<Rightarrow> 'a \<Rightarrow> 'a \<Rightarrow> 'a lheap \<Rightarrow> 'a lheap" where
  "splice a n b h = h\<lparr>nxt := (nxt h)(a := n, n := b), prv := (prv h)(b := n, n := a)\<rparr>"

lemma insert_after_splice:
  "n \<noteq> l \<Longrightarrow> nxt h l \<noteq> n \<Longrightarrow> rt_list_insert_after l n h = splice l n (nxt h l) h"
  by (auto simp: list_op_defs splice_def Let_def fun_upd_twist)

lemma insert_before_splice:
  "n \<noteq> l \<Longrightarrow> prv h l \<noteq> n \<Longrightarrow> rt_list_insert_before l n h = splice (prv h l) n l h"
  by (auto simp: list_op_defs splice_def Let_def fun_upd_twist)

definition unsplice :: "'a \<Rightarrow> 'a \<Rightarrow> 'a \<Rightarrow> 'a lheap \<Rightarrow> 'a lheap" where
  "unsplice a n b h = h\<lparr>nxt := (nxt h)(a := b, n := n), prv := (prv h)(b := a, n := n)\<rparr>"

lemma remove_unsplice:
  "nxt h n \<noteq> n \<Longrightarrow> prv h n \<noteq> n \<Longrightarrow> rt_list_remove n h = unsplice (prv h n) n (nxt h n) h"
  by (auto simp: list_op_defs unsplice_def Let_def)

lemma remove_self:
  assumes "nxt h n = n" "prv h n = n" shows "rt_list_remove n h = h"
  using assms by (simp add: list_op_defs Let_def fun_upd_idem)

lemma seg_upd_nxt [simp]:
  "u \<notin> insert a (set xs) \<Longrightarrow> seg (h\<lparr>nxt := (nxt h)(u := v)\<rparr>) a xs b = seg h a xs b"
  by (rule seg_cong) auto

lemma seg_splice:
  "x \<notin> insert a (set xs) \<Longrightarrow> n \<notin> insert a (insert b (set xs)) \<Longrightarrow> y \<notin> insert b (set xs) \<Longrightarrow>
   seg (splice x n y h) a xs b = seg h a xs b"
  by (rule seg_cong) (auto simp: splice_def)

lemma seg_unsplice:
  "x \<notin> insert a (set xs) \<Longrightarrow> n \<notin> insert a (insert b (set xs)) \<Longrightarrow> y \<notin> insert b (set xs) \<Longrightarrow>
   seg (unsplice x n y h) a xs b = seg h a xs b"
  by (rule seg_cong) (auto simp: unsplice_def)

text \<open>\<open>before\<close> and \<open>after\<close> are the neighbours of a split point of the list of \<open>l\<close>.\<close>

definition before :: "'h \<Rightarrow> 'n list \<Rightarrow> 'h + 'n" where
  "before l as = last (Inl l # map Inr as)"

definition after :: "'h \<Rightarrow> 'n list \<Rightarrow> 'h + 'n" where
  "after l bs = hd (map Inr bs @ [Inl l])"

lemma before_simps [simp]: "before l [] = Inl l" "before l (as @ [x]) = Inr x"
  by (simp_all add: before_def)

lemma after_simps [simp]: "after l [] = Inl l" "after l (y # bs) = Inr y"
  by (simp_all add: after_def)

lemma Inr_image [simp]: "Inr a \<in> Inr ` A \<longleftrightarrow> a \<in> A" "Inl b \<notin> Inr ` A"
  by auto

lemma seg_insert:
  assumes "seg h (Inl l) (map Inr (as @ bs)) (Inl l)" "n \<notin> set (as @ bs)" "distinct (as @ bs)"
  shows "seg (splice (before l as) (Inr n) (after l bs) h) (Inl l) (map Inr (as @ n # bs)) (Inl l)"
  using assms
  by (cases as rule: rev_cases; cases bs)
    (auto simp: seg_append seg_splice, auto simp: splice_def)

lemma seg_delete:
  assumes "seg h (Inl l) (map Inr (as @ n # bs)) (Inl l)" "distinct (as @ n # bs)"
  shows "seg (unsplice (before l as) (Inr n) (after l bs) h) (Inl l) (map Inr (as @ bs)) (Inl l)"
  using assms
  by (cases as rule: rev_cases; cases bs)
    (auto simp: seg_append seg_unsplice, auto simp: unsplice_def)

lemma seg_neighbours:
  assumes "seg h (Inl l) (map Inr (as @ n # bs)) (Inl l)"
  shows "nxt h (Inr n) = after l bs" "prv h (Inr n) = before l as"
  using assms by (cases as rule: rev_cases; cases bs; auto simp: seg_append)+

lemma before_in: "before l as \<in> insert (Inl l) (Inr ` set as)"
  by (cases as rule: rev_cases) auto

lemma after_in: "after l bs \<in> insert (Inl l) (Inr ` set bs)"
  by (cases bs) auto

text \<open>Another list, or an unlinked node, does not see the splice.\<close>

lemma lists_in_splice:
  assumes L: "lists_in h Q" and n: "\<not> linked Q n" and Q: "Q l = as @ bs"
  shows "lists_in (splice (before l as) (Inr n) (after l bs) h) (Q(l := as @ n # bs))"
proof -
  let ?h = "splice (before l as) (Inr n) (after l bs) h" and ?Q = "Q(l := as @ n # bs)"
  have ok: "lists_ok Q" and sg: "\<And>l. seg h (Inl l) (map Inr (Q l)) (Inl l)"
    and un: "\<And>m. \<not> linked Q m \<Longrightarrow> nxt h (Inr m) = Inr m \<and> prv h (Inr m) = Inr m"
    using L by (auto simp: lists_in_def)
  have nQ: "n \<notin> set (Q m)" for m using n by (simp add: linked_def)
  have dj: "set (Q m) \<inter> set (Q l) = {}" if "m \<noteq> l" for m using ok that by (simp add: lists_ok_def)
  have "lists_ok ?Q"
    using ok nQ Q lists_ok_distinct[OF ok, of l] unfolding lists_ok_def
    by (auto simp: fun_upd_def) (metis UnCI Q disjoint_iff set_append)+
  moreover have "seg ?h (Inl m) (map Inr (?Q m)) (Inl m)" for m
  proof (cases "m = l")
    case True
    then show ?thesis using seg_insert[of h l as bs n] sg[of l] nQ[of l] Q lists_ok_distinct[OF ok, of l]
      by simp
  next
    case False
    then show ?thesis using dj[OF False] nQ[of m] sg[of m] Q before_in[of l as] after_in[of l bs]
      by (subst fun_upd_other, simp, subst seg_splice) auto
  qed
  moreover have "nxt ?h (Inr m) = Inr m \<and> prv ?h (Inr m) = Inr m" if "\<not> linked ?Q m" for m
  proof -
    have "m \<notin> set (?Q k)" for k using that by (simp add: linked_def)
    from this[of l] this have m: "m \<noteq> n" "m \<notin> set as" "m \<notin> set bs" "\<And>k. k \<noteq> l \<Longrightarrow> m \<notin> set (Q k)"
      by (auto simp del: fun_upd_apply simp: fun_upd_same) (metis fun_upd_other)
    then have "\<not> linked Q m" unfolding linked_def using Q by (metis UnE set_append)
    moreover from m have "before l as \<noteq> Inr m" "after l bs \<noteq> Inr m"
      using before_in[of l as] after_in[of l bs] by auto
    moreover note m(1)
    ultimately show ?thesis using un[of m] by (simp add: splice_def)
  qed
  ultimately show ?thesis by (simp add: lists_in_def)
qed

lemma lists_in_unsplice:
  assumes L: "lists_in h Q" and Q: "Q l = as @ n # bs"
  shows "lists_in (unsplice (before l as) (Inr n) (after l bs) h) (q_remove n Q)"
proof -
  let ?h = "unsplice (before l as) (Inr n) (after l bs) h"
  have ok: "lists_ok Q" and sg: "\<And>l. seg h (Inl l) (map Inr (Q l)) (Inl l)"
    and un: "\<And>m. \<not> linked Q m \<Longrightarrow> nxt h (Inr m) = Inr m \<and> prv h (Inr m) = Inr m"
    using L by (auto simp: lists_in_def)
  have dQ: "distinct (as @ n # bs)" using lists_ok_distinct[OF ok, of l] Q by simp
  have dj: "set (Q m) \<inter> set (Q l) = {}" if "m \<noteq> l" for m using ok that by (simp add: lists_ok_def)
  have "seg ?h (Inl m) (map Inr (q_remove n Q m)) (Inl m)" for m
  proof (cases "m = l")
    case True
    then show ?thesis using seg_delete[of h l as n bs] sg[of l] Q dQ by simp
  next
    case False
    have "n \<notin> set (Q m)" using dj[OF False] Q by auto
    then show ?thesis using dj[OF False] sg[of m] Q before_in[of l as] after_in[of l bs] False
      by (subst seg_unsplice) auto
  qed
  moreover have "nxt ?h (Inr m) = Inr m \<and> prv ?h (Inr m) = Inr m" if "\<not> linked (q_remove n Q) m" for m
  proof (cases "m = n")
    case False
    then have "\<not> linked Q m" using that by simp
    then have "m \<notin> set (Q l)" by (simp add: linked_def)
    then have "before l as \<noteq> Inr m" "after l bs \<noteq> Inr m"
      using Q before_in[of l as] after_in[of l bs] by auto
    then show ?thesis using un[OF \<open>\<not> linked Q m\<close>] False by (simp add: unsplice_def)
  next
    case True
    then show ?thesis by (simp add: unsplice_def)
  qed
  ultimately show ?thesis using ok by (auto simp: lists_in_def)
qed

lemma lists_in_node:
  assumes "lists_in h Q" "Q l = as @ n # bs"
  shows "nxt h (Inr n) = after l bs" "prv h (Inr n) = before l as"
    "nxt h (Inr n) \<noteq> Inr n" "prv h (Inr n) \<noteq> Inr n"
proof -
  have sg: "seg h (Inl l) (map Inr (as @ n # bs)) (Inl l)" and d: "distinct (as @ n # bs)"
    using assms by (auto simp: lists_in_def lists_ok_def simp flip: assms(2))
  show eqs: "nxt h (Inr n) = after l bs" "prv h (Inr n) = before l as"
    using seg_neighbours[OF sg] by auto
  show "nxt h (Inr n) \<noteq> Inr n" "prv h (Inr n) \<noteq> Inr n"
    using d after_in[of l bs] before_in[of l as] unfolding eqs by auto
qed

lemma lists_in_head:
  assumes "lists_in h Q" shows "nxt h (Inl l) = after l (Q l)" "prv h (Inl l) = before l (Q l)"
  using assms seg_next[of h "Inl l" "map Inr (Q l)" "Inl l"] seg_prev[of h "Inl l" "map Inr (Q l)" "Inl l"]
  by (simp_all add: lists_in_def after_def before_def)

lemma rt_list_remove_refines:
  assumes "lists_in h Q" shows "lists_in (rt_list_remove (Inr n) h) (q_remove n Q)"
proof (cases "linked Q n")
  case True
  then obtain l as bs where Q: "Q l = as @ n # bs" by (auto simp: linked_def dest!: split_list)
  note nd = lists_in_node[OF assms Q]
  show ?thesis using lists_in_unsplice[OF assms Q] remove_unsplice[OF nd(3,4)] nd(1,2) by simp
next
  case False
  then have "nxt h (Inr n) = Inr n" "prv h (Inr n) = Inr n" using assms by (auto simp: lists_in_def)
  then show ?thesis using assms False by (simp add: remove_self q_remove_unlinked)
qed

lemma rt_list_insert_before_head_refines:
  assumes L: "lists_in h Q" and n: "\<not> linked Q n"
  shows "lists_in (rt_list_insert_before (Inl l) (Inr n) h) (q_push_back l n Q)"
proof -
  have p: "prv h (Inl l) = before l (Q l)" by (rule lists_in_head[OF L])
  have "n \<notin> set (Q l)" using n by (simp add: linked_def)
  then have "prv h (Inl l) \<noteq> Inr n" using p before_in[of l "Q l"] by auto
  then show ?thesis using lists_in_splice[OF L n, of l "Q l" "[]"] p
    by (simp add: insert_before_splice q_push_back_def)
qed

lemma rt_list_insert_after_head_refines:
  assumes L: "lists_in h Q" and n: "\<not> linked Q n"
  shows "lists_in (rt_list_insert_after (Inl l) (Inr n) h) (q_push_front l n Q)"
proof -
  have p: "nxt h (Inl l) = after l (Q l)" by (rule lists_in_head[OF L])
  have "n \<notin> set (Q l)" using n by (simp add: linked_def)
  then have "nxt h (Inl l) \<noteq> Inr n" using p after_in[of l "Q l"] by auto
  then show ?thesis using lists_in_splice[OF L n, of l "[]" "Q l"] p
    by (simp add: insert_after_splice q_push_front_def)
qed

lemma q_insert_before_split:
  assumes "lists_ok Q" "Q l = as @ y # bs"
  shows "q_insert_before y n Q = Q(l := as @ n # y # bs)"
proof (rule ext)
  fix k
  have "distinct (as @ y # bs)" using lists_ok_distinct[OF assms(1), of l] assms(2) by simp
  moreover have "y \<notin> set (Q k)" if "k \<noteq> l" using lists_ok_unique[OF assms(1), of y k l] assms(2) that by auto
  ultimately show "q_insert_before y n Q k = (Q(l := as @ n # y # bs)) k"
    using assms(2) by (auto simp: insert_before_split)
qed

lemma rt_list_insert_before_node_refines:
  assumes L: "lists_in h Q" and n: "\<not> linked Q n" and y: "y \<in> set (Q l)"
  shows "lists_in (rt_list_insert_before (Inr y) (Inr n) h) (q_insert_before y n Q)"
proof -
  obtain as bs where Q: "Q l = as @ y # bs" using split_list[OF y] by auto
  have "n \<notin> set (Q l)" using n by (simp add: linked_def)
  then have ny: "n \<noteq> y" "n \<notin> set as" using Q by auto
  note nd = lists_in_node[OF L Q]
  have "prv h (Inr y) \<noteq> Inr n" using nd(2) before_in[of l as] ny by auto
  moreover have "q_insert_before y n Q = Q(l := as @ n # y # bs)"
    using L Q by (auto simp: lists_in_def intro: q_insert_before_split)
  moreover have "lists_in (splice (before l as) (Inr n) (Inr y) h) (Q(l := as @ n # y # bs))"
    using lists_in_splice[OF L n, of l as "y # bs"] Q by simp
  ultimately show ?thesis using nd(2) ny(1) by (simp add: insert_before_splice)
qed

lemma rt_list_insert_after_node_refines:
  assumes L: "lists_in h Q" and n: "\<not> linked Q n" and Q: "Q l = as @ y # bs"
  shows "lists_in (rt_list_insert_after (Inr y) (Inr n) h) (Q(l := as @ y # n # bs))"
proof -
  have "n \<notin> set (Q l)" using n by (simp add: linked_def)
  then have ny: "n \<noteq> y" "n \<notin> set bs" using Q by auto
  note nd = lists_in_node[OF L Q]
  have "nxt h (Inr y) \<noteq> Inr n" using nd(1) after_in[of l bs] ny by auto
  moreover have "lists_in (splice (Inr y) (Inr n) (after l bs) h) (Q(l := as @ y # n # bs))"
    using lists_in_splice[OF L n, of l "as @ [y]" bs] Q by simp
  ultimately show ?thesis using nd(1) ny(1) by (simp add: insert_after_splice)
qed

lemma rt_list_isempty_refines:
  "lists_in h Q \<Longrightarrow> rt_list_isempty (Inl l) h \<longleftrightarrow> Q l = []"
  using lists_in_head(1)[of h Q l] by (cases "Q l") (auto simp: rt_list_isempty_def)

lemma rt_list_len_refines:
  assumes "lists_in h Q" shows "rt_list_len (Inl l) h = Some (length (Q l))"
proof -
  have "ring h (Inl l) (map Inr (Q l))"
    using assms by (auto simp: lists_in_def ring_def lists_ok_def distinct_map inj_on_def)
  then show ?thesis using ring_len by fastforce
qed

section \<open>The queue interface\<close>

text \<open>
  What the kernel relies on when it keeps threads in lists: \<open>rel q Q\<close> relates a store to the
  lists it represents. The client lemmas are proved once from the laws; the pointer store and
  the plain lists are both providers.
\<close>

locale thread_queues =
  fixes rel :: "'q \<Rightarrow> ('h, 'n) queues \<Rightarrow> bool"
    and remove :: "'n \<Rightarrow> 'q \<Rightarrow> 'q"
    and push_back :: "'h \<Rightarrow> 'n \<Rightarrow> 'q \<Rightarrow> 'q"
    and push_front :: "'h \<Rightarrow> 'n \<Rightarrow> 'q \<Rightarrow> 'q"
    and is_empty :: "'h \<Rightarrow> 'q \<Rightarrow> bool"
  assumes rel_ok: "rel q Q \<Longrightarrow> lists_ok Q"
    and rel_remove: "rel q Q \<Longrightarrow> rel (remove n q) (q_remove n Q)"
    and rel_push_back: "rel q Q \<Longrightarrow> \<not> linked Q n \<Longrightarrow> rel (push_back l n q) (q_push_back l n Q)"
    and rel_push_front: "rel q Q \<Longrightarrow> \<not> linked Q n \<Longrightarrow> rel (push_front l n q) (q_push_front l n Q)"
    and rel_is_empty: "rel q Q \<Longrightarrow> is_empty l q \<longleftrightarrow> Q l = []"
begin

text \<open>Filling a queue keeps arrival order; emptying it from the front gives it back.\<close>

lemma push_back_all:
  "rel q Q \<Longrightarrow> distinct ns \<Longrightarrow> (\<forall>n \<in> set ns. \<not> linked Q n) \<Longrightarrow>
   rel (fold (push_back l) ns q) (Q(l := Q l @ ns))"
proof (induction ns arbitrary: q Q)
  case Nil
  then show ?case by simp
next
  case (Cons n ns)
  have r: "rel (push_back l n q) (q_push_back l n Q)" using Cons.prems by (simp add: rel_push_back)
  have "\<forall>m \<in> set ns. \<not> linked (q_push_back l n Q) m"
    using Cons.prems(2,3) by (metis distinct.simps(2) linked_push_back list.set_intros(2))
  moreover have "distinct ns" using Cons.prems(2) by simp
  ultimately have "rel (fold (push_back l) ns (push_back l n q))
      ((q_push_back l n Q)(l := (q_push_back l n Q) l @ ns))"
    by (intro Cons.IH[OF r])
  moreover have "(q_push_back l n Q)(l := (q_push_back l n Q) l @ ns) = Q(l := Q l @ n # ns)"
    by (rule ext) simp
  ultimately show ?case by (metis fold_simps(2))
qed

lemma drain:
  "rel q Q \<Longrightarrow> Q l = ns \<Longrightarrow> rel (fold remove ns q) (Q(l := []))"
proof (induction ns arbitrary: q Q)
  case Nil
  then show ?case by (metis fold_simps(1) fun_upd_triv)
next
  case (Cons n ns)
  have ok: "lists_ok Q" using Cons.prems(1) by (rule rel_ok)
  have d: "distinct (n # ns)" using lists_ok_distinct[OF ok, of l] Cons.prems(2) by simp
  have "n \<notin> set (Q k)" if "k \<noteq> l" for k
    using lists_ok_unique[OF ok, of n k l] Cons.prems(2) that by auto
  then have "q_remove n Q = Q(l := ns)"
    using d Cons.prems(2) by (auto simp: fun_eq_iff q_remove_def)
  then have r: "rel (remove n q) (Q(l := ns))" using rel_remove[OF Cons.prems(1), of n] by simp
  have "rel (fold remove ns (remove n q)) ((Q(l := ns))(l := []))" by (rule Cons.IH[OF r]) simp
  then show ?case by (metis fold_simps(2) fun_upd_upd)
qed

text \<open>One round-robin turn: the first of a queue goes to its end.\<close>

lemma rotate_front:
  assumes "rel q Q" "Q l = n # ns"
  shows "rel (push_back l n (remove n q)) (Q(l := ns @ [n]))"
proof -
  have ok: "lists_ok Q" using assms(1) by (rule rel_ok)
  have d: "distinct (n # ns)" using lists_ok_distinct[OF ok, of l] assms(2) by simp
  have "n \<notin> set (Q k)" if "k \<noteq> l" for k
    using lists_ok_unique[OF ok, of n k l] assms(2) that by auto
  then have "q_push_back l n (q_remove n Q) = Q(l := ns @ [n])"
    using d assms(2) by (auto simp: fun_eq_iff)
  then show ?thesis
    using rel_push_back[OF rel_remove[OF assms(1), of n], of n l] by simp
qed

end

interpretation heap_queues: thread_queues lists_in "\<lambda>n. rt_list_remove (Inr n)"
  "\<lambda>l n. rt_list_insert_before (Inl l) (Inr n)" "\<lambda>l n. rt_list_insert_after (Inl l) (Inr n)"
  "\<lambda>l. rt_list_isempty (Inl l)"
  by unfold_locales
    (simp add: lists_in_def, auto simp: rt_list_remove_refines rt_list_insert_before_head_refines
      rt_list_insert_after_head_refines rt_list_isempty_refines)

interpretation plain_queues: thread_queues "\<lambda>q Q. q = Q \<and> lists_ok Q" q_remove q_push_back
  q_push_front "\<lambda>l q. q l = []"
  by unfold_locales auto

end
