(* ===== verification/SList.thy ===== *)
theory SList
  imports Prelude
begin

text \<open>
  Intrusive singly linked lists (\<open>rt_slist_*\<close> of \<open>include/rtservice.h\<close>): a store of next
  pointers, the operations, and the lists they stand for.
\<close>

section \<open>Operations\<close>

type_synonym 'a sheap = "'a \<Rightarrow> 'a option"

definition rt_slist_init :: "'a \<Rightarrow> 'a sheap \<Rightarrow> 'a sheap" where
  "rt_slist_init l h = h(l := None)"

partial_function (option) rt_slist_tail :: "'a \<Rightarrow> 'a sheap \<Rightarrow> 'a option" where
  "rt_slist_tail l h = (case h l of None \<Rightarrow> Some l | Some n \<Rightarrow> rt_slist_tail n h)"

definition rt_slist_append :: "'a \<Rightarrow> 'a \<Rightarrow> 'a sheap \<Rightarrow> 'a sheap option" where
  "rt_slist_append l n h = do { node \<leftarrow> rt_slist_tail l h; Some (h(node := Some n, n := None)) }"

definition rt_slist_insert :: "'a \<Rightarrow> 'a \<Rightarrow> 'a sheap \<Rightarrow> 'a sheap" where
  "rt_slist_insert l n h = h(n := h l, l := Some n)"

partial_function (option) slist_len_loop :: "'a option \<Rightarrow> nat \<Rightarrow> 'a sheap \<Rightarrow> nat option" where
  "slist_len_loop p len h = (case p of None \<Rightarrow> Some len | Some n \<Rightarrow> slist_len_loop (h n) (len + 1) h)"

definition rt_slist_len :: "'a \<Rightarrow> 'a sheap \<Rightarrow> nat option" where
  "rt_slist_len l h = slist_len_loop (h l) 0 h"

text \<open>The node in front of \<open>n\<close>, or the last one.\<close>

partial_function (option) slist_before :: "'a \<Rightarrow> 'a \<Rightarrow> 'a sheap \<Rightarrow> 'a option" where
  "slist_before l n h =
    (case h l of None \<Rightarrow> Some l | Some m \<Rightarrow> if m = n then Some l else slist_before m n h)"

definition rt_slist_remove :: "'a \<Rightarrow> 'a \<Rightarrow> 'a sheap \<Rightarrow> 'a sheap option" where
  "rt_slist_remove l n h = do {
     node \<leftarrow> slist_before l n h;
     Some (case h node of None \<Rightarrow> h | Some m \<Rightarrow> h(node := h m))
   }"

definition rt_slist_first :: "'a \<Rightarrow> 'a sheap \<Rightarrow> 'a option" where
  "rt_slist_first l h = h l"

definition rt_slist_next :: "'a \<Rightarrow> 'a sheap \<Rightarrow> 'a option" where
  "rt_slist_next n h = h n"

definition rt_slist_isempty :: "'a \<Rightarrow> 'a sheap \<Rightarrow> bool" where
  "rt_slist_isempty l h = (h l = None)"

section \<open>What they do to lists\<close>

text \<open>\<open>slist h l xs\<close>: from the head \<open>l\<close> the next pointers run through \<open>xs\<close> and end.\<close>

fun slist :: "'a sheap \<Rightarrow> 'a \<Rightarrow> 'a list \<Rightarrow> bool" where
  "slist h l [] = (h l = None)"
| "slist h l (x # xs) = (h l = Some x \<and> slist h x xs)"

definition slist_of :: "'a sheap \<Rightarrow> 'a \<Rightarrow> 'a list \<Rightarrow> bool" where
  "slist_of h l xs \<longleftrightarrow> slist h l xs \<and> distinct (l # xs)"

lemma slist_upd [simp]: "y \<notin> set (l # xs) \<Longrightarrow> slist (h(y := v)) l xs = slist h l xs"
  by (induction xs arbitrary: l) auto

lemma rt_slist_init_ok: "slist_of (rt_slist_init l h) l []"
  by (simp add: slist_of_def rt_slist_init_def)

lemma rt_slist_tail_ok: "slist h l xs \<Longrightarrow> rt_slist_tail l h = Some (last (l # xs))"
proof (induction xs arbitrary: l)
  case (Cons x xs)
  then show ?case by (subst rt_slist_tail.simps) simp
qed (subst rt_slist_tail.simps, simp)

lemma slist_snoc:
  "slist h l xs \<Longrightarrow> distinct (l # xs) \<Longrightarrow> n \<notin> set (l # xs) \<Longrightarrow>
   slist (h(last (l # xs) := Some n, n := None)) l (xs @ [n])"
proof (induction xs arbitrary: l)
  case (Cons x xs)
  have p: "slist h x xs" "distinct (x # xs)" "n \<notin> set (x # xs)" "h l = Some x" using Cons.prems by auto
  have "l \<notin> set (x # xs)" "l \<noteq> n" using Cons.prems by auto
  then have "l \<noteq> last (x # xs)" "l \<noteq> n" using last_in_set[of "x # xs"] by auto
  then show ?case using Cons.IH[OF p(1-3)] p(4) by (simp del: last.simps add: last_ConsR)
qed simp

lemma rt_slist_append_ok:
  assumes "slist_of h l xs" "n \<notin> set (l # xs)"
  shows "\<exists>h'. rt_slist_append l n h = Some h' \<and> slist_of h' l (xs @ [n])"
  using assms slist_snoc[of h l xs n] by (auto simp: rt_slist_append_def rt_slist_tail_ok slist_of_def)

lemma rt_slist_insert_ok:
  assumes "slist_of h l xs" "n \<notin> set (l # xs)"
  shows "slist_of (rt_slist_insert l n h) l (n # xs)"
  using assms by (cases xs) (auto simp: rt_slist_insert_def slist_of_def)

lemma slist_len_loop_ok: "slist h l xs \<Longrightarrow> slist_len_loop (h l) k h = Some (k + length xs)"
proof (induction xs arbitrary: l k)
  case (Cons x xs)
  then show ?case by (subst slist_len_loop.simps) simp
qed (subst slist_len_loop.simps, simp)

lemma rt_slist_len_ok: "slist_of h l xs \<Longrightarrow> rt_slist_len l h = Some (length xs)"
  using slist_len_loop_ok[of h l xs 0] by (simp add: rt_slist_len_def slist_of_def)

lemma slist_before_ok: "slist h l xs \<Longrightarrow> slist_before l n h = Some (last (l # takeWhile (\<lambda>x. x \<noteq> n) xs))"
proof (induction xs arbitrary: l)
  case (Cons x xs)
  then show ?case by (subst slist_before.simps) simp
qed (subst slist_before.simps, simp)

lemma slist_unlink:
  "slist h l xs \<Longrightarrow> distinct (l # xs) \<Longrightarrow> n \<in> set xs \<Longrightarrow>
   slist (h(last (l # takeWhile (\<lambda>x. x \<noteq> n) xs) := h n)) l (remove1 n xs) \<and> h (last (l # takeWhile (\<lambda>x. x \<noteq> n) xs)) = Some n"
proof (induction xs arbitrary: l)
  case (Cons x xs)
  show ?case
  proof (cases "x = n")
    case True
    have "slist (h(l := h n)) l xs"
    proof (cases xs)
      case Nil
      then show ?thesis using Cons.prems True by simp
    next
      case (Cons y ys)
      then have "l \<notin> set (y # ys)" "h n = Some y" "slist h y ys" using Cons.prems True by auto
      then show ?thesis using Cons by simp
    qed
    then show ?thesis using Cons.prems(1) True by (simp del: fun_upd_apply)
  next
    case False
    let ?p = "last (x # takeWhile (\<lambda>x. x \<noteq> n) xs)"
    have "slist h x xs" "distinct (x # xs)" "n \<in> set xs" using Cons.prems False by auto
    then have "slist (h(?p := h n)) x (remove1 n xs) \<and> h ?p = Some n" by (rule Cons.IH)
    moreover have "?p \<in> set (x # xs)" using last_in_set[of "x # takeWhile (\<lambda>x. x \<noteq> n) xs"] by (auto dest: set_takeWhileD)
    then have "l \<noteq> ?p" using Cons.prems(2) by auto
    ultimately show ?thesis using Cons.prems(1) False by (simp del: last.simps fun_upd_apply add: last_ConsR fun_upd_other)
  qed
qed simp

text \<open>The node taken out keeps its next pointer, which a loop over the list may still follow.\<close>

lemma rt_slist_remove_ok:
  assumes "slist_of h l xs"
  shows "\<exists>h'. rt_slist_remove l n h = Some h' \<and> slist_of h' l (remove1 n xs) \<and> (n \<in> set xs \<longrightarrow> h' n = h n)"
proof (cases "n \<in> set xs")
  case False
  have tw: "takeWhile (\<lambda>x. x \<noteq> n) xs = xs" using False by (auto simp: takeWhile_eq_all_conv)
  have e: "slist h l xs \<Longrightarrow> h (last (l # xs)) = None" for l by (induction xs arbitrary: l) auto
  have s: "slist h l xs" using assms by (simp add: slist_of_def)
  have "rt_slist_remove l n h = Some h"
    unfolding rt_slist_remove_def slist_before_ok[OF s] tw bind.bind_lunit e[OF s] by simp
  then show ?thesis using assms False by (simp add: remove1_idem)
next
  case True
  let ?p = "last (l # takeWhile (\<lambda>x. x \<noteq> n) xs)"
  note u = slist_unlink[of h l xs n]
  have "n \<notin> set (l # takeWhile (\<lambda>x. x \<noteq> n) xs)" using assms True by (auto simp: slist_of_def dest: set_takeWhileD)
  then have "?p \<noteq> n" using last_in_set[of "l # takeWhile (\<lambda>x. x \<noteq> n) xs"] by auto
  moreover have "rt_slist_remove l n h = Some (h(?p := h n))"
    using assms u True slist_before_ok[of h l xs n] by (simp add: rt_slist_remove_def slist_of_def del: last.simps)
  ultimately show ?thesis using u True assms notin_set_remove1[of l xs n] by (auto simp: slist_of_def simp del: last.simps)
qed

lemma slist_walk:
  assumes "slist_of h l xs"
  shows "rt_slist_isempty l h \<longleftrightarrow> xs = []" "rt_slist_first l h = (if xs = [] then None else Some (hd xs))"
    "xs = ys @ [x] @ zs \<Longrightarrow> rt_slist_next x h = (if zs = [] then None else Some (hd zs))"
proof -
  have s: "slist h l xs" using assms by (simp add: slist_of_def)
  show "rt_slist_isempty l h \<longleftrightarrow> xs = []" "rt_slist_first l h = (if xs = [] then None else Some (hd xs))"
    using s by (cases xs; simp add: rt_slist_isempty_def rt_slist_first_def)+
  have "slist h l (ys @ x # zs) \<Longrightarrow> h x = (if zs = [] then None else Some (hd zs))" for l
  proof (induction ys arbitrary: l)
    case Nil
    then show ?case by (cases zs) simp_all
  qed auto
  then show "xs = ys @ [x] @ zs \<Longrightarrow> rt_slist_next x h = (if zs = [] then None else Some (hd zs))"
    using s by (simp add: rt_slist_next_def)
qed

end
