(* ===== verification/Sched.thy ===== *)
theory Sched
  imports RtList
begin

text \<open>
  The uniprocessor scheduler of \<open>src/scheduler.c\<close> with 32 priorities (the configuration of
  \<open>rtconfig.h\<close>: no \<open>RT_USING_SMP\<close>, no \<open>RT_USING_SIGNALS\<close>), the thread control block of
  \<open>rtdef.h\<close>, the interrupt nesting counter of \<open>src/irq.c\<close>. The lists of threads are the
  plain lists of theory RtList, which the pointer operations implement. Every operation that
  can stop in \<open>RT_ASSERT\<close>, index past \<open>rt_thread_priority_table\<close> or follow a list head as
  if it were a thread returns an option, \<open>None\<close> being that failure.
\<close>

section \<open>State\<close>

record thread =
  th_stat :: u8
  th_current_priority :: u8
  th_init_priority :: u8
  th_number_mask :: u32
  th_error :: rt_err
  th_event_set :: u32
  th_event_info :: u8
  th_init_tick :: u32
  th_remaining_tick :: u32
  th_cleanup :: bool

text \<open>
  The heads a thread's \<open>tlist\<close> node can be linked under: a ready queue, the defunct list, the
  suspend list of the IPC object at an address, and the sender list of the mailbox at an address.
\<close>

datatype qhead = Ready nat | Defunct | Pend nat | PendSend nat

record ksched =
  k_threads :: "nat \<Rightarrow> thread"
  k_queues :: "(qhead, nat) queues"
  k_group :: u32
  k_current :: "nat option"
  k_current_priority :: u8
  k_lock_nest :: u16
  k_irq_nest :: u8

definition RT_THREAD_PRIORITY_MAX :: nat where "RT_THREAD_PRIORITY_MAX = 32"
definition RT_THREAD_INIT :: u8 where "RT_THREAD_INIT = 0"
definition RT_THREAD_READY :: u8 where "RT_THREAD_READY = 1"
definition RT_THREAD_SUSPEND :: u8 where "RT_THREAD_SUSPEND = 2"
definition RT_THREAD_RUNNING :: u8 where "RT_THREAD_RUNNING = 3"
definition RT_THREAD_CLOSE :: u8 where "RT_THREAD_CLOSE = 4"
definition RT_THREAD_STAT_MASK :: u8 where "RT_THREAD_STAT_MASK = 0x0f"

lemmas stat_defs = RT_THREAD_INIT_def RT_THREAD_READY_def RT_THREAD_SUSPEND_def
  RT_THREAD_RUNNING_def RT_THREAD_CLOSE_def

definition stat_of :: "thread \<Rightarrow> u8" where
  "stat_of th = th_stat th AND RT_THREAD_STAT_MASK"

definition set_stat :: "u8 \<Rightarrow> thread \<Rightarrow> thread" where
  "set_stat s th = th\<lparr>th_stat := s OR (th_stat th AND NOT RT_THREAD_STAT_MASK)\<rparr>"

definition upd_thread :: "nat \<Rightarrow> (thread \<Rightarrow> thread) \<Rightarrow> 'a ksched_scheme \<Rightarrow> 'a ksched_scheme" where
  "upd_thread t f k = k\<lparr>k_threads := (k_threads k)(t := f (k_threads k t))\<rparr>"

definition prio_of :: "'a ksched_scheme \<Rightarrow> nat \<Rightarrow> nat" where
  "prio_of k t = unat (th_current_priority (k_threads k t))"

abbreviation tstat :: "'a ksched_scheme \<Rightarrow> nat \<Rightarrow> u8" where
  "tstat k t \<equiv> stat_of (k_threads k t)"

section \<open>Ready queues\<close>

text \<open>\<open>__rt_ffs\<close> of the Cortex-M4 port: one plus the index of the least set bit, 0 for 0.\<close>

definition rt_ffs :: "u32 \<Rightarrow> nat" where
  "rt_ffs w = (case find (\<lambda>i. bit w i) [0..<32] of None \<Rightarrow> 0 | Some i \<Rightarrow> Suc i)"

definition get_highest_priority_thread :: "'a ksched_scheme \<Rightarrow> (nat \<times> nat) option" where
  "get_highest_priority_thread k =
    (case rt_ffs (k_group k) of 0 \<Rightarrow> None
     | Suc p \<Rightarrow> (case k_queues k (Ready p) of [] \<Rightarrow> None | t # _ \<Rightarrow> Some (t, p)))"

definition rt_schedule_insert_thread :: "nat \<Rightarrow> 'a ksched_scheme \<Rightarrow> 'a ksched_scheme option" where
  "rt_schedule_insert_thread t k =
    (if k_current k = Some t then Some (upd_thread t (set_stat RT_THREAD_RUNNING) k)
     else do {
       let k1 = upd_thread t (set_stat RT_THREAD_READY) k;
       rt_assert (prio_of k1 t < RT_THREAD_PRIORITY_MAX);
       Some (k1\<lparr>k_queues := q_push_back (Ready (prio_of k1 t)) t (k_queues k1),
               k_group := k_group k1 OR th_number_mask (k_threads k1 t)\<rparr>)
     })"

definition rt_schedule_remove_thread :: "nat \<Rightarrow> 'a ksched_scheme \<Rightarrow> 'a ksched_scheme option" where
  "rt_schedule_remove_thread t k = do {
     let k1 = k\<lparr>k_queues := q_remove t (k_queues k)\<rparr>;
     rt_assert (prio_of k t < RT_THREAD_PRIORITY_MAX);
     Some (if k_queues k1 (Ready (prio_of k t)) = []
           then k1\<lparr>k_group := k_group k1 AND NOT (th_number_mask (k_threads k t))\<rparr> else k1)
   }"

section \<open>Scheduling\<close>

definition rt_system_scheduler_init :: "'a ksched_scheme \<Rightarrow> 'a ksched_scheme" where
  "rt_system_scheduler_init k =
    k\<lparr>k_lock_nest := 0,
      k_queues := (\<lambda>l. case l of Ready p \<Rightarrow> if p < RT_THREAD_PRIORITY_MAX then [] else k_queues k l
                      | Defunct \<Rightarrow> [] | _ \<Rightarrow> k_queues k l),
      k_group := 0\<rparr>"

definition rt_system_scheduler_start :: "'a ksched_scheme \<Rightarrow> 'a ksched_scheme option" where
  "rt_system_scheduler_start k = do {
     (to, p) \<leftarrow> get_highest_priority_thread k;
     let k1 = k\<lparr>k_current := Some to\<rparr>;
     k2 \<leftarrow> rt_schedule_remove_thread to k1;
     Some (upd_thread to (\<lambda>th. th\<lparr>th_stat := RT_THREAD_RUNNING\<rparr>) k2)
   }"

text \<open>
  \<open>rt_schedule\<close>: the destination is the head of the highest non-empty ready queue, unless the
  running thread has a strictly higher priority (a smaller number); a running thread that loses
  goes to the tail of its queue. The context switch itself is the port's. The scheduler hook and
  the stack check, which only report, are not part of the state.
\<close>

definition switch_to :: "nat \<Rightarrow> nat \<Rightarrow> nat \<Rightarrow> bool \<Rightarrow> 'a ksched_scheme \<Rightarrow> 'a ksched_scheme option" where
  "switch_to from to p need_insert k = do {
     let k1 = k\<lparr>k_current_priority := of_nat p, k_current := Some to\<rparr>;
     k2 \<leftarrow> (if need_insert then rt_schedule_insert_thread from k1 else Some k1);
     k3 \<leftarrow> rt_schedule_remove_thread to k2;
     Some (upd_thread to (set_stat RT_THREAD_RUNNING) k3)
   }"

definition rt_schedule :: "'a ksched_scheme \<Rightarrow> 'a ksched_scheme option" where
  "rt_schedule k =
    (if k_lock_nest k = 0 \<and> k_group k \<noteq> 0 then do {
       (hi, p) \<leftarrow> get_highest_priority_thread k;
       cur \<leftarrow> k_current k;
       let running = (tstat k cur = RT_THREAD_RUNNING);
       let keep = (running \<and> prio_of k cur < p);
       let to = (if keep then cur else hi);
       if to \<noteq> cur then switch_to cur to p (running \<and> \<not> keep) k
       else do {
         k1 \<leftarrow> rt_schedule_remove_thread cur k;
         Some (upd_thread cur (set_stat RT_THREAD_RUNNING) k1)
       }
     } else Some k)"

section \<open>Locking the scheduler, interrupt nesting\<close>

definition rt_enter_critical :: "'a ksched_scheme \<Rightarrow> 'a ksched_scheme" where
  "rt_enter_critical k = k\<lparr>k_lock_nest := k_lock_nest k + 1\<rparr>"

text \<open>\<open>rt_scheduler_lock_nest\<close> is a signed 16-bit counter; the test \<open><= 0\<close> reads it as such.\<close>

definition rt_exit_critical :: "'a ksched_scheme \<Rightarrow> 'a ksched_scheme option" where
  "rt_exit_critical k =
    (let k1 = k\<lparr>k_lock_nest := k_lock_nest k - 1\<rparr> in
     if sint (k_lock_nest k1) \<le> 0 then
       (let k2 = k1\<lparr>k_lock_nest := 0\<rparr> in
        if k_current k2 \<noteq> None then rt_schedule k2 else Some k2)
     else Some k1)"

definition rt_critical_level :: "'a ksched_scheme \<Rightarrow> u16" where
  "rt_critical_level k = k_lock_nest k"

definition rt_interrupt_enter :: "'a ksched_scheme \<Rightarrow> 'a ksched_scheme" where
  "rt_interrupt_enter k = k\<lparr>k_irq_nest := k_irq_nest k + 1\<rparr>"

definition rt_interrupt_leave :: "'a ksched_scheme \<Rightarrow> 'a ksched_scheme" where
  "rt_interrupt_leave k = k\<lparr>k_irq_nest := k_irq_nest k - 1\<rparr>"

definition rt_interrupt_get_nest :: "'a ksched_scheme \<Rightarrow> u8" where
  "rt_interrupt_get_nest k = k_irq_nest k"

section \<open>The scheduler invariant\<close>

text \<open>
  \<open>sched_inv X k\<close>: every thread outside \<open>X\<close> sits in exactly the list its status names, and
  bit \<open>p\<close> of the priority group is set exactly when ready queue \<open>p\<close> is not empty. \<open>X\<close>
  holds the threads an operation has taken out of their list and not yet put back.
\<close>

definition prio_mask :: "nat \<Rightarrow> u32" where
  "prio_mask p = push_bit p 1"

definition mask_ok :: "'a ksched_scheme \<Rightarrow> nat \<Rightarrow> bool" where
  "mask_ok k t \<longleftrightarrow> prio_of k t < RT_THREAD_PRIORITY_MAX \<and>
     th_number_mask (k_threads k t) = prio_mask (prio_of k t)"

definition thread_ok :: "'a ksched_scheme \<Rightarrow> nat \<Rightarrow> bool" where
  "thread_ok k t \<longleftrightarrow>
     (\<forall>p. t \<in> set (k_queues k (Ready p)) \<longrightarrow> tstat k t = RT_THREAD_READY \<and> prio_of k t = p) \<and>
     (tstat k t = RT_THREAD_READY \<longrightarrow> t \<in> set (k_queues k (Ready (prio_of k t)))) \<and>
     (tstat k t = RT_THREAD_RUNNING \<longrightarrow> k_current k = Some t \<and> \<not> linked (k_queues k) t) \<and>
     (tstat k t \<in> {RT_THREAD_READY, RT_THREAD_RUNNING, RT_THREAD_SUSPEND} \<longrightarrow> mask_ok k t) \<and>
     (\<forall>a. t \<in> set (k_queues k (Pend a)) \<union> set (k_queues k (PendSend a)) \<longrightarrow> tstat k t = RT_THREAD_SUSPEND) \<and>
     (t \<in> set (k_queues k Defunct) \<longrightarrow> tstat k t = RT_THREAD_CLOSE)"

definition group_ok :: "'a ksched_scheme \<Rightarrow> bool" where
  "group_ok k \<longleftrightarrow> (\<forall>p. k_queues k (Ready p) \<noteq> [] \<longleftrightarrow> bit (k_group k) p)"

definition sched_inv :: "nat set \<Rightarrow> 'a ksched_scheme \<Rightarrow> bool" where
  "sched_inv X k \<longleftrightarrow> lists_ok (k_queues k) \<and> group_ok k \<and>
     (\<forall>t \<in> X. \<not> linked (k_queues k) t) \<and> (\<forall>t. t \<notin> X \<longrightarrow> thread_ok k t)"

text \<open>The current thread is running, or has just left the running state and awaits \<open>rt_schedule\<close>.\<close>

definition cur_ok :: "'a ksched_scheme \<Rightarrow> bool" where
  "cur_ok k \<longleftrightarrow> (\<exists>c. k_current k = Some c \<and> tstat k c \<noteq> RT_THREAD_READY)"

section \<open>Status words\<close>

lemma stat_of_set_stat [simp]:
  "stat_of (set_stat RT_THREAD_INIT th) = RT_THREAD_INIT"
  "stat_of (set_stat RT_THREAD_READY th) = RT_THREAD_READY"
  "stat_of (set_stat RT_THREAD_SUSPEND th) = RT_THREAD_SUSPEND"
  "stat_of (set_stat RT_THREAD_RUNNING th) = RT_THREAD_RUNNING"
  "stat_of (set_stat RT_THREAD_CLOSE th) = RT_THREAD_CLOSE"
  by (simp_all add: stat_of_def set_stat_def stat_defs RT_THREAD_STAT_MASK_def
      and.assoc bit.conj_disj_distrib2)

lemma stat_of_plain [simp]:
  "stat_of (th\<lparr>th_stat := RT_THREAD_INIT\<rparr>) = RT_THREAD_INIT"
  "stat_of (th\<lparr>th_stat := RT_THREAD_READY\<rparr>) = RT_THREAD_READY"
  "stat_of (th\<lparr>th_stat := RT_THREAD_SUSPEND\<rparr>) = RT_THREAD_SUSPEND"
  "stat_of (th\<lparr>th_stat := RT_THREAD_RUNNING\<rparr>) = RT_THREAD_RUNNING"
  "stat_of (th\<lparr>th_stat := RT_THREAD_CLOSE\<rparr>) = RT_THREAD_CLOSE"
  by (simp_all add: stat_of_def stat_defs RT_THREAD_STAT_MASK_def)

lemma stat_of_error [simp]: "stat_of (th\<lparr>th_error := e\<rparr>) = stat_of th"
  by (simp add: stat_of_def)

lemma set_stat_same: "stat_of th = s \<Longrightarrow> set_stat s th = th"
  by (auto simp: set_stat_def stat_of_def simp flip: bit.conj_disj_distrib)

lemma stat_distinct [simp]:
  "RT_THREAD_READY \<noteq> RT_THREAD_RUNNING" "RT_THREAD_READY \<noteq> RT_THREAD_SUSPEND"
  "RT_THREAD_READY \<noteq> RT_THREAD_CLOSE" "RT_THREAD_READY \<noteq> RT_THREAD_INIT"
  "RT_THREAD_RUNNING \<noteq> RT_THREAD_READY" "RT_THREAD_RUNNING \<noteq> RT_THREAD_SUSPEND"
  "RT_THREAD_RUNNING \<noteq> RT_THREAD_CLOSE" "RT_THREAD_RUNNING \<noteq> RT_THREAD_INIT"
  "RT_THREAD_SUSPEND \<noteq> RT_THREAD_READY" "RT_THREAD_SUSPEND \<noteq> RT_THREAD_RUNNING"
  "RT_THREAD_SUSPEND \<noteq> RT_THREAD_CLOSE" "RT_THREAD_SUSPEND \<noteq> RT_THREAD_INIT"
  "RT_THREAD_CLOSE \<noteq> RT_THREAD_READY" "RT_THREAD_CLOSE \<noteq> RT_THREAD_RUNNING"
  "RT_THREAD_CLOSE \<noteq> RT_THREAD_SUSPEND" "RT_THREAD_CLOSE \<noteq> RT_THREAD_INIT"
  "RT_THREAD_INIT \<noteq> RT_THREAD_READY" "RT_THREAD_INIT \<noteq> RT_THREAD_RUNNING"
  "RT_THREAD_INIT \<noteq> RT_THREAD_SUSPEND" "RT_THREAD_INIT \<noteq> RT_THREAD_CLOSE"
  by (simp_all add: stat_defs)

lemma set_stat_fields [simp]:
  "th_current_priority (set_stat s th) = th_current_priority th"
  "th_init_priority (set_stat s th) = th_init_priority th"
  "th_number_mask (set_stat s th) = th_number_mask th"
  "th_error (set_stat s th) = th_error th"
  "th_event_set (set_stat s th) = th_event_set th"
  "th_event_info (set_stat s th) = th_event_info th"
  "th_init_tick (set_stat s th) = th_init_tick th"
  "th_remaining_tick (set_stat s th) = th_remaining_tick th"
  "th_cleanup (set_stat s th) = th_cleanup th"
  by (simp_all add: set_stat_def)

lemma upd_thread_simps [simp]:
  "k_threads (upd_thread t f k) = (k_threads k)(t := f (k_threads k t))"
  "k_queues (upd_thread t f k) = k_queues k" "k_group (upd_thread t f k) = k_group k"
  "k_current (upd_thread t f k) = k_current k" "k_lock_nest (upd_thread t f k) = k_lock_nest k"
  "k_irq_nest (upd_thread t f k) = k_irq_nest k"
  "k_current_priority (upd_thread t f k) = k_current_priority k"
  "ksched.more (upd_thread t f k) = ksched.more k"
  by (simp_all add: upd_thread_def)

lemma upd_thread_same: "f (k_threads k t) = k_threads k t \<Longrightarrow> upd_thread t f k = k"
  by (simp add: upd_thread_def)

section \<open>The priority group\<close>

lemma bit_32: "bit (w :: u32) i \<Longrightarrow> i < 32"
  by (auto dest: bit_imp_le_length)

lemma rt_ffs_Suc: "rt_ffs w = Suc p \<longleftrightarrow> bit w p \<and> (\<forall>q<p. \<not> bit w q)"
proof -
  have "find (\<lambda>i. bit w i) [0..<32] = Some p \<longleftrightarrow> p < 32 \<and> bit w p \<and> (\<forall>q<p. \<not> bit w q)"
    by (auto simp: find_Some_iff)
  then show ?thesis using bit_32[of w p] by (auto simp: rt_ffs_def split: option.splits)
qed

lemma rt_ffs_0: "rt_ffs w = 0 \<longleftrightarrow> w = 0"
proof -
  have "rt_ffs w = 0 \<longleftrightarrow> find (\<lambda>i. bit w i) [0..<32] = None"
    by (auto simp: rt_ffs_def split: option.splits)
  also have "\<dots> \<longleftrightarrow> (\<forall>i<32. \<not> bit w i)" by (auto simp: find_None_iff)
  also have "\<dots> \<longleftrightarrow> w = 0" using bit_32[of w] by (auto simp: bit_eq_iff)
  finally show ?thesis .
qed

lemma bit_prio_mask [simp]: "bit (prio_mask p) q \<longleftrightarrow> q = p \<and> p < 32"
  by (auto simp: prio_mask_def bit_exp_iff)

lemma group_insert:
  assumes "group_ok k" "p < 32"
  shows "group_ok (k\<lparr>k_queues := q_push_back (Ready p) t (k_queues k),
                     k_group := k_group k OR prio_mask p\<rparr>)"
  using assms by (auto simp: group_ok_def bit_or_iff)

lemma bit_clear_mask: "bit (g AND NOT (prio_mask p)) q \<longleftrightarrow> bit g q \<and> q \<noteq> p"
  using bit_32[of g q] by (auto simp: bit_and_iff bit_not_iff)

section \<open>Inserting and removing one thread\<close>

lemma prio_of_upd [simp]: "prio_of (upd_thread t (set_stat s) k) u = prio_of k u"
  by (simp add: prio_of_def)

lemma insert_current:
  "k_current k = Some t \<Longrightarrow>
   rt_schedule_insert_thread t k = Some (upd_thread t (set_stat RT_THREAD_RUNNING) k)"
  by (simp add: rt_schedule_insert_thread_def)

lemma insert_other:
  assumes "k_current k \<noteq> Some t" "mask_ok k t"
  shows "rt_schedule_insert_thread t k =
    Some ((upd_thread t (set_stat RT_THREAD_READY) k)
      \<lparr>k_queues := q_push_back (Ready (prio_of k t)) t (k_queues k),
       k_group := k_group k OR prio_mask (prio_of k t)\<rparr>)"
  using assms by (simp add: rt_schedule_insert_thread_def mask_ok_def)

lemma remove_thread:
  assumes "prio_of k t < 32"
  shows "rt_schedule_remove_thread t k =
    Some (k\<lparr>k_queues := q_remove t (k_queues k),
            k_group := (if q_remove t (k_queues k) (Ready (prio_of k t)) = []
                        then k_group k AND NOT (th_number_mask (k_threads k t)) else k_group k)\<rparr>)"
  using assms by (simp add: rt_schedule_remove_thread_def RT_THREAD_PRIORITY_MAX_def)

lemma thread_ok_cong:
  "k_threads k' t = k_threads k t \<Longrightarrow>
   (\<And>l. t \<in> set (k_queues k' l) \<longleftrightarrow> t \<in> set (k_queues k l)) \<Longrightarrow>
   (k_current k' = Some t \<longleftrightarrow> k_current k = Some t) \<Longrightarrow> thread_ok k' t \<longleftrightarrow> thread_ok k t"
  by (simp add: thread_ok_def mask_ok_def prio_of_def linked_def)

lemma thread_okD:
  assumes "thread_ok k t"
  shows "t \<in> set (k_queues k (Ready p)) \<Longrightarrow> tstat k t = RT_THREAD_READY"
    "t \<in> set (k_queues k (Ready p)) \<Longrightarrow> prio_of k t = p"
    "tstat k t = RT_THREAD_READY \<Longrightarrow> t \<in> set (k_queues k (Ready (prio_of k t)))"
    "tstat k t = RT_THREAD_RUNNING \<Longrightarrow> k_current k = Some t"
    "tstat k t = RT_THREAD_RUNNING \<Longrightarrow> \<not> linked (k_queues k) t"
    "tstat k t \<in> {RT_THREAD_READY, RT_THREAD_RUNNING, RT_THREAD_SUSPEND} \<Longrightarrow> mask_ok k t"
    "t \<in> set (k_queues k (Pend a)) \<Longrightarrow> tstat k t = RT_THREAD_SUSPEND"
    "t \<in> set (k_queues k (PendSend a)) \<Longrightarrow> tstat k t = RT_THREAD_SUSPEND"
    "t \<in> set (k_queues k Defunct) \<Longrightarrow> tstat k t = RT_THREAD_CLOSE"
  using assms by (auto simp: thread_ok_def)

lemma sched_invI:
  "lists_ok (k_queues k) \<Longrightarrow> group_ok k \<Longrightarrow> (\<And>t. t \<in> X \<Longrightarrow> \<not> linked (k_queues k) t) \<Longrightarrow>
   (\<And>t. t \<notin> X \<Longrightarrow> thread_ok k t) \<Longrightarrow> sched_inv X k"
  by (simp add: sched_inv_def)

lemma sched_invD:
  assumes "sched_inv X k"
  shows "lists_ok (k_queues k)" "group_ok k" "t \<in> X \<Longrightarrow> \<not> linked (k_queues k) t"
    "t \<notin> X \<Longrightarrow> thread_ok k t"
  using assms by (auto simp: sched_inv_def)

lemma sched_inv_insert:
  assumes inv: "sched_inv X k" and t: "t \<in> X" "mask_ok k t" and c: "k_current k \<noteq> Some t"
  shows "\<exists>k'. rt_schedule_insert_thread t k = Some k' \<and> sched_inv (X - {t}) k'"
proof -
  let ?k = "(upd_thread t (set_stat RT_THREAD_READY) k)
      \<lparr>k_queues := q_push_back (Ready (prio_of k t)) t (k_queues k),
       k_group := k_group k OR prio_mask (prio_of k t)\<rparr>"
  have nl: "\<not> linked (k_queues k) t" using inv t by (simp add: sched_inv_def)
  have "lists_ok (k_queues ?k)" using inv nl by (auto simp: sched_inv_def)
  moreover have "group_ok ?k"
    using group_insert[of k "prio_of k t" t] inv t(2)
    by (simp add: sched_inv_def mask_ok_def RT_THREAD_PRIORITY_MAX_def group_ok_def)
  moreover have "thread_ok ?k t"
    using nl t(2) c by (auto simp: thread_ok_def mask_ok_def prio_of_def linked_def)
  moreover have "thread_ok ?k u" if "u \<noteq> t" "u \<notin> X" for u
    using that inv by (subst thread_ok_cong[of ?k u k]) (auto simp: sched_inv_def)
  then have "thread_ok ?k u" if "u \<notin> X - {t}" for u
    using that \<open>thread_ok ?k t\<close> by (cases "u = t") auto
  moreover have "\<not> linked (k_queues ?k) u" if "u \<in> X - {t}" for u
    using inv that by (auto simp: sched_inv_def)
  ultimately have "sched_inv (X - {t}) ?k" by (intro sched_invI)
  then show ?thesis using insert_other[OF c t(2)] by blast
qed

lemma sched_inv_remove:
  assumes inv: "sched_inv X k" and t: "mask_ok k t"
  shows "\<exists>k'. rt_schedule_remove_thread t k = Some k' \<and> sched_inv (insert t X) k' \<and>
     k_threads k' = k_threads k \<and> k_current k' = k_current k \<and>
     k_queues k' = q_remove t (k_queues k) \<and> k_lock_nest k' = k_lock_nest k"
proof -
  let ?k = "k\<lparr>k_queues := q_remove t (k_queues k),
            k_group := (if q_remove t (k_queues k) (Ready (prio_of k t)) = []
                        then k_group k AND NOT (th_number_mask (k_threads k t)) else k_group k)\<rparr>"
  have grp: "group_ok k" and ok: "lists_ok (k_queues k)" using inv by (auto simp: sched_inv_def)
  have only: "p = prio_of k t" if "t \<in> set (k_queues k (Ready p))" for p
  proof -
    have "t \<notin> X" using inv that by (auto simp: sched_inv_def linked_def)
    then have "thread_ok k t" using inv by (simp add: sched_inv_def)
    then show ?thesis using that by (auto simp: thread_ok_def)
  qed
  have "group_ok ?k"
  proof -
    have "k_queues k (Ready p) \<noteq> [] \<longleftrightarrow> q_remove t (k_queues k) (Ready p) \<noteq> []" if "p \<noteq> prio_of k t" for p
      using only that by (metis q_remove_apply removeAll_id)
    moreover have "k_queues k (Ready p) \<noteq> [] \<longleftrightarrow> bit (k_group k) p" for p
      using grp by (simp add: group_ok_def)
    ultimately show ?thesis using t
      by (auto simp: group_ok_def mask_ok_def bit_clear_mask simp del: q_remove_apply)
        (metis q_remove_apply removeAll.simps(1))+
  qed
  moreover have "thread_ok ?k u" if "u \<noteq> t" "u \<notin> X" for u
    using that inv by (subst thread_ok_cong[of ?k u k]) (auto simp: sched_inv_def)
  ultimately have "sched_inv (insert t X) ?k" using inv ok by (auto simp: sched_inv_def)
  moreover have "prio_of k t < 32" using t by (simp add: mask_ok_def RT_THREAD_PRIORITY_MAX_def)
  ultimately show ?thesis using remove_thread[of k t] by (intro exI[of _ ?k]) simp
qed

lemma sched_inv_subset:
  assumes "sched_inv X k" "\<And>t. t \<in> X - Y \<Longrightarrow> thread_ok k t" "Y \<subseteq> X"
  shows "sched_inv Y k"
  using assms by (auto simp: sched_inv_def)

lemma sched_inv_upd:
  assumes "sched_inv X k" "t \<in> X" shows "sched_inv X (upd_thread t f k)"
proof -
  have "thread_ok (upd_thread t f k) u" if "u \<notin> X" for u
    using that assms by (subst thread_ok_cong[of _ u k]) (auto simp: sched_inv_def)
  then show ?thesis using assms by (auto simp: sched_inv_def group_ok_def)
qed

lemma sched_inv_current:
  assumes inv: "sched_inv X k" and lv: "\<And>t. k_current k = Some t \<Longrightarrow> tstat k t = RT_THREAD_RUNNING \<Longrightarrow> t \<notin> Y \<Longrightarrow> c = Some t"
    and XY: "X \<subseteq> Y" "\<And>t. t \<in> Y \<Longrightarrow> \<not> linked (k_queues k) t"
  shows "sched_inv Y (k\<lparr>k_current_priority := p, k_current := c\<rparr>)"
proof -
  have "thread_ok (k\<lparr>k_current_priority := p, k_current := c\<rparr>) u" if "u \<notin> Y" for u
  proof -
    have "thread_ok k u" using inv that XY(1) by (auto simp: sched_inv_def)
    then show ?thesis using lv[of u] that by (auto simp: thread_ok_def mask_ok_def prio_of_def)
  qed
  then show ?thesis using inv XY by (auto simp: sched_inv_def group_ok_def)
qed

lemma thread_ok_unlinked:
  assumes "\<not> linked (k_queues k) t" "tstat k t \<noteq> RT_THREAD_READY"
    and "tstat k t = RT_THREAD_RUNNING \<Longrightarrow> k_current k = Some t"
    and "tstat k t \<in> {RT_THREAD_RUNNING, RT_THREAD_SUSPEND} \<Longrightarrow> mask_ok k t"
  shows "thread_ok k t"
  using assms by (auto simp: thread_ok_def linked_def)

text \<open>Putting a thread back: running if it is still the current thread, ready otherwise.\<close>

definition back_stat :: "nat \<Rightarrow> 'a ksched_scheme \<Rightarrow> u8" where
  "back_stat t k = (if k_current k = Some t then RT_THREAD_RUNNING else RT_THREAD_READY)"

lemma insert_spec:
  assumes inv: "sched_inv X k" and t: "t \<in> X" "mask_ok k t"
  obtains k' where "rt_schedule_insert_thread t k = Some k'" "sched_inv (X - {t}) k'"
    "k_threads k' = (k_threads k)(t := set_stat (back_stat t k) (k_threads k t))"
    "k_queues k' = (if k_current k = Some t then k_queues k else q_push_back (Ready (prio_of k t)) t (k_queues k))"
    "k_current k' = k_current k" "k_lock_nest k' = k_lock_nest k" "k_irq_nest k' = k_irq_nest k"
    "ksched.more k' = ksched.more k"
proof (cases "k_current k = Some t")
  case True
  let ?k = "upd_thread t (set_stat RT_THREAD_RUNNING) k"
  have a: "sched_inv X ?k" by (rule sched_inv_upd[OF inv t(1)])
  have m: "mask_ok ?k t" using t(2) by (simp add: mask_ok_def)
  have b: "thread_ok ?k t"
    by (rule thread_ok_unlinked) (use sched_invD(3)[OF a t(1)] True m in simp_all)
  have "sched_inv (X - {t}) ?k" by (rule sched_inv_subset[OF a]) (use b in auto)
  then show ?thesis using True by (intro that[of ?k]) (simp_all add: insert_current back_stat_def)
next
  case False
  then show ?thesis using that sched_inv_insert[OF inv t False] insert_other[OF False t(2)]
    by (auto simp: back_stat_def)
qed

lemma remove_spec:
  assumes inv: "sched_inv X k" and t: "mask_ok k t"
  obtains k' where "rt_schedule_remove_thread t k = Some k'" "sched_inv (insert t X) k'"
    "k_threads k' = k_threads k" "k_queues k' = q_remove t (k_queues k)"
    "k_current k' = k_current k" "k_lock_nest k' = k_lock_nest k" "k_irq_nest k' = k_irq_nest k"
    "ksched.more k' = ksched.more k"
proof -
  obtain k' where k': "rt_schedule_remove_thread t k = Some k'" "sched_inv (insert t X) k'"
    using sched_inv_remove[OF inv t] by blast
  moreover from k'(1) have "k_threads k' = k_threads k" "k_queues k' = q_remove t (k_queues k)"
    "k_current k' = k_current k" "k_lock_nest k' = k_lock_nest k" "k_irq_nest k' = k_irq_nest k"
    "ksched.more k' = ksched.more k"
    by (auto simp: rt_schedule_remove_thread_def Let_def split: bind_splits)
  ultimately show ?thesis using that by blast
qed

lemma sched_inv_unlink:
  assumes inv: "sched_inv X k" and t: "\<And>p. t \<notin> set (k_queues k (Ready p))"
  shows "sched_inv (insert t X) (k\<lparr>k_queues := q_remove t (k_queues k)\<rparr>)"
proof (rule sched_invI)
  let ?k = "k\<lparr>k_queues := q_remove t (k_queues k)\<rparr>"
  show "lists_ok (k_queues ?k)" using sched_invD(1)[OF inv] by auto
  have "k_queues ?k (Ready p) = k_queues k (Ready p)" for p using t by simp
  then show "group_ok ?k" using sched_invD(2)[OF inv] by (simp only: group_ok_def) simp
  show "\<not> linked (k_queues ?k) u" if "u \<in> insert t X" for u
    using that sched_invD(3)[OF inv, of u] by auto
  show "thread_ok ?k u" if "u \<notin> insert t X" for u
    using that sched_invD(4)[OF inv, of u] by (subst thread_ok_cong[of ?k u k]) auto
qed

lemma not_in_ready: "thread_ok k t \<Longrightarrow> tstat k t \<noteq> RT_THREAD_READY \<Longrightarrow> t \<notin> set (k_queues k (Ready p))"
  using thread_okD(1) by metis

text \<open>A thread that is in no list can be linked under a head its status allows.\<close>

lemma sched_inv_link:
  assumes inv: "sched_inv X k" and t: "t \<in> X"
    and q: "\<And>l. set (Q l) = (if l = h then insert t (set (k_queues k l)) else set (k_queues k l))" "lists_ok Q"
    and h: "\<And>p. h \<noteq> Ready p" "\<And>p. Q (Ready p) = k_queues k (Ready p)"
    and ok: "thread_ok (k\<lparr>k_queues := Q\<rparr>) t"
  shows "sched_inv (X - {t}) (k\<lparr>k_queues := Q\<rparr>)"
proof (rule sched_invI)
  let ?k = "k\<lparr>k_queues := Q\<rparr>"
  show "lists_ok (k_queues ?k)" using q(2) by simp
  show "group_ok ?k" using sched_invD(2)[OF inv] h(2) by (simp add: group_ok_def)
  show "\<not> linked (k_queues ?k) u" if "u \<in> X - {t}" for u
    using that sched_invD(3)[OF inv, of u] q(1) by (auto simp: linked_def split: if_splits)
  show "thread_ok ?k u" if "u \<notin> X - {t}" for u
  proof (cases "u = t")
    case False
    then show ?thesis using that sched_invD(4)[OF inv, of u] q(1)
      by (subst thread_ok_cong[of ?k u k]) auto
  qed (use ok in simp)
qed

section \<open>Choosing the highest priority\<close>

lemma highest_None:
  assumes "group_ok k" shows "get_highest_priority_thread k = None \<longleftrightarrow> k_group k = 0"
proof (cases "rt_ffs (k_group k)")
  case 0
  then show ?thesis by (simp add: get_highest_priority_thread_def rt_ffs_0[symmetric])
next
  case (Suc p)
  then have "k_queues k (Ready p) \<noteq> []" using assms by (auto simp: rt_ffs_Suc group_ok_def)
  moreover have "k_group k \<noteq> 0" using Suc rt_ffs_0[of "k_group k"] by simp
  ultimately show ?thesis using Suc
    by (auto simp: get_highest_priority_thread_def split: list.split)
qed

lemma highest_Some:
  assumes "group_ok k" "get_highest_priority_thread k = Some (t, p)"
  shows "\<exists>ts. k_queues k (Ready p) = t # ts" "\<forall>q<p. k_queues k (Ready q) = []" "p < 32"
proof -
  have "rt_ffs (k_group k) = Suc p" and q: "\<exists>ts. k_queues k (Ready p) = t # ts"
    using assms(2) by (auto simp: get_highest_priority_thread_def split: nat.splits list.splits)
  then have f: "bit (k_group k) p" "\<forall>q<p. \<not> bit (k_group k) q" by (auto simp: rt_ffs_Suc)
  show "\<exists>ts. k_queues k (Ready p) = t # ts" by (rule q)
  show "\<forall>q<p. k_queues k (Ready q) = []" using f(2) assms(1) by (auto simp: group_ok_def)
  show "p < 32" using f(1) by (rule bit_32)
qed

lemma clear_unset: "\<not> bit (g :: u32) p \<Longrightarrow> g AND NOT (prio_mask p) = g"
  by (rule bit_eqI) (auto simp: bit_clear_mask simp del: bit_and_iff)

lemma schedule_idle:
  "k_lock_nest k \<noteq> 0 \<or> k_group k = 0 \<Longrightarrow> rt_schedule k = Some k"
  by (auto simp: rt_schedule_def)

text \<open>A running thread with a strictly higher priority than every ready thread keeps the processor.\<close>

lemma schedule_keep:
  assumes inv: "sched_inv {} k" and c: "k_current k = Some c" "tstat k c = RT_THREAD_RUNNING"
    and hi: "get_highest_priority_thread k = Some (h, p)" "prio_of k c < p"
  shows "rt_schedule k = Some k"
proof -
  have ok: "thread_ok k c" and g: "group_ok k" using inv by (auto simp: sched_inv_def)
  have m: "mask_ok k c" "\<not> linked (k_queues k) c" using ok c by (auto simp: thread_ok_def)
  have e: "k_queues k (Ready (prio_of k c)) = []" using highest_Some(2)[OF g hi(1)] hi(2) by simp
  then have "k_group k AND NOT (th_number_mask (k_threads k c)) = k_group k"
    using g m(1) clear_unset[of "k_group k" "prio_of k c"] unfolding group_ok_def mask_ok_def by metis
  then have "rt_schedule_remove_thread c k = Some k"
    using remove_thread[of k c] m e by (simp add: mask_ok_def RT_THREAD_PRIORITY_MAX_def q_remove_unlinked)
  then show ?thesis using c hi by (simp add: rt_schedule_def upd_thread_same set_stat_same)
qed

text \<open>Otherwise the head of the highest ready queue runs, and a running thread goes to the tail.\<close>

lemma schedule_switch:
  assumes inv: "sched_inv {} k" and cur: "cur_ok k" "k_current k = Some c"
    and l: "k_lock_nest k = 0" and hi: "get_highest_priority_thread k = Some (h, p)"
    and lose: "tstat k c = RT_THREAD_RUNNING \<longrightarrow> p \<le> prio_of k c"
  defines "run \<equiv> tstat k c = RT_THREAD_RUNNING"
  shows "\<exists>k'. rt_schedule k = Some k' \<and> sched_inv {} k' \<and> cur_ok k' \<and> k_current k' = Some h \<and>
    k_queues k' = q_remove h (if run then q_push_back (Ready (prio_of k c)) c (k_queues k) else k_queues k) \<and>
    k_threads k' = (if run then (k_threads k)(c := set_stat RT_THREAD_READY (k_threads k c)) else k_threads k)
       (h := set_stat RT_THREAD_RUNNING (k_threads k h)) \<and>
    k_lock_nest k' = k_lock_nest k \<and> k_irq_nest k' = k_irq_nest k \<and> ksched.more k' = ksched.more k"
proof -
  have g: "group_ok k" using inv by (simp add: sched_inv_def)
  note hq = highest_Some[OF g hi]
  have gne: "k_group k \<noteq> 0" using highest_None[OF g] hi by auto
  have okc: "thread_ok k c" and okh: "thread_ok k h" using inv by (auto simp: sched_inv_def)
  have hr: "tstat k h = RT_THREAD_READY" "prio_of k h = p" "mask_ok k h"
  proof -
    have "h \<in> set (k_queues k (Ready p))" using hq(1) by auto
    then show r: "tstat k h = RT_THREAD_READY" "prio_of k h = p" using okh by (simp_all add: thread_ok_def)
    then show "mask_ok k h" using okh by (simp add: thread_ok_def)
  qed
  have hc: "h \<noteq> c" using hr(1) cur by (auto simp: cur_ok_def)
  let ?k1 = "k\<lparr>k_current_priority := of_nat p, k_current := Some h\<rparr>"
  have eq: "rt_schedule k = switch_to c h p run k"
  proof -
    have keep: "(tstat k c = RT_THREAD_RUNNING \<and> prio_of k c < p) = False" using lose by auto
    show ?thesis unfolding rt_schedule_def Let_def hi cur(2) by (simp add: l gne keep hc run_def)
  qed
  have i1: "sched_inv (if run then {c} else {}) ?k1"
    using thread_okD(5)[OF okc] cur(2)
    by (intro sched_inv_current[OF inv]) (auto simp: run_def split: if_splits)
  obtain k2 where k2: "(if run then rt_schedule_insert_thread c ?k1 else Some ?k1) = Some k2"
    "sched_inv {} k2" "k_queues k2 = (if run then q_push_back (Ready (prio_of k c)) c (k_queues k) else k_queues k)"
    "k_threads k2 = (if run then (k_threads k)(c := set_stat RT_THREAD_READY (k_threads k c)) else k_threads k)"
    "k_current k2 = Some h" "k_lock_nest k2 = k_lock_nest k" "k_irq_nest k2 = k_irq_nest k" "ksched.more k2 = ksched.more k"
  proof (cases run)
    case True
    have m: "mask_ok ?k1 c" using thread_okD(6)[OF okc] True by (simp add: run_def mask_ok_def prio_of_def)
    have n: "k_current ?k1 \<noteq> Some c" using hc by simp
    show ?thesis using that sched_inv_insert[of "{c}" ?k1 c] insert_other[OF n m] m n i1 True
      by (auto simp: prio_of_def)
  next
    case False
    then show ?thesis using that i1 by auto
  qed
  have pk2: "prio_of k2 h = prio_of k h" "mask_ok k2 h"
    using k2(4) hr(3) hc by (auto simp: prio_of_def mask_ok_def)
  obtain k3 where k3: "rt_schedule_remove_thread h k2 = Some k3" "sched_inv {h} k3"
    "k_threads k3 = k_threads k2" "k_current k3 = k_current k2" "k_queues k3 = q_remove h (k_queues k2)"
    "k_lock_nest k3 = k_lock_nest k2"
    using sched_inv_remove[OF k2(2) pk2(2)] by auto
  have more3: "ksched.more k3 = ksched.more k2" "k_irq_nest k3 = k_irq_nest k2"
    using k3(1) by (auto simp: rt_schedule_remove_thread_def Let_def split: bind_splits)
  let ?k4 = "upd_thread h (set_stat RT_THREAD_RUNNING) k3"
  have a4: "sched_inv {h} ?k4" by (rule sched_inv_upd[OF k3(2)]) simp
  have b4: "thread_ok ?k4 h"
  proof (rule thread_ok_unlinked)
    show "\<not> linked (k_queues ?k4) h" using sched_invD(3)[OF k3(2), of h] by simp
    show "mask_ok ?k4 h" using pk2(2) k3(3) by (simp add: mask_ok_def prio_of_def)
    show "k_current ?k4 = Some h" using k2(5) k3(4) by simp
  qed simp
  have i4: "sched_inv {} ?k4" by (rule sched_inv_subset[OF a4]) (use b4 in simp_all)
  have "switch_to c h p run k = Some ?k4"
    unfolding switch_to_def Let_def k2(1) by (simp add: k3(1))
  then have "rt_schedule k = Some ?k4" using eq by simp
  moreover have "cur_ok ?k4" using k2(5) k3(4) by (simp add: cur_ok_def)
  moreover have "k_threads ?k4 = (if run then (k_threads k)(c := set_stat RT_THREAD_READY (k_threads k c))
      else k_threads k)(h := set_stat RT_THREAD_RUNNING (k_threads k h))"
    using k2(4) k3(3) hc by simp
  ultimately show ?thesis
    using i4 k2(3,5-8) k3(4-6) more3 by (intro exI[of _ ?k4]) (simp only: upd_thread_simps)
qed

section \<open>What a scheduling point guarantees\<close>

text \<open>
  \<open>sched_frame k k'\<close>: between \<open>k\<close> and \<open>k'\<close> only the scheduler acted: the lists other than
  the ready queues are the same, and threads differ at most in moving between ready and running.
\<close>

definition sched_frame :: "'a ksched_scheme \<Rightarrow> 'a ksched_scheme \<Rightarrow> bool" where
  "sched_frame k k' \<longleftrightarrow>
     (\<forall>t. \<exists>s. k_threads k' t = (k_threads k t)\<lparr>th_stat := s\<rparr>) \<and>
     (\<forall>t. tstat k t \<notin> {RT_THREAD_READY, RT_THREAD_RUNNING} \<longrightarrow> k_threads k' t = k_threads k t) \<and>
     (\<forall>t. tstat k t \<in> {RT_THREAD_READY, RT_THREAD_RUNNING} \<longrightarrow> tstat k' t \<in> {RT_THREAD_READY, RT_THREAD_RUNNING}) \<and>
     (\<forall>a. k_queues k' (Pend a) = k_queues k (Pend a) \<and> k_queues k' (PendSend a) = k_queues k (PendSend a)) \<and>
     k_queues k' Defunct = k_queues k Defunct \<and>
     k_lock_nest k' = k_lock_nest k \<and> k_irq_nest k' = k_irq_nest k \<and> ksched.more k' = ksched.more k"

lemma stat_upd_exists [simp]: "\<exists>s. th = th\<lparr>th_stat := s\<rparr>"
  by (rule exI[of _ "th_stat th"]) simp

lemma sched_frame_refl: "sched_frame k k"
  by (auto simp: sched_frame_def)

definition highest_runs :: "'a ksched_scheme \<Rightarrow> bool" where
  "highest_runs k \<longleftrightarrow> (\<exists>c. k_current k = Some c \<and> tstat k c = RT_THREAD_RUNNING \<and>
     (\<forall>q < prio_of k c. k_queues k (Ready q) = []))"

lemma switch_frame:
  assumes inv: "sched_inv {} k" and h: "h \<in> set (k_queues k (Ready p))" and hc: "h \<noteq> c"
    and q: "k_queues k' = q_remove h (if run then q_push_back (Ready (prio_of k c)) c (k_queues k) else k_queues k)"
    and th: "k_threads k' = (if run then (k_threads k)(c := set_stat RT_THREAD_READY (k_threads k c)) else k_threads k)
       (h := set_stat RT_THREAD_RUNNING (k_threads k h))"
    and run: "run \<longrightarrow> tstat k c = RT_THREAD_RUNNING"
    and rest: "k_lock_nest k' = k_lock_nest k" "k_irq_nest k' = k_irq_nest k" "ksched.more k' = ksched.more k"
  shows "sched_frame k k'"
proof -
  have ok: "lists_ok (k_queues k)" and okh: "thread_ok k h" using inv by (auto simp: sched_inv_def)
  have hr: "tstat k h = RT_THREAD_READY" using thread_okD(1)[OF okh h] .
  have "h \<notin> set (k_queues k l)" if "l \<noteq> Ready p" for l using lists_ok_unique[OF ok h] that by auto
  then have other: "k_queues k' l = k_queues k l" if "\<forall>p. l \<noteq> Ready p" for l using that q by simp
  have "\<exists>s. k_threads k' t = (k_threads k t)\<lparr>th_stat := s\<rparr>" for t
    using th by (auto simp: set_stat_def intro: exI[of _ "th_stat (k_threads k t)"])
  moreover have "k_threads k' t = k_threads k t" if "tstat k t \<notin> {RT_THREAD_READY, RT_THREAD_RUNNING}" for t
    using th that hr run by auto
  moreover have "tstat k' t \<in> {RT_THREAD_READY, RT_THREAD_RUNNING}"
    if "tstat k t \<in> {RT_THREAD_READY, RT_THREAD_RUNNING}" for t using th that by simp
  ultimately show ?thesis using other rest by (simp add: sched_frame_def)
qed

lemma rt_schedule_spec:
  assumes inv: "sched_inv {} k" and cur: "cur_ok k"
  obtains k' where "rt_schedule k = Some k'" "sched_inv {} k'" "cur_ok k'" "sched_frame k k'"
    "k_lock_nest k = 0 \<Longrightarrow> k_group k \<noteq> 0 \<or> (\<exists>c. k_current k = Some c \<and> tstat k c = RT_THREAD_RUNNING)
      \<Longrightarrow> highest_runs k'"
proof -
  obtain c where c: "k_current k = Some c" using cur by (auto simp: cur_ok_def)
  have g: "group_ok k" using inv by (simp add: sched_inv_def)
  show ?thesis
  proof (cases "k_lock_nest k = 0 \<and> k_group k \<noteq> 0")
    case False
    have e: "k_queues k (Ready q) = []" if "k_group k = 0" for q using g that by (auto simp: group_ok_def)
    show ?thesis
      using False schedule_idle[of k] inv cur sched_frame_refl[of k] e
      by (intro that[of k]) (auto simp: highest_runs_def)
  next
    case True
    then obtain h p where hi: "get_highest_priority_thread k = Some (h, p)"
      using highest_None[OF g] by (metis option.exhaust surj_pair)
    note hq = highest_Some[OF g hi]
    show ?thesis
    proof (cases "tstat k c = RT_THREAD_RUNNING \<and> prio_of k c < p")
      case keep: True
      then have "highest_runs k" using c hq(2) by (auto simp: highest_runs_def)
      then show ?thesis using keep schedule_keep[OF inv c _ hi] inv cur sched_frame_refl[of k]
        by (intro that[of k]) auto
    next
      case lose: False
      define run where "run = (tstat k c = RT_THREAD_RUNNING)"
      obtain k' where k': "rt_schedule k = Some k'" "sched_inv {} k'" "cur_ok k'" "k_current k' = Some h"
        "k_queues k' = q_remove h (if run then q_push_back (Ready (prio_of k c)) c (k_queues k) else k_queues k)"
        "k_threads k' = (if run then (k_threads k)(c := set_stat RT_THREAD_READY (k_threads k c)) else k_threads k)
           (h := set_stat RT_THREAD_RUNNING (k_threads k h))"
        "k_lock_nest k' = k_lock_nest k" "k_irq_nest k' = k_irq_nest k" "ksched.more k' = ksched.more k"
        using schedule_switch[OF inv cur c _ hi] True lose unfolding run_def by auto
      have h: "h \<in> set (k_queues k (Ready p))" using hq(1) by auto
      have okh: "thread_ok k h" using inv by (auto simp: sched_inv_def)
      have hc: "h \<noteq> c" using thread_okD(1)[OF okh h] cur c by (auto simp: cur_ok_def)
      have fr: "sched_frame k k'"
        by (rule switch_frame[OF inv h hc k'(5,6) _ k'(7-9)]) (simp add: run_def)
      have "prio_of k' h = p" using thread_okD(2)[OF okh h] k'(6) by (simp add: prio_of_def)
      moreover have "k_queues k' (Ready q) = []" if "q < p" for q
        using that hq(2) k'(5) lose by (auto simp: run_def)
      moreover have "tstat k' h = RT_THREAD_RUNNING" using k'(6) by simp
      ultimately have "highest_runs k'" using k'(4) by (simp add: highest_runs_def)
      then show ?thesis using k'(1-3) fr by (intro that[of k']) auto
    qed
  qed
qed

section \<open>Critical sections\<close>

lemma enter_exit_unlocked:
  "k_lock_nest k = 0 \<Longrightarrow> rt_exit_critical (rt_enter_critical k) =
     (if k_current k = None then Some k else rt_schedule k)"
proof -
  assume z: "k_lock_nest k = 0"
  then have e: "k\<lparr>k_lock_nest := 0\<rparr> = k" by (cases k) simp
  show ?thesis unfolding rt_exit_critical_def rt_enter_critical_def Let_def by (simp add: z e)
qed

lemma enter_exit_locked:
  "0 < sint (k_lock_nest k) \<Longrightarrow> rt_exit_critical (rt_enter_critical k) = Some k"
  by (simp add: rt_exit_critical_def rt_enter_critical_def Let_def)

text \<open>
  \<open>sched_ok\<close> is the state between calls: the invariant holds, the scheduler is not locked
  below zero, and either the scheduler has not started or there is a current thread.
\<close>

definition sched_ok :: "'a ksched_scheme \<Rightarrow> bool" where
  "sched_ok k \<longleftrightarrow> sched_inv {} k \<and> 0 \<le> sint (k_lock_nest k) \<and> (k_current k = None \<or> cur_ok k)"

lemma sched_frame_lock: "sched_frame k k' \<Longrightarrow> k_lock_nest k' = k_lock_nest k"
  "sched_frame k k' \<Longrightarrow> k_irq_nest k' = k_irq_nest k"
  "sched_frame k k' \<Longrightarrow> ksched.more k' = ksched.more k"
  by (auto simp: sched_frame_def)

lemma critical_section_ok:
  assumes "sched_ok k"
  obtains k' where "rt_exit_critical (rt_enter_critical k) = Some k'" "sched_ok k'" "sched_frame k k'"
proof (cases "k_lock_nest k = 0")
  case True
  show ?thesis
  proof (cases "k_current k")
    case None
    then show ?thesis using that[of k] True assms sched_frame_refl[of k] by (simp add: enter_exit_unlocked)
  next
    case (Some c)
    have i: "sched_inv {} k" "cur_ok k" using assms Some by (auto simp: sched_ok_def)
    obtain k' where k': "rt_schedule k = Some k'" "sched_inv {} k'" "cur_ok k'" "sched_frame k k'"
      by (rule rt_schedule_spec[OF i])
    then show ?thesis using that[of k'] True Some sched_frame_lock(1)[OF k'(4)]
      by (simp add: enter_exit_unlocked sched_ok_def)
  qed
next
  case False
  then have "sint (k_lock_nest k) \<noteq> 0" by (simp add: signed_eq_0_iff)
  then have "0 < sint (k_lock_nest k)" using assms by (auto simp: sched_ok_def)
  then show ?thesis using that[of k] assms sched_frame_refl[of k] by (simp add: enter_exit_locked)
qed

text \<open>The invariants read the scheduler's fields only.\<close>

lemma sched_truncate:
  "sched_inv X (ksched.truncate k) \<longleftrightarrow> sched_inv X k"
  "cur_ok (ksched.truncate k) \<longleftrightarrow> cur_ok k"
  "sched_ok (ksched.truncate k) \<longleftrightarrow> sched_ok k"
  by (simp_all add: sched_inv_def thread_ok_def group_ok_def mask_ok_def prio_of_def cur_ok_def
      sched_ok_def ksched.truncate_def)

lemma sched_ok_cong:
  "ksched.truncate k = ksched.truncate k' \<Longrightarrow> sched_ok k \<longleftrightarrow> sched_ok k'"
  by (metis sched_truncate(3))

end
