(* ===== verification/Kservice.thy ===== *)
theory Kservice
  imports Sched "HOL-Library.While_Combinator"
begin

text \<open>
  The freestanding memory and string routines of \<open>src/kservice.c\<close> over a byte-addressed
  memory, with their block-wise fast paths as written, and the table-driven \<open>__rt_ffs\<close>.
  The lemmas show that every fast path computes the plain byte-wise effect.
\<close>

section \<open>Byte memory\<close>

type_synonym mem = "nat \<Rightarrow> u8"

text \<open>A little-endian 32-bit store and load, as the Cortex-M4 does them.\<close>

definition store32 :: "nat \<Rightarrow> u32 \<Rightarrow> mem \<Rightarrow> mem" where
  "store32 a w m = m(a := ucast w, a + 1 := ucast (drop_bit 8 w),
     a + 2 := ucast (drop_bit 16 w), a + 3 := ucast (drop_bit 24 w))"

definition load32 :: "nat \<Rightarrow> mem \<Rightarrow> u32" where
  "load32 a m = ucast (m a) OR push_bit 8 (ucast (m (a + 1)))
     OR push_bit 16 (ucast (m (a + 2))) OR push_bit 24 (ucast (m (a + 3)))"

definition fill :: "nat \<Rightarrow> nat \<Rightarrow> u8 \<Rightarrow> mem \<Rightarrow> mem" where
  "fill a n d m = (\<lambda>x. if a \<le> x \<and> x < a + n then d else m x)"

definition blit :: "nat \<Rightarrow> nat \<Rightarrow> nat \<Rightarrow> mem \<Rightarrow> mem" where
  "blit d s n m = (\<lambda>x. if d \<le> x \<and> x < d + n then m (s + (x - d)) else m x)"

section \<open>rt_memset\<close>

fun memset_bytes :: "u8 \<Rightarrow> nat \<Rightarrow> nat \<Rightarrow> mem \<Rightarrow> mem" where
  "memset_bytes d a 0 m = m"
| "memset_bytes d a (Suc n) m = memset_bytes d (a + 1) n (m(a := d))"

fun memset_blocks :: "u32 \<Rightarrow> nat \<Rightarrow> nat \<Rightarrow> mem \<Rightarrow> nat \<times> nat \<times> mem" where
  "memset_blocks buf a count m =
     (if 16 \<le> count then memset_blocks buf (a + 16) (count - 16)
        (store32 (a + 12) buf (store32 (a + 8) buf (store32 (a + 4) buf (store32 a buf m))))
      else (a, count, m))"

fun memset_words :: "u32 \<Rightarrow> nat \<Rightarrow> nat \<Rightarrow> mem \<Rightarrow> nat \<times> nat \<times> mem" where
  "memset_words buf a count m =
     (if 4 \<le> count then memset_words buf (a + 4) (count - 4) (store32 a buf m) else (a, count, m))"

declare memset_blocks.simps [simp del] memset_words.simps [simp del]

definition rt_memset :: "nat \<Rightarrow> u32 \<Rightarrow> nat \<Rightarrow> mem \<Rightarrow> mem" where
  "rt_memset s c count m =
    (let d = c AND 0xff in
     if \<not> count < 4 \<and> s mod 4 = 0 then
       (let b = push_bit 8 d OR d;
            buffer = b OR push_bit 16 b;
            (a1, n1, m1) = memset_blocks buffer s count m;
            (a2, n2, m2) = memset_words buffer a1 n1 m1
        in memset_bytes (ucast d) a2 n2 m2)
     else memset_bytes (ucast d) s count m)"

section \<open>rt_memcpy, rt_memmove, rt_memcmp\<close>

fun memcpy_bytes :: "nat \<Rightarrow> nat \<Rightarrow> nat \<Rightarrow> mem \<Rightarrow> mem" where
  "memcpy_bytes d s 0 m = m"
| "memcpy_bytes d s (Suc n) m = memcpy_bytes (d + 1) (s + 1) n (m(d := m s))"

definition copy_word :: "nat \<Rightarrow> nat \<Rightarrow> mem \<Rightarrow> mem" where
  "copy_word d s m = store32 d (load32 s m) m"

fun memcpy_blocks :: "nat \<Rightarrow> nat \<Rightarrow> nat \<Rightarrow> mem \<Rightarrow> nat \<times> nat \<times> nat \<times> mem" where
  "memcpy_blocks d s len m =
     (if 16 \<le> len then memcpy_blocks (d + 16) (s + 16) (len - 16)
        (copy_word (d + 12) (s + 12) (copy_word (d + 8) (s + 8)
          (copy_word (d + 4) (s + 4) (copy_word d s m))))
      else (d, s, len, m))"

fun memcpy_words :: "nat \<Rightarrow> nat \<Rightarrow> nat \<Rightarrow> mem \<Rightarrow> nat \<times> nat \<times> nat \<times> mem" where
  "memcpy_words d s len m =
     (if 4 \<le> len then memcpy_words (d + 4) (s + 4) (len - 4) (copy_word d s m)
      else (d, s, len, m))"

declare memcpy_blocks.simps [simp del] memcpy_words.simps [simp del]

text \<open>The \<open>int len\<close> of the source is a \<open>nat\<close> here: every call copies less than 2 GB.\<close>

definition rt_memcpy :: "nat \<Rightarrow> nat \<Rightarrow> nat \<Rightarrow> mem \<Rightarrow> mem" where
  "rt_memcpy dst src count m =
    (if \<not> count < 16 \<and> src mod 4 = 0 \<and> dst mod 4 = 0 then
       (let (d1, s1, n1, m1) = memcpy_blocks dst src count m;
            (d2, s2, n2, m2) = memcpy_words d1 s1 n1 m1
        in memcpy_bytes d2 s2 n2 m2)
     else memcpy_bytes dst src count m)"

fun memmove_down :: "nat \<Rightarrow> nat \<Rightarrow> nat \<Rightarrow> mem \<Rightarrow> mem" where
  "memmove_down d s 0 m = m"
| "memmove_down d s (Suc n) m = memmove_down d s n (m(d + n := m (s + n)))"

definition rt_memmove :: "nat \<Rightarrow> nat \<Rightarrow> nat \<Rightarrow> mem \<Rightarrow> mem" where
  "rt_memmove dest src n m =
    (if src < dest \<and> dest < src + n then memmove_down dest src n m else memcpy_bytes dest src n m)"

fun rt_memcmp :: "nat \<Rightarrow> nat \<Rightarrow> nat \<Rightarrow> mem \<Rightarrow> int" where
  "rt_memcmp a b 0 m = 0"
| "rt_memcmp a b (Suc n) m =
     (let res = uint (m a) - uint (m b)
      in if res \<noteq> 0 then res else rt_memcmp (a + 1) (b + 1) n m)"

section \<open>Strings\<close>

text \<open>
  Characters of the port's \<open>char\<close> are unsigned. A loop that only a NUL byte stops is a
  \<open>partial_function\<close>; where a count bounds it, it recurses on the count.
\<close>

partial_function (option) strlen_loop :: "mem \<Rightarrow> nat \<Rightarrow> nat \<Rightarrow> nat option" where
  "strlen_loop m s sc = (if m sc \<noteq> 0 then strlen_loop m s (sc + 1) else Some (sc - s))"

definition rt_strlen :: "mem \<Rightarrow> nat \<Rightarrow> nat option" where
  "rt_strlen m s = strlen_loop m s s"

text \<open>\<open>rt_strnlen\<close> also returns the last address it reads, which its bound does not cover.\<close>

function strnlen_loop :: "mem \<Rightarrow> nat \<Rightarrow> nat \<Rightarrow> nat \<Rightarrow> nat" where
  "strnlen_loop m s maxlen sc =
     (if m sc \<noteq> 0 \<and> sc - s < maxlen \<and> s \<le> sc then strnlen_loop m s maxlen (sc + 1) else sc)"
  by pat_completeness auto
termination by (relation "measure (\<lambda>(m, s, maxlen, sc). s + maxlen - sc)") auto

declare strnlen_loop.simps [simp del]

definition rt_strnlen :: "mem \<Rightarrow> nat \<Rightarrow> nat \<Rightarrow> nat" where
  "rt_strnlen m s maxlen = strnlen_loop m s maxlen s - s"

partial_function (option) rt_strcmp :: "mem \<Rightarrow> nat \<Rightarrow> nat \<Rightarrow> int option" where
  "rt_strcmp m cs ct =
     (if m cs \<noteq> 0 \<and> m cs = m ct then rt_strcmp m (cs + 1) (ct + 1)
      else Some (uint (m cs) - uint (m ct)))"

text \<open>\<open>__res\<close> is a \<open>signed char\<close>: the difference is cut to eight bits and read as signed.\<close>

fun rt_strncmp :: "mem \<Rightarrow> nat \<Rightarrow> nat \<Rightarrow> nat \<Rightarrow> int" where
  "rt_strncmp m cs ct 0 = 0"
| "rt_strncmp m cs ct (Suc n) =
     (let res = sint (m cs - m ct)
      in if res \<noteq> 0 \<or> m cs = 0 then res else rt_strncmp m (cs + 1) (ct + 1) n)"

fun strncpy_pad :: "nat \<Rightarrow> nat \<Rightarrow> mem \<Rightarrow> mem" where
  "strncpy_pad d 0 m = m"
| "strncpy_pad d (Suc n) m = strncpy_pad (d + 1) n (m(d := 0))"

fun rt_strncpy :: "nat \<Rightarrow> nat \<Rightarrow> nat \<Rightarrow> mem \<Rightarrow> mem" where
  "rt_strncpy d s 0 m = m"
| "rt_strncpy d s (Suc n) m =
     (let m1 = m(d := m s)
      in if m1 d = 0 then strncpy_pad (d + 1) n m1 else rt_strncpy (d + 1) (s + 1) n m1)"

definition lower :: "u8 \<Rightarrow> int" where
  "lower c = (if 65 \<le> c \<and> c \<le> 90 then uint c + 32 else uint c)"

partial_function (option) rt_strcasecmp :: "mem \<Rightarrow> nat \<Rightarrow> nat \<Rightarrow> int option" where
  "rt_strcasecmp m a b =
     (let ca = lower (m a); cb = lower (m b)
      in if ca = cb \<and> ca \<noteq> 0 then rt_strcasecmp m (a + 1) (b + 1) else Some (ca - cb))"

fun strstr_loop :: "mem \<Rightarrow> nat \<Rightarrow> nat \<Rightarrow> nat \<Rightarrow> nat \<Rightarrow> nat option" where
  "strstr_loop m s1 l1 s2 l2 =
     (if l2 \<le> l1 \<and> 0 < l1 then
        (if rt_memcmp s1 s2 l2 m = 0 then Some s1 else strstr_loop m (s1 + 1) (l1 - 1) s2 l2)
      else None)"

declare strstr_loop.simps [simp del]

text \<open>The inner option is the returned pointer, \<open>None\<close> for \<open>RT_NULL\<close>.\<close>

definition rt_strstr :: "mem \<Rightarrow> nat \<Rightarrow> nat \<Rightarrow> nat option option" where
  "rt_strstr m s1 s2 = do {
     l2 \<leftarrow> rt_strlen m s2;
     if l2 = 0 then Some (Some s1)
     else do { l1 \<leftarrow> rt_strlen m s1; Some (strstr_loop m s1 l1 s2 l2) }
   }"

section \<open>Find first set\<close>

definition lowest_bit_bitmap :: "nat list" where
  "lowest_bit_bitmap =
    [0, 0, 1, 0, 2, 0, 1, 0, 3, 0, 1, 0, 2, 0, 1, 0,
     4, 0, 1, 0, 2, 0, 1, 0, 3, 0, 1, 0, 2, 0, 1, 0,
     5, 0, 1, 0, 2, 0, 1, 0, 3, 0, 1, 0, 2, 0, 1, 0,
     4, 0, 1, 0, 2, 0, 1, 0, 3, 0, 1, 0, 2, 0, 1, 0,
     6, 0, 1, 0, 2, 0, 1, 0, 3, 0, 1, 0, 2, 0, 1, 0,
     4, 0, 1, 0, 2, 0, 1, 0, 3, 0, 1, 0, 2, 0, 1, 0,
     5, 0, 1, 0, 2, 0, 1, 0, 3, 0, 1, 0, 2, 0, 1, 0,
     4, 0, 1, 0, 2, 0, 1, 0, 3, 0, 1, 0, 2, 0, 1, 0,
     7, 0, 1, 0, 2, 0, 1, 0, 3, 0, 1, 0, 2, 0, 1, 0,
     4, 0, 1, 0, 2, 0, 1, 0, 3, 0, 1, 0, 2, 0, 1, 0,
     5, 0, 1, 0, 2, 0, 1, 0, 3, 0, 1, 0, 2, 0, 1, 0,
     4, 0, 1, 0, 2, 0, 1, 0, 3, 0, 1, 0, 2, 0, 1, 0,
     6, 0, 1, 0, 2, 0, 1, 0, 3, 0, 1, 0, 2, 0, 1, 0,
     4, 0, 1, 0, 2, 0, 1, 0, 3, 0, 1, 0, 2, 0, 1, 0,
     5, 0, 1, 0, 2, 0, 1, 0, 3, 0, 1, 0, 2, 0, 1, 0,
     4, 0, 1, 0, 2, 0, 1, 0, 3, 0, 1, 0, 2, 0, 1, 0]"

definition table_ffs :: "u32 \<Rightarrow> nat" where
  "table_ffs v =
    (if v = 0 then 0
     else if v AND 0xff \<noteq> 0 then lowest_bit_bitmap ! unat (v AND 0xff) + 1
     else if v AND 0xff00 \<noteq> 0 then lowest_bit_bitmap ! unat (drop_bit 8 (v AND 0xff00)) + 9
     else if v AND 0xff0000 \<noteq> 0 then lowest_bit_bitmap ! unat (drop_bit 16 (v AND 0xff0000)) + 17
     else lowest_bit_bitmap ! unat (drop_bit 24 (v AND 0xff000000)) + 25)"

section \<open>The block-wise routines are the byte-wise ones\<close>

lemma fill_0 [simp]: "fill a 0 d m = m"
  by (auto simp: fill_def fun_eq_iff)

lemma fill_fill: "fill (a + n) k d (fill a n d m) = fill a (n + k) d m"
  by (auto simp: fill_def fun_eq_iff)

lemma blit_0 [simp]: "blit d s 0 m = m"
  by (auto simp: blit_def fun_eq_iff)

lemma blit_blit:
  assumes "d \<le> s \<or> s + n + k \<le> d"
  shows "blit (d + n) (s + n) k (blit d s n m) = blit d s (n + k) m"
  using assms by (auto simp: blit_def fun_eq_iff)

lemma memset_bytes_fill: "memset_bytes d a n m = fill a n d m"
proof (induction n arbitrary: a m)
  case (Suc n)
  have "m(a := d) = fill a 1 d m" by (auto simp: fill_def fun_eq_iff)
  then show ?case using Suc fill_fill[of a 1 n d m] by simp
qed simp

definition byte_buf :: "u32 \<Rightarrow> u8 \<Rightarrow> bool" where
  "byte_buf buf d \<longleftrightarrow> ucast buf = d \<and> ucast (drop_bit 8 buf) = d \<and>
     ucast (drop_bit 16 buf) = d \<and> ucast (drop_bit 24 buf) = d"

lemma byte_buf_memset:
  fixes c :: u32
  defines "d \<equiv> c AND 0xff"
  defines "b \<equiv> push_bit 8 d OR d"
  shows "byte_buf (b OR push_bit 16 b) (ucast d)"
proof -
  have hi: "\<not> bit d i" if "8 \<le> i" for i
  proof -
    have "bit (0xff :: u32) i \<longleftrightarrow> i < 8" for i
      using bit_mask_iff[where 'a = "32 word", of 8 i] by (auto simp: mask_eq_exp_minus_1)
    then show ?thesis using that by (simp add: d_def bit_and_iff)
  qed
  then show ?thesis
    unfolding byte_buf_def b_def
    by (intro conjI; intro bit_eqI; auto simp: bit_simps hi)
qed

lemma store32_fill: "byte_buf buf d \<Longrightarrow> store32 a buf m = fill a 4 d m"
  by (auto simp: store32_def byte_buf_def fill_def fun_eq_iff)

lemma memset_blocks_fill:
  "byte_buf buf d \<Longrightarrow> memset_blocks buf a n m = (a + 16 * (n div 16), n mod 16, fill a (16 * (n div 16)) d m)"
proof (induction buf a n m rule: memset_blocks.induct)
  case (1 buf a n m)
  show ?case
  proof (cases "16 \<le> n")
    case True
    have f: "store32 (a + 12) buf (store32 (a + 8) buf (store32 (a + 4) buf (store32 a buf m))) = fill a 16 d m"
      using "1.prems" fill_fill[of a 4 4 d m] fill_fill[of a 8 4 d m] fill_fill[of a 12 4 d m]
      by (simp add: store32_fill)
    have "n div 16 = Suc ((n - 16) div 16)" "(n - 16) mod 16 = n mod 16"
      using True by (simp_all add: le_div_geq mod_if)
    then show ?thesis using "1.IH"[OF True "1.prems"] True fill_fill[of a 16 _ d m]
      by (simp add: memset_blocks.simps[of buf a n m] f)
  next
    case False
    then show ?thesis by (simp add: memset_blocks.simps[of buf a n m])
  qed
qed

lemma memset_words_fill:
  "byte_buf buf d \<Longrightarrow> memset_words buf a n m = (a + 4 * (n div 4), n mod 4, fill a (4 * (n div 4)) d m)"
proof (induction buf a n m rule: memset_words.induct)
  case (1 buf a n m)
  show ?case
  proof (cases "4 \<le> n")
    case True
    have "n div 4 = Suc ((n - 4) div 4)" "(n - 4) mod 4 = n mod 4"
      using True by (simp_all add: le_div_geq mod_if)
    then show ?thesis using "1.IH"[OF True "1.prems"] True "1.prems" fill_fill[of a 4 _ d m]
      by (simp add: memset_words.simps[of buf a n m] store32_fill)
  next
    case False
    then show ?thesis by (simp add: memset_words.simps[of buf a n m])
  qed
qed

lemma rt_memset_fill: "rt_memset s c n m = fill s n (ucast (c AND 0xff)) m"
proof -
  define q where "q = n div 16"
  define r where "r = n mod 16"
  have n: "n = 16 * q + (4 * (r div 4) + r mod 4)" by (simp add: q_def r_def)
  show ?thesis
    unfolding rt_memset_def Let_def
      memset_blocks_fill[OF byte_buf_memset] prod.case memset_words_fill[OF byte_buf_memset]
      memset_bytes_fill fill_fill add.assoc q_def[symmetric] r_def[symmetric]
    using n by (metis (no_types) fill_fill)
qed

lemma copy_word_blit: "copy_word d s m = blit d s 4 m"
proof -
  let ?w = "load32 s m"
  have "ucast ?w = m s" "ucast (drop_bit 8 ?w) = m (s + 1)" "ucast (drop_bit 16 ?w) = m (s + 2)"
    "ucast (drop_bit 24 ?w) = m (s + 3)"
    unfolding load32_def
    by (rule bit_eqI, auto simp: bit_simps dest: bit_imp_le_length)+
  then show ?thesis
    by (auto simp: copy_word_def store32_def blit_def fun_eq_iff less_Suc_eq numeral_eq_Suc)
qed

text \<open>\<open>clear d s n\<close>: a forward copy never reads a byte it has already overwritten.\<close>

definition clear :: "nat \<Rightarrow> nat \<Rightarrow> nat \<Rightarrow> bool" where
  "clear d s n \<longleftrightarrow> d \<le> s \<or> s + n \<le> d"

lemma memcpy_bytes_blit: "clear d s n \<Longrightarrow> memcpy_bytes d s n m = blit d s n m"
proof (induction n arbitrary: d s m)
  case (Suc n)
  have "m(d := m s) = blit d s 1 m" by (auto simp: blit_def fun_eq_iff)
  then show ?case using Suc blit_blit[of d s 1 n m] by (auto simp: clear_def)
qed simp

lemma memcpy_words_blit:
  "clear d s n \<Longrightarrow> memcpy_words d s n m =
     (d + 4 * (n div 4), s + 4 * (n div 4), n mod 4, blit d s (4 * (n div 4)) m)"
proof (induction d s n m rule: memcpy_words.induct)
  case (1 d s n m)
  show ?case
  proof (cases "4 \<le> n")
    case True
    have c: "clear (d + 4) (s + 4) (n - 4)" using "1.prems" True by (auto simp: clear_def)
    have n: "n div 4 = Suc ((n - 4) div 4)" "(n - 4) mod 4 = n mod 4"
      using True by (simp_all add: le_div_geq mod_if)
    have "d \<le> s \<or> s + 4 + 4 * ((n - 4) div 4) \<le> d"
      using "1.prems" True by (auto simp: clear_def)
    then show ?thesis using "1.IH"[OF True c] True n blit_blit[of d s 4 "4 * ((n - 4) div 4)" m]
      by (simp add: memcpy_words.simps[of d s n m] copy_word_blit)
  next
    case False
    then show ?thesis by (simp add: memcpy_words.simps[of d s n m])
  qed
qed

lemma copy_words4:
  assumes "clear d s 16"
  shows "copy_word (d + 12) (s + 12) (copy_word (d + 8) (s + 8) (copy_word (d + 4) (s + 4)
    (copy_word d s m))) = blit d s 16 m"
proof -
  have "d \<le> s \<or> s + 4 + 4 \<le> d" "d \<le> s \<or> s + 8 + 4 \<le> d" "d \<le> s \<or> s + 12 + 4 \<le> d"
    using assms by (auto simp: clear_def)
  then show ?thesis
    using blit_blit[of d s 4 4 m] blit_blit[of d s 8 4 m] blit_blit[of d s 12 4 m]
    by (simp add: copy_word_blit)
qed

lemma memcpy_blocks_blit:
  "clear d s n \<Longrightarrow> memcpy_blocks d s n m =
     (d + 16 * (n div 16), s + 16 * (n div 16), n mod 16, blit d s (16 * (n div 16)) m)"
proof (induction d s n m rule: memcpy_blocks.induct)
  case (1 d s n m)
  show ?case
  proof (cases "16 \<le> n")
    case True
    have c: "clear (d + 16) (s + 16) (n - 16)" "clear d s 16"
      using "1.prems" True by (auto simp: clear_def)
    have n: "n div 16 = Suc ((n - 16) div 16)" "(n - 16) mod 16 = n mod 16"
      using True by (simp_all add: le_div_geq mod_if)
    have "d \<le> s \<or> s + 16 + 16 * ((n - 16) div 16) \<le> d"
      using "1.prems" True by (auto simp: clear_def)
    then show ?thesis
      using "1.IH"[OF True c(1)] True n blit_blit[of d s 16 "16 * ((n - 16) div 16)" m]
      by (simp add: memcpy_blocks.simps[of d s n m] copy_words4[OF c(2)])
  next
    case False
    then show ?thesis by (simp add: memcpy_blocks.simps[of d s n m])
  qed
qed

lemma rt_memcpy_blit:
  assumes "clear d s n" shows "rt_memcpy d s n m = blit d s n m"
proof -
  define q where "q = 16 * (n div 16)"
  define r where "r = n mod 16"
  define w where "w = 4 * (r div 4)"
  have n: "n = q + r" "r = w + r mod 4" by (simp_all add: q_def r_def w_def)
  have c: "clear (d + q) (s + q) r" "clear (d + q + w) (s + q + w) (r mod 4)"
    using assms n by (auto simp: clear_def)
  have b: "d \<le> s \<or> s + q + r \<le> d" "d + q \<le> s + q \<or> s + q + w + r mod 4 \<le> d + q"
    using assms n by (auto simp: clear_def)
  have "memcpy_bytes (d + q + w) (s + q + w) (r mod 4) (blit (d + q) (s + q) w (blit d s q m))
      = blit (d + q) (s + q) r (blit d s q m)"
    using memcpy_bytes_blit[OF c(2)] blit_blit[OF b(2)] n(2) by simp
  also have "\<dots> = blit d s n m" using blit_blit[OF b(1)] n(1) by simp
  finally show ?thesis
    unfolding rt_memcpy_def Let_def memcpy_blocks_blit[OF assms] prod.case
      q_def[symmetric] r_def[symmetric] memcpy_words_blit[OF c(1)] w_def[symmetric]
    using memcpy_bytes_blit[OF assms] by simp
qed

lemma memmove_down_blit: "s \<le> d \<Longrightarrow> memmove_down d s n m = blit d s n m"
proof (induction n arbitrary: m)
  case (Suc n)
  have "blit d s n (m(d + n := m (s + n))) = blit d s (Suc n) m"
    using Suc.prems by (auto simp: blit_def fun_eq_iff)
  then show ?case using Suc by simp
qed simp

lemma rt_memmove_blit: "rt_memmove d s n m = blit d s n m"
  by (auto simp: rt_memmove_def memmove_down_blit intro: memcpy_bytes_blit simp: clear_def)

section \<open>Comparison and strings\<close>

lemma rt_memcmp_0: "rt_memcmp a b n m = 0 \<longleftrightarrow> (\<forall>i<n. m (a + i) = m (b + i))"
proof (induction n arbitrary: a b)
  case (Suc n)
  have "(\<forall>i<Suc n. m (a + i) = m (b + i)) \<longleftrightarrow> m a = m b \<and> (\<forall>i<n. m (a + 1 + i) = m (b + 1 + i))"
    by (auto simp: less_Suc_eq_0_disj)
  then show ?case using Suc[of "a + 1" "b + 1"] by (auto simp: Let_def word_uint_eq_iff)
qed simp

text \<open>\<open>cstr m s n\<close>: at \<open>s\<close> there is a string of \<open>n\<close> characters and its NUL.\<close>

definition cstr :: "mem \<Rightarrow> nat \<Rightarrow> nat \<Rightarrow> bool" where
  "cstr m s n \<longleftrightarrow> m (s + n) = 0 \<and> (\<forall>i<n. m (s + i) \<noteq> 0)"

lemma strlen_loop_cstr: "cstr m (s + k) n \<Longrightarrow> strlen_loop m s (s + k) = Some (k + n)"
proof (induction n arbitrary: k)
  case 0
  then show ?case by (subst strlen_loop.simps) (simp add: cstr_def)
next
  case (Suc n)
  have "cstr m (s + Suc k) n" using Suc.prems by (auto simp: cstr_def)
  moreover have "m (s + k) \<noteq> 0" using Suc.prems by (auto simp: cstr_def)
  ultimately show ?case using Suc.IH[of "Suc k"] by (subst strlen_loop.simps) simp
qed

lemma rt_strlen_cstr: "cstr m s n \<Longrightarrow> rt_strlen m s = Some n"
  using strlen_loop_cstr[of m s 0 n] by (simp add: rt_strlen_def)

lemma sint8_diff_0: "sint (a - b :: u8) = 0 \<longleftrightarrow> a = b"
proof -
  have "sint (a - b) = sint (0 :: u8) \<longleftrightarrow> a - b = 0" by (rule signed_word_eqI[THEN iffI, rotated]) simp_all
  then show ?thesis by simp
qed

lemma rt_strncmp_0:
  "rt_strncmp m a b n = 0 \<longleftrightarrow>
     (\<forall>i<n. (\<forall>j<i. m (a + j) \<noteq> 0) \<longrightarrow> m (a + i) = m (b + i))"
proof (induction n arbitrary: a b)
  case (Suc n)
  have "(\<forall>i<Suc n. (\<forall>j<i. m (a + j) \<noteq> 0) \<longrightarrow> m (a + i) = m (b + i)) \<longleftrightarrow> m a = m b \<and>
     (m a \<noteq> 0 \<longrightarrow> (\<forall>i<n. (\<forall>j<i. m (a + 1 + j) \<noteq> 0) \<longrightarrow> m (a + 1 + i) = m (b + 1 + i)))"
    (is "?L \<longleftrightarrow> ?R")
  proof
    assume L: ?L
    have "m (a + 1 + i) = m (b + 1 + i)" if "m a \<noteq> 0" "i < n" "\<forall>j<i. m (a + 1 + j) \<noteq> 0" for i
    proof -
      have "m (a + j) \<noteq> 0" if "j < Suc i" for j
        using that \<open>m a \<noteq> 0\<close> \<open>\<forall>j<i. m (a + 1 + j) \<noteq> 0\<close> by (cases j) auto
      then show ?thesis using L[rule_format, of "Suc i"] that by simp
    qed
    then show ?R using L[rule_format, of 0] by auto
  next
    assume R: ?R
    show ?L
    proof (intro allI impI)
      fix i assume "i < Suc n" "\<forall>j<i. m (a + j) \<noteq> 0"
      then show "m (a + i) = m (b + i)"
      proof (cases i)
        case (Suc k)
        then have "m a \<noteq> 0" "k < n" "\<forall>j<k. m (a + 1 + j) \<noteq> 0"
          using \<open>\<forall>j<i. m (a + j) \<noteq> 0\<close> \<open>i < Suc n\<close>
          by (force, simp, metis Suc_less_eq add.assoc plus_1_eq_Suc)
        then have "m (a + 1 + k) = m (b + 1 + k)" using R by blast
        then show ?thesis using Suc by simp
      qed (use R in simp)
    qed
  qed
  moreover have "rt_strncmp m a b (Suc n) = 0 \<longleftrightarrow>
      m a = m b \<and> (m a \<noteq> 0 \<longrightarrow> rt_strncmp m (a + 1) (b + 1) n = 0)"
    using sint8_diff_0[of "m a" "m b"] by (simp only: rt_strncmp.simps Let_def) auto
  ultimately show ?case unfolding Suc[of "a + 1" "b + 1"] by simp
qed simp

section \<open>The bitmap table\<close>


lemma bitmap_table:
  "list_all (\<lambda>(n, b). b < 8 \<and> n mod (2 * 2 ^ b) = (2 ^ b :: int)) (zip [1..255] (tl lowest_bit_bitmap))"
  by code_simp

lemma bitmap_lowest:
  fixes n :: nat
  assumes "n \<noteq> 0" "n < 256"
  shows "lowest_bit_bitmap ! n < 8" "bit n (lowest_bit_bitmap ! n)" "q < lowest_bit_bitmap ! n \<Longrightarrow> \<not> bit n q"
proof -
  let ?b = "lowest_bit_bitmap ! n"
  have len: "length lowest_bit_bitmap = 256" by (simp add: lowest_bit_bitmap_def)
  have nth: "zip [1..255] (tl lowest_bit_bitmap) ! (n - 1) = (int n, ?b)"
    using assms len by (simp add: nth_tl)
  have "(int n, ?b) \<in> set (zip [1..255] (tl lowest_bit_bitmap))"
    using assms len nth_mem[of "n - 1" "zip [1..255] (tl lowest_bit_bitmap)"] unfolding nth by simp
  then have b: "?b < 8" "int n mod (2 * 2 ^ ?b) = 2 ^ ?b"
    using bitmap_table by (auto simp: list_all_iff)
  have "int (n mod (2 * 2 ^ ?b)) = int (2 ^ ?b)" using b(2) by (simp add: zmod_int)
  then have tb: "take_bit (Suc ?b) n = 2 ^ ?b" unfolding of_nat_eq_iff by (simp add: take_bit_eq_mod)
  have "bit n i \<longleftrightarrow> i = ?b" if "i < Suc ?b" for i
    using that bit_take_bit_iff[of "Suc ?b" n i] unfolding tb by (simp add: bit_exp_iff)
  then show "bit n ?b" "q < ?b \<Longrightarrow> \<not> bit n q" by auto
  show "?b < 8" by (rule b(1))
qed
text \<open>Bits of numerals are left alone here: the masks get their own bit lemmas.\<close>

declare bit_numeral_word_iff [simp del]

lemma byte_ffs:
  assumes low: "\<And>q. q < k \<Longrightarrow> \<not> bit v q" and k: "k \<le> 24"
    and w: "\<And>i. bit w i \<longleftrightarrow> i < 8 \<and> bit v (i + k)" and nz: "w \<noteq> 0"
  shows "rt_ffs v = lowest_bit_bitmap ! unat (w :: u32) + (k + 1)"
proof -
  let ?b = "lowest_bit_bitmap ! unat w"
  have bw: "bit (unat w) i \<longleftrightarrow> bit w i" for i
    by (simp add: bit_unsigned_iff)
  have "w = take_bit 8 w" by (rule bit_eqI) (auto simp: bit_take_bit_iff w)
  then have "unat w = take_bit 8 (unat w)" by (metis unsigned_take_bit_eq)
  then have "unat w < 256" using take_bit_nat_less_exp[of 8 "unat w"] by simp
  moreover have "unat w \<noteq> 0" using nz by (simp add: unsigned_eq_0_iff)
  ultimately have b: "?b < 8" "bit w ?b" "\<And>q. q < ?b \<Longrightarrow> \<not> bit w q"
    using bitmap_lowest[of "unat w"] bw by auto
  have "\<not> bit v q" if "q < ?b + k" for q
  proof (cases "q < k")
    case False
    then have "\<not> bit w (q - k)" using that b(3) by auto
    then show ?thesis using False that b(1) w[of "q - k"] by auto
  qed (rule low)
  then show ?thesis using b(2) w by (auto simp: rt_ffs_Suc)
qed

lemma bit_ff [simp]: "bit (0xff :: u32) i \<longleftrightarrow> i < 8"
  using bit_mask_iff[where 'a = "32 word", of 8 i] by (auto simp: mask_eq_exp_minus_1)

lemma shifted_zero_iff:
  "(v AND c = (0 :: u32)) \<longleftrightarrow> (\<forall>i. bit v i \<longrightarrow> \<not> bit c i)"
  by (auto simp: bit_eq_iff bit_and_iff dest: bit_32)

lemma bit_drop_mask: "bit (drop_bit k (v AND c :: u32)) i \<longleftrightarrow> bit v (i + k) \<and> bit c (i + k)"
  by (simp add: bit_drop_bit_eq bit_and_iff add.commute)

lemma drop_mask_nz:
  assumes "v AND c \<noteq> (0 :: u32)" "\<And>i. bit c i \<Longrightarrow> k \<le> i"
  shows "drop_bit k (v AND c) \<noteq> 0"
proof
  assume z: "drop_bit k (v AND c) = 0"
  obtain i where i: "bit v i" "bit c i" using assms(1) unfolding shifted_zero_iff by auto
  then have "bit (drop_bit k (v AND c)) (i - k)" using assms(2)[OF i(2)]
    by (simp add: bit_drop_bit_eq bit_and_iff)
  then show False using z by simp
qed

lemma bit_byte_mask:
  "bit (0xff00 :: u32) i \<longleftrightarrow> 8 \<le> i \<and> i < 16" "bit (0xff0000 :: u32) i \<longleftrightarrow> 16 \<le> i \<and> i < 24"
  "bit (0xff000000 :: u32) i \<longleftrightarrow> 24 \<le> i \<and> i < 32"
proof -
  have s: "(0xff00 :: u32) = push_bit 8 0xff" "(0xff0000 :: u32) = push_bit 16 0xff"
    "(0xff000000 :: u32) = push_bit 24 0xff" by simp_all
  show "bit (0xff00 :: u32) i \<longleftrightarrow> 8 \<le> i \<and> i < 16" unfolding s bit_push_bit_iff by auto
  show "bit (0xff0000 :: u32) i \<longleftrightarrow> 16 \<le> i \<and> i < 24" unfolding s bit_push_bit_iff by auto
  show "bit (0xff000000 :: u32) i \<longleftrightarrow> 24 \<le> i \<and> i < 32" unfolding s bit_push_bit_iff by auto
qed

lemma table_ffs_eq: "table_ffs v = rt_ffs v"
proof -
  let ?z = "\<lambda>c. v AND c = (0 :: u32)"
  consider "v = 0" | "v \<noteq> 0" "\<not> ?z 0xff" | "v \<noteq> 0" "?z 0xff" "\<not> ?z 0xff00"
    | "v \<noteq> 0" "?z 0xff" "?z 0xff00" "\<not> ?z 0xff0000"
    | "v \<noteq> 0" "?z 0xff" "?z 0xff00" "?z 0xff0000" by blast
  then show ?thesis
  proof cases
    case 1
    then show ?thesis using rt_ffs_0[of v] by (simp add: table_ffs_def)
  next
    case 2
    have "rt_ffs v = lowest_bit_bitmap ! unat (v AND 0xff) + (0 + 1)"
      using 2 by (intro byte_ffs) (auto simp: bit_and_iff)
    then show ?thesis using 2 by (simp add: table_ffs_def)
  next
    case 3
    have "rt_ffs v = lowest_bit_bitmap ! unat (drop_bit 8 (v AND 0xff00)) + (8 + 1)"
    proof (rule byte_ffs)
      show "drop_bit 8 (v AND 0xff00) \<noteq> 0" by (rule drop_mask_nz[OF 3(3)]) (simp add: bit_byte_mask)
      show "\<And>q. q < 8 \<Longrightarrow> \<not> bit v q" using 3 unfolding shifted_zero_iff bit_byte_mask bit_ff by (meson not_less)
    qed (auto simp only: bit_drop_mask bit_byte_mask)
    then show ?thesis using 3 by (simp add: table_ffs_def)
  next
    case 4
    have "rt_ffs v = lowest_bit_bitmap ! unat (drop_bit 16 (v AND 0xff0000)) + (16 + 1)"
    proof (rule byte_ffs)
      show "drop_bit 16 (v AND 0xff0000) \<noteq> 0" by (rule drop_mask_nz[OF 4(4)]) (simp add: bit_byte_mask)
      show "\<And>q. q < 16 \<Longrightarrow> \<not> bit v q" using 4 unfolding shifted_zero_iff bit_byte_mask bit_ff by (meson not_less)
    qed (auto simp only: bit_drop_mask bit_byte_mask)
    then show ?thesis using 4 by (simp add: table_ffs_def)
  next
    case 5
    have "v AND 0xff000000 \<noteq> 0"
      using 5 bit_32[of v] unfolding shifted_zero_iff bit_byte_mask bit_ff
      by (metis bit_eqI bit_0_eq bot_apply bot_bool_def leI)
    then have "rt_ffs v = lowest_bit_bitmap ! unat (drop_bit 24 (v AND 0xff000000)) + (24 + 1)"
    proof (intro byte_ffs)
      assume nz: "v AND 0xff000000 \<noteq> 0"
      show "drop_bit 24 (v AND 0xff000000) \<noteq> 0" by (rule drop_mask_nz[OF nz]) (simp add: bit_byte_mask)
      show "\<And>q. q < 24 \<Longrightarrow> \<not> bit v q" using 5 unfolding shifted_zero_iff bit_byte_mask bit_ff by (meson not_less)
    qed (auto simp only: bit_drop_mask bit_byte_mask)
    then show ?thesis using 5 by (simp add: table_ffs_def)
  qed
qed

end
