(* ===== verification/Format.thy ===== *)
theory Format
  imports Kservice
begin

text \<open>
  Formatted output (\<open>print_number\<close>, \<open>rt_vsnprintf\<close> and \<open>rt_kprintf\<close> of \<open>src/kservice.c\<close>) in the
  configuration of the board: precisions are supported, \<open>long long\<close> and the \<open>#\<close> prefix are not.
  The output state is the write position and the memory; the format is the string's bytes
  without the final null, and the variable arguments are a list of 32-bit words.
\<close>

section \<open>Output\<close>

type_synonym out = "nat \<times> mem"

text \<open>Every byte moves the position, but only positions before \<open>e\<close> are written.\<close>

fun emit :: "nat \<Rightarrow> u8 \<Rightarrow> out \<Rightarrow> out" where
  "emit e c (p, m) = (p + 1, if p < e then m(p := c) else m)"

fun emits :: "nat \<Rightarrow> u8 list \<Rightarrow> out \<Rightarrow> out" where
  "emits e [] out = out"
| "emits e (c # cs) out = emits e cs (emit e c out)"

text \<open>\<open>while (size-- > 0)\<close>, with the value the counter is left with.\<close>

definition fill_out :: "nat \<Rightarrow> u8 \<Rightarrow> int \<Rightarrow> out \<Rightarrow> out \<times> int" where
  "fill_out e c n out = (emits e (replicate (nat n) c) out, min n 0 - 1)"

definition ZEROPAD :: u8 where "ZEROPAD = 1"
definition SIGN :: u8 where "SIGN = 2"
definition PLUS :: u8 where "PLUS = 4"
definition SPACE :: u8 where "SPACE = 8"
definition LEFT :: u8 where "LEFT = 16"
definition SPECIAL :: u8 where "SPECIAL = 32"
definition LARGE :: u8 where "LARGE = 64"

lemmas flag_defs = ZEROPAD_def SIGN_def PLUS_def SPACE_def LEFT_def SPECIAL_def LARGE_def

section \<open>Numbers\<close>

text \<open>\<open>divide\<close> knows two bases only: whatever is not 10 is 16.\<close>

definition divide_by :: "u32 \<Rightarrow> nat \<Rightarrow> nat \<times> u32" where
  "divide_by n base = (if base = 10 then (unat (n mod 10), n div 10) else (unat (n mod 16), n div 16))"

definition digit_char :: "u8 \<Rightarrow> nat \<Rightarrow> u8" where
  "digit_char type d = of_nat (if d < 10 then 48 + d else if type AND LARGE \<noteq> 0 then 55 + d else 87 + d)"

text \<open>The digits in \<open>tmp\<close>, the lowest first.\<close>

function number_digits :: "u8 \<Rightarrow> nat \<Rightarrow> u32 \<Rightarrow> u8 list" where
  "number_digits type base n =
     (if n = 0 then [] else digit_char type (fst (divide_by n base)) # number_digits type base (snd (divide_by n base)))"
  by pat_completeness auto
termination
proof (relation "measure (\<lambda>(_, _, n). unat n)")
  fix type base and n :: u32
  assume "n \<noteq> 0"
  then have "0 < unat n" by (simp add: unat_gt_0 word_neq_0_conv)
  then show "((type, base, snd (divide_by n base)), type, base, n) \<in> measure (\<lambda>(_, _, n). unat n)"
    by (simp add: divide_by_def unat_div)
qed simp

declare number_digits.simps [simp del]

definition print_number :: "nat \<Rightarrow> u32 \<Rightarrow> nat \<Rightarrow> int \<Rightarrow> int \<Rightarrow> u8 \<Rightarrow> out \<Rightarrow> out" where
  "print_number e num base s precision type out =
    (let type = (if type AND LEFT \<noteq> 0 then type AND NOT ZEROPAD else type);
         c = (if type AND ZEROPAD \<noteq> 0 then 48 else 32);
         neg = (type AND SIGN \<noteq> 0 \<and> sint num < 0);
         sign = (if type AND SIGN = 0 then None else if neg then Some 45
                 else if type AND PLUS \<noteq> 0 then Some 43 else if type AND SPACE \<noteq> 0 then Some 32 else None);
         num = (if neg then - num else num);
         tmp = (if num = 0 then [48] else number_digits type base num);
         prec = max precision (int (length tmp));
         sz = s - prec;
         (out, sz) = (if type AND (ZEROPAD OR LEFT) = 0
                      then fill_out e 32 (if sign \<noteq> None \<and> 0 < sz then sz - 1 else sz) out else (out, sz));
         (out, sz) = (case sign of None \<Rightarrow> (out, sz) | Some x \<Rightarrow> (emit e x out, sz - 1));
         (out, sz) = (if type AND LEFT = 0 then fill_out e c sz out else (out, sz));
         out = emits e (replicate (nat (prec - int (length tmp))) 48) out;
         out = (if precision \<noteq> 0 then emits e (rev tmp) out else out)
     in fst (fill_out e 32 sz out))"

section \<open>The format\<close>

definition isdigit :: "u8 \<Rightarrow> bool" where
  "isdigit c \<longleftrightarrow> c - 48 < 10"

text \<open>The number is an \<open>int\<close>; the model does not follow its overflow.\<close>

fun skip_atoi :: "int \<Rightarrow> u8 list \<Rightarrow> int \<times> u8 list" where
  "skip_atoi i [] = (i, [])"
| "skip_atoi i (c # cs) = (if isdigit c then skip_atoi (i * 10 + uint c - 48) cs else (i, c # cs))"

fun skip_flags :: "u8 \<Rightarrow> u8 list \<Rightarrow> u8 \<times> u8 list" where
  "skip_flags fl [] = (fl, [])"
| "skip_flags fl (c # cs) =
    (if c = 45 then skip_flags (fl OR LEFT) cs
     else if c = 43 then skip_flags (fl OR PLUS) cs
     else if c = 32 then skip_flags (fl OR SPACE) cs
     else if c = 35 then skip_flags (fl OR SPECIAL) cs
     else if c = 48 then skip_flags (fl OR ZEROPAD) cs
     else (fl, c # cs))"

definition next_arg :: "u32 list \<Rightarrow> (u32 \<times> u32 list) option" where
  "next_arg args = (case args of [] \<Rightarrow> None | a # as \<Rightarrow> Some (a, as))"

definition parse_width :: "u8 \<Rightarrow> u8 list \<Rightarrow> u32 list \<Rightarrow> (int \<times> u8 \<times> u8 list \<times> u32 list) option" where
  "parse_width fl fmt args =
    (case fmt of [] \<Rightarrow> Some (- 1, fl, [], args)
     | c # cs \<Rightarrow>
         if isdigit c then (let (w, r) = skip_atoi 0 fmt in Some (w, fl, r, args))
         else if c = 42 then do {
           (a, as) \<leftarrow> next_arg args;
           Some (if sint a < 0 then (- sint a, fl OR LEFT, cs, as) else (sint a, fl, cs, as))
         } else Some (- 1, fl, fmt, args))"

definition parse_precision :: "u8 list \<Rightarrow> u32 list \<Rightarrow> (int \<times> u8 list \<times> u32 list) option" where
  "parse_precision fmt args =
    (case fmt of [] \<Rightarrow> Some (- 1, [], args)
     | c # cs \<Rightarrow>
         if c \<noteq> 46 then Some (- 1, fmt, args)
         else (case cs of [] \<Rightarrow> Some (0, [], args)
           | d # ds \<Rightarrow>
               if isdigit d then (let (p, r) = skip_atoi 0 cs in Some (max p 0, r, args))
               else if d = 42 then do { (a, as) \<leftarrow> next_arg args; Some (max (sint a) 0, ds, as) }
               else Some (0, cs, args)))"

definition parse_qualifier :: "u8 list \<Rightarrow> u8 \<times> u8 list" where
  "parse_qualifier fmt = (case fmt of [] \<Rightarrow> (0, []) | c # cs \<Rightarrow> if c = 104 \<or> c = 108 then (c, cs) else (0, fmt))"

section \<open>Conversions\<close>

text \<open>\<open>while (--field_width > 0)\<close> and \<open>while (len < field_width--)\<close>.\<close>

definition fill_char :: "nat \<Rightarrow> int \<Rightarrow> out \<Rightarrow> out \<times> int" where
  "fill_char e w out = (emits e (replicate (nat (w - 1)) 32) out, min w 1 - 1)"

definition fill_string :: "nat \<Rightarrow> int \<Rightarrow> int \<Rightarrow> out \<Rightarrow> out \<times> int" where
  "fill_string e len w out = (emits e (replicate (nat (w - len)) 32) out, min w len - 1)"

primrec copy_string :: "nat \<Rightarrow> nat \<Rightarrow> nat \<Rightarrow> out \<Rightarrow> out" where
  "copy_string e s 0 out = out"
| "copy_string e s (Suc n) out = copy_string e (s + 1) n (emit e (snd out s) out)"

text \<open>The text \<open>(NULL)\<close> that stands for a null pointer.\<close>

definition null_text :: "u8 list" where
  "null_text = [40, 78, 85, 76, 76, 41]"

definition print_string :: "nat \<Rightarrow> nat \<Rightarrow> int \<Rightarrow> int \<Rightarrow> u8 \<Rightarrow> out \<Rightarrow> out option" where
  "print_string e s width precision fl out = do {
     n \<leftarrow> (if s = 0 then Some (length null_text) else rt_strlen (snd out) s);
     let len = (if 0 < precision \<and> precision < int n then precision else int n);
     let (out1, w1) = (if fl AND LEFT = 0 then fill_string e len width out else (out, width));
     let out2 = (if s = 0 then emits e (take (nat len) null_text) out1 else copy_string e s (nat len) out1);
     Some (fst (fill_string e len w1 out2))
   }"

definition print_char :: "nat \<Rightarrow> u32 \<Rightarrow> int \<Rightarrow> u8 \<Rightarrow> out \<Rightarrow> out" where
  "print_char e a width fl out =
    (let (out1, w1) = (if fl AND LEFT = 0 then fill_char e width out else (out, width))
     in fst (fill_char e w1 (emit e (ucast a) out1)))"

text \<open>The integer argument of an \<open>h\<close> conversion is cut to 16 bits first.\<close>

definition int_arg :: "u8 \<Rightarrow> u8 \<Rightarrow> u32 \<Rightarrow> u32" where
  "int_arg q fl a =
    (if q = 104 then (if fl AND SIGN \<noteq> 0 then scast (ucast a :: u16) else ucast (ucast a :: u16)) else a)"

text \<open>One conversion, after flags, width, precision and qualifier; an unknown one is copied.\<close>

definition convert :: "nat \<Rightarrow> u8 \<Rightarrow> u8 \<Rightarrow> int \<Rightarrow> int \<Rightarrow> u8 \<Rightarrow> u32 list \<Rightarrow> out \<Rightarrow> (u32 list \<times> out) option" where
  "convert e c q width precision fl args out =
    (if c = 99 then do { (a, as) \<leftarrow> next_arg args; Some (as, print_char e a width fl out) }
     else if c = 115 then do {
       (a, as) \<leftarrow> next_arg args;
       out1 \<leftarrow> print_string e (unat a) width precision fl out;
       Some (as, out1)
     } else if c = 112 then do {
       (a, as) \<leftarrow> next_arg args;
       Some (as, if width = - 1 then print_number e a 16 8 precision (fl OR ZEROPAD) out
         else print_number e a 16 width precision fl out)
     } else if c = 37 then Some (args, emit e 37 out)
     else if c \<in> {111, 88, 120, 100, 105, 117} then do {
       (a, as) \<leftarrow> next_arg args;
       let base = (if c = 111 then 8 else if c = 88 \<or> c = 120 then 16 else 10);
       let fl1 = (if c = 88 then fl OR LARGE else if c = 100 \<or> c = 105 then fl OR SIGN else fl);
       Some (as, print_number e (int_arg q fl1 a) base width precision fl1 out)
     } else Some (args, emit e c (emit e 37 out)))"

text \<open>What stands between a percent sign and the conversion character: flags, width, precision,
  qualifier, the rest of the format and of the arguments.\<close>

definition parse_spec :: "u8 list \<Rightarrow> u32 list \<Rightarrow> (u8 \<times> int \<times> int \<times> u8 \<times> u8 list \<times> u32 list) option" where
  "parse_spec fmt args = do {
     let (fl, f1) = skip_flags 0 fmt;
     (width, fl1, f2, a1) \<leftarrow> parse_width fl f1 args;
     (precision, f3, a2) \<leftarrow> parse_precision f2 a1;
     let (q, f4) = parse_qualifier f3;
     Some (fl1, width, precision, q, f4, a2)
   }"

text \<open>What follows a percent sign: the rest of the format, of the arguments and the output.\<close>

definition directive :: "nat \<Rightarrow> u8 list \<Rightarrow> u32 list \<Rightarrow> out \<Rightarrow> (u8 list \<times> u32 list \<times> out) option" where
  "directive e fmt args out = do {
     (fl, width, precision, q, f4, a2) \<leftarrow> parse_spec fmt args;
     (case f4 of
        [] \<Rightarrow> Some ([], a2, emit e 37 out)
      | c # f5 \<Rightarrow> do { (a3, out1) \<leftarrow> convert e c q width precision fl a2 out; Some (f5, a3, out1) })
   }"

section \<open>Parsing consumes the format\<close>

lemma skip_atoi_length: "skip_atoi i cs = (n, r) \<Longrightarrow> length r \<le> length cs"
proof (induction i cs rule: skip_atoi.induct)
  case (2 i c cs)
  then show ?case by (cases "isdigit c") auto
qed simp

lemma skip_flags_length: "skip_flags fl cs = (fl', r) \<Longrightarrow> length r \<le> length cs"
proof (induction fl cs rule: skip_flags.induct)
  case (2 fl c cs)
  have d: "length r \<le> Suc (length cs)" if "length r \<le> length cs" using that by simp
  show ?case using "2.prems" "2.IH"[THEN d] by (simp split: if_split_asm) auto
qed simp

lemma parse_width_length: "parse_width fl fmt args = Some (w, fl', r, as) \<Longrightarrow> length r \<le> length fmt"
  by (auto simp: parse_width_def next_arg_def split: list.splits if_splits prod.splits dest: skip_atoi_length)

lemma parse_precision_length: "parse_precision fmt args = Some (p, r, as) \<Longrightarrow> length r \<le> length fmt"
  by (auto simp: parse_precision_def next_arg_def split: list.splits if_splits prod.splits
      dest!: skip_atoi_length)

lemma parse_qualifier_length: "parse_qualifier fmt = (q, r) \<Longrightarrow> length r \<le> length fmt"
  by (auto simp: parse_qualifier_def split: list.splits if_splits)

lemma parse_spec_length:
  "parse_spec fmt args = Some (fl, w, p, q, r, as) \<Longrightarrow> length r \<le> length fmt"
  by (auto simp: parse_spec_def split: Option.bind_splits prod.splits
      dest!: skip_flags_length parse_width_length parse_precision_length parse_qualifier_length)

lemma directive_length: "directive e fmt args out = Some (r, as, out') \<Longrightarrow> length r \<le> length fmt"
  by (auto simp: directive_def split: Option.bind_splits list.splits dest!: parse_spec_length)

section \<open>The loop over the format\<close>

function vsn_loop :: "nat \<Rightarrow> u8 list \<Rightarrow> u32 list \<Rightarrow> out \<Rightarrow> out option" where
  "vsn_loop e [] args out = Some out"
| "vsn_loop e (c # cs) args out =
    (if c \<noteq> 37 then vsn_loop e cs args (emit e c out)
     else do { (fmt, as, out1) \<leftarrow> directive e cs args out; vsn_loop e fmt as out1 })"
  by pat_completeness auto
termination
  by (relation "measure (\<lambda>(_, fmt, _). length fmt)") (auto dest: directive_length)

text \<open>
  \<open>rt_vsnprintf\<close>: an end that wraps round is cut to the last address, and the null byte takes
  the place of the last byte where the output does not fit. The result counts the bytes that
  a large enough buffer would have received.
\<close>

definition rt_vsnprintf :: "nat \<Rightarrow> u32 \<Rightarrow> u8 list \<Rightarrow> u32 list \<Rightarrow> mem \<Rightarrow> (u32 \<times> mem) option" where
  "rt_vsnprintf buf sz fmt args m = do {
     let e = (buf + unat sz) mod 4294967296;
     let (e, sz) = (if e < buf then (4294967295, 4294967295 - of_nat buf) else (e, sz));
     (p, m1) \<leftarrow> vsn_loop e fmt args (buf, m);
     let m2 = (if 0 < sz then (if p < e then m1(p := 0) else m1(e - 1 := 0)) else m1);
     Some (of_nat (p - buf), m2)
   }"

definition rt_snprintf :: "nat \<Rightarrow> u32 \<Rightarrow> u8 list \<Rightarrow> u32 list \<Rightarrow> mem \<Rightarrow> (u32 \<times> mem) option" where
  "rt_snprintf buf sz fmt args m = rt_vsnprintf buf sz fmt args m"

definition rt_vsprintf :: "nat \<Rightarrow> u8 list \<Rightarrow> u32 list \<Rightarrow> mem \<Rightarrow> (u32 \<times> mem) option" where
  "rt_vsprintf buf fmt args m = rt_vsnprintf buf (- 1) fmt args m"

definition rt_sprintf :: "nat \<Rightarrow> u8 list \<Rightarrow> u32 list \<Rightarrow> mem \<Rightarrow> (u32 \<times> mem) option" where
  "rt_sprintf buf fmt args m = rt_vsprintf buf fmt args m"

text \<open>
  \<open>rt_kprintf\<close> formats into the static buffer \<open>rt_log_buf\<close> of \<open>RT_CONSOLEBUF_SIZE\<close> bytes; the
  result is the number of bytes it hands to the console device, which start at that buffer.
\<close>

definition RT_CONSOLEBUF_SIZE :: u32 where "RT_CONSOLEBUF_SIZE = 128"

definition rt_kprintf :: "nat \<Rightarrow> u8 list \<Rightarrow> u32 list \<Rightarrow> mem \<Rightarrow> (u32 \<times> mem) option" where
  "rt_kprintf rt_log_buf fmt args m = do {
     (n, m1) \<leftarrow> rt_vsnprintf rt_log_buf (RT_CONSOLEBUF_SIZE - 1) fmt args m;
     Some (if RT_CONSOLEBUF_SIZE - 1 < n then RT_CONSOLEBUF_SIZE - 1 else n, m1)
   }"

section \<open>Output is a sequence of bytes\<close>

lemma emits_append: "emits e (xs @ ys) out = emits e ys (emits e xs out)"
  by (induction xs arbitrary: out) auto

lemma emits_eq:
  "emits e cs (p, m) =
    (p + length cs, \<lambda>a. if p \<le> a \<and> a < p + length cs \<and> a < e then cs ! (a - p) else m a)"
proof (induction cs arbitrary: p m)
  case (Cons c cs)
  show ?case by (auto simp: Cons.IH fun_eq_iff nth_Cons')
qed (auto simp: fun_eq_iff)

text \<open>\<open>prints e out out'\<close>: the second output is the first after some bytes.\<close>

definition prints :: "nat \<Rightarrow> out \<Rightarrow> out \<Rightarrow> bool" where
  "prints e out out' \<longleftrightarrow> (\<exists>cs. out' = emits e cs out)"

lemma prints_refl [simp, intro]: "prints e out out"
  unfolding prints_def by (rule exI[of _ "[]"]) simp

lemma prints_trans [trans]: "prints e a b \<Longrightarrow> prints e b c \<Longrightarrow> prints e a c"
  by (auto simp: prints_def emits_append[symmetric])

lemma prints_emits [simp, intro]: "prints e out (emits e cs out)"
  by (auto simp: prints_def)

lemma prints_emit [simp, intro]: "prints e out (emit e c out)"
  unfolding prints_def by (rule exI[of _ "[c]"]) simp

lemma prints_fill_out [simp, intro]: "prints e out (fst (fill_out e c n out))"
  by (simp add: fill_out_def)

lemma prints_copy_string [simp, intro]: "prints e out (copy_string e s n out)"
proof (induction n arbitrary: s out)
  case (Suc n)
  show ?case using prints_trans[OF prints_emit Suc.IH] by simp
qed simp

text \<open>
  What a number looks like, without the counters of \<open>print_number\<close>: blanks in front unless zeros
  or the left margin are asked for, the sign, zeros up to the width, zeros up to the precision,
  the digits, and blanks behind. The width left over counts the digits also where the precision
  is 0 and no digit is printed.
\<close>

definition sign_text :: "u8 \<Rightarrow> u32 \<Rightarrow> u8 list" where
  "sign_text type num =
    (if type AND SIGN = 0 then [] else if sint num < 0 then [45]
     else if type AND PLUS \<noteq> 0 then [43] else if type AND SPACE \<noteq> 0 then [32] else [])"

definition digits_text :: "u8 \<Rightarrow> nat \<Rightarrow> u32 \<Rightarrow> u8 list" where
  "digits_text type base num =
    (let n = (if type AND SIGN \<noteq> 0 \<and> sint num < 0 then - num else num)
     in if n = 0 then [48] else rev (number_digits type base n))"

definition number_text :: "u32 \<Rightarrow> nat \<Rightarrow> int \<Rightarrow> int \<Rightarrow> u8 \<Rightarrow> u8 list" where
  "number_text num base s precision type =
    (let sg = sign_text type num;
         ds = digits_text type base num;
         pad = replicate (nat (s - max precision (int (length ds)) - int (length sg)));
         body = replicate (nat (precision - int (length ds))) 48 @ (if precision = 0 then [] else ds)
     in if type AND LEFT \<noteq> 0 then sg @ body @ pad 32
        else if type AND ZEROPAD \<noteq> 0 then sg @ pad 48 @ body
        else pad 32 @ sg @ body)"

lemma clear_ZEROPAD:
  fixes type :: u8
  shows "(type AND NOT ZEROPAD) AND ZEROPAD = 0" "(type AND NOT ZEROPAD) AND SIGN = type AND SIGN"
    "(type AND NOT ZEROPAD) AND PLUS = type AND PLUS" "(type AND NOT ZEROPAD) AND SPACE = type AND SPACE"
    "(type AND NOT ZEROPAD) AND LEFT = type AND LEFT" "(type AND NOT ZEROPAD) AND LARGE = type AND LARGE"
  by (simp_all add: flag_defs and.assoc)

lemma clear_ZEROPAD_digits: "number_digits (type AND NOT ZEROPAD) base n = number_digits type base n"
proof (induction type base n rule: number_digits.induct)
  case (1 type base n)
  have "digit_char (type AND NOT ZEROPAD) d = digit_char type d" for d
    by (simp add: digit_char_def clear_ZEROPAD)
  then show ?case using 1 by (subst (1 2) number_digits.simps) simp
qed

lemma and_flags_0: "type AND (ZEROPAD OR LEFT) = 0 \<longleftrightarrow> type AND ZEROPAD = 0 \<and> type AND LEFT = 0"
  for type :: u8
  by (simp add: bit.conj_disj_distrib or_eq_0_iff)

lemma number_layout:
  fixes sz :: int
  assumes "front \<longrightarrow> right"
  shows "(let (out, sz) = (if front then fill_out e 32 (if sg \<noteq> None \<and> 0 < sz then sz - 1 else sz) out else (out, sz));
              (out, sz) = (case sg of None \<Rightarrow> (out, sz) | Some x \<Rightarrow> (emit e x out, sz - 1));
              (out, sz) = (if right then fill_out e c sz out else (out, sz));
              out = emits e zs out;
              out = (if b then emits e ds out else out)
          in fst (fill_out e 32 sz out)) =
    (let sl = (case sg of None \<Rightarrow> [] | Some x \<Rightarrow> [x]);
         pad = replicate (nat (sz - int (length sl)));
         body = zs @ (if b then ds else [])
     in emits e (if front then pad 32 @ sl @ body else if right then sl @ pad c @ body else sl @ body @ pad 32) out)"
  using assms by (cases sg; cases front; cases right; cases "0 < sz"; cases b) (simp_all add: fill_out_def emits_append)

lemma print_number_text:
  "print_number e num base s precision type out = emits e (number_text num base s precision type) out"
proof -
  define ty where "ty = (if type AND LEFT \<noteq> 0 then type AND NOT ZEROPAD else type)"
  define neg where "neg \<longleftrightarrow> type AND SIGN \<noteq> 0 \<and> sint num < 0"
  define sg :: "u8 option" where "sg = (if type AND SIGN = 0 then None else if neg then Some 45
    else if type AND PLUS \<noteq> 0 then Some 43 else if type AND SPACE \<noteq> 0 then Some 32 else None)"
  define n where "n = (if neg then - num else num)"
  define tmp where "tmp = (if n = 0 then [48] else number_digits type base n)"
  define sz where "sz = s - max precision (int (length tmp))"
  have ty: "ty AND SIGN = type AND SIGN" "ty AND PLUS = type AND PLUS" "ty AND SPACE = type AND SPACE"
      "ty AND LEFT = type AND LEFT" "number_digits ty base n = number_digits type base n"
      "ty AND ZEROPAD = (if type AND LEFT \<noteq> 0 then 0 else type AND ZEROPAD)"
    by (auto simp: ty_def clear_ZEROPAD clear_ZEROPAD_digits)
  have front: "ty AND (ZEROPAD OR LEFT) = 0 \<longleftrightarrow> type AND ZEROPAD = 0 \<and> type AND LEFT = 0"
    using ty(4,6) by (auto simp: and_flags_0)
  have fr: "ty AND (ZEROPAD OR LEFT) = 0 \<longrightarrow> type AND LEFT = 0" using front by simp
  have sl: "(case sg of None \<Rightarrow> [] | Some x \<Rightarrow> [x]) = sign_text type num"
    by (simp add: sg_def sign_text_def neg_def)
  have ds: "digits_text type base num = rev tmp"
    by (simp add: digits_text_def tmp_def n_def neg_def Let_def)
  have "print_number e num base s precision type out =
    (let (out, sz) = (if ty AND (ZEROPAD OR LEFT) = 0 then fill_out e 32 (if sg \<noteq> None \<and> 0 < sz then sz - 1 else sz) out else (out, sz));
         (out, sz) = (case sg of None \<Rightarrow> (out, sz) | Some x \<Rightarrow> (emit e x out, sz - 1));
         (out, sz) = (if type AND LEFT = 0 then fill_out e (if ty AND ZEROPAD \<noteq> 0 then 48 else 32) sz out else (out, sz));
         out = emits e (replicate (nat (max precision (int (length tmp)) - int (length tmp))) 48) out;
         out = (if precision \<noteq> 0 then emits e (rev tmp) out else out)
     in fst (fill_out e 32 sz out))"
    unfolding print_number_def Let_def ty_def[symmetric] ty neg_def[symmetric] sg_def[symmetric]
      n_def[symmetric] tmp_def[symmetric] sz_def[symmetric]
    by (rule refl)
  also have "\<dots> = emits e (number_text num base s precision type) out"
    unfolding number_layout[OF fr]
    by (simp add: number_text_def Let_def sl ds sz_def front ty max_def)
  finally show ?thesis .
qed

lemma prints_char: "prints e out (print_char e a w fl out)"
  unfolding print_char_def Let_def fill_char_def
  by (auto intro: prints_trans prints_emits prints_emit)

lemma prints_string: "print_string e s w p fl out = Some out' \<Longrightarrow> prints e out out'"
  unfolding print_string_def Let_def fill_string_def
  by (auto split: Option.bind_splits if_splits intro: prints_trans prints_emits prints_copy_string)

section \<open>The text of a format\<close>

text \<open>
  What a format prints, as a list of bytes without position and buffer; the strings of \<open>%s\<close>
  are read in the memory \<open>m\<close>.
\<close>

definition pad_text :: "u8 \<Rightarrow> int \<Rightarrow> u8 list \<Rightarrow> u8 list" where
  "pad_text fl width cs =
    (if fl AND LEFT \<noteq> 0 then cs @ replicate (nat (width - int (length cs))) 32
     else replicate (nat (width - int (length cs))) 32 @ cs)"

definition string_text :: "mem \<Rightarrow> u32 \<Rightarrow> int \<Rightarrow> u8 list option" where
  "string_text m s precision = do {
     cs \<leftarrow> (if s = 0 then Some null_text
            else map_option (\<lambda>n. map (\<lambda>i. m (unat s + i)) [0..<n]) (rt_strlen m (unat s)));
     Some (if 0 < precision then take (nat precision) cs else cs)
   }"

definition convert_text :: "mem \<Rightarrow> u8 \<Rightarrow> u8 \<Rightarrow> int \<Rightarrow> int \<Rightarrow> u8 \<Rightarrow> u32 \<Rightarrow> u8 list option" where
  "convert_text m c q width precision fl a =
    (if c = 99 then Some (pad_text fl width [ucast a])
     else if c = 115 then map_option (pad_text fl width) (string_text m a precision)
     else if c = 112 then Some (if width = - 1 then number_text a 16 8 precision (fl OR ZEROPAD)
       else number_text a 16 width precision fl)
     else if c = 100 \<or> c = 105 then Some (number_text (int_arg q (fl OR SIGN) a) 10 width precision (fl OR SIGN))
     else if c = 88 then Some (number_text (int_arg q (fl OR LARGE) a) 16 width precision (fl OR LARGE))
     else Some (number_text (int_arg q fl a) (if c = 117 then 10 else if c = 111 then 8 else 16) width precision fl))"

definition conversions :: "u8 list" where
  "conversions = [99, 115, 112, 111, 88, 120, 100, 105, 117]"

function format_text :: "mem \<Rightarrow> u8 list \<Rightarrow> u32 list \<Rightarrow> u8 list option" where
  "format_text m [] args = Some []"
| "format_text m (c # cs) args =
    (if c \<noteq> 37 then map_option (Cons c) (format_text m cs args)
     else do {
       (fl, width, precision, q, f4, a2) \<leftarrow> parse_spec cs args;
       (case f4 of [] \<Rightarrow> Some [37]
        | d # f5 \<Rightarrow>
           if d \<in> set conversions then do {
             (a, as) \<leftarrow> next_arg a2;
             t \<leftarrow> convert_text m d q width precision fl a;
             map_option (append t) (format_text m f5 as)
           } else map_option (append (if d = 37 then [37] else [37, d])) (format_text m f5 a2))
     })"
  by pat_completeness auto
termination by (relation "measure (\<lambda>(_, fmt, _). length fmt)") (auto dest: parse_spec_length)

text \<open>The strings a format prints; a value only where there are arguments enough.\<close>

function format_strings :: "u8 list \<Rightarrow> u32 list \<Rightarrow> u32 list option" where
  "format_strings [] args = Some []"
| "format_strings (c # cs) args =
    (if c \<noteq> 37 then format_strings cs args
     else do {
       (fl, width, precision, q, f4, a2) \<leftarrow> parse_spec cs args;
       (case f4 of [] \<Rightarrow> Some []
        | d # f5 \<Rightarrow>
           if d \<in> set conversions then do {
             (a, as) \<leftarrow> next_arg a2;
             map_option (append (if d = 115 then [a] else [])) (format_strings f5 as)
           } else format_strings f5 a2)
     })"
  by pat_completeness auto
termination by (relation "measure (\<lambda>(fmt, _). length fmt)") (auto dest: parse_spec_length)

text \<open>A string pointer that is null, or of a terminated string outside the addresses from \<open>b\<close> to \<open>e\<close>.\<close>

definition string_outside :: "mem \<Rightarrow> nat \<Rightarrow> nat \<Rightarrow> u32 \<Rightarrow> bool" where
  "string_outside m b e s \<longleftrightarrow> s = 0 \<or> (\<exists>n. cstr m (unat s) n \<and> (unat s + n < b \<or> e \<le> unat s))"

lemma copy_string_eq:
  "(\<And>i. i < n \<Longrightarrow> \<not> (p \<le> s + i \<and> s + i < e)) \<Longrightarrow>
   copy_string e s n (p, m) = emits e (map (\<lambda>i. m (s + i)) [0..<n]) (p, m)"
proof (induction n arbitrary: s p m)
  case (Suc n)
  have out: "\<not> (p \<le> s + i \<and> s + i < e)" if "i < Suc n" for i using Suc.prems that by simp
  define m1 where "m1 = (if p < e then m(p := m s) else m)"
  have step: "emit e (m s) (p, m) = (Suc p, m1)" by (simp add: m1_def)
  have same: "m1 (Suc s + i) = m (Suc s + i)" if "i < n" for i
    using out[of "Suc i"] that by (auto simp: m1_def)
  have "copy_string e (Suc s) n (Suc p, m1) = emits e (map (\<lambda>i. m1 (Suc s + i)) [0..<n]) (Suc p, m1)"
  proof (rule Suc.IH)
    fix i assume "i < n"
    then show "\<not> (Suc p \<le> Suc s + i \<and> Suc s + i < e)" using out[of "Suc i"] by auto
  qed
  also have "map (\<lambda>i. m1 (Suc s + i)) [0..<n] = map (\<lambda>i. m (Suc s + i)) [0..<n]" using same by simp
  finally have "copy_string e s (Suc n) (p, m) = emits e (map (\<lambda>i. m (Suc s + i)) [0..<n]) (Suc p, m1)"
    by (simp add: step del: emit.simps)
  moreover have "map (\<lambda>i. m (s + i)) [0..<Suc n] = m s # map (\<lambda>i. m (Suc s + i)) [0..<n]"
    by (simp add: map_upt_Suc del: upt_Suc)
  ultimately show ?case using step by simp
qed simp

lemma print_char_text: "print_char e a w fl out = emits e (pad_text fl w [ucast a]) out"
  by (simp add: print_char_def pad_text_def fill_char_def emits_append Let_def)

text \<open>The padding of \<open>%s\<close> around any bytes that the loop over the string puts out.\<close>

lemma string_layout:
  assumes "X (emits e (replicate k 32) out) = emits e cs (emits e (replicate k 32) out)"
    "X out = emits e cs out" "k = nat (w - len)" "len = int (length cs)"
  shows "fst (fill_string e len (snd (if fl AND LEFT = 0 then fill_string e len w out else (out, w)))
      (X (fst (if fl AND LEFT = 0 then fill_string e len w out else (out, w))))) = emits e (pad_text fl w cs) out"
  using assms by (simp add: fill_string_def pad_text_def emits_append)

lemma cstr_cong: "(\<And>i. i \<le> n \<Longrightarrow> m (s + i) = m' (s + i)) \<Longrightarrow> cstr m s n \<longleftrightarrow> cstr m' s n"
  by (simp add: cstr_def)

lemma print_string_text:
  assumes "string_outside m b e s" "b \<le> p" "\<And>a. a < b \<or> e \<le> a \<Longrightarrow> m' a = m a"
  shows "\<exists>cs. string_text m s prec = Some cs \<and>
    print_string e (unat s) w prec fl (p, m') = Some (emits e (pad_text fl w cs) (p, m'))"
proof (cases "s = 0")
  case True
  let ?cs = "if 0 < prec then take (nat prec) null_text else null_text"
  let ?len = "if 0 < prec \<and> prec < int (length null_text) then prec else int (length null_text)"
  have "take (nat ?len) null_text = ?cs" "?len = int (length ?cs)" by (simp_all add: null_text_def)
  then show ?thesis
    using string_layout[of "\<lambda>out. emits e (take (nat ?len) null_text) out" e "nat (w - ?len)" "(p, m')" ?cs w ?len fl] True
    by (simp add: string_text_def print_string_def Let_def case_prod_beta)
next
  case False
  then obtain n where n: "cstr m (unat s) n" and out: "unat s + n < b \<or> e \<le> unat s"
    using assms(1) by (auto simp: string_outside_def)
  have same: "m' (unat s + i) = m (unat s + i)" if "i \<le> n" for i
    using assms(3)[of "unat s + i"] out that by auto
  have n': "cstr m' (unat s) n" using n cstr_cong[of n m' "unat s" m] same by simp
  define k where "k = (if 0 < prec \<and> prec < int n then nat prec else n)"
  let ?cs = "map (\<lambda>i. m (unat s + i)) [0..<k]"
  have k: "k \<le> n" by (auto simp: k_def)
  have cs: "string_text m s prec = Some ?cs"
    using False by (auto simp: string_text_def rt_strlen_cstr[OF n] k_def take_map)
  have copy: "copy_string e (unat s) k (emits e (replicate j 32) (p, m')) =
      emits e ?cs (emits e (replicate j 32) (p, m'))" for j
  proof -
    define q where "q = emits e (replicate j 32) (p, m')"
    have q: "fst q = p + j" "\<And>i. i < k \<Longrightarrow> snd q (unat s + i) = m (unat s + i)"
      using same out k assms(2) by (auto simp: q_def emits_eq)
    have "copy_string e (unat s) k (fst q, snd q) = emits e (map (\<lambda>i. snd q (unat s + i)) [0..<k]) (fst q, snd q)"
      by (rule copy_string_eq) (use out k q(1) assms(2) in auto)
    also have "map (\<lambda>i. snd q (unat s + i)) [0..<k] = ?cs" using q(2) by simp
    finally show ?thesis by (simp add: q_def)
  qed
  define len where "len = (if 0 < prec \<and> prec < int n then prec else int n)"
  have len: "len = int (length ?cs)" "nat len = k" by (auto simp: len_def k_def)
  have "print_string e (unat s) w prec fl (p, m') = Some (fst (fill_string e len
      (snd (if fl AND LEFT = 0 then fill_string e len w (p, m') else ((p, m'), w)))
      (copy_string e (unat s) k (fst (if fl AND LEFT = 0 then fill_string e len w (p, m') else ((p, m'), w))))))"
    using False unfolding print_string_def snd_conv rt_strlen_cstr[OF n'] len(2)[symmetric] len_def
    by (simp add: Let_def case_prod_beta unsigned_eq_0_iff del: copy_string.simps)
  also have "\<dots> = Some (emits e (pad_text fl w ?cs) (p, m'))"
    using string_layout[of "copy_string e (unat s) k" e "nat (w - len)" "(p, m')" ?cs w len fl, OF copy copy[of 0, simplified] refl len(1)]
    by simp
  finally show ?thesis using cs by blast
qed

lemma convert_other:
  "c \<notin> set conversions \<Longrightarrow> convert e c q w prec fl args out = Some (args, emits e (if c = 37 then [37] else [37, c]) out)"
  by (auto simp: convert_def conversions_def)

lemma convert_arg:
  assumes "c \<in> set conversions" "c = 115 \<Longrightarrow> string_outside m b e a" "b \<le> p"
    "\<And>x. x < b \<or> e \<le> x \<Longrightarrow> m' x = m x"
  shows "\<exists>t. convert_text m c q w prec fl a = Some t \<and>
    convert e c q w prec fl (a # as) (p, m') = Some (as, emits e t (p, m'))"
proof (cases "c = 115")
  case True
  then obtain cs where "string_text m a prec = Some cs"
    "print_string e (unat a) w prec fl (p, m') = Some (emits e (pad_text fl w cs) (p, m'))"
    using print_string_text[OF assms(2) assms(3,4)] by blast
  then show ?thesis using True by (simp add: convert_def convert_text_def next_arg_def)
next
  case False
  then show ?thesis
    using assms(1) by (auto simp: convert_def convert_text_def next_arg_def print_char_text print_number_text
        conversions_def Let_def)
qed

lemma emits_outside:
  assumes "b \<le> p" "\<And>x. x < b \<or> e \<le> x \<Longrightarrow> m' x = m x" "emits e cs (p, m') = (p1, m1)"
  shows "b \<le> p1" "\<And>x. x < b \<or> e \<le> x \<Longrightarrow> m1 x = m x"
  using assms by (auto simp: emits_eq)

text \<open>The loop puts out the text of the format.\<close>

lemma vsn_loop_text:
  assumes "format_strings fmt args = Some ss" "\<forall>s\<in>set ss. string_outside m b e s"
    "b \<le> p" "\<And>x. x < b \<or> e \<le> x \<Longrightarrow> m' x = m x"
  shows "\<exists>cs. format_text m fmt args = Some cs \<and> vsn_loop e fmt args (p, m') = Some (emits e cs (p, m'))"
  using assms
proof (induction fmt arbitrary: args p m' ss rule: length_induct)
  case (1 fmt)
  note outside = 1(4,5)
  show ?case
  proof (cases fmt)
    case Nil
    then show ?thesis by (auto intro: exI[of _ "[]"])
  next
    case [simp]: (Cons c cs)
    have IH: "\<exists>cs'. format_text m f as = Some cs' \<and> vsn_loop e f as (emits e t (p, m')) = Some (emits e (t @ cs') (p, m'))"
      if "length f \<le> length cs" "format_strings f as = Some ss'" "set ss' \<subseteq> set ss" for f as ss' t
    proof -
      obtain p1 m1 where e1: "emits e t (p, m') = (p1, m1)" by (cases "emits e t (p, m')")
      show ?thesis
        using 1(1)[rule_format, of f as ss' p1 m1] that 1(3) emits_outside[OF outside e1] e1
        by (auto simp: emits_append)
    qed
    show ?thesis
    proof (cases "c = 37")
      case False
      obtain t where "format_text m cs args = Some t" "vsn_loop e cs args (emit e c (p, m')) = Some (emits e ([c] @ t) (p, m'))"
        using IH[of cs args ss "[c]"] 1(2) False by auto
      then show ?thesis using False by (intro exI[of _ "c # t"]) (simp del: emit.simps)
    next
      case [simp]: True
      obtain fl w prec q f4 a2 where sp [simp]: "parse_spec cs args = Some (fl, w, prec, q, f4, a2)"
        using 1(2) by (auto split: Option.bind_splits)
      show ?thesis
      proof (cases f4)
        case Nil
        then show ?thesis by (auto simp: directive_def intro!: exI[of _ "[37]"])
      next
        case [simp]: (Cons d f5)
        have len: "length f5 \<le> length cs" using parse_spec_length[OF sp] by simp
        show ?thesis
        proof (cases "d \<in> set conversions")
          case False
          then show ?thesis
            using IH[of f5 a2 ss "if d = 37 then [37] else [37, d]"] len 1(2)
            by (auto simp: directive_def convert_other simp del: emits.simps emit.simps)
        next
          case True
          then obtain a as ss' where as [simp]: "a2 = a # as" "format_strings f5 as = Some ss'"
            and ss: "ss = (if d = 115 then [a] else []) @ ss'"
            using 1(2) by (auto simp: next_arg_def split: list.splits Option.bind_splits)
          obtain t where t: "convert_text m d q w prec fl a = Some t"
            "convert e d q w prec fl (a # as) (p, m') = Some (as, emits e t (p, m'))"
            using convert_arg[OF True, of m b e a p m' q w prec fl as] outside 1(3) ss by auto
          show ?thesis
            using IH[of f5 as ss' t] len ss t True by (auto simp: directive_def next_arg_def simp del: emits.simps)
        qed
      qed
    qed
  qed
qed

text \<open>
  What \<open>rt_vsnprintf\<close> leaves in memory: the bytes that fit before the last one of the buffer,
  and a null byte behind them.
\<close>

definition string_written :: "nat \<Rightarrow> nat \<Rightarrow> u8 list \<Rightarrow> mem \<Rightarrow> mem" where
  "string_written buf n cs m =
    (\<lambda>a. if a < buf \<or> buf + n \<le> a then m a
         else if a - buf < min (length cs) (n - 1) then cs ! (a - buf)
         else if a - buf = min (length cs) (n - 1) then 0 else m a)"

lemma string_written_eq:
  assumes "e = buf + n" "emits e cs (buf, m) = (p, m1)"
  shows "(if 0 < n then (if p < e then m1(p := 0) else m1(e - 1 := 0)) else m1) = string_written buf n cs m"
    (is "?l = ?r")
proof -
  have p: "p = buf + length cs" and m1: "m1 = (\<lambda>a. if buf \<le> a \<and> a < buf + length cs \<and> a < e then cs ! (a - buf) else m a)"
    using assms(2) by (auto simp: emits_eq)
  consider "n = 0" | "0 < n" "length cs < n" | "0 < n" "n \<le> length cs" by linarith
  then show ?thesis
  proof cases
    case 1
    then show ?thesis by (auto simp: string_written_def m1 assms(1) fun_eq_iff)
  next
    case 2
    then have "min (length cs) (n - 1) = length cs" by simp
    with 2 show ?thesis by (auto simp: string_written_def m1 p assms(1) fun_eq_iff)
  next
    case 3
    then have "min (length cs) (n - 1) = n - 1" by simp
    with 3 show ?thesis by (auto simp: string_written_def m1 p assms(1) fun_eq_iff)
  qed
qed

lemma rt_vsnprintf_text:
  assumes "format_strings fmt args = Some ss" "\<forall>s\<in>set ss. string_outside m buf (buf + unat sz) s"
    "buf + unat sz < 2 ^ 32"
  shows "\<exists>cs. format_text m fmt args = Some cs \<and>
    rt_vsnprintf buf sz fmt args m = Some (of_nat (length cs), string_written buf (unat sz) cs m)"
proof -
  obtain cs where cs: "format_text m fmt args = Some cs"
    "vsn_loop (buf + unat sz) fmt args (buf, m) = Some (emits (buf + unat sz) cs (buf, m))"
    using vsn_loop_text[OF assms(1,2) order_refl refl] by blast
  obtain p m1 where e1: "emits (buf + unat sz) cs (buf, m) = (p, m1)" by (cases "emits (buf + unat sz) cs (buf, m)")
  have p: "p - buf = length cs" using e1 by (auto simp: emits_eq)
  have "(if 0 < sz then (if p < buf + unat sz then m1(p := 0) else m1(buf + unat sz - 1 := 0)) else m1)
      = string_written buf (unat sz) cs m"
    using string_written_eq[OF refl e1] by (simp add: word_less_nat_alt)
  then show ?thesis using assms(3) cs e1 by (simp add: rt_vsnprintf_def p)
qed

section \<open>Digits\<close>

lemma number_digits_length:
  "unat n < (if base = 10 then 10 else 16) ^ k \<Longrightarrow> length (number_digits type base n) \<le> k"
proof (induction k arbitrary: n)
  case 0
  then show ?case by (subst number_digits.simps) (simp add: unat_eq_0)
next
  case (Suc k)
  have "unat (snd (divide_by n base)) < (if base = 10 then 10 else 16) ^ k"
    using Suc.prems by (auto simp: divide_by_def unat_div less_mult_imp_div_less mult.commute)
  then show ?case using Suc.IH by (subst number_digits.simps) simp
qed

text \<open>The buffer \<open>tmp\<close> of sixteen bytes holds the digits of every 32-bit number.\<close>

lemma number_digits_fit: "length (number_digits type base n) \<le> 10"
  using number_digits_length[of n base 10 type] unsigned_less[of n, where 'a = nat] by (simp split: if_splits)

lemma digit_char_decimal: "d < 10 \<Longrightarrow> isdigit (digit_char type d) \<and> uint (digit_char type d) = 48 + int d"
proof -
  assume "d < 10"
  then have "d = 0 \<or> d = 1 \<or> d = 2 \<or> d = 3 \<or> d = 4 \<or> d = 5 \<or> d = 6 \<or> d = 7 \<or> d = 8 \<or> d = 9" by arith
  then show ?thesis by (elim disjE) (simp_all add: isdigit_def digit_char_def)
qed

lemma skip_atoi_append_digits:
  "skip_atoi i (rev (number_digits type 10 n) @ r) = skip_atoi (i * 10 ^ length (number_digits type 10 n) + uint n) r"
proof (induction type "10::nat" n arbitrary: i r rule: number_digits.induct)
  case (1 type n)
  show ?case
  proof (cases "n = 0")
    case True
    then show ?thesis by (subst (1 2) number_digits.simps) simp
  next
    case False
    define d where "d = unat (n mod 10)"
    have d: "d < 10" by (simp add: d_def unat_mod)
    have "uint n = uint (n div 10) * 10 + int d"
      by (simp add: d_def unat_mod uint_div uint_mod zmod_int)
    then show ?thesis
      using 1 False digit_char_decimal[OF d, of type]
      by (subst (1 2) number_digits.simps) (simp add: divide_by_def d_def[symmetric] algebra_simps)
  qed
qed

lemma uint_abs: "uint (if sint n < 0 then - n else n) = \<bar>sint n\<bar>" for n :: u32
proof -
  have n: "uint n = sint n mod 4294967296" by (simp add: uint_sint take_bit_eq_mod)
  have "uint (- n) = (- sint n) mod 4294967296"
    by (simp add: uint_word_ariths n mod_minus_eq)
  moreover have "- 2147483648 \<le> sint n" "sint n < 2147483648"
    using sint_ge[of n] sint_lt[of n] by simp_all
  ultimately show ?thesis using n by auto
qed

lemma number_text_plain: "number_text n base (- 1) (- 1) type = sign_text type n @ digits_text type base n"
  by (simp add: number_text_def Let_def)

lemma format_decimal:
  "format_text m [37, 100] [n] = Some (sign_text SIGN n @ digits_text SIGN 10 n)"
  "format_strings [37, 100] [n] = Some []"
  by (simp_all add: parse_spec_def parse_width_def parse_precision_def parse_qualifier_def isdigit_def
      conversions_def next_arg_def convert_text_def int_arg_def number_text_plain)

lemma skip_atoi_digits:
  "skip_atoi 0 (digits_text SIGN 10 n) = (\<bar>sint n\<bar>, [])"
proof (cases "n = 0")
  case True
  then show ?thesis by (simp add: digits_text_def isdigit_def)
next
  case False
  define k where "k = (if sint n < 0 then - n else n)"
  have "uint k = \<bar>sint n\<bar>" by (simp add: k_def uint_abs)
  moreover have "digits_text SIGN 10 n = rev (number_digits SIGN 10 k)"
    using False by (simp add: digits_text_def k_def Let_def flag_defs)
  ultimately show ?thesis using skip_atoi_append_digits[of 0 SIGN k "[]"] by simp
qed

lemma digits_text_length: "length (digits_text type base n) \<le> 10"
  using number_digits_fit by (simp add: digits_text_def Let_def)

lemma string_written_read:
  assumes "length cs < n"
  shows "map (string_written buf n cs m) [buf..<buf + length cs] = cs" "string_written buf n cs m (buf + length cs) = 0"
proof -
  have k: "min (length cs) (n - 1) = length cs" using assms by simp
  show "string_written buf n cs m (buf + length cs) = 0" using assms by (simp add: string_written_def)
  show "map (string_written buf n cs m) [buf..<buf + length cs] = cs"
    by (rule nth_equalityI) (use assms in \<open>simp_all add: string_written_def\<close>)
qed

lemma rt_snprintf_decimal:
  assumes "11 < unat sz" "buf + unat sz < 2 ^ 32"
  shows "\<exists>k m'. rt_snprintf buf sz [37, 100] [n] m = Some (of_nat k, m') \<and> m' (buf + k) = 0 \<and> k \<le> 11 \<and>
    (let cs = map m' [buf..<buf + k]
     in if sint n < 0 then hd cs = 45 \<and> skip_atoi 0 (tl cs) = (- sint n, []) else skip_atoi 0 cs = (sint n, []))"
proof -
  define cs where "cs = sign_text SIGN n @ digits_text SIGN 10 n"
  have len: "length cs \<le> 11"
    using digits_text_length[of SIGN 10 n] by (auto simp: cs_def sign_text_def)
  have "rt_snprintf buf sz [37, 100] [n] m = Some (of_nat (length cs), string_written buf (unat sz) cs m)"
    using rt_vsnprintf_text[OF format_decimal(2)[of n] _ assms(2), of m]
    by (simp add: rt_snprintf_def cs_def format_decimal(1) del: format_text.simps)
  moreover have "if sint n < 0 then hd cs = 45 \<and> skip_atoi 0 (tl cs) = (- sint n, []) else skip_atoi 0 cs = (sint n, [])"
    using skip_atoi_digits[of n] by (auto simp: cs_def sign_text_def flag_defs)
  ultimately show ?thesis
    using string_written_read[of cs "unat sz" buf m] len assms(1) by (intro exI[of _ "length cs"] exI[of _ "string_written buf (unat sz) cs m"]) auto
qed

end
