(* ===== verification/Object.thy ===== *)
theory Object
  imports Sched
begin

text \<open>
  The kernel object system of \<open>src/object.c\<close>: every object carries a type byte (with bit
  0x80 for statically allocated objects), a flag byte and an eight byte name, and is linked
  into the container of its class. Configuration: no \<open>RT_USING_MODULE\<close>, no
  \<open>RT_USING_MEMHEAP\<close>. \<open>RT_KERNEL_MALLOC\<close> is an argument: the object it returned, or
  \<open>None\<close> for \<open>RT_NULL\<close>.
\<close>

section \<open>State\<close>

text \<open>A thread's built-in timer is an object of its own, next to the timers of the application.\<close>

datatype timer_id = ThreadTimer nat | Timer nat

datatype obj = ThreadObj nat | TimerObj timer_id | IpcObj nat | PoolObj nat | DevObj nat

record kobj = ksched +
  k_obj_type :: "obj \<Rightarrow> u8"
  k_obj_flag :: "obj \<Rightarrow> u8"
  k_obj_name :: "obj \<Rightarrow> u8 list"
  k_containers :: "u8 \<Rightarrow> obj list"

definition RT_Object_Class_Thread :: u8 where "RT_Object_Class_Thread = 1"
definition RT_Object_Class_Semaphore :: u8 where "RT_Object_Class_Semaphore = 2"
definition RT_Object_Class_Mutex :: u8 where "RT_Object_Class_Mutex = 3"
definition RT_Object_Class_Event :: u8 where "RT_Object_Class_Event = 4"
definition RT_Object_Class_MailBox :: u8 where "RT_Object_Class_MailBox = 5"
definition RT_Object_Class_MessageQueue :: u8 where "RT_Object_Class_MessageQueue = 6"
definition RT_Object_Class_MemPool :: u8 where "RT_Object_Class_MemPool = 8"
definition RT_Object_Class_Device :: u8 where "RT_Object_Class_Device = 9"
definition RT_Object_Class_Timer :: u8 where "RT_Object_Class_Timer = 10"
definition RT_Object_Class_Unknown :: u8 where "RT_Object_Class_Unknown = 12"
definition RT_Object_Class_Static :: u8 where "RT_Object_Class_Static = 0x80"

lemmas class_defs = RT_Object_Class_Thread_def RT_Object_Class_Semaphore_def
  RT_Object_Class_Mutex_def RT_Object_Class_Event_def RT_Object_Class_MailBox_def
  RT_Object_Class_MessageQueue_def RT_Object_Class_MemPool_def RT_Object_Class_Device_def
  RT_Object_Class_Timer_def

definition RT_NAME_MAX :: nat where "RT_NAME_MAX = 8"

text \<open>The rows of \<open>rt_object_container\<close>, in order.\<close>

definition rt_object_container :: "u8 list" where
  "rt_object_container = [RT_Object_Class_Thread, RT_Object_Class_Semaphore, RT_Object_Class_Mutex,
     RT_Object_Class_Event, RT_Object_Class_MailBox, RT_Object_Class_MessageQueue,
     RT_Object_Class_MemPool, RT_Object_Class_Device, RT_Object_Class_Timer]"

definition rt_object_get_information :: "u8 \<Rightarrow> u8 option" where
  "rt_object_get_information type = find (\<lambda>c. c = type) rt_object_container"

section \<open>Names\<close>

text \<open>
  A C string is the list of its characters without the NUL; reading at or past the end gives
  the NUL. \<open>name_copy n\<close> is the effect of \<open>rt_strncpy\<close> on a field of \<open>n\<close> bytes and
  \<open>name_eq n\<close> the test \<open>rt_strncmp(..., n) == 0\<close>.
\<close>

definition chd :: "u8 list \<Rightarrow> u8" where
  "chd s = (case s of [] \<Rightarrow> 0 | c # _ \<Rightarrow> c)"

fun name_copy :: "nat \<Rightarrow> u8 list \<Rightarrow> u8 list" where
  "name_copy 0 s = []"
| "name_copy (Suc n) s = (if chd s = 0 then replicate (Suc n) 0 else chd s # name_copy n (tl s))"

fun name_eq :: "nat \<Rightarrow> u8 list \<Rightarrow> u8 list \<Rightarrow> bool" where
  "name_eq 0 a b = True"
| "name_eq (Suc n) a b =
     (if chd a \<noteq> chd b then False else if chd a = 0 then True else name_eq n (tl a) (tl b))"

section \<open>Operations\<close>

definition rt_object_init :: "obj \<Rightarrow> u8 \<Rightarrow> u8 list \<Rightarrow> 'a kobj_scheme \<Rightarrow> 'a kobj_scheme option" where
  "rt_object_init ob type name k = do {
     info \<leftarrow> rt_object_get_information type;
     let k1 = rt_enter_critical k;
     rt_assert (ob \<notin> set (k_containers k1 info));
     k2 \<leftarrow> rt_exit_critical k1;
     Some (k2\<lparr>k_obj_type := (k_obj_type k2)(ob := type OR RT_Object_Class_Static),
              k_obj_name := (k_obj_name k2)(ob := name_copy RT_NAME_MAX name),
              k_containers := (k_containers k2)(info := ob # k_containers k2 info)\<rparr>)
   }"

definition unlink_object :: "obj \<Rightarrow> 'a kobj_scheme \<Rightarrow> 'a kobj_scheme" where
  "unlink_object ob k = k\<lparr>k_containers := (\<lambda>c. removeAll ob (k_containers k c))\<rparr>"

definition rt_object_detach :: "obj \<Rightarrow> 'a kobj_scheme \<Rightarrow> 'a kobj_scheme" where
  "rt_object_detach ob k =
    unlink_object ob (k\<lparr>k_obj_type := (k_obj_type k)(ob := 0)\<rparr>)"

definition rt_object_allocate ::
    "obj option \<Rightarrow> u8 \<Rightarrow> u8 list \<Rightarrow> 'a kobj_scheme \<Rightarrow> (obj option \<times> 'a kobj_scheme) option" where
  "rt_object_allocate mem type name k = do {
     rt_assert (k_irq_nest k = 0);
     info \<leftarrow> rt_object_get_information type;
     (case mem of
        None \<Rightarrow> Some (None, k)
      | Some ob \<Rightarrow> Some (Some ob,
          k\<lparr>k_obj_type := (k_obj_type k)(ob := type),
            k_obj_flag := (k_obj_flag k)(ob := 0),
            k_obj_name := (k_obj_name k)(ob := name_copy RT_NAME_MAX name),
            k_containers := (k_containers k)(info := ob # k_containers k info)\<rparr>))
   }"

definition rt_object_is_systemobject :: "obj \<Rightarrow> 'a kobj_scheme \<Rightarrow> bool" where
  "rt_object_is_systemobject ob k \<longleftrightarrow> k_obj_type k ob AND RT_Object_Class_Static \<noteq> 0"

definition rt_object_get_type :: "obj \<Rightarrow> 'a kobj_scheme \<Rightarrow> u8" where
  "rt_object_get_type ob k = k_obj_type k ob AND NOT RT_Object_Class_Static"

definition rt_object_delete :: "obj \<Rightarrow> 'a kobj_scheme \<Rightarrow> 'a kobj_scheme option" where
  "rt_object_delete ob k = do {
     rt_assert (k_obj_type k ob AND RT_Object_Class_Static = 0);
     Some (unlink_object ob (k\<lparr>k_obj_type := (k_obj_type k)(ob := 0)\<rparr>))
   }"

definition rt_object_find :: "u8 list option \<Rightarrow> u8 \<Rightarrow> 'a kobj_scheme \<Rightarrow> (obj option \<times> 'a kobj_scheme) option" where
  "rt_object_find name type k =
    (case name of None \<Rightarrow> Some (None, k)
     | Some nm \<Rightarrow> if RT_Object_Class_Unknown < type then Some (None, k) else do {
         rt_assert (k_irq_nest k = 0);
         let k1 = rt_enter_critical k;
         info \<leftarrow> rt_object_get_information type;
         let r = find (\<lambda>ob. name_eq RT_NAME_MAX (k_obj_name k1 ob) nm) (k_containers k1 info);
         k2 \<leftarrow> rt_exit_critical k1;
         Some (r, k2)
       })"

section \<open>Names compare as they were stored\<close>

lemma chd_simps [simp]: "chd [] = 0" "chd (c # s) = c"
  by (simp_all add: chd_def)

lemma length_name_copy [simp]: "length (name_copy n s) = n"
  by (induction n arbitrary: s) auto

lemma name_eq_zero: "chd b = 0 \<Longrightarrow> name_eq n (replicate n 0) b"
  by (cases n) auto

lemma name_eq_copy: "name_eq n (name_copy n s) t \<longleftrightarrow> name_copy n s = name_copy n t"
proof (induction n arbitrary: s t)
  case (Suc n)
  show ?case
  proof (cases "chd s = 0")
    case True
    then show ?thesis by auto
  next
    case False
    then show ?thesis using Suc[of "tl s" "tl t"] by auto
  qed
qed simp

section \<open>Containers\<close>

text \<open>An object is linked in the container of the class its type byte names, once, and nowhere else.\<close>

definition obj_inv :: "'a kobj_scheme \<Rightarrow> bool" where
  "obj_inv k \<longleftrightarrow> (\<forall>c. distinct (k_containers k c)) \<and>
     (\<forall>c ob. ob \<in> set (k_containers k c) \<longrightarrow> rt_object_get_type ob k = c \<and> c \<in> set rt_object_container) \<and>
     (\<forall>ob. k_obj_type k ob \<noteq> 0 \<longrightarrow> ob \<in> set (k_containers k (rt_object_get_type ob k)))"

lemma get_information_Some:
  "rt_object_get_information type = Some c \<longleftrightarrow> c = type \<and> type \<in> set rt_object_container"
  by (auto simp: rt_object_get_information_def find_Some_iff in_set_conv_nth rt_object_container_def
      class_defs less_Suc_eq numeral_eq_Suc)

lemma kobj_more:
  assumes "ksched.more k' = ksched.more k"
  shows "k_obj_type k' = k_obj_type k" "k_obj_flag k' = k_obj_flag k"
    "k_obj_name k' = k_obj_name k" "k_containers k' = k_containers k" "kobj.more k' = kobj.more k"
  using assms by (cases k; cases k'; simp)+

lemma kobj_upd_sched [simp]:
  "sched_ok (k\<lparr>k_obj_type := f\<rparr>) \<longleftrightarrow> sched_ok k" "sched_ok (k\<lparr>k_obj_flag := g\<rparr>) \<longleftrightarrow> sched_ok k"
  "sched_ok (k\<lparr>k_obj_name := h\<rparr>) \<longleftrightarrow> sched_ok k" "sched_ok (k\<lparr>k_containers := i\<rparr>) \<longleftrightarrow> sched_ok k"
  by (rule sched_ok_cong; simp add: ksched.truncate_def)+

lemma class_static [simp]:
  "c \<in> set rt_object_container \<Longrightarrow> (c OR RT_Object_Class_Static) AND NOT RT_Object_Class_Static = c"
  "c \<in> set rt_object_container \<Longrightarrow> c AND NOT RT_Object_Class_Static = c"
  "c \<in> set rt_object_container \<Longrightarrow> c AND RT_Object_Class_Static = 0"
  "c \<in> set rt_object_container \<Longrightarrow> (c OR RT_Object_Class_Static) AND RT_Object_Class_Static \<noteq> 0"
  "c \<in> set rt_object_container \<Longrightarrow> c OR RT_Object_Class_Static \<noteq> 0"
  "c \<in> set rt_object_container \<Longrightarrow> c \<noteq> 0"
  by (auto simp: rt_object_container_def class_defs RT_Object_Class_Static_def)

text \<open>The outcome of \<open>rt_object_init\<close>: it stops, or schedules once and registers the object.\<close>

lemma rt_object_init_halts:
  assumes "type \<notin> set rt_object_container \<or> ob \<in> set (k_containers k type)"
  shows "rt_object_init ob type name k = None"
proof (cases "type \<in> set rt_object_container")
  case True
  then have "rt_object_get_information type = Some type" by (simp add: get_information_Some)
  moreover have "k_containers (rt_enter_critical k) = k_containers k" by (simp add: rt_enter_critical_def)
  ultimately show ?thesis using assms True by (simp add: rt_object_init_def)
next
  case False
  then have "rt_object_get_information type = None" by (metis get_information_Some option.exhaust)
  then show ?thesis by (simp add: rt_object_init_def)
qed

definition registered :: "obj \<Rightarrow> u8 \<Rightarrow> u8 \<Rightarrow> u8 list \<Rightarrow> 'a kobj_scheme \<Rightarrow> 'a kobj_scheme" where
  "registered ob info ty name k =
    k\<lparr>k_obj_type := (k_obj_type k)(ob := ty),
      k_obj_name := (k_obj_name k)(ob := name_copy RT_NAME_MAX name),
      k_containers := (k_containers k)(info := ob # k_containers k info)\<rparr>"

lemma rt_object_init_ok:
  assumes "sched_ok k" "type \<in> set rt_object_container" "ob \<notin> set (k_containers k type)"
  obtains k1 where "sched_ok k1" "sched_frame k k1"
    "rt_object_init ob type name k = Some (registered ob type (type OR RT_Object_Class_Static) name k1)"
proof -
  obtain k1 where k1: "rt_exit_critical (rt_enter_critical k) = Some k1" "sched_ok k1" "sched_frame k k1"
    using critical_section_ok[OF assms(1)] by metis
  have "k_containers (rt_enter_critical k) = k_containers k" by (simp add: rt_enter_critical_def)
  moreover have "rt_object_get_information type = Some type" using assms(2) by (simp add: get_information_Some)
  ultimately show ?thesis using k1 assms(3) by (intro that[of k1]) (auto simp: rt_object_init_def registered_def)
qed

lemma registered_fields [simp]:
  "rt_object_get_type ob (registered ob info ty name k) = ty AND NOT RT_Object_Class_Static"
  "rt_object_is_systemobject ob (registered ob info ty name k) \<longleftrightarrow> ty AND RT_Object_Class_Static \<noteq> 0"
  "k_obj_flag (registered ob info ty name k) = k_obj_flag k"
  "k_irq_nest (registered ob info ty name k) = k_irq_nest k"
  "sched_ok (registered ob info ty name k) \<longleftrightarrow> sched_ok k"
  by (simp_all add: registered_def rt_object_get_type_def rt_object_is_systemobject_def)

lemma obj_inv_registered:
  assumes inv: "obj_inv k" and t: "k_obj_type k ob = 0" and c: "type \<in> set rt_object_container"
    and ty: "ty = type \<or> ty = type OR RT_Object_Class_Static"
  shows "obj_inv (registered ob type ty name k)"
proof -
  have "rt_object_get_type ob k = 0" using t by (simp add: rt_object_get_type_def)
  then have un: "ob \<notin> set (k_containers k d)" for d using inv by (auto simp: obj_inv_def)
  have ty': "ty AND NOT RT_Object_Class_Static = type" using ty c by auto
  have gt: "rt_object_get_type o' (registered ob type ty name k) =
      (if o' = ob then type else rt_object_get_type o' k)" for o'
    using ty' by (simp add: registered_def rt_object_get_type_def)
  have ct: "k_containers (registered ob type ty name k) d =
      (if d = type then ob # k_containers k type else k_containers k d)" for d
    by (simp add: registered_def)
  have ot: "k_obj_type (registered ob type ty name k) o' = (if o' = ob then ty else k_obj_type k o')" for o'
    by (simp add: registered_def)
  show ?thesis unfolding obj_inv_def gt ct ot using inv un c
    by (auto simp: obj_inv_def)
qed

lemma obj_inv_detach:
  assumes "obj_inv k" shows "obj_inv (rt_object_detach ob k)"
    "\<forall>c. ob \<notin> set (k_containers (rt_object_detach ob k) c)"
  using assms
  by (auto simp: obj_inv_def rt_object_detach_def unlink_object_def rt_object_get_type_def
      distinct_removeAll split: if_splits)

lemma obj_inv_more:
  "ksched.more k' = ksched.more k \<Longrightarrow> obj_inv k' \<longleftrightarrow> obj_inv k"
  using kobj_more[of k' k] by (simp add: obj_inv_def rt_object_get_type_def)

text \<open>Looking a name up finds the newest object of the class that was registered under it.\<close>

lemma rt_object_find_ok:
  assumes "sched_ok k" "k_irq_nest k = 0" "type \<in> set rt_object_container"
  obtains k1 where "sched_ok k1" "sched_frame k k1" "rt_object_find (Some nm) type k =
    Some (find (\<lambda>ob. name_eq RT_NAME_MAX (k_obj_name k ob) nm) (k_containers k type), k1)"
proof -
  obtain k1 where k1: "rt_exit_critical (rt_enter_critical k) = Some k1" "sched_ok k1" "sched_frame k k1"
    using critical_section_ok[OF assms(1)] by metis
  have "k_containers (rt_enter_critical k) = k_containers k" "k_obj_name (rt_enter_critical k) = k_obj_name k"
    by (simp_all add: rt_enter_critical_def)
  moreover have "rt_object_get_information type = Some type" using assms(3) by (simp add: get_information_Some)
  moreover have "\<not> RT_Object_Class_Unknown < type"
    using assms(3) by (auto simp: rt_object_container_def class_defs RT_Object_Class_Unknown_def)
  ultimately show ?thesis using k1 assms(2) by (intro that[of k1]) (simp_all add: rt_object_find_def)
qed

lemma unregistered: "obj_inv k \<Longrightarrow> k_obj_type k ob = 0 \<Longrightarrow> ob \<notin> set (k_containers k d)"
proof
  assume inv: "obj_inv k" and t: "k_obj_type k ob = 0" and c: "ob \<in> set (k_containers k d)"
  have "rt_object_get_type ob k = 0" using t by (simp add: rt_object_get_type_def)
  then have "0 \<in> set rt_object_container" using inv c by (auto simp: obj_inv_def)
  then show False by (simp add: rt_object_container_def class_defs)
qed

lemma registered_then_found:
  assumes k0: "sched_ok k0" "sched_frame k k0" and irq: "k_irq_nest k = 0" and inv: "obj_inv k"
    and t: "k_obj_type k ob = 0" "type \<in> set rt_object_container"
  shows "\<exists>k2. obj_inv (registered ob type (type OR RT_Object_Class_Static) name k0) \<and>
    rt_object_get_type ob (registered ob type (type OR RT_Object_Class_Static) name k0) = type \<and>
    k_containers (registered ob type (type OR RT_Object_Class_Static) name k0) type = ob # k_containers k type \<and>
    rt_object_find (Some name) type (registered ob type (type OR RT_Object_Class_Static) name k0) = Some (Some ob, k2)"
proof -
  let ?k1 = "registered ob type (type OR RT_Object_Class_Static) name k0"
  have m: "ksched.more k0 = ksched.more k" and i0: "k_irq_nest k0 = 0" using k0(2) irq by (simp_all add: sched_frame_def)
  have inv0: "obj_inv k0" using obj_inv_more[OF m] inv by simp
  have inv1: "obj_inv ?k1" by (rule obj_inv_registered[OF inv0 _ t(2)]) (use kobj_more(1)[OF m] t(1) in simp_all)
  have ty: "rt_object_get_type ob ?k1 = type" using t(2) by simp
  have cs: "k_containers ?k1 type = ob # k_containers k type" using kobj_more(4)[OF m] by (simp add: registered_def)
  have s1: "sched_ok ?k1" using k0(1) by simp
  obtain k2 where "rt_object_find (Some name) type ?k1 =
    Some (find (\<lambda>ob. name_eq RT_NAME_MAX (k_obj_name ?k1 ob) name) (k_containers ?k1 type), k2)"
    using rt_object_find_ok[OF s1 _ t(2), of name] i0 by (metis registered_fields(4))
  then have "rt_object_find (Some name) type ?k1 = Some (Some ob, k2)"
    unfolding cs by (simp add: registered_def name_eq_copy)
  then show ?thesis using inv1 ty cs by blast
qed

end
