(* ===== verification/Timer.thy ===== *)
theory Timer
  imports Object
begin

text \<open>
  The timers of \<open>src/timer.c\<close> and the tick of \<open>src/clock.c\<close>, in the configuration of
  \<open>rtconfig.h\<close>: one skip-list level, no soft timer thread. The active timers form one list in
  order of expiry; ticks are 32-bit and wrap, and a tick counts as past when it is less than half
  the range behind. The timeout functions are an argument of \<open>rt_timer_check\<close>.
\<close>

section \<open>State\<close>

datatype timeout_fn = ThreadTimeout | UserFn nat

record rt_timer =
  tm_func :: timeout_fn
  tm_param :: nat
  tm_init_tick :: u32
  tm_timeout_tick :: u32

record ktimer = kobj +
  k_tick :: u32
  k_timers :: "timer_id \<Rightarrow> rt_timer"
  k_timer_list :: "timer_id list"

definition RT_TICK_MAX :: u32 where "RT_TICK_MAX = 0xFFFFFFFF"
definition RT_TICK_PER_SECOND :: int where "RT_TICK_PER_SECOND = 1000"
definition RT_TIMER_FLAG_ACTIVATED :: u8 where "RT_TIMER_FLAG_ACTIVATED = 1"
definition RT_TIMER_FLAG_PERIODIC :: u8 where "RT_TIMER_FLAG_PERIODIC = 2"
definition RT_TIMER_CTRL_SET_TIME :: int where "RT_TIMER_CTRL_SET_TIME = 0"
definition RT_TIMER_CTRL_GET_TIME :: int where "RT_TIMER_CTRL_GET_TIME = 1"
definition RT_TIMER_CTRL_SET_ONESHOT :: int where "RT_TIMER_CTRL_SET_ONESHOT = 2"
definition RT_TIMER_CTRL_SET_PERIODIC :: int where "RT_TIMER_CTRL_SET_PERIODIC = 3"

lemmas timer_flag_defs = RT_TIMER_FLAG_ACTIVATED_def RT_TIMER_FLAG_PERIODIC_def
lemmas timer_ctrl_defs = RT_TIMER_CTRL_SET_TIME_def RT_TIMER_CTRL_GET_TIME_def
  RT_TIMER_CTRL_SET_ONESHOT_def RT_TIMER_CTRL_SET_PERIODIC_def

definition timer_flag :: "timer_id \<Rightarrow> 'a ktimer_scheme \<Rightarrow> u8" where
  "timer_flag t k = k_obj_flag k (TimerObj t)"

definition set_timer_flag :: "timer_id \<Rightarrow> u8 \<Rightarrow> 'a ktimer_scheme \<Rightarrow> 'a ktimer_scheme" where
  "set_timer_flag t f k = k\<lparr>k_obj_flag := (k_obj_flag k)(TimerObj t := f)\<rparr>"

definition upd_timer :: "timer_id \<Rightarrow> (rt_timer \<Rightarrow> rt_timer) \<Rightarrow> 'a ktimer_scheme \<Rightarrow> 'a ktimer_scheme" where
  "upd_timer t f k = k\<lparr>k_timers := (k_timers k)(t := f (k_timers k t))\<rparr>"

definition is_timer :: "timer_id \<Rightarrow> 'a ktimer_scheme \<Rightarrow> bool" where
  "is_timer t k \<longleftrightarrow> rt_object_get_type (TimerObj t) k = RT_Object_Class_Timer"

section \<open>The tick\<close>

definition rt_tick_get :: "'a ktimer_scheme \<Rightarrow> u32" where
  "rt_tick_get k = k_tick k"

definition rt_tick_set :: "u32 \<Rightarrow> 'a ktimer_scheme \<Rightarrow> 'a ktimer_scheme" where
  "rt_tick_set tick k = k\<lparr>k_tick := tick\<rparr>"

text \<open>The division and remainder of C on a non-negative \<open>rt_int32_t\<close>; the products fit in an int.\<close>

definition rt_tick_from_millisecond :: "32 word \<Rightarrow> u32" where
  "rt_tick_from_millisecond ms =
    (let m = sint ms in
     if m < 0 then 0xFFFFFFFF
     else of_int (RT_TICK_PER_SECOND * (m div 1000)) +
          of_int ((RT_TICK_PER_SECOND * (m mod 1000) + 999) div 1000))"

section \<open>Initialising, detaching, creating and deleting\<close>

definition timer_remove :: "timer_id \<Rightarrow> 'a ktimer_scheme \<Rightarrow> 'a ktimer_scheme" where
  "timer_remove t k = k\<lparr>k_timer_list := removeAll t (k_timer_list k)\<rparr>"

text \<open>
  \<open>_rt_timer_init\<close> re-initialises the list node: on a timer that is still linked that cuts
  the list, which is the failure \<open>None\<close> here.
\<close>

definition timer_init :: "timer_id \<Rightarrow> timeout_fn \<Rightarrow> nat \<Rightarrow> u32 \<Rightarrow> u8 \<Rightarrow> 'a ktimer_scheme \<Rightarrow> 'a ktimer_scheme option" where
  "timer_init t fn param time flag k = do {
     rt_assert (t \<notin> set (k_timer_list k));
     let k1 = set_timer_flag t (flag AND NOT RT_TIMER_FLAG_ACTIVATED) k;
     Some (upd_timer t (\<lambda>_. \<lparr>tm_func = fn, tm_param = param, tm_init_tick = time, tm_timeout_tick = 0\<rparr>) k1)
   }"

definition rt_timer_init ::
    "timer_id \<Rightarrow> u8 list \<Rightarrow> timeout_fn \<Rightarrow> nat \<Rightarrow> u32 \<Rightarrow> u8 \<Rightarrow> 'a ktimer_scheme \<Rightarrow> 'a ktimer_scheme option" where
  "rt_timer_init t name fn param time flag k = do {
     k1 \<leftarrow> rt_object_init (TimerObj t) RT_Object_Class_Timer name k;
     timer_init t fn param time flag k1
   }"

definition rt_timer_detach :: "timer_id \<Rightarrow> 'a ktimer_scheme \<Rightarrow> (rt_err \<times> 'a ktimer_scheme) option" where
  "rt_timer_detach t k = do {
     rt_assert (is_timer t k);
     rt_assert (rt_object_is_systemobject (TimerObj t) k);
     Some (RT_EOK, rt_object_detach (TimerObj t) (timer_remove t k))
   }"

definition rt_timer_create ::
    "timer_id option \<Rightarrow> u8 list \<Rightarrow> timeout_fn \<Rightarrow> nat \<Rightarrow> u32 \<Rightarrow> u8 \<Rightarrow> 'a ktimer_scheme \<Rightarrow>
     (timer_id option \<times> 'a ktimer_scheme) option" where
  "rt_timer_create mem name fn param time flag k = do {
     (_, k1) \<leftarrow> rt_object_allocate (map_option TimerObj mem) RT_Object_Class_Timer name k;
     (case mem of None \<Rightarrow> Some (None, k1)
      | Some t \<Rightarrow> do { k2 \<leftarrow> timer_init t fn param time flag k1; Some (Some t, k2) })
   }"

definition rt_timer_delete :: "timer_id \<Rightarrow> 'a ktimer_scheme \<Rightarrow> (rt_err \<times> 'a ktimer_scheme) option" where
  "rt_timer_delete t k = do {
     rt_assert (is_timer t k);
     rt_assert (\<not> rt_object_is_systemobject (TimerObj t) k);
     k1 \<leftarrow> rt_object_delete (TimerObj t) (timer_remove t k);
     Some (RT_EOK, k1)
   }"

section \<open>Starting and stopping\<close>

text \<open>
  The insertion loop of \<open>rt_timer_start\<close> walks over every timer that expires no later than
  the new one, so a timer goes behind those of the same expiry.
\<close>

fun timer_insert :: "(timer_id \<Rightarrow> u32) \<Rightarrow> timer_id \<Rightarrow> timer_id list \<Rightarrow> timer_id list" where
  "timer_insert tmo n [] = [n]"
| "timer_insert tmo n (t # ts) =
    (if tmo t - tmo n = 0 then t # timer_insert tmo n ts
     else if tmo t - tmo n < RT_TICK_MAX div 2 then n # t # ts
     else t # timer_insert tmo n ts)"

definition rt_timer_start :: "timer_id \<Rightarrow> 'a ktimer_scheme \<Rightarrow> (rt_err \<times> 'a ktimer_scheme) option" where
  "rt_timer_start t k = do {
     rt_assert (is_timer t k);
     let k1 = timer_remove t k;
     let k2 = set_timer_flag t (timer_flag t k1 AND NOT RT_TIMER_FLAG_ACTIVATED) k1;
     rt_assert (tm_init_tick (k_timers k2 t) < RT_TICK_MAX div 2);
     let k3 = upd_timer t (\<lambda>tm. tm\<lparr>tm_timeout_tick := rt_tick_get k2 + tm_init_tick tm\<rparr>) k2;
     let k4 = k3\<lparr>k_timer_list := timer_insert (\<lambda>u. tm_timeout_tick (k_timers k3 u)) t (k_timer_list k3)\<rparr>;
     Some (RT_EOK, set_timer_flag t (timer_flag t k4 OR RT_TIMER_FLAG_ACTIVATED) k4)
   }"

definition rt_timer_stop :: "timer_id \<Rightarrow> 'a ktimer_scheme \<Rightarrow> (rt_err \<times> 'a ktimer_scheme) option" where
  "rt_timer_stop t k = do {
     rt_assert (is_timer t k);
     if timer_flag t k AND RT_TIMER_FLAG_ACTIVATED = 0 then Some (- RT_ERROR, k)
     else (let k1 = timer_remove t k in
           Some (RT_EOK, set_timer_flag t (timer_flag t k1 AND NOT RT_TIMER_FLAG_ACTIVATED) k1))
   }"

text \<open>The cell \<open>arg\<close> points to is passed in and its new value returned.\<close>

definition rt_timer_control ::
    "timer_id \<Rightarrow> int \<Rightarrow> u32 \<Rightarrow> 'a ktimer_scheme \<Rightarrow> (rt_err \<times> u32 \<times> 'a ktimer_scheme) option" where
  "rt_timer_control t cmd arg k = do {
     rt_assert (is_timer t k);
     Some (if cmd = RT_TIMER_CTRL_GET_TIME then (RT_EOK, tm_init_tick (k_timers k t), k)
       else if cmd = RT_TIMER_CTRL_SET_TIME then (RT_EOK, arg, upd_timer t (\<lambda>tm. tm\<lparr>tm_init_tick := arg\<rparr>) k)
       else if cmd = RT_TIMER_CTRL_SET_ONESHOT then
         (RT_EOK, arg, set_timer_flag t (timer_flag t k AND NOT RT_TIMER_FLAG_PERIODIC) k)
       else if cmd = RT_TIMER_CTRL_SET_PERIODIC then
         (RT_EOK, arg, set_timer_flag t (timer_flag t k OR RT_TIMER_FLAG_PERIODIC) k)
       else (RT_EOK, arg, k))
   }"

section \<open>Expiry\<close>

text \<open>What follows the timeout function: an active periodic timer is started again.\<close>

definition timer_finish :: "timer_id \<Rightarrow> 'a ktimer_scheme \<Rightarrow> 'a ktimer_scheme option" where
  "timer_finish t k =
    (let k1 = set_timer_flag t (timer_flag t k AND NOT RT_TIMER_FLAG_ACTIVATED) k in
     if timer_flag t k AND RT_TIMER_FLAG_PERIODIC \<noteq> 0 \<and> timer_flag t k AND RT_TIMER_FLAG_ACTIVATED \<noteq> 0
     then map_option snd (rt_timer_start t k1) else Some k1)"

partial_function (option) rt_timer_check_loop ::
    "(timeout_fn \<Rightarrow> nat \<Rightarrow> 'a ktimer_scheme \<Rightarrow> 'a ktimer_scheme option) \<Rightarrow> u32 \<Rightarrow>
     'a ktimer_scheme \<Rightarrow> 'a ktimer_scheme option" where
  "rt_timer_check_loop call current_tick k =
    (case k_timer_list k of [] \<Rightarrow> Some k
     | t # ts \<Rightarrow>
       if current_tick - tm_timeout_tick (k_timers k t) < RT_TICK_MAX div 2 then
         Option.bind (call (tm_func (k_timers k t)) (tm_param (k_timers k t)) (timer_remove t k)) (\<lambda>k1.
         Option.bind (timer_finish t k1) (\<lambda>k2.
         rt_timer_check_loop call (k_tick k1) k2))
       else Some k)"

definition rt_timer_check ::
    "(timeout_fn \<Rightarrow> nat \<Rightarrow> 'a ktimer_scheme \<Rightarrow> 'a ktimer_scheme option) \<Rightarrow> 'a ktimer_scheme \<Rightarrow> 'a ktimer_scheme option" where
  "rt_timer_check call k = rt_timer_check_loop call (rt_tick_get k) k"

definition rt_timer_list_next_timeout :: "'a ktimer_scheme \<Rightarrow> u32" where
  "rt_timer_list_next_timeout k =
    (case k_timer_list k of [] \<Rightarrow> RT_TICK_MAX | t # _ \<Rightarrow> tm_timeout_tick (k_timers k t))"

definition rt_timer_next_timeout_tick :: "'a ktimer_scheme \<Rightarrow> u32" where
  "rt_timer_next_timeout_tick k = rt_timer_list_next_timeout k"

definition rt_system_timer_init :: "'a ktimer_scheme \<Rightarrow> 'a ktimer_scheme" where
  "rt_system_timer_init k = k\<lparr>k_timer_list := []\<rparr>"

section \<open>Expiry order\<close>

text \<open>
  How far ahead a timer's expiry is, read as a signed number of ticks. Timers are started less
  than \<open>RT_TICK_MAX / 2\<close> ahead and fire at the first check after they are due, so \<open>due\<close>
  stays in a window in which the unsigned comparisons of the code order timers correctly; the
  slack of three ticks is the most those comparisons tolerate.
\<close>

definition due :: "'a ktimer_scheme \<Rightarrow> timer_id \<Rightarrow> int" where
  "due k t = sint (tm_timeout_tick (k_timers k t) - k_tick k)"

definition max_due :: int where "max_due = 0x7fffffff"

definition timer_inv :: "'a ktimer_scheme \<Rightarrow> bool" where
  "timer_inv k \<longleftrightarrow> distinct (k_timer_list k) \<and> sorted (map (due k) (k_timer_list k)) \<and>
     (\<forall>t \<in> set (k_timer_list k). - 3 \<le> due k t \<and> due k t < max_due \<and> is_timer t k \<and>
        timer_flag t k AND RT_TIMER_FLAG_ACTIVATED \<noteq> 0)"

lemma half_tick: "RT_TICK_MAX div 2 = (0x7fffffff :: u32)"
  by (simp add: RT_TICK_MAX_def)

lemma uint_of_int_32: "uint (of_int x :: u32) = x mod 2 ^ 32"
  by (simp add: uint_word_of_int)

lemma mod_tick:
  fixes x :: int
  assumes "- 4294967296 \<le> x" "x < 4294967296"
  shows "x mod 4294967296 = (if 0 \<le> x then x else x + 4294967296)"
proof (cases "0 \<le> x")
  case False
  have "x mod 4294967296 = (x + 4294967296) mod 4294967296" by simp
  also have "\<dots> = x + 4294967296" using assms False by (intro mod_pos_pos_trivial) auto
  finally show ?thesis using False by simp
qed (use assms in simp)

text \<open>The unsigned tests of the code, in terms of \<open>due\<close>.\<close>

lemma ticks_diff: "(a :: u32) - b = of_int (sint (a - c) - sint (b - c))"
  by simp

lemma less_half: "(w :: u32) < 0x7fffffff \<longleftrightarrow> uint w < 0x7fffffff"
  by (simp add: word_less_def)

lemma after_test:
  fixes a b c :: u32
  assumes "- 3 \<le> sint (a - c)" "sint (a - c) < max_due" "0 \<le> sint (b - c)" "sint (b - c) < max_due"
  shows "a - b = 0 \<longleftrightarrow> sint (a - c) = sint (b - c)"
    "a - b < 0x7fffffff \<longleftrightarrow> sint (b - c) \<le> sint (a - c)"
proof -
  define x where "x = sint (a - c) - sint (b - c)"
  have x: "a - b = of_int x" unfolding x_def by (rule ticks_diff)
  have r: "- 0x80000001 \<le> x" "x < 0x7fffffff" using assms by (auto simp: x_def max_due_def)
  show "a - b = 0 \<longleftrightarrow> sint (a - c) = sint (b - c)"
  proof
    assume "a - b = 0"
    then have "x mod 4294967296 = 0" using x uint_of_int_32[of x] by simp
    then have "x = 0" using r mod_tick[of x] by (auto split: if_splits)
    then show "sint (a - c) = sint (b - c)" by (simp add: x_def)
  next
    assume "sint (a - c) = sint (b - c)"
    then show "a - b = 0" using x by (simp add: x_def)
  qed
  have "a - b < 0x7fffffff \<longleftrightarrow> x mod 4294967296 < 0x7fffffff"
    unfolding x less_half uint_of_int_32 by simp
  also have "\<dots> \<longleftrightarrow> 0 \<le> x" using r mod_tick[of x] by auto
  finally show "a - b < 0x7fffffff \<longleftrightarrow> sint (b - c) \<le> sint (a - c)" by (simp add: x_def)
qed

lemma due_test:
  fixes a c :: u32
  assumes "- 3 \<le> sint (a - c)" "sint (a - c) < max_due"
  shows "c - a < 0x7fffffff \<longleftrightarrow> sint (a - c) \<le> 0"
proof -
  define x where "x = sint (a - c)"
  have x: "c - a = of_int (- x)" by (simp add: x_def)
  have r: "- 3 \<le> x" "x < 0x7fffffff" using assms unfolding x_def max_due_def by blast+
  have "c - a < 0x7fffffff \<longleftrightarrow> (- x) mod 4294967296 < 0x7fffffff"
    unfolding x less_half uint_of_int_32 by simp
  also have "\<dots> \<longleftrightarrow> x \<le> 0" using r mod_tick[of "- x"] by auto
  finally show ?thesis by (simp add: x_def)
qed

lemma start_due:
  fixes i c :: u32
  assumes "i < 0x7fffffff"
  shows "sint (c + i - c) = uint i" "0 \<le> uint i" "uint i < max_due"
proof -
  have "uint i < 0x7fffffff" using assms by (simp add: word_less_def)
  moreover have "- 2147483648 \<le> uint i" by (rule order_trans[OF _ uint_ge_0]) simp
  ultimately show "sint (c + i - c) = uint i" "0 \<le> uint i" "uint i < max_due"
    using signed_take_bit_int_eq_self[of 31 "uint i"] by (simp_all add: max_due_def sint_uint)
qed

text \<open>Insertion into a list sorted by \<open>due\<close> puts the timer behind all that are not later.\<close>

lemma timer_insert_split:
  assumes "sorted (map d ts)"
    and "\<And>t. t \<in> set ts \<Longrightarrow> (tmo t - tmo n = 0 \<longleftrightarrow> d t = d n) \<and>
        (tmo t - tmo n < RT_TICK_MAX div 2 \<longleftrightarrow> (d n :: int) \<le> d t)"
  shows "timer_insert tmo n ts = filter (\<lambda>t. d t \<le> d n) ts @ n # filter (\<lambda>t. d n < d t) ts"
  using assms
proof (induction ts)
  case (Cons t ts)
  have IH: "timer_insert tmo n ts = filter (\<lambda>t. d t \<le> d n) ts @ n # filter (\<lambda>t. d n < d t) ts"
    using Cons by simp
  show ?case
  proof (cases "d n < d t")
    case True
    then have "\<forall>u \<in> set ts. d n < d u" using Cons.prems(1) by auto
    then have "filter (\<lambda>t. d t \<le> d n) ts = []" "filter (\<lambda>t. d n < d t) ts = ts" by (auto simp: filter_empty_conv)
    then show ?thesis using Cons.prems(2)[of t] True by simp
  next
    case False
    then show ?thesis using Cons.prems(2)[of t] IH by auto
  qed
qed simp


section \<open>What each operation leaves alone\<close>

lemma flag_bits [simp]:
  "(f AND NOT RT_TIMER_FLAG_ACTIVATED) AND RT_TIMER_FLAG_ACTIVATED = 0"
  "(f OR RT_TIMER_FLAG_ACTIVATED) AND RT_TIMER_FLAG_ACTIVATED \<noteq> 0"
  "(f AND NOT RT_TIMER_FLAG_ACTIVATED) AND RT_TIMER_FLAG_PERIODIC = f AND RT_TIMER_FLAG_PERIODIC"
  "(f OR RT_TIMER_FLAG_ACTIVATED) AND RT_TIMER_FLAG_PERIODIC = f AND RT_TIMER_FLAG_PERIODIC"
  "(f AND NOT RT_TIMER_FLAG_ACTIVATED) OR RT_TIMER_FLAG_ACTIVATED = f OR RT_TIMER_FLAG_ACTIVATED"
proof -
  have b: "bit RT_TIMER_FLAG_ACTIVATED n \<longleftrightarrow> n = 0" "bit RT_TIMER_FLAG_PERIODIC n \<longleftrightarrow> n = 1" for n
    by (auto simp: timer_flag_defs bit_2_iff bit_1_iff)
  show "(f AND NOT RT_TIMER_FLAG_ACTIVATED) AND RT_TIMER_FLAG_ACTIVATED = 0"
    "(f AND NOT RT_TIMER_FLAG_ACTIVATED) AND RT_TIMER_FLAG_PERIODIC = f AND RT_TIMER_FLAG_PERIODIC"
    "(f OR RT_TIMER_FLAG_ACTIVATED) AND RT_TIMER_FLAG_PERIODIC = f AND RT_TIMER_FLAG_PERIODIC"
    "(f AND NOT RT_TIMER_FLAG_ACTIVATED) OR RT_TIMER_FLAG_ACTIVATED = f OR RT_TIMER_FLAG_ACTIVATED"
    by (rule bit_eqI; auto simp: bit_simps b)+
  have "bit ((f OR RT_TIMER_FLAG_ACTIVATED) AND RT_TIMER_FLAG_ACTIVATED) 0" by (simp add: bit_simps b)
  then show "(f OR RT_TIMER_FLAG_ACTIVATED) AND RT_TIMER_FLAG_ACTIVATED \<noteq> 0" by auto
qed

lemma timer_upd_simps [simp]:
  "timer_flag t (set_timer_flag u f k) = (if t = u then f else timer_flag t k)"
  "k_timers (set_timer_flag u f k) = k_timers k" "k_timer_list (set_timer_flag u f k) = k_timer_list k"
  "k_tick (set_timer_flag u f k) = k_tick k" "is_timer t (set_timer_flag u f k) = is_timer t k"
  "timer_flag t (upd_timer u g k) = timer_flag t k" "k_tick (upd_timer u g k) = k_tick k"
  "k_timers (upd_timer u g k) = (k_timers k)(u := g (k_timers k u))"
  "k_timer_list (upd_timer u g k) = k_timer_list k" "is_timer t (upd_timer u g k) = is_timer t k"
  "timer_flag t (timer_remove u k) = timer_flag t k" "k_timers (timer_remove u k) = k_timers k"
  "k_timer_list (timer_remove u k) = removeAll u (k_timer_list k)"
  "k_tick (timer_remove u k) = k_tick k" "is_timer t (timer_remove u k) = is_timer t k"
  "timer_flag t (k\<lparr>k_timer_list := l\<rparr>) = timer_flag t k" "is_timer t (k\<lparr>k_timer_list := l\<rparr>) = is_timer t k"
  by (auto simp: timer_flag_def set_timer_flag_def upd_timer_def timer_remove_def is_timer_def
      rt_object_get_type_def)

text \<open>
  \<open>timer_frame\<close>: a timer operation changes timers, their flags and the timer list, and
  neither the scheduler, nor the other objects, nor the tick.
\<close>

definition timer_frame :: "'a ktimer_scheme \<Rightarrow> 'a ktimer_scheme \<Rightarrow> bool" where
  "timer_frame k k' \<longleftrightarrow> ksched.truncate k' = ksched.truncate k \<and> k_obj_type k' = k_obj_type k \<and>
     k_obj_name k' = k_obj_name k \<and> k_containers k' = k_containers k \<and> k_tick k' = k_tick k \<and>
     ktimer.more k' = ktimer.more k \<and> (\<forall>ob. (\<forall>t. ob \<noteq> TimerObj t) \<longrightarrow> k_obj_flag k' ob = k_obj_flag k ob)"

lemma timer_frame_refl [simp]: "timer_frame k k"
  by (simp add: timer_frame_def)

lemma timer_frame_trans [trans]: "timer_frame k k' \<Longrightarrow> timer_frame k' k'' \<Longrightarrow> timer_frame k k''"
  by (simp add: timer_frame_def)

lemma timer_frame_upd [intro]:
  "timer_frame k k' \<Longrightarrow> timer_frame k (set_timer_flag t f k')"
  "timer_frame k k' \<Longrightarrow> timer_frame k (upd_timer t g k')"
  "timer_frame k k' \<Longrightarrow> timer_frame k (timer_remove t k')"
  "timer_frame k k' \<Longrightarrow> timer_frame k (k'\<lparr>k_timer_list := l\<rparr>)"
  by (simp_all add: timer_frame_def set_timer_flag_def upd_timer_def timer_remove_def ksched.truncate_def)

lemma truncate_fields:
  assumes "ksched.truncate k' = ksched.truncate k"
  shows "k_threads k' = k_threads k" "k_queues k' = k_queues k" "k_group k' = k_group k"
    "k_current k' = k_current k" "k_current_priority k' = k_current_priority k"
    "k_lock_nest k' = k_lock_nest k" "k_irq_nest k' = k_irq_nest k"
  using assms by (auto simp: ksched.truncate_def)

lemma truncate_inv:
  assumes "ksched.truncate k' = ksched.truncate k"
  shows "sched_inv X k' \<longleftrightarrow> sched_inv X k" "cur_ok k' \<longleftrightarrow> cur_ok k" "sched_ok k' \<longleftrightarrow> sched_ok k"
    "prio_of k' t = prio_of k t" "mask_ok k' t \<longleftrightarrow> mask_ok k t"
proof -
  show "sched_inv X k' \<longleftrightarrow> sched_inv X k" using assms sched_truncate(1)[of X k] sched_truncate(1)[of X k'] by simp
  show "cur_ok k' \<longleftrightarrow> cur_ok k" using assms sched_truncate(2)[of k] sched_truncate(2)[of k'] by simp
  show "sched_ok k' \<longleftrightarrow> sched_ok k" using assms sched_truncate(3)[of k] sched_truncate(3)[of k'] by simp
  show "prio_of k' t = prio_of k t" "mask_ok k' t \<longleftrightarrow> mask_ok k t"
    using truncate_fields[OF assms] by (simp_all add: prio_of_def mask_ok_def)
qed

lemma timer_frameD:
  assumes "timer_frame k k'"
  shows "k_threads k' = k_threads k" "k_queues k' = k_queues k" "k_group k' = k_group k"
    "k_current k' = k_current k" "k_lock_nest k' = k_lock_nest k" "k_irq_nest k' = k_irq_nest k"
    "sched_inv X k' \<longleftrightarrow> sched_inv X k" "cur_ok k' \<longleftrightarrow> cur_ok k" "sched_ok k' \<longleftrightarrow> sched_ok k"
    "prio_of k' t = prio_of k t" "mask_ok k' t \<longleftrightarrow> mask_ok k t" "k_tick k' = k_tick k"
    "k_obj_type k' = k_obj_type k" "rt_object_get_type ob k' = rt_object_get_type ob k"
    "rt_object_is_systemobject ob k' = rt_object_is_systemobject ob k"
    "is_timer u k' \<longleftrightarrow> is_timer u k" "obj_inv k' \<longleftrightarrow> obj_inv k" "ktimer.more k' = ktimer.more k"
proof -
  have t: "ksched.truncate k' = ksched.truncate k" using assms by (simp add: timer_frame_def)
  show "k_threads k' = k_threads k" "k_queues k' = k_queues k" "k_group k' = k_group k"
    "k_current k' = k_current k" "k_lock_nest k' = k_lock_nest k" "k_irq_nest k' = k_irq_nest k"
    using truncate_fields[OF t] by simp_all
  show "sched_inv X k' \<longleftrightarrow> sched_inv X k" "cur_ok k' \<longleftrightarrow> cur_ok k" "sched_ok k' \<longleftrightarrow> sched_ok k"
    "prio_of k' t = prio_of k t" "mask_ok k' t \<longleftrightarrow> mask_ok k t" using truncate_inv[OF t] by simp_all
  show "k_tick k' = k_tick k" "k_obj_type k' = k_obj_type k" "rt_object_get_type ob k' = rt_object_get_type ob k"
    "rt_object_is_systemobject ob k' = rt_object_is_systemobject ob k"
    "is_timer u k' \<longleftrightarrow> is_timer u k" "obj_inv k' \<longleftrightarrow> obj_inv k" "ktimer.more k' = ktimer.more k"
    using assms by (simp_all add: timer_frame_def rt_object_get_type_def rt_object_is_systemobject_def
        is_timer_def obj_inv_def)
qed

section \<open>The operations keep the timer list in order\<close>

lemma sorted_removeAll: "sorted (map f xs) \<Longrightarrow> sorted (map f (removeAll x xs))"
  using sorted_filter[of f xs "\<lambda>y. x \<noteq> y"] by (simp add: removeAll_filter_not_eq)

lemma due_simps [simp]:
  "due (set_timer_flag t f k) = due k" "due (timer_remove t k) = due k"
  "due (k\<lparr>k_timer_list := l\<rparr>) = due k"
  by (simp_all add: due_def fun_eq_iff)

lemma timer_inv_remove: "timer_inv k \<Longrightarrow> timer_inv (timer_remove t k)"
  by (auto simp: timer_inv_def distinct_removeAll sorted_removeAll)

text \<open>A start removes the timer, and puts it back behind every timer that is not later.\<close>

lemma rt_timer_start_ok:
  assumes inv: "timer_inv k" and t: "is_timer t k" "tm_init_tick (k_timers k t) < 0x7fffffff"
  obtains k' where "rt_timer_start t k = Some (RT_EOK, k')" "timer_inv k'" "timer_frame k k'"
    "k_timer_list k' = filter (\<lambda>u. due k u \<le> uint (tm_init_tick (k_timers k t))) (removeAll t (k_timer_list k)) @
       t # filter (\<lambda>u. uint (tm_init_tick (k_timers k t)) < due k u) (removeAll t (k_timer_list k))"
    "k_timers k' = (k_timers k)(t := (k_timers k t)\<lparr>tm_timeout_tick := k_tick k + tm_init_tick (k_timers k t)\<rparr>)"
    "timer_flag t k' = timer_flag t k OR RT_TIMER_FLAG_ACTIVATED" "\<forall>u. u \<noteq> t \<longrightarrow> timer_flag u k' = timer_flag u k"
    "due k' t = uint (tm_init_tick (k_timers k t))" "\<forall>u. u \<noteq> t \<longrightarrow> due k' u = due k u"
proof -
  let ?i = "tm_init_tick (k_timers k t)" and ?ts = "removeAll t (k_timer_list k)"
  define k2 where "k2 = set_timer_flag t (timer_flag t (timer_remove t k) AND NOT RT_TIMER_FLAG_ACTIVATED) (timer_remove t k)"
  define k3 where "k3 = upd_timer t (\<lambda>tm. tm\<lparr>tm_timeout_tick := rt_tick_get k2 + tm_init_tick tm\<rparr>) k2"
  define k4 where "k4 = k3\<lparr>k_timer_list := timer_insert (\<lambda>u. tm_timeout_tick (k_timers k3 u)) t (k_timer_list k3)\<rparr>"
  define k5 where "k5 = set_timer_flag t (timer_flag t k4 OR RT_TIMER_FLAG_ACTIVATED) k4"
  note sd = start_due(1)[OF t(2), of "k_tick k"] start_due(2,3)[OF t(2)]
  have f2: "tm_init_tick (k_timers k2 t) < RT_TICK_MAX div 2" using t by (simp add: half_tick k2_def)
  have st: "rt_timer_start t k = Some (RT_EOK, k5)" unfolding rt_timer_start_def Let_def
    by (simp only: t(1) f2 rt_assert_simps Option.bind.simps k5_def k4_def k3_def flip: k2_def)
  have f3: "k_timers k3 = (k_timers k)(t := (k_timers k t)\<lparr>tm_timeout_tick := k_tick k + ?i\<rparr>)"
    "k_timer_list k3 = ?ts" "k_tick k3 = k_tick k"
    by (simp_all add: k3_def k2_def rt_tick_get_def)
  have f5: "k_timers k5 = k_timers k3" "k_tick k5 = k_tick k"
    "k_timer_list k5 = timer_insert (\<lambda>u. tm_timeout_tick (k_timers k3 u)) t ?ts"
    "timer_flag t k5 = timer_flag t k OR RT_TIMER_FLAG_ACTIVATED"
    "\<And>u. u \<noteq> t \<Longrightarrow> timer_flag u k5 = timer_flag u k" "\<And>u. is_timer u k5 = is_timer u k"
    using f3(2) by (simp_all add: k5_def k4_def) (simp_all add: k3_def k2_def)
  have fr: "timer_frame k k5"
    unfolding k5_def k4_def k3_def k2_def by (intro timer_frame_upd timer_frame_refl)
  have dt: "due k3 t = uint ?i" using sd(1) f3 by (simp add: due_def)
  have du: "due k3 u = due k u" if "u \<noteq> t" for u using that f3 by (simp add: due_def)
  have s: "sorted (map (due k3) ?ts)"
  proof -
    have "map (due k3) ?ts = map (due k) ?ts" using du by (intro map_cong) auto
    then show ?thesis using inv sorted_removeAll[of "due k"] by (simp only: timer_inv_def)
  qed
  have cmp: "(tm_timeout_tick (k_timers k3 u) - tm_timeout_tick (k_timers k3 t) = 0 \<longleftrightarrow> due k3 u = due k3 t) \<and>
      (tm_timeout_tick (k_timers k3 u) - tm_timeout_tick (k_timers k3 t) < RT_TICK_MAX div 2 \<longleftrightarrow>
       due k3 t \<le> due k3 u)" if "u \<in> set ?ts" for u
  proof -
    have a: "- 3 \<le> due k3 u" "due k3 u < max_due" using inv that du by (auto simp: timer_inv_def)
    have b: "0 \<le> due k3 t" "due k3 t < max_due" using dt sd by auto
    show ?thesis unfolding half_tick due_def by (intro conjI after_test; rule a[unfolded due_def] b[unfolded due_def])
  qed
  have tl: "k_timer_list k5 = filter (\<lambda>u. due k3 u \<le> due k3 t) ?ts @ t # filter (\<lambda>u. due k3 t < due k3 u) ?ts"
    unfolding f5(3) by (rule timer_insert_split[OF s cmp])
  have tl': "k_timer_list k5 = filter (\<lambda>u. due k u \<le> uint ?i) ?ts @ t # filter (\<lambda>u. uint ?i < due k u) ?ts"
    unfolding tl dt using du by (intro arg_cong2[where f = "(@)"] arg_cong[where f = "Cons t"] filter_cong) auto
  have d5: "due k5 u = due k3 u" for u using f5(1,2) f3(3) by (simp add: due_def)
  have d5': "due k5 = due k3" using d5 by blast
  have "distinct (k_timer_list k5)" unfolding tl' using inv by (auto simp: timer_inv_def distinct_removeAll)
  moreover have "sorted (map (due k5) (k_timer_list k5))"
    unfolding d5' tl map_append list.map using s
    by (auto simp: sorted_append sorted_filter order.strict_implies_order)
  moreover have "\<forall>u \<in> set (k_timer_list k5). - 3 \<le> due k5 u \<and> due k5 u < max_due \<and> is_timer u k5 \<and>
      timer_flag u k5 AND RT_TIMER_FLAG_ACTIVATED \<noteq> 0"
  proof
    fix u assume u: "u \<in> set (k_timer_list k5)"
    show "- 3 \<le> due k5 u \<and> due k5 u < max_due \<and> is_timer u k5 \<and> timer_flag u k5 AND RT_TIMER_FLAG_ACTIVATED \<noteq> 0"
    proof (cases "u = t")
      case True
      have "- 3 \<le> uint ?i" by (rule order_trans[OF _ sd(2)]) simp
      then show ?thesis using True d5 dt sd(3) t(1) f5(4,6) by (simp add: RT_TIMER_FLAG_ACTIVATED_def)
    next
      case False
      then have "u \<in> set (k_timer_list k)" using u unfolding tl' by auto
      then show ?thesis using inv d5 du[OF False] f5(5)[OF False] f5(6) by (simp add: timer_inv_def)
    qed
  qed
  ultimately have i5: "timer_inv k5" by (simp only: timer_inv_def)
  show ?thesis
    by (rule that[OF st i5 fr tl']) (use f5 f3 d5 dt du in simp_all)
qed


lemma rt_timer_stop_ok:
  assumes "is_timer t k"
  obtains e k' where "rt_timer_stop t k = Some (e, k')" "timer_frame k k'"
    "timer_inv k \<Longrightarrow> timer_inv k'" "k_timers k' = k_timers k"
    "timer_inv k \<Longrightarrow> k_timer_list k' = removeAll t (k_timer_list k)"
    "timer_flag t k' AND RT_TIMER_FLAG_ACTIVATED = 0" "\<forall>u. u \<noteq> t \<longrightarrow> timer_flag u k' = timer_flag u k"
    "timer_flag t k' AND RT_TIMER_FLAG_PERIODIC = timer_flag t k AND RT_TIMER_FLAG_PERIODIC"
    "due k' = due k"
proof (cases "timer_flag t k AND RT_TIMER_FLAG_ACTIVATED = 0")
  case True
  have "removeAll t (k_timer_list k) = k_timer_list k" if "timer_inv k"
    using True that by (intro removeAll_id) (auto simp: timer_inv_def)
  then show ?thesis using True assms by (intro that[of "- RT_ERROR" k]) (simp_all add: rt_timer_stop_def)
next
  case False
  let ?k = "set_timer_flag t (timer_flag t (timer_remove t k) AND NOT RT_TIMER_FLAG_ACTIVATED) (timer_remove t k)"
  have "timer_inv ?k" if i: "timer_inv k"
    using timer_inv_remove[OF i, of t] by (auto simp: timer_inv_def)
  moreover have "timer_frame k ?k" by (intro timer_frame_upd timer_frame_refl)
  moreover have "rt_timer_stop t k = Some (RT_EOK, ?k)"
    using False assms by (simp add: rt_timer_stop_def Let_def)
  ultimately show ?thesis by (intro that[of RT_EOK ?k]) simp_all
qed

lemma rt_timer_set_time_ok:
  assumes "is_timer t k"
  shows "rt_timer_control t RT_TIMER_CTRL_SET_TIME v k = Some (RT_EOK, v, upd_timer t (\<lambda>tm. tm\<lparr>tm_init_tick := v\<rparr>) k)"
  using assms by (simp add: rt_timer_control_def timer_ctrl_defs)

lemma timer_inv_set_time: "timer_inv (upd_timer t (\<lambda>tm. tm\<lparr>tm_init_tick := v\<rparr>) k) \<longleftrightarrow> timer_inv k"
proof -
  have "due (upd_timer t (\<lambda>tm. tm\<lparr>tm_init_tick := v\<rparr>) k) = due k" by (simp add: due_def fun_eq_iff)
  then show ?thesis by (simp add: timer_inv_def)
qed

text \<open>\<open>timer_inv\<close> reads the tick, the timers' data and the objects' types and flags only.\<close>

lemma timer_inv_cong:
  assumes "k_timer_list k' = k_timer_list k" "k_timers k' = k_timers k" "k_tick k' = k_tick k"
    "k_obj_type k' = k_obj_type k" "k_obj_flag k' = k_obj_flag k"
  shows "timer_inv k' \<longleftrightarrow> timer_inv k" "due k' = due k"
proof -
  show "due k' = due k" using assms by (simp add: due_def fun_eq_iff)
  then show "timer_inv k' \<longleftrightarrow> timer_inv k"
    using assms by (simp add: timer_inv_def is_timer_def timer_flag_def rt_object_get_type_def)
qed

section \<open>Expiry\<close>

text \<open>
  What \<open>rt_timer_check\<close> relies on: from a state with \<open>Inv\<close>, the timeout function of the
  first due timer returns, and neither advances the tick, nor breaks the order of the list, nor
  adds a timer that is due at once; the timer itself is still a timer if it is to be restarted.
\<close>

definition due_now :: "'a ktimer_scheme \<Rightarrow> timer_id set" where
  "due_now k = {t \<in> set (k_timer_list k). due k t \<le> 0}"

definition periodic :: "timer_id \<Rightarrow> 'a ktimer_scheme \<Rightarrow> bool" where
  "periodic t k \<longleftrightarrow> timer_flag t k AND RT_TIMER_FLAG_PERIODIC \<noteq> 0"

definition periods_ok :: "'a ktimer_scheme \<Rightarrow> bool" where
  "periods_ok k \<longleftrightarrow>
     (\<forall>t. periodic t k \<longrightarrow> 0 < tm_init_tick (k_timers k t) \<and> tm_init_tick (k_timers k t) < 0x7fffffff) \<and>
     (\<forall>n. tm_func (k_timers k (Timer n)) \<noteq> ThreadTimeout)"

lemma start_clear:
  "rt_timer_start t (set_timer_flag t (timer_flag t k AND NOT RT_TIMER_FLAG_ACTIVATED) k) = rt_timer_start t k"
proof -
  let ?c = "set_timer_flag t (timer_flag t k AND NOT RT_TIMER_FLAG_ACTIVATED) k"
  have "set_timer_flag t (timer_flag t (timer_remove t ?c) AND NOT RT_TIMER_FLAG_ACTIVATED) (timer_remove t ?c) =
    set_timer_flag t (timer_flag t (timer_remove t k) AND NOT RT_TIMER_FLAG_ACTIVATED) (timer_remove t k)"
    by (simp add: set_timer_flag_def timer_remove_def timer_flag_def)
  moreover have "is_timer t ?c = is_timer t k" by simp
  ultimately show ?thesis unfolding rt_timer_start_def Let_def by (simp only:)
qed

lemma due_pos_test:
  "timer_inv k \<Longrightarrow> t \<in> set (k_timer_list k) \<Longrightarrow>
   k_tick k - tm_timeout_tick (k_timers k t) < RT_TICK_MAX div 2 \<longleftrightarrow> due k t \<le> 0"
  using due_test[of "tm_timeout_tick (k_timers k t)" "k_tick k"]
  by (simp add: timer_inv_def due_def half_tick)

lemma due_now_empty: "timer_inv k \<Longrightarrow> k_timer_list k = t # ts \<Longrightarrow> 0 < due k t \<Longrightarrow> due_now k = {}"
  by (auto simp: timer_inv_def due_now_def)

text \<open>
  After a timeout function has returned: a timer that is to be restarted goes to its next
  expiry, and any other timer is marked inactive.
\<close>

lemma timer_finish_ok:
  assumes inv: "timer_inv k" "periods_ok k"
    and t: "periodic t k \<and> timer_flag t k AND RT_TIMER_FLAG_ACTIVATED \<noteq> 0 \<longrightarrow> is_timer t k"
      "\<not> periodic t k \<longrightarrow> t \<notin> set (k_timer_list k)"
  obtains k' where "timer_finish t k = Some k'" "timer_inv k'" "periods_ok k'" "timer_frame k k'"
    "due_now k' \<subseteq> due_now k"
    "\<not> periodic t k \<Longrightarrow> k_timer_list k' = k_timer_list k \<and> k_timers k' = k_timers k"
proof (cases "periodic t k \<and> timer_flag t k AND RT_TIMER_FLAG_ACTIVATED \<noteq> 0")
  case True
  then have i: "0 < tm_init_tick (k_timers k t)" "tm_init_tick (k_timers k t) < 0x7fffffff"
    using inv(2) by (auto simp: periods_ok_def)
  have ty: "is_timer t k" using t True by blast
  obtain k' where k': "rt_timer_start t k = Some (RT_EOK, k')" "timer_inv k'" "timer_frame k k'"
    "k_timer_list k' = filter (\<lambda>u. due k u \<le> uint (tm_init_tick (k_timers k t))) (removeAll t (k_timer_list k)) @
       t # filter (\<lambda>u. uint (tm_init_tick (k_timers k t)) < due k u) (removeAll t (k_timer_list k))"
    "k_timers k' = (k_timers k)(t := (k_timers k t)\<lparr>tm_timeout_tick := k_tick k + tm_init_tick (k_timers k t)\<rparr>)"
    "timer_flag t k' = timer_flag t k OR RT_TIMER_FLAG_ACTIVATED" "\<forall>u. u \<noteq> t \<longrightarrow> timer_flag u k' = timer_flag u k"
    "due k' t = uint (tm_init_tick (k_timers k t))" "\<forall>u. u \<noteq> t \<longrightarrow> due k' u = due k u"
    by (rule rt_timer_start_ok[OF inv(1) ty i(2)])
  have p: "periodic u k' = periodic u k" for u
    using k'(6,7) by (cases "u = t") (simp_all add: periodic_def)
  have "0 < due k' t" using i(1) k'(8) by (simp add: word_less_def)
  have "due_now k' \<subseteq> due_now k"
  proof
    fix u assume u: "u \<in> due_now k'"
    then have "u \<noteq> t" using \<open>0 < due k' t\<close> by (auto simp: due_now_def)
    then show "u \<in> due_now k" using u k'(4,9) by (auto simp: due_now_def)
  qed
  moreover have "timer_finish t k = Some k'"
    using True start_clear[of t k] k'(1) by (simp add: timer_finish_def periodic_def)
  moreover have "periods_ok k'" using inv(2) p k'(5) by (auto simp: periods_ok_def)
  ultimately show ?thesis using that k'(2,3) True by blast
next
  case False
  let ?k = "set_timer_flag t (timer_flag t k AND NOT RT_TIMER_FLAG_ACTIVATED) k"
  have nt: "t \<notin> set (k_timer_list k)" using False t(2) inv(1) by (auto simp: timer_inv_def)
  have "timer_finish t k = Some ?k" using False by (auto simp: timer_finish_def periodic_def Let_def)
  moreover have "timer_inv ?k" using inv(1) nt by (auto simp: timer_inv_def)
  moreover have "periods_ok ?k" using inv(2) by (auto simp: periods_ok_def periodic_def)
  moreover have "timer_frame k ?k" by (intro timer_frame_upd timer_frame_refl)
  moreover have "due_now ?k \<subseteq> due_now k" by (simp add: due_now_def)
  ultimately show ?thesis using that by simp
qed

locale timeout_handlers =
  fixes call :: "timeout_fn \<Rightarrow> nat \<Rightarrow> 'a ktimer_scheme \<Rightarrow> 'a ktimer_scheme option"
    and Inv :: "'a ktimer_scheme \<Rightarrow> bool"
  assumes call_returns: "Inv k \<Longrightarrow> timer_inv k \<Longrightarrow> periods_ok k \<Longrightarrow> k_timer_list k = t # ts \<Longrightarrow> due k t \<le> 0 \<Longrightarrow>
      \<exists>k'. call (tm_func (k_timers k t)) (tm_param (k_timers k t)) (timer_remove t k) = Some k' \<and>
        Inv k' \<and> timer_inv k' \<and> periods_ok k' \<and> k_tick k' = k_tick k \<and>
        due_now k' \<subseteq> due_now k - {t} \<and>
        (periodic t k' \<and> timer_flag t k' AND RT_TIMER_FLAG_ACTIVATED \<noteq> 0 \<longrightarrow> is_timer t k') \<and>
        (\<not> periodic t k' \<longrightarrow> t \<notin> set (k_timer_list k'))"
    and finish_keeps: "Inv k' \<Longrightarrow> timer_inv k' \<Longrightarrow> timer_finish t k' = Some k'' \<Longrightarrow> timer_inv k'' \<Longrightarrow> Inv k''"
begin

lemma check_loop:
  assumes "Inv k" "timer_inv k" "periods_ok k"
  shows "\<exists>k'. rt_timer_check_loop call (k_tick k) k = Some k' \<and> Inv k' \<and> timer_inv k' \<and> periods_ok k' \<and>
    k_tick k' = k_tick k \<and> due_now k' = {}"
  using assms
proof (induction "card (due_now k)" arbitrary: k rule: less_induct)
  case less
  show ?case
  proof (cases "k_timer_list k")
    case Nil
    then have "rt_timer_check_loop call (k_tick k) k = Some k"
      by (subst rt_timer_check_loop.simps) simp
    then show ?thesis using less.prems Nil by (simp add: due_now_def)
  next
    case (Cons t ts)
    note test = due_pos_test[OF less.prems(2), of t]
    show ?thesis
    proof (cases "due k t \<le> 0")
      case False
      then have "rt_timer_check_loop call (k_tick k) k = Some k"
        using Cons test by (subst rt_timer_check_loop.simps) simp
      then show ?thesis using less.prems due_now_empty[OF less.prems(2) Cons] False by simp
    next
      case True
      obtain k1 where k1: "call (tm_func (k_timers k t)) (tm_param (k_timers k t)) (timer_remove t k) = Some k1"
        "Inv k1" "timer_inv k1" "periods_ok k1" "k_tick k1 = k_tick k" "due_now k1 \<subseteq> due_now k - {t}"
        "periodic t k1 \<and> timer_flag t k1 AND RT_TIMER_FLAG_ACTIVATED \<noteq> 0 \<longrightarrow> is_timer t k1"
        "\<not> periodic t k1 \<longrightarrow> t \<notin> set (k_timer_list k1)"
        using call_returns[OF less.prems Cons True] by auto
      obtain k2 where k2: "timer_finish t k1 = Some k2" "timer_inv k2" "periods_ok k2" "timer_frame k1 k2"
        "due_now k2 \<subseteq> due_now k1"
        by (rule timer_finish_ok[OF k1(3,4,7,8)])
      have "t \<in> due_now k" using Cons True by (simp add: due_now_def)
      moreover have "finite (due_now k)" by (simp add: due_now_def)
      ultimately have "card (due_now k2) < card (due_now k)"
        using k1(6) k2(5) by (intro psubset_card_mono) auto
      moreover have i2: "Inv k2" by (rule finish_keeps[OF k1(2,3) k2(1,2)])
      ultimately obtain k' where k': "rt_timer_check_loop call (k_tick k2) k2 = Some k'" "Inv k'" "timer_inv k'"
        "periods_ok k'" "k_tick k' = k_tick k2" "due_now k' = {}"
        using less.hyps[of k2] k2(2,3) by auto
      have tk: "k_tick k2 = k_tick k1" using k2(4) by (simp add: timer_frame_def)
      have "rt_timer_check_loop call (k_tick k) k = Some k'"
        using Cons True test k1(1) k2(1) k'(1) tk by (subst rt_timer_check_loop.simps) simp
      then show ?thesis using k' tk k1(5) by auto
    qed
  qed
qed

lemma check_ok:
  assumes "Inv k" "timer_inv k" "periods_ok k"
  shows "\<exists>k'. rt_timer_check call k = Some k' \<and> Inv k' \<and> timer_inv k' \<and> periods_ok k' \<and>
    k_tick k' = k_tick k \<and> due_now k' = {}"
  using check_loop[OF assms] by (simp add: rt_timer_check_def rt_tick_get_def)

end

section \<open>Corner cases of the conversion and of restarting\<close>

lemma tick_from_ms_exact:
  assumes "0 \<le> sint ms" shows "uint (rt_tick_from_millisecond ms) = sint ms"
proof -
  have r: "(1000 * m + 999) div 1000 = m" for m :: int by simp
  have "rt_tick_from_millisecond ms = of_int (1000 * (sint ms div 1000)) + of_int (sint ms mod 1000)"
    unfolding rt_tick_from_millisecond_def Let_def RT_TICK_PER_SECOND_def r using assms by (simp only: not_less if_False flip: not_less)
  also have "\<dots> = of_int (1000 * (sint ms div 1000) + sint ms mod 1000)" by (simp only: of_int_add)
  finally have e: "rt_tick_from_millisecond ms = of_int (sint ms)" by (simp only: mult_div_mod_eq)
  have "sint ms < 2 ^ 31" using sint_less[of ms] by simp
  then show ?thesis using assms unfolding e by (simp only: uint_of_int_32) simp
qed

lemma tick_from_ms_neg: "sint ms < 0 \<Longrightarrow> rt_tick_from_millisecond ms = RT_TICK_MAX"
  by (simp add: rt_tick_from_millisecond_def RT_TICK_MAX_def)

lemma rt_timer_start_too_long: "tm_init_tick (k_timers k t) = RT_TICK_MAX \<Longrightarrow> rt_timer_start t k = None"
proof -
  assume "tm_init_tick (k_timers k t) = RT_TICK_MAX"
  moreover have "\<not> RT_TICK_MAX < RT_TICK_MAX div 2" by (simp add: RT_TICK_MAX_def)
  ultimately show ?thesis
    by (cases "is_timer t k") (simp_all add: rt_timer_start_def Let_def timer_remove_def set_timer_flag_def)
qed

lemma timer_finish_cleared:
  assumes "t \<in> set (k_timer_list k)" "timer_flag t k AND RT_TIMER_FLAG_PERIODIC = 0" "is_timer t k"
  shows "\<exists>k'. timer_finish t k = Some k' \<and> t \<in> set (k_timer_list k') \<and> rt_timer_stop t k' = Some (- RT_ERROR, k')"
  using assms by (simp add: timer_finish_def rt_timer_stop_def)

end
