(* ===== verification/Thread.thy ===== *)
theory Thread
  imports Timer
begin

text \<open>
  Threads: \<open>src/thread.c\<close>, the tick interrupt \<open>rt_tick_increase\<close> of \<open>src/clock.c\<close>
  and the reaping of dead threads by \<open>src/idle.c\<close>. A call that blocks is modelled up to
  and including its call of \<open>rt_schedule\<close>, and what it does when its thread runs again is a
  function of its own. Entry point, parameter and stack of a thread, which only the port and the
  thread itself read, are left out.
\<close>

section \<open>Starting and ending a thread\<close>

definition is_thread :: "nat \<Rightarrow> 'a kobj_scheme \<Rightarrow> bool" where
  "is_thread t k \<longleftrightarrow> rt_object_get_type (ThreadObj t) k = RT_Object_Class_Thread"

definition rt_thread_self :: "'a ksched_scheme \<Rightarrow> nat option" where
  "rt_thread_self k = k_current k"

text \<open>\<open>_rt_thread_init\<close>; re-initialising a node that is linked cuts its list, a failure.\<close>

definition thread_init :: "nat \<Rightarrow> u8 \<Rightarrow> u32 \<Rightarrow> 'a ktimer_scheme \<Rightarrow> (rt_err \<times> 'a ktimer_scheme) option" where
  "thread_init t priority tick k = do {
     rt_assert (\<not> (\<exists>l. t \<in> set (k_queues k l)));
     rt_assert (unat priority < RT_THREAD_PRIORITY_MAX);
     let k1 = upd_thread t (\<lambda>th. th\<lparr>th_stat := RT_THREAD_INIT, th_current_priority := priority,
       th_init_priority := priority, th_number_mask := 0, th_error := RT_EOK, th_init_tick := tick,
       th_remaining_tick := tick, th_cleanup := False\<rparr>) k;
     k2 \<leftarrow> rt_timer_init (ThreadTimer t) (k_obj_name k1 (ThreadObj t)) ThreadTimeout t 0 0 k1;
     Some (RT_EOK, k2)
   }"

definition rt_thread_init ::
    "nat \<Rightarrow> u8 list \<Rightarrow> u8 \<Rightarrow> u32 \<Rightarrow> 'a ktimer_scheme \<Rightarrow> (rt_err \<times> 'a ktimer_scheme) option" where
  "rt_thread_init t name priority tick k = do {
     k1 \<leftarrow> rt_object_init (ThreadObj t) RT_Object_Class_Thread name k;
     thread_init t priority tick k1
   }"

text \<open>
  \<open>rt_thread_create\<close>: \<open>mem\<close> is the control block the heap returned, \<open>stack\<close> whether
  the second allocation succeeded.
\<close>

definition rt_thread_create ::
    "nat option \<Rightarrow> bool \<Rightarrow> u8 list \<Rightarrow> u8 \<Rightarrow> u32 \<Rightarrow> 'a ktimer_scheme \<Rightarrow> (nat option \<times> 'a ktimer_scheme) option" where
  "rt_thread_create mem stack name priority tick k = do {
     (_, k1) \<leftarrow> rt_object_allocate (map_option ThreadObj mem) RT_Object_Class_Thread name k;
     (case mem of None \<Rightarrow> Some (None, k1)
      | Some t \<Rightarrow>
          if \<not> stack then do { k2 \<leftarrow> rt_object_delete (ThreadObj t) k1; Some (None, k2) }
          else do { (_, k2) \<leftarrow> thread_init t priority tick k1; Some (Some t, k2) })
   }"

definition rt_thread_resume :: "nat \<Rightarrow> 'a ktimer_scheme \<Rightarrow> (rt_err \<times> 'a ktimer_scheme) option" where
  "rt_thread_resume t k = do {
     rt_assert (is_thread t k);
     if tstat k t \<noteq> RT_THREAD_SUSPEND then Some (- RT_ERROR, k)
     else do {
       let k1 = k\<lparr>k_queues := q_remove t (k_queues k)\<rparr>;
       (_, k2) \<leftarrow> rt_timer_stop (ThreadTimer t) k1;
       k3 \<leftarrow> rt_schedule_insert_thread t k2;
       Some (RT_EOK, k3)
     }
   }"

definition rt_thread_suspend :: "nat \<Rightarrow> 'a ktimer_scheme \<Rightarrow> (rt_err \<times> 'a ktimer_scheme) option" where
  "rt_thread_suspend t k = do {
     rt_assert (is_thread t k);
     let stat = tstat k t;
     if stat \<noteq> RT_THREAD_READY \<and> stat \<noteq> RT_THREAD_RUNNING then Some (- RT_ERROR, k)
     else do {
       rt_assert (stat = RT_THREAD_RUNNING \<longrightarrow> rt_thread_self k = Some t);
       k1 \<leftarrow> rt_schedule_remove_thread t k;
       let k2 = upd_thread t (set_stat RT_THREAD_SUSPEND) k1;
       (_, k3) \<leftarrow> rt_timer_stop (ThreadTimer t) k2;
       Some (RT_EOK, k3)
     }
   }"

definition rt_thread_startup :: "nat \<Rightarrow> 'a ktimer_scheme \<Rightarrow> (rt_err \<times> 'a ktimer_scheme) option" where
  "rt_thread_startup t k = do {
     rt_assert (tstat k t = RT_THREAD_INIT);
     rt_assert (is_thread t k);
     let k1 = upd_thread t (\<lambda>th. th\<lparr>th_stat := RT_THREAD_SUSPEND, th_current_priority := th_init_priority th,
       th_number_mask := push_bit (unat (th_init_priority th)) 1\<rparr>) k;
     (_, k2) \<leftarrow> rt_thread_resume t k1;
     k3 \<leftarrow> (if rt_thread_self k2 \<noteq> None then rt_schedule k2 else Some k2);
     Some (RT_EOK, k3)
   }"

definition to_defunct :: "nat \<Rightarrow> 'a ksched_scheme \<Rightarrow> 'a ksched_scheme" where
  "to_defunct t k = k\<lparr>k_queues := q_push_front Defunct t (k_queues k)\<rparr>"

definition rt_thread_exit :: "'a ktimer_scheme \<Rightarrow> 'a ktimer_scheme option" where
  "rt_thread_exit k = do {
     t \<leftarrow> rt_thread_self k;
     k1 \<leftarrow> rt_schedule_remove_thread t k;
     let k2 = upd_thread t (\<lambda>th. th\<lparr>th_stat := RT_THREAD_CLOSE\<rparr>) k1;
     (_, k3) \<leftarrow> rt_timer_detach (ThreadTimer t) k2;
     let k4 = (if rt_object_is_systemobject (ThreadObj t) k3 \<and> \<not> th_cleanup (k_threads k3 t)
               then rt_object_detach (ThreadObj t) k3 else to_defunct t k3);
     rt_schedule k4
   }"

definition rt_thread_detach :: "nat \<Rightarrow> 'a ktimer_scheme \<Rightarrow> (rt_err \<times> 'a ktimer_scheme) option" where
  "rt_thread_detach t k = do {
     rt_assert (is_thread t k);
     rt_assert (rt_object_is_systemobject (ThreadObj t) k);
     k1 \<leftarrow> (if tstat k t \<noteq> RT_THREAD_INIT then rt_schedule_remove_thread t k else Some k);
     (_, k2) \<leftarrow> rt_timer_detach (ThreadTimer t) k1;
     let k3 = upd_thread t (\<lambda>th. th\<lparr>th_stat := RT_THREAD_CLOSE\<rparr>) k2;
     Some (RT_EOK, if rt_object_is_systemobject (ThreadObj t) k3 \<and> \<not> th_cleanup (k_threads k3 t)
                   then rt_object_detach (ThreadObj t) k3 else to_defunct t k3)
   }"

definition rt_thread_delete :: "nat \<Rightarrow> 'a ktimer_scheme \<Rightarrow> (rt_err \<times> 'a ktimer_scheme) option" where
  "rt_thread_delete t k = do {
     rt_assert (is_thread t k);
     rt_assert (\<not> rt_object_is_systemobject (ThreadObj t) k);
     k1 \<leftarrow> (if tstat k t \<noteq> RT_THREAD_INIT then rt_schedule_remove_thread t k else Some k);
     (_, k2) \<leftarrow> rt_timer_detach (ThreadTimer t) k1;
     Some (RT_EOK, to_defunct t (upd_thread t (\<lambda>th. th\<lparr>th_stat := RT_THREAD_CLOSE\<rparr>) k2))
   }"

section \<open>Yielding, sleeping, changing priority\<close>

definition rt_thread_yield :: "'a ksched_scheme \<Rightarrow> (rt_err \<times> 'a ksched_scheme) option" where
  "rt_thread_yield k = do { k1 \<leftarrow> rt_schedule k; Some (RT_EOK, k1) }"

text \<open>\<open>rt_thread_sleep\<close> up to the point where the processor is given away, and after it.\<close>

definition rt_thread_sleep :: "u32 \<Rightarrow> 'a ktimer_scheme \<Rightarrow> 'a ktimer_scheme option" where
  "rt_thread_sleep tick k = do {
     t \<leftarrow> rt_thread_self k;
     rt_assert (is_thread t k);
     (_, k1) \<leftarrow> rt_thread_suspend t k;
     (_, _, k2) \<leftarrow> rt_timer_control (ThreadTimer t) RT_TIMER_CTRL_SET_TIME tick k1;
     (_, k3) \<leftarrow> rt_timer_start (ThreadTimer t) k2;
     rt_schedule k3
   }"

definition rt_thread_sleep_return :: "nat \<Rightarrow> 'a ksched_scheme \<Rightarrow> rt_err \<times> 'a ksched_scheme" where
  "rt_thread_sleep_return t k =
    (RT_EOK, if th_error (k_threads k t) = - RT_ETIMEOUT
             then upd_thread t (\<lambda>th. th\<lparr>th_error := RT_EOK\<rparr>) k else k)"

definition rt_thread_delay :: "u32 \<Rightarrow> 'a ktimer_scheme \<Rightarrow> 'a ktimer_scheme option" where
  "rt_thread_delay tick k = rt_thread_sleep tick k"

definition rt_thread_mdelay :: "32 word \<Rightarrow> 'a ktimer_scheme \<Rightarrow> 'a ktimer_scheme option" where
  "rt_thread_mdelay ms k = rt_thread_sleep (rt_tick_from_millisecond ms) k"

definition RT_THREAD_CTRL_STARTUP :: int where "RT_THREAD_CTRL_STARTUP = 0"
definition RT_THREAD_CTRL_CLOSE :: int where "RT_THREAD_CTRL_CLOSE = 1"
definition RT_THREAD_CTRL_CHANGE_PRIORITY :: int where "RT_THREAD_CTRL_CHANGE_PRIORITY = 2"

definition change_priority :: "u8 \<Rightarrow> thread \<Rightarrow> thread" where
  "change_priority p th = th\<lparr>th_current_priority := p, th_number_mask := push_bit (unat p) 1\<rparr>"

definition rt_thread_control :: "nat \<Rightarrow> int \<Rightarrow> u8 \<Rightarrow> 'a ktimer_scheme \<Rightarrow> (rt_err \<times> 'a ktimer_scheme) option" where
  "rt_thread_control t cmd arg k = do {
     rt_assert (is_thread t k);
     if cmd = RT_THREAD_CTRL_CHANGE_PRIORITY then
       if tstat k t = RT_THREAD_READY then do {
         k1 \<leftarrow> rt_schedule_remove_thread t k;
         let k2 = upd_thread t (change_priority arg) k1;
         k3 \<leftarrow> rt_schedule_insert_thread t k2;
         Some (RT_EOK, k3)
       } else Some (RT_EOK, upd_thread t (change_priority arg) k)
     else if cmd = RT_THREAD_CTRL_STARTUP then rt_thread_startup t k
     else if cmd = RT_THREAD_CTRL_CLOSE then rt_thread_delete t k
     else Some (RT_EOK, k)
   }"

definition rt_thread_timeout :: "nat \<Rightarrow> 'a ktimer_scheme \<Rightarrow> 'a ktimer_scheme option" where
  "rt_thread_timeout t k = do {
     rt_assert (tstat k t = RT_THREAD_SUSPEND);
     rt_assert (is_thread t k);
     let k1 = upd_thread t (\<lambda>th. th\<lparr>th_error := - RT_ETIMEOUT\<rparr>) k;
     let k2 = k1\<lparr>k_queues := q_remove t (k_queues k1)\<rparr>;
     k3 \<leftarrow> rt_schedule_insert_thread t k2;
     rt_schedule k3
   }"

definition rt_thread_find :: "u8 list \<Rightarrow> 'a kobj_scheme \<Rightarrow> (obj option \<times> 'a kobj_scheme) option" where
  "rt_thread_find nm k = do {
     let k1 = (if rt_thread_self k \<noteq> None then rt_enter_critical k else k);
     info \<leftarrow> rt_object_get_information RT_Object_Class_Thread;
     let r = find (\<lambda>ob. name_eq RT_NAME_MAX (k_obj_name k1 ob) nm) (k_containers k1 info);
     k2 \<leftarrow> (if rt_thread_self k1 \<noteq> None then rt_exit_critical k1 else Some k1);
     Some (r, k2)
   }"

section \<open>The tick interrupt\<close>

text \<open>\<open>user\<close> is the application's timeout functions; a thread's own timer calls \<open>rt_thread_timeout\<close>.\<close>

definition timeout_call ::
    "(nat \<Rightarrow> nat \<Rightarrow> 'a ktimer_scheme \<Rightarrow> 'a ktimer_scheme option) \<Rightarrow> timeout_fn \<Rightarrow> nat \<Rightarrow>
     'a ktimer_scheme \<Rightarrow> 'a ktimer_scheme option" where
  "timeout_call user fn param k =
    (case fn of ThreadTimeout \<Rightarrow> rt_thread_timeout param k | UserFn f \<Rightarrow> user f param k)"

definition rt_tick_increase ::
    "(nat \<Rightarrow> nat \<Rightarrow> 'a ktimer_scheme \<Rightarrow> 'a ktimer_scheme option) \<Rightarrow> 'a ktimer_scheme \<Rightarrow> 'a ktimer_scheme option" where
  "rt_tick_increase user k = do {
     let k1 = k\<lparr>k_tick := k_tick k + 1\<rparr>;
     t \<leftarrow> rt_thread_self k1;
     let k2 = upd_thread t (\<lambda>th. th\<lparr>th_remaining_tick := th_remaining_tick th - 1\<rparr>) k1;
     k3 \<leftarrow> (if th_remaining_tick (k_threads k2 t) = 0
            then map_option snd (rt_thread_yield (upd_thread t (\<lambda>th. th\<lparr>th_remaining_tick := th_init_tick th\<rparr>) k2))
            else Some k2);
     rt_timer_check (timeout_call user) k3
   }"

section \<open>Reaping dead threads\<close>

text \<open>
  \<open>rt_thread_idle_excute\<close> with the threads' cleanup functions as \<open>cleanup\<close>. Freeing the
  stack touches the heap only.
\<close>

partial_function (option) rt_thread_idle_excute ::
    "(nat \<Rightarrow> 'a ktimer_scheme \<Rightarrow> 'a ktimer_scheme option) \<Rightarrow> 'a ktimer_scheme \<Rightarrow> 'a ktimer_scheme option" where
  "rt_thread_idle_excute cleanup k =
    (case k_queues k Defunct of [] \<Rightarrow> Some k
     | t # ts \<Rightarrow>
       if k_irq_nest k \<noteq> 0 then None else
       Option.bind (if th_cleanup (k_threads k t)
                    then cleanup t (rt_enter_critical (k\<lparr>k_queues := q_remove t (k_queues k)\<rparr>))
                    else Some (rt_enter_critical (k\<lparr>k_queues := q_remove t (k_queues k)\<rparr>))) (\<lambda>k1.
       if rt_object_is_systemobject (ThreadObj t) k1
       then rt_exit_critical (rt_object_detach (ThreadObj t) k1)
       else Option.bind (rt_exit_critical k1) (\<lambda>k2.
            Option.bind (rt_object_delete (ThreadObj t) k2) (\<lambda>k3.
            rt_thread_idle_excute cleanup k3))))"

definition RT_IDEL_HOOK_LIST_SIZE :: nat where "RT_IDEL_HOOK_LIST_SIZE = 4"

text \<open>The idle hooks are a fixed array of optional functions.\<close>

fun idle_slot :: "nat option \<Rightarrow> nat option \<Rightarrow> nat option list \<Rightarrow> nat option list option" where
  "idle_slot old new [] = None"
| "idle_slot old new (h # hs) =
    (if h = old then Some (new # hs) else map_option (Cons h) (idle_slot old new hs))"

definition rt_thread_idle_sethook :: "nat \<Rightarrow> nat option list \<Rightarrow> rt_err \<times> nat option list" where
  "rt_thread_idle_sethook hook hs =
    (case idle_slot None (Some hook) hs of None \<Rightarrow> (- RT_EFULL, hs) | Some hs' \<Rightarrow> (RT_EOK, hs'))"

definition rt_thread_idle_delhook :: "nat \<Rightarrow> nat option list \<Rightarrow> rt_err \<times> nat option list" where
  "rt_thread_idle_delhook hook hs =
    (case idle_slot (Some hook) None hs of None \<Rightarrow> (- RT_ENOSYS, hs) | Some hs' \<Rightarrow> (RT_EOK, hs'))"

section \<open>The invariant of threads and their timers\<close>

text \<open>
  \<open>thread_wf k t\<close>: a thread that has been started is registered with its timer, which
  calls \<open>rt_thread_timeout\<close> on it and is never periodic, and the timer runs only while the
  thread is suspended. This is what keeps the assertions of \<open>rt_thread_timeout\<close> true in the
  tick interrupt.
\<close>

definition thread_wf :: "'a ktimer_scheme \<Rightarrow> nat \<Rightarrow> bool" where
  "thread_wf k t \<longleftrightarrow>
     (ThreadTimer t \<in> set (k_timer_list k) \<longrightarrow> tstat k t = RT_THREAD_SUSPEND) \<and>
     \<not> periodic (ThreadTimer t) k \<and>
     (tstat k t \<in> {RT_THREAD_READY, RT_THREAD_RUNNING, RT_THREAD_SUSPEND} \<longrightarrow>
        is_thread t k \<and> is_timer (ThreadTimer t) k \<and>
        tm_func (k_timers k (ThreadTimer t)) = ThreadTimeout \<and> tm_param (k_timers k (ThreadTimer t)) = t)"

definition threads_inv :: "nat set \<Rightarrow> 'a ktimer_scheme \<Rightarrow> bool" where
  "threads_inv X k \<longleftrightarrow> sched_inv X k \<and> cur_ok k \<and> (\<forall>t. thread_wf k t)"

definition sys_inv :: "nat set \<Rightarrow> 'a ktimer_scheme \<Rightarrow> bool" where
  "sys_inv X k \<longleftrightarrow> threads_inv X k \<and> timer_inv k \<and> periods_ok k"

text \<open>Which part of the state each operation of the layers below leaves alone.\<close>

lemma more_fields:
  assumes "ksched.more k' = ksched.more k"
  shows "k_tick k' = k_tick k" "k_timers k' = k_timers k" "k_timer_list k' = k_timer_list k"
    "k_obj_type k' = k_obj_type k" "k_obj_flag k' = k_obj_flag k" "k_obj_name k' = k_obj_name k"
    "k_containers k' = k_containers k" "ktimer.more k' = ktimer.more k"
  using assms by (cases k; cases k'; simp)+

lemma more_preds:
  assumes "ksched.more k' = ksched.more k"
  shows "timer_inv k' \<longleftrightarrow> timer_inv k" "periods_ok k' \<longleftrightarrow> periods_ok k" "obj_inv k' \<longleftrightarrow> obj_inv k"
    "is_thread t k' \<longleftrightarrow> is_thread t k" "is_timer u k' \<longleftrightarrow> is_timer u k" "due k' = due k"
    "timer_flag u k' = timer_flag u k" "periodic u k' \<longleftrightarrow> periodic u k" "due_now k' = due_now k"
    "rt_object_get_type ob k' = rt_object_get_type ob k"
    "rt_object_is_systemobject ob k' = rt_object_is_systemobject ob k"
proof -
  note f = more_fields[OF assms]
  show d: "due k' = due k" using f by (simp add: due_def fun_eq_iff)
  show "timer_inv k' \<longleftrightarrow> timer_inv k" using f by (intro timer_inv_cong)
  show p: "periodic u k' \<longleftrightarrow> periodic u k" for u using f by (simp add: periodic_def timer_flag_def)
  show "periods_ok k' \<longleftrightarrow> periods_ok k" using f p by (simp add: periods_ok_def)
  show "obj_inv k' \<longleftrightarrow> obj_inv k" by (rule obj_inv_more[OF assms])
  show "is_thread t k' \<longleftrightarrow> is_thread t k" "is_timer u k' \<longleftrightarrow> is_timer u k"
    "timer_flag u k' = timer_flag u k" "due_now k' = due_now k"
    "rt_object_get_type ob k' = rt_object_get_type ob k"
    "rt_object_is_systemobject ob k' = rt_object_is_systemobject ob k" using f d
    by (simp_all add: is_thread_def is_timer_def rt_object_get_type_def timer_flag_def due_now_def
        rt_object_is_systemobject_def)
qed

lemma thread_wf_cong:
  assumes "ksched.more k' = ksched.more k" "tstat k' t = tstat k t"
  shows "thread_wf k' t \<longleftrightarrow> thread_wf k t"
  using more_fields[OF assms(1)] more_preds[OF assms(1)] assms(2) by (simp add: thread_wf_def)

lemma sys_invD:
  assumes "sys_inv X k"
  shows "sched_inv X k" "cur_ok k" "timer_inv k" "periods_ok k" "thread_wf k t" "threads_inv X k"
  using assms by (auto simp: sys_inv_def threads_inv_def)

lemma sys_invI:
  "sched_inv X k \<Longrightarrow> cur_ok k \<Longrightarrow> timer_inv k \<Longrightarrow> periods_ok k \<Longrightarrow> (\<And>t. thread_wf k t) \<Longrightarrow> sys_inv X k"
  by (simp add: sys_inv_def threads_inv_def)

lemma thread_wfD:
  assumes "thread_wf k t"
  shows "ThreadTimer t \<in> set (k_timer_list k) \<Longrightarrow> tstat k t = RT_THREAD_SUSPEND"
    "\<not> periodic (ThreadTimer t) k"
    "tstat k t \<in> {RT_THREAD_READY, RT_THREAD_RUNNING, RT_THREAD_SUSPEND} \<Longrightarrow> is_thread t k"
    "tstat k t \<in> {RT_THREAD_READY, RT_THREAD_RUNNING, RT_THREAD_SUSPEND} \<Longrightarrow> is_timer (ThreadTimer t) k"
    "tstat k t \<in> {RT_THREAD_READY, RT_THREAD_RUNNING, RT_THREAD_SUSPEND} \<Longrightarrow>
      tm_func (k_timers k (ThreadTimer t)) = ThreadTimeout"
    "tstat k t \<in> {RT_THREAD_READY, RT_THREAD_RUNNING, RT_THREAD_SUSPEND} \<Longrightarrow>
      tm_param (k_timers k (ThreadTimer t)) = t"
  using assms by (auto simp: thread_wf_def)

text \<open>A scheduling point keeps the whole invariant.\<close>

lemma frame_stat:
  assumes "sched_frame k k'"
  shows "tstat k' t = RT_THREAD_SUSPEND \<longleftrightarrow> tstat k t = RT_THREAD_SUSPEND"
    "tstat k t \<notin> {RT_THREAD_READY, RT_THREAD_RUNNING} \<Longrightarrow> k_threads k' t = k_threads k t"
    "tstat k t \<in> {RT_THREAD_READY, RT_THREAD_RUNNING} \<longleftrightarrow> tstat k' t \<in> {RT_THREAD_READY, RT_THREAD_RUNNING}"
    "th_error (k_threads k' t) = th_error (k_threads k t)"
    "prio_of k' t = prio_of k t"
    "th_current_priority (k_threads k' t) = th_current_priority (k_threads k t)"
proof -
  show a: "tstat k t \<notin> {RT_THREAD_READY, RT_THREAD_RUNNING} \<Longrightarrow> k_threads k' t = k_threads k t"
    using assms unfolding sched_frame_def by blast
  have b: "tstat k t \<in> {RT_THREAD_READY, RT_THREAD_RUNNING} \<Longrightarrow> tstat k' t \<in> {RT_THREAD_READY, RT_THREAD_RUNNING}"
    using assms unfolding sched_frame_def by blast
  show "tstat k t \<in> {RT_THREAD_READY, RT_THREAD_RUNNING} \<longleftrightarrow> tstat k' t \<in> {RT_THREAD_READY, RT_THREAD_RUNNING}"
    using a b by metis
  show "tstat k' t = RT_THREAD_SUSPEND \<longleftrightarrow> tstat k t = RT_THREAD_SUSPEND"
    using a b by (cases "tstat k t \<in> {RT_THREAD_READY, RT_THREAD_RUNNING}") auto
  obtain st where "k_threads k' t = (k_threads k t)\<lparr>th_stat := st\<rparr>" using assms unfolding sched_frame_def by blast
  then show "th_error (k_threads k' t) = th_error (k_threads k t)" "prio_of k' t = prio_of k t"
    "th_current_priority (k_threads k' t) = th_current_priority (k_threads k t)"
    by (simp_all add: prio_of_def)
qed

lemma schedule_sys:
  assumes "sys_inv {} k"
  obtains k' where "rt_schedule k = Some k'" "sys_inv {} k'" "sched_frame k k'" "ksched.more k' = ksched.more k"
proof -
  obtain k' where k': "rt_schedule k = Some k'" "sched_inv {} k'" "cur_ok k'" "sched_frame k k'"
    by (rule rt_schedule_spec[OF sys_invD(1,2)[OF assms]])
  have m: "ksched.more k' = ksched.more k" by (rule sched_frame_lock[OF k'(4)])
  have "thread_wf k' t" for t
  proof -
    have w: "thread_wf k t" by (rule sys_invD(5)[OF assms])
    note f = frame_stat[OF k'(4), of t]
    have e: "tstat k' t \<in> {RT_THREAD_READY, RT_THREAD_RUNNING, RT_THREAD_SUSPEND} \<longleftrightarrow>
        tstat k t \<in> {RT_THREAD_READY, RT_THREAD_RUNNING, RT_THREAD_SUSPEND}" using f(1,3) by blast
    show ?thesis using w unfolding thread_wf_def e f(1) more_fields(2,3)[OF m] more_preds(4,5,8)[OF m] .
  qed
  then have "sys_inv {} k'"
    using k'(2,3) sys_invD(3,4)[OF assms] more_preds[OF m] by (intro sys_invI) simp_all
  then show ?thesis using that k' m by blast
qed

text \<open>Changing fields of a thread that neither the scheduler nor the timers read.\<close>

lemma upd_thread_sched_inv:
  assumes f: "stat_of (f (k_threads k t)) = tstat k t"
    "th_current_priority (f (k_threads k t)) = th_current_priority (k_threads k t)"
    "th_number_mask (f (k_threads k t)) = th_number_mask (k_threads k t)"
  shows "sched_inv X (upd_thread t f k) \<longleftrightarrow> sched_inv X k"
    "cur_ok (upd_thread t f k) \<longleftrightarrow> cur_ok k"
proof -
  have s: "stat_of ((k_threads (upd_thread t f k)) u) = tstat k u" for u using f by simp
  have p: "prio_of (upd_thread t f k) u = prio_of k u" for u using f by (simp add: prio_of_def)
  have m: "mask_ok (upd_thread t f k) u = mask_ok k u" for u using f by (simp add: mask_ok_def prio_of_def)
  have "thread_ok (upd_thread t f k) u = thread_ok k u" for u
    unfolding thread_ok_def s p m by simp
  then show "sched_inv X (upd_thread t f k) \<longleftrightarrow> sched_inv X k"
    by (simp add: sched_inv_def group_ok_def)
  show "cur_ok (upd_thread t f k) \<longleftrightarrow> cur_ok k" unfolding cur_ok_def s by simp
qed

lemma upd_thread_sys_inv:
  assumes f: "stat_of (f (k_threads k t)) = tstat k t"
    "th_current_priority (f (k_threads k t)) = th_current_priority (k_threads k t)"
    "th_number_mask (f (k_threads k t)) = th_number_mask (k_threads k t)"
  shows "sys_inv X (upd_thread t f k) \<longleftrightarrow> sys_inv X k"
proof -
  have m: "ksched.more (upd_thread t f k) = ksched.more k" by simp
  have s: "stat_of ((k_threads (upd_thread t f k)) u) = tstat k u" for u using f by simp
  have "thread_wf (upd_thread t f k) u = thread_wf k u" for u
    by (rule thread_wf_cong[OF m s])
  then show ?thesis
    using upd_thread_sched_inv[where f = f and k = k and t = t, OF f] more_preds[OF m] by (simp add: sys_inv_def threads_inv_def)
qed

section \<open>Suspending and resuming\<close>

lemma timer_stop_sys:
  assumes inv: "sys_inv X k" and t: "is_timer u k"
  obtains e k' where "rt_timer_stop u k = Some (e, k')" "sys_inv X k'" "timer_frame k k'"
    "k_timer_list k' = removeAll u (k_timer_list k)" "k_timers k' = k_timers k" "due k' = due k"
proof -
  obtain e k' where k': "rt_timer_stop u k = Some (e, k')" "timer_frame k k'"
    "timer_inv k \<Longrightarrow> timer_inv k'" "k_timers k' = k_timers k"
    "timer_inv k \<Longrightarrow> k_timer_list k' = removeAll u (k_timer_list k)"
    "timer_flag u k' AND RT_TIMER_FLAG_ACTIVATED = 0" "\<forall>v. v \<noteq> u \<longrightarrow> timer_flag v k' = timer_flag v k"
    "timer_flag u k' AND RT_TIMER_FLAG_PERIODIC = timer_flag u k AND RT_TIMER_FLAG_PERIODIC" "due k' = due k"
    using rt_timer_stop_ok[OF t] by metis
  note f = timer_frameD[OF k'(2)]
  have p: "periodic v k' = periodic v k" for v using k'(7,8) by (cases "v = u") (simp_all add: periodic_def)
  have l: "k_timer_list k' = removeAll u (k_timer_list k)" using k'(5) sys_invD(3)[OF inv] by blast
  have "thread_wf k' v" for v
    using sys_invD(5)[OF inv, of v] f(1) f(14) f(16) k'(4) p l by (auto simp: thread_wf_def is_thread_def)
  then have "sys_inv X k'" using sys_invD(1-4)[OF inv] f(7,8) k'(3,4) p
    by (intro sys_invI) (simp_all add: periods_ok_def)
  then show ?thesis using that k'(1,2,4,9) l by blast
qed

lemma live_mask: "sys_inv {} k \<Longrightarrow> tstat k t \<in> {RT_THREAD_READY, RT_THREAD_RUNNING, RT_THREAD_SUSPEND} \<Longrightarrow> mask_ok k t"
  using sys_invD(1) sched_invD(4) thread_okD(6) by blast

lemma insert_sys:
  assumes inv: "sys_inv X k" and t: "t \<in> X" "mask_ok k t" "tstat k t = RT_THREAD_SUSPEND"
    and l: "ThreadTimer t \<notin> set (k_timer_list k)"
  obtains k' where "rt_schedule_insert_thread t k = Some k'" "sys_inv (X - {t}) k'"
    "k_threads k' = (k_threads k)(t := set_stat (back_stat t k) (k_threads k t))"
    "k_queues k' = (if k_current k = Some t then k_queues k else q_push_back (Ready (prio_of k t)) t (k_queues k))"
    "k_current k' = k_current k" "k_lock_nest k' = k_lock_nest k" "k_irq_nest k' = k_irq_nest k"
    "ksched.more k' = ksched.more k"
proof -
  obtain k' where k': "rt_schedule_insert_thread t k = Some k'" "sched_inv (X - {t}) k'"
    "k_threads k' = (k_threads k)(t := set_stat (back_stat t k) (k_threads k t))"
    "k_queues k' = (if k_current k = Some t then k_queues k else q_push_back (Ready (prio_of k t)) t (k_queues k))"
    "k_current k' = k_current k" "k_lock_nest k' = k_lock_nest k" "k_irq_nest k' = k_irq_nest k"
    "ksched.more k' = ksched.more k"
    by (rule insert_spec[OF sys_invD(1)[OF inv] t(1,2)])
  have "thread_wf k' u" for u
  proof (cases "u = t")
    case True
    then show ?thesis using sys_invD(5)[OF inv, of t] more_fields[OF k'(8)] more_preds[OF k'(8)] t(3) l
      by (simp add: thread_wf_def)
  next
    case False
    then show ?thesis using sys_invD(5)[OF inv, of u] k'(3) by (subst thread_wf_cong[OF k'(8)]) simp_all
  qed
  moreover have "cur_ok k'"
    using sys_invD(2)[OF inv] k'(3,5) by (auto simp: cur_ok_def back_stat_def)
  ultimately have "sys_inv (X - {t}) k'"
    using k'(2) sys_invD(3,4)[OF inv] more_preds[OF k'(8)] by (intro sys_invI) simp_all
  then show ?thesis using that k' by blast
qed

lemma rt_thread_suspend_ok:
  assumes inv: "sys_inv {} k" and s: "tstat k t \<in> {RT_THREAD_READY, RT_THREAD_RUNNING}"
  obtains k' where "rt_thread_suspend t k = Some (RT_EOK, k')" "sys_inv {} k'"
    "k_threads k' = (k_threads k)(t := set_stat RT_THREAD_SUSPEND (k_threads k t))"
    "k_queues k' = q_remove t (k_queues k)" "\<not> linked (k_queues k') t" "ThreadTimer t \<notin> set (k_timer_list k')"
    "k_timer_list k' = removeAll (ThreadTimer t) (k_timer_list k)" "k_timers k' = k_timers k" "due k' = due k"
    "k_current k' = k_current k" "k_lock_nest k' = k_lock_nest k" "k_irq_nest k' = k_irq_nest k"
    "k_tick k' = k_tick k" "k_obj_type k' = k_obj_type k" "ktimer.more k' = ktimer.more k"
proof -
  have w: "thread_wf k t" by (rule sys_invD(5)[OF inv])
  have live: "tstat k t \<in> {RT_THREAD_READY, RT_THREAD_RUNNING, RT_THREAD_SUSPEND}" using s by blast
  have th: "is_thread t k" "is_timer (ThreadTimer t) k" using thread_wfD(3,4)[OF w live] by auto
  have m: "mask_ok k t" by (rule live_mask[OF inv live])
  have run: "tstat k t = RT_THREAD_RUNNING \<longrightarrow> k_current k = Some t"
    using thread_okD(4) sched_invD(4)[OF sys_invD(1)[OF inv]] by blast
  have nl: "ThreadTimer t \<notin> set (k_timer_list k)" using thread_wfD(1)[OF w] s by auto
  obtain k1 where k1: "rt_schedule_remove_thread t k = Some k1" "sched_inv {t} k1"
    "k_threads k1 = k_threads k" "k_queues k1 = q_remove t (k_queues k)"
    "k_current k1 = k_current k" "k_lock_nest k1 = k_lock_nest k" "k_irq_nest k1 = k_irq_nest k"
    "ksched.more k1 = ksched.more k"
    using remove_spec[OF sys_invD(1)[OF inv] m] by metis
  define k2 where "k2 = upd_thread t (set_stat RT_THREAD_SUSPEND) k1"
  have m2: "ksched.more k2 = ksched.more k" using k1(8) by (simp add: k2_def)
  have t2: "k_threads k2 = (k_threads k)(t := set_stat RT_THREAD_SUSPEND (k_threads k t))"
    using k1(3) by (simp add: k2_def)
  have s2: "sched_inv {} k2"
  proof (rule sched_inv_subset)
    show "sched_inv {t} k2" unfolding k2_def by (rule sched_inv_upd[OF k1(2)]) simp
    have "mask_ok k2 t" using m t2 by (simp add: mask_ok_def prio_of_def)
    moreover have "\<not> linked (k_queues k2) t" using k1(4) by (simp add: k2_def)
    ultimately have "thread_ok k2 t" by (intro thread_ok_unlinked) (simp_all add: k2_def)
    then show "thread_ok k2 u" if "u \<in> {t} - {}" for u using that by simp
  qed simp
  have "thread_wf k2 u" for u
  proof (cases "u = t")
    case True
    then show ?thesis using thread_wfD(2)[OF w] thread_wfD(3-6)[OF w live] t2
      by (simp add: thread_wf_def more_fields[OF m2] more_preds[OF m2])
  next
    case False
    then show ?thesis using sys_invD(5)[OF inv, of u] t2 by (subst thread_wf_cong[OF m2]) simp_all
  qed
  moreover have "cur_ok k2" using sys_invD(2)[OF inv] t2 k1(5) by (auto simp: cur_ok_def k2_def)
  ultimately have i2: "sys_inv {} k2"
    using s2 sys_invD(3,4)[OF inv] more_preds[OF m2] by (intro sys_invI) simp_all
  have "is_timer (ThreadTimer t) k2" using th(2) more_preds[OF m2] by simp
  then obtain e k3 where k3: "rt_timer_stop (ThreadTimer t) k2 = Some (e, k3)" "sys_inv {} k3" "timer_frame k2 k3"
    "k_timer_list k3 = removeAll (ThreadTimer t) (k_timer_list k2)" "k_timers k3 = k_timers k2" "due k3 = due k2"
    using timer_stop_sys[OF i2] by metis
  note f = timer_frameD[OF k3(3)] and mf = more_fields[OF m2] and mp = more_preds[OF m2]
  have "rt_thread_suspend t k = Some (RT_EOK, k3)"
    using th(1) s run k1(1) k3(1) by (auto simp: rt_thread_suspend_def rt_thread_self_def Let_def k2_def)
  then show ?thesis
    by (rule that) (use k3 f(1-6,12,13,18) t2 k1 mf mp in \<open>simp_all add: k2_def\<close>)
qed

text \<open>Taking a suspended thread out of whatever list it waits in.\<close>

lemma unlink_sys:
  assumes inv: "sys_inv {} k" and s: "tstat k t = RT_THREAD_SUSPEND"
  shows "sys_inv {t} (k\<lparr>k_queues := q_remove t (k_queues k)\<rparr>)"
proof -
  let ?k = "k\<lparr>k_queues := q_remove t (k_queues k)\<rparr>"
  have nr: "t \<notin> set (k_queues k (Ready p))" for p
    using s sched_invD(4)[OF sys_invD(1)[OF inv], of t] by (intro not_in_ready) auto
  have "sched_inv {t} ?k" using sched_inv_unlink[OF sys_invD(1)[OF inv] nr] by simp
  moreover have m: "ksched.more ?k = ksched.more k" by simp
  moreover have "thread_wf ?k u" for u
    using sys_invD(5)[OF inv, of u] by (subst thread_wf_cong[OF m]) simp_all
  moreover have "cur_ok ?k" using sys_invD(2)[OF inv] by (simp add: cur_ok_def)
  ultimately show ?thesis
    using sys_invD(3,4)[OF inv] more_preds[OF m] by (intro sys_invI) simp_all
qed

lemma rt_thread_resume_ok:
  assumes inv: "sys_inv {} k" and s: "tstat k t = RT_THREAD_SUSPEND"
  obtains k' where "rt_thread_resume t k = Some (RT_EOK, k')" "sys_inv {} k'"
    "k_threads k' = (k_threads k)(t := set_stat (back_stat t k) (k_threads k t))"
    "k_queues k' = (if k_current k = Some t then q_remove t (k_queues k)
                    else q_push_back (Ready (prio_of k t)) t (q_remove t (k_queues k)))"
    "k_timer_list k' = removeAll (ThreadTimer t) (k_timer_list k)" "k_timers k' = k_timers k" "due k' = due k"
    "k_current k' = k_current k" "k_lock_nest k' = k_lock_nest k" "k_irq_nest k' = k_irq_nest k"
    "k_tick k' = k_tick k" "k_obj_type k' = k_obj_type k" "ktimer.more k' = ktimer.more k"
proof -
  let ?k1 = "k\<lparr>k_queues := q_remove t (k_queues k)\<rparr>"
  have w: "thread_wf k t" by (rule sys_invD(5)[OF inv])
  have live: "tstat k t \<in> {RT_THREAD_READY, RT_THREAD_RUNNING, RT_THREAD_SUSPEND}" using s by simp
  have m1: "ksched.more ?k1 = ksched.more k" by simp
  have i1: "sys_inv {t} ?k1" by (rule unlink_sys[OF inv s])
  have "is_timer (ThreadTimer t) ?k1" using thread_wfD(4)[OF w live] more_preds[OF m1] by simp
  then obtain e k2 where k2: "rt_timer_stop (ThreadTimer t) ?k1 = Some (e, k2)" "sys_inv {t} k2"
    "timer_frame ?k1 k2" "k_timer_list k2 = removeAll (ThreadTimer t) (k_timer_list ?k1)"
    "k_timers k2 = k_timers ?k1" "due k2 = due ?k1"
    using timer_stop_sys[OF i1] by metis
  note f = timer_frameD[OF k2(3)]
  have m2: "mask_ok k2 t" using live_mask[OF inv live] f(1) by (simp add: mask_ok_def prio_of_def)
  have s2: "tstat k2 t = RT_THREAD_SUSPEND" using s f(1) by simp
  have l2: "ThreadTimer t \<notin> set (k_timer_list k2)" using k2(4) by simp
  obtain k3 where k3: "rt_schedule_insert_thread t k2 = Some k3" "sys_inv ({t} - {t}) k3"
    "k_threads k3 = (k_threads k2)(t := set_stat (back_stat t k2) (k_threads k2 t))"
    "k_queues k3 = (if k_current k2 = Some t then k_queues k2 else q_push_back (Ready (prio_of k2 t)) t (k_queues k2))"
    "k_current k3 = k_current k2" "k_lock_nest k3 = k_lock_nest k2" "k_irq_nest k3 = k_irq_nest k2"
    "ksched.more k3 = ksched.more k2"
    by (rule insert_sys[OF k2(2) _ m2 s2 l2]) simp_all
  have "rt_thread_resume t k = Some (RT_EOK, k3)"
    using thread_wfD(3)[OF w live] s k2(1) k3(1) by (simp add: rt_thread_resume_def Let_def)
  moreover have "back_stat t k2 = back_stat t k" using f(4) by (simp add: back_stat_def)
  moreover have "prio_of k2 t = prio_of k t" using f(1) by (simp add: prio_of_def)
  moreover have "due ?k1 = due k" by (rule more_preds[OF m1])
  ultimately show ?thesis
    by (intro that[of k3]) (use k2 k3 f(1-6,12,13,18) more_fields[OF k3(8)] more_preds[OF k3(8)] in simp_all)
qed

lemma rt_thread_resume_other:
  "is_thread t k \<Longrightarrow> tstat k t \<noteq> RT_THREAD_SUSPEND \<Longrightarrow> rt_thread_resume t k = Some (- RT_ERROR, k)"
  by (simp add: rt_thread_resume_def)

lemma rt_thread_timeout_ok:
  assumes inv: "sys_inv {} k" and s: "tstat k t = RT_THREAD_SUSPEND" and l: "ThreadTimer t \<notin> set (k_timer_list k)"
  obtains k1 k' where "rt_thread_timeout t k = Some k'" "sys_inv {} k'" "sched_frame k1 k'"
    "k_threads k1 = (k_threads k)(t := set_stat (back_stat t k) ((k_threads k t)\<lparr>th_error := - RT_ETIMEOUT\<rparr>))"
    "k_queues k1 = (if k_current k = Some t then q_remove t (k_queues k)
                    else q_push_back (Ready (prio_of k t)) t (q_remove t (k_queues k)))"
    "k_current k1 = k_current k" "k_lock_nest k1 = k_lock_nest k" "k_irq_nest k1 = k_irq_nest k"
    "ksched.more k' = ksched.more k" "th_error (k_threads k' t) = - RT_ETIMEOUT"
    "tstat k' t \<in> {RT_THREAD_READY, RT_THREAD_RUNNING}"
proof -
  let ?e = "\<lambda>th. th\<lparr>th_error := - RT_ETIMEOUT\<rparr>"
  let ?k0 = "upd_thread t ?e k"
  let ?k1 = "?k0\<lparr>k_queues := q_remove t (k_queues ?k0)\<rparr>"
  have live: "tstat k t \<in> {RT_THREAD_READY, RT_THREAD_RUNNING, RT_THREAD_SUSPEND}" using s by simp
  have st: "stat_of (?e th) = stat_of th" for th by (simp add: stat_of_def)
  have i0: "sys_inv {} ?k0" using inv by (subst upd_thread_sys_inv) (simp_all add: st)
  have "tstat ?k0 t = RT_THREAD_SUSPEND" using s by (simp add: st)
  then have i1: "sys_inv {t} ?k1" by (rule unlink_sys[OF i0])
  have m1: "mask_ok ?k1 t" using live_mask[OF inv live] by (simp add: mask_ok_def prio_of_def)
  have mo: "ksched.more ?k1 = ksched.more k" by simp
  have l1: "ThreadTimer t \<notin> set (k_timer_list ?k1)" using l more_fields[OF mo] by simp
  have s1: "tstat ?k1 t = RT_THREAD_SUSPEND" using s by (simp add: st)
  obtain k3 where k3: "rt_schedule_insert_thread t ?k1 = Some k3" "sys_inv ({t} - {t}) k3"
    "k_threads k3 = (k_threads ?k1)(t := set_stat (back_stat t ?k1) (k_threads ?k1 t))"
    "k_queues k3 = (if k_current ?k1 = Some t then k_queues ?k1 else q_push_back (Ready (prio_of ?k1 t)) t (k_queues ?k1))"
    "k_current k3 = k_current ?k1" "k_lock_nest k3 = k_lock_nest ?k1" "k_irq_nest k3 = k_irq_nest ?k1"
    "ksched.more k3 = ksched.more ?k1"
    by (rule insert_sys[OF i1 _ m1 s1 l1]) simp_all
  have i3: "sys_inv {} k3" using k3(2) by simp
  obtain k' where k': "rt_schedule k3 = Some k'" "sys_inv {} k'" "sched_frame k3 k'" "ksched.more k' = ksched.more k3"
    by (rule schedule_sys[OF i3])
  have th: "is_thread t k" by (rule thread_wfD(3)[OF sys_invD(5)[OF inv] live])
  have mo0: "ksched.more ?k0 = ksched.more k" by simp
  have "rt_thread_timeout t k = Some k'"
    using th s k3(1) k'(1) by (simp add: rt_thread_timeout_def Let_def)
  moreover have "back_stat t ?k1 = back_stat t k" by (simp add: back_stat_def)
  moreover have "prio_of ?k1 t = prio_of k t" by (simp add: prio_of_def)
  moreover have "th_error (k_threads k' t) = - RT_ETIMEOUT" using frame_stat(4)[OF k'(3), of t] k3(3) by simp
  moreover have "tstat k3 t \<in> {RT_THREAD_READY, RT_THREAD_RUNNING}" using k3(3) by (simp add: back_stat_def)
  then have "tstat k' t \<in> {RT_THREAD_READY, RT_THREAD_RUNNING}" using frame_stat(3)[OF k'(3), of t] by blast
  ultimately show ?thesis
    by (intro that[of k' k3]) (use k' k3 in simp_all)
qed

section \<open>Changing a priority\<close>

lemma change_priority_fields [simp]:
  "th_stat (change_priority p th) = th_stat th" "stat_of (change_priority p th) = stat_of th"
  "th_current_priority (change_priority p th) = p" "th_error (change_priority p th) = th_error th"
  "th_number_mask (change_priority p th) = prio_mask (unat p)"
  by (simp_all add: change_priority_def stat_of_def prio_mask_def)

lemma rt_thread_control_priority_ok:
  assumes inv: "sys_inv {} k" and p: "unat p < RT_THREAD_PRIORITY_MAX"
    and live: "tstat k t \<in> {RT_THREAD_READY, RT_THREAD_RUNNING, RT_THREAD_SUSPEND}"
  obtains k' where "rt_thread_control t RT_THREAD_CTRL_CHANGE_PRIORITY p k = Some (RT_EOK, k')" "sys_inv {} k'"
    "th_current_priority (k_threads k' t) = p" "\<forall>u. u \<noteq> t \<longrightarrow> k_threads k' u = k_threads k u"
    "\<forall>u. tstat k' u = tstat k u \<and> th_error (k_threads k' u) = th_error (k_threads k u)"
    "\<forall>l. (\<forall>q. l \<noteq> Ready q) \<longrightarrow> k_queues k' l = k_queues k l"
    "k_current k' = k_current k" "k_lock_nest k' = k_lock_nest k" "k_irq_nest k' = k_irq_nest k"
    "ksched.more k' = ksched.more k"
proof -
  have si: "sched_inv {} k" by (rule sys_invD(1)[OF inv])
  have ok: "thread_ok k t" using sched_invD(4)[OF si] by simp
  have th: "is_thread t k" by (rule thread_wfD(3)[OF sys_invD(5)[OF inv] live])
  show ?thesis
  proof (cases "tstat k t = RT_THREAD_READY")
    case True
    have tr: "t \<in> set (k_queues k (Ready (prio_of k t)))" by (rule thread_okD(3)[OF ok True])
    have m: "mask_ok k t" by (rule live_mask[OF inv live])
    obtain k1 where k1: "rt_schedule_remove_thread t k = Some k1" "sched_inv {t} k1"
      "k_threads k1 = k_threads k" "k_queues k1 = q_remove t (k_queues k)"
      "k_current k1 = k_current k" "k_lock_nest k1 = k_lock_nest k" "k_irq_nest k1 = k_irq_nest k"
      "ksched.more k1 = ksched.more k"
      using remove_spec[OF si m] by metis
    define k2 where "k2 = upd_thread t (change_priority p) k1"
    have s2: "sched_inv {t} k2" unfolding k2_def by (rule sched_inv_upd[OF k1(2)]) simp
    have m2: "mask_ok k2 t" using p by (simp add: mask_ok_def prio_of_def k2_def)
    have nc: "k_current k \<noteq> Some t" using sys_invD(2)[OF inv] True by (auto simp: cur_ok_def)
    obtain k3 where k3: "rt_schedule_insert_thread t k2 = Some k3" "sched_inv ({t} - {t}) k3"
      "k_threads k3 = (k_threads k2)(t := set_stat (back_stat t k2) (k_threads k2 t))"
      "k_queues k3 = (if k_current k2 = Some t then k_queues k2 else q_push_back (Ready (prio_of k2 t)) t (k_queues k2))"
      "k_current k3 = k_current k2" "k_lock_nest k3 = k_lock_nest k2" "k_irq_nest k3 = k_irq_nest k2"
      "ksched.more k3 = ksched.more k2"
      by (rule insert_spec[OF s2 _ m2]) simp_all
    have mo: "ksched.more k3 = ksched.more k" using k3(8) k1(8) by (simp add: k2_def)
    have st: "tstat k3 u = tstat k u" for u
      using k3(3) k1(3,5) nc True by (simp add: k2_def back_stat_def)
    have q: "k_queues k3 l = k_queues k l" if "\<forall>q. l \<noteq> Ready q" for l
    proof -
      have "t \<notin> set (k_queues k l)"
        using lists_ok_unique[OF sched_invD(1)[OF si] tr, of l] that by auto
      then show ?thesis using k3(4) k1(4) that by (simp add: k2_def)
    qed
    have "thread_wf k3 u" for u
      using sys_invD(5)[OF inv, of u] by (subst thread_wf_cong[OF mo st])
    moreover have "cur_ok k3" using sys_invD(2)[OF inv] st k3(5) k1(5) by (simp add: cur_ok_def k2_def)
    ultimately have i3: "sys_inv {} k3"
      using k3(2) sys_invD(3,4)[OF inv] more_preds(1,2)[OF mo] by (intro sys_invI) simp_all
    have run: "rt_thread_control t RT_THREAD_CTRL_CHANGE_PRIORITY p k = Some (RT_EOK, k3)"
      using th True k1(1) k3(1) by (simp add: rt_thread_control_def k2_def Let_def)
    show ?thesis
      by (rule that[OF run i3]) (use k3 k1 st q mo in \<open>simp_all add: k2_def\<close>)
  next
    case False
    let ?k = "upd_thread t (change_priority p) k"
    have mo: "ksched.more ?k = ksched.more k" by simp
    have st: "tstat ?k u = tstat k u" for u by simp
    have lk: "thread_ok ?k u" for u
    proof (cases "u = t")
      case True
      have nr: "t \<notin> set (k_queues k (Ready q))" for q by (rule not_in_ready[OF ok False])
      have m: "mask_ok ?k t" using p by (simp add: mask_ok_def prio_of_def)
      show ?thesis unfolding True thread_ok_def st
        using nr m False thread_okD(4,5,7-9)[OF ok] by auto
    next
      case u: False
      have "thread_ok k u" using sched_invD(4)[OF si] by simp
      then show ?thesis using u by (subst thread_ok_cong[of ?k u k]) simp_all
    qed
    have "sched_inv {} ?k"
      using sched_invD(1,2)[OF si] lk by (intro sched_invI) (simp_all add: group_ok_def)
    moreover have "thread_wf ?k u" for u
      using sys_invD(5)[OF inv, of u] by (subst thread_wf_cong[OF mo st])
    moreover have "cur_ok ?k" using sys_invD(2)[OF inv] by (auto simp: cur_ok_def)
    ultimately have i: "sys_inv {} ?k"
      using sys_invD(3,4)[OF inv] more_preds(1,2)[OF mo] by (intro sys_invI) simp_all
    have run: "rt_thread_control t RT_THREAD_CTRL_CHANGE_PRIORITY p k = Some (RT_EOK, ?k)"
      using th False by (simp add: rt_thread_control_def)
    show ?thesis by (rule that[OF run i]) simp_all
  qed
qed

section \<open>Sleeping\<close>

text \<open>Arming the timer of a suspended thread, as every blocking call with a timeout does.\<close>

definition arm_timer :: "nat \<Rightarrow> u32 \<Rightarrow> 'a ktimer_scheme \<Rightarrow> 'a ktimer_scheme option" where
  "arm_timer t tick k = do {
     (_, _, k1) \<leftarrow> rt_timer_control (ThreadTimer t) RT_TIMER_CTRL_SET_TIME tick k;
     (_, k2) \<leftarrow> rt_timer_start (ThreadTimer t) k1;
     Some k2
   }"

definition on_time :: "'a ktimer_scheme \<Rightarrow> bool" where
  "on_time k \<longleftrightarrow> (\<forall>u \<in> set (k_timer_list k). 0 \<le> due k u)"

lemma arm_timer_ok:
  assumes inv: "sys_inv X k" and s: "tstat k t = RT_THREAD_SUSPEND" and n: "n < 0x7fffffff"
  obtains k' where "arm_timer t n k = Some k'" "sys_inv X k'" "timer_frame k k'"
    "ThreadTimer t \<in> set (k_timer_list k')" "due k' (ThreadTimer t) = uint n"
    "set (k_timer_list k') = insert (ThreadTimer t) (set (k_timer_list k))"
    "\<forall>u. u \<noteq> ThreadTimer t \<longrightarrow> due k' u = due k u" "on_time k \<Longrightarrow> on_time k'"
proof -
  let ?t = "ThreadTimer t"
  have w: "thread_wf k t" by (rule sys_invD(5)[OF inv])
  have live: "tstat k t \<in> {RT_THREAD_READY, RT_THREAD_RUNNING, RT_THREAD_SUSPEND}" using s by simp
  have ty: "is_timer ?t k" by (rule thread_wfD(4)[OF w live])
  define k1 where "k1 = upd_timer ?t (\<lambda>tm. tm\<lparr>tm_init_tick := n\<rparr>) k"
  have f1: "timer_frame k k1" unfolding k1_def by (intro timer_frame_upd timer_frame_refl)
  have i1: "timer_inv k1" using sys_invD(3)[OF inv] by (simp add: k1_def timer_inv_set_time)
  have d1: "due k1 = due k" by (simp add: k1_def due_def fun_eq_iff)
  have ty1: "is_timer ?t k1" using ty by (simp add: k1_def)
  have n1: "tm_init_tick (k_timers k1 ?t) < 0x7fffffff" using n by (simp add: k1_def)
  obtain k2 where k2: "rt_timer_start ?t k1 = Some (RT_EOK, k2)" "timer_inv k2" "timer_frame k1 k2"
    "k_timer_list k2 = filter (\<lambda>u. due k1 u \<le> uint (tm_init_tick (k_timers k1 ?t))) (removeAll ?t (k_timer_list k1)) @
       ?t # filter (\<lambda>u. uint (tm_init_tick (k_timers k1 ?t)) < due k1 u) (removeAll ?t (k_timer_list k1))"
    "k_timers k2 = (k_timers k1)(?t := (k_timers k1 ?t)\<lparr>tm_timeout_tick := k_tick k1 + tm_init_tick (k_timers k1 ?t)\<rparr>)"
    "timer_flag ?t k2 = timer_flag ?t k1 OR RT_TIMER_FLAG_ACTIVATED" "\<forall>u. u \<noteq> ?t \<longrightarrow> timer_flag u k2 = timer_flag u k1"
    "due k2 ?t = uint (tm_init_tick (k_timers k1 ?t))" "\<forall>u. u \<noteq> ?t \<longrightarrow> due k2 u = due k1 u"
    by (rule rt_timer_start_ok[OF i1 ty1 n1])
  have fr: "timer_frame k k2" by (rule timer_frame_trans[OF f1 k2(3)])
  note f = timer_frameD[OF fr]
  have st: "set (k_timer_list k2) = insert ?t (set (k_timer_list k))" unfolding k2(4) by (auto simp: k1_def)
  have p: "periodic v k2 = periodic v k" for v
  proof -
    have "timer_flag v k1 = timer_flag v k" by (simp add: k1_def)
    then show ?thesis using k2(6,7) by (cases "v = ?t") (simp_all add: periodic_def)
  qed
  have tm: "tm_func (k_timers k2 v) = tm_func (k_timers k v)" "tm_param (k_timers k2 v) = tm_param (k_timers k v)" for v
    using k2(5) by (simp_all add: k1_def)
  have "thread_wf k2 v" for v
    using sys_invD(5)[OF inv, of v] f(1) f(14) f(16) s p tm st by (auto simp: thread_wf_def is_thread_def)
  moreover have "periods_ok k2"
  proof -
    have "tm_init_tick (k_timers k2 v) = tm_init_tick (k_timers k v)" if "v \<noteq> ?t" for v
      using that k2(5) by (simp add: k1_def)
    moreover have "\<not> periodic ?t k" by (rule thread_wfD(2)[OF w])
    ultimately have "periodic v k2 \<longrightarrow> 0 < tm_init_tick (k_timers k2 v) \<and> tm_init_tick (k_timers k2 v) < 0x7fffffff" for v
      using sys_invD(4)[OF inv] p unfolding periods_ok_def by metis
    then show ?thesis using sys_invD(4)[OF inv] tm(1) by (simp add: periods_ok_def)
  qed
  ultimately have i2: "sys_inv X k2" using sys_invD(1,2)[OF inv] f(7,8) k2(2)
    by (intro sys_invI) simp_all
  have "arm_timer t n k = Some k2"
    using rt_timer_set_time_ok[OF ty] k2(1) by (simp add: arm_timer_def k1_def)
  moreover have dt: "due k2 ?t = uint n" using k2(8) by (simp add: k1_def)
  moreover have "on_time k2" if "on_time k"
    using that st dt k2(9) d1 unfolding on_time_def by (metis insert_iff uint_ge_0)
  ultimately show ?thesis using that[of k2] i2 fr st k2(9) d1 by simp
qed

lemma rt_thread_sleep_arm:
  "rt_thread_sleep tick k = do {
     t \<leftarrow> rt_thread_self k;
     rt_assert (is_thread t k);
     (_, k1) \<leftarrow> rt_thread_suspend t k;
     k2 \<leftarrow> arm_timer t tick k1;
     rt_schedule k2 }"
  by (simp add: rt_thread_sleep_def arm_timer_def case_prod_unfold)

lemma on_time_frame:
  "k_timer_list k' = removeAll u (k_timer_list k) \<Longrightarrow> due k' = due k \<Longrightarrow> on_time k \<Longrightarrow> on_time k'"
  by (simp add: on_time_def)

lemma rt_thread_sleep_ok:
  assumes inv: "sys_inv {} k" and c: "k_current k = Some t" "tstat k t = RT_THREAD_RUNNING"
    and n: "n < 0x7fffffff" and o: "on_time k"
  obtains k' where "rt_thread_sleep n k = Some k'" "sys_inv {} k'" "on_time k'"
    "tstat k' t = RT_THREAD_SUSPEND" "ThreadTimer t \<in> set (k_timer_list k')"
    "due k' (ThreadTimer t) = uint n" "\<not> linked (k_queues k') t"
    "set (k_timer_list k') = insert (ThreadTimer t) (set (k_timer_list k))"
    "k_tick k' = k_tick k"
proof -
  have rs: "tstat k t \<in> {RT_THREAD_READY, RT_THREAD_RUNNING}" using c by simp
  have live: "tstat k t \<in> {RT_THREAD_READY, RT_THREAD_RUNNING, RT_THREAD_SUSPEND}" using c by simp
  obtain k1 where k1: "rt_thread_suspend t k = Some (RT_EOK, k1)" "sys_inv {} k1"
    "k_threads k1 = (k_threads k)(t := set_stat RT_THREAD_SUSPEND (k_threads k t))"
    "k_queues k1 = q_remove t (k_queues k)" "\<not> linked (k_queues k1) t" "ThreadTimer t \<notin> set (k_timer_list k1)"
    "k_timer_list k1 = removeAll (ThreadTimer t) (k_timer_list k)" "k_timers k1 = k_timers k" "due k1 = due k"
    "k_current k1 = k_current k" "k_lock_nest k1 = k_lock_nest k" "k_irq_nest k1 = k_irq_nest k"
    "k_tick k1 = k_tick k" "k_obj_type k1 = k_obj_type k" "ktimer.more k1 = ktimer.more k"
    by (rule rt_thread_suspend_ok[OF inv rs])
  have s1: "tstat k1 t = RT_THREAD_SUSPEND" using k1(3) by simp
  obtain k2 where k2: "arm_timer t n k1 = Some k2" "sys_inv {} k2" "timer_frame k1 k2"
    "ThreadTimer t \<in> set (k_timer_list k2)" "due k2 (ThreadTimer t) = uint n"
    "set (k_timer_list k2) = insert (ThreadTimer t) (set (k_timer_list k1))" "on_time k1 \<Longrightarrow> on_time k2"
    using arm_timer_ok[OF k1(2) s1 n] by metis
  note f = timer_frameD[OF k2(3)]
  obtain k3 where k3: "rt_schedule k2 = Some k3" "sys_inv {} k3" "sched_frame k2 k3" "ksched.more k3 = ksched.more k2"
    by (rule schedule_sys[OF k2(2)])
  have th: "is_thread t k" by (rule thread_wfD(3)[OF sys_invD(5)[OF inv] live])
  have "rt_thread_sleep n k = Some k3"
    unfolding rt_thread_sleep_arm using c th k1(1) k2(1) k3(1) by (simp add: rt_thread_self_def)
  moreover have "k_threads k3 t = k_threads k2 t"
    by (rule frame_stat(2)[OF k3(3)]) (use s1 f(1) in simp)
  then have "tstat k3 t = RT_THREAD_SUSPEND" using s1 f(1) by simp
  moreover have "\<not> linked (k_queues k3) t"
  proof -
    have "k_queues k3 l = k_queues k2 l" if "\<forall>p. l \<noteq> Ready p" for l
      using k3(3) that by (cases l) (auto simp: sched_frame_def)
    moreover have "t \<notin> set (k_queues k3 (Ready p))" for p
      using \<open>tstat k3 t = RT_THREAD_SUSPEND\<close> sched_invD(4)[OF sys_invD(1)[OF k3(2)], of t]
      by (intro not_in_ready) auto
    moreover have "t \<notin> set (k_queues k2 l)" for l using k1(5) f(2) by (simp add: linked_def)
    ultimately have "t \<notin> set (k_queues k3 l)" for l by (metis)
    then show ?thesis by (simp add: linked_def)
  qed
  moreover have "on_time k3"
    using k2(7)[OF on_time_frame[OF k1(7,9) o]] more_fields[OF k3(4)] more_preds[OF k3(4)] by (simp add: on_time_def)
  ultimately show ?thesis
    by (intro that[of k3]) (use k3 k2 k1 f more_fields[OF k3(4)] more_preds[OF k3(4)] in auto)
qed

section \<open>The tick interrupt keeps the invariant\<close>

text \<open>
  What the kernel asks of the application's timeout functions: from a good state they return to
  a good state, do not advance the tick, start no timer that is due at once, and the function
  of a timer neither detaches it while it is periodic nor starts it again while it is one-shot.
\<close>

locale user_timeouts =
  fixes user :: "nat \<Rightarrow> nat \<Rightarrow> 'a ktimer_scheme \<Rightarrow> 'a ktimer_scheme option"
  assumes user_ok: "sys_inv {} k \<Longrightarrow> \<exists>k'. user f p k = Some k' \<and> sys_inv {} k' \<and> k_tick k' = k_tick k \<and>
      due_now k' \<subseteq> due_now k \<and>
      (\<forall>u. u \<notin> set (k_timer_list k) \<and> is_timer u k \<and> tm_func (k_timers k u) = UserFn f \<and> tm_param (k_timers k u) = p \<longrightarrow>
        (periodic u k' \<and> timer_flag u k' AND RT_TIMER_FLAG_ACTIVATED \<noteq> 0 \<longrightarrow> is_timer u k') \<and>
        (\<not> periodic u k' \<longrightarrow> u \<notin> set (k_timer_list k')))"
begin

end

lemma timer_remove_sys:
  assumes "sys_inv X k" shows "sys_inv X (timer_remove u k)"
proof -
  have f: "timer_frame k (timer_remove u k)" by (intro timer_frame_upd timer_frame_refl)
  have "thread_wf (timer_remove u k) t" for t
    using sys_invD(5)[OF assms, of t] timer_frameD(1,14,16)[OF f]
    by (auto simp: thread_wf_def is_thread_def periodic_def)
  then show ?thesis
    using sys_invD[OF assms] timer_frameD(7,8)[OF f] timer_inv_remove[of k u]
    by (intro sys_invI) (simp_all add: periods_ok_def periodic_def)
qed

lemma timer_finish_threads:
  assumes inv: "threads_inv {} k" "timer_inv k" and fin: "timer_finish u k = Some k'" and i': "timer_inv k'"
  shows "threads_inv {} k'"
proof -
  have w: "thread_wf k t" for t using inv(1) by (simp add: threads_inv_def)
  show ?thesis
  proof (cases "periodic u k \<and> timer_flag u k AND RT_TIMER_FLAG_ACTIVATED \<noteq> 0")
    case True
    have "\<exists>e. rt_timer_start u k = Some (e, k')"
      using fin True start_clear[of u k] by (auto simp: timer_finish_def periodic_def)
    then have st: "is_timer u k" "tm_init_tick (k_timers k u) < 0x7fffffff" and e: "\<exists>e. rt_timer_start u k = Some (e, k')"
      by (auto simp: rt_timer_start_def half_tick Let_def split: bind_splits)
    obtain k2 where k2: "rt_timer_start u k = Some (RT_EOK, k2)" "timer_inv k2" "timer_frame k k2"
      "k_timer_list k2 = filter (\<lambda>v. due k v \<le> uint (tm_init_tick (k_timers k u))) (removeAll u (k_timer_list k)) @
         u # filter (\<lambda>v. uint (tm_init_tick (k_timers k u)) < due k v) (removeAll u (k_timer_list k))"
      "k_timers k2 = (k_timers k)(u := (k_timers k u)\<lparr>tm_timeout_tick := k_tick k + tm_init_tick (k_timers k u)\<rparr>)"
      "timer_flag u k2 = timer_flag u k OR RT_TIMER_FLAG_ACTIVATED" "\<forall>v. v \<noteq> u \<longrightarrow> timer_flag v k2 = timer_flag v k"
      "due k2 u = uint (tm_init_tick (k_timers k u))" "\<forall>v. v \<noteq> u \<longrightarrow> due k2 v = due k v"
      by (rule rt_timer_start_ok[OF inv(2) st])
    have kk: "k' = k2" using e k2(1) by simp
    have p: "periodic v k2 = periodic v k" for v
      using k2(6,7) by (cases "v = u") (simp_all add: periodic_def)
    have nt: "u \<noteq> ThreadTimer t" for t using True thread_wfD(2)[OF w] by metis
    have l: "ThreadTimer t \<in> set (k_timer_list k2) \<longleftrightarrow> ThreadTimer t \<in> set (k_timer_list k)" for t
      using nt[of t] unfolding k2(4) by auto
    have "thread_wf k2 t" for t
      using w[of t] timer_frameD(1,14,16)[OF k2(3)] p l[of t] k2(5) nt[of t]
      by (simp add: thread_wf_def is_thread_def)
    then show ?thesis using inv(1) timer_frameD(7,8)[OF k2(3)] by (simp add: threads_inv_def kk)
  next
    case False
    let ?k = "set_timer_flag u (timer_flag u k AND NOT RT_TIMER_FLAG_ACTIVATED) k"
    have kk: "k' = ?k" using fin False by (auto simp: timer_finish_def periodic_def Let_def split: if_splits)
    have f: "timer_frame k ?k" by (intro timer_frame_upd timer_frame_refl)
    have "thread_wf ?k t" for t
      using w[of t] timer_frameD(1,14,16)[OF f] by (auto simp: thread_wf_def is_thread_def periodic_def)
    then show ?thesis using inv(1) timer_frameD(7,8)[OF f] by (simp add: threads_inv_def kk)
  qed
qed

sublocale user_timeouts \<subseteq> timeout_handlers "timeout_call user" "threads_inv {}"
proof
  fix k :: "'a ktimer_scheme" and t ts
  assume a: "threads_inv {} k" "timer_inv k" "periods_ok k" "k_timer_list k = t # ts" "due k t \<le> 0"
  let ?k = "timer_remove t k"
  have sk: "sys_inv {} k" using a by (simp add: sys_inv_def)
  have s: "sys_inv {} ?k" by (rule timer_remove_sys[OF sk])
  have dn: "due_now ?k = due_now k - {t}" by (auto simp: due_now_def)
  show "\<exists>k'. timeout_call user (tm_func (k_timers k t)) (tm_param (k_timers k t)) ?k = Some k' \<and>
        threads_inv {} k' \<and> timer_inv k' \<and> periods_ok k' \<and> k_tick k' = k_tick k \<and>
        due_now k' \<subseteq> due_now k - {t} \<and>
        (periodic t k' \<and> timer_flag t k' AND RT_TIMER_FLAG_ACTIVATED \<noteq> 0 \<longrightarrow> is_timer t k') \<and>
        (\<not> periodic t k' \<longrightarrow> t \<notin> set (k_timer_list k'))"
  proof (cases "tm_func (k_timers k t)")
    case (UserFn f)
    obtain k' where k': "user f (tm_param (k_timers k t)) ?k = Some k'" "sys_inv {} k'" "k_tick k' = k_tick ?k"
      "due_now k' \<subseteq> due_now ?k"
      "periodic t k' \<and> timer_flag t k' AND RT_TIMER_FLAG_ACTIVATED \<noteq> 0 \<longrightarrow> is_timer t k'"
      "\<not> periodic t k' \<longrightarrow> t \<notin> set (k_timer_list k')"
      using user_ok[OF s, of f "tm_param (k_timers k t)"] UserFn a(2,4) by (auto simp: timer_inv_def)
    then show ?thesis using UserFn dn by (simp add: timeout_call_def sys_inv_def)
  next
    case ThreadTimeout
    then obtain p where p: "t = ThreadTimer p" using a(3) by (cases t) (auto simp: periods_ok_def)
    have w: "thread_wf k p" by (rule sys_invD(5)[OF sk])
    have su: "tstat k p = RT_THREAD_SUSPEND" using thread_wfD(1)[OF w] a(4) p by simp
    then have pa: "tm_param (k_timers k t) = p" using thread_wfD(6)[OF w] p by simp
    have f: "timer_frame k ?k" by (intro timer_frame_upd timer_frame_refl)
    have su': "tstat ?k p = RT_THREAD_SUSPEND" using su timer_frameD(1)[OF f] by simp
    have np: "ThreadTimer p \<notin> set (k_timer_list ?k)" using p by simp
    obtain k' where k': "rt_thread_timeout p ?k = Some k'" "sys_inv {} k'" "ksched.more k' = ksched.more ?k"
      using rt_thread_timeout_ok[OF s su' np] by metis
    note m = more_fields[OF k'(3)] more_preds[OF k'(3)]
    have "\<not> periodic t k'" using m(16) thread_wfD(2)[OF w] p by (simp add: periodic_def)
    then show ?thesis using k' m ThreadTimeout pa dn
      by (simp add: timeout_call_def sys_inv_def)
  qed
next
  fix k k' :: "'a ktimer_scheme" and t
  assume "threads_inv {} k" "timer_inv k" "timer_finish t k = Some k'" "timer_inv k'"
  then show "threads_inv {} k'" by (rule timer_finish_threads)
qed

text \<open>One tick earlier or later.\<close>

lemma sint_minus_one:
  fixes w :: u32
  assumes "- 2147483648 < sint w" shows "sint (w - 1) = sint w - 1"
proof -
  have "w - 1 = of_int (sint w - 1)" by simp
  then have "sint (w - 1) = signed_take_bit 31 (sint w - 1)" 
    using sint_sbintrunc'[where 'a = 32 and bin = "sint w - 1"] by simp
  also have "\<dots> = sint w - 1"
    using assms sint_lt[of w] by (intro signed_take_bit_int_eq_self) simp_all
  finally show ?thesis .
qed

lemma tick_due:
  assumes "timer_inv k" "t \<in> set (k_timer_list k)"
  shows "due (k\<lparr>k_tick := k_tick k + 1\<rparr>) t = due k t - 1"
proof -
  have e: "tm_timeout_tick (k_timers k t) - (k_tick k + 1) = tm_timeout_tick (k_timers k t) - k_tick k - 1" by simp
  have "- 2147483648 < due k t" using assms by (auto simp: timer_inv_def)
  then show ?thesis using sint_minus_one[of "tm_timeout_tick (k_timers k t) - k_tick k"]
    unfolding due_def by (simp del: diff_diff_eq add: e)
qed

lemma tick_sys:
  assumes inv: "sys_inv X k" and o: "on_time k"
  shows "sys_inv X (k\<lparr>k_tick := k_tick k + 1\<rparr>)"
proof -
  let ?k = "k\<lparr>k_tick := k_tick k + 1\<rparr>"
  have ti: "timer_inv k" by (rule sys_invD(3)[OF inv])
  have d: "due ?k t = due k t - 1" if "t \<in> set (k_timer_list k)" for t using tick_due[OF ti that] .
  have s: "sorted (map (due ?k) (k_timer_list k))"
  proof -
    have "map (due ?k) (k_timer_list k) = map (\<lambda>x. x - 1) (map (due k) (k_timer_list k))" using d by simp
    moreover have "sorted (map (\<lambda>x :: int. x - 1) xs)" if "sorted xs" for xs
      using that by (induction xs) auto
    moreover have "sorted (map (due k) (k_timer_list k))" using ti by (simp add: timer_inv_def)
    ultimately show ?thesis by metis
  qed
  have "timer_inv ?k" unfolding timer_inv_def
  proof (intro conjI ballI)
    show "distinct (k_timer_list ?k)" using ti by (simp add: timer_inv_def)
    show "sorted (map (due ?k) (k_timer_list ?k))" using s by simp
    fix t assume "t \<in> set (k_timer_list ?k)"
    then have t: "t \<in> set (k_timer_list k)" by simp
    show "- 3 \<le> due ?k t" "due ?k t < max_due" using t ti o d[OF t] by (auto simp: timer_inv_def on_time_def)
    show "is_timer t ?k" "timer_flag t ?k AND RT_TIMER_FLAG_ACTIVATED \<noteq> 0"
      using t ti by (simp_all add: timer_inv_def is_timer_def timer_flag_def rt_object_get_type_def)
  qed
  moreover have tr: "ksched.truncate ?k = ksched.truncate k" by (simp add: ksched.truncate_def)
  moreover have "thread_wf ?k t" for t using sys_invD(5)[OF inv, of t]
    by (simp add: thread_wf_def is_thread_def is_timer_def rt_object_get_type_def periodic_def timer_flag_def)
  moreover have "periods_ok ?k" using sys_invD(4)[OF inv] by (simp add: periods_ok_def periodic_def timer_flag_def)
  ultimately show ?thesis using sys_invD(1,2)[OF inv] truncate_inv[OF tr] by (intro sys_invI) simp_all
qed

text \<open>The part of \<open>rt_tick_increase\<close> before the timers: the tick and the time slice.\<close>

lemma tick_slice:
  assumes inv: "sys_inv {} k" and o: "on_time k"
  obtains k3 where "rt_tick_increase user k = rt_timer_check (timeout_call user) k3" "sys_inv {} k3"
    "ksched.more k3 = ksched.more (k\<lparr>k_tick := k_tick k + 1\<rparr>)"
proof -
  let ?k1 = "k\<lparr>k_tick := k_tick k + 1\<rparr>"
  have i1: "sys_inv {} ?k1" by (rule tick_sys[OF inv o])
  obtain t where t: "k_current k = Some t" using sys_invD(2)[OF inv] by (auto simp: cur_ok_def)
  let ?dec = "\<lambda>th. th\<lparr>th_remaining_tick := th_remaining_tick th - 1\<rparr>"
  let ?ini = "\<lambda>th. th\<lparr>th_remaining_tick := th_init_tick th\<rparr>"
  let ?k2 = "upd_thread t ?dec ?k1"
  have i2: "sys_inv {} ?k2" using i1 by (subst upd_thread_sys_inv) (simp_all add: stat_of_def)
  have i2': "sys_inv {} (upd_thread t ?ini ?k2)" using i2 by (subst upd_thread_sys_inv) (simp_all add: stat_of_def)
  obtain k3 where k3: "(if th_remaining_tick (k_threads ?k2 t) = 0
      then map_option snd (rt_thread_yield (upd_thread t ?ini ?k2)) else Some ?k2) = Some k3"
    "sys_inv {} k3" "ksched.more k3 = ksched.more ?k1"
  proof (cases "th_remaining_tick (k_threads ?k2 t) = 0")
    case True
    obtain k4 where k4: "rt_schedule (upd_thread t ?ini ?k2) = Some k4" "sys_inv {} k4"
      "ksched.more k4 = ksched.more (upd_thread t ?ini ?k2)"
      by (rule schedule_sys[OF i2'])
    then show ?thesis using that[of k4] True by (simp add: rt_thread_yield_def)
  next
    case False
    then show ?thesis using that[of ?k2] i2 by simp
  qed
  then show ?thesis using that[of k3] t by (simp add: rt_tick_increase_def rt_thread_self_def Let_def)
qed

context user_timeouts
begin

text \<open>
  The tick interrupt returns, with the invariant, and with no timer left that is due: the
  assertions of \<open>rt_thread_timeout\<close> and of the restart of periodic timers never fail.
\<close>

lemma tick_ok:
  assumes inv: "sys_inv {} k" and o: "on_time k"
  shows "\<exists>k'. rt_tick_increase user k = Some k' \<and> sys_inv {} k' \<and> k_tick k' = k_tick k + 1 \<and>
    (\<forall>u \<in> set (k_timer_list k'). 0 < due k' u)"
proof -
  obtain k3 where k3: "rt_tick_increase user k = rt_timer_check (timeout_call user) k3" "sys_inv {} k3"
    "ksched.more k3 = ksched.more (k\<lparr>k_tick := k_tick k + 1\<rparr>)"
    by (rule tick_slice[OF inv o])
  have "threads_inv {} k3" "timer_inv k3" "periods_ok k3" using k3(2) by (simp_all add: sys_inv_def)
  then obtain k' where k': "rt_timer_check (timeout_call user) k3 = Some k'" "threads_inv {} k'" "timer_inv k'"
    "periods_ok k'" "k_tick k' = k_tick k3" "due_now k' = {}"
    using check_ok by blast
  have "\<forall>u \<in> set (k_timer_list k'). 0 < due k' u" using k'(6) by (auto simp: due_now_def not_le)
  then show ?thesis using k3(1) k' more_fields(1)[OF k3(3)] by (simp add: sys_inv_def)
qed

end

text \<open>
  The laws hold of a kernel whose timers wake a thread (\<open>rt_thread_resume\<close> on the timer's
  parameter), and of one with no timers of its own.
\<close>

definition wake_up :: "nat \<Rightarrow> nat \<Rightarrow> 'a ktimer_scheme \<Rightarrow> 'a ktimer_scheme option" where
  "wake_up f p k = (if is_thread p k then map_option snd (rt_thread_resume p k) else Some k)"

lemma wake_up_ok:
  assumes inv: "sys_inv {} k"
  shows "\<exists>k'. wake_up f p k = Some k' \<and> sys_inv {} k' \<and> k_tick k' = k_tick k \<and> k_timers k' = k_timers k \<and>
    due k' = due k \<and> set (k_timer_list k') \<subseteq> set (k_timer_list k) \<and> k_obj_type k' = k_obj_type k"
proof (cases "is_thread p k \<and> tstat k p = RT_THREAD_SUSPEND")
  case True
  obtain k' where "rt_thread_resume p k = Some (RT_EOK, k')" "sys_inv {} k'"
    "k_timer_list k' = removeAll (ThreadTimer p) (k_timer_list k)" "k_timers k' = k_timers k" "due k' = due k"
    "k_tick k' = k_tick k" "k_obj_type k' = k_obj_type k"
    using rt_thread_resume_ok[OF inv conjunct2[OF True]] by metis
  then show ?thesis using True by (simp add: wake_up_def)
next
  case False
  then show ?thesis using inv rt_thread_resume_other[of p k] by (auto simp: wake_up_def)
qed

interpretation kernel: user_timeouts wake_up
proof
  fix k :: "'a ktimer_scheme" and f p
  assume inv: "sys_inv {} k"
  obtain k' where k': "wake_up f p k = Some k'" "sys_inv {} k'" "k_tick k' = k_tick k" "k_timers k' = k_timers k"
    "due k' = due k" "set (k_timer_list k') \<subseteq> set (k_timer_list k)" "k_obj_type k' = k_obj_type k"
    using wake_up_ok[OF inv] by blast
  then show "\<exists>k'. wake_up f p k = Some k' \<and> sys_inv {} k' \<and> k_tick k' = k_tick k \<and> due_now k' \<subseteq> due_now k \<and>
      (\<forall>u. u \<notin> set (k_timer_list k) \<and> is_timer u k \<and> tm_func (k_timers k u) = UserFn f \<and> tm_param (k_timers k u) = p \<longrightarrow>
        (periodic u k' \<and> timer_flag u k' AND RT_TIMER_FLAG_ACTIVATED \<noteq> 0 \<longrightarrow> is_timer u k') \<and>
        (\<not> periodic u k' \<longrightarrow> u \<notin> set (k_timer_list k')))"
    by (auto simp: due_now_def is_timer_def rt_object_get_type_def)
qed

end
