(* ===== verification/Sleep.thy ===== *)
theory Sleep
  imports Thread
begin

text \<open>
  Timeouts are exact: a thread whose timer was armed \<open>n\<close> ticks ahead stays suspended for the
  next \<open>n - 1\<close> ticks and is made ready, with \<open>-RT_ETIMEOUT\<close>, by the \<open>n\<close>-th, provided the
  application's timeout functions leave that thread alone. Spans the tick, the timer list, the
  scheduler and \<open>rt_thread_timeout\<close>.
\<close>

definition asleep :: "nat \<Rightarrow> int \<Rightarrow> 'a ktimer_scheme \<Rightarrow> bool" where
  "asleep t d k \<longleftrightarrow> ThreadTimer t \<in> set (k_timer_list k) \<and> due k (ThreadTimer t) = d"

definition timed_out :: "nat \<Rightarrow> 'a ktimer_scheme \<Rightarrow> bool" where
  "timed_out t k \<longleftrightarrow> ThreadTimer t \<notin> set (k_timer_list k) \<and> th_error (k_threads k t) = - RT_ETIMEOUT \<and>
     tstat k t \<in> {RT_THREAD_READY, RT_THREAD_RUNNING}"

definition sleep_inv :: "nat \<Rightarrow> int \<Rightarrow> 'a ktimer_scheme \<Rightarrow> bool" where
  "sleep_inv t d k \<longleftrightarrow> threads_inv {} k \<and> (asleep t d k \<or> d \<le> 0 \<and> timed_out t k)"

locale bystanders = user_timeouts user
  for user :: "nat \<Rightarrow> nat \<Rightarrow> 'a ktimer_scheme \<Rightarrow> 'a ktimer_scheme option" +
  fixes t :: nat
  assumes user_leaves: "sys_inv {} k \<Longrightarrow> user f p k = Some k' \<Longrightarrow>
      (asleep t d k \<longrightarrow> asleep t d k') \<and> (timed_out t k \<longrightarrow> timed_out t k')"
begin

end

lemma sleep_frame:
  assumes "sched_frame k k'" "ksched.more k' = ksched.more k"
  shows "asleep t d k' \<longleftrightarrow> asleep t d k" "timed_out t k' \<longleftrightarrow> timed_out t k"
  using frame_stat(3,4)[OF assms(1), of t] more_fields[OF assms(2)] more_preds[OF assms(2)]
  by (simp_all add: asleep_def timed_out_def)

lemma timer_remove_asleep: "u \<noteq> ThreadTimer t \<Longrightarrow> asleep t d (timer_remove u k) \<longleftrightarrow> asleep t d k"
  "timed_out t k \<Longrightarrow> timed_out t (timer_remove u k)"
  by (simp_all add: asleep_def timed_out_def) (simp add: timer_remove_def)

lemma finish_asleep:
  assumes inv: "timer_inv k" and u: "u \<noteq> ThreadTimer t \<or> \<not> periodic u k" and f: "timer_finish u k = Some k'"
  shows "asleep t d k \<Longrightarrow> asleep t d k'" "timed_out t k \<Longrightarrow> timed_out t k'"
proof -
  have "asleep t d k' = asleep t d k \<and> timed_out t k' = timed_out t k"
  proof (cases "periodic u k \<and> timer_flag u k AND RT_TIMER_FLAG_ACTIVATED \<noteq> 0")
    case True
    have "\<exists>e. rt_timer_start u k = Some (e, k')"
      using f True start_clear[of u k] by (auto simp: timer_finish_def periodic_def)
    then have st: "is_timer u k" "tm_init_tick (k_timers k u) < 0x7fffffff" and e: "\<exists>e. rt_timer_start u k = Some (e, k')"
      by (auto simp: rt_timer_start_def half_tick Let_def split: bind_splits)
    obtain k2 where k2: "rt_timer_start u k = Some (RT_EOK, k2)" "timer_frame k k2"
      "k_timer_list k2 = filter (\<lambda>v. due k v \<le> uint (tm_init_tick (k_timers k u))) (removeAll u (k_timer_list k)) @
         u # filter (\<lambda>v. uint (tm_init_tick (k_timers k u)) < due k v) (removeAll u (k_timer_list k))"
      "\<forall>v. v \<noteq> u \<longrightarrow> due k2 v = due k v"
      using rt_timer_start_ok[OF inv st] by metis
    have "u \<noteq> ThreadTimer t" using True u by blast
    then have "ThreadTimer t \<in> set (k_timer_list k2) \<longleftrightarrow> ThreadTimer t \<in> set (k_timer_list k)"
      "due k2 (ThreadTimer t) = due k (ThreadTimer t)"
      unfolding k2(3) using k2(4) by auto
    then show ?thesis using e k2(1) timer_frameD(1)[OF k2(2)] by (simp add: asleep_def timed_out_def)
  next
    case False
    then have "k' = set_timer_flag u (timer_flag u k AND NOT RT_TIMER_FLAG_ACTIVATED) k"
      using f by (auto simp: timer_finish_def periodic_def Let_def split: if_splits)
    then show ?thesis by (simp add: asleep_def timed_out_def) (simp add: set_timer_flag_def)
  qed
  then show "asleep t d k \<Longrightarrow> asleep t d k'" "timed_out t k \<Longrightarrow> timed_out t k'" by auto
qed

sublocale bystanders \<subseteq> sleeper: timeout_handlers "timeout_call user" "sleep_inv t d"
proof
  fix k :: "'a ktimer_scheme" and u us
  assume a: "sleep_inv t d k" "timer_inv k" "periods_ok k" "k_timer_list k = u # us" "due k u \<le> 0"
  have ti: "threads_inv {} k" using a(1) by (simp add: sleep_inv_def)
  let ?k = "timer_remove u k"
  have sk: "sys_inv {} k" using a ti by (simp add: sys_inv_def)
  have sr: "sys_inv {} ?k" by (rule timer_remove_sys[OF sk])
  obtain k' where k': "timeout_call user (tm_func (k_timers k u)) (tm_param (k_timers k u)) ?k = Some k'"
    "threads_inv {} k'" "timer_inv k'" "periods_ok k'" "k_tick k' = k_tick k" "due_now k' \<subseteq> due_now k - {u}"
    "periodic u k' \<and> timer_flag u k' AND RT_TIMER_FLAG_ACTIVATED \<noteq> 0 \<longrightarrow> is_timer u k'"
    "\<not> periodic u k' \<longrightarrow> u \<notin> set (k_timer_list k')"
    using call_returns[OF ti a(2-5)] by blast
  have "asleep t d k' \<or> d \<le> 0 \<and> timed_out t k'"
  proof (cases "tm_func (k_timers k u)")
    case (UserFn f)
    have "u \<noteq> ThreadTimer t"
    proof
      assume u: "u = ThreadTimer t"
      have w: "thread_wf k t" by (rule sys_invD(5)[OF sk])
      have "tstat k t = RT_THREAD_SUSPEND" using thread_wfD(1)[OF w] a(4) u by simp
      then show False using thread_wfD(5)[OF w] u UserFn by simp
    qed
    then have "asleep t d ?k \<or> d \<le> 0 \<and> timed_out t ?k"
      using a(1) timer_remove_asleep by (auto simp: sleep_inv_def)
    then show ?thesis using user_leaves[OF sr] k'(1) UserFn by (auto simp: timeout_call_def)
  next
    case ThreadTimeout
    then obtain p where p: "u = ThreadTimer p" using a(3) by (cases u) (auto simp: periods_ok_def)
    have w: "thread_wf k p" by (rule sys_invD(5)[OF sk])
    have su: "tstat k p = RT_THREAD_SUSPEND" using thread_wfD(1)[OF w] a(4) p by simp
    have pa: "tm_param (k_timers k u) = p" using thread_wfD(6)[OF w] su p by simp
    have "tstat ?k p = RT_THREAD_SUSPEND" using su by (simp add: timer_remove_def)
    moreover have "ThreadTimer p \<notin> set (k_timer_list ?k)" using p by simp
    ultimately obtain k1 k2 where k2: "rt_thread_timeout p ?k = Some k2" "sched_frame k1 k2"
      "k_threads k1 = (k_threads ?k)(p := set_stat (back_stat p ?k) ((k_threads ?k p)\<lparr>th_error := - RT_ETIMEOUT\<rparr>))"
      "ksched.more k2 = ksched.more ?k" "th_error (k_threads k2 p) = - RT_ETIMEOUT"
      "tstat k2 p \<in> {RT_THREAD_READY, RT_THREAD_RUNNING}"
      by (rule rt_thread_timeout_ok[OF sr])
    have kk: "k2 = k'" using k2(1) k'(1) ThreadTimeout pa by (simp add: timeout_call_def)
    note m = more_fields[OF k2(4)] more_preds[OF k2(4)]
    show ?thesis
    proof (cases "p = t")
      case True
      have "d \<le> 0 \<or> \<not> asleep t d k" using True p a(5) by (auto simp: asleep_def)
      then have "d \<le> 0" using a(1) by (auto simp: sleep_inv_def)
      moreover have "timed_out t k'" unfolding timed_out_def kk[symmetric] using k2(5,6) m p True by simp
      ultimately show ?thesis by blast
    next
      case False
      have "asleep t d k' \<longleftrightarrow> asleep t d ?k" using m by (simp add: asleep_def flip: kk)
      moreover have "timed_out t k'" if "timed_out t ?k"
        using that frame_stat(3,4)[OF k2(2), of t] k2(3) False m by (simp add: timed_out_def flip: kk)
      moreover have "u \<noteq> ThreadTimer t" using p False by simp
      ultimately show ?thesis using a(1) timer_remove_asleep(1)[where u = u and t = t and k = k and d = d]
        timer_remove_asleep(2)[where u = u and t = t and k = k] by (auto simp: sleep_inv_def)
    qed
  qed
  then have "sleep_inv t d k'" using k'(2) by (simp add: sleep_inv_def)
  then show "\<exists>k'. timeout_call user (tm_func (k_timers k u)) (tm_param (k_timers k u)) ?k = Some k' \<and>
        sleep_inv t d k' \<and> timer_inv k' \<and> periods_ok k' \<and> k_tick k' = k_tick k \<and>
        due_now k' \<subseteq> due_now k - {u} \<and>
        (periodic u k' \<and> timer_flag u k' AND RT_TIMER_FLAG_ACTIVATED \<noteq> 0 \<longrightarrow> is_timer u k') \<and>
        (\<not> periodic u k' \<longrightarrow> u \<notin> set (k_timer_list k'))"
    using k' by blast
next
  fix k k' :: "'a ktimer_scheme" and u
  assume a: "sleep_inv t d k" "timer_inv k" "timer_finish u k = Some k'" "timer_inv k'"
  have ti: "threads_inv {} k" using a(1) by (simp add: sleep_inv_def)
  have "threads_inv {} k'" by (rule timer_finish_threads[OF ti a(2-4)])
  moreover have "thread_wf k t" using ti by (simp add: threads_inv_def)
  then have "u \<noteq> ThreadTimer t \<or> \<not> periodic u k" using thread_wfD(2) by blast
  ultimately show "sleep_inv t d k'" using a(1) finish_asleep[OF a(2) _ a(3)] by (auto simp: sleep_inv_def)
qed

text \<open>\<open>n\<close> tick interrupts in a row.\<close>

fun ticks :: "(nat \<Rightarrow> nat \<Rightarrow> 'a ktimer_scheme \<Rightarrow> 'a ktimer_scheme option) \<Rightarrow> nat \<Rightarrow> 'a ktimer_scheme \<Rightarrow> 'a ktimer_scheme option" where
  "ticks user 0 k = Some k"
| "ticks user (Suc n) k = Option.bind (rt_tick_increase user k) (ticks user n)"

context bystanders
begin

lemma tick_asleep:
  assumes inv: "sys_inv {} k" and o: "on_time k" and a: "asleep t d k"
  shows "\<exists>k'. rt_tick_increase user k = Some k' \<and> sys_inv {} k' \<and> on_time k' \<and>
    (if d \<le> 1 then timed_out t k' else asleep t (d - 1) k')"
proof -
  obtain k3 where k3: "rt_tick_increase user k = rt_timer_check (timeout_call user) k3" "sys_inv {} k3"
    "ksched.more k3 = ksched.more (k\<lparr>k_tick := k_tick k + 1\<rparr>)"
    by (rule tick_slice[OF inv o])
  have tl: "ThreadTimer t \<in> set (k_timer_list k)" using a by (simp add: asleep_def)
  have "due k3 (ThreadTimer t) = d - 1"
    using more_preds(6)[OF k3(3)] tick_due[OF sys_invD(3)[OF inv] tl] a by (simp add: asleep_def)
  then have "asleep t (d - 1) k3" using more_fields(3)[OF k3(3)] tl by (simp add: asleep_def)
  then have "sleep_inv t (d - 1) k3" "timer_inv k3" "periods_ok k3"
    using k3(2) by (simp_all add: sys_inv_def sleep_inv_def)
  then obtain k' where k': "rt_timer_check (timeout_call user) k3 = Some k'" "sleep_inv t (d - 1) k'" "timer_inv k'"
    "periods_ok k'" "due_now k' = {}"
    using sleeper.check_ok[of "d - 1" k3] by blast
  have pos: "0 < due k' u" if "u \<in> set (k_timer_list k')" for u using k'(5) that by (auto simp: due_now_def not_le)
  then have "asleep t (d - 1) k' \<Longrightarrow> 0 < d - 1" using pos[of "ThreadTimer t"] by (simp add: asleep_def)
  then have "if d \<le> 1 then timed_out t k' else asleep t (d - 1) k'"
    using k'(2) by (auto simp: sleep_inv_def)
  moreover have "on_time k'" using pos by (auto simp: on_time_def intro: less_imp_le)
  moreover have "sys_inv {} k'" using k' by (simp add: sys_inv_def sleep_inv_def)
  ultimately show ?thesis using k3(1) k'(1) by auto
qed

text \<open>Still asleep before the \<open>n\<close>-th tick, timed out at it.\<close>

lemma wakes_at_tick:
  assumes "sys_inv {} k" "on_time k" "asleep t (int n) k" "0 < n" "m \<le> n"
  shows "\<exists>k'. ticks user m k = Some k' \<and> sys_inv {} k' \<and> on_time k' \<and>
    (if m < n then asleep t (int n - int m) k' else timed_out t k')"
  using assms
proof (induction m arbitrary: n k)
  case (Suc m)
  obtain k1 where k1: "rt_tick_increase user k = Some k1" "sys_inv {} k1" "on_time k1"
    "if int n \<le> 1 then timed_out t k1 else asleep t (int n - 1) k1"
    using tick_asleep[OF Suc.prems(1-3)] by blast
  show ?case
  proof (cases "n = 1")
    case True
    then have "m = 0" using Suc.prems by simp
    then show ?thesis using k1 True by simp
  next
    case False
    then have n: "asleep t (int (n - 1)) k1" "0 < n - 1" "m \<le> n - 1" using k1(4) Suc.prems(4,5) by (simp_all add: of_nat_diff)
    then have e: "int (n - 1) - int m = int n - int (Suc m)" "m < n - 1 \<longleftrightarrow> Suc m < n" by auto
    obtain k' where "ticks user m k1 = Some k'" "sys_inv {} k'" "on_time k'"
      "if m < n - 1 then asleep t (int (n - 1) - int m) k' else timed_out t k'"
      using Suc.IH[OF k1(2,3) n] by blast
    then show ?thesis unfolding e using k1(1) by (intro exI[of _ k']) simp
  qed
qed simp

end

text \<open>The laws hold of a kernel whose application timers wake up other threads.\<close>

definition wake_other :: "nat \<Rightarrow> nat \<Rightarrow> nat \<Rightarrow> 'a ktimer_scheme \<Rightarrow> 'a ktimer_scheme option" where
  "wake_other t f p k = (if p \<noteq> t then wake_up f p k else Some k)"

lemma wake_up_leaves:
  assumes inv: "sys_inv {} k" and w: "wake_up f p k = Some k'" and p: "p \<noteq> t"
  shows "(asleep t d k \<longrightarrow> asleep t d k') \<and> (timed_out t k \<longrightarrow> timed_out t k')"
proof (cases "is_thread p k \<and> tstat k p = RT_THREAD_SUSPEND")
  case True
  obtain k2 where "rt_thread_resume p k = Some (RT_EOK, k2)"
    "k_threads k2 = (k_threads k)(p := set_stat (back_stat p k) (k_threads k p))"
    "k_timer_list k2 = removeAll (ThreadTimer p) (k_timer_list k)" "due k2 = due k"
    using rt_thread_resume_ok[OF inv conjunct2[OF True]] by metis
  then show ?thesis using True w p by (simp add: wake_up_def asleep_def timed_out_def)
next
  case False
  then have "k' = k" using w rt_thread_resume_other[of p k] by (auto simp: wake_up_def split: if_splits)
  then show ?thesis by simp
qed

lemma bystanders_wake_other: "bystanders (wake_other t) t"
proof (unfold_locales, goal_cases)
  case (1 k f p)
  show ?case
  proof (cases "p = t")
    case True
    then show ?thesis using 1 by (auto simp: wake_other_def timer_inv_def)
  next
    case False
    then show ?thesis using kernel.user_ok[OF 1, of f p] by (simp add: wake_other_def)
  qed
next
  case (2 k f p k' d)
  then show ?case using wake_up_leaves[OF 2(1), of f p k' t d] by (auto simp: wake_other_def split: if_splits)
qed

interpretation others: bystanders "wake_other t" t for t
  by (rule bystanders_wake_other)

end
