(* ===== verification/Ipc.thy ===== *)
theory Ipc
  imports Thread
begin

text \<open>
  What the inter-process communication objects of \<open>src/ipc.c\<close> share: their state, the lists
  of suspended threads ordered by arrival or by priority, waiting with a timeout, waking up. A
  blocking call either returns at once (\<open>Done\<close>) or gives the processor away
  (\<open>Blocked\<close>); what it does when its thread runs again is a separate function.
\<close>

section \<open>State\<close>

record mutex =
  mx_value :: u16
  mx_original_priority :: u8
  mx_hold :: u8
  mx_owner :: "nat option"

record mailbox =
  mb_pool :: "u32 list"
  mb_size :: u16
  mb_entry :: u16
  mb_in_offset :: u16
  mb_out_offset :: u16

text \<open>A message queue keeps its messages in two singly linked lists of slots of its pool.\<close>

record messagequeue =
  mq_msg_size :: u16
  mq_max_msgs :: u16
  mq_entry :: u16
  mq_next :: "nat \<Rightarrow> nat option"
  mq_data :: "nat \<Rightarrow> u8 list"
  mq_head :: "nat option"
  mq_tail :: "nat option"
  mq_free :: "nat option"

record kipc = ktimer +
  k_sem :: "nat \<Rightarrow> u16"
  k_mutex :: "nat \<Rightarrow> mutex"
  k_event :: "nat \<Rightarrow> u32"
  k_mb :: "nat \<Rightarrow> mailbox"
  k_mq :: "nat \<Rightarrow> messagequeue"

datatype ('r, 'k) call = Done 'r 'k | Blocked 'k

definition RT_IPC_FLAG_FIFO :: u8 where "RT_IPC_FLAG_FIFO = 0"
definition RT_IPC_FLAG_PRIO :: u8 where "RT_IPC_FLAG_PRIO = 1"
definition RT_IPC_CMD_RESET :: int where "RT_IPC_CMD_RESET = 1"

definition ipc_flag :: "nat \<Rightarrow> 'a kobj_scheme \<Rightarrow> u8" where
  "ipc_flag a k = k_obj_flag k (IpcObj a)"

definition set_ipc_flag :: "nat \<Rightarrow> u8 \<Rightarrow> 'a kobj_scheme \<Rightarrow> 'a kobj_scheme" where
  "set_ipc_flag a f k = k\<lparr>k_obj_flag := (k_obj_flag k)(IpcObj a := f)\<rparr>"

definition ipc_is :: "u8 \<Rightarrow> nat \<Rightarrow> 'a kobj_scheme \<Rightarrow> bool" where
  "ipc_is c a k \<longleftrightarrow> rt_object_get_type (IpcObj a) k = c"

definition in_thread_context :: "'a ksched_scheme \<Rightarrow> bool" where
  "in_thread_context k \<longleftrightarrow> k_current k \<noteq> None \<and> k_irq_nest k = 0"

definition set_error :: "rt_err \<Rightarrow> nat \<Rightarrow> 'a ksched_scheme \<Rightarrow> 'a ksched_scheme" where
  "set_error e t k = upd_thread t (\<lambda>th. th\<lparr>th_error := e\<rparr>) k"

section \<open>Suspend lists\<close>

text \<open>\<open>rt_ipc_object_init\<close> empties the suspend list; threads waiting in it would be lost.\<close>

definition rt_ipc_object_init :: "nat \<Rightarrow> 'a ksched_scheme \<Rightarrow> 'a ksched_scheme" where
  "rt_ipc_object_init a k = k\<lparr>k_queues := (k_queues k)(Pend a := [])\<rparr>"

fun prio_insert :: "(nat \<Rightarrow> u8) \<Rightarrow> nat \<Rightarrow> nat list \<Rightarrow> nat list" where
  "prio_insert pr t [] = [t]"
| "prio_insert pr t (s # ss) = (if pr t < pr s then t # s # ss else s # prio_insert pr t ss)"

definition ipc_insert :: "u8 \<Rightarrow> (nat \<Rightarrow> u8) \<Rightarrow> nat \<Rightarrow> nat list \<Rightarrow> nat list" where
  "ipc_insert flag pr t ts =
    (if flag = RT_IPC_FLAG_FIFO then ts @ [t]
     else if flag = RT_IPC_FLAG_PRIO then prio_insert pr t ts else ts)"

text \<open>
  \<open>rt_ipc_list_suspend\<close> ignores the result of \<open>rt_thread_suspend\<close>: a thread that was not
  taken out of its list would then be linked twice, the failure \<open>None\<close>.
\<close>

definition rt_ipc_list_suspend :: "qhead \<Rightarrow> nat \<Rightarrow> u8 \<Rightarrow> 'a ktimer_scheme \<Rightarrow> 'a ktimer_scheme option" where
  "rt_ipc_list_suspend l t flag k = do {
     (e, k1) \<leftarrow> rt_thread_suspend t k;
     rt_assert (e = RT_EOK);
     Some (k1\<lparr>k_queues := (k_queues k1)(l :=
       ipc_insert flag (\<lambda>s. th_current_priority (k_threads k1 s)) t (k_queues k1 l))\<rparr>)
   }"

definition rt_ipc_list_resume :: "qhead \<Rightarrow> 'a ktimer_scheme \<Rightarrow> 'a ktimer_scheme option" where
  "rt_ipc_list_resume l k =
    (case k_queues k l of [] \<Rightarrow> None | t # _ \<Rightarrow> map_option snd (rt_thread_resume t k))"

partial_function (option) rt_ipc_list_resume_all :: "qhead \<Rightarrow> 'a ktimer_scheme \<Rightarrow> 'a ktimer_scheme option" where
  "rt_ipc_list_resume_all l k =
    (case k_queues k l of [] \<Rightarrow> Some k
     | t # _ \<Rightarrow> Option.bind (rt_thread_resume t (set_error (- RT_ERROR) t k))
                  (\<lambda>r. rt_ipc_list_resume_all l (snd r)))"

text \<open>Suspending on a list, with the thread's timer armed for a positive waiting time.\<close>

definition ipc_wait :: "qhead \<Rightarrow> nat \<Rightarrow> u8 \<Rightarrow> 32 word \<Rightarrow> 'a ktimer_scheme \<Rightarrow> 'a ktimer_scheme option" where
  "ipc_wait l t flag time k = do {
     k1 \<leftarrow> rt_ipc_list_suspend l t flag k;
     if 0 < sint time then arm_timer t time k1 else Some k1
   }"

section \<open>The invariant reads the kernel's fields up to the timers\<close>

lemma kipc_sys_inv [simp]:
  "sys_inv X (k\<lparr>k_sem := f\<rparr>) \<longleftrightarrow> sys_inv X k" "sys_inv X (k\<lparr>k_mutex := g\<rparr>) \<longleftrightarrow> sys_inv X k"
  "sys_inv X (k\<lparr>k_event := h\<rparr>) \<longleftrightarrow> sys_inv X k" "sys_inv X (k\<lparr>k_mb := m\<rparr>) \<longleftrightarrow> sys_inv X k"
  "sys_inv X (k\<lparr>k_mq := q\<rparr>) \<longleftrightarrow> sys_inv X k"
  by (simp_all add: sys_inv_def threads_inv_def sched_inv_def thread_ok_def group_ok_def mask_ok_def prio_of_def
      cur_ok_def timer_inv_def periods_ok_def thread_wf_def due_def periodic_def timer_flag_def is_timer_def
      is_thread_def rt_object_get_type_def cong: ball_cong map_cong)

lemma kipc_more:
  assumes "ktimer.more k' = ktimer.more k"
  shows "k_sem k' = k_sem k" "k_mutex k' = k_mutex k" "k_event k' = k_event k" "k_mb k' = k_mb k"
    "k_mq k' = k_mq k" "kipc.more k' = kipc.more k"
  using assms by (cases k; cases k'; simp)+

lemma set_error_sys: "sys_inv X (set_error e t k) \<longleftrightarrow> sys_inv X k"
  unfolding set_error_def by (rule upd_thread_sys_inv) (simp_all add: stat_of_def)

lemma set_error_simps [simp]:
  "k_threads (set_error e t k) = (k_threads k)(t := (k_threads k t)\<lparr>th_error := e\<rparr>)"
  "k_queues (set_error e t k) = k_queues k" "k_group (set_error e t k) = k_group k"
  "k_current (set_error e t k) = k_current k" "k_lock_nest (set_error e t k) = k_lock_nest k"
  "k_irq_nest (set_error e t k) = k_irq_nest k" "ksched.more (set_error e t k) = ksched.more k"
  "tstat (set_error e t k) u = tstat k u" "prio_of (set_error e t k) u = prio_of k u"
  by (auto simp: set_error_def stat_of_def prio_of_def)

section \<open>Order of the suspend lists\<close>

lemma set_prio_insert [simp]: "set (prio_insert pr t ts) = insert t (set ts)"
  by (induction ts) auto

lemma distinct_prio_insert: "t \<notin> set ts \<Longrightarrow> distinct ts \<Longrightarrow> distinct (prio_insert pr t ts)"
  by (induction ts) auto

text \<open>By priority, behind the threads of the same priority.\<close>

lemma prio_insert_sorted:
  assumes "sorted (map pr ts)"
  shows "sorted (map pr (prio_insert pr t ts))"
    "prio_insert pr t ts = filter (\<lambda>s. pr s \<le> pr t) ts @ t # filter (\<lambda>s. pr t < pr s) ts"
proof -
  show a: "prio_insert pr t ts = filter (\<lambda>s. pr s \<le> pr t) ts @ t # filter (\<lambda>s. pr t < pr s) ts"
    using assms
  proof (induction ts)
    case (Cons s ss)
    show ?case
    proof (cases "pr t < pr s")
      case True
      then have "\<forall>u \<in> set ss. pr t < pr u" using Cons.prems by auto
      then have "filter (\<lambda>s. pr s \<le> pr t) ss = []" "filter (\<lambda>s. pr t < pr s) ss = ss"
        by (auto simp: filter_empty_conv)
      then show ?thesis using True by simp
    qed (use Cons in auto)
  qed simp
  show "sorted (map pr (prio_insert pr t ts))" unfolding a using assms
    by (auto simp: sorted_append sorted_filter order.strict_implies_order)
qed

lemma ipc_insert_set:
  assumes "flag \<in> {RT_IPC_FLAG_FIFO, RT_IPC_FLAG_PRIO}"
  shows "set (ipc_insert flag pr t ts) = insert t (set ts)"
    "t \<notin> set ts \<Longrightarrow> distinct ts \<Longrightarrow> distinct (ipc_insert flag pr t ts)"
  using assms by (auto simp: ipc_insert_def distinct_prio_insert)

lemma ipc_insert_neq_Nil: "flag \<in> {RT_IPC_FLAG_FIFO, RT_IPC_FLAG_PRIO} \<Longrightarrow> ipc_insert flag pr t ts \<noteq> []"
  using ipc_insert_set(1)[of flag pr t ts] by (metis insert_not_empty set_empty)

section \<open>Waiting\<close>

definition wait_head :: "qhead \<Rightarrow> bool" where
  "wait_head l \<longleftrightarrow> (\<exists>a. l = Pend a \<or> l = PendSend a)"

lemma wait_head_simps [simp]: "wait_head (Pend a)" "wait_head (PendSend a)"
  by (auto simp: wait_head_def)

text \<open>Suspending a thread and linking it into a wait list, at whatever place.\<close>

lemma suspend_into_ok:
  assumes inv: "sys_inv {} k" and s: "tstat k t \<in> {RT_THREAD_READY, RT_THREAD_RUNNING}" and l: "wait_head l"
    and L: "set L = insert t (set (k_queues k l))" "t \<notin> set (k_queues k l) \<Longrightarrow> distinct (k_queues k l) \<Longrightarrow> distinct L"
  obtains k1 k' where "rt_thread_suspend t k = Some (RT_EOK, k1)" "k' = k1\<lparr>k_queues := (k_queues k1)(l := L)\<rparr>" "sys_inv {} k'"
    "k_queues k1 l = k_queues k l" "\<And>s. th_current_priority (k_threads k1 s) = th_current_priority (k_threads k s)"
    "k_threads k' = (k_threads k)(t := set_stat RT_THREAD_SUSPEND (k_threads k t))"
    "k_queues k' = (q_remove t (k_queues k))(l := L)"
    "k_timer_list k' = removeAll (ThreadTimer t) (k_timer_list k)" "k_timers k' = k_timers k" "due k' = due k"
    "k_current k' = k_current k" "k_lock_nest k' = k_lock_nest k" "k_irq_nest k' = k_irq_nest k"
    "k_tick k' = k_tick k" "k_obj_type k' = k_obj_type k" "ktimer.more k' = ktimer.more k"
proof -
  obtain k1 where k1: "rt_thread_suspend t k = Some (RT_EOK, k1)" "sys_inv {} k1"
    "k_threads k1 = (k_threads k)(t := set_stat RT_THREAD_SUSPEND (k_threads k t))"
    "k_queues k1 = q_remove t (k_queues k)" "\<not> linked (k_queues k1) t" "ThreadTimer t \<notin> set (k_timer_list k1)"
    "k_timer_list k1 = removeAll (ThreadTimer t) (k_timer_list k)" "k_timers k1 = k_timers k" "due k1 = due k"
    "k_current k1 = k_current k" "k_lock_nest k1 = k_lock_nest k" "k_irq_nest k1 = k_irq_nest k"
    "k_tick k1 = k_tick k" "k_obj_type k1 = k_obj_type k" "ktimer.more k1 = ktimer.more k"
    by (rule rt_thread_suspend_ok[OF inv s])
  have si: "sched_inv {} k" by (rule sys_invD(1)[OF inv])
  have ok: "thread_ok k t" using sched_invD(4)[OF si] by simp
  have nl: "t \<notin> set (k_queues k l)"
  proof -
    obtain a where a: "l = Pend a \<or> l = PendSend a" using l by (auto simp: wait_head_def)
    have "tstat k t \<noteq> RT_THREAD_SUSPEND" using s by auto
    then show ?thesis using a thread_okD(7,8)[OF ok] by blast
  qed
  have l1: "k_queues k1 l = k_queues k l" using k1(4) nl by simp
  let ?Q = "(k_queues k1)(l := L)" and ?k2 = "k1\<lparr>k_queues := (k_queues k1)(l := L)\<rparr>"
  have nt: "t \<notin> set (k_queues k1 m)" for m using k1(5) by (simp add: linked_def)
  have setQ: "set (?Q m) = (if m = l then insert t (set (k_queues k1 m)) else set (k_queues k1 m))" for m
    using L(1) l1 by simp
  have lo: "lists_ok (k_queues k1)" by (rule sched_invD(1)[OF sys_invD(1)[OF k1(2)]])
  have lQ: "lists_ok ?Q"
  proof -
    have "distinct (?Q m)" for m
      using lists_ok_distinct[OF lo, of m] L(2)[OF nl] lists_ok_distinct[OF sched_invD(1)[OF si], of l]
      by simp
    moreover have "set (?Q m) \<inter> set (?Q m') = {}" if "m \<noteq> m'" for m m'
      unfolding setQ using that lo nt[of m] nt[of m'] by (auto simp: lists_ok_def)
    ultimately show ?thesis unfolding lists_ok_def by blast
  qed
  have s1: "tstat k1 t = RT_THREAD_SUSPEND" using k1(3) by simp
  have m1: "mask_ok k1 t" by (rule live_mask[OF k1(2)]) (simp add: s1)
  have i1: "sched_inv {t} k1"
    using sys_invD(1)[OF k1(2)] k1(5) by (auto simp: sched_inv_def)
  have tok: "thread_ok (k1\<lparr>k_queues := ?Q\<rparr>) t"
    unfolding thread_ok_def using s1 m1 nt l by (auto simp: mask_ok_def prio_of_def wait_head_def)
  have "sched_inv ({t} - {t}) (k1\<lparr>k_queues := ?Q\<rparr>)"
    by (rule sched_inv_link[OF i1 _ setQ lQ _ _ tok]) (use l in \<open>auto simp: wait_head_def\<close>)
  then have i2: "sched_inv {} ?k2" by simp
  have m2: "ksched.more ?k2 = ksched.more k1" by simp
  have "thread_wf ?k2 u" for u
    using sys_invD(5)[OF k1(2), of u] by (subst thread_wf_cong[OF m2]) simp_all
  moreover have "cur_ok ?k2" using sys_invD(2)[OF k1(2)] by (simp add: cur_ok_def)
  ultimately have sys2: "sys_inv {} ?k2" using i2 sys_invD(3,4)[OF k1(2)] more_preds(1,2)[OF m2] by (intro sys_invI) simp_all
  show ?thesis
    by (rule that[OF k1(1) refl sys2 l1]) (use k1 more_preds(6)[OF m2] in simp_all)
qed

lemma rt_ipc_list_suspend_ok:
  assumes inv: "sys_inv {} k" and s: "tstat k t \<in> {RT_THREAD_READY, RT_THREAD_RUNNING}"
    and l: "wait_head l" and fl: "flag \<in> {RT_IPC_FLAG_FIFO, RT_IPC_FLAG_PRIO}"
  obtains k' where "rt_ipc_list_suspend l t flag k = Some k'" "sys_inv {} k'"
    "k_threads k' = (k_threads k)(t := set_stat RT_THREAD_SUSPEND (k_threads k t))"
    "k_queues k' = (q_remove t (k_queues k))(l := ipc_insert flag (\<lambda>s. th_current_priority (k_threads k s)) t (k_queues k l))"
    "k_timer_list k' = removeAll (ThreadTimer t) (k_timer_list k)" "k_timers k' = k_timers k" "due k' = due k"
    "k_current k' = k_current k" "k_lock_nest k' = k_lock_nest k" "k_irq_nest k' = k_irq_nest k"
    "k_tick k' = k_tick k" "k_obj_type k' = k_obj_type k" "ktimer.more k' = ktimer.more k"
proof -
  let ?L = "ipc_insert flag (\<lambda>s. th_current_priority (k_threads k s)) t (k_queues k l)"
  show ?thesis
  proof (rule suspend_into_ok[OF inv s l ipc_insert_set[OF fl]])
    fix k1 k'
    assume "rt_thread_suspend t k = Some (RT_EOK, k1)" "k' = k1\<lparr>k_queues := (k_queues k1)(l := ?L)\<rparr>"
      "k_queues k1 l = k_queues k l" "\<And>s. th_current_priority (k_threads k1 s) = th_current_priority (k_threads k s)"
    then have "rt_ipc_list_suspend l t flag k = Some k'" by (simp add: rt_ipc_list_suspend_def)
    moreover assume "sys_inv {} k'" "k_threads k' = (k_threads k)(t := set_stat RT_THREAD_SUSPEND (k_threads k t))"
      "k_queues k' = (q_remove t (k_queues k))(l := ?L)"
      "k_timer_list k' = removeAll (ThreadTimer t) (k_timer_list k)" "k_timers k' = k_timers k" "due k' = due k"
      "k_current k' = k_current k" "k_lock_nest k' = k_lock_nest k" "k_irq_nest k' = k_irq_nest k"
      "k_tick k' = k_tick k" "k_obj_type k' = k_obj_type k" "ktimer.more k' = ktimer.more k"
    ultimately show ?thesis by (rule that)
  qed
qed

text \<open>The timer of a thread that has been suspended, for a positive waiting time.\<close>

lemma arm_wait_ok:
  assumes inv: "sys_inv {} k" and s: "tstat k t = RT_THREAD_SUSPEND" and tm: "time \<noteq> 0x7fffffff"
  obtains k' where "(if 0 < sint time then arm_timer t time k else Some k) = Some k'" "sys_inv {} k'"
    "k_threads k' = k_threads k" "k_queues k' = k_queues k"
    "0 < sint time \<Longrightarrow> ThreadTimer t \<in> set (k_timer_list k') \<and> due k' (ThreadTimer t) = sint time"
    "k_current k' = k_current k" "k_lock_nest k' = k_lock_nest k" "k_irq_nest k' = k_irq_nest k"
    "k_tick k' = k_tick k" "k_obj_type k' = k_obj_type k" "ktimer.more k' = ktimer.more k" "on_time k \<Longrightarrow> on_time k'"
proof (cases "0 < sint time")
  case False
  then show ?thesis using inv by (intro that[of k]) simp_all
next
  case True
  have "sint time < 4294967296" using sint_lt[of time] by simp
  then have ui: "uint time = sint time" using True take_bit_int_eq_self[of "sint time" 32] by (simp add: uint_sint)
  have "uint time \<noteq> 0x7fffffff"
  proof
    assume "uint time = 0x7fffffff"
    then have "time = word_of_int 0x7fffffff" by (metis word_of_int_uint)
    then show False using tm by simp
  qed
  moreover have "sint time < 0x80000000" using sint_lt[of time] by simp
  ultimately have n: "time < 0x7fffffff" using ui by (simp add: word_less_def)
  obtain k2 where k2: "arm_timer t time k = Some k2" "sys_inv {} k2" "timer_frame k k2"
    "ThreadTimer t \<in> set (k_timer_list k2)" "due k2 (ThreadTimer t) = uint time" "on_time k \<Longrightarrow> on_time k2"
    using arm_timer_ok[OF inv s n] by metis
  note f = timer_frameD[OF k2(3)]
  show ?thesis by (rule that[of k2]) (use True k2 f(1-6,12,13,18) ui in simp_all)
qed

lemma ipc_wait_ok:
  assumes inv: "sys_inv {} k" and s: "tstat k t \<in> {RT_THREAD_READY, RT_THREAD_RUNNING}"
    and l: "wait_head l" and fl: "flag \<in> {RT_IPC_FLAG_FIFO, RT_IPC_FLAG_PRIO}" and tm: "time \<noteq> 0x7fffffff"
  obtains k' where "ipc_wait l t flag time k = Some k'" "sys_inv {} k'"
    "k_threads k' = (k_threads k)(t := set_stat RT_THREAD_SUSPEND (k_threads k t))"
    "k_queues k' = (q_remove t (k_queues k))(l := ipc_insert flag (\<lambda>s. th_current_priority (k_threads k s)) t (k_queues k l))"
    "0 < sint time \<Longrightarrow> ThreadTimer t \<in> set (k_timer_list k') \<and> due k' (ThreadTimer t) = sint time"
    "k_current k' = k_current k" "k_lock_nest k' = k_lock_nest k" "k_irq_nest k' = k_irq_nest k"
    "k_tick k' = k_tick k" "k_obj_type k' = k_obj_type k" "ktimer.more k' = ktimer.more k" "on_time k \<Longrightarrow> on_time k'"
proof -
  obtain k1 where k1: "rt_ipc_list_suspend l t flag k = Some k1" "sys_inv {} k1"
    "k_threads k1 = (k_threads k)(t := set_stat RT_THREAD_SUSPEND (k_threads k t))"
    "k_queues k1 = (q_remove t (k_queues k))(l := ipc_insert flag (\<lambda>s. th_current_priority (k_threads k s)) t (k_queues k l))"
    "k_timer_list k1 = removeAll (ThreadTimer t) (k_timer_list k)" "k_timers k1 = k_timers k" "due k1 = due k"
    "k_current k1 = k_current k" "k_lock_nest k1 = k_lock_nest k" "k_irq_nest k1 = k_irq_nest k"
    "k_tick k1 = k_tick k" "k_obj_type k1 = k_obj_type k" "ktimer.more k1 = ktimer.more k"
    by (rule rt_ipc_list_suspend_ok[OF inv s l fl])
  have "tstat k1 t = RT_THREAD_SUSPEND" using k1(3) by simp
  then obtain k2 where k2: "(if 0 < sint time then arm_timer t time k1 else Some k1) = Some k2" "sys_inv {} k2"
    "k_threads k2 = k_threads k1" "k_queues k2 = k_queues k1"
    "0 < sint time \<Longrightarrow> ThreadTimer t \<in> set (k_timer_list k2) \<and> due k2 (ThreadTimer t) = sint time"
    "k_current k2 = k_current k1" "k_lock_nest k2 = k_lock_nest k1" "k_irq_nest k2 = k_irq_nest k1"
    "k_tick k2 = k_tick k1" "k_obj_type k2 = k_obj_type k1" "ktimer.more k2 = ktimer.more k1" "on_time k1 \<Longrightarrow> on_time k2"
    using arm_wait_ok[OF k1(2) _ tm] by metis
  have "ipc_wait l t flag time k = Some k2" using k1(1) k2(1) by (simp add: ipc_wait_def)
  then show ?thesis
    by (rule that) (use k1 k2 on_time_frame[OF k1(5,7)] in simp_all)
qed

section \<open>Waking up\<close>

lemma waiting_suspended:
  assumes "sys_inv {} k" "wait_head l" "t \<in> set (k_queues k l)" shows "tstat k t = RT_THREAD_SUSPEND"
proof -
  have "thread_ok k t" using sched_invD(4)[OF sys_invD(1)[OF assms(1)]] by simp
  then show ?thesis using assms(2,3) thread_okD(7,8) by (auto simp: wait_head_def)
qed

lemma waiting_distinct: "sys_inv {} k \<Longrightarrow> distinct (k_queues k l)"
  using lists_ok_distinct[OF sched_invD(1)[OF sys_invD(1)]] .

lemma waiting_only:
  assumes inv: "sys_inv {} k" and t: "t \<in> set (k_queues k l)"
  shows "q_remove t (k_queues k) m = (if m = l then removeAll t (k_queues k l) else k_queues k m)"
proof (cases "m = l")
  case False
  have "lists_ok (k_queues k)" by (rule sched_invD(1)[OF sys_invD(1)[OF inv]])
  then have "t \<notin> set (k_queues k m)" using lists_ok_unique[of "k_queues k" t l m] t False by blast
  then show ?thesis using False by simp
qed simp

lemma rt_ipc_list_resume_ok:
  assumes inv: "sys_inv {} k" and l: "wait_head l" and q: "k_queues k l = t # ts"
  obtains k' where "rt_ipc_list_resume l k = Some k'" "sys_inv {} k'"
    "k_threads k' = (k_threads k)(t := set_stat (back_stat t k) (k_threads k t))"
    "k_queues k' l = ts" "\<forall>m. wait_head m \<and> m \<noteq> l \<longrightarrow> k_queues k' m = k_queues k m"
    "k_timer_list k' = removeAll (ThreadTimer t) (k_timer_list k)" "due k' = due k"
    "k_current k' = k_current k" "k_lock_nest k' = k_lock_nest k" "k_irq_nest k' = k_irq_nest k"
    "k_tick k' = k_tick k" "k_obj_type k' = k_obj_type k" "ktimer.more k' = ktimer.more k"
proof -
  have t: "t \<in> set (k_queues k l)" using q by simp
  have s: "tstat k t = RT_THREAD_SUSPEND" by (rule waiting_suspended[OF inv l t])
  obtain k' where k': "rt_thread_resume t k = Some (RT_EOK, k')" "sys_inv {} k'"
    "k_threads k' = (k_threads k)(t := set_stat (back_stat t k) (k_threads k t))"
    "k_queues k' = (if k_current k = Some t then q_remove t (k_queues k)
                    else q_push_back (Ready (prio_of k t)) t (q_remove t (k_queues k)))"
    "k_timer_list k' = removeAll (ThreadTimer t) (k_timer_list k)" "k_timers k' = k_timers k" "due k' = due k"
    "k_current k' = k_current k" "k_lock_nest k' = k_lock_nest k" "k_irq_nest k' = k_irq_nest k"
    "k_tick k' = k_tick k" "k_obj_type k' = k_obj_type k" "ktimer.more k' = ktimer.more k"
    by (rule rt_thread_resume_ok[OF inv s])
  have qq: "k_queues k' m = (if m = l then ts else k_queues k m)" if "wait_head m" for m
  proof -
    have nr: "m \<noteq> Ready p" for p using that by (auto simp: wait_head_def)
    have "k_queues k' m = q_remove t (k_queues k) m" using k'(4) nr by simp
    then show ?thesis using waiting_only[OF inv t, of m] q waiting_distinct[OF inv, of l] by auto
  qed
  have "rt_ipc_list_resume l k = Some k'" using q k'(1) by (simp add: rt_ipc_list_resume_def)
  then show ?thesis
    by (rule that) (use k' qq l in simp_all)
qed

text \<open>\<open>rt_ipc_list_resume_all\<close> returns, with the list empty and every waiter woken with an error.\<close>

lemma rt_ipc_list_resume_all_ok:
  assumes "sys_inv {} k" "wait_head l"
  shows "\<exists>k'. rt_ipc_list_resume_all l k = Some k' \<and> sys_inv {} k' \<and> k_queues k' l = [] \<and>
    (\<forall>m. wait_head m \<and> m \<noteq> l \<longrightarrow> k_queues k' m = k_queues k m) \<and>
    (\<forall>t \<in> set (k_queues k l). th_error (k_threads k' t) = - RT_ERROR \<and> tstat k' t \<in> {RT_THREAD_READY, RT_THREAD_RUNNING}) \<and>
    (\<forall>t. t \<notin> set (k_queues k l) \<longrightarrow> k_threads k' t = k_threads k t) \<and>
    k_current k' = k_current k \<and> k_lock_nest k' = k_lock_nest k \<and> k_irq_nest k' = k_irq_nest k \<and>
    k_obj_type k' = k_obj_type k \<and> ktimer.more k' = ktimer.more k"
  using assms(1)
proof (induction "k_queues k l" arbitrary: k)
  case Nil
  then show ?case by (subst rt_ipc_list_resume_all.simps) simp
next
  case (Cons t ts)
  let ?k = "set_error (- RT_ERROR) t k"
  have i: "sys_inv {} ?k" using Cons.prems by (simp add: set_error_sys)
  have q: "k_queues ?k l = t # ts" using Cons.hyps(2) by simp
  obtain k1 where k1: "rt_ipc_list_resume l ?k = Some k1" "sys_inv {} k1"
    "k_threads k1 = (k_threads ?k)(t := set_stat (back_stat t ?k) (k_threads ?k t))"
    "k_queues k1 l = ts" "\<forall>m. wait_head m \<and> m \<noteq> l \<longrightarrow> k_queues k1 m = k_queues ?k m"
    "k_current k1 = k_current ?k" "k_lock_nest k1 = k_lock_nest ?k" "k_irq_nest k1 = k_irq_nest ?k"
    "k_obj_type k1 = k_obj_type ?k" "ktimer.more k1 = ktimer.more ?k"
    using rt_ipc_list_resume_ok[OF i assms(2) q] by metis
  obtain e where r: "rt_thread_resume t ?k = Some (e, k1)"
    using k1(1) q by (auto simp: rt_ipc_list_resume_def)
  have dt: "t \<notin> set ts" using waiting_distinct[OF Cons.prems, of l] Cons.hyps(2)[symmetric] by simp
  obtain k' where k': "rt_ipc_list_resume_all l k1 = Some k'" "sys_inv {} k'" "k_queues k' l = []"
    "\<forall>m. wait_head m \<and> m \<noteq> l \<longrightarrow> k_queues k' m = k_queues k1 m"
    "\<forall>u \<in> set ts. th_error (k_threads k' u) = - RT_ERROR \<and> tstat k' u \<in> {RT_THREAD_READY, RT_THREAD_RUNNING}"
    "\<forall>u. u \<notin> set ts \<longrightarrow> k_threads k' u = k_threads k1 u"
    "k_current k' = k_current k1" "k_lock_nest k' = k_lock_nest k1" "k_irq_nest k' = k_irq_nest k1"
    "k_obj_type k' = k_obj_type k1" "ktimer.more k' = ktimer.more k1"
    using Cons.hyps(1)[of k1] k1(2,4) by auto
  have "rt_ipc_list_resume_all l k = Some k'"
    using Cons.hyps(2)[symmetric] r k'(1) by (subst rt_ipc_list_resume_all.simps) simp
  moreover have o: "k_obj_type ?k = k_obj_type k" "ktimer.more ?k = ktimer.more k"
    by (rule more_fields; simp)+
  moreover have "th_error (k_threads k' u) = - RT_ERROR \<and> tstat k' u \<in> {RT_THREAD_READY, RT_THREAD_RUNNING}"
    if "u \<in> set (k_queues k l)" for u
  proof (cases "u = t")
    case True
    then show ?thesis using k'(6) dt k1(3) by (simp add: back_stat_def)
  next
    case False
    then show ?thesis using that k'(5) Cons.hyps(2)[symmetric] by simp
  qed
  moreover have "k_threads k' u = k_threads k u" if "u \<notin> set (k_queues k l)" for u
    using that k'(6) k1(3) Cons.hyps(2)[symmetric] by simp
  ultimately show ?case using k' k1(5-10) by simp
qed

section \<open>Giving the processor away\<close>

lemma frame_queue: "sched_frame k k' \<Longrightarrow> wait_head l \<Longrightarrow> k_queues k' l = k_queues k l"
  by (auto simp: sched_frame_def wait_head_def)

lemma sched_sem: "ksched.more k' = ksched.more k \<Longrightarrow> k_sem k' = k_sem k" for k :: "'a kipc_scheme"
  using kipc_more(1)[OF more_fields(8)] .

text \<open>Blocking on a list from the current thread, up to the switch to another thread.\<close>

lemma block_ok:
  assumes inv: "sys_inv {} k" and c: "k_current k = Some t" "tstat k t = RT_THREAD_RUNNING"
    and l: "wait_head l" and fl: "flag \<in> {RT_IPC_FLAG_FIFO, RT_IPC_FLAG_PRIO}" and tm: "time \<noteq> 0x7fffffff"
  obtains k2 k' where "ipc_wait l t flag time k = Some k2" "rt_schedule k2 = Some k'" "sys_inv {} k'"
    "k_queues k' l = ipc_insert flag (\<lambda>s. th_current_priority (k_threads k s)) t (k_queues k l)"
    "\<forall>m. wait_head m \<and> m \<noteq> l \<longrightarrow> k_queues k' m = k_queues k m"
    "tstat k' t = RT_THREAD_SUSPEND" "th_error (k_threads k' t) = th_error (k_threads k t)"
    "0 < sint time \<Longrightarrow> ThreadTimer t \<in> set (k_timer_list k') \<and> due k' (ThreadTimer t) = sint time"
    "ktimer.more k' = ktimer.more k" "on_time k \<Longrightarrow> on_time k'" "k_obj_type k' = k_obj_type k"
    "k_irq_nest k' = k_irq_nest k" "k_tick k' = k_tick k" "k_lock_nest k' = k_lock_nest k"
    "\<forall>u. th_current_priority (k_threads k' u) = th_current_priority (k_threads k u)"
proof -
  have s: "tstat k t \<in> {RT_THREAD_READY, RT_THREAD_RUNNING}" using c by simp
  obtain k2 where k2: "ipc_wait l t flag time k = Some k2" "sys_inv {} k2"
    "k_threads k2 = (k_threads k)(t := set_stat RT_THREAD_SUSPEND (k_threads k t))"
    "k_queues k2 = (q_remove t (k_queues k))(l := ipc_insert flag (\<lambda>s. th_current_priority (k_threads k s)) t (k_queues k l))"
    "0 < sint time \<Longrightarrow> ThreadTimer t \<in> set (k_timer_list k2) \<and> due k2 (ThreadTimer t) = sint time"
    "k_current k2 = k_current k" "k_lock_nest k2 = k_lock_nest k" "k_irq_nest k2 = k_irq_nest k"
    "k_tick k2 = k_tick k" "k_obj_type k2 = k_obj_type k" "ktimer.more k2 = ktimer.more k" "on_time k \<Longrightarrow> on_time k2"
    using ipc_wait_ok[OF inv s l fl tm] by metis
  obtain k' where k': "rt_schedule k2 = Some k'" "sys_inv {} k'" "sched_frame k2 k'" "ksched.more k' = ksched.more k2"
    by (rule schedule_sys[OF k2(2)])
  note m = more_fields[OF k'(4)] more_preds[OF k'(4)]
  have nt: "q_remove t (k_queues k) m = k_queues k m" if "wait_head m" for m
  proof -
    have "t \<notin> set (k_queues k m)" using waiting_suspended[OF inv that, of t] c(2) by auto
    then show ?thesis by simp
  qed
  have s2: "tstat k2 t = RT_THREAD_SUSPEND" using k2(3) by simp
  then have same: "k_threads k' t = k_threads k2 t" by (intro frame_stat(2)[OF k'(3)]) simp
  show ?thesis
  proof (rule that[OF k2(1) k'(1,2)])
    show "k_queues k' l = ipc_insert flag (\<lambda>s. th_current_priority (k_threads k s)) t (k_queues k l)"
      using frame_queue[OF k'(3) l] k2(4) by simp
    show "\<forall>m. wait_head m \<and> m \<noteq> l \<longrightarrow> k_queues k' m = k_queues k m"
      using frame_queue[OF k'(3)] k2(4) nt by simp
    show "on_time k'" if "on_time k" using k2(12)[OF that] m by (simp add: on_time_def)
    show "0 < sint time \<Longrightarrow> ThreadTimer t \<in> set (k_timer_list k') \<and> due k' (ThreadTimer t) = sint time"
      using k2(5) m by simp
    show "\<forall>u. th_current_priority (k_threads k' u) = th_current_priority (k_threads k u)"
      using frame_stat(6)[OF k'(3)] k2(3) by simp
  qed (use k2 k2(3) same s2 m sched_frame_lock[OF k'(3)] in simp_all)
qed

lemma set_error_kipc [simp]:
  "k_sem (set_error e t k) = k_sem k" "k_mutex (set_error e t k) = k_mutex k"
  "k_event (set_error e t k) = k_event k" "k_mb (set_error e t k) = k_mb k" "k_mq (set_error e t k) = k_mq k"
  "ipc_flag a (set_error e t k) = ipc_flag a k" "k_tick (set_error e t k) = k_tick k"
  "k_obj_type (set_error e t k) = k_obj_type k" "ktimer.more (set_error e t k) = ktimer.more k"
  "on_time (set_error e t k) = on_time k"
proof -
  have m: "ksched.more (set_error e t k) = ksched.more k" by simp
  show "ipc_flag a (set_error e t k) = ipc_flag a k" "k_tick (set_error e t k) = k_tick k"
    "k_obj_type (set_error e t k) = k_obj_type k" "ktimer.more (set_error e t k) = ktimer.more k"
    "on_time (set_error e t k) = on_time k"
    using more_fields[OF m] more_preds[OF m] by (simp_all add: ipc_flag_def on_time_def)
  then have mm: "ktimer.more (set_error e t k) = ktimer.more k" by simp
  show "k_sem (set_error e t k) = k_sem k" "k_mutex (set_error e t k) = k_mutex k"
    "k_event (set_error e t k) = k_event k" "k_mb (set_error e t k) = k_mb k" "k_mq (set_error e t k) = k_mq k"
    using kipc_more[OF mm] by simp_all
qed

section \<open>Waking the first waiter\<close>

text \<open>Waking the first thread of a list, if there is one, and scheduling.\<close>

definition wake_first :: "qhead \<Rightarrow> 'a ktimer_scheme \<Rightarrow> 'a ktimer_scheme option" where
  "wake_first l k = (if k_queues k l \<noteq> [] then do { k1 \<leftarrow> rt_ipc_list_resume l k; rt_schedule k1 } else Some k)"

text \<open>What is left of the waiting time after the thread has run again.\<close>

definition time_left :: "32 word \<Rightarrow> u32 \<Rightarrow> u32 \<Rightarrow> 32 word" where
  "time_left timeout since now =
    (if 0 < sint timeout then (let r = timeout - (now - since) in if sint r < 0 then 0 else r) else timeout)"

lemma wake_first_ok:
  assumes inv: "sys_inv {} k" and l: "wait_head l"
  obtains k' where "wake_first l k = Some k'" "sys_inv {} k'" "k_queues k' l = tl (k_queues k l)"
    "\<forall>m. wait_head m \<and> m \<noteq> l \<longrightarrow> k_queues k' m = k_queues k m" "ktimer.more k' = ktimer.more k"
    "k_obj_type k' = k_obj_type k"
    "\<forall>t ts. k_queues k l = t # ts \<longrightarrow> tstat k' t \<in> {RT_THREAD_READY, RT_THREAD_RUNNING} \<and>
       th_error (k_threads k' t) = th_error (k_threads k t)"
proof (cases "k_queues k l")
  case Nil
  then show ?thesis using inv by (intro that[of k]) (simp_all add: wake_first_def)
next
  case (Cons t ts)
  obtain k1 where k1: "rt_ipc_list_resume l k = Some k1" "sys_inv {} k1"
    "k_threads k1 = (k_threads k)(t := set_stat (back_stat t k) (k_threads k t))"
    "k_queues k1 l = ts" "\<forall>m. wait_head m \<and> m \<noteq> l \<longrightarrow> k_queues k1 m = k_queues k m"
    "k_timer_list k1 = removeAll (ThreadTimer t) (k_timer_list k)" "due k1 = due k"
    "k_current k1 = k_current k" "k_lock_nest k1 = k_lock_nest k" "k_irq_nest k1 = k_irq_nest k"
    "k_tick k1 = k_tick k" "k_obj_type k1 = k_obj_type k" "ktimer.more k1 = ktimer.more k"
    by (rule rt_ipc_list_resume_ok[OF inv l Cons])
  obtain k' where k': "rt_schedule k1 = Some k'" "sys_inv {} k'" "sched_frame k1 k'" "ksched.more k' = ksched.more k1"
    by (rule schedule_sys[OF k1(2)])
  have run: "wake_first l k = Some k'" using Cons k1(1) k'(1) by (simp add: wake_first_def)
  have "tstat k1 t \<in> {RT_THREAD_READY, RT_THREAD_RUNNING}" using k1(3) by (simp add: back_stat_def)
  then have st: "tstat k' t \<in> {RT_THREAD_READY, RT_THREAD_RUNNING}" using frame_stat(3)[OF k'(3), of t] by blast
  have er: "th_error (k_threads k' t) = th_error (k_threads k t)" using frame_stat(4)[OF k'(3), of t] k1(3) by simp
  have qm: "\<forall>m. wait_head m \<and> m \<noteq> l \<longrightarrow> k_queues k' m = k_queues k m"
    using frame_queue[OF k'(3)] k1(5) by simp
  show ?thesis
    by (rule that[OF run k'(2) _ qm]) (use frame_queue[OF k'(3) l] k1(4,12,13) Cons st er more_fields(4,8)[OF k'(4)] in auto)
qed

section \<open>Waking leaves the objects alone\<close>

definition same_objects :: "'a kobj_scheme \<Rightarrow> 'a kobj_scheme \<Rightarrow> bool" where
  "same_objects k k' \<longleftrightarrow> k_obj_type k' = k_obj_type k \<and> k_obj_name k' = k_obj_name k \<and> k_containers k' = k_containers k"

lemma same_objects_inv: "same_objects k k' \<Longrightarrow> obj_inv k' \<longleftrightarrow> obj_inv k"
  by (simp add: same_objects_def obj_inv_def rt_object_get_type_def)

lemma same_objects_set_error [simp]: "same_objects k (set_error e t k)"
  by (simp add: same_objects_def set_error_def upd_thread_def)

lemma rt_thread_resume_objects: "rt_thread_resume t k = Some (e, k') \<Longrightarrow> same_objects k k'"
  by (auto simp: rt_thread_resume_def rt_timer_stop_def rt_schedule_insert_thread_def same_objects_def timer_remove_def
      set_timer_flag_def upd_thread_def rt_assert_Some Let_def split: if_splits Option.bind_splits)

lemma rt_ipc_list_resume_all_objects:
  assumes "sys_inv {} k" "wait_head l" "rt_ipc_list_resume_all l k = Some k'"
  shows "same_objects k k'"
  using assms(1,3)
proof (induction "k_queues k l" arbitrary: k)
  case Nil
  then show ?case by (subst (asm) rt_ipc_list_resume_all.simps) (simp add: same_objects_def)
next
  case (Cons t ts)
  let ?k = "set_error (- RT_ERROR) t k"
  have i: "sys_inv {} ?k" using Cons.prems(1) by (simp add: set_error_sys)
  have q: "k_queues ?k l = t # ts" using Cons.hyps(2) by simp
  have s: "tstat ?k t = RT_THREAD_SUSPEND" by (rule waiting_suspended[OF i assms(2)]) (use q in simp)
  obtain k1 where r: "rt_ipc_list_resume l ?k = Some k1" and k1: "sys_inv {} k1" "k_queues k1 l = ts"
    using rt_ipc_list_resume_ok[OF i assms(2) q] by metis
  then obtain e where e: "rt_thread_resume t ?k = Some (e, k1)" using q by (auto simp: rt_ipc_list_resume_def)
  have "rt_ipc_list_resume_all l k1 = Some k'"
    using Cons.prems(2) Cons.hyps(2)[symmetric] e by (subst (asm) rt_ipc_list_resume_all.simps) simp
  then have "same_objects k1 k'" using Cons.hyps(1)[OF k1(2)[symmetric] k1(1)] by simp
  moreover have "same_objects ?k k1" by (rule rt_thread_resume_objects[OF e])
  moreover have "same_objects k ?k" by simp
  ultimately show ?case by (simp add: same_objects_def)
qed

end
