(* ===== verification/Sem.thy ===== *)
theory Sem
  imports Ipc
begin

text \<open>
  Counting semaphores (\<open>rt_sem_*\<close> of \<open>src/ipc.c\<close>). The value is a 16-bit counter; a
  release with threads waiting hands the semaphore to the first of them and leaves the counter.
\<close>

section \<open>Operations\<close>

definition sem_setup :: "nat \<Rightarrow> u16 \<Rightarrow> u8 \<Rightarrow> 'a kipc_scheme \<Rightarrow> 'a kipc_scheme" where
  "sem_setup a value flag k =
    set_ipc_flag a flag ((rt_ipc_object_init a k)\<lparr>k_sem := (k_sem k)(a := value)\<rparr>)"

definition rt_sem_init :: "nat \<Rightarrow> u8 list \<Rightarrow> u32 \<Rightarrow> u8 \<Rightarrow> 'a kipc_scheme \<Rightarrow> (rt_err \<times> 'a kipc_scheme) option" where
  "rt_sem_init a name value flag k = do {
     rt_assert (value < 0x10000);
     k1 \<leftarrow> rt_object_init (IpcObj a) RT_Object_Class_Semaphore name k;
     Some (RT_EOK, sem_setup a (ucast value) flag k1)
   }"

definition rt_sem_detach :: "nat \<Rightarrow> 'a kipc_scheme \<Rightarrow> (rt_err \<times> 'a kipc_scheme) option" where
  "rt_sem_detach a k = do {
     rt_assert (ipc_is RT_Object_Class_Semaphore a k);
     rt_assert (rt_object_is_systemobject (IpcObj a) k);
     k1 \<leftarrow> rt_ipc_list_resume_all (Pend a) k;
     Some (RT_EOK, rt_object_detach (IpcObj a) k1)
   }"

definition rt_sem_create ::
    "nat option \<Rightarrow> u8 list \<Rightarrow> u32 \<Rightarrow> u8 \<Rightarrow> 'a kipc_scheme \<Rightarrow> (nat option \<times> 'a kipc_scheme) option" where
  "rt_sem_create mem name value flag k = do {
     rt_assert (k_irq_nest k = 0);
     rt_assert (value < 0x10000);
     (_, k1) \<leftarrow> rt_object_allocate (map_option IpcObj mem) RT_Object_Class_Semaphore name k;
     (case mem of None \<Rightarrow> Some (None, k1)
      | Some a \<Rightarrow> Some (Some a, sem_setup a (ucast value) flag k1))
   }"

definition rt_sem_delete :: "nat \<Rightarrow> 'a kipc_scheme \<Rightarrow> (rt_err \<times> 'a kipc_scheme) option" where
  "rt_sem_delete a k = do {
     rt_assert (k_irq_nest k = 0);
     rt_assert (ipc_is RT_Object_Class_Semaphore a k);
     rt_assert (\<not> rt_object_is_systemobject (IpcObj a) k);
     k1 \<leftarrow> rt_ipc_list_resume_all (Pend a) k;
     k2 \<leftarrow> rt_object_delete (IpcObj a) k1;
     Some (RT_EOK, k2)
   }"

definition rt_sem_take :: "nat \<Rightarrow> 32 word \<Rightarrow> 'a kipc_scheme \<Rightarrow> (rt_err, 'a kipc_scheme) call option" where
  "rt_sem_take a time k = do {
     rt_assert (ipc_is RT_Object_Class_Semaphore a k);
     if 0 < k_sem k a then Some (Done RT_EOK (k\<lparr>k_sem := (k_sem k)(a := k_sem k a - 1)\<rparr>))
     else if time = 0 then Some (Done (- RT_ETIMEOUT) k)
     else do {
       rt_assert (in_thread_context k);
       t \<leftarrow> rt_thread_self k;
       let k1 = set_error RT_EOK t k;
       k2 \<leftarrow> ipc_wait (Pend a) t (ipc_flag a k1) time k1;
       k3 \<leftarrow> rt_schedule k2;
       Some (Blocked k3)
     }
   }"

text \<open>What a taker that had to wait returns, when its thread runs again.\<close>

definition rt_sem_take_return :: "nat \<Rightarrow> 'a ksched_scheme \<Rightarrow> rt_err" where
  "rt_sem_take_return t k = (if th_error (k_threads k t) \<noteq> RT_EOK then th_error (k_threads k t) else RT_EOK)"

definition rt_sem_trytake :: "nat \<Rightarrow> 'a kipc_scheme \<Rightarrow> (rt_err, 'a kipc_scheme) call option" where
  "rt_sem_trytake a k = rt_sem_take a 0 k"

definition rt_sem_release :: "nat \<Rightarrow> 'a kipc_scheme \<Rightarrow> (rt_err \<times> 'a kipc_scheme) option" where
  "rt_sem_release a k = do {
     rt_assert (ipc_is RT_Object_Class_Semaphore a k);
     if k_queues k (Pend a) \<noteq> [] then do {
       k1 \<leftarrow> rt_ipc_list_resume (Pend a) k;
       k2 \<leftarrow> rt_schedule k1;
       Some (RT_EOK, k2)
     } else Some (RT_EOK, k\<lparr>k_sem := (k_sem k)(a := k_sem k a + 1)\<rparr>)
   }"

definition rt_sem_control :: "nat \<Rightarrow> int \<Rightarrow> u32 \<Rightarrow> 'a kipc_scheme \<Rightarrow> (rt_err \<times> 'a kipc_scheme) option" where
  "rt_sem_control a cmd arg k = do {
     rt_assert (ipc_is RT_Object_Class_Semaphore a k);
     if cmd = RT_IPC_CMD_RESET then do {
       k1 \<leftarrow> rt_ipc_list_resume_all (Pend a) k;
       let k2 = k1\<lparr>k_sem := (k_sem k1)(a := ucast arg)\<rparr>;
       k3 \<leftarrow> rt_schedule k2;
       Some (RT_EOK, k3)
     } else Some (- RT_ERROR, k)
   }"

section \<open>Waiting and waking\<close>

text \<open>A semaphore is never both available and waited for.\<close>

definition sem_inv :: "nat \<Rightarrow> 'a kipc_scheme \<Rightarrow> bool" where
  "sem_inv a k \<longleftrightarrow> (0 < k_sem k a \<longrightarrow> k_queues k (Pend a) = [])"

lemma rt_sem_take_blocks:
  assumes inv: "sys_inv {} k" and c: "k_current k = Some t" "tstat k t = RT_THREAD_RUNNING" "k_irq_nest k = 0"
    and a: "ipc_is RT_Object_Class_Semaphore a k" "ipc_flag a k \<in> {RT_IPC_FLAG_FIFO, RT_IPC_FLAG_PRIO}"
    and v: "k_sem k a = 0" and tm: "time \<noteq> 0" "time \<noteq> 0x7fffffff"
  obtains k' where "rt_sem_take a time k = Some (Blocked k')" "sys_inv {} k'" "tstat k' t = RT_THREAD_SUSPEND"
    "k_queues k' (Pend a) = ipc_insert (ipc_flag a k) (\<lambda>s. th_current_priority (k_threads k s)) t (k_queues k (Pend a))"
    "th_error (k_threads k' t) = RT_EOK" "k_sem k' = k_sem k"
    "0 < sint time \<Longrightarrow> ThreadTimer t \<in> set (k_timer_list k') \<and> due k' (ThreadTimer t) = sint time"
    "on_time k \<Longrightarrow> on_time k'"
proof -
  let ?k1 = "set_error RT_EOK t k"
  have i1: "sys_inv {} ?k1" using inv by (simp add: set_error_sys)
  have c1: "k_current ?k1 = Some t" "tstat ?k1 t = RT_THREAD_RUNNING" using c by (simp_all del: set_error_simps(1))
  have pr: "(\<lambda>s. th_current_priority (k_threads ?k1 s)) = (\<lambda>s. th_current_priority (k_threads k s))" by auto
  obtain k2 k' where k': "ipc_wait (Pend a) t (ipc_flag a k) time ?k1 = Some k2" "rt_schedule k2 = Some k'" "sys_inv {} k'"
    "k_queues k' (Pend a) = ipc_insert (ipc_flag a k) (\<lambda>s. th_current_priority (k_threads ?k1 s)) t (k_queues ?k1 (Pend a))"
    "tstat k' t = RT_THREAD_SUSPEND" "th_error (k_threads k' t) = th_error (k_threads ?k1 t)"
    "0 < sint time \<Longrightarrow> ThreadTimer t \<in> set (k_timer_list k') \<and> due k' (ThreadTimer t) = sint time"
    "ktimer.more k' = ktimer.more ?k1" "on_time ?k1 \<Longrightarrow> on_time k'"
    using block_ok[OF i1 c1 wait_head_simps(1)[of a] a(2) tm(2)] by metis
  have "rt_sem_take a time k = Some (Blocked k')"
    using a v tm(1) c k'(1,2) by (simp add: rt_sem_take_def in_thread_context_def rt_thread_self_def Let_def)
  then show ?thesis
    by (rule that) (use k' kipc_more(1)[OF k'(8)] pr in simp_all)
qed

lemma rt_sem_release_wakes:
  assumes inv: "sys_inv {} k" and a: "ipc_is RT_Object_Class_Semaphore a k" and q: "k_queues k (Pend a) = t # ts"
  obtains k' where "rt_sem_release a k = Some (RT_EOK, k')" "sys_inv {} k'" "k_queues k' (Pend a) = ts"
    "tstat k' t \<in> {RT_THREAD_READY, RT_THREAD_RUNNING}" "th_error (k_threads k' t) = th_error (k_threads k t)"
    "ThreadTimer t \<notin> set (k_timer_list k')" "k_sem k' = k_sem k"
proof -
  obtain k1 where k1: "rt_ipc_list_resume (Pend a) k = Some k1" "sys_inv {} k1"
    "k_threads k1 = (k_threads k)(t := set_stat (back_stat t k) (k_threads k t))"
    "k_queues k1 (Pend a) = ts" "k_timer_list k1 = removeAll (ThreadTimer t) (k_timer_list k)"
    "ktimer.more k1 = ktimer.more k"
    using rt_ipc_list_resume_ok[OF inv wait_head_simps(1) q] by metis
  obtain k' where k': "rt_schedule k1 = Some k'" "sys_inv {} k'" "sched_frame k1 k'" "ksched.more k' = ksched.more k1"
    by (rule schedule_sys[OF k1(2)])
  have "tstat k1 t \<in> {RT_THREAD_READY, RT_THREAD_RUNNING}" using k1(3) by (simp add: back_stat_def)
  then have st: "tstat k' t \<in> {RT_THREAD_READY, RT_THREAD_RUNNING}" using frame_stat(3)[OF k'(3), of t] by blast
  have run: "rt_sem_release a k = Some (RT_EOK, k')"
    using a q k1(1) k'(1) by (simp add: rt_sem_release_def)
  have er: "th_error (k_threads k' t) = th_error (k_threads k t)" using frame_stat(4)[OF k'(3), of t] k1(3) by simp
  show ?thesis
    by (rule that[OF run k'(2) _ st er]) (use frame_queue[OF k'(3), of "Pend a"] k1 sched_sem[OF k'(4)] kipc_more(1)[OF k1(6)]
      more_fields[OF k'(4)] in simp_all)
qed

lemma rt_sem_detach_ok:
  assumes inv: "sys_inv {} k" "obj_inv k"
    and a: "ipc_is RT_Object_Class_Semaphore a k" "rt_object_is_systemobject (IpcObj a) k"
  shows "\<exists>k'. rt_sem_detach a k = Some (RT_EOK, k') \<and> obj_inv k' \<and> k_queues k' (Pend a) = [] \<and>
    (\<forall>t \<in> set (k_queues k (Pend a)). th_error (k_threads k' t) = - RT_ERROR \<and>
       tstat k' t \<in> {RT_THREAD_READY, RT_THREAD_RUNNING}) \<and>
    (\<forall>t. t \<notin> set (k_queues k (Pend a)) \<longrightarrow> k_threads k' t = k_threads k t) \<and>
    (\<forall>c. IpcObj a \<notin> set (k_containers k' c))"
proof -
  obtain k1 where k1: "rt_ipc_list_resume_all (Pend a) k = Some k1" "k_queues k1 (Pend a) = []"
    "\<forall>t \<in> set (k_queues k (Pend a)). th_error (k_threads k1 t) = - RT_ERROR \<and> tstat k1 t \<in> {RT_THREAD_READY, RT_THREAD_RUNNING}"
    "\<forall>t. t \<notin> set (k_queues k (Pend a)) \<longrightarrow> k_threads k1 t = k_threads k t"
    using rt_ipc_list_resume_all_ok[OF inv(1) wait_head_simps(1)] by metis
  have o1: "obj_inv k1"
    using same_objects_inv[OF rt_ipc_list_resume_all_objects[OF inv(1) wait_head_simps(1) k1(1)]] inv(2) by simp
  have run: "rt_sem_detach a k = Some (RT_EOK, rt_object_detach (IpcObj a) k1)" using a k1(1) by (simp add: rt_sem_detach_def)
  have f: "k_queues (rt_object_detach (IpcObj a) k1) = k_queues k1" "k_threads (rt_object_detach (IpcObj a) k1) = k_threads k1"
    by (simp_all add: rt_object_detach_def unlink_object_def)
  show ?thesis using run obj_inv_detach[OF o1] f k1(2-4) by (intro exI[of _ "rt_object_detach (IpcObj a) k1"]) simp
qed

text \<open>With the scheduler locked the taker is not switched away from.\<close>

lemma rt_sem_take_locked:
  assumes inv: "sys_inv {} k" and c: "k_current k = Some t" "tstat k t = RT_THREAD_RUNNING" "k_irq_nest k = 0"
    and a: "ipc_is RT_Object_Class_Semaphore a k" "ipc_flag a k \<in> {RT_IPC_FLAG_FIFO, RT_IPC_FLAG_PRIO}"
    and v: "k_sem k a = 0" and tm: "time \<noteq> 0" "time \<noteq> 0x7fffffff" and lk: "k_lock_nest k \<noteq> 0"
  shows "\<exists>k'. rt_sem_take a time k = Some (Blocked k') \<and> k_current k' = Some t \<and>
    tstat k' t = RT_THREAD_SUSPEND \<and> rt_sem_take_return t k' = RT_EOK \<and> k_sem k' = k_sem k"
proof -
  let ?k1 = "set_error RT_EOK t k"
  have i1: "sys_inv {} ?k1" using inv by (simp add: set_error_sys)
  have s1: "tstat ?k1 t \<in> {RT_THREAD_READY, RT_THREAD_RUNNING}" using c by simp
  obtain k2 where k2: "ipc_wait (Pend a) t (ipc_flag a k) time ?k1 = Some k2"
    "k_threads k2 = (k_threads ?k1)(t := set_stat RT_THREAD_SUSPEND (k_threads ?k1 t))"
    "k_current k2 = k_current ?k1" "k_lock_nest k2 = k_lock_nest ?k1" "ktimer.more k2 = ktimer.more ?k1"
    using ipc_wait_ok[OF i1 s1 wait_head_simps(1)[of a] a(2) tm(2)] by metis
  have "rt_schedule k2 = Some k2" by (rule schedule_idle) (use k2(4) lk in simp)
  then have "rt_sem_take a time k = Some (Blocked k2)"
    using a v tm(1) c k2(1) by (simp add: rt_sem_take_def in_thread_context_def rt_thread_self_def Let_def)
  then show ?thesis using k2(2,3) c(1) kipc_more(1)[OF k2(5)]
    by (intro exI[of _ k2]) (simp add: rt_sem_take_return_def)
qed

end
