(* ===== verification/Mutex.thy ===== *)
theory Mutex
  imports Ipc
begin

text \<open>
  Recursive mutexes with priority inheritance (\<open>rt_mutex_*\<close> of \<open>src/ipc.c\<close>). Signals are
  not configured, so a waiter is never woken with \<open>-RT_EINTR\<close> and the jump back to
  \<open>__again\<close> is not taken.
\<close>

section \<open>Operations\<close>

definition upd_mutex :: "nat \<Rightarrow> (mutex \<Rightarrow> mutex) \<Rightarrow> 'a kipc_scheme \<Rightarrow> 'a kipc_scheme" where
  "upd_mutex a f k = k\<lparr>k_mutex := (k_mutex k)(a := f (k_mutex k a))\<rparr>"

definition free_mutex :: mutex where
  "free_mutex = \<lparr>mx_value = 1, mx_original_priority = 0xFF, mx_hold = 0, mx_owner = None\<rparr>"

definition mutex_setup :: "nat \<Rightarrow> u8 \<Rightarrow> 'a kipc_scheme \<Rightarrow> 'a kipc_scheme" where
  "mutex_setup a flag k = set_ipc_flag a flag (upd_mutex a (\<lambda>_. free_mutex) (rt_ipc_object_init a k))"

definition rt_mutex_init :: "nat \<Rightarrow> u8 list \<Rightarrow> u8 \<Rightarrow> 'a kipc_scheme \<Rightarrow> (rt_err \<times> 'a kipc_scheme) option" where
  "rt_mutex_init a name flag k = do {
     k1 \<leftarrow> rt_object_init (IpcObj a) RT_Object_Class_Mutex name k;
     Some (RT_EOK, mutex_setup a flag k1)
   }"

definition rt_mutex_detach :: "nat \<Rightarrow> 'a kipc_scheme \<Rightarrow> (rt_err \<times> 'a kipc_scheme) option" where
  "rt_mutex_detach a k = do {
     rt_assert (ipc_is RT_Object_Class_Mutex a k);
     rt_assert (rt_object_is_systemobject (IpcObj a) k);
     k1 \<leftarrow> rt_ipc_list_resume_all (Pend a) k;
     Some (RT_EOK, rt_object_detach (IpcObj a) k1)
   }"

definition rt_mutex_create :: "nat option \<Rightarrow> u8 list \<Rightarrow> u8 \<Rightarrow> 'a kipc_scheme \<Rightarrow> (nat option \<times> 'a kipc_scheme) option" where
  "rt_mutex_create mem name flag k = do {
     rt_assert (k_irq_nest k = 0);
     (_, k1) \<leftarrow> rt_object_allocate (map_option IpcObj mem) RT_Object_Class_Mutex name k;
     (case mem of None \<Rightarrow> Some (None, k1) | Some a \<Rightarrow> Some (Some a, mutex_setup a flag k1))
   }"

definition rt_mutex_delete :: "nat \<Rightarrow> 'a kipc_scheme \<Rightarrow> (rt_err \<times> 'a kipc_scheme) option" where
  "rt_mutex_delete a k = do {
     rt_assert (k_irq_nest k = 0);
     rt_assert (ipc_is RT_Object_Class_Mutex a k);
     rt_assert (\<not> rt_object_is_systemobject (IpcObj a) k);
     k1 \<leftarrow> rt_ipc_list_resume_all (Pend a) k;
     k2 \<leftarrow> rt_object_delete (IpcObj a) k1;
     Some (RT_EOK, k2)
   }"

text \<open>
  \<open>rt_mutex_take\<close>. A blocked taker first lends its priority to the owner; a null owner of an
  unavailable mutex would be read through, the failure \<open>None\<close>.
\<close>

definition rt_mutex_take :: "nat \<Rightarrow> 32 word \<Rightarrow> 'a kipc_scheme \<Rightarrow> (rt_err, 'a kipc_scheme) call option" where
  "rt_mutex_take a time k = do {
     rt_assert (in_thread_context k);
     rt_assert (ipc_is RT_Object_Class_Mutex a k);
     t \<leftarrow> rt_thread_self k;
     let k1 = set_error RT_EOK t k;
     if mx_owner (k_mutex k1 a) = Some t then
       Some (Done RT_EOK (upd_mutex a (\<lambda>m. m\<lparr>mx_hold := mx_hold m + 1\<rparr>) k1))
     else if 0 < mx_value (k_mutex k1 a) then
       Some (Done RT_EOK (upd_mutex a (\<lambda>m. m\<lparr>mx_value := mx_value m - 1,
         mx_original_priority := th_current_priority (k_threads k1 t),
         mx_hold := mx_hold m + 1, mx_owner := Some t\<rparr>) k1))
     else if time = 0 then Some (Done (- RT_ETIMEOUT) (set_error (- RT_ETIMEOUT) t k1))
     else do {
       w \<leftarrow> mx_owner (k_mutex k1 a);
       k2 \<leftarrow> (if th_current_priority (k_threads k1 t) < th_current_priority (k_threads k1 w)
               then map_option snd (rt_thread_control w RT_THREAD_CTRL_CHANGE_PRIORITY
                                      (th_current_priority (k_threads k1 t)) k1)
               else Some k1);
       k3 \<leftarrow> ipc_wait (Pend a) t (ipc_flag a k2) time k2;
       k4 \<leftarrow> rt_schedule k3;
       Some (Blocked k4)
     }
   }"

definition rt_mutex_take_return :: "nat \<Rightarrow> 'a ksched_scheme \<Rightarrow> rt_err" where
  "rt_mutex_take_return t k = (if th_error (k_threads k t) \<noteq> RT_EOK then th_error (k_threads k t) else RT_EOK)"

definition rt_mutex_release :: "nat \<Rightarrow> 'a kipc_scheme \<Rightarrow> (rt_err \<times> 'a kipc_scheme) option" where
  "rt_mutex_release a k = do {
     rt_assert (ipc_is RT_Object_Class_Mutex a k);
     rt_assert (in_thread_context k);
     t \<leftarrow> rt_thread_self k;
     if mx_owner (k_mutex k a) \<noteq> Some t then Some (- RT_ERROR, set_error (- RT_ERROR) t k)
     else do {
       let k1 = upd_mutex a (\<lambda>m. m\<lparr>mx_hold := mx_hold m - 1\<rparr>) k;
       if mx_hold (k_mutex k1 a) = 0 then do {
         k2 \<leftarrow> (if mx_original_priority (k_mutex k1 a) \<noteq> th_current_priority (k_threads k1 t)
                 then map_option snd (rt_thread_control t RT_THREAD_CTRL_CHANGE_PRIORITY
                                        (mx_original_priority (k_mutex k1 a)) k1)
                 else Some k1);
         (case k_queues k2 (Pend a) of
            [] \<Rightarrow> Some (RT_EOK, upd_mutex a (\<lambda>m. m\<lparr>mx_value := mx_value m + 1,
                     mx_original_priority := 0xFF, mx_owner := None\<rparr>) k2)
          | w # _ \<Rightarrow> do {
              let k3 = upd_mutex a (\<lambda>m. m\<lparr>mx_original_priority := th_current_priority (k_threads k2 w),
                          mx_hold := mx_hold m + 1, mx_owner := Some w\<rparr>) k2;
              k4 \<leftarrow> rt_ipc_list_resume (Pend a) k3;
              k5 \<leftarrow> rt_schedule k4;
              Some (RT_EOK, k5)
            })
       } else Some (RT_EOK, k1)
     }
   }"

definition rt_mutex_control :: "nat \<Rightarrow> int \<Rightarrow> 'a kipc_scheme \<Rightarrow> (rt_err \<times> 'a kipc_scheme) option" where
  "rt_mutex_control a cmd k = do {
     rt_assert (ipc_is RT_Object_Class_Mutex a k);
     Some (- RT_ERROR, k)
   }"

section \<open>The invariant of a mutex\<close>

text \<open>
  Free with no waiters, or held: then the value is 0, the count is positive, and the owner's
  priority when it took the mutex is a priority of the scheduler.
\<close>

definition mutex_inv :: "nat \<Rightarrow> 'a kipc_scheme \<Rightarrow> bool" where
  "mutex_inv a k \<longleftrightarrow> (case mx_owner (k_mutex k a) of
      None \<Rightarrow> mx_value (k_mutex k a) = 1 \<and> mx_hold (k_mutex k a) = 0 \<and> k_queues k (Pend a) = []
    | Some t \<Rightarrow> mx_value (k_mutex k a) = 0 \<and> 0 < mx_hold (k_mutex k a) \<and>
        unat (mx_original_priority (k_mutex k a)) < RT_THREAD_PRIORITY_MAX \<and> t \<notin> set (k_queues k (Pend a)))"

lemma upd_mutex_simps [simp]:
  "k_mutex (upd_mutex a f k) = (k_mutex k)(a := f (k_mutex k a))" "k_threads (upd_mutex a f k) = k_threads k"
  "k_queues (upd_mutex a f k) = k_queues k" "k_current (upd_mutex a f k) = k_current k"
  "k_lock_nest (upd_mutex a f k) = k_lock_nest k" "k_irq_nest (upd_mutex a f k) = k_irq_nest k"
  "sys_inv X (upd_mutex a f k) = sys_inv X k" "k_timer_list (upd_mutex a f k) = k_timer_list k"
  "k_obj_type (upd_mutex a f k) = k_obj_type k" "k_obj_flag (upd_mutex a f k) = k_obj_flag k"
  by (simp_all add: upd_mutex_def)

lemma hold_pos: "mx_hold m \<noteq> 0xFF \<Longrightarrow> 0 < mx_hold m + 1"
proof -
  assume a: "mx_hold m \<noteq> 0xFF"
  have "mx_hold m + 1 \<noteq> 0"
  proof
    assume "mx_hold m + 1 = 0"
    then have "mx_hold m = - 1" by (simp add: eq_neg_iff_add_eq_0)
    then show False using a by simp
  qed
  then show ?thesis by (simp add: word_neq_0_conv)
qed

lemma rt_mutex_take_now:
  assumes inv: "mutex_inv a k" and ctx: "in_thread_context k" "k_current k = Some t" and ty: "ipc_is RT_Object_Class_Mutex a k"
    and p: "prio_of k t < RT_THREAD_PRIORITY_MAX" and w: "t \<notin> set (k_queues k (Pend a))"
    and o: "mx_owner (k_mutex k a) = None \<or> mx_owner (k_mutex k a) = Some t \<and> mx_hold (k_mutex k a) \<noteq> 0xFF"
  obtains k' where "rt_mutex_take a time k = Some (Done RT_EOK k')" "mutex_inv a k'"
    "mx_owner (k_mutex k' a) = Some t" "mx_hold (k_mutex k' a) = mx_hold (k_mutex k a) + 1"
    "sys_inv X k \<Longrightarrow> sys_inv X k'"
proof (cases "mx_owner (k_mutex k a)")
  case None
  have v: "mx_value (k_mutex k a) = 1" "mx_hold (k_mutex k a) = 0" "k_queues k (Pend a) = []"
    using inv None by (simp_all add: mutex_inv_def)
  let ?k = "upd_mutex a (\<lambda>m. m\<lparr>mx_value := mx_value m - 1,
         mx_original_priority := th_current_priority (k_threads (set_error RT_EOK t k) t),
         mx_hold := mx_hold m + 1, mx_owner := Some t\<rparr>) (set_error RT_EOK t k)"
  have "rt_mutex_take a time k = Some (Done RT_EOK ?k)"
    using None v ctx ty by (simp add: rt_mutex_take_def rt_thread_self_def Let_def)
  then show ?thesis
    by (rule that) (use None v p in \<open>simp_all add: mutex_inv_def prio_of_def set_error_sys\<close>)
next
  case (Some u)
  then have u: "u = t" "mx_hold (k_mutex k a) \<noteq> 0xFF" using o by auto
  have v: "mx_value (k_mutex k a) = 0" "0 < mx_hold (k_mutex k a)"
    "unat (mx_original_priority (k_mutex k a)) < RT_THREAD_PRIORITY_MAX"
    using inv Some by (simp_all add: mutex_inv_def)
  let ?k = "upd_mutex a (\<lambda>m. m\<lparr>mx_hold := mx_hold m + 1\<rparr>) (set_error RT_EOK t k)"
  have "rt_mutex_take a time k = Some (Done RT_EOK ?k)"
    using Some u ctx ty by (simp add: rt_mutex_take_def rt_thread_self_def Let_def)
  then show ?thesis
    by (rule that) (use Some u v w hold_pos[OF u(2)] in \<open>simp_all add: mutex_inv_def set_error_sys\<close>)
qed

text \<open>A blocked taker: the owner runs at least at the taker's priority from then on.\<close>

lemma rt_mutex_take_blocks:
  assumes inv: "sys_inv {} k" and c: "k_current k = Some t" "tstat k t = RT_THREAD_RUNNING" "k_irq_nest k = 0"
    and ty: "ipc_is RT_Object_Class_Mutex a k" "ipc_flag a k \<in> {RT_IPC_FLAG_FIFO, RT_IPC_FLAG_PRIO}"
    and mi: "mutex_inv a k" and o: "mx_owner (k_mutex k a) = Some w" "w \<noteq> t"
    and lw: "tstat k w \<in> {RT_THREAD_READY, RT_THREAD_RUNNING, RT_THREAD_SUSPEND}"
    and tm: "time \<noteq> 0" "time \<noteq> 0x7fffffff"
  obtains k' where "rt_mutex_take a time k = Some (Blocked k')" "sys_inv {} k'" "mutex_inv a k'"
    "tstat k' t = RT_THREAD_SUSPEND" "t \<in> set (k_queues k' (Pend a))"
    "th_current_priority (k_threads k' w) \<le> th_current_priority (k_threads k' t)"
    "k_mutex k' = k_mutex k"
proof -
  let ?k1 = "set_error RT_EOK t k"
  let ?p = "th_current_priority (k_threads k t)"
  have i1: "sys_inv {} ?k1" using inv by (simp add: set_error_sys)
  have v: "mx_value (k_mutex k a) = 0" using mi o by (simp add: mutex_inv_def)
  have pt: "unat ?p < RT_THREAD_PRIORITY_MAX"
    using live_mask[OF inv, of t] c(2) by (simp add: mask_ok_def prio_of_def)
  obtain k2 where k2: "(if th_current_priority (k_threads ?k1 t) < th_current_priority (k_threads ?k1 w)
               then map_option snd (rt_thread_control w RT_THREAD_CTRL_CHANGE_PRIORITY
                                      (th_current_priority (k_threads ?k1 t)) ?k1)
               else Some ?k1) = Some k2" "sys_inv {} k2"
      "th_current_priority (k_threads k2 w) \<le> ?p" "k_threads k2 t = k_threads ?k1 t"
      "tstat k2 t = RT_THREAD_RUNNING" "k_current k2 = Some t" "k_irq_nest k2 = 0" "ksched.more k2 = ksched.more ?k1"
      "k_queues k2 (Pend a) = k_queues k (Pend a)" "tstat k2 w = tstat k w"
  proof (cases "?p < th_current_priority (k_threads k w)")
    case True
    have lw1: "tstat ?k1 w \<in> {RT_THREAD_READY, RT_THREAD_RUNNING, RT_THREAD_SUSPEND}" using lw
      by (simp del: set_error_simps(1))
    obtain k2 where k2: "rt_thread_control w RT_THREAD_CTRL_CHANGE_PRIORITY ?p ?k1 = Some (RT_EOK, k2)" "sys_inv {} k2"
      "th_current_priority (k_threads k2 w) = ?p" "\<forall>u. u \<noteq> w \<longrightarrow> k_threads k2 u = k_threads ?k1 u"
      "\<forall>u. tstat k2 u = tstat ?k1 u \<and> th_error (k_threads k2 u) = th_error (k_threads ?k1 u)"
      "\<forall>l. (\<forall>q. l \<noteq> Ready q) \<longrightarrow> k_queues k2 l = k_queues ?k1 l"
      "k_current k2 = k_current ?k1" "k_lock_nest k2 = k_lock_nest ?k1" "k_irq_nest k2 = k_irq_nest ?k1"
      "ksched.more k2 = ksched.more ?k1"
      by (rule rt_thread_control_priority_ok[OF i1 pt lw1])
    have "tstat k2 u = tstat k u" for u using k2(5) by simp
    then show ?thesis
      by (intro that[of k2]) (use k2 True o(2) c in simp_all)
  next
    case False
    have le: "th_current_priority (k_threads k w) \<le> ?p" using False by simp
    show ?thesis by (intro that[of ?k1]) (use False le i1 o(2) c in \<open>simp_all del: not_less\<close>)
  qed
  have mk2: "ktimer.more k2 = ktimer.more k"
    using more_fields(8)[OF k2(8)] by simp
  have fl: "ipc_flag a k2 = ipc_flag a k" using more_fields(5)[OF k2(8)] set_error_kipc(6)[of a RT_EOK t k]
    by (simp add: ipc_flag_def)
  have ff: "ipc_flag a k2 \<in> {RT_IPC_FLAG_FIFO, RT_IPC_FLAG_PRIO}" using ty(2) fl by simp
  obtain k3 k' where k': "ipc_wait (Pend a) t (ipc_flag a k2) time k2 = Some k3" "rt_schedule k3 = Some k'" "sys_inv {} k'"
    "k_queues k' (Pend a) = ipc_insert (ipc_flag a k2) (\<lambda>s. th_current_priority (k_threads k2 s)) t (k_queues k2 (Pend a))"
    "tstat k' t = RT_THREAD_SUSPEND" "ktimer.more k' = ktimer.more k2"
    "\<forall>u. th_current_priority (k_threads k' u) = th_current_priority (k_threads k2 u)"
    using block_ok[OF k2(2,6,5) wait_head_simps(1)[of a] ff tm(2)] by metis
  have mx: "k_mutex k' = k_mutex k" using kipc_more(2)[of k' k] k'(6) mk2 by simp
  have qs: "set (k_queues k' (Pend a)) = insert t (set (k_queues k (Pend a)))"
    using k'(4) ipc_insert_set(1)[OF ff] k2(9) by simp
  have run: "rt_mutex_take a time k = Some (Blocked k')"
  proof -
    have own: "mx_owner (k_mutex ?k1 a) = Some w" "\<not> 0 < mx_value (k_mutex ?k1 a)" using o v by simp_all
    have ctx: "in_thread_context k" "rt_thread_self k = Some t"
      using c by (simp_all add: in_thread_context_def rt_thread_self_def)
    show ?thesis unfolding rt_mutex_take_def Let_def
      using own ctx ty(1) o(2) tm(1) k2(1) k'(1,2) by simp
  qed
  have mi': "mutex_inv a k'" using mi o mx qs by (simp add: mutex_inv_def)
  show ?thesis
    by (rule that[OF run k'(3) mi' k'(5)]) (use qs k'(7) k2(3,4) mx in simp_all)
qed

text \<open>Giving the owner its priority back.\<close>

lemma restore_priority_ok:
  assumes inv: "sys_inv {} k" and c: "k_current k = Some t" "tstat k t = RT_THREAD_RUNNING"
    and p: "unat p < RT_THREAD_PRIORITY_MAX"
  obtains k' where "(if p \<noteq> th_current_priority (k_threads k t)
      then map_option snd (rt_thread_control t RT_THREAD_CTRL_CHANGE_PRIORITY p k) else Some k) = Some k'"
    "sys_inv {} k'" "th_current_priority (k_threads k' t) = p" "\<forall>u. u \<noteq> t \<longrightarrow> k_threads k' u = k_threads k u"
    "\<forall>l. wait_head l \<longrightarrow> k_queues k' l = k_queues k l" "\<forall>u. tstat k' u = tstat k u"
    "k_current k' = k_current k" "k_irq_nest k' = k_irq_nest k" "ksched.more k' = ksched.more k"
proof (cases "p \<noteq> th_current_priority (k_threads k t)")
  case True
  have lv: "tstat k t \<in> {RT_THREAD_READY, RT_THREAD_RUNNING, RT_THREAD_SUSPEND}" using c by simp
  obtain k' where k': "rt_thread_control t RT_THREAD_CTRL_CHANGE_PRIORITY p k = Some (RT_EOK, k')" "sys_inv {} k'"
    "th_current_priority (k_threads k' t) = p" "\<forall>u. u \<noteq> t \<longrightarrow> k_threads k' u = k_threads k u"
    "\<forall>u. tstat k' u = tstat k u \<and> th_error (k_threads k' u) = th_error (k_threads k u)"
    "\<forall>l. (\<forall>q. l \<noteq> Ready q) \<longrightarrow> k_queues k' l = k_queues k l"
    "k_current k' = k_current k" "k_lock_nest k' = k_lock_nest k" "k_irq_nest k' = k_irq_nest k"
    "ksched.more k' = ksched.more k"
    by (rule rt_thread_control_priority_ok[OF inv p lv])
  then show ?thesis using True by (intro that[of k']) (auto simp: wait_head_def)
next
  case False
  then show ?thesis using inv by (intro that[of k]) simp_all
qed

lemma rt_mutex_release_not_owner:
  "ipc_is RT_Object_Class_Mutex a k \<Longrightarrow> in_thread_context k \<Longrightarrow> k_current k = Some t \<Longrightarrow>
   mx_owner (k_mutex k a) \<noteq> Some t \<Longrightarrow>
   rt_mutex_release a k = Some (- RT_ERROR, set_error (- RT_ERROR) t k)"
  by (simp add: rt_mutex_release_def rt_thread_self_def)

lemma rt_mutex_release_inner:
  assumes "ipc_is RT_Object_Class_Mutex a k" "in_thread_context k" "k_current k = Some t"
    "mx_owner (k_mutex k a) = Some t" "mutex_inv a k" "mx_hold (k_mutex k a) \<noteq> 1"
  obtains k' where "rt_mutex_release a k = Some (RT_EOK, k')" "mutex_inv a k'" "mx_owner (k_mutex k' a) = Some t"
    "mx_hold (k_mutex k' a) = mx_hold (k_mutex k a) - 1" "sys_inv X k' = sys_inv X k"
proof -
  let ?k = "upd_mutex a (\<lambda>m. m\<lparr>mx_hold := mx_hold m - 1\<rparr>) k"
  have h: "mx_hold (k_mutex k a) - 1 \<noteq> 0" using assms(6) by simp
  have "rt_mutex_release a k = Some (RT_EOK, ?k)"
    using assms h by (simp add: rt_mutex_release_def rt_thread_self_def Let_def)
  then show ?thesis
    by (rule that) (use assms h in \<open>simp_all add: mutex_inv_def word_gt_0\<close>)
qed

text \<open>The last release hands the mutex to the first waiter, or frees it.\<close>

lemma rt_mutex_release_last:
  assumes inv: "sys_inv {} k" and c: "k_current k = Some t" "tstat k t = RT_THREAD_RUNNING" "k_irq_nest k = 0"
    and ty: "ipc_is RT_Object_Class_Mutex a k" and mi: "mutex_inv a k"
    and o: "mx_owner (k_mutex k a) = Some t" "mx_hold (k_mutex k a) = 1"
  obtains k' where "rt_mutex_release a k = Some (RT_EOK, k')" "sys_inv {} k'" "mutex_inv a k'"
    "th_current_priority (k_threads k' t) = mx_original_priority (k_mutex k a)"
    "mx_owner (k_mutex k' a) = (case k_queues k (Pend a) of [] \<Rightarrow> None | w # _ \<Rightarrow> Some w)"
    "k_queues k' (Pend a) = tl (k_queues k (Pend a))"
    "\<forall>w ws. k_queues k (Pend a) = w # ws \<longrightarrow> tstat k' w \<in> {RT_THREAD_READY, RT_THREAD_RUNNING} \<and>
       th_error (k_threads k' w) = th_error (k_threads k w)"
proof -
  let ?k1 = "upd_mutex a (\<lambda>m. m\<lparr>mx_hold := mx_hold m - 1\<rparr>) k"
  let ?p = "mx_original_priority (k_mutex k a)"
  have v: "mx_value (k_mutex k a) = 0" "unat ?p < RT_THREAD_PRIORITY_MAX" "t \<notin> set (k_queues k (Pend a))"
    using mi o by (simp_all add: mutex_inv_def)
  have i1: "sys_inv {} ?k1" using inv by simp
  have c1: "k_current ?k1 = Some t" "tstat ?k1 t = RT_THREAD_RUNNING" using c by simp_all
  obtain k2 where k2: "(if ?p \<noteq> th_current_priority (k_threads ?k1 t)
      then map_option snd (rt_thread_control t RT_THREAD_CTRL_CHANGE_PRIORITY ?p ?k1) else Some ?k1) = Some k2"
    "sys_inv {} k2" "th_current_priority (k_threads k2 t) = ?p" "\<forall>u. u \<noteq> t \<longrightarrow> k_threads k2 u = k_threads ?k1 u"
    "\<forall>l. wait_head l \<longrightarrow> k_queues k2 l = k_queues ?k1 l" "\<forall>u. tstat k2 u = tstat ?k1 u"
    "k_current k2 = k_current ?k1" "k_irq_nest k2 = k_irq_nest ?k1" "ksched.more k2 = ksched.more ?k1"
    by (rule restore_priority_ok[OF i1 c1 v(2)])
  have pe: "mx_original_priority (k_mutex ?k1 a) = ?p" by simp
  have step: "(if mx_original_priority (k_mutex ?k1 a) \<noteq> th_current_priority (k_threads ?k1 t)
      then map_option snd (rt_thread_control t RT_THREAD_CTRL_CHANGE_PRIORITY (mx_original_priority (k_mutex ?k1 a)) ?k1)
      else Some ?k1) = Some k2" unfolding pe by (rule k2(1))
  have mx2: "k_mutex k2 = k_mutex ?k1" by (rule kipc_more(2)[OF more_fields(8)[OF k2(9)]])
  have q2: "k_queues k2 (Pend a) = k_queues k (Pend a)" using k2(5) by simp
  have ctx: "in_thread_context k" "rt_thread_self k = Some t"
    using c by (simp_all add: in_thread_context_def rt_thread_self_def)
  have rel: "rt_mutex_release a k = (case k_queues k2 (Pend a) of
      [] \<Rightarrow> Some (RT_EOK, upd_mutex a (\<lambda>m. m\<lparr>mx_value := mx_value m + 1, mx_original_priority := 0xFF, mx_owner := None\<rparr>) k2)
    | w # _ \<Rightarrow> Option.bind (rt_ipc_list_resume (Pend a)
          (upd_mutex a (\<lambda>m. m\<lparr>mx_original_priority := th_current_priority (k_threads k2 w),
             mx_hold := mx_hold m + 1, mx_owner := Some w\<rparr>) k2))
        (\<lambda>k4. Option.bind (rt_schedule k4) (\<lambda>k5. Some (RT_EOK, k5))))"
    unfolding rt_mutex_release_def Let_def using ctx ty o step by (simp split del: if_split)
  show ?thesis
  proof (cases "k_queues k (Pend a)")
    case Nil
    let ?k' = "upd_mutex a (\<lambda>m. m\<lparr>mx_value := mx_value m + 1, mx_original_priority := 0xFF, mx_owner := None\<rparr>) k2"
    have run: "rt_mutex_release a k = Some (RT_EOK, ?k')"
      unfolding rel q2 Nil by simp
    have i': "sys_inv {} ?k'" using k2(2) by simp
    have mi': "mutex_inv a ?k'" using mx2 v o q2 Nil by (simp add: mutex_inv_def)
    show ?thesis by (rule that[OF run i' mi']) (use k2(3) q2 Nil in simp_all)
  next
    case (Cons w ws)
    let ?k3 = "upd_mutex a (\<lambda>m. m\<lparr>mx_original_priority := th_current_priority (k_threads k2 w),
                          mx_hold := mx_hold m + 1, mx_owner := Some w\<rparr>) k2"
    have i3: "sys_inv {} ?k3" using k2(2) by simp
    have q3: "k_queues ?k3 (Pend a) = w # ws" using q2 Cons by simp
    have wt: "w \<noteq> t" using v(3) Cons by auto
    obtain k4 where k4: "rt_ipc_list_resume (Pend a) ?k3 = Some k4" "sys_inv {} k4"
      "k_threads k4 = (k_threads ?k3)(w := set_stat (back_stat w ?k3) (k_threads ?k3 w))"
      "k_queues k4 (Pend a) = ws" "\<forall>m. wait_head m \<and> m \<noteq> Pend a \<longrightarrow> k_queues k4 m = k_queues ?k3 m"
      "k_timer_list k4 = removeAll (ThreadTimer w) (k_timer_list ?k3)" "due k4 = due ?k3"
      "k_current k4 = k_current ?k3" "k_lock_nest k4 = k_lock_nest ?k3" "k_irq_nest k4 = k_irq_nest ?k3"
      "k_tick k4 = k_tick ?k3" "k_obj_type k4 = k_obj_type ?k3" "ktimer.more k4 = ktimer.more ?k3"
      by (rule rt_ipc_list_resume_ok[OF i3 wait_head_simps(1) q3])
    obtain k' where k': "rt_schedule k4 = Some k'" "sys_inv {} k'" "sched_frame k4 k'" "ksched.more k' = ksched.more k4"
      by (rule schedule_sys[OF k4(2)])
    have mx: "k_mutex k' = k_mutex ?k3"
      using kipc_more(2)[OF more_fields(8)[OF k'(4)]] kipc_more(2)[OF k4(13)] by simp
    have run: "rt_mutex_release a k = Some (RT_EOK, k')"
      unfolding rel q2 Cons by (simp add: k4(1) k'(1))
    have q': "k_queues k' (Pend a) = ws" using frame_queue[OF k'(3), of "Pend a"] k4(4) by simp
    have "w \<in> set (k_queues k2 (Pend a))" using q2 Cons by simp
    then have "tstat k2 w = RT_THREAD_SUSPEND" by (rule waiting_suspended[OF k2(2) wait_head_simps(1)])
    then have pw: "unat (th_current_priority (k_threads k2 w)) < RT_THREAD_PRIORITY_MAX"
      using live_mask[OF k2(2), of w] by (simp add: mask_ok_def prio_of_def)
    have dw: "w \<notin> set ws" using waiting_distinct[OF i3, of "Pend a"] q3 by simp
    have mi': "mutex_inv a k'" using mx mx2 v o pw q' dw by (simp add: mutex_inv_def)
    have "tstat k4 w \<in> {RT_THREAD_READY, RT_THREAD_RUNNING}" using k4(3) by (simp add: back_stat_def)
    then have st: "tstat k' w \<in> {RT_THREAD_READY, RT_THREAD_RUNNING}" using frame_stat(3)[OF k'(3), of w] by blast
    have er: "th_error (k_threads k' w) = th_error (k_threads k w)"
      using frame_stat(4)[OF k'(3), of w] k4(3) k2(4) wt by simp
    have pt: "th_current_priority (k_threads k' t) = ?p"
      using frame_stat(6)[OF k'(3), of t] k4(3) k2(3) wt by simp
    show ?thesis by (rule that[OF run k'(2) mi' pt]) (use mx q' Cons st er in auto)
  qed
qed

text \<open>Taking a mutex one owns and releasing it again is the identity on the mutex.\<close>

lemma rt_mutex_nested:
  assumes inv: "mutex_inv a k" and c: "in_thread_context k" "k_current k = Some t" "ipc_is RT_Object_Class_Mutex a k"
    and o: "mx_owner (k_mutex k a) = Some t" "mx_hold (k_mutex k a) \<noteq> 0xFF"
  shows "\<exists>k1 k2. rt_mutex_take a time k = Some (Done RT_EOK k1) \<and> mutex_inv a k1 \<and>
    mx_hold (k_mutex k1 a) = mx_hold (k_mutex k a) + 1 \<and> rt_mutex_release a k1 = Some (RT_EOK, k2) \<and>
    k_mutex k2 = k_mutex k \<and> k_queues k2 = k_queues k"
proof -
  let ?k1 = "upd_mutex a (\<lambda>m. m\<lparr>mx_hold := mx_hold m + 1\<rparr>) (set_error RT_EOK t k)"
  let ?k2 = "upd_mutex a (\<lambda>m. m\<lparr>mx_hold := mx_hold m - 1\<rparr>) ?k1"
  have "rt_mutex_take a time k = Some (Done RT_EOK ?k1)"
    using c o(1) by (simp add: rt_mutex_take_def rt_thread_self_def Let_def)
  moreover have "mutex_inv a ?k1" using inv o hold_pos[OF o(2)] by (simp add: mutex_inv_def)
  moreover have "mx_hold (k_mutex k a) \<noteq> 0" using inv o(1) by (auto simp: mutex_inv_def)
  then have "rt_mutex_release a ?k1 = Some (RT_EOK, ?k2)"
    using c o by (simp add: rt_mutex_release_def rt_thread_self_def Let_def ipc_is_def in_thread_context_def rt_object_get_type_def)
  moreover have "k_mutex ?k2 = k_mutex k" by (rule ext) (simp add: upd_mutex_def)
  ultimately show ?thesis by (intro exI[of _ ?k1] exI[of _ ?k2]) simp
qed

end
