(* ===== verification/Event.thy ===== *)
theory Event
  imports Ipc
begin

text \<open>
  Event sets (\<open>rt_event_*\<close> of \<open>src/ipc.c\<close>): threads wait for all or any of a set of bits,
  and a waiter that asked for it takes the bits away when it is woken.
\<close>

section \<open>Operations\<close>

definition RT_EVENT_FLAG_AND :: u8 where "RT_EVENT_FLAG_AND = 1"
definition RT_EVENT_FLAG_OR :: u8 where "RT_EVENT_FLAG_OR = 2"
definition RT_EVENT_FLAG_CLEAR :: u8 where "RT_EVENT_FLAG_CLEAR = 4"

definition set_event :: "nat \<Rightarrow> u32 \<Rightarrow> 'a kipc_scheme \<Rightarrow> 'a kipc_scheme" where
  "set_event a v k = k\<lparr>k_event := (k_event k)(a := v)\<rparr>"

definition event_setup :: "nat \<Rightarrow> u8 \<Rightarrow> 'a kipc_scheme \<Rightarrow> 'a kipc_scheme" where
  "event_setup a flag k = set_event a 0 (rt_ipc_object_init a (set_ipc_flag a flag k))"

definition rt_event_init :: "nat \<Rightarrow> u8 list \<Rightarrow> u8 \<Rightarrow> 'a kipc_scheme \<Rightarrow> (rt_err \<times> 'a kipc_scheme) option" where
  "rt_event_init a name flag k = do {
     k1 \<leftarrow> rt_object_init (IpcObj a) RT_Object_Class_Event name k;
     Some (RT_EOK, event_setup a flag k1)
   }"

definition rt_event_detach :: "nat \<Rightarrow> 'a kipc_scheme \<Rightarrow> (rt_err \<times> 'a kipc_scheme) option" where
  "rt_event_detach a k = do {
     rt_assert (ipc_is RT_Object_Class_Event a k);
     rt_assert (rt_object_is_systemobject (IpcObj a) k);
     k1 \<leftarrow> rt_ipc_list_resume_all (Pend a) k;
     Some (RT_EOK, rt_object_detach (IpcObj a) k1)
   }"

definition rt_event_create :: "nat option \<Rightarrow> u8 list \<Rightarrow> u8 \<Rightarrow> 'a kipc_scheme \<Rightarrow> (nat option \<times> 'a kipc_scheme) option" where
  "rt_event_create mem name flag k = do {
     rt_assert (k_irq_nest k = 0);
     (_, k1) \<leftarrow> rt_object_allocate (map_option IpcObj mem) RT_Object_Class_Event name k;
     (case mem of None \<Rightarrow> Some (None, k1) | Some a \<Rightarrow> Some (Some a, event_setup a flag k1))
   }"

definition rt_event_delete :: "nat \<Rightarrow> 'a kipc_scheme \<Rightarrow> (rt_err \<times> 'a kipc_scheme) option" where
  "rt_event_delete a k = do {
     rt_assert (ipc_is RT_Object_Class_Event a k);
     rt_assert (\<not> rt_object_is_systemobject (IpcObj a) k);
     rt_assert (k_irq_nest k = 0);
     k1 \<leftarrow> rt_ipc_list_resume_all (Pend a) k;
     k2 \<leftarrow> rt_object_delete (IpcObj a) k1;
     Some (RT_EOK, k2)
   }"

text \<open>The test \<open>rt_event_send\<close> makes for a waiting thread: \<open>RT_EVENT_FLAG_AND\<close> goes first.\<close>

definition event_met :: "u8 \<Rightarrow> u32 \<Rightarrow> u32 \<Rightarrow> bool" where
  "event_met info wanted ev \<longleftrightarrow>
    (if info AND RT_EVENT_FLAG_AND \<noteq> 0 then wanted AND ev = wanted
     else if info AND RT_EVENT_FLAG_OR \<noteq> 0 then wanted AND ev \<noteq> 0 else False)"

text \<open>One waiter in the loop of \<open>rt_event_send\<close>.\<close>

definition event_step :: "nat \<Rightarrow> nat \<Rightarrow> 'a kipc_scheme \<Rightarrow> (bool \<times> 'a kipc_scheme) option" where
  "event_step a t k =
    (let th = k_threads k t; ev = k_event k a in
     if event_met (th_event_info th) (th_event_set th) ev then do {
       let k1 = (if th_event_info th AND RT_EVENT_FLAG_AND = 0
                 then upd_thread t (\<lambda>th. th\<lparr>th_event_set := th_event_set th AND ev\<rparr>) k else k);
       let k2 = (if th_event_info th AND RT_EVENT_FLAG_CLEAR \<noteq> 0
                 then set_event a (k_event k1 a AND NOT (th_event_set (k_threads k1 t))) k1 else k1);
       (_, k3) \<leftarrow> rt_thread_resume t k2;
       Some (True, k3)
     } else Some (False, k))"

fun event_wake :: "nat \<Rightarrow> nat list \<Rightarrow> 'a kipc_scheme \<Rightarrow> (bool \<times> 'a kipc_scheme) option" where
  "event_wake a [] k = Some (False, k)"
| "event_wake a (t # ts) k = do {
     (w, k1) \<leftarrow> event_step a t k;
     (w', k2) \<leftarrow> event_wake a ts k1;
     Some (w \<or> w', k2)
   }"

definition rt_event_send :: "nat \<Rightarrow> u32 \<Rightarrow> 'a kipc_scheme \<Rightarrow> (rt_err \<times> 'a kipc_scheme) option" where
  "rt_event_send a bits k = do {
     rt_assert (ipc_is RT_Object_Class_Event a k);
     if bits = 0 then Some (- RT_ERROR, k)
     else do {
       let k1 = set_event a (k_event k a OR bits) k;
       (need_schedule, k2) \<leftarrow> event_wake a (k_queues k1 (Pend a)) k1;
       k3 \<leftarrow> (if need_schedule then rt_schedule k2 else Some k2);
       Some (RT_EOK, k3)
     }
   }"

text \<open>
  \<open>rt_event_recv\<close>: the error and the value stored through \<open>recved\<close>, \<open>None\<close> when nothing is
  stored.
\<close>

definition rt_event_recv :: "nat \<Rightarrow> u32 \<Rightarrow> u8 \<Rightarrow> 32 word \<Rightarrow> 'a kipc_scheme \<Rightarrow>
    (rt_err \<times> u32 option, 'a kipc_scheme) call option" where
  "rt_event_recv a bits opt timeout k = do {
     rt_assert (in_thread_context k);
     rt_assert (ipc_is RT_Object_Class_Event a k);
     if bits = 0 then Some (Done (- RT_ERROR, None) k)
     else do {
       t \<leftarrow> rt_thread_self k;
       let k1 = set_error RT_EOK t k;
       rt_assert (opt AND RT_EVENT_FLAG_AND \<noteq> 0 \<or> opt AND RT_EVENT_FLAG_OR \<noteq> 0);
       let met = (if opt AND RT_EVENT_FLAG_AND \<noteq> 0 then k_event k1 a AND bits = bits
                  else k_event k1 a AND bits \<noteq> 0);
       if met then
         Some (Done (RT_EOK, Some (k_event k1 a AND bits))
           (if opt AND RT_EVENT_FLAG_CLEAR \<noteq> 0 then set_event a (k_event k1 a AND NOT bits) k1 else k1))
       else if timeout = 0 then
         Some (Done (- RT_ETIMEOUT, None) (set_error (- RT_ETIMEOUT) t k1))
       else do {
         let k2 = upd_thread t (\<lambda>th. th\<lparr>th_event_set := bits, th_event_info := opt\<rparr>) k1;
         k3 \<leftarrow> ipc_wait (Pend a) t (ipc_flag a k2) timeout k2;
         k4 \<leftarrow> rt_schedule k3;
         Some (Blocked k4)
       }
     }
   }"

definition rt_event_recv_return :: "nat \<Rightarrow> 'a ksched_scheme \<Rightarrow> rt_err \<times> u32 option" where
  "rt_event_recv_return t k =
    (if th_error (k_threads k t) \<noteq> RT_EOK then (th_error (k_threads k t), None)
     else (th_error (k_threads k t), Some (th_event_set (k_threads k t))))"

definition rt_event_control :: "nat \<Rightarrow> int \<Rightarrow> 'a kipc_scheme \<Rightarrow> (rt_err \<times> 'a kipc_scheme) option" where
  "rt_event_control a cmd k = do {
     rt_assert (ipc_is RT_Object_Class_Event a k);
     if cmd = RT_IPC_CMD_RESET then do {
       k1 \<leftarrow> rt_ipc_list_resume_all (Pend a) k;
       let k2 = set_event a 0 k1;
       k3 \<leftarrow> rt_schedule k2;
       Some (RT_EOK, k3)
     } else Some (- RT_ERROR, k)
   }"

section \<open>No thread waits for an event that is there\<close>

definition event_waits :: "nat \<Rightarrow> 'a kipc_scheme \<Rightarrow> nat \<Rightarrow> bool" where
  "event_waits a k t \<longleftrightarrow> \<not> event_met (th_event_info (k_threads k t)) (th_event_set (k_threads k t)) (k_event k a)"

definition event_inv :: "nat \<Rightarrow> 'a kipc_scheme \<Rightarrow> bool" where
  "event_inv a k \<longleftrightarrow> (\<forall>t \<in> set (k_queues k (Pend a)). event_waits a k t)"

lemma event_met_mono: "event_met info wanted s \<Longrightarrow> s AND s' = s \<Longrightarrow> event_met info wanted s'"
proof -
  assume m: "event_met info wanted s" and s: "s AND s' = s"
  have sub: "bit s n \<Longrightarrow> bit s' n" for n using arg_cong[OF s, of "\<lambda>w. bit w n"] by (simp add: bit_and_iff)
  have "wanted AND s' = wanted" if w: "wanted AND s = wanted"
  proof (rule bit_eqI)
    fix n
    show "bit (wanted AND s') n \<longleftrightarrow> bit wanted n"
      using arg_cong[OF w, of "\<lambda>w. bit w n"] sub[of n] by (auto simp: bit_and_iff)
  qed
  moreover have "wanted AND s' \<noteq> 0" if w: "wanted AND s \<noteq> 0"
  proof -
    obtain n where "bit (wanted AND s) n" using w by (metis bit_eqI bit_0_eq bot_apply bot_bool_def)
    then have "bit (wanted AND s') n" using sub by (simp add: bit_and_iff)
    then show ?thesis by auto
  qed
  ultimately show ?thesis using m by (auto simp: event_met_def split: if_splits)
qed

lemma set_event_simps [simp]:
  "k_event (set_event a v k) = (k_event k)(a := v)" "k_threads (set_event a v k) = k_threads k"
  "k_queues (set_event a v k) = k_queues k" "k_current (set_event a v k) = k_current k"
  "k_irq_nest (set_event a v k) = k_irq_nest k" "sys_inv X (set_event a v k) = sys_inv X k"
  "k_obj_type (set_event a v k) = k_obj_type k" "k_obj_flag (set_event a v k) = k_obj_flag k"
  by (simp_all add: set_event_def)

lemma upd_event_sys: "sys_inv X (upd_thread t (\<lambda>th. th\<lparr>th_event_set := g th\<rparr>) k) \<longleftrightarrow> sys_inv X k"
  "sys_inv X (upd_thread t (\<lambda>th. th\<lparr>th_event_set := g th, th_event_info := i\<rparr>) k) \<longleftrightarrow> sys_inv X k"
  by (rule upd_thread_sys_inv; simp add: stat_of_def)+

lemma stat_of_event [simp]: "stat_of (th\<lparr>th_event_set := s\<rparr>) = stat_of th"
  "stat_of (th\<lparr>th_event_set := s, th_event_info := i\<rparr>) = stat_of th"
  by (simp_all add: stat_of_def)

lemma and_subset: "(x AND NOT y) AND x = x AND NOT (y :: u32)"
  by (rule bit_eqI) (auto simp: bit_simps)

text \<open>One step wakes its thread exactly when its condition is met, and clears bits only.\<close>

lemma event_step_ok:
  assumes inv: "sys_inv {} k" and t: "t \<in> set (k_queues k (Pend a))"
  obtains w k' where "event_step a t k = Some (w, k')" "sys_inv {} k'" "w \<longleftrightarrow> \<not> event_waits a k t"
    "k_queues k' (Pend a) = (if w then removeAll t (k_queues k (Pend a)) else k_queues k (Pend a))"
    "\<forall>u. u \<noteq> t \<longrightarrow> k_threads k' u = k_threads k u" "\<not> w \<longrightarrow> k' = k"
    "k_event k' a AND k_event k a = k_event k' a"
    "w \<longrightarrow> tstat k' t \<in> {RT_THREAD_READY, RT_THREAD_RUNNING} \<and> th_error (k_threads k' t) = th_error (k_threads k t) \<and>
       th_event_set (k_threads k' t) AND k_event k a = th_event_set (k_threads k' t)"
proof (cases "event_waits a k t")
  case True
  then show ?thesis using inv by (intro that[of False k]) (simp_all add: event_step_def event_waits_def)
next
  case False
  let ?i = "th_event_info (k_threads k t)"
  let ?f = "\<lambda>th. th\<lparr>th_event_set := th_event_set th AND k_event k a\<rparr>"
  define k1 where "k1 = (if ?i AND RT_EVENT_FLAG_AND = 0 then upd_thread t ?f k else k)"
  define k2 where "k2 = (if ?i AND RT_EVENT_FLAG_CLEAR \<noteq> 0
                 then set_event a (k_event k1 a AND NOT (th_event_set (k_threads k1 t))) k1 else k1)"
  have s: "tstat k t = RT_THREAD_SUSPEND" by (rule waiting_suspended[OF inv wait_head_simps(1) t])
  have i2: "sys_inv {} k2" using inv by (simp add: k2_def k1_def upd_event_sys)
  have s2: "tstat k2 t = RT_THREAD_SUSPEND" using s by (simp add: k2_def k1_def)
  obtain k3 where k3: "rt_thread_resume t k2 = Some (RT_EOK, k3)" "sys_inv {} k3"
    "k_threads k3 = (k_threads k2)(t := set_stat (back_stat t k2) (k_threads k2 t))"
    "k_queues k3 = (if k_current k2 = Some t then q_remove t (k_queues k2)
                    else q_push_back (Ready (prio_of k2 t)) t (q_remove t (k_queues k2)))"
    "k_timer_list k3 = removeAll (ThreadTimer t) (k_timer_list k2)" "k_timers k3 = k_timers k2" "due k3 = due k2"
    "k_current k3 = k_current k2" "k_lock_nest k3 = k_lock_nest k2" "k_irq_nest k3 = k_irq_nest k2"
    "k_tick k3 = k_tick k2" "k_obj_type k3 = k_obj_type k2" "ktimer.more k3 = ktimer.more k2"
    by (rule rt_thread_resume_ok[OF i2 s2])
  have ev: "k_event k3 = k_event k2" by (rule kipc_more(3)[OF k3(13)])
  have e1: "k_event k1 = k_event k" by (simp add: k1_def upd_thread_def)
  have run: "event_step a t k = Some (True, k3)"
    using False k3(1) by (simp add: event_step_def event_waits_def Let_def flip: k1_def k2_def)
  have sub: "k_event k2 a AND k_event k a = k_event k2 a" using e1 by (simp add: k2_def and_subset)
  have es: "th_event_set (k_threads k2 t) AND k_event k a = th_event_set (k_threads k2 t)"
    using False by (auto simp: k2_def k1_def event_waits_def event_met_def split: if_splits)
  have er: "th_error (k_threads k2 t) = th_error (k_threads k t)" by (simp add: k2_def k1_def)
  have q: "k_queues k2 = k_queues k" by (simp add: k2_def k1_def)
  have oth: "\<forall>u. u \<noteq> t \<longrightarrow> k_threads k3 u = k_threads k u" using k3(3) by (simp add: k2_def k1_def)
  show ?thesis
    by (rule that[OF run k3(2)]) (use False k3(3,4) q oth ev sub es er in \<open>simp_all add: back_stat_def\<close>)
qed

lemma event_waits_less:
  assumes "event_waits a k t" "k_threads k' t = k_threads k t" "k_event k' a AND k_event k a = k_event k' a"
  shows "event_waits a k' t"
  using assms event_met_mono[OF _ assms(3)] unfolding event_waits_def by metis

text \<open>The whole loop: every thread left in the list is still waiting at the end.\<close>

lemma event_wake_ok:
  assumes "sys_inv {} k" "k_queues k (Pend a) = us @ ts" "\<forall>u \<in> set us. event_waits a k u"
  shows "\<exists>w k'. event_wake a ts k = Some (w, k') \<and> sys_inv {} k' \<and> event_inv a k' \<and>
    set us \<subseteq> set (k_queues k' (Pend a)) \<and>
    set (k_queues k' (Pend a)) \<subseteq> set (us @ ts) \<and> (\<forall>u. u \<notin> set ts \<longrightarrow> k_threads k' u = k_threads k u) \<and>
    (\<forall>u \<in> set ts. u \<notin> set (k_queues k' (Pend a)) \<longrightarrow> tstat k' u \<in> {RT_THREAD_READY, RT_THREAD_RUNNING} \<and>
       th_error (k_threads k' u) = th_error (k_threads k u) \<and> \<not> event_waits a k u) \<and>
    (\<forall>u \<in> set (us @ ts). u \<in> set (k_queues k' (Pend a)) \<longrightarrow> k_threads k' u = k_threads k u) \<and>
    k_event k' a AND k_event k a = k_event k' a"
  using assms
proof (induction ts arbitrary: us k)
  case Nil
  then show ?case by (intro exI[of _ False] exI[of _ k]) (simp add: event_inv_def)
next
  case (Cons t ts)
  have t: "t \<in> set (k_queues k (Pend a))" using Cons.prems(2) by simp
  have d: "distinct (us @ t # ts)" using waiting_distinct[OF Cons.prems(1), of "Pend a"] Cons.prems(2) by simp
  obtain w k1 where k1: "event_step a t k = Some (w, k1)" "sys_inv {} k1" "w \<longleftrightarrow> \<not> event_waits a k t"
    "k_queues k1 (Pend a) = (if w then removeAll t (k_queues k (Pend a)) else k_queues k (Pend a))"
    "\<forall>u. u \<noteq> t \<longrightarrow> k_threads k1 u = k_threads k u" "\<not> w \<longrightarrow> k1 = k"
    "k_event k1 a AND k_event k a = k_event k1 a"
    "w \<longrightarrow> tstat k1 t \<in> {RT_THREAD_READY, RT_THREAD_RUNNING} \<and> th_error (k_threads k1 t) = th_error (k_threads k t) \<and>
       th_event_set (k_threads k1 t) AND k_event k a = th_event_set (k_threads k1 t)"
    by (rule event_step_ok[OF Cons.prems(1) t])
  define vs where "vs = (if w then us else us @ [t])"
  have q1: "k_queues k1 (Pend a) = vs @ ts" using k1(4) Cons.prems(2) d by (simp add: vs_def)
  have v1: "\<forall>u \<in> set vs. event_waits a k1 u"
  proof
    fix u assume u: "u \<in> set vs"
    show "event_waits a k1 u"
    proof (cases "u = t")
      case True
      then have "\<not> w" using u d by (auto simp: vs_def split: if_splits)
      then show ?thesis using k1(3,6) True by simp
    next
      case False
      then have "u \<in> set us" using u by (auto simp: vs_def split: if_splits)
      then show ?thesis using Cons.prems(3) k1(5,7) False by (intro event_waits_less[of a k u k1]) auto
    qed
  qed
  obtain w' k' where k': "event_wake a ts k1 = Some (w', k')" "sys_inv {} k'" "event_inv a k'"
    "set vs \<subseteq> set (k_queues k' (Pend a))"
    "set (k_queues k' (Pend a)) \<subseteq> set (vs @ ts)" "\<forall>u. u \<notin> set ts \<longrightarrow> k_threads k' u = k_threads k1 u"
    "\<forall>u \<in> set ts. u \<notin> set (k_queues k' (Pend a)) \<longrightarrow> tstat k' u \<in> {RT_THREAD_READY, RT_THREAD_RUNNING} \<and>
       th_error (k_threads k' u) = th_error (k_threads k1 u) \<and> \<not> event_waits a k1 u"
    "\<forall>u \<in> set (vs @ ts). u \<in> set (k_queues k' (Pend a)) \<longrightarrow> k_threads k' u = k_threads k1 u"
    "k_event k' a AND k_event k1 a = k_event k' a"
    using Cons.IH[OF k1(2) q1 v1] by blast
  have run: "event_wake a (t # ts) k = Some (w \<or> w', k')" using k1(1) k'(1) by simp
  have sub: "set (k_queues k' (Pend a)) \<subseteq> set (us @ t # ts)" using k'(5) by (auto simp: vs_def split: if_splits)
  have oth: "k_threads k' u = k_threads k u" if "u \<notin> set (t # ts)" for u using that k'(6) k1(5) by simp
  have tk: "t \<in> set (k_queues k' (Pend a)) \<Longrightarrow> \<not> w" using k'(5) d by (auto simp: vs_def split: if_splits)
  have woken: "tstat k' u \<in> {RT_THREAD_READY, RT_THREAD_RUNNING} \<and> th_error (k_threads k' u) = th_error (k_threads k u) \<and>
      \<not> event_waits a k u"
    if u: "u \<in> set (t # ts)" "u \<notin> set (k_queues k' (Pend a))" for u
  proof (cases "u = t")
    case True
    have "w" using u(2) k'(4) True by (auto simp: vs_def split: if_splits)
    then show ?thesis using k1(3,8) k'(6) d True by simp
  next
    case False
    then show ?thesis using u k'(7) k1(5) event_waits_less[OF _ _ k1(7), of u] by auto
  qed
  have kept: "k_threads k' u = k_threads k u" if u: "u \<in> set (us @ t # ts)" "u \<in> set (k_queues k' (Pend a))" for u
  proof (cases "u = t")
    case True
    then show ?thesis using tk u(2) k1(6) k'(6) d by simp
  next
    case False
    then have "u \<in> set (vs @ ts)" using u(1) by (auto simp: vs_def)
    then show ?thesis using u(2) k'(8) k1(5) False by simp
  qed
  have "k_event k' a AND k_event k a = k_event k' a" using k'(9) k1(7) by (metis and.assoc)
  moreover have "set us \<subseteq> set (k_queues k' (Pend a))" using k'(4) by (auto simp: vs_def split: if_splits)
  ultimately show ?case using run k'(2,3) sub oth woken kept by blast
qed

lemma event_inv_frame:
  assumes "event_inv a k" "sched_frame k k'" "ksched.more k' = ksched.more k" "sys_inv {} k"
  shows "event_inv a k'"
proof -
  have q: "k_queues k' (Pend a) = k_queues k (Pend a)" by (rule frame_queue[OF assms(2)]) simp
  have e: "k_event k' = k_event k" by (rule kipc_more(3)[OF more_fields(8)[OF assms(3)]])
  have "k_threads k' u = k_threads k u" if "u \<in> set (k_queues k (Pend a))" for u
    by (rule frame_stat(2)[OF assms(2)]) (use waiting_suspended[OF assms(4) wait_head_simps(1) that] in simp)
  then show ?thesis using assms(1) q e by (simp add: event_inv_def event_waits_def)
qed

lemma rt_event_send_ok:
  assumes inv: "sys_inv {} k" and ty: "ipc_is RT_Object_Class_Event a k" and b: "bits \<noteq> 0"
  obtains k' where "rt_event_send a bits k = Some (RT_EOK, k')" "sys_inv {} k'" "event_inv a k'"
    "k_event k' a AND (k_event k a OR bits) = k_event k' a"
    "set (k_queues k' (Pend a)) \<subseteq> set (k_queues k (Pend a))"
    "\<forall>u \<in> set (k_queues k (Pend a)) - set (k_queues k' (Pend a)).
       tstat k' u \<in> {RT_THREAD_READY, RT_THREAD_RUNNING} \<and> th_error (k_threads k' u) = th_error (k_threads k u) \<and>
       event_met (th_event_info (k_threads k u)) (th_event_set (k_threads k u)) (k_event k a OR bits)"
proof -
  let ?k1 = "set_event a (k_event k a OR bits) k"
  have i1: "sys_inv {} ?k1" using inv by simp
  have q1: "k_queues ?k1 (Pend a) = [] @ k_queues k (Pend a)" by simp
  obtain w k2 where k2: "event_wake a (k_queues k (Pend a)) ?k1 = Some (w, k2)" "sys_inv {} k2" "event_inv a k2"
    "set (k_queues k2 (Pend a)) \<subseteq> set ([] @ k_queues k (Pend a))"
    "\<forall>u \<in> set (k_queues k (Pend a)). u \<notin> set (k_queues k2 (Pend a)) \<longrightarrow>
       tstat k2 u \<in> {RT_THREAD_READY, RT_THREAD_RUNNING} \<and> th_error (k_threads k2 u) = th_error (k_threads ?k1 u) \<and>
       \<not> event_waits a ?k1 u"
    "k_event k2 a AND k_event ?k1 a = k_event k2 a"
    using event_wake_ok[OF i1 q1] by auto
  obtain k3 where k3: "rt_schedule k2 = Some k3" "sys_inv {} k3" "sched_frame k2 k3" "ksched.more k3 = ksched.more k2"
    by (rule schedule_sys[OF k2(2)])
  define k' where "k' = (if w then k3 else k2)"
  have run: "rt_event_send a bits k = Some (RT_EOK, k')"
    using ty b k2(1) k3(1) by (simp add: rt_event_send_def k'_def Let_def)
  have i': "sys_inv {} k'" using k2(2) k3(2) by (simp add: k'_def)
  have e': "event_inv a k'" using k2(3) event_inv_frame[OF k2(3) k3(3,4) k2(2)] by (simp add: k'_def)
  have q': "k_queues k' (Pend a) = k_queues k2 (Pend a)" using frame_queue[OF k3(3), of "Pend a"] by (simp add: k'_def)
  have v': "k_event k' = k_event k2" using kipc_more(3)[OF more_fields(8)[OF k3(4)]] by (simp add: k'_def)
  have f': "tstat k' u \<in> {RT_THREAD_READY, RT_THREAD_RUNNING} \<longleftrightarrow> tstat k2 u \<in> {RT_THREAD_READY, RT_THREAD_RUNNING}"
    "th_error (k_threads k' u) = th_error (k_threads k2 u)" for u
    using frame_stat(3,4)[OF k3(3), of u] by (simp_all add: k'_def)
  show ?thesis
  proof (rule that[OF run i' e'])
    show "k_event k' a AND (k_event k a OR bits) = k_event k' a" using k2(6) v' by simp
    show "set (k_queues k' (Pend a)) \<subseteq> set (k_queues k (Pend a))" using k2(4) q' by simp
    show "\<forall>u \<in> set (k_queues k (Pend a)) - set (k_queues k' (Pend a)).
       tstat k' u \<in> {RT_THREAD_READY, RT_THREAD_RUNNING} \<and> th_error (k_threads k' u) = th_error (k_threads k u) \<and>
       event_met (th_event_info (k_threads k u)) (th_event_set (k_threads k u)) (k_event k a OR bits)"
      unfolding f' q' using k2(5) by (auto simp: event_waits_def)
  qed
qed

lemma rt_event_recv_now:
  assumes ty: "ipc_is RT_Object_Class_Event a k" and ctx: "in_thread_context k" "k_current k = Some t"
    and b: "bits \<noteq> 0" and op: "opt AND RT_EVENT_FLAG_AND \<noteq> 0 \<or> opt AND RT_EVENT_FLAG_OR \<noteq> 0"
    and met: "event_met opt bits (k_event k a)"
  obtains k' where "rt_event_recv a bits opt timeout k = Some (Done (RT_EOK, Some (k_event k a AND bits)) k')"
    "k_event k' a = (if opt AND RT_EVENT_FLAG_CLEAR \<noteq> 0 then k_event k a AND NOT bits else k_event k a)"
    "k_queues k' = k_queues k" "sys_inv X k' \<longleftrightarrow> sys_inv X k"
proof -
  let ?k1 = "set_error RT_EOK t k"
  let ?k' = "if opt AND RT_EVENT_FLAG_CLEAR \<noteq> 0 then set_event a (k_event ?k1 a AND NOT bits) ?k1 else ?k1"
  have "bits AND k_event k a = k_event k a AND bits" by (rule and.commute)
  then have "rt_event_recv a bits opt timeout k = Some (Done (RT_EOK, Some (k_event k a AND bits)) ?k')"
    using ty ctx b op met
    by (simp add: rt_event_recv_def rt_thread_self_def Let_def event_met_def split: if_splits)
  then show ?thesis by (rule that) (simp_all add: set_error_sys)
qed

lemma rt_event_recv_blocks:
  assumes inv: "sys_inv {} k" and ei: "event_inv a k"
    and c: "k_current k = Some t" "tstat k t = RT_THREAD_RUNNING" "k_irq_nest k = 0"
    and ty: "ipc_is RT_Object_Class_Event a k" "ipc_flag a k \<in> {RT_IPC_FLAG_FIFO, RT_IPC_FLAG_PRIO}"
    and b: "bits \<noteq> 0" and op: "opt AND RT_EVENT_FLAG_AND \<noteq> 0 \<or> opt AND RT_EVENT_FLAG_OR \<noteq> 0"
    and nm: "\<not> event_met opt bits (k_event k a)" and tm: "timeout \<noteq> 0" "timeout \<noteq> 0x7fffffff"
  obtains k' where "rt_event_recv a bits opt timeout k = Some (Blocked k')" "sys_inv {} k'" "event_inv a k'"
    "t \<in> set (k_queues k' (Pend a))" "tstat k' t = RT_THREAD_SUSPEND" "k_event k' = k_event k"
proof -
  let ?k1 = "set_error RT_EOK t k"
  let ?k2 = "upd_thread t (\<lambda>th. th\<lparr>th_event_set := bits, th_event_info := opt\<rparr>) ?k1"
  have i2: "sys_inv {} ?k2" using inv by (simp add: upd_event_sys set_error_sys)
  have c2: "k_current ?k2 = Some t" "tstat ?k2 t = RT_THREAD_RUNNING" using c by simp_all
  have m2: "ksched.more ?k2 = ksched.more k" by simp
  have fl: "ipc_flag a ?k2 = ipc_flag a k" using more_fields(5)[OF m2] by (simp add: ipc_flag_def)
  have ff: "ipc_flag a ?k2 \<in> {RT_IPC_FLAG_FIFO, RT_IPC_FLAG_PRIO}" using ty(2) fl by simp
  obtain k3 where k3: "ipc_wait (Pend a) t (ipc_flag a ?k2) timeout ?k2 = Some k3" "sys_inv {} k3"
    "k_threads k3 = (k_threads ?k2)(t := set_stat RT_THREAD_SUSPEND (k_threads ?k2 t))"
    "k_queues k3 = (q_remove t (k_queues ?k2))(Pend a := ipc_insert (ipc_flag a ?k2) (\<lambda>s. th_current_priority (k_threads ?k2 s)) t (k_queues ?k2 (Pend a)))"
    "0 < sint timeout \<Longrightarrow> ThreadTimer t \<in> set (k_timer_list k3) \<and> due k3 (ThreadTimer t) = sint timeout"
    "k_current k3 = k_current ?k2" "k_lock_nest k3 = k_lock_nest ?k2" "k_irq_nest k3 = k_irq_nest ?k2"
    "k_tick k3 = k_tick ?k2" "k_obj_type k3 = k_obj_type ?k2" "ktimer.more k3 = ktimer.more ?k2" "on_time ?k2 \<Longrightarrow> on_time k3"
    using ipc_wait_ok[OF i2 _ wait_head_simps(1) ff tm(2), of t] c2 by auto
  obtain k' where k': "rt_schedule k3 = Some k'" "sys_inv {} k'" "sched_frame k3 k'" "ksched.more k' = ksched.more k3"
    by (rule schedule_sys[OF k3(2)])
  have ev3: "k_event k3 = k_event k" using kipc_more(3)[OF k3(11)] kipc_more(3)[OF more_fields(8)[OF m2]] by simp
  have q3: "set (k_queues k3 (Pend a)) = insert t (set (k_queues k (Pend a)))"
    using k3(4) ipc_insert_set(1)[OF ff] by simp
  have ei3: "event_inv a k3"
    unfolding event_inv_def q3 using ei nm k3(3) ev3 by (auto simp: event_inv_def event_waits_def)
  have run: "rt_event_recv a bits opt timeout k = Some (Blocked k')"
  proof -
    have nm': "(opt AND RT_EVENT_FLAG_AND \<noteq> 0 \<longrightarrow> k_event k a AND bits \<noteq> bits) \<and>
      (opt AND RT_EVENT_FLAG_AND = 0 \<longrightarrow> k_event k a AND bits = 0)"
      using nm op and.commute[of bits "k_event k a"] by (auto simp: event_met_def split: if_splits)
    have ctx: "in_thread_context k" "rt_thread_self k = Some t"
      using c by (simp_all add: in_thread_context_def rt_thread_self_def)
    show ?thesis unfolding rt_event_recv_def Let_def
      using ctx ty(1) b op tm(1) k3(1) k'(1) nm' by simp
  qed
  have s': "tstat k' t = RT_THREAD_SUSPEND" using frame_stat(1)[OF k'(3), of t] k3(3) by simp
  have ev': "k_event k' = k_event k" using kipc_more(3)[OF more_fields(8)[OF k'(4)]] ev3 by simp
  show ?thesis
    by (rule that[OF run k'(2) event_inv_frame[OF ei3 k'(3,4) k3(2)] _ s' ev'])
      (use frame_queue[OF k'(3), of "Pend a"] q3 in simp)
qed

end
