(* ===== verification/Fifo.thy ===== *)
theory Fifo
  imports Prelude
begin

text \<open>
  The contract of a bounded first-in first-out store, which mailboxes, message queues and byte
  ring buffers implement: \<open>content\<close> is what is stored, oldest first, \<open>cap\<close> how much fits.
\<close>

locale fifo =
  fixes ok :: "'s \<Rightarrow> bool" and cap :: "'s \<Rightarrow> nat" and content :: "'s \<Rightarrow> 'a list"
    and push :: "'a \<Rightarrow> 's \<Rightarrow> 's" and pop :: "'s \<Rightarrow> 'a \<times> 's" and item :: "'a \<Rightarrow> bool"
  assumes push_ok: "ok s \<Longrightarrow> item x \<Longrightarrow> length (content s) < cap s \<Longrightarrow> ok (push x s)"
    and push_cap: "ok s \<Longrightarrow> item x \<Longrightarrow> length (content s) < cap s \<Longrightarrow> cap (push x s) = cap s"
    and push_content: "ok s \<Longrightarrow> item x \<Longrightarrow> length (content s) < cap s \<Longrightarrow> content (push x s) = content s @ [x]"
    and pop_ok: "ok s \<Longrightarrow> content s \<noteq> [] \<Longrightarrow> ok (snd (pop s))"
    and pop_cap: "ok s \<Longrightarrow> content s \<noteq> [] \<Longrightarrow> cap (snd (pop s)) = cap s"
    and pop_hd: "ok s \<Longrightarrow> content s \<noteq> [] \<Longrightarrow> fst (pop s) = hd (content s)"
    and pop_content: "ok s \<Longrightarrow> content s \<noteq> [] \<Longrightarrow> content (snd (pop s)) = tl (content s)"
begin

lemma push_all:
  "ok s \<Longrightarrow> list_all item xs \<Longrightarrow> length (content s) + length xs \<le> cap s \<Longrightarrow>
   ok (fold push xs s) \<and> content (fold push xs s) = content s @ xs \<and> cap (fold push xs s) = cap s"
proof (induction xs arbitrary: s)
  case (Cons x xs)
  have l: "length (content s) < cap s" "item x" using Cons.prems by auto
  note p = push_ok[OF Cons.prems(1) l(2,1)] push_content[OF Cons.prems(1) l(2,1)] push_cap[OF Cons.prems(1) l(2,1)]
  show ?case using Cons.IH[OF p(1)] Cons.prems p by simp
qed simp

fun pops :: "nat \<Rightarrow> 's \<Rightarrow> 'a list \<times> 's" where
  "pops 0 s = ([], s)"
| "pops (Suc n) s = (let (x, s1) = pop s; (xs, s2) = pops n s1 in (x # xs, s2))"

lemma pop_all:
  "ok s \<Longrightarrow> n \<le> length (content s) \<Longrightarrow>
   fst (pops n s) = take n (content s) \<and> ok (snd (pops n s)) \<and> content (snd (pops n s)) = drop n (content s)"
proof (induction n arbitrary: s)
  case (Suc n)
  then obtain x xs where c: "content s = x # xs" by (cases "content s") auto
  then have n: "content s \<noteq> []" by simp
  note p = pop_ok[OF Suc.prems(1) n] pop_hd[OF Suc.prems(1) n] pop_content[OF Suc.prems(1) n]
  have "n \<le> length (content (snd (pop s)))" using p(3) c Suc.prems(2) by simp
  then show ?case using Suc.IH[OF p(1)] p(2,3) c by (simp add: case_prod_unfold Let_def)
qed simp

text \<open>What goes in comes out, in order.\<close>

lemma through:
  assumes "ok s" "content s = []" "list_all item xs" "length xs \<le> cap s"
  shows "fst (pops (length xs) (fold push xs s)) = xs"
proof -
  have p: "ok (fold push xs s)" "content (fold push xs s) = xs" using push_all[of s xs] assms by auto
  then show ?thesis using pop_all[OF p(1), of "length xs"] by simp
qed

end

end
