(* ===== verification/Mailbox.thy ===== *)
theory Mailbox
  imports Ipc Fifo
begin

text \<open>
  Mailboxes (\<open>rt_mb_*\<close> of \<open>src/ipc.c\<close>): a ring of 32-bit mails with lists of waiting receivers
  and senders. The local variables of a call that has blocked (\<open>timeout\<close>, and the tick at which
  it blocked) are arguments of its continuation.
\<close>

section \<open>The ring\<close>

definition mb_put :: "u32 \<Rightarrow> mailbox \<Rightarrow> mailbox" where
  "mb_put v m = m\<lparr>mb_pool := (mb_pool m)[unat (mb_in_offset m) := v],
     mb_entry := mb_entry m + 1,
     mb_in_offset := (if mb_in_offset m + 1 \<ge> mb_size m then 0 else mb_in_offset m + 1)\<rparr>"

definition mb_get :: "mailbox \<Rightarrow> u32 \<times> mailbox" where
  "mb_get m = (mb_pool m ! unat (mb_out_offset m),
     m\<lparr>mb_entry := mb_entry m - 1,
       mb_out_offset := (if mb_out_offset m + 1 \<ge> mb_size m then 0 else mb_out_offset m + 1)\<rparr>)"

definition mb_cap :: "mailbox \<Rightarrow> nat" where
  "mb_cap m = unat (mb_size m)"

definition mb_content :: "mailbox \<Rightarrow> u32 list" where
  "mb_content m = ring_list (mb_pool m) (unat (mb_out_offset m)) (unat (mb_entry m))"

definition mb_ok :: "mailbox \<Rightarrow> bool" where
  "mb_ok m \<longleftrightarrow> length (mb_pool m) = mb_cap m \<and> mb_out_offset m < mb_size m \<and> mb_entry m \<le> mb_size m \<and>
     unat (mb_in_offset m) = (unat (mb_out_offset m) + unat (mb_entry m)) mod mb_cap m"

text \<open>The offset arithmetic of the code is addition modulo the size; it never wraps at 16 bits.\<close>

lemma mb_wrap:
  fixes i n :: u16
  assumes "i < n"
  shows "unat (if i + 1 \<ge> n then 0 else i + 1) = Suc (unat i) mod unat n"
    "unat (i + 1) = Suc (unat i)"
proof -
  have "unat i < unat n" using assms by (simp add: word_less_nat_alt)
  moreover have "unat n < 65536" using unsigned_less[of n] by simp
  ultimately have i1: "unat (i + 1) = Suc (unat i)" by (simp add: unat_word_ariths)
  then show "unat (i + 1) = Suc (unat i)" .
  show "unat (if i + 1 \<ge> n then 0 else i + 1) = Suc (unat i) mod unat n"
  proof (cases "Suc (unat i) = unat n")
    case True
    then show ?thesis using i1 by (simp add: word_le_nat_alt)
  next
    case False
    then have "Suc (unat i) < unat n" using \<open>unat i < unat n\<close> by simp
    then show ?thesis using i1 by (simp add: word_le_nat_alt)
  qed
qed

lemma mb_entry_bounds:
  fixes e n :: u16
  shows "unat e < unat n \<Longrightarrow> unat (e + 1) = Suc (unat e)" "0 < unat e \<Longrightarrow> unat (e - 1) = unat e - 1"
proof -
  show "unat e < unat n \<Longrightarrow> unat (e + 1) = Suc (unat e)" by (rule mb_wrap(2)) (simp add: word_less_nat_alt)
  assume "0 < unat e"
  then have "1 \<le> e" by (simp add: word_le_nat_alt)
  then show "unat (e - 1) = unat e - 1" using unat_sub[of 1 e] by simp
qed

lemma mb_put_ok:
  assumes ok: "mb_ok m" and l: "unat (mb_entry m) < mb_cap m"
  shows "mb_ok (mb_put v m)" "mb_cap (mb_put v m) = mb_cap m" "mb_content (mb_put v m) = mb_content m @ [v]"
proof -
  let ?n = "mb_cap m" and ?o = "unat (mb_out_offset m)" and ?e = "unat (mb_entry m)"
  have len: "length (mb_pool m) = ?n" and io: "unat (mb_in_offset m) = (?o + ?e) mod ?n" and on: "mb_out_offset m < mb_size m"
    using ok by (simp_all add: mb_ok_def)
  have "unat (mb_in_offset m) < ?n" using io l by (simp add: mb_cap_def)
  then have i: "mb_in_offset m < mb_size m" by (simp add: mb_cap_def word_less_nat_alt)
  have e1: "unat (mb_entry m + 1) = Suc ?e" using mb_entry_bounds(1) l by (simp add: mb_cap_def)
  show "mb_cap (mb_put v m) = ?n" by (simp add: mb_put_def mb_cap_def)
  show "mb_ok (mb_put v m)"
    unfolding mb_ok_def using len on e1 l mb_wrap(1)[OF i] io
    by (simp add: mb_put_def mb_cap_def word_le_nat_alt mod_Suc_eq)
  show "mb_content (mb_put v m) = mb_content m @ [v]"
    using ring_list_push[of ?e "mb_pool m" ?o v] l len e1 io by (simp add: mb_content_def mb_put_def)
qed

lemma mb_get_ok:
  assumes ok: "mb_ok m" and l: "mb_content m \<noteq> []"
  shows "mb_ok (snd (mb_get m))" "mb_cap (snd (mb_get m)) = mb_cap m"
    "fst (mb_get m) = hd (mb_content m)" "mb_content (snd (mb_get m)) = tl (mb_content m)"
proof -
  let ?n = "mb_cap m" and ?o = "unat (mb_out_offset m)" and ?e = "unat (mb_entry m)"
  have len: "length (mb_pool m) = ?n" and io: "unat (mb_in_offset m) = (?o + ?e) mod ?n" and on: "mb_out_offset m < mb_size m"
    and en: "mb_entry m \<le> mb_size m"
    using ok by (simp_all add: mb_ok_def)
  have e: "0 < ?e" using l by (auto simp: mb_content_def ring_list_def)
  have e1: "unat (mb_entry m - 1) = ?e - 1" by (rule mb_entry_bounds(2)[OF e])
  have o1: "unat (mb_out_offset (snd (mb_get m))) = Suc ?o mod ?n" using mb_wrap(1)[OF on] by (simp add: mb_get_def mb_cap_def)
  have om: "?o mod ?n = ?o" using on by (simp add: mb_cap_def word_less_nat_alt)
  note rl = ring_list_pop[OF e, of "mb_pool m" ?o]
  show "mb_cap (snd (mb_get m)) = ?n" by (simp add: mb_get_def mb_cap_def)
  show "fst (mb_get m) = hd (mb_content m)" using rl om len by (simp add: mb_content_def mb_get_def)
  have f: "mb_pool (snd (mb_get m)) = mb_pool m" "mb_entry (snd (mb_get m)) = mb_entry m - 1"
    "mb_size (snd (mb_get m)) = mb_size m" "mb_in_offset (snd (mb_get m)) = mb_in_offset m"
    by (simp_all add: mb_get_def)
  show "mb_content (snd (mb_get m)) = tl (mb_content m)"
    unfolding mb_content_def f o1 e1 using rl len by simp
  obtain d where d: "?e = Suc d" using e gr0_implies_Suc by blast
  have "(Suc ?o mod ?n + (?e - 1)) mod ?n = (?o + ?e) mod ?n" unfolding d using mod_add_left_eq[of "Suc ?o" ?n d] by simp
  moreover have "Suc ?o mod ?n < ?n" using on by (simp add: mb_cap_def word_less_nat_alt)
  ultimately show "mb_ok (snd (mb_get m))"
    unfolding mb_ok_def mb_cap_def f o1 e1 using len io en e o1
    by (auto simp: mb_cap_def word_less_nat_alt word_le_nat_alt e1)
qed

lemma length_mb_content [simp]: "length (mb_content m) = unat (mb_entry m)"
  by (simp add: mb_content_def)

interpretation mb: fifo mb_ok mb_cap mb_content mb_put mb_get "\<lambda>_. True"
  by unfold_locales (simp_all add: mb_put_ok mb_get_ok)

section \<open>Operations\<close>

definition set_mb :: "nat \<Rightarrow> mailbox \<Rightarrow> 'a kipc_scheme \<Rightarrow> 'a kipc_scheme" where
  "set_mb a m k = k\<lparr>k_mb := (k_mb k)(a := m)\<rparr>"

text \<open>
  The common part of \<open>rt_mb_init\<close> and \<open>rt_mb_create\<close>; \<open>pool\<close> is the memory of the mails. The
  size, an \<open>rt_size_t\<close>, is stored in 16 bits.
\<close>

definition mb_setup :: "nat \<Rightarrow> u32 list \<Rightarrow> u32 \<Rightarrow> u8 \<Rightarrow> 'a kipc_scheme \<Rightarrow> 'a kipc_scheme" where
  "mb_setup a pool sz flag k =
    (let k1 = rt_ipc_object_init a (set_ipc_flag a flag k);
         k2 = set_mb a \<lparr>mb_pool = pool, mb_size = ucast sz, mb_entry = 0, mb_in_offset = 0, mb_out_offset = 0\<rparr> k1
     in k2\<lparr>k_queues := (k_queues k2)(PendSend a := [])\<rparr>)"

definition rt_mb_init :: "nat \<Rightarrow> u8 list \<Rightarrow> u32 list \<Rightarrow> u32 \<Rightarrow> u8 \<Rightarrow> 'a kipc_scheme \<Rightarrow> (rt_err \<times> 'a kipc_scheme) option" where
  "rt_mb_init a name pool sz flag k = do {
     k1 \<leftarrow> rt_object_init (IpcObj a) RT_Object_Class_MailBox name k;
     Some (RT_EOK, mb_setup a pool sz flag k1)
   }"

definition mb_resume_all :: "nat \<Rightarrow> 'a ktimer_scheme \<Rightarrow> 'a ktimer_scheme option" where
  "mb_resume_all a k = do {
     k1 \<leftarrow> rt_ipc_list_resume_all (Pend a) k;
     rt_ipc_list_resume_all (PendSend a) k1
   }"

definition rt_mb_detach :: "nat \<Rightarrow> 'a kipc_scheme \<Rightarrow> (rt_err \<times> 'a kipc_scheme) option" where
  "rt_mb_detach a k = do {
     rt_assert (ipc_is RT_Object_Class_MailBox a k);
     rt_assert (rt_object_is_systemobject (IpcObj a) k);
     k1 \<leftarrow> mb_resume_all a k;
     Some (RT_EOK, rt_object_detach (IpcObj a) k1)
   }"

text \<open>\<open>mem\<close> is the control block the heap gave, \<open>pool\<close> the memory of the mails.\<close>

definition rt_mb_create ::
    "nat option \<Rightarrow> u32 list option \<Rightarrow> u8 list \<Rightarrow> u32 \<Rightarrow> u8 \<Rightarrow> 'a kipc_scheme \<Rightarrow> (nat option \<times> 'a kipc_scheme) option" where
  "rt_mb_create mem pool name sz flag k = do {
     rt_assert (k_irq_nest k = 0);
     (_, k1) \<leftarrow> rt_object_allocate (map_option IpcObj mem) RT_Object_Class_MailBox name k;
     (case mem of None \<Rightarrow> Some (None, k1)
      | Some a \<Rightarrow> (case pool of
          None \<Rightarrow> do {
            k2 \<leftarrow> rt_object_delete (IpcObj a) (rt_ipc_object_init a (set_ipc_flag a flag k1));
            Some (None, k2) }
        | Some pl \<Rightarrow> Some (Some a, mb_setup a pl sz flag k1)))
   }"

definition rt_mb_delete :: "nat \<Rightarrow> 'a kipc_scheme \<Rightarrow> (rt_err \<times> 'a kipc_scheme) option" where
  "rt_mb_delete a k = do {
     rt_assert (k_irq_nest k = 0);
     rt_assert (ipc_is RT_Object_Class_MailBox a k);
     rt_assert (\<not> rt_object_is_systemobject (IpcObj a) k);
     k1 \<leftarrow> mb_resume_all a k;
     k2 \<leftarrow> rt_object_delete (IpcObj a) k1;
     Some (RT_EOK, k2)
   }"

text \<open>The loop of \<open>rt_mb_send_wait\<close>: one turn, which delivers, gives up or blocks.\<close>

definition mb_send_turn :: "nat \<Rightarrow> u32 \<Rightarrow> 32 word \<Rightarrow> 'a kipc_scheme \<Rightarrow> (rt_err, 'a kipc_scheme) call option" where
  "mb_send_turn a v timeout k =
    (if mb_entry (k_mb k a) = mb_size (k_mb k a) then do {
       t \<leftarrow> rt_thread_self k;
       let k1 = set_error RT_EOK t k;
       if timeout = 0 then Some (Done (- RT_EFULL) k1)
       else do {
         rt_assert (in_thread_context k1);
         k2 \<leftarrow> ipc_wait (PendSend a) t (ipc_flag a k1) timeout k1;
         k3 \<leftarrow> rt_schedule k2;
         Some (Blocked k3)
       }
     } else do {
       rt_assert (unat (mb_in_offset (k_mb k a)) < length (mb_pool (k_mb k a)));
       k1 \<leftarrow> wake_first (Pend a) (set_mb a (mb_put v (k_mb k a)) k);
       Some (Done RT_EOK k1)
     })"

definition rt_mb_send_wait :: "nat \<Rightarrow> u32 \<Rightarrow> 32 word \<Rightarrow> 'a kipc_scheme \<Rightarrow> (rt_err, 'a kipc_scheme) call option" where
  "rt_mb_send_wait a v timeout k = do {
     rt_assert (ipc_is RT_Object_Class_MailBox a k);
     if mb_entry (k_mb k a) = mb_size (k_mb k a) \<and> timeout = 0 then Some (Done (- RT_EFULL) k)
     else mb_send_turn a v timeout k
   }"

definition rt_mb_send_wait_return ::
    "nat \<Rightarrow> nat \<Rightarrow> u32 \<Rightarrow> 32 word \<Rightarrow> u32 \<Rightarrow> 'a kipc_scheme \<Rightarrow> (rt_err, 'a kipc_scheme) call option" where
  "rt_mb_send_wait_return t a v timeout since k =
    (if th_error (k_threads k t) \<noteq> RT_EOK then Some (Done (th_error (k_threads k t)) k)
     else mb_send_turn a v (time_left timeout since (rt_tick_get k)) k)"

definition rt_mb_send :: "nat \<Rightarrow> u32 \<Rightarrow> 'a kipc_scheme \<Rightarrow> (rt_err, 'a kipc_scheme) call option" where
  "rt_mb_send a v k = rt_mb_send_wait a v 0 k"

definition mb_recv_turn :: "nat \<Rightarrow> 32 word \<Rightarrow> 'a kipc_scheme \<Rightarrow> (rt_err \<times> u32 option, 'a kipc_scheme) call option" where
  "mb_recv_turn a timeout k =
    (if mb_entry (k_mb k a) = 0 then do {
       t \<leftarrow> rt_thread_self k;
       let k1 = set_error RT_EOK t k;
       if timeout = 0 then Some (Done (- RT_ETIMEOUT, None) (set_error (- RT_ETIMEOUT) t k1))
       else do {
         rt_assert (in_thread_context k1);
         k2 \<leftarrow> ipc_wait (Pend a) t (ipc_flag a k1) timeout k1;
         k3 \<leftarrow> rt_schedule k2;
         Some (Blocked k3)
       }
     } else do {
       rt_assert (unat (mb_out_offset (k_mb k a)) < length (mb_pool (k_mb k a)));
       let (v, m) = mb_get (k_mb k a);
       k1 \<leftarrow> wake_first (PendSend a) (set_mb a m k);
       Some (Done (RT_EOK, Some v) k1)
     })"

definition rt_mb_recv :: "nat \<Rightarrow> 32 word \<Rightarrow> 'a kipc_scheme \<Rightarrow> (rt_err \<times> u32 option, 'a kipc_scheme) call option" where
  "rt_mb_recv a timeout k = do {
     rt_assert (ipc_is RT_Object_Class_MailBox a k);
     if mb_entry (k_mb k a) = 0 \<and> timeout = 0 then Some (Done (- RT_ETIMEOUT, None) k)
     else mb_recv_turn a timeout k
   }"

definition rt_mb_recv_return ::
    "nat \<Rightarrow> nat \<Rightarrow> 32 word \<Rightarrow> u32 \<Rightarrow> 'a kipc_scheme \<Rightarrow> (rt_err \<times> u32 option, 'a kipc_scheme) call option" where
  "rt_mb_recv_return t a timeout since k =
    (if th_error (k_threads k t) \<noteq> RT_EOK then Some (Done (th_error (k_threads k t), None) k)
     else mb_recv_turn a (time_left timeout since (rt_tick_get k)) k)"

definition rt_mb_control :: "nat \<Rightarrow> int \<Rightarrow> 'a kipc_scheme \<Rightarrow> (rt_err \<times> 'a kipc_scheme) option" where
  "rt_mb_control a cmd k = do {
     rt_assert (ipc_is RT_Object_Class_MailBox a k);
     if cmd = RT_IPC_CMD_RESET then do {
       k1 \<leftarrow> mb_resume_all a k;
       k2 \<leftarrow> rt_schedule (set_mb a ((k_mb k1 a)\<lparr>mb_entry := 0, mb_in_offset := 0, mb_out_offset := 0\<rparr>) k1);
       Some (RT_EOK, k2)
     } else Some (- RT_ERROR, k)
   }"

section \<open>Sending and receiving\<close>

lemma set_mb_simps [simp]:
  "k_mb (set_mb a m k) = (k_mb k)(a := m)" "k_queues (set_mb a m k) = k_queues k"
  "k_threads (set_mb a m k) = k_threads k" "sys_inv X (set_mb a m k) = sys_inv X k"
  by (simp_all add: set_mb_def)

lemma rt_mb_send_now:
  assumes inv: "sys_inv {} k" and ty: "ipc_is RT_Object_Class_MailBox a k" and ok: "mb_ok (k_mb k a)"
    and l: "length (mb_content (k_mb k a)) < mb_cap (k_mb k a)"
  obtains k' where "rt_mb_send_wait a v timeout k = Some (Done RT_EOK k')" "sys_inv {} k'" "mb_ok (k_mb k' a)"
    "mb_content (k_mb k' a) = mb_content (k_mb k a) @ [v]" "k_queues k' (Pend a) = tl (k_queues k (Pend a))"
    "\<forall>t ts. k_queues k (Pend a) = t # ts \<longrightarrow> tstat k' t \<in> {RT_THREAD_READY, RT_THREAD_RUNNING} \<and>
       th_error (k_threads k' t) = th_error (k_threads k t)"
proof -
  let ?k1 = "set_mb a (mb_put v (k_mb k a)) k"
  have i1: "sys_inv {} ?k1" using inv by simp
  obtain k' where k': "wake_first (Pend a) ?k1 = Some k'" "sys_inv {} k'" "k_queues k' (Pend a) = tl (k_queues ?k1 (Pend a))"
    "\<forall>m. wait_head m \<and> m \<noteq> Pend a \<longrightarrow> k_queues k' m = k_queues ?k1 m" "ktimer.more k' = ktimer.more ?k1"
    "k_obj_type k' = k_obj_type ?k1"
    "\<forall>t ts. k_queues ?k1 (Pend a) = t # ts \<longrightarrow> tstat k' t \<in> {RT_THREAD_READY, RT_THREAD_RUNNING} \<and>
       th_error (k_threads k' t) = th_error (k_threads ?k1 t)"
    by (rule wake_first_ok[OF i1 wait_head_simps(1)])
  have ne: "mb_entry (k_mb k a) \<noteq> mb_size (k_mb k a)" using l by (auto simp: mb_cap_def)
  have "0 < mb_cap (k_mb k a)" using l by simp
  then have inb: "unat (mb_in_offset (k_mb k a)) < length (mb_pool (k_mb k a))" using ok by (simp add: mb_ok_def)
  have run: "rt_mb_send_wait a v timeout k = Some (Done RT_EOK k')"
    using ty ne inb k'(1) by (simp add: rt_mb_send_wait_def mb_send_turn_def)
  have l': "unat (mb_entry (k_mb k a)) < mb_cap (k_mb k a)" using l by simp
  have mb: "k_mb k' a = mb_put v (k_mb k a)" using kipc_more(4)[OF k'(5)] by simp
  show ?thesis
    by (rule that[OF run k'(2)]) (use mb mb_put_ok[OF ok l'] k'(3,7) in auto)
qed

lemma rt_mb_recv_now:
  assumes inv: "sys_inv {} k" and ty: "ipc_is RT_Object_Class_MailBox a k" and ok: "mb_ok (k_mb k a)"
    and c: "mb_content (k_mb k a) = v # vs"
  obtains k' where "rt_mb_recv a timeout k = Some (Done (RT_EOK, Some v) k')" "sys_inv {} k'" "mb_ok (k_mb k' a)"
    "mb_content (k_mb k' a) = vs" "k_queues k' (PendSend a) = tl (k_queues k (PendSend a))"
    "\<forall>t ts. k_queues k (PendSend a) = t # ts \<longrightarrow> tstat k' t \<in> {RT_THREAD_READY, RT_THREAD_RUNNING} \<and>
       th_error (k_threads k' t) = th_error (k_threads k t)"
proof -
  have ne: "mb_content (k_mb k a) \<noteq> []" using c by simp
  note g = mb_get_ok[OF ok ne]
  let ?k1 = "set_mb a (snd (mb_get (k_mb k a))) k"
  have i1: "sys_inv {} ?k1" using inv by simp
  obtain k' where k': "wake_first (PendSend a) ?k1 = Some k'" "sys_inv {} k'"
    "k_queues k' (PendSend a) = tl (k_queues ?k1 (PendSend a))"
    "\<forall>m. wait_head m \<and> m \<noteq> PendSend a \<longrightarrow> k_queues k' m = k_queues ?k1 m" "ktimer.more k' = ktimer.more ?k1"
    "k_obj_type k' = k_obj_type ?k1"
    "\<forall>t ts. k_queues ?k1 (PendSend a) = t # ts \<longrightarrow> tstat k' t \<in> {RT_THREAD_READY, RT_THREAD_RUNNING} \<and>
       th_error (k_threads k' t) = th_error (k_threads ?k1 t)"
    by (rule wake_first_ok[OF i1 wait_head_simps(2)])
  have e: "mb_entry (k_mb k a) \<noteq> 0" using c by (auto simp: mb_content_def ring_list_def)
  have ob: "unat (mb_out_offset (k_mb k a)) < length (mb_pool (k_mb k a))"
    using ok by (simp add: mb_ok_def mb_cap_def word_less_nat_alt)
  have run: "rt_mb_recv a timeout k = Some (Done (RT_EOK, Some v) k')"
    using ty e ob k'(1) g(3) c by (simp add: rt_mb_recv_def mb_recv_turn_def case_prod_unfold Let_def)
  have mb: "k_mb k' a = snd (mb_get (k_mb k a))" using kipc_more(4)[OF k'(5)] by simp
  show ?thesis
    by (rule that[OF run k'(2)]) (use mb g c k'(3,7) in auto)
qed

end
