(* ===== verification/MsgQueue.thy ===== *)
theory MsgQueue
  imports Ipc Fifo
begin

text \<open>
  Message queues (\<open>rt_mq_*\<close> of \<open>src/ipc.c\<close>): the slots of the pool are linked into a queue
  of messages and a list of free slots, both through the slots' \<open>next\<close> pointers. A slot is its
  index in the pool.
\<close>

section \<open>The two lists of slots\<close>

fun chain :: "(nat \<Rightarrow> nat option) \<Rightarrow> nat option \<Rightarrow> nat list \<Rightarrow> bool" where
  "chain nx p [] \<longleftrightarrow> p = None"
| "chain nx p (i # is) \<longleftrightarrow> p = Some i \<and> chain nx (nx i) is"

text \<open>Taking a free slot, and copying \<open>size\<close> bytes of the message into it.\<close>

definition mq_take :: "u8 list \<Rightarrow> messagequeue \<Rightarrow> (nat \<times> messagequeue) option" where
  "mq_take buf q = (case mq_free q of None \<Rightarrow> None
     | Some i \<Rightarrow> Some (i, q\<lparr>mq_free := mq_next q i,
         mq_data := (mq_data q)(i := buf @ drop (length buf) (mq_data q i))\<rparr>))"

text \<open>Linking the slot at the tail (\<open>rt_mq_send\<close>) or at the head (\<open>rt_mq_urgent\<close>).\<close>

definition mq_link_tail :: "nat \<Rightarrow> messagequeue \<Rightarrow> messagequeue" where
  "mq_link_tail i q =
    (let q1 = q\<lparr>mq_next := (mq_next q)(i := None)\<rparr>;
         q2 = (case mq_tail q1 of None \<Rightarrow> q1 | Some j \<Rightarrow> q1\<lparr>mq_next := (mq_next q1)(j := Some i)\<rparr>);
         q3 = q2\<lparr>mq_tail := Some i\<rparr>;
         q4 = (if mq_head q3 = None then q3\<lparr>mq_head := Some i\<rparr> else q3)
     in q4\<lparr>mq_entry := mq_entry q4 + 1\<rparr>)"

definition mq_link_head :: "nat \<Rightarrow> messagequeue \<Rightarrow> messagequeue" where
  "mq_link_head i q =
    (let q1 = q\<lparr>mq_next := (mq_next q)(i := mq_head q), mq_head := Some i\<rparr>;
         q2 = (if mq_tail q1 = None then q1\<lparr>mq_tail := Some i\<rparr> else q1)
     in q2\<lparr>mq_entry := mq_entry q2 + 1\<rparr>)"

text \<open>Unlinking the head; following a null head is the failure \<open>None\<close>.\<close>

definition mq_unlink :: "messagequeue \<Rightarrow> (nat \<times> messagequeue) option" where
  "mq_unlink q = (case mq_head q of None \<Rightarrow> None
     | Some i \<Rightarrow>
        (let q1 = q\<lparr>mq_head := mq_next q i\<rparr>;
             q2 = (if mq_tail q1 = Some i then q1\<lparr>mq_tail := None\<rparr> else q1)
         in Some (i, q2)))"

definition mq_release :: "nat \<Rightarrow> messagequeue \<Rightarrow> messagequeue" where
  "mq_release i q = q\<lparr>mq_next := (mq_next q)(i := mq_free q), mq_free := Some i\<rparr>"

text \<open>The queue as it is: \<open>qs\<close> the slots of the messages, oldest first, \<open>fs\<close> the free ones.\<close>

definition mq_chains :: "messagequeue \<Rightarrow> nat list \<Rightarrow> nat list \<Rightarrow> bool" where
  "mq_chains q qs fs \<longleftrightarrow> chain (mq_next q) (mq_head q) qs \<and> chain (mq_next q) (mq_free q) fs \<and>
     distinct (qs @ fs) \<and> mq_tail q = (if qs = [] then None else Some (last qs)) \<and>
     length (qs @ fs) = unat (mq_max_msgs q) \<and>
     (\<forall>i \<in> set (qs @ fs). length (mq_data q i) = unat (mq_msg_size q))"

definition mq_lists :: "messagequeue \<Rightarrow> nat list \<Rightarrow> nat list \<Rightarrow> bool" where
  "mq_lists q qs fs \<longleftrightarrow> mq_chains q qs fs \<and> length qs = unat (mq_entry q)"

lemmas mq_defs = mq_lists_def mq_chains_def

lemma chain_upd: "i \<notin> set is \<Longrightarrow> chain (nx(i := v)) p is = chain nx p is"
  by (induction "is" arbitrary: p) auto

lemma chain_snoc:
  "distinct (is @ [i]) \<Longrightarrow> is \<noteq> [] \<Longrightarrow> chain nx p is \<Longrightarrow> chain (nx(i := None, last is := Some i)) p (is @ [i])"
proof (induction "is" arbitrary: p)
  case (Cons j js)
  show ?case
  proof (cases "js = []")
    case True
    then show ?thesis using Cons.prems by auto
  next
    case False
    then have "last (j # js) = last js" "last js \<noteq> j" "i \<noteq> j" using Cons.prems(1) by auto
    then show ?thesis using Cons False by simp
  qed
qed simp

lemma chain_head: "chain nx p is \<Longrightarrow> p = (case is of [] \<Rightarrow> None | i # _ \<Rightarrow> Some i)"
  by (cases "is") auto

lemma entry_inc:
  fixes e n :: u16
  assumes "unat e < unat n" shows "unat (e + 1) = Suc (unat e)"
proof -
  have "unat n < 65536" using unsigned_less[of n] by simp
  then show ?thesis using assms by (simp add: unat_word_ariths)
qed

lemma entry_dec:
  fixes e :: u16
  assumes "0 < unat e" shows "unat (e - 1) = unat e - 1"
proof -
  have "1 \<le> e" using assms by (simp add: word_le_nat_alt)
  then show ?thesis using unat_sub[of 1 e] by simp
qed

lemma mq_take_ok:
  assumes "mq_lists q qs (f # fs)" "length buf \<le> unat (mq_msg_size q)"
  obtains q1 where "mq_take buf q = Some (f, q1)" "mq_next q1 = mq_next q" "mq_head q1 = mq_head q"
    "mq_tail q1 = mq_tail q" "mq_entry q1 = mq_entry q" "chain (mq_next q1) (mq_free q1) fs"
    "mq_max_msgs q1 = mq_max_msgs q" "mq_msg_size q1 = mq_msg_size q"
    "mq_data q1 = (mq_data q)(f := buf @ drop (length buf) (mq_data q f))"
    "length (mq_data q1 f) = unat (mq_msg_size q)"
proof -
  have "mq_free q = Some f" "length (mq_data q f) = unat (mq_msg_size q)" "chain (mq_next q) (mq_next q f) fs"
    using assms(1) by (auto simp: mq_defs)
  then show ?thesis using assms(2)
    by (intro that[of "q\<lparr>mq_free := mq_next q f, mq_data := (mq_data q)(f := buf @ drop (length buf) (mq_data q f))\<rparr>"])
      (simp_all add: mq_take_def)
qed

lemma mq_send_lists:
  assumes l: "mq_lists q qs (f # fs)" and b: "length buf \<le> unat (mq_msg_size q)" and t: "mq_take buf q = Some (i, q1)"
  shows "i = f" "mq_lists (mq_link_tail i q1) (qs @ [f]) fs"
    "mq_lists (mq_link_head i q1) (f # qs) fs"
    "mq_data (mq_link_tail i q1) = (mq_data q)(f := buf @ drop (length buf) (mq_data q f))"
    "mq_data (mq_link_head i q1) = (mq_data q)(f := buf @ drop (length buf) (mq_data q f))"
proof -
  obtain q1' where q1: "mq_take buf q = Some (f, q1')" "mq_next q1' = mq_next q" "mq_head q1' = mq_head q"
    "mq_tail q1' = mq_tail q" "mq_entry q1' = mq_entry q" "chain (mq_next q1') (mq_free q1') fs"
    "mq_max_msgs q1' = mq_max_msgs q" "mq_msg_size q1' = mq_msg_size q"
    "mq_data q1' = (mq_data q)(f := buf @ drop (length buf) (mq_data q f))"
    "length (mq_data q1' f) = unat (mq_msg_size q)"
    by (rule mq_take_ok[OF l b])
  then have iq: "i = f" "q1' = q1" using t by auto
  note q1 = q1[unfolded iq(2)]
  show "i = f" by (rule iq(1))
  have h: "chain (mq_next q) (mq_head q) qs" and d: "distinct (qs @ f # fs)"
    and tl: "mq_tail q = (if qs = [] then None else Some (last qs))"
    and en: "length qs = unat (mq_entry q)" and mx: "Suc (length qs + length fs) = unat (mq_max_msgs q)"
    and dl: "\<forall>i \<in> set (qs @ f # fs). length (mq_data q i) = unat (mq_msg_size q)"
    using l by (auto simp: mq_defs)
  have e1: "unat (mq_entry q + 1) = Suc (unat (mq_entry q))" by (rule entry_inc[of _ "mq_max_msgs q"]) (use en mx in simp)
  have hd: "mq_head q = None \<longleftrightarrow> qs = []" using chain_head[OF h] by (cases qs) auto
  have dl1: "\<forall>i \<in> set (qs @ f # fs). length (mq_data q1 i) = unat (mq_msg_size q)"
    using dl q1(9,10) by auto
  show "mq_lists (mq_link_tail i q1) (qs @ [f]) fs"
  proof (cases "qs = []")
    case True
    then show ?thesis using q1 tl hd d en e1 mx dl1 iq(1)
      by (simp add: mq_defs mq_link_tail_def Let_def chain_upd)
  next
    case False
    have c: "chain ((mq_next q)(f := None, last qs := Some f)) (mq_head q) (qs @ [f])"
      by (rule chain_snoc) (use h d False in auto)
    have "last qs \<notin> set fs"
      using last_in_set[OF False] d by (metis disjoint_iff distinct_append list.set_intros(2))
    then have c2: "chain ((mq_next q)(f := None, last qs := Some f)) (mq_free q1) fs"
      using q1(2,6) d by (simp add: chain_upd)
    obtain hh where "mq_head q = Some hh" using hd False by auto
    then show ?thesis using q1 tl d en e1 mx dl1 iq(1) False c c2
      by (simp add: mq_defs mq_link_tail_def Let_def)
  qed
  show "mq_lists (mq_link_head i q1) (f # qs) fs"
    using q1 tl hd d en e1 mx dl1 iq(1) h by (auto simp: mq_defs mq_link_head_def Let_def chain_upd)
  show "mq_data (mq_link_tail i q1) = (mq_data q)(f := buf @ drop (length buf) (mq_data q f))"
    "mq_data (mq_link_head i q1) = (mq_data q)(f := buf @ drop (length buf) (mq_data q f))"
    using q1(9) by (auto simp: mq_link_tail_def mq_link_head_def Let_def split: option.splits)
qed

lemma mq_unlink_chains:
  assumes l: "mq_chains q (i # qs) fs"
  obtains q1 where "mq_unlink q = Some (i, q1)" "mq_data q1 = mq_data q" "mq_msg_size q1 = mq_msg_size q"
    "mq_entry q1 = mq_entry q" "mq_chains (mq_release i q1) qs (i # fs)"
proof -
  have h: "mq_head q = Some i" "chain (mq_next q) (mq_next q i) qs" and f: "chain (mq_next q) (mq_free q) fs"
    and d: "distinct (i # qs @ fs)" and tl: "mq_tail q = Some (last (i # qs))"
    and mx: "Suc (length qs + length fs) = unat (mq_max_msgs q)"
    and dl: "\<forall>j \<in> set (i # qs @ fs). length (mq_data q j) = unat (mq_msg_size q)"
    using l by (auto simp: mq_chains_def)
  define q1 where "q1 = (if mq_tail q = Some i then q\<lparr>mq_head := mq_next q i, mq_tail := None\<rparr> else q\<lparr>mq_head := mq_next q i\<rparr>)"
  have u: "mq_unlink q = Some (i, q1)" using h(1) by (simp add: mq_unlink_def q1_def Let_def)
  have ti: "mq_tail q = Some i \<longleftrightarrow> qs = []" using tl d by (cases qs rule: rev_cases) auto
  have f1: "mq_data q1 = mq_data q" "mq_msg_size q1 = mq_msg_size q" "mq_next q1 = mq_next q"
    "mq_head q1 = mq_next q i" "mq_free q1 = mq_free q" "mq_entry q1 = mq_entry q" "mq_max_msgs q1 = mq_max_msgs q"
    "mq_tail q1 = (if qs = [] then None else Some (last qs))"
    using ti tl by (auto simp: q1_def)
  have "mq_chains (mq_release i q1) qs (i # fs)"
    using f1 h(2) f d mx dl by (auto simp: mq_chains_def mq_release_def chain_upd)
  then show ?thesis using that u f1(1,2,6) by blast
qed

lemma mq_recv_lists:
  assumes l: "mq_lists q (i # qs) fs"
  obtains q1 where "mq_unlink q = Some (i, q1)" "mq_data q1 = mq_data q" "mq_msg_size q1 = mq_msg_size q"
    "mq_lists (mq_release i (q1\<lparr>mq_entry := mq_entry q1 - 1\<rparr>)) qs (i # fs)"
proof -
  have c: "mq_chains q (i # qs) fs" and en: "Suc (length qs) = unat (mq_entry q)"
    using l by (auto simp: mq_lists_def)
  obtain q1 where q1: "mq_unlink q = Some (i, q1)" "mq_data q1 = mq_data q" "mq_msg_size q1 = mq_msg_size q"
    "mq_entry q1 = mq_entry q" "mq_chains (mq_release i q1) qs (i # fs)"
    by (rule mq_unlink_chains[OF c])
  have "unat (mq_entry q - 1) = length qs" using entry_dec[of "mq_entry q"] en by simp
  then have "mq_lists (mq_release i (q1\<lparr>mq_entry := mq_entry q1 - 1\<rparr>)) qs (i # fs)"
    using q1(4,5) by (simp add: mq_lists_def mq_chains_def mq_release_def)
  then show ?thesis using that q1(1-3) by blast
qed

section \<open>Operations\<close>

definition set_mq :: "nat \<Rightarrow> messagequeue \<Rightarrow> 'a kipc_scheme \<Rightarrow> 'a kipc_scheme" where
  "set_mq a q k = k\<lparr>k_mq := (k_mq k)(a := q)\<rparr>"

text \<open>The loop that puts every slot of the pool on the free list: the last slot comes first.\<close>

fun mq_free_list :: "nat \<Rightarrow> (nat \<Rightarrow> nat option) \<Rightarrow> (nat \<Rightarrow> nat option) \<times> nat option" where
  "mq_free_list 0 nx = (nx, None)"
| "mq_free_list (Suc n) nx = (let (nx1, fr) = mq_free_list n nx in (nx1(n := fr), Some n))"

definition mq_setup :: "nat \<Rightarrow> (nat \<Rightarrow> u8 list) \<Rightarrow> u16 \<Rightarrow> u16 \<Rightarrow> 'a kipc_scheme \<Rightarrow> 'a kipc_scheme" where
  "mq_setup a data msg_size max_msgs k =
    (let (nx, fr) = mq_free_list (unat max_msgs) (mq_next (k_mq k a)) in
     set_mq a \<lparr>mq_msg_size = msg_size, mq_max_msgs = max_msgs, mq_entry = 0, mq_next = nx, mq_data = data,
       mq_head = None, mq_tail = None, mq_free = fr\<rparr> k)"

definition rt_mq_init ::
    "nat \<Rightarrow> u8 list \<Rightarrow> (nat \<Rightarrow> u8 list) \<Rightarrow> u32 \<Rightarrow> u32 \<Rightarrow> u8 \<Rightarrow> 'a kipc_scheme \<Rightarrow> (rt_err \<times> 'a kipc_scheme) option" where
  "rt_mq_init a name data msg_size pool_size flag k = do {
     k1 \<leftarrow> rt_object_init (IpcObj a) RT_Object_Class_MessageQueue name k;
     let k2 = rt_ipc_object_init a (set_ipc_flag a flag k1);
     let ms = (ucast (rt_align msg_size) :: u16);
     Some (RT_EOK, mq_setup a data ms (ucast (pool_size div (ucast ms + 4))) k2)
   }"

definition rt_mq_detach :: "nat \<Rightarrow> 'a kipc_scheme \<Rightarrow> (rt_err \<times> 'a kipc_scheme) option" where
  "rt_mq_detach a k = do {
     rt_assert (ipc_is RT_Object_Class_MessageQueue a k);
     rt_assert (rt_object_is_systemobject (IpcObj a) k);
     k1 \<leftarrow> rt_ipc_list_resume_all (Pend a) k;
     Some (RT_EOK, rt_object_detach (IpcObj a) k1)
   }"

definition rt_mq_delete :: "nat \<Rightarrow> 'a kipc_scheme \<Rightarrow> (rt_err \<times> 'a kipc_scheme) option" where
  "rt_mq_delete a k = do {
     rt_assert (k_irq_nest k = 0);
     rt_assert (ipc_is RT_Object_Class_MessageQueue a k);
     rt_assert (\<not> rt_object_is_systemobject (IpcObj a) k);
     k1 \<leftarrow> rt_ipc_list_resume_all (Pend a) k;
     k2 \<leftarrow> rt_object_delete (IpcObj a) k1;
     Some (RT_EOK, k2)
   }"

definition rt_mq_create ::
    "nat option \<Rightarrow> (nat \<Rightarrow> u8 list) option \<Rightarrow> u8 list \<Rightarrow> u32 \<Rightarrow> u32 \<Rightarrow> u8 \<Rightarrow> 'a kipc_scheme \<Rightarrow>
     (nat option \<times> 'a kipc_scheme) option" where
  "rt_mq_create mem data name msg_size max_msgs flag k = do {
     rt_assert (k_irq_nest k = 0);
     (_, k1) \<leftarrow> rt_object_allocate (map_option IpcObj mem) RT_Object_Class_MessageQueue name k;
     (case mem of None \<Rightarrow> Some (None, k1)
      | Some a \<Rightarrow> do {
          let k2 = rt_ipc_object_init a (set_ipc_flag a flag k1);
          (case data of
             None \<Rightarrow> do { (_, k3) \<leftarrow> rt_mq_delete a k2; Some (None, k3) }
           | Some d \<Rightarrow> Some (Some a, mq_setup a d (ucast (rt_align msg_size)) (ucast max_msgs) k2))
        })
   }"

text \<open>\<open>rt_mq_send\<close> and \<open>rt_mq_urgent\<close> differ in where the slot is linked.\<close>

definition rt_mq_send :: "nat \<Rightarrow> u8 list \<Rightarrow> 'a kipc_scheme \<Rightarrow> (rt_err \<times> 'a kipc_scheme) option" where
  "rt_mq_send a buf k = do {
     rt_assert (ipc_is RT_Object_Class_MessageQueue a k);
     rt_assert (length buf \<noteq> 0);
     if unat (mq_msg_size (k_mq k a)) < length buf then Some (- RT_ERROR, k)
     else (case mq_take buf (k_mq k a) of
         None \<Rightarrow> Some (- RT_EFULL, k)
       | Some (i, q) \<Rightarrow> do {
           k1 \<leftarrow> wake_first (Pend a) (set_mq a (mq_link_tail i q) k);
           Some (RT_EOK, k1) })
   }"

definition rt_mq_urgent :: "nat \<Rightarrow> u8 list \<Rightarrow> 'a kipc_scheme \<Rightarrow> (rt_err \<times> 'a kipc_scheme) option" where
  "rt_mq_urgent a buf k = do {
     rt_assert (ipc_is RT_Object_Class_MessageQueue a k);
     rt_assert (length buf \<noteq> 0);
     if unat (mq_msg_size (k_mq k a)) < length buf then Some (- RT_ERROR, k)
     else (case mq_take buf (k_mq k a) of
         None \<Rightarrow> Some (- RT_EFULL, k)
       | Some (i, q) \<Rightarrow> do {
           k1 \<leftarrow> wake_first (Pend a) (set_mq a (mq_link_head i q) k);
           Some (RT_EOK, k1) })
   }"

text \<open>
  One turn of the loop of \<open>rt_mq_recv\<close>; the result is the error and the bytes copied to the
  caller's buffer of \<open>n\<close> bytes. \<open>left\<close> is the waiting time that remains after the call has
  blocked.
\<close>

definition mq_recv_turn :: "nat \<Rightarrow> nat \<Rightarrow> 32 word \<Rightarrow> 'a kipc_scheme \<Rightarrow>
    (rt_err \<times> u8 list option, 'a kipc_scheme) call option" where
  "mq_recv_turn a n timeout k =
    (if mq_entry (k_mq k a) = 0 then do {
       rt_assert (in_thread_context k);
       t \<leftarrow> rt_thread_self k;
       let k1 = set_error RT_EOK t k;
       if timeout = 0 then Some (Done (- RT_ETIMEOUT, None) (set_error (- RT_ETIMEOUT) t k1))
       else do {
         k2 \<leftarrow> ipc_wait (Pend a) t (ipc_flag a k1) timeout k1;
         k3 \<leftarrow> rt_schedule k2;
         Some (Blocked k3)
       }
     } else do {
       (i, q) \<leftarrow> mq_unlink (k_mq k a);
       let q1 = q\<lparr>mq_entry := mq_entry q - 1\<rparr>;
       let out = take (if unat (mq_msg_size q1) < n then unat (mq_msg_size q1) else n) (mq_data q1 i);
       Some (Done (RT_EOK, Some out) (set_mq a (mq_release i q1) k))
     })"

definition rt_mq_recv :: "nat \<Rightarrow> nat \<Rightarrow> 32 word \<Rightarrow> 'a kipc_scheme \<Rightarrow>
    (rt_err \<times> u8 list option, 'a kipc_scheme) call option" where
  "rt_mq_recv a n timeout k = do {
     rt_assert (ipc_is RT_Object_Class_MessageQueue a k);
     rt_assert (n \<noteq> 0);
     if mq_entry (k_mq k a) = 0 \<and> timeout = 0 then Some (Done (- RT_ETIMEOUT, None) k)
     else mq_recv_turn a n timeout k
   }"

definition rt_mq_recv_return :: "nat \<Rightarrow> nat \<Rightarrow> nat \<Rightarrow> 32 word \<Rightarrow> u32 \<Rightarrow> 'a kipc_scheme \<Rightarrow>
    (rt_err \<times> u8 list option, 'a kipc_scheme) call option" where
  "rt_mq_recv_return t a n timeout since k =
    (if th_error (k_threads k t) \<noteq> RT_EOK then Some (Done (th_error (k_threads k t), None) k)
     else mq_recv_turn a n (time_left timeout since (rt_tick_get k)) k)"

partial_function (option) mq_flush :: "messagequeue \<Rightarrow> messagequeue option" where
  "mq_flush q = (case mq_head q of None \<Rightarrow> Some q
     | Some i \<Rightarrow> Option.bind (mq_unlink q) (\<lambda>r. mq_flush (mq_release i (snd r))))"

definition rt_mq_control :: "nat \<Rightarrow> int \<Rightarrow> 'a kipc_scheme \<Rightarrow> (rt_err \<times> 'a kipc_scheme) option" where
  "rt_mq_control a cmd k = do {
     rt_assert (ipc_is RT_Object_Class_MessageQueue a k);
     if cmd = RT_IPC_CMD_RESET then do {
       k1 \<leftarrow> rt_ipc_list_resume_all (Pend a) k;
       q \<leftarrow> mq_flush (k_mq k1 a);
       k2 \<leftarrow> rt_schedule (set_mq a (q\<lparr>mq_entry := 0\<rparr>) k1);
       Some (RT_EOK, k2)
     } else Some (- RT_ERROR, k)
   }"

section \<open>Sending and receiving\<close>

lemma set_mq_simps [simp]:
  "k_mq (set_mq a m k) = (k_mq k)(a := m)" "k_queues (set_mq a m k) = k_queues k"
  "k_threads (set_mq a m k) = k_threads k" "sys_inv X (set_mq a m k) = sys_inv X k"
  "k_obj_type (set_mq a m k) = k_obj_type k"
  by (simp_all add: set_mq_def)

definition mq_content :: "messagequeue \<Rightarrow> nat list \<Rightarrow> u8 list list" where
  "mq_content q qs = map (mq_data q) qs"

lemma rt_mq_send_ok:
  assumes inv: "sys_inv {} k" and ty: "ipc_is RT_Object_Class_MessageQueue a k"
    and l: "mq_lists (k_mq k a) qs (f # fs)" and b: "buf \<noteq> []" "length buf \<le> unat (mq_msg_size (k_mq k a))"
  defines "msg \<equiv> buf @ drop (length buf) (mq_data (k_mq k a) f)"
  shows "\<exists>k'. rt_mq_send a buf k = Some (RT_EOK, k') \<and> sys_inv {} k' \<and> mq_lists (k_mq k' a) (qs @ [f]) fs \<and>
      mq_content (k_mq k' a) (qs @ [f]) = mq_content (k_mq k a) qs @ [msg]"
    "\<exists>k'. rt_mq_urgent a buf k = Some (RT_EOK, k') \<and> sys_inv {} k' \<and> mq_lists (k_mq k' a) (f # qs) fs \<and>
      mq_content (k_mq k' a) (f # qs) = msg # mq_content (k_mq k a) qs \<and> k_obj_type k' = k_obj_type k"
proof -
  obtain q1 where t: "mq_take buf (k_mq k a) = Some (f, q1)"
    using mq_take_ok[OF l b(2)] by blast
  note s = mq_send_lists[OF l b(2) t]
  have d: "f \<notin> set qs" using l by (auto simp: mq_defs)
  have i1: "sys_inv {} (set_mq a (mq_link_tail f q1) k)" and i2: "sys_inv {} (set_mq a (mq_link_head f q1) k)"
    using inv by simp_all
  obtain k1 where k1: "wake_first (Pend a) (set_mq a (mq_link_tail f q1) k) = Some k1" "sys_inv {} k1"
    "k_queues k1 (Pend a) = tl (k_queues (set_mq a (mq_link_tail f q1) k) (Pend a))"
    "ktimer.more k1 = ktimer.more (set_mq a (mq_link_tail f q1) k)"
    using wake_first_ok[OF i1 wait_head_simps(1)] by metis
  obtain k2 where k2: "wake_first (Pend a) (set_mq a (mq_link_head f q1) k) = Some k2" "sys_inv {} k2"
    "k_queues k2 (Pend a) = tl (k_queues (set_mq a (mq_link_head f q1) k) (Pend a))"
    "ktimer.more k2 = ktimer.more (set_mq a (mq_link_head f q1) k)"
    "k_obj_type k2 = k_obj_type k"
    using wake_first_ok[OF i2 wait_head_simps(1)] by (metis set_mq_simps(5))
  have m: "k_mq k1 a = mq_link_tail f q1" "k_mq k2 a = mq_link_head f q1"
    using kipc_more(5)[OF k1(4)] kipc_more(5)[OF k2(4)] by simp_all
  have c: "map ((mq_data (k_mq k a))(f := msg)) qs = map (mq_data (k_mq k a)) qs" using d by simp
  show "\<exists>k'. rt_mq_send a buf k = Some (RT_EOK, k') \<and> sys_inv {} k' \<and> mq_lists (k_mq k' a) (qs @ [f]) fs \<and>
      mq_content (k_mq k' a) (qs @ [f]) = mq_content (k_mq k a) qs @ [msg]"
    using ty b t k1 m s(2,4) c by (intro exI[of _ k1]) (simp add: rt_mq_send_def mq_content_def msg_def not_less)
  show "\<exists>k'. rt_mq_urgent a buf k = Some (RT_EOK, k') \<and> sys_inv {} k' \<and> mq_lists (k_mq k' a) (f # qs) fs \<and>
      mq_content (k_mq k' a) (f # qs) = msg # mq_content (k_mq k a) qs \<and> k_obj_type k' = k_obj_type k"
    using ty b t k2 m s(3,5) c by (intro exI[of _ k2]) (simp add: rt_mq_urgent_def mq_content_def msg_def not_less)
qed

lemma mq_full: "mq_lists q qs [] \<Longrightarrow> mq_take buf q = None"
  by (simp add: mq_defs mq_take_def)

lemma rt_mq_recv_ok:
  assumes ty: "ipc_is RT_Object_Class_MessageQueue a k" and l: "mq_lists (k_mq k a) (i # qs) fs"
    and n: "n \<noteq> 0" and c: "mq_content (k_mq k a) (i # qs) = m # ms"
  shows "\<exists>k'. rt_mq_recv a n timeout k = Some (Done (RT_EOK, Some (take n m)) k') \<and>
      mq_lists (k_mq k' a) qs (i # fs) \<and> mq_content (k_mq k' a) qs = ms \<and> (sys_inv X k' \<longleftrightarrow> sys_inv X k)"
proof -
  obtain q1 where q1: "mq_unlink (k_mq k a) = Some (i, q1)" "mq_data q1 = mq_data (k_mq k a)"
    "mq_msg_size q1 = mq_msg_size (k_mq k a)" "mq_lists (mq_release i (q1\<lparr>mq_entry := mq_entry q1 - 1\<rparr>)) qs (i # fs)"
    by (rule mq_recv_lists[OF l])
  have e: "mq_entry (k_mq k a) \<noteq> 0" using l by (auto simp: mq_defs)
  have len: "length (mq_data (k_mq k a) i) = unat (mq_msg_size (k_mq k a))" using l by (simp add: mq_defs)
  have m: "m = mq_data (k_mq k a) i" "ms = map (mq_data (k_mq k a)) qs" using c by (simp_all add: mq_content_def)
  have tk: "unat (mq_msg_size q1) < n \<Longrightarrow> take (unat (mq_msg_size q1)) (mq_data q1 i) = take n m"
    "take n (mq_data q1 i) = take n m"
    using len q1(2,3) m(1) by auto
  let ?k = "set_mq a (mq_release i (q1\<lparr>mq_entry := mq_entry q1 - 1\<rparr>)) k"
  have "rt_mq_recv a n timeout k = Some (Done (RT_EOK, Some (take n m)) ?k)"
    using ty n e q1(1) tk by (simp add: rt_mq_recv_def mq_recv_turn_def Let_def)
  moreover have "mq_data (mq_release i (q1\<lparr>mq_entry := mq_entry q1 - 1\<rparr>)) = mq_data (k_mq k a)"
    using q1(2) by (simp add: mq_release_def)
  ultimately show ?thesis using q1(4) m(2) by (intro exI[of _ ?k]) (simp add: mq_content_def)
qed

section \<open>Initialisation\<close>

lemma mq_free_list_chain: "chain (fst (mq_free_list n nx)) (snd (mq_free_list n nx)) (rev [0..<n])"
proof (induction n)
  case (Suc n)
  obtain nx1 fr where p: "mq_free_list n nx = (nx1, fr)" by force
  then have "chain nx1 fr (rev [0..<n])" using Suc by simp
  moreover have "chain (nx1(n := fr)) fr (rev [0..<n]) = chain nx1 fr (rev [0..<n])" by (rule chain_upd) simp
  ultimately show ?case using p by (simp del: fun_upd_apply) simp
qed simp

lemma mq_setup_lists:
  assumes "\<forall>i < unat mx. length (data i) = unat ms"
  shows "mq_lists (k_mq (mq_setup a data ms mx k) a) [] (rev [0..<unat mx])"
proof -
  obtain nx fr where p: "mq_free_list (unat mx) (mq_next (k_mq k a)) = (nx, fr)" by force
  then have "chain nx fr (rev [0..<unat mx])" using mq_free_list_chain[of "unat mx" "mq_next (k_mq k a)"] by simp
  then show ?thesis using p assms by (simp add: mq_setup_def mq_defs)
qed

text \<open>Resetting the queue returns every slot to the free list.\<close>

lemma mq_flush_ok:
  "mq_chains q qs fs \<Longrightarrow> \<exists>q'. mq_flush q = Some q' \<and> mq_chains q' [] (rev qs @ fs)"
proof (induction qs arbitrary: q fs)
  case Nil
  then have "mq_head q = None" by (simp add: mq_chains_def)
  then show ?case using Nil by (subst mq_flush.simps) simp
next
  case (Cons i qs)
  obtain q1 where q1: "mq_unlink q = Some (i, q1)" "mq_chains (mq_release i q1) qs (i # fs)"
    using mq_unlink_chains[OF Cons.prems] by blast
  have h: "mq_head q = Some i" using Cons.prems by (simp add: mq_chains_def)
  show ?case using Cons.IH[OF q1(2)] q1(1) h by (subst mq_flush.simps) simp
qed

end
