(* ===== verification/Completion.thy ===== *)
theory Completion
  imports Ipc
begin

text \<open>
  The state of the device drivers' inter-process communication (\<open>components/drivers/src\<close>), and
  completions (\<open>completion.c\<close>): a flag that one thread waits for and any context sets.
\<close>

section \<open>State\<close>

text \<open>A data queue stores pairs of a pointer and a size; its indices run on and are reduced at each access.\<close>

record dataqueue =
  dq_size :: u16
  dq_lwm :: u16
  dq_get :: u16
  dq_put :: u16
  dq_items :: "(u32 \<times> u32) list"

record kdrv = kipc +
  k_completion :: "nat \<Rightarrow> u32"
  k_dq :: "nat \<Rightarrow> dataqueue"
  k_wq_flag :: "nat \<Rightarrow> u32"
  k_wq_list :: "nat \<Rightarrow> nat list"
  k_wq_thread :: "nat \<Rightarrow> nat"

definition set_completion :: "nat \<Rightarrow> u32 \<Rightarrow> 'a kdrv_scheme \<Rightarrow> 'a kdrv_scheme" where
  "set_completion a f k = k\<lparr>k_completion := (k_completion k)(a := f)\<rparr>"

definition set_dq :: "nat \<Rightarrow> dataqueue \<Rightarrow> 'a kdrv_scheme \<Rightarrow> 'a kdrv_scheme" where
  "set_dq a q k = k\<lparr>k_dq := (k_dq k)(a := q)\<rparr>"

section \<open>Operations\<close>

definition RT_COMPLETED :: u32 where "RT_COMPLETED = 1"
definition RT_UNCOMPLETED :: u32 where "RT_UNCOMPLETED = 0"

definition rt_completion_init :: "nat \<Rightarrow> 'a kdrv_scheme \<Rightarrow> 'a kdrv_scheme" where
  "rt_completion_init a k =
    (let k1 = set_completion a RT_UNCOMPLETED k in k1\<lparr>k_queues := (k_queues k1)(Pend a := [])\<rparr>)"

text \<open>Only one thread may wait; a second one stops the system.\<close>

definition rt_completion_wait :: "nat \<Rightarrow> 32 word \<Rightarrow> 'a kdrv_scheme \<Rightarrow> (rt_err, 'a kdrv_scheme) call option" where
  "rt_completion_wait a timeout k =
    (if k_completion k a \<noteq> RT_COMPLETED then do {
       rt_assert (k_queues k (Pend a) = []);
       if timeout = 0 then Some (Done (- RT_ETIMEOUT) k)
       else do {
         t \<leftarrow> rt_thread_self k;
         let k1 = set_error RT_EOK t k;
         rt_assert (k_irq_nest k1 = 0);
         k2 \<leftarrow> ipc_wait (Pend a) t RT_IPC_FLAG_FIFO timeout k1;
         k3 \<leftarrow> rt_schedule k2;
         Some (Blocked k3)
       }
     } else Some (Done RT_EOK (set_completion a RT_UNCOMPLETED k)))"

text \<open>When the waiter runs again, woken or timed out, it clears the flag.\<close>

definition rt_completion_wait_return :: "nat \<Rightarrow> nat \<Rightarrow> 'a kdrv_scheme \<Rightarrow> rt_err \<times> 'a kdrv_scheme" where
  "rt_completion_wait_return t a k = (th_error (k_threads k t), set_completion a RT_UNCOMPLETED k)"

definition rt_completion_done :: "nat \<Rightarrow> 'a kdrv_scheme \<Rightarrow> 'a kdrv_scheme option" where
  "rt_completion_done a k =
    (if k_completion k a = RT_COMPLETED then Some k
     else wake_first (Pend a) (set_completion a RT_COMPLETED k))"

section \<open>The kernel does not read the drivers' state\<close>

lemma kdrv_sys_inv [simp]:
  "sys_inv X (k\<lparr>k_completion := c\<rparr>) \<longleftrightarrow> sys_inv X k" "sys_inv X (k\<lparr>k_dq := d\<rparr>) \<longleftrightarrow> sys_inv X k"
  "sys_inv X (k\<lparr>k_wq_flag := f\<rparr>) \<longleftrightarrow> sys_inv X k" "sys_inv X (k\<lparr>k_wq_list := l\<rparr>) \<longleftrightarrow> sys_inv X k"
  "sys_inv X (k\<lparr>k_wq_thread := w\<rparr>) \<longleftrightarrow> sys_inv X k"
  by (simp_all add: sys_inv_def threads_inv_def sched_inv_def thread_ok_def group_ok_def mask_ok_def prio_of_def
      cur_ok_def timer_inv_def periods_ok_def thread_wf_def due_def periodic_def timer_flag_def is_timer_def
      is_thread_def rt_object_get_type_def cong: ball_cong map_cong)

lemma kdrv_more:
  assumes "ktimer.more k' = ktimer.more k"
  shows "k_completion k' = k_completion k" "k_dq k' = k_dq k" "k_wq_flag k' = k_wq_flag k"
    "k_wq_list k' = k_wq_list k" "k_wq_thread k' = k_wq_thread k" "kdrv.more k' = kdrv.more k"
proof -
  have "kipc.more k' = kipc.more k" by (rule kipc_more(6)[OF assms])
  then show "k_completion k' = k_completion k" "k_dq k' = k_dq k" "k_wq_flag k' = k_wq_flag k"
    "k_wq_list k' = k_wq_list k" "k_wq_thread k' = k_wq_thread k" "kdrv.more k' = kdrv.more k"
    by (cases k; cases k'; simp)+
qed

lemma set_error_kdrv [simp]:
  "k_completion (set_error e t k) = k_completion k" "k_dq (set_error e t k) = k_dq k"
  "k_wq_flag (set_error e t k) = k_wq_flag k" "k_wq_list (set_error e t k) = k_wq_list k"
  "k_wq_thread (set_error e t k) = k_wq_thread k"
  by (rule kdrv_more[OF set_error_kipc(9)])+

lemma set_completion_simps [simp]:
  "k_completion (set_completion a f k) = (k_completion k)(a := f)" "k_queues (set_completion a f k) = k_queues k"
  "k_threads (set_completion a f k) = k_threads k" "k_timer_list (set_completion a f k) = k_timer_list k"
  "sys_inv X (set_completion a f k) = sys_inv X k"
  by (simp_all add: set_completion_def)

section \<open>Waiting and completing\<close>

lemma rt_completion_wait_blocks:
  assumes inv: "sys_inv {} k" and c: "k_current k = Some t" "tstat k t = RT_THREAD_RUNNING" "k_irq_nest k = 0"
    and a: "k_completion k a \<noteq> RT_COMPLETED" "k_queues k (Pend a) = []" and tm: "timeout \<noteq> 0" "timeout \<noteq> 0x7fffffff"
  obtains k' where "rt_completion_wait a timeout k = Some (Blocked k')" "sys_inv {} k'" "tstat k' t = RT_THREAD_SUSPEND"
    "k_queues k' (Pend a) = [t]" "th_error (k_threads k' t) = RT_EOK" "k_completion k' = k_completion k"
    "0 < sint timeout \<Longrightarrow> ThreadTimer t \<in> set (k_timer_list k') \<and> due k' (ThreadTimer t) = sint timeout"
proof -
  let ?k1 = "set_error RT_EOK t k"
  have i1: "sys_inv {} ?k1" using inv by (simp add: set_error_sys)
  have c1: "k_current ?k1 = Some t" "tstat ?k1 t = RT_THREAD_RUNNING" using c by (simp_all del: set_error_simps(1))
  have fl: "RT_IPC_FLAG_FIFO \<in> {RT_IPC_FLAG_FIFO, RT_IPC_FLAG_PRIO}" by simp
  obtain k2 k' where k': "ipc_wait (Pend a) t RT_IPC_FLAG_FIFO timeout ?k1 = Some k2" "rt_schedule k2 = Some k'" "sys_inv {} k'"
    "k_queues k' (Pend a) = ipc_insert RT_IPC_FLAG_FIFO (\<lambda>s. th_current_priority (k_threads ?k1 s)) t (k_queues ?k1 (Pend a))"
    "tstat k' t = RT_THREAD_SUSPEND" "th_error (k_threads k' t) = th_error (k_threads ?k1 t)"
    "0 < sint timeout \<Longrightarrow> ThreadTimer t \<in> set (k_timer_list k') \<and> due k' (ThreadTimer t) = sint timeout"
    "ktimer.more k' = ktimer.more ?k1"
    using block_ok[OF i1 c1 wait_head_simps(1)[of a] fl tm(2)] by metis
  have "rt_completion_wait a timeout k = Some (Blocked k')"
    using a tm(1) c k'(1,2) by (simp add: rt_completion_wait_def rt_thread_self_def Let_def)
  then show ?thesis
    by (rule that) (use k' kdrv_more(1)[OF k'(8)] a(2) in \<open>simp_all add: ipc_insert_def\<close>)
qed

text \<open>A completion is kept for a later waiter, or wakes the waiter there is, without an error.\<close>

lemma rt_completion_done_ok:
  assumes inv: "sys_inv {} k" and a: "k_completion k a \<noteq> RT_COMPLETED"
  obtains k' where "rt_completion_done a k = Some k'" "sys_inv {} k'" "k_completion k' = (k_completion k)(a := RT_COMPLETED)"
    "k_queues k' (Pend a) = tl (k_queues k (Pend a))"
    "\<forall>t ts. k_queues k (Pend a) = t # ts \<longrightarrow> tstat k' t \<in> {RT_THREAD_READY, RT_THREAD_RUNNING} \<and>
       th_error (k_threads k' t) = th_error (k_threads k t)"
proof -
  let ?k1 = "set_completion a RT_COMPLETED k"
  have i1: "sys_inv {} ?k1" using inv by simp
  obtain k' where k': "wake_first (Pend a) ?k1 = Some k'" "sys_inv {} k'" "k_queues k' (Pend a) = tl (k_queues ?k1 (Pend a))"
    "\<forall>m. wait_head m \<and> m \<noteq> Pend a \<longrightarrow> k_queues k' m = k_queues ?k1 m" "ktimer.more k' = ktimer.more ?k1"
    "k_obj_type k' = k_obj_type ?k1"
    "\<forall>t ts. k_queues ?k1 (Pend a) = t # ts \<longrightarrow> tstat k' t \<in> {RT_THREAD_READY, RT_THREAD_RUNNING} \<and>
       th_error (k_threads k' t) = th_error (k_threads ?k1 t)"
    by (rule wake_first_ok[OF i1 wait_head_simps(1)])
  show ?thesis
    by (rule that[of k']) (use k' kdrv_more(1)[OF k'(5)] a in \<open>auto simp: rt_completion_done_def\<close>)
qed

text \<open>
  A completion that arrives between the timeout of its waiter and the waiter's next run is lost:
  the waiter reports the timeout and clears the flag.
\<close>

lemma rt_completion_timeout_loses:
  assumes inv: "sys_inv {} k" and q: "k_queues k (Pend a) = [t]" and l: "ThreadTimer t \<notin> set (k_timer_list k)"
    and a: "k_completion k a \<noteq> RT_COMPLETED"
  obtains k1 k2 k3 where "rt_thread_timeout t k = Some k1" "rt_completion_done a k1 = Some k2"
    "k_completion k2 a = RT_COMPLETED" "rt_completion_wait_return t a k2 = (- RT_ETIMEOUT, k3)"
    "k_completion k3 a = RT_UNCOMPLETED" "k_queues k3 (Pend a) = []" "sys_inv {} k3"
proof -
  have s: "tstat k t = RT_THREAD_SUSPEND" by (rule waiting_suspended[OF inv wait_head_simps(1)[of a]]) (simp add: q)
  obtain k0 k1 where k1: "rt_thread_timeout t k = Some k1" "sys_inv {} k1" "sched_frame k0 k1"
    "k_queues k0 = (if k_current k = Some t then q_remove t (k_queues k)
                    else q_push_back (Ready (prio_of k t)) t (q_remove t (k_queues k)))" "ksched.more k1 = ksched.more k"
    "th_error (k_threads k1 t) = - RT_ETIMEOUT"
    using rt_thread_timeout_ok[OF inv s l] by metis
  have qe: "k_queues k1 (Pend a) = []" using frame_queue[OF k1(3), of "Pend a"] k1(4) q by simp
  have ck: "k_completion k1 = k_completion k" by (rule kdrv_more(1)[OF more_fields(8)[OF k1(5)]])
  have d: "rt_completion_done a k1 = Some (set_completion a RT_COMPLETED k1)"
    using a qe by (simp add: rt_completion_done_def ck wake_first_def)
  show ?thesis
    by (rule that[OF k1(1) d, of "set_completion a RT_UNCOMPLETED (set_completion a RT_COMPLETED k1)"]) (use k1(2,6) qe in \<open>simp_all add: rt_completion_wait_return_def\<close>)
qed

end
