(* ===== verification/DataQueue.thy ===== *)
theory DataQueue
  imports Completion
begin

text \<open>
  Data queues of the device drivers (\<open>components/drivers/src/dataqueue.c\<close>): a ring of pairs of a
  pointer and a size, with threads waiting to push (\<open>PendSend\<close>) and to pop (\<open>Pend\<close>). What the
  notification function of a queue does is an argument of the operations.
\<close>

section \<open>The ring\<close>

definition dq_store :: "u32 \<times> u32 \<Rightarrow> dataqueue \<Rightarrow> dataqueue" where
  "dq_store x q = q\<lparr>dq_items := (dq_items q)[unat (dq_put q) mod unat (dq_size q) := x], dq_put := dq_put q + 1\<rparr>"

definition dq_first :: "dataqueue \<Rightarrow> u32 \<times> u32" where
  "dq_first q = dq_items q ! (unat (dq_get q) mod unat (dq_size q))"

definition dq_drop :: "dataqueue \<Rightarrow> dataqueue" where
  "dq_drop q = q\<lparr>dq_get := dq_get q + 1\<rparr>"

text \<open>The 16-bit indices are promoted to \<open>int\<close> before they are subtracted.\<close>

definition dq_used :: "dataqueue \<Rightarrow> int" where
  "dq_used q = uint (dq_put q) - uint (dq_get q)"

definition dq_full :: "dataqueue \<Rightarrow> bool" where
  "dq_full q \<longleftrightarrow> dq_used q = uint (dq_size q)"

section \<open>Operations\<close>

definition RT_DATAQUEUE_EVENT_POP :: u32 where "RT_DATAQUEUE_EVENT_POP = 1"
definition RT_DATAQUEUE_EVENT_PUSH :: u32 where "RT_DATAQUEUE_EVENT_PUSH = 2"
definition RT_DATAQUEUE_EVENT_LWM :: u32 where "RT_DATAQUEUE_EVENT_LWM = 3"

text \<open>\<open>items\<close> is the memory the heap gave for the ring, where it had any.\<close>

definition rt_data_queue_init ::
    "nat \<Rightarrow> u16 \<Rightarrow> u16 \<Rightarrow> (u32 \<times> u32) list option \<Rightarrow> 'a kdrv_scheme \<Rightarrow> rt_err \<times> 'a kdrv_scheme" where
  "rt_data_queue_init a sz lwm items k =
    (let q = \<lparr>dq_size = sz, dq_lwm = lwm, dq_get = 0, dq_put = 0, dq_items = (case items of None \<Rightarrow> [] | Some xs \<Rightarrow> xs)\<rparr>;
         k1 = set_dq a q k;
         k2 = k1\<lparr>k_queues := (k_queues k1)(PendSend a := [], Pend a := [])\<rparr>
     in (case items of None \<Rightarrow> (- RT_ENOMEM, k2) | Some xs \<Rightarrow> (RT_EOK, k2)))"

text \<open>
  The loop of \<open>rt_data_queue_push\<close>: one turn, which delivers, gives up or blocks. A waiting popper
  is woken in place of the notification.
\<close>

definition rt_data_queue_push ::
    "(u32 \<Rightarrow> 'a kdrv_scheme \<Rightarrow> 'a kdrv_scheme option) \<Rightarrow> nat \<Rightarrow> u32 \<times> u32 \<Rightarrow> 32 word \<Rightarrow> 'a kdrv_scheme \<Rightarrow>
     (rt_err, 'a kdrv_scheme) call option" where
  "rt_data_queue_push notify a x timeout k =
    (let q = k_dq k a in
     if dq_full q then
       (if timeout = 0 then Some (Done (- RT_ETIMEOUT) k)
        else do {
          rt_assert (k_irq_nest k = 0);
          t \<leftarrow> rt_thread_self k;
          k1 \<leftarrow> ipc_wait (PendSend a) t RT_IPC_FLAG_FIFO timeout (set_error RT_EOK t k);
          k2 \<leftarrow> rt_schedule k1;
          Some (Blocked k2)
        })
     else do {
       rt_assert (unat (dq_put q) mod unat (dq_size q) < length (dq_items q));
       let k1 = set_dq a (dq_store x q) k;
       k2 \<leftarrow> (if k_queues k1 (Pend a) \<noteq> [] then wake_first (Pend a) k1 else notify RT_DATAQUEUE_EVENT_PUSH k1);
       Some (Done RT_EOK k2)
     })"

text \<open>A thread that blocked tries again, with the whole of its timeout, unless it was woken with an error.\<close>

definition rt_data_queue_push_return ::
    "(u32 \<Rightarrow> 'a kdrv_scheme \<Rightarrow> 'a kdrv_scheme option) \<Rightarrow> nat \<Rightarrow> nat \<Rightarrow> u32 \<times> u32 \<Rightarrow> 32 word \<Rightarrow> 'a kdrv_scheme \<Rightarrow>
     (rt_err, 'a kdrv_scheme) call option" where
  "rt_data_queue_push_return notify t a x timeout k =
    (if th_error (k_threads k t) \<noteq> RT_EOK then Some (Done (th_error (k_threads k t)) k)
     else rt_data_queue_push notify a x timeout k)"

definition rt_data_queue_pop ::
    "(u32 \<Rightarrow> 'a kdrv_scheme \<Rightarrow> 'a kdrv_scheme option) \<Rightarrow> nat \<Rightarrow> 32 word \<Rightarrow> 'a kdrv_scheme \<Rightarrow>
     (rt_err \<times> (u32 \<times> u32) option, 'a kdrv_scheme) call option" where
  "rt_data_queue_pop notify a timeout k =
    (let q = k_dq k a in
     if dq_get q = dq_put q then
       (if timeout = 0 then Some (Done (- RT_ETIMEOUT, None) k)
        else do {
          rt_assert (k_irq_nest k = 0);
          t \<leftarrow> rt_thread_self k;
          k1 \<leftarrow> ipc_wait (Pend a) t RT_IPC_FLAG_FIFO timeout (set_error RT_EOK t k);
          k2 \<leftarrow> rt_schedule k1;
          Some (Blocked k2)
        })
     else do {
       rt_assert (unat (dq_get q) mod unat (dq_size q) < length (dq_items q));
       let k1 = set_dq a (dq_drop q) k;
       k2 \<leftarrow> (if dq_used (dq_drop q) \<le> uint (dq_lwm q)
              then do { k2 \<leftarrow> wake_first (PendSend a) k1; notify RT_DATAQUEUE_EVENT_LWM k2 }
              else notify RT_DATAQUEUE_EVENT_POP k1);
       Some (Done (RT_EOK, Some (dq_first q)) k2)
     })"

definition rt_data_queue_pop_return ::
    "(u32 \<Rightarrow> 'a kdrv_scheme \<Rightarrow> 'a kdrv_scheme option) \<Rightarrow> nat \<Rightarrow> nat \<Rightarrow> 32 word \<Rightarrow> 'a kdrv_scheme \<Rightarrow>
     (rt_err \<times> (u32 \<times> u32) option, 'a kdrv_scheme) call option" where
  "rt_data_queue_pop_return notify t a timeout k =
    (if th_error (k_threads k t) \<noteq> RT_EOK then Some (Done (th_error (k_threads k t), None) k)
     else rt_data_queue_pop notify a timeout k)"

definition rt_data_queue_peak :: "nat \<Rightarrow> 'a kdrv_scheme \<Rightarrow> (rt_err \<times> (u32 \<times> u32) option) option" where
  "rt_data_queue_peak a k =
    (let q = k_dq k a in
     if dq_get q = dq_put q then Some (- RT_EEMPTY, None)
     else do {
       rt_assert (unat (dq_get q) mod unat (dq_size q) < length (dq_items q));
       Some (RT_EOK, Some (dq_first q))
     })"

text \<open>Every waiter is woken with an error; the items stay in the queue.\<close>

definition rt_data_queue_reset :: "nat \<Rightarrow> 'a kdrv_scheme \<Rightarrow> 'a kdrv_scheme option" where
  "rt_data_queue_reset a k = do {
     k1 \<leftarrow> rt_ipc_list_resume_all (Pend a) (rt_enter_critical k);
     k2 \<leftarrow> rt_ipc_list_resume_all (PendSend a) k1;
     k3 \<leftarrow> rt_exit_critical k2;
     rt_schedule k3
   }"

section \<open>First in, first out\<close>

definition dq_ok :: "dataqueue \<Rightarrow> bool" where
  "dq_ok q \<longleftrightarrow> length (dq_items q) = unat (dq_size q) \<and> 0 < unat (dq_size q) \<and> dq_get q \<le> dq_put q \<and>
     unat (dq_put q) \<le> unat (dq_get q) + unat (dq_size q)"

definition dq_content :: "dataqueue \<Rightarrow> (u32 \<times> u32) list" where
  "dq_content q = map (\<lambda>i. dq_items q ! (i mod unat (dq_size q))) [unat (dq_get q)..<unat (dq_put q)]"

lemma dq_used_ok: "dq_ok q \<Longrightarrow> dq_used q = int (length (dq_content q))"
  by (simp add: dq_used_def dq_ok_def dq_content_def word_le_nat_alt of_nat_diff)

lemma dq_full_ok: "dq_ok q \<Longrightarrow> dq_full q \<longleftrightarrow> length (dq_content q) = unat (dq_size q)"
  using dq_used_ok[of q] by (simp add: dq_full_def flip: of_nat_eq_iff[where 'a = int])

lemma dq_empty_ok: "dq_ok q \<Longrightarrow> dq_get q = dq_put q \<longleftrightarrow> dq_content q = []"
  by (auto simp: dq_content_def dq_ok_def word_le_nat_alt word_unat_eq_iff)

lemma mod_neq_window:
  fixes i j n :: nat
  assumes "i < j" "j < i + n" shows "i mod n \<noteq> j mod n"
proof
  assume "i mod n = j mod n"
  then have "n dvd j - i" using mod_eq_dvd_iff_nat[of i j n] assms(1) by simp
  then show False using assms by (auto dest: dvd_imp_le)
qed

lemma dq_store_ok:
  assumes ok: "dq_ok q" and room: "length (dq_content q) < unat (dq_size q)" and low: "unat (dq_put q) < 65535"
  shows "dq_ok (dq_store x q)" "dq_content (dq_store x q) = dq_content q @ [x]"
proof -
  have p: "unat (dq_put q + 1) = unat (dq_put q) + 1" using low by (simp add: unat_plus_if')
  have le: "unat (dq_get q) \<le> unat (dq_put q)" using ok by (simp add: dq_ok_def word_le_nat_alt)
  have lt: "unat (dq_put q) < unat (dq_get q) + unat (dq_size q)" using room le by (simp add: dq_content_def)
  show "dq_ok (dq_store x q)" using ok p lt le by (simp add: dq_ok_def dq_store_def word_le_nat_alt)
  have "(dq_items q)[unat (dq_put q) mod unat (dq_size q) := x] ! (i mod unat (dq_size q)) = dq_items q ! (i mod unat (dq_size q))"
    if "unat (dq_get q) \<le> i" "i < unat (dq_put q)" for i
    by (rule nth_list_update_neq) (use mod_neq_window[of i "unat (dq_put q)" "unat (dq_size q)"] that lt in simp)
  then show "dq_content (dq_store x q) = dq_content q @ [x]"
    using p le ok by (auto simp: dq_content_def dq_store_def dq_ok_def)
qed

lemma dq_drop_ok:
  assumes ok: "dq_ok q" and c: "dq_content q = x # xs"
  shows "dq_first q = x" "dq_ok (dq_drop q)" "dq_content (dq_drop q) = xs"
proof -
  have lt: "unat (dq_get q) < unat (dq_put q)"
  proof (rule ccontr)
    assume "\<not> ?thesis"
    then show False using c by (simp add: dq_content_def)
  qed
  then have g: "unat (dq_get q + 1) = unat (dq_get q) + 1"
    using unsigned_less[of "dq_put q", where 'a = nat] by (simp add: unat_plus_if')
  have u: "[unat (dq_get q)..<unat (dq_put q)] = unat (dq_get q) # [unat (dq_get q) + 1..<unat (dq_put q)]"
    using lt by (simp add: upt_conv_Cons)
  show "dq_first q = x" "dq_content (dq_drop q) = xs"
    using c g by (simp_all add: dq_content_def dq_first_def dq_drop_def u)
  show "dq_ok (dq_drop q)" using ok g lt by (auto simp: dq_ok_def dq_drop_def word_le_nat_alt)
qed

lemma dq_slot: "dq_ok q \<Longrightarrow> i mod unat (dq_size q) < length (dq_items q)"
  by (simp add: dq_ok_def)

lemma set_dq_simps [simp]:
  "k_dq (set_dq a q k) = (k_dq k)(a := q)" "k_queues (set_dq a q k) = k_queues k"
  "k_threads (set_dq a q k) = k_threads k" "sys_inv X (set_dq a q k) = sys_inv X k"
  "set_dq a q (set_dq a q' k) = set_dq a q k" "set_dq a (k_dq k a) k = k"
  by (simp_all add: set_dq_def)

text \<open>A notification that returns and leaves the kernel in order and the data queues alone.\<close>

definition quiet :: "(u32 \<Rightarrow> 'a kdrv_scheme \<Rightarrow> 'a kdrv_scheme option) \<Rightarrow> bool" where
  "quiet notify \<longleftrightarrow> (\<forall>ev k. sys_inv {} k \<longrightarrow> (\<exists>k'. notify ev k = Some k' \<and> sys_inv {} k' \<and> k_dq k' = k_dq k))"

lemma quietE:
  assumes "quiet notify" "sys_inv {} k"
  obtains k' where "notify ev k = Some k'" "sys_inv {} k'" "k_dq k' = k_dq k"
  using assms by (auto simp: quiet_def)

lemma wake_dq:
  assumes inv: "sys_inv {} k" and l: "wait_head l"
  obtains k' where "wake_first l k = Some k'" "sys_inv {} k'" "k_dq k' = k_dq k" "k_queues k' l = tl (k_queues k l)"
    "\<forall>t ts. k_queues k l = t # ts \<longrightarrow> tstat k' t \<in> {RT_THREAD_READY, RT_THREAD_RUNNING}"
proof (rule wake_first_ok[OF inv l])
  fix k' assume "wake_first l k = Some k'" "sys_inv {} k'" "k_queues k' l = tl (k_queues k l)"
    "ktimer.more k' = ktimer.more k"
    "\<forall>t ts. k_queues k l = t # ts \<longrightarrow> tstat k' t \<in> {RT_THREAD_READY, RT_THREAD_RUNNING} \<and> th_error (k_threads k' t) = th_error (k_threads k t)"
  then show ?thesis using that[of k'] kdrv_more(2)[of k' k] by blast
qed

lemma rt_data_queue_push_now:
  assumes inv: "sys_inv {} k" and n: "quiet notify" and ok: "dq_ok (k_dq k a)"
    and room: "length (dq_content (k_dq k a)) < unat (dq_size (k_dq k a))" and low: "unat (dq_put (k_dq k a)) < 65535"
  obtains k' where "rt_data_queue_push notify a x timeout k = Some (Done RT_EOK k')" "sys_inv {} k'" "dq_ok (k_dq k' a)"
    "dq_content (k_dq k' a) = dq_content (k_dq k a) @ [x]"
    "\<forall>t ts. k_queues k (Pend a) = t # ts \<longrightarrow> k_queues k' (Pend a) = ts \<and> tstat k' t \<in> {RT_THREAD_READY, RT_THREAD_RUNNING}"
proof -
  let ?k1 = "set_dq a (dq_store x (k_dq k a)) k"
  have i1: "sys_inv {} ?k1" using inv by simp
  have nf: "\<not> dq_full (k_dq k a)" using dq_full_ok[OF ok] room by simp
  note s = dq_store_ok[OF ok room low]
  obtain k' where k': "(if k_queues ?k1 (Pend a) \<noteq> [] then wake_first (Pend a) ?k1 else notify RT_DATAQUEUE_EVENT_PUSH ?k1) = Some k'"
    "sys_inv {} k'" "k_dq k' = k_dq ?k1"
    "\<forall>t ts. k_queues k (Pend a) = t # ts \<longrightarrow> k_queues k' (Pend a) = ts \<and> tstat k' t \<in> {RT_THREAD_READY, RT_THREAD_RUNNING}"
  proof (cases "k_queues k (Pend a) = []")
    case True
    obtain k2 where "notify RT_DATAQUEUE_EVENT_PUSH ?k1 = Some k2" "sys_inv {} k2" "k_dq k2 = k_dq ?k1"
      by (rule quietE[OF n i1])
    then show ?thesis using True that by simp
  next
    case False
    obtain k2 where "wake_first (Pend a) ?k1 = Some k2" "sys_inv {} k2" "k_dq k2 = k_dq ?k1" "k_queues k2 (Pend a) = tl (k_queues ?k1 (Pend a))"
      "\<forall>t ts. k_queues ?k1 (Pend a) = t # ts \<longrightarrow> tstat k2 t \<in> {RT_THREAD_READY, RT_THREAD_RUNNING}"
      by (rule wake_dq[OF i1 wait_head_simps(1)])
    then show ?thesis using False that[of k2] by simp
  qed
  show ?thesis
    by (rule that[OF _ k'(2) _ _ k'(4)])
      (use k'(1,3) nf s dq_slot[OF ok] in \<open>simp_all add: rt_data_queue_push_def Let_def\<close>)
qed

lemma rt_data_queue_pop_now:
  assumes inv: "sys_inv {} k" and n: "quiet notify" and ok: "dq_ok (k_dq k a)" and c: "dq_content (k_dq k a) = x # xs"
  obtains k' where "rt_data_queue_pop notify a timeout k = Some (Done (RT_EOK, Some x) k')" "sys_inv {} k'" "dq_ok (k_dq k' a)"
    "dq_content (k_dq k' a) = xs"
proof -
  let ?q = "dq_drop (k_dq k a)"
  let ?k1 = "set_dq a ?q k"
  have i1: "sys_inv {} ?k1" using inv by simp
  have ne: "dq_get (k_dq k a) \<noteq> dq_put (k_dq k a)" using dq_empty_ok[OF ok] c by simp
  note d = dq_drop_ok[OF ok c]
  obtain k' where k': "(if dq_used ?q \<le> uint (dq_lwm (k_dq k a))
      then do { k2 \<leftarrow> wake_first (PendSend a) ?k1; notify RT_DATAQUEUE_EVENT_LWM k2 } else notify RT_DATAQUEUE_EVENT_POP ?k1) = Some k'"
    "sys_inv {} k'" "k_dq k' = k_dq ?k1"
  proof (cases "dq_used ?q \<le> uint (dq_lwm (k_dq k a))")
    case False
    obtain k2 where "notify RT_DATAQUEUE_EVENT_POP ?k1 = Some k2" "sys_inv {} k2" "k_dq k2 = k_dq ?k1"
      by (rule quietE[OF n i1])
    then show ?thesis using False that by simp
  next
    case True
    obtain k2 where k2: "wake_first (PendSend a) ?k1 = Some k2" "sys_inv {} k2" "k_dq k2 = k_dq ?k1"
      by (rule wake_dq[OF i1 wait_head_simps(2)])
    obtain k3 where "notify RT_DATAQUEUE_EVENT_LWM k2 = Some k3" "sys_inv {} k3" "k_dq k3 = k_dq k2"
      by (rule quietE[OF n k2(2)])
    then show ?thesis using True k2 that by simp
  qed
  show ?thesis
    by (rule that[OF _ k'(2)]) (use k'(1,3) ne d dq_slot[OF ok] in \<open>simp_all add: rt_data_queue_pop_def Let_def\<close>)
qed

section \<open>Wrapping indices\<close>

text \<open>A number of pushes each followed by a pop, and a list of pushes, all of which must succeed without waiting.\<close>

definition finished :: "('r, 'k) call option \<Rightarrow> ('r \<times> 'k) option" where
  "finished c = (case c of Some (Done r k) \<Rightarrow> Some (r, k) | _ \<Rightarrow> None)"

primrec dq_cycles :: "nat \<Rightarrow> u32 \<times> u32 \<Rightarrow> nat \<Rightarrow> 'a kdrv_scheme \<Rightarrow> 'a kdrv_scheme option" where
  "dq_cycles a x 0 k = Some k"
| "dq_cycles a x (Suc n) k = do {
     (e, k1) \<leftarrow> finished (rt_data_queue_push (\<lambda>_. Some) a x 0 k);
     rt_assert (e = RT_EOK);
     ((e, _), k2) \<leftarrow> finished (rt_data_queue_pop (\<lambda>_. Some) a 0 k1);
     rt_assert (e = RT_EOK);
     dq_cycles a x n k2
   }"

primrec dq_push_all :: "nat \<Rightarrow> (u32 \<times> u32) list \<Rightarrow> 'a kdrv_scheme \<Rightarrow> 'a kdrv_scheme option" where
  "dq_push_all a [] k = Some k"
| "dq_push_all a (x # xs) k = do {
     (e, k1) \<leftarrow> finished (rt_data_queue_push (\<lambda>_. Some) a x 0 k);
     rt_assert (e = RT_EOK);
     dq_push_all a xs k1
   }"

text \<open>A ring with room for something, whatever its indices, and nobody waiting.\<close>

definition dq_idle :: "nat \<Rightarrow> 'a kdrv_scheme \<Rightarrow> bool" where
  "dq_idle a k \<longleftrightarrow> 0 < unat (dq_size (k_dq k a)) \<and> length (dq_items (k_dq k a)) = unat (dq_size (k_dq k a)) \<and>
     k_queues k (Pend a) = [] \<and> k_queues k (PendSend a) = []"

lemma dq_idle_size: "dq_idle a k \<Longrightarrow> 0 < uint (dq_size (k_dq k a))"
  by (simp only: dq_idle_def uint_nat of_nat_0_less_iff)

lemma push_idle:
  assumes "dq_idle a k" "\<not> dq_full (k_dq k a)"
  shows "rt_data_queue_push (\<lambda>_. Some) a x t k = Some (Done RT_EOK (set_dq a (dq_store x (k_dq k a)) k))"
    "dq_idle a (set_dq a (dq_store x (k_dq k a)) k)"
  using assms by (simp_all add: rt_data_queue_push_def dq_idle_def Let_def dq_store_def)

lemma pop_idle:
  assumes "dq_idle a k" "dq_get (k_dq k a) \<noteq> dq_put (k_dq k a)"
  shows "rt_data_queue_pop (\<lambda>_. Some) a t k =
      Some (Done (RT_EOK, Some (dq_first (k_dq k a))) (set_dq a (dq_drop (k_dq k a)) k))"
    "dq_idle a (set_dq a (dq_drop (k_dq k a)) k)"
  using assms by (simp_all add: rt_data_queue_pop_def dq_idle_def Let_def dq_drop_def wake_first_def)

lemma dq_cycles_ok:
  "dq_idle a k \<Longrightarrow> dq_put (k_dq k a) = dq_get (k_dq k a) \<Longrightarrow>
   \<exists>k'. dq_cycles a x n k = Some k' \<and> dq_idle a k' \<and> dq_size (k_dq k' a) = dq_size (k_dq k a) \<and>
     dq_get (k_dq k' a) = dq_get (k_dq k a) + of_nat n \<and> dq_put (k_dq k' a) = dq_get (k_dq k' a)"
proof (induction n arbitrary: k)
  case (Suc n)
  let ?k1 = "set_dq a (dq_store x (k_dq k a)) k"
  let ?k2 = "set_dq a (dq_drop (k_dq ?k1 a)) ?k1"
  have nf: "\<not> dq_full (k_dq k a)" using Suc.prems(2) dq_idle_size[OF Suc.prems(1)] by (simp add: dq_full_def dq_used_def)
  note p = push_idle[OF Suc.prems(1) nf, of x]
  have ne: "dq_get (k_dq ?k1 a) \<noteq> dq_put (k_dq ?k1 a)" using Suc.prems(2) by (simp add: dq_store_def)
  note g = pop_idle[OF p(2) ne]
  have "dq_put (k_dq ?k2 a) = dq_get (k_dq ?k2 a)" using Suc.prems(2) by (simp add: dq_store_def dq_drop_def)
  then obtain k' where k': "dq_cycles a x n ?k2 = Some k'" "dq_idle a k'" "dq_size (k_dq k' a) = dq_size (k_dq ?k2 a)"
    "dq_get (k_dq k' a) = dq_get (k_dq ?k2 a) + of_nat n" "dq_put (k_dq k' a) = dq_get (k_dq k' a)"
    using Suc.IH[OF g(2)] by blast
  have "dq_cycles a x (Suc n) k = Some k'" using p(1) g(1) k'(1) by (simp add: finished_def)
  then show ?case using k' by (simp add: dq_store_def dq_drop_def algebra_simps)
qed simp

text \<open>Once the index to take from stands at 65535 the queue is never full.\<close>

lemma dq_push_all_ok:
  "dq_idle a k \<Longrightarrow> dq_get (k_dq k a) = 65535 \<Longrightarrow> \<exists>k'. dq_push_all a xs k = Some k' \<and> dq_idle a k' \<and>
     dq_size (k_dq k' a) = dq_size (k_dq k a) \<and> dq_get (k_dq k' a) = 65535"
proof (induction xs arbitrary: k)
  case (Cons x xs)
  let ?k1 = "set_dq a (dq_store x (k_dq k a)) k"
  have "uint (dq_put (k_dq k a)) < 65536" using uint_lt2p[of "dq_put (k_dq k a)"] by simp
  then have nf: "\<not> dq_full (k_dq k a)" using Cons.prems(2) dq_idle_size[OF Cons.prems(1)] by (simp add: dq_full_def dq_used_def)
  note p = push_idle[OF Cons.prems(1) nf, of x]
  have "dq_get (k_dq ?k1 a) = 65535" using Cons.prems(2) by (simp add: dq_store_def)
  then obtain k' where "dq_push_all a xs ?k1 = Some k'" "dq_idle a k'" "dq_size (k_dq k' a) = dq_size (k_dq ?k1 a)"
      "dq_get (k_dq k' a) = 65535"
    using Cons.IH[OF p(2)] by blast
  then show ?case using p(1) by (simp add: finished_def dq_store_def)
qed simp

lemma dq_wrap_ok:
  assumes "dq_idle a k" "dq_get (k_dq k a) = 0" "dq_put (k_dq k a) = 0"
  shows "\<exists>k1. dq_cycles a x 65535 k = Some k1 \<and> dq_ok (k_dq k1 a) \<and> dq_content (k_dq k1 a) = [] \<and>
    (\<forall>xs. \<exists>k2. dq_push_all a xs k1 = Some k2 \<and> length (dq_items (k_dq k2 a)) = unat (dq_size (k_dq k a)))"
proof -
  obtain k1 where k1: "dq_cycles a x 65535 k = Some k1" "dq_idle a k1" "dq_size (k_dq k1 a) = dq_size (k_dq k a)"
    "dq_get (k_dq k1 a) = dq_get (k_dq k a) + of_nat 65535" "dq_put (k_dq k1 a) = dq_get (k_dq k1 a)"
    using dq_cycles_ok[OF assms(1), of x 65535] assms(2,3) by auto
  have "\<exists>k2. dq_push_all a xs k1 = Some k2 \<and> length (dq_items (k_dq k2 a)) = unat (dq_size (k_dq k a))" for xs
    using dq_push_all_ok[OF k1(2), of xs] k1(3,4) assms(2) by (auto simp: dq_idle_def)
  moreover have "dq_ok (k_dq k1 a)" "dq_content (k_dq k1 a) = []"
    using k1(2,5) by (simp_all add: dq_ok_def dq_idle_def dq_content_def)
  ultimately show ?thesis using k1(1) by blast
qed

end
