(* ===== verification/WaitQueue.thy ===== *)
theory WaitQueue
  imports Completion
begin

text \<open>
  Wait queues of the device drivers (\<open>components/drivers/src/waitqueue.c\<close>): a list of nodes, each
  with the thread that polls, and a flag that remembers a wake-up. The suspended thread itself
  is in no list. The wake-up functions of the nodes are an argument.
\<close>

section \<open>Operations\<close>

definition RT_WQ_FLAG_CLEAN :: u32 where "RT_WQ_FLAG_CLEAN = 0"
definition RT_WQ_FLAG_WAKEUP :: u32 where "RT_WQ_FLAG_WAKEUP = 1"

definition set_wq_flag :: "nat \<Rightarrow> u32 \<Rightarrow> 'a kdrv_scheme \<Rightarrow> 'a kdrv_scheme" where
  "set_wq_flag a f k = k\<lparr>k_wq_flag := (k_wq_flag k)(a := f)\<rparr>"

definition rt_wqueue_init :: "nat \<Rightarrow> 'a kdrv_scheme \<Rightarrow> 'a kdrv_scheme" where
  "rt_wqueue_init a k = (let k1 = set_wq_flag a RT_WQ_FLAG_CLEAN k in k1\<lparr>k_wq_list := (k_wq_list k1)(a := [])\<rparr>)"

definition rt_wqueue_add :: "nat \<Rightarrow> nat \<Rightarrow> 'a kdrv_scheme \<Rightarrow> 'a kdrv_scheme" where
  "rt_wqueue_add a node k = k\<lparr>k_wq_list := (k_wq_list k)(a := k_wq_list k a @ [node])\<rparr>"

text \<open>A node is in one queue at most; taking it out of its queue does not need to know which.\<close>

definition rt_wqueue_remove :: "nat \<Rightarrow> 'a kdrv_scheme \<Rightarrow> 'a kdrv_scheme" where
  "rt_wqueue_remove node k = k\<lparr>k_wq_list := (\<lambda>a. removeAll node (k_wq_list k a))\<rparr>"

definition wqueue_default_wake :: "nat \<Rightarrow> u32 \<Rightarrow> int" where
  "wqueue_default_wake node key = 0"

text \<open>The first node whose wake-up function accepts the key.\<close>

fun wq_find :: "(nat \<Rightarrow> u32 \<Rightarrow> int) \<Rightarrow> u32 \<Rightarrow> nat list \<Rightarrow> nat option" where
  "wq_find wakeup key [] = None"
| "wq_find wakeup key (n # ns) = (if wakeup n key = 0 then Some n else wq_find wakeup key ns)"

definition rt_wqueue_wakeup :: "(nat \<Rightarrow> u32 \<Rightarrow> int) \<Rightarrow> nat \<Rightarrow> u32 \<Rightarrow> 'a kdrv_scheme \<Rightarrow> 'a kdrv_scheme option" where
  "rt_wqueue_wakeup wakeup a key k =
    (let k1 = set_wq_flag a RT_WQ_FLAG_WAKEUP k in
     case wq_find wakeup key (k_wq_list k1 a) of
       None \<Rightarrow> Some k1
     | Some n \<Rightarrow> do {
         (_, k2) \<leftarrow> rt_thread_resume (k_wq_thread k1 n) k1;
         rt_schedule (rt_wqueue_remove n k2)
       })"

text \<open>\<open>node\<close> is the node on the waiter's stack. The result of the call is always 0.\<close>

definition rt_wqueue_wait :: "nat \<Rightarrow> nat \<Rightarrow> bool \<Rightarrow> 32 word \<Rightarrow> 'a kdrv_scheme \<Rightarrow> (int, 'a kdrv_scheme) call option" where
  "rt_wqueue_wait node a condition msec k = do {
     t \<leftarrow> rt_thread_self k;
     rt_assert (k_irq_nest k = 0);
     let tick = rt_tick_from_millisecond msec;
     if condition \<or> tick = 0 then Some (Done 0 k)
     else do {
       let k1 = k\<lparr>k_wq_thread := (k_wq_thread k)(node := t)\<rparr>;
       if k_wq_flag k1 a = RT_WQ_FLAG_WAKEUP then
         Some (Done 0 (rt_wqueue_remove node (set_wq_flag a 0 k1)))
       else do {
         (_, k2) \<leftarrow> rt_thread_suspend t (rt_wqueue_add a node k1);
         k3 \<leftarrow> (if tick \<noteq> - 1 then arm_timer t tick k2 else Some k2);
         k4 \<leftarrow> rt_schedule k3;
         Some (Blocked k4)
       }
     }
   }"

definition rt_wqueue_wait_return :: "nat \<Rightarrow> nat \<Rightarrow> 'a kdrv_scheme \<Rightarrow> int \<times> 'a kdrv_scheme" where
  "rt_wqueue_wait_return node a k = (0, rt_wqueue_remove node (set_wq_flag a 0 k))"

section \<open>Waking and waiting\<close>

lemma wq_simps [simp]:
  "k_wq_flag (set_wq_flag a f k) = (k_wq_flag k)(a := f)" "k_wq_list (set_wq_flag a f k) = k_wq_list k"
  "k_wq_thread (set_wq_flag a f k) = k_wq_thread k" "k_threads (set_wq_flag a f k) = k_threads k"
  "k_queues (set_wq_flag a f k) = k_queues k" "k_current (set_wq_flag a f k) = k_current k"
  "k_irq_nest (set_wq_flag a f k) = k_irq_nest k" "sys_inv X (set_wq_flag a f k) = sys_inv X k"
  "sys_inv X (rt_wqueue_add a n k) = sys_inv X k" "sys_inv X (rt_wqueue_remove n k) = sys_inv X k"
  "k_wq_list (rt_wqueue_remove n k) = (\<lambda>b. removeAll n (k_wq_list k b))" "k_wq_flag (rt_wqueue_remove n k) = k_wq_flag k"
  "k_threads (rt_wqueue_remove n k) = k_threads k"
  by (simp_all add: set_wq_flag_def rt_wqueue_add_def rt_wqueue_remove_def)

text \<open>A wake-up that finds nobody is remembered: the next waiter does not wait, and takes it.\<close>

lemma rt_wqueue_wakeup_kept:
  assumes "wq_find wakeup key (k_wq_list k a) = None"
    and c: "k_current k = Some t" "k_irq_nest k = 0"
  shows "\<exists>k1 k2. rt_wqueue_wakeup wakeup a key k = Some k1 \<and> rt_wqueue_wait node a False msec k1 = Some (Done 0 k2) \<and>
    k_threads k2 = k_threads k \<and> (rt_tick_from_millisecond msec \<noteq> 0 \<longrightarrow> k_wq_flag k2 a = 0)"
  using assms by (auto simp: rt_wqueue_wakeup_def rt_wqueue_wait_def rt_thread_self_def Let_def)

text \<open>A waiter goes to the end of the queue, suspended, with its timer armed for a time that ends.\<close>

lemma rt_wqueue_wait_blocks:
  assumes inv: "sys_inv {} k" and c: "k_current k = Some t" "tstat k t = RT_THREAD_RUNNING" "k_irq_nest k = 0"
    and f: "k_wq_flag k a \<noteq> RT_WQ_FLAG_WAKEUP" and tm: "0 < sint msec" "msec \<noteq> 0x7fffffff"
  obtains k' where "rt_wqueue_wait node a False msec k = Some (Blocked k')" "sys_inv {} k'" "tstat k' t = RT_THREAD_SUSPEND"
    "k_wq_list k' = (k_wq_list k)(a := k_wq_list k a @ [node])" "k_wq_thread k' = (k_wq_thread k)(node := t)"
    "k_wq_flag k' = k_wq_flag k" "ThreadTimer t \<in> set (k_timer_list k')" "due k' (ThreadTimer t) = sint msec"
proof -
  define tick where "tick = rt_tick_from_millisecond msec"
  have ut: "uint tick = sint msec" using tick_from_ms_exact[of msec] tm(1) by (simp add: tick_def)
  have "sint msec < 2147483648" using sint_lt[of msec] by simp
  moreover have "sint msec \<noteq> 0x7fffffff"
  proof
    assume "sint msec = 0x7fffffff"
    then have "msec = 0x7fffffff" by (intro signed_word_eqI) simp
    then show False using tm(2) by simp
  qed
  ultimately have small: "uint tick < 0x7fffffff" using ut by simp
  then have tick: "tick < 0x7fffffff" "tick \<noteq> - 1" "tick \<noteq> 0" using ut tm(1) by (auto simp: word_less_def unsigned_minus_1_eq_mask mask_eq_exp_minus_1)
  let ?k1 = "rt_wqueue_add a node (k\<lparr>k_wq_thread := (k_wq_thread k)(node := t)\<rparr>)"
  have i1: "sys_inv {} ?k1" using inv by simp
  have s1: "tstat ?k1 t \<in> {RT_THREAD_READY, RT_THREAD_RUNNING}" using c by (simp add: rt_wqueue_add_def)
  obtain k2 where k2: "rt_thread_suspend t ?k1 = Some (RT_EOK, k2)" "sys_inv {} k2"
    "k_threads k2 = (k_threads ?k1)(t := set_stat RT_THREAD_SUSPEND (k_threads ?k1 t))" "ktimer.more k2 = ktimer.more ?k1"
    by (rule rt_thread_suspend_ok[OF i1 s1])
  have s2: "tstat k2 t = RT_THREAD_SUSPEND" using k2(3) by simp
  obtain k3 where k3: "arm_timer t tick k2 = Some k3" "sys_inv {} k3" "timer_frame k2 k3"
    "ThreadTimer t \<in> set (k_timer_list k3)" "due k3 (ThreadTimer t) = uint tick"
    by (rule arm_timer_ok[OF k2(2) s2 tick(1)])
  note f3 = timer_frameD[OF k3(3)]
  obtain k' where k': "rt_schedule k3 = Some k'" "sys_inv {} k'" "sched_frame k3 k'" "ksched.more k' = ksched.more k3"
    by (rule schedule_sys[OF k3(2)])
  note m = more_fields[OF k'(4)] more_preds[OF k'(4)]
  have st: "tstat k' t = RT_THREAD_SUSPEND" using frame_stat(2)[OF k'(3), of t] s2 f3(1) by simp
  have mm: "ktimer.more k' = ktimer.more ?k1" using m(8) f3(18) k2(4) by simp
  have run: "rt_wqueue_wait node a False msec k = Some (Blocked k')"
    using c f k2(1) k3(1) k'(1) tick by (simp add: rt_wqueue_wait_def rt_thread_self_def Let_def tick_def[symmetric])
  show ?thesis
    by (rule that[OF run k'(2) st]) (use kdrv_more[OF mm] m k3(4,5) ut in \<open>simp_all add: rt_wqueue_add_def\<close>)
qed

text \<open>A wake-up resumes the thread of the first node that accepts the key and takes that node out.\<close>

lemma rt_wqueue_wakeup_wakes:
  assumes inv: "sys_inv {} k" and n: "wq_find wakeup key (k_wq_list k a) = Some n"
    and s: "tstat k (k_wq_thread k n) = RT_THREAD_SUSPEND"
  obtains k' where "rt_wqueue_wakeup wakeup a key k = Some k'" "sys_inv {} k'"
    "tstat k' (k_wq_thread k n) \<in> {RT_THREAD_READY, RT_THREAD_RUNNING}"
    "k_wq_list k' = (\<lambda>b. removeAll n (k_wq_list k b))" "k_wq_flag k' = (k_wq_flag k)(a := RT_WQ_FLAG_WAKEUP)"
    "ThreadTimer (k_wq_thread k n) \<notin> set (k_timer_list k')"
proof -
  let ?t = "k_wq_thread k n" and ?k1 = "set_wq_flag a RT_WQ_FLAG_WAKEUP k"
  have i1: "sys_inv {} ?k1" and s1: "tstat ?k1 ?t = RT_THREAD_SUSPEND" using inv s by simp_all
  obtain k2 where k2: "rt_thread_resume ?t ?k1 = Some (RT_EOK, k2)" "sys_inv {} k2"
    "k_threads k2 = (k_threads ?k1)(?t := set_stat (back_stat ?t ?k1) (k_threads ?k1 ?t))"
    "k_timer_list k2 = removeAll (ThreadTimer ?t) (k_timer_list ?k1)" "ktimer.more k2 = ktimer.more ?k1"
    by (rule rt_thread_resume_ok[OF i1 s1])
  note d = kdrv_more[OF k2(5)]
  have i2: "sys_inv {} (rt_wqueue_remove n k2)" using k2(2) by simp
  obtain k' where k': "rt_schedule (rt_wqueue_remove n k2) = Some k'" "sys_inv {} k'"
    "sched_frame (rt_wqueue_remove n k2) k'" "ksched.more k' = ksched.more (rt_wqueue_remove n k2)"
    by (rule schedule_sys[OF i2])
  note m = more_fields[OF k'(4)]
  have "tstat (rt_wqueue_remove n k2) ?t \<in> {RT_THREAD_READY, RT_THREAD_RUNNING}" using k2(3) by (simp add: back_stat_def)
  then have st: "tstat k' ?t \<in> {RT_THREAD_READY, RT_THREAD_RUNNING}" using frame_stat(3)[OF k'(3), of ?t] by blast
  have run: "rt_wqueue_wakeup wakeup a key k = Some k'"
    using n k2(1) k'(1) by (simp add: rt_wqueue_wakeup_def Let_def)
  have tl: "k_timer_list k' = k_timer_list (rt_wqueue_remove n k2)" using m by simp
  show ?thesis
    by (rule that[OF run k'(2) st]) (use kdrv_more[OF m(8)] d k2(4) tl in \<open>simp_all add: rt_wqueue_remove_def\<close>)
qed

end
