(* ===== verification/WorkQueue.thy ===== *)
theory WorkQueue
  imports Sem
begin

text \<open>
  Work queues (\<open>components/drivers/src/workqueue.c\<close>): a list of works that a thread of the queue
  takes off and runs one by one, with works that a timer submits later. The functions of the
  works are an argument; a work and a queue are named by their addresses, and the timer of the
  delayed work \<open>w\<close> is \<open>Timer w\<close>.
\<close>

unbundle bit_operations_syntax

section \<open>State\<close>

record work =
  wk_flags :: u16
  wk_type :: u16
  wk_func :: nat
  wk_data :: nat
  wk_queue :: "nat option"

record kwork = kipc +
  k_work_list :: "nat \<Rightarrow> nat list"
  k_work_current :: "nat \<Rightarrow> nat option"
  k_work_sem :: "nat \<Rightarrow> nat"
  k_work_thread :: "nat \<Rightarrow> nat"
  k_work :: "nat \<Rightarrow> work"

definition RT_WORK_STATE_PENDING :: u16 where "RT_WORK_STATE_PENDING = 1"
definition RT_WORK_STATE_SUBMITTING :: u16 where "RT_WORK_STATE_SUBMITTING = 2"
definition RT_WORK_TYPE_DELAYED :: u16 where "RT_WORK_TYPE_DELAYED = 1"
definition RT_TIMER_FLAG_ONE_SHOT :: u8 where "RT_TIMER_FLAG_ONE_SHOT = 0"
definition RT_TIMER_FLAG_SOFT_TIMER :: u8 where "RT_TIMER_FLAG_SOFT_TIMER = 4"

definition upd_work :: "nat \<Rightarrow> (work \<Rightarrow> work) \<Rightarrow> 'a kwork_scheme \<Rightarrow> 'a kwork_scheme" where
  "upd_work w f k = k\<lparr>k_work := (k_work k)(w := f (k_work k w))\<rparr>"

definition set_work_flag :: "u16 \<Rightarrow> nat \<Rightarrow> 'a kwork_scheme \<Rightarrow> 'a kwork_scheme" where
  "set_work_flag b w = upd_work w (\<lambda>v. v\<lparr>wk_flags := wk_flags v OR b\<rparr>)"

definition clear_work_flag :: "u16 \<Rightarrow> nat \<Rightarrow> 'a kwork_scheme \<Rightarrow> 'a kwork_scheme" where
  "clear_work_flag b w = upd_work w (\<lambda>v. v\<lparr>wk_flags := wk_flags v AND NOT b\<rparr>)"

definition work_pending :: "nat \<Rightarrow> 'a kwork_scheme \<Rightarrow> bool" where
  "work_pending w k \<longleftrightarrow> wk_flags (k_work k w) AND RT_WORK_STATE_PENDING \<noteq> 0"

definition work_delayed :: "nat \<Rightarrow> 'a kwork_scheme \<Rightarrow> bool" where
  "work_delayed w k \<longleftrightarrow> wk_type (k_work k w) AND RT_WORK_TYPE_DELAYED \<noteq> 0"

section \<open>Works\<close>

definition work_unlink :: "nat \<Rightarrow> 'a kwork_scheme \<Rightarrow> 'a kwork_scheme" where
  "work_unlink w k = k\<lparr>k_work_list := (\<lambda>q. removeAll w (k_work_list k q))\<rparr>"

definition work_link :: "nat \<Rightarrow> nat \<Rightarrow> 'a kwork_scheme \<Rightarrow> 'a kwork_scheme" where
  "work_link q w k = k\<lparr>k_work_list := (k_work_list k)(q := k_work_list k q @ [w])\<rparr>"

definition rt_work_init :: "nat \<Rightarrow> nat \<Rightarrow> nat \<Rightarrow> 'a kwork_scheme \<Rightarrow> 'a kwork_scheme" where
  "rt_work_init w f d = upd_work w (\<lambda>v. v\<lparr>wk_func := f, wk_data := d, wk_flags := 0, wk_type := 0\<rparr>)"

definition rt_delayed_work_init :: "nat \<Rightarrow> nat \<Rightarrow> nat \<Rightarrow> 'a kwork_scheme \<Rightarrow> 'a kwork_scheme" where
  "rt_delayed_work_init w f d k = upd_work w (\<lambda>v. v\<lparr>wk_type := RT_WORK_TYPE_DELAYED\<rparr>) (rt_work_init w f d k)"

section \<open>Submitting and cancelling\<close>

text \<open>An idle queue has its thread resumed; a thread that runs already is left alone.\<close>

definition work_kick :: "nat \<Rightarrow> 'a kwork_scheme \<Rightarrow> 'a kwork_scheme option" where
  "work_kick q k =
    (if k_work_current k q = None then do {
       (_, k1) \<leftarrow> rt_thread_resume (k_work_thread k q) k;
       rt_schedule k1
     } else Some k)"

definition workqueue_submit_work :: "nat \<Rightarrow> nat \<Rightarrow> 'a kwork_scheme \<Rightarrow> (rt_err \<times> 'a kwork_scheme) option" where
  "workqueue_submit_work q w k =
    (if work_pending w k then Some (- RT_EBUSY, k)
     else if k_work_current k q = Some w then Some (- RT_EBUSY, k)
     else do {
       k1 \<leftarrow> work_kick q (set_work_flag RT_WORK_STATE_PENDING w (work_link q w (work_unlink w k)));
       Some (RT_EOK, k1)
     })"

definition workqueue_cancel_work :: "nat \<Rightarrow> nat \<Rightarrow> 'a kwork_scheme \<Rightarrow> rt_err \<times> 'a kwork_scheme" where
  "workqueue_cancel_work q w k =
    (if k_work_current k q = Some w then (- RT_EBUSY, k)
     else (RT_EOK, clear_work_flag RT_WORK_STATE_PENDING w (work_unlink w k)))"

text \<open>
  Stopping the timer of a delayed work. The queue of a work that is already submitted is asked to
  cancel it, which for a delayed work is this function again.
\<close>

definition work_timer_drop :: "nat \<Rightarrow> 'a kwork_scheme \<Rightarrow> 'a kwork_scheme option" where
  "work_timer_drop w k = do {
     (_, k1) \<leftarrow> rt_timer_stop (Timer w) k;
     (_, k2) \<leftarrow> rt_timer_detach (Timer w) k1;
     Some (clear_work_flag RT_WORK_STATE_SUBMITTING w k2)
   }"

definition work_detach_queue :: "nat \<Rightarrow> 'a kwork_scheme \<Rightarrow> 'a kwork_scheme" where
  "work_detach_queue w k = clear_work_flag RT_WORK_STATE_PENDING w (upd_work w (\<lambda>v. v\<lparr>wk_queue := None\<rparr>) k)"

partial_function (option) workqueue_cancel_delayed_work :: "nat \<Rightarrow> 'a kwork_scheme \<Rightarrow> (rt_err \<times> 'a kwork_scheme) option" where
  "workqueue_cancel_delayed_work w k =
    (case wk_queue (k_work k w) of
       None \<Rightarrow> Some (- EINVAL, k)
     | Some q \<Rightarrow>
         if work_pending w k then
           Option.bind (if work_delayed w k then workqueue_cancel_delayed_work w k
               else Some (workqueue_cancel_work q w k))
             (\<lambda>r. if fst r \<noteq> RT_EOK then Some r else Some (RT_EOK, work_detach_queue w (snd r)))
         else if wk_flags (k_work k w) AND RT_WORK_STATE_SUBMITTING \<noteq> 0 then
           Option.bind (work_timer_drop w k) (\<lambda>k1. Some (RT_EOK, work_detach_queue w k1))
         else Some (RT_EOK, work_detach_queue w k))"

definition rt_workqueue_cancel_work :: "nat \<Rightarrow> nat \<Rightarrow> 'a kwork_scheme \<Rightarrow> (rt_err \<times> 'a kwork_scheme) option" where
  "rt_workqueue_cancel_work q w k =
    (if work_delayed w k then workqueue_cancel_delayed_work w k else Some (workqueue_cancel_work q w k))"

text \<open>\<open>h\<close> is the address of the timeout function of delayed works.\<close>

definition workqueue_submit_delayed_work ::
    "nat \<Rightarrow> nat \<Rightarrow> nat \<Rightarrow> u32 \<Rightarrow> 'a kwork_scheme \<Rightarrow> (rt_err \<times> 'a kwork_scheme) option" where
  "workqueue_submit_delayed_work h q w ticks k =
    (if wk_queue (k_work k w) \<noteq> None \<and> wk_queue (k_work k w) \<noteq> Some q then Some (- RT_EINVAL, k)
     else do {
       (ret, k1) \<leftarrow> (if wk_queue (k_work k w) = Some q then workqueue_cancel_delayed_work w k else Some (RT_EOK, k));
       if ret < 0 then Some (ret, k1)
       else do {
         let k2 = upd_work w (\<lambda>v. v\<lparr>wk_queue := Some q\<rparr>) k1;
         if ticks = 0 then do { (_, k3) \<leftarrow> workqueue_submit_work q w k2; Some (ret, k3) }
         else do {
           k3 \<leftarrow> rt_timer_init (Timer w) [119, 111, 114, 107] (UserFn h) w ticks
             (RT_TIMER_FLAG_ONE_SHOT OR RT_TIMER_FLAG_SOFT_TIMER) (set_work_flag RT_WORK_STATE_SUBMITTING w k2);
           (_, k4) \<leftarrow> rt_timer_start (Timer w) k3;
           Some (ret, k4)
         }
       }
     })"

text \<open>The timeout function: the work comes off its timer and into the queue it was meant for.\<close>

definition delayed_work_timeout_handler :: "nat \<Rightarrow> 'a kwork_scheme \<Rightarrow> 'a kwork_scheme option" where
  "delayed_work_timeout_handler w k = do {
     k1 \<leftarrow> work_timer_drop w k;
     q \<leftarrow> wk_queue (k_work k1 w);
     (_, k2) \<leftarrow> workqueue_submit_work q w k1;
     Some k2
   }"

definition rt_workqueue_dowork :: "nat \<Rightarrow> nat \<Rightarrow> 'a kwork_scheme \<Rightarrow> (rt_err \<times> 'a kwork_scheme) option" where
  "rt_workqueue_dowork q w k = workqueue_submit_work q w k"

definition rt_workqueue_submit_work ::
    "nat \<Rightarrow> nat \<Rightarrow> nat \<Rightarrow> u32 \<Rightarrow> 'a kwork_scheme \<Rightarrow> (rt_err \<times> 'a kwork_scheme) option" where
  "rt_workqueue_submit_work h q w time k =
    (if work_delayed w k then workqueue_submit_delayed_work h q w time k else workqueue_submit_work q w k)"

definition rt_workqueue_critical_work :: "nat \<Rightarrow> nat \<Rightarrow> 'a kwork_scheme \<Rightarrow> (rt_err \<times> 'a kwork_scheme) option" where
  "rt_workqueue_critical_work q w k =
    (if k_work_current k q = Some w then Some (- RT_EBUSY, k)
     else do {
       k1 \<leftarrow> work_kick q (work_link q w (work_unlink w k));
       Some (RT_EOK, k1)
     })"

text \<open>The caller waits for the work that is running; \<open>_return\<close> is the rest when it runs again.\<close>

definition rt_workqueue_cancel_work_sync :: "nat \<Rightarrow> nat \<Rightarrow> 'a kwork_scheme \<Rightarrow> (rt_err, 'a kwork_scheme) call option" where
  "rt_workqueue_cancel_work_sync q w k =
    (if k_work_current k q = Some w then do {
       r \<leftarrow> rt_sem_take (k_work_sem k q) (- 1) k;
       (case r of Done _ k1 \<Rightarrow> Some (Done RT_EOK (clear_work_flag RT_WORK_STATE_PENDING w k1))
        | Blocked k1 \<Rightarrow> Some (Blocked k1))
     } else Some (Done RT_EOK (clear_work_flag RT_WORK_STATE_PENDING w (work_unlink w k))))"

definition rt_workqueue_cancel_work_sync_return :: "nat \<Rightarrow> 'a kwork_scheme \<Rightarrow> rt_err \<times> 'a kwork_scheme" where
  "rt_workqueue_cancel_work_sync_return w k = (RT_EOK, clear_work_flag RT_WORK_STATE_PENDING w k)"

definition rt_workqueue_cancel_all_work :: "nat \<Rightarrow> 'a kwork_scheme \<Rightarrow> (rt_err \<times> 'a kwork_scheme) option" where
  "rt_workqueue_cancel_all_work q k = do {
     k1 \<leftarrow> rt_exit_critical (foldl (\<lambda>s w. work_unlink w s) (rt_enter_critical k) (k_work_list k q));
     Some (RT_EOK, k1)
   }"

section \<open>The thread of a queue\<close>

text \<open>Whoever waits for the end of a work is woken, and the semaphore is left at 0.\<close>

partial_function (option) work_completion_loop :: "nat \<Rightarrow> 'a kipc_scheme \<Rightarrow> (rt_err \<times> 'a kipc_scheme) option" where
  "work_completion_loop a k =
    Option.bind (rt_sem_trytake a k) (\<lambda>r.
      case r of Blocked _ \<Rightarrow> None
      | Done e k1 \<Rightarrow>
          if e = - RT_ETIMEOUT then Option.bind (rt_sem_release a k1) (\<lambda>s. work_completion_loop a (snd s))
          else if e = RT_EOK then Some (RT_EOK, k1)
          else Some (- RT_ERROR, k1))"

definition workqueue_work_completion :: "nat \<Rightarrow> 'a kwork_scheme \<Rightarrow> (rt_err \<times> 'a kwork_scheme) option" where
  "workqueue_work_completion q k = do {
     (result, k1) \<leftarrow> work_completion_loop (k_work_sem k q) (rt_enter_critical k);
     k2 \<leftarrow> rt_exit_critical k1;
     Some (result, k2)
   }"

text \<open>With nothing to do the thread suspends itself, whatever the result; when it runs again it does not look.\<close>

definition worker_wait :: "nat \<Rightarrow> 'a kwork_scheme \<Rightarrow> (unit, 'a kwork_scheme) call option" where
  "worker_wait q k =
    (if k_work_list k q = [] then do {
       t \<leftarrow> rt_thread_self k;
       (_, k1) \<leftarrow> rt_thread_suspend t k;
       k2 \<leftarrow> rt_schedule k1;
       Some (Blocked k2)
     } else Some (Done () k))"

text \<open>Taking the first work: of an empty list that would be the list head itself, the failure \<open>None\<close>.\<close>

definition worker_fetch :: "nat \<Rightarrow> 'a kwork_scheme \<Rightarrow> (nat \<times> 'a kwork_scheme) option" where
  "worker_fetch q k =
    (case k_work_list k q of
       [] \<Rightarrow> None
     | w # _ \<Rightarrow> (let k1 = work_unlink w k in
         Some (w, clear_work_flag RT_WORK_STATE_PENDING w (k1\<lparr>k_work_current := (k_work_current k1)(q := Some w)\<rparr>))))"

definition worker_run ::
    "(nat \<Rightarrow> nat \<Rightarrow> nat \<Rightarrow> 'a kwork_scheme \<Rightarrow> 'a kwork_scheme option) \<Rightarrow> nat \<Rightarrow> 'a kwork_scheme \<Rightarrow> 'a kwork_scheme option" where
  "worker_run f q k = do {
     (w, k1) \<leftarrow> worker_fetch q k;
     k2 \<leftarrow> f (wk_func (k_work k1 w)) w (wk_data (k_work k1 w)) k1;
     (_, k3) \<leftarrow> workqueue_work_completion q (k2\<lparr>k_work_current := (k_work_current k2)(q := None)\<rparr>);
     Some k3
   }"

section \<open>Queues\<close>

text \<open>\<open>mem\<close> and \<open>tmem\<close> are what the heap gave for the queue and for its thread, with or without a stack.\<close>

definition rt_workqueue_create ::
    "(nat \<times> nat) option \<Rightarrow> nat option \<Rightarrow> bool \<Rightarrow> u8 list \<Rightarrow> u8 \<Rightarrow> 'a kwork_scheme \<Rightarrow> (nat option \<times> 'a kwork_scheme) option" where
  "rt_workqueue_create mem tmem stack name priority k =
    (case mem of None \<Rightarrow> Some (None, k)
     | Some (q, a) \<Rightarrow> do {
         (_, k1) \<leftarrow> rt_sem_init a [119, 113, 117, 101, 117, 101] 0 RT_IPC_FLAG_FIFO
           (k\<lparr>k_work_list := (k_work_list k)(q := []), k_work_current := (k_work_current k)(q := None),
              k_work_sem := (k_work_sem k)(q := a)\<rparr>);
         (th, k2) \<leftarrow> rt_thread_create tmem stack name priority 10 k1;
         (case th of None \<Rightarrow> Some (None, k2)
          | Some t \<Rightarrow> do {
              (_, k3) \<leftarrow> rt_thread_startup t (k2\<lparr>k_work_thread := (k_work_thread k2)(q := t)\<rparr>);
              Some (Some q, k3)
            })
       })"

definition rt_workqueue_destroy :: "nat \<Rightarrow> 'a kwork_scheme \<Rightarrow> (rt_err \<times> 'a kwork_scheme) option" where
  "rt_workqueue_destroy q k = do {
     (_, k1) \<leftarrow> rt_thread_delete (k_work_thread k q) k;
     Some (RT_EOK, k1)
   }"

section \<open>The kernel does not read the works\<close>

lemma kwork_sys_inv [simp]:
  "sys_inv X (k\<lparr>k_work_list := l\<rparr>) \<longleftrightarrow> sys_inv X k" "sys_inv X (k\<lparr>k_work_current := c\<rparr>) \<longleftrightarrow> sys_inv X k"
  "sys_inv X (k\<lparr>k_work := w\<rparr>) \<longleftrightarrow> sys_inv X k"
  by (simp_all add: sys_inv_def threads_inv_def sched_inv_def thread_ok_def group_ok_def mask_ok_def prio_of_def
      cur_ok_def timer_inv_def periods_ok_def thread_wf_def due_def periodic_def timer_flag_def is_timer_def
      is_thread_def rt_object_get_type_def cong: ball_cong map_cong)

lemma kwork_more:
  assumes "ktimer.more k' = ktimer.more k"
  shows "k_work_list k' = k_work_list k" "k_work_current k' = k_work_current k" "k_work_sem k' = k_work_sem k"
    "k_work_thread k' = k_work_thread k" "k_work k' = k_work k"
proof -
  have "kipc.more k' = kipc.more k" by (rule kipc_more(6)[OF assms])
  then show "k_work_list k' = k_work_list k" "k_work_current k' = k_work_current k" "k_work_sem k' = k_work_sem k"
    "k_work_thread k' = k_work_thread k" "k_work k' = k_work k"
    by (cases k; cases k'; simp)+
qed

lemma upd_work_simps [simp]:
  "k_work (upd_work w f k) = (k_work k)(w := f (k_work k w))" "k_work_list (upd_work w f k) = k_work_list k"
  "k_work_current (upd_work w f k) = k_work_current k" "k_work_thread (upd_work w f k) = k_work_thread k"
  "k_work_sem (upd_work w f k) = k_work_sem k" "k_threads (upd_work w f k) = k_threads k"
  "k_queues (upd_work w f k) = k_queues k" "k_current (upd_work w f k) = k_current k"
  "k_lock_nest (upd_work w f k) = k_lock_nest k" "sys_inv X (upd_work w f k) = sys_inv X k"
  by (simp_all add: upd_work_def)

lemma work_link_simps [simp]:
  "k_work_list (work_unlink w k) = (\<lambda>q. removeAll w (k_work_list k q))"
  "k_work_list (work_link q w k) = (k_work_list k)(q := k_work_list k q @ [w])"
  "k_work (work_unlink w k) = k_work k" "k_work (work_link q w k) = k_work k"
  "k_work_current (work_unlink w k) = k_work_current k" "k_work_current (work_link q w k) = k_work_current k"
  "k_work_thread (work_unlink w k) = k_work_thread k" "k_work_thread (work_link q w k) = k_work_thread k"
  "k_threads (work_unlink w k) = k_threads k" "k_threads (work_link q w k) = k_threads k"
  "k_queues (work_unlink w k) = k_queues k" "k_queues (work_link q w k) = k_queues k"
  "k_current (work_unlink w k) = k_current k" "k_current (work_link q w k) = k_current k"
  "k_lock_nest (work_unlink w k) = k_lock_nest k" "k_lock_nest (work_link q w k) = k_lock_nest k"
  "sys_inv X (work_unlink w k) = sys_inv X k" "sys_inv X (work_link q w k) = sys_inv X k"
  by (simp_all add: work_unlink_def work_link_def)

lemma work_flag_simps [simp]:
  "work_pending w (set_work_flag RT_WORK_STATE_PENDING v k) \<longleftrightarrow> w = v \<or> work_pending w k"
  "work_pending w (clear_work_flag RT_WORK_STATE_PENDING v k) \<longleftrightarrow> w \<noteq> v \<and> work_pending w k"
  "work_pending w (work_unlink v k) \<longleftrightarrow> work_pending w k" "work_pending w (work_link q v k) \<longleftrightarrow> work_pending w k"
  "k_work_list (set_work_flag b v k) = k_work_list k" "k_work_list (clear_work_flag b v k) = k_work_list k"
  "k_work_current (set_work_flag b v k) = k_work_current k" "k_work_current (clear_work_flag b v k) = k_work_current k"
  "k_work_thread (set_work_flag b v k) = k_work_thread k" "k_work_thread (clear_work_flag b v k) = k_work_thread k"
  "k_threads (set_work_flag b v k) = k_threads k" "k_threads (clear_work_flag b v k) = k_threads k"
  "k_current (set_work_flag b v k) = k_current k" "k_current (clear_work_flag b v k) = k_current k"
  "k_lock_nest (set_work_flag b v k) = k_lock_nest k"
  "sys_inv X (set_work_flag b v k) = sys_inv X k" "sys_inv X (clear_work_flag b v k) = sys_inv X k"
  by (auto simp: work_pending_def set_work_flag_def clear_work_flag_def RT_WORK_STATE_PENDING_def
      bit.conj_disj_distrib2 bit.conj_disj_distrib and.assoc)

section \<open>Submitting\<close>

lemma work_kick_ok:
  assumes inv: "sys_inv {} k" and s: "k_work_current k q = None" "tstat k (k_work_thread k q) = RT_THREAD_SUSPEND"
  obtains k' where "work_kick q k = Some k'" "sys_inv {} k'"
    "tstat k' (k_work_thread k q) \<in> {RT_THREAD_READY, RT_THREAD_RUNNING}" "ktimer.more k' = ktimer.more k"
    "k_lock_nest k \<noteq> 0 \<longrightarrow> k_current k' = k_current k"
proof -
  let ?t = "k_work_thread k q"
  obtain k1 where k1: "rt_thread_resume ?t k = Some (RT_EOK, k1)" "sys_inv {} k1"
    "k_threads k1 = (k_threads k)(?t := set_stat (back_stat ?t k) (k_threads k ?t))"
    "k_current k1 = k_current k" "k_lock_nest k1 = k_lock_nest k" "ktimer.more k1 = ktimer.more k"
    by (rule rt_thread_resume_ok[OF inv s(2)])
  obtain k' where k': "rt_schedule k1 = Some k'" "sys_inv {} k'" "sched_frame k1 k'" "ksched.more k' = ksched.more k1"
    by (rule schedule_sys[OF k1(2)])
  have "tstat k1 ?t \<in> {RT_THREAD_READY, RT_THREAD_RUNNING}" using k1(3) by (simp add: back_stat_def)
  then have st: "tstat k' ?t \<in> {RT_THREAD_READY, RT_THREAD_RUNNING}" using frame_stat(3)[OF k'(3), of ?t] by blast
  have run: "work_kick q k = Some k'" using s k1(1) k'(1) by (simp add: work_kick_def)
  have m: "ktimer.more k' = ktimer.more k" using more_fields(8)[OF k'(4)] k1(6) by simp
  have c: "k_lock_nest k \<noteq> 0 \<longrightarrow> k_current k' = k_current k"
    using schedule_idle[of k1] k1(4,5) k'(1) by auto
  show ?thesis by (rule that[OF run k'(2) st m c])
qed

text \<open>A work that is neither queued nor running goes behind the others and the idle thread is woken.\<close>

lemma workqueue_submit_ok:
  assumes inv: "sys_inv {} k" and w: "\<not> work_pending w k" "\<forall>p. w \<notin> set (k_work_list k p)"
    and s: "k_work_current k q = None" "tstat k (k_work_thread k q) = RT_THREAD_SUSPEND"
  obtains k' where "workqueue_submit_work q w k = Some (RT_EOK, k')" "sys_inv {} k'"
    "k_work_list k' = (k_work_list k)(q := k_work_list k q @ [w])" "work_pending w k'"
    "tstat k' (k_work_thread k q) \<in> {RT_THREAD_READY, RT_THREAD_RUNNING}"
    "k_work_current k' = k_work_current k" "k_work_thread k' = k_work_thread k"
    "\<forall>v. v \<noteq> w \<longrightarrow> k_work k' v = k_work k v" "wk_type (k_work k' w) = wk_type (k_work k w)"
    "k_lock_nest k \<noteq> 0 \<longrightarrow> k_current k' = k_current k"
proof -
  let ?k1 = "set_work_flag RT_WORK_STATE_PENDING w (work_link q w (work_unlink w k))"
  have i1: "sys_inv {} ?k1" and s1: "k_work_current ?k1 q = None" "tstat ?k1 (k_work_thread ?k1 q) = RT_THREAD_SUSPEND"
    using inv s by simp_all
  obtain k' where k': "work_kick q ?k1 = Some k'" "sys_inv {} k'"
    "tstat k' (k_work_thread ?k1 q) \<in> {RT_THREAD_READY, RT_THREAD_RUNNING}" "ktimer.more k' = ktimer.more ?k1"
    "k_lock_nest ?k1 \<noteq> 0 \<longrightarrow> k_current k' = k_current ?k1"
    by (rule work_kick_ok[OF i1 s1])
  note m = kwork_more[OF k'(4)]
  have run: "workqueue_submit_work q w k = Some (RT_EOK, k')" using w(1) s(1) k'(1) by (simp add: workqueue_submit_work_def)
  have "removeAll w (k_work_list k p) = k_work_list k p" for p using w(2) by (simp add: removeAll_id)
  then have l: "k_work_list k' = (k_work_list k)(q := k_work_list k q @ [w])" using m(1) by simp
  have p: "work_pending w k'" using m(5) by (simp add: work_pending_def set_work_flag_def RT_WORK_STATE_PENDING_def bit.conj_disj_distrib2)
  show ?thesis
    by (rule that[OF run k'(2) l p]) (use k' m in \<open>simp_all add: set_work_flag_def\<close>)
qed

text \<open>The thread takes the oldest work; while it is queued or running it cannot be submitted again.\<close>

lemma worker_fetch_ok:
  assumes "k_work_list k q = w # ws" "w \<notin> set ws"
  obtains k' where "worker_fetch q k = Some (w, k')" "k_work_list k' q = ws" "k_work_current k' q = Some w"
    "\<not> work_pending w k'" "\<forall>v. v \<noteq> w \<longrightarrow> work_pending v k' = work_pending v k"
    "workqueue_submit_work q w k' = Some (- RT_EBUSY, k')" "sys_inv X k' = sys_inv X k"
proof -
  let ?k1 = "work_unlink w k"
  let ?k' = "clear_work_flag RT_WORK_STATE_PENDING w (?k1\<lparr>k_work_current := (k_work_current ?k1)(q := Some w)\<rparr>)"
  have p: "work_pending v (k2\<lparr>k_work_current := c\<rparr>) = work_pending v k2" for v c and k2 :: "'a kwork_scheme"
    by (simp add: work_pending_def)
  show ?thesis
    by (rule that[of ?k']) (use assms p in \<open>simp_all add: worker_fetch_def Let_def removeAll_id workqueue_submit_work_def\<close>)
qed

lemma workqueue_submit_busy:
  "work_pending w k \<or> k_work_current k q = Some w \<Longrightarrow> workqueue_submit_work q w k = Some (- RT_EBUSY, k)"
  by (auto simp: workqueue_submit_work_def)

text \<open>
  Cancelling every work leaves the works marked as pending: none of them can be submitted again.
\<close>

lemma work_unlink_all:
  "k_work_list (foldl (\<lambda>s w. work_unlink w s) k ws) = (\<lambda>q. filter (\<lambda>w. w \<notin> set ws) (k_work_list k q))"
  "k_work (foldl (\<lambda>s w. work_unlink w s) k ws) = k_work k"
  "k_lock_nest (foldl (\<lambda>s w. work_unlink w s) k ws) = k_lock_nest k"
  "sched_ok (foldl (\<lambda>s w. work_unlink w s) k ws) = sched_ok k"
proof -
  have s: "sched_ok (work_unlink w k) = sched_ok k" for w and k :: "'a kwork_scheme"
    by (rule sched_ok_cong) (simp_all add: work_unlink_def ksched.truncate_def)
  show "k_work_list (foldl (\<lambda>s w. work_unlink w s) k ws) = (\<lambda>q. filter (\<lambda>w. w \<notin> set ws) (k_work_list k q))"
    "k_work (foldl (\<lambda>s w. work_unlink w s) k ws) = k_work k"
    "k_lock_nest (foldl (\<lambda>s w. work_unlink w s) k ws) = k_lock_nest k"
    "sched_ok (foldl (\<lambda>s w. work_unlink w s) k ws) = sched_ok k"
    by (induction ws arbitrary: k) (auto simp: s removeAll_filter_not_eq intro!: filter_cong)
qed

lemma rt_workqueue_cancel_all_ok:
  assumes "sched_ok k"
  shows "\<exists>k'. rt_workqueue_cancel_all_work q k = Some (RT_EOK, k') \<and> k_work_list k' q = [] \<and>
    (\<forall>w. work_pending w k \<longrightarrow> rt_workqueue_dowork q w k' = Some (- RT_EBUSY, k'))"
proof -
  let ?k1 = "foldl (\<lambda>s w. work_unlink w s) k (k_work_list k q)"
  have e: "foldl (\<lambda>s w. work_unlink w s) (rt_enter_critical k) ws = rt_enter_critical (foldl (\<lambda>s w. work_unlink w s) k ws)" for ws
  proof (induction ws arbitrary: k)
    case (Cons v vs)
    have "work_unlink v (rt_enter_critical k) = rt_enter_critical (work_unlink v k)" by (simp add: work_unlink_def rt_enter_critical_def)
    then show ?case using Cons[of "work_unlink v k"] by simp
  qed simp
  have s1: "sched_ok ?k1" by (rule iffD2[OF work_unlink_all(4) assms])
  obtain k' where k': "rt_exit_critical (rt_enter_critical ?k1) = Some k'" "sched_frame ?k1 k'"
    using critical_section_ok[OF s1] by metis
  have m: "ktimer.more k' = ktimer.more ?k1" by (rule more_fields(8)[OF sched_frame_lock(3)[OF k'(2)]])
  have l: "k_work_list k' q = []" unfolding kwork_more(1)[OF m] work_unlink_all(1) by (simp add: filter_empty_conv)
  have p: "work_pending w k' = work_pending w k" for w unfolding work_pending_def kwork_more(5)[OF m] work_unlink_all(2) ..
  have "rt_workqueue_cancel_all_work q k = Some (RT_EOK, k')" using k'(1) e by (simp add: rt_workqueue_cancel_all_work_def)
  then show ?thesis using l p workqueue_submit_busy by (auto simp: rt_workqueue_dowork_def)
qed

text \<open>Cancelling a delayed work that is pending calls itself without end: it never returns.\<close>

lemma cancel_delayed_diverges:
  assumes "wk_queue (k_work k w) = Some q" "work_pending w k" "work_delayed w k"
  shows "workqueue_cancel_delayed_work w k = None"
proof (rule ccontr)
  assume "workqueue_cancel_delayed_work w k \<noteq> None"
  then obtain y where y: "workqueue_cancel_delayed_work w k = Some y" by blast
  have "\<not> (wk_queue (k_work k w) = Some q \<and> work_pending w k \<and> work_delayed w k)"
  proof (rule workqueue_cancel_delayed_work.raw_induct
      [where P = "\<lambda>w k y. \<not> (wk_queue (k_work k w) = Some q \<and> work_pending w k \<and> work_delayed w k)", OF _ y])
    fix f :: "nat \<Rightarrow> 'a kwork_scheme \<Rightarrow> (rt_err \<times> 'a kwork_scheme) option" and w k y
    assume "\<And>w k y. f w k = Some y \<Longrightarrow> \<not> (wk_queue (k_work k w) = Some q \<and> work_pending w k \<and> work_delayed w k)"
      "(case wk_queue (k_work k w) of None \<Rightarrow> Some (- EINVAL, k)
        | Some q \<Rightarrow>
         if work_pending w k then
           Option.bind (if work_delayed w k then f w k else Some (workqueue_cancel_work q w k))
             (\<lambda>r. if fst r \<noteq> RT_EOK then Some r else Some (RT_EOK, work_detach_queue w (snd r)))
         else if wk_flags (k_work k w) AND RT_WORK_STATE_SUBMITTING \<noteq> 0 then
           Option.bind (work_timer_drop w k) (\<lambda>k1. Some (RT_EOK, work_detach_queue w k1))
         else Some (RT_EOK, work_detach_queue w k)) = Some y"
    then show "\<not> (wk_queue (k_work k w) = Some q \<and> work_pending w k \<and> work_delayed w k)"
      by (auto simp: bind_eq_Some_conv)
  qed
  then show False using assms by blast
qed

text \<open>In every other state it returns; the work is in no queue and not pending.\<close>

lemma cancel_delayed_plain:
  assumes "wk_queue (k_work k w) = Some q" "\<not> work_pending w k" "wk_flags (k_work k w) AND RT_WORK_STATE_SUBMITTING = 0"
  shows "workqueue_cancel_delayed_work w k = Some (RT_EOK, work_detach_queue w k)"
  using assms by (subst workqueue_cancel_delayed_work.simps) simp

text \<open>
  A work submitted and cancelled before the queue's thread runs: the thread has been woken, does
  not look at the list again and takes the list head itself for a work.
\<close>

lemma cancel_before_run:
  assumes inv: "sys_inv {} k" and w: "\<not> work_pending w k" "\<not> work_delayed w k" and l: "\<forall>p. w \<notin> set (k_work_list k p)" "k_work_list k q = []"
    and s: "k_work_current k q = None" "tstat k (k_work_thread k q) = RT_THREAD_SUSPEND" and lk: "k_lock_nest k \<noteq> 0"
  shows "\<exists>k1 k2. rt_workqueue_dowork q w k = Some (RT_EOK, k1) \<and> k_current k1 = k_current k \<and>
    tstat k1 (k_work_thread k q) \<in> {RT_THREAD_READY, RT_THREAD_RUNNING} \<and>
    rt_workqueue_cancel_work q w k1 = Some (RT_EOK, k2) \<and> sys_inv {} k2 \<and> worker_fetch q k2 = None"
proof -
  obtain k1 where k1: "workqueue_submit_work q w k = Some (RT_EOK, k1)" "sys_inv {} k1"
    "k_work_list k1 = (k_work_list k)(q := k_work_list k q @ [w])" "work_pending w k1"
    "tstat k1 (k_work_thread k q) \<in> {RT_THREAD_READY, RT_THREAD_RUNNING}"
    "k_work_current k1 = k_work_current k" "wk_type (k_work k1 w) = wk_type (k_work k w)"
    "k_lock_nest k \<noteq> 0 \<Longrightarrow> k_current k1 = k_current k"
    using workqueue_submit_ok[OF inv w(1) l(1) s] by metis
  have nd: "\<not> work_delayed w k1" using w(2) k1(7) by (simp add: work_delayed_def)
  let ?k2 = "clear_work_flag RT_WORK_STATE_PENDING w (work_unlink w k1)"
  have "rt_workqueue_cancel_work q w k1 = Some (RT_EOK, ?k2)"
    using nd k1(6) s(1) by (simp add: rt_workqueue_cancel_work_def workqueue_cancel_work_def)
  moreover have "worker_fetch q ?k2 = None" using k1(3) l(2) by (simp add: worker_fetch_def)
  moreover have "sys_inv {} ?k2" using k1(2) by simp
  ultimately show ?thesis using k1(1,5) k1(8)[OF lk] by (auto simp: rt_workqueue_dowork_def)
qed

section \<open>The end of a work\<close>

lemma sem_try_fails:
  "ipc_is RT_Object_Class_Semaphore a k \<Longrightarrow> k_sem k a = 0 \<Longrightarrow> rt_sem_trytake a k = Some (Done (- RT_ETIMEOUT) k)"
  by (simp add: rt_sem_trytake_def rt_sem_take_def)

lemma sem_release_runs:
  assumes inv: "sys_inv {} k" and a: "ipc_is RT_Object_Class_Semaphore a k" and q: "k_queues k (Pend a) = t # ts"
  shows "\<exists>k'. rt_sem_release a k = Some (RT_EOK, k') \<and> sys_inv {} k' \<and> k_queues k' (Pend a) = ts \<and>
    k_sem k' = k_sem k \<and> ipc_is RT_Object_Class_Semaphore a k' \<and>
    (\<forall>u. u = t \<or> tstat k u \<in> {RT_THREAD_READY, RT_THREAD_RUNNING} \<longrightarrow> tstat k' u \<in> {RT_THREAD_READY, RT_THREAD_RUNNING})"
proof -
  obtain k1 where k1: "rt_ipc_list_resume (Pend a) k = Some k1" "sys_inv {} k1"
    "k_threads k1 = (k_threads k)(t := set_stat (back_stat t k) (k_threads k t))"
    "k_queues k1 (Pend a) = ts" "k_obj_type k1 = k_obj_type k" "ktimer.more k1 = ktimer.more k"
    using rt_ipc_list_resume_ok[OF inv wait_head_simps(1) q] by metis
  obtain k' where k': "rt_schedule k1 = Some k'" "sys_inv {} k'" "sched_frame k1 k'" "ksched.more k' = ksched.more k1"
    by (rule schedule_sys[OF k1(2)])
  have "tstat k1 u \<in> {RT_THREAD_READY, RT_THREAD_RUNNING}"
    if "u = t \<or> tstat k u \<in> {RT_THREAD_READY, RT_THREAD_RUNNING}" for u
    using that k1(3) by (auto simp: back_stat_def)
  then have st: "\<forall>u. u = t \<or> tstat k u \<in> {RT_THREAD_READY, RT_THREAD_RUNNING} \<longrightarrow> tstat k' u \<in> {RT_THREAD_READY, RT_THREAD_RUNNING}"
    using frame_stat(3)[OF k'(3)] by blast
  have run: "rt_sem_release a k = Some (RT_EOK, k')" using a q k1(1) k'(1) by (simp add: rt_sem_release_def)
  have is': "ipc_is RT_Object_Class_Semaphore a k'"
    using a k1(5) more_fields(4)[OF k'(4)] by (simp add: ipc_is_def rt_object_get_type_def)
  have ql: "k_queues k' (Pend a) = ts" using frame_queue[OF k'(3), of "Pend a"] k1(4) by simp
  have sm: "k_sem k' = k_sem k" using sched_sem[OF k'(4)] kipc_more(1)[OF k1(6)] by simp
  show ?thesis using run k'(2) ql sm is' st by blast
qed

text \<open>Everybody who waits for the semaphore is woken, one after the other, and its value ends as 0.\<close>

lemma work_completion_loop_ok:
  assumes "sys_inv {} k" "ipc_is RT_Object_Class_Semaphore a k" "k_sem k a = 0"
  shows "\<exists>k'. work_completion_loop a k = Some (RT_EOK, k') \<and> sys_inv {} k' \<and> k_queues k' (Pend a) = [] \<and> k_sem k' a = 0 \<and>
    (\<forall>t. t \<in> set (k_queues k (Pend a)) \<or> tstat k t \<in> {RT_THREAD_READY, RT_THREAD_RUNNING} \<longrightarrow>
       tstat k' t \<in> {RT_THREAD_READY, RT_THREAD_RUNNING})"
  using assms
proof (induction "k_queues k (Pend a)" arbitrary: k)
  case Nil
  let ?k1 = "k\<lparr>k_sem := (k_sem k)(a := 1)\<rparr>"
  have r: "rt_sem_release a k = Some (RT_EOK, ?k1)" using Nil by (simp add: rt_sem_release_def)
  have is1: "ipc_is RT_Object_Class_Semaphore a ?k1" using Nil(3) by (simp add: ipc_is_def rt_object_get_type_def)
  have t: "rt_sem_trytake a ?k1 = Some (Done RT_EOK (?k1\<lparr>k_sem := (k_sem ?k1)(a := 0)\<rparr>))"
    using is1 by (simp add: rt_sem_trytake_def rt_sem_take_def)
  have e: "work_completion_loop a ?k1 = Some (RT_EOK, ?k1\<lparr>k_sem := (k_sem ?k1)(a := 0)\<rparr>)"
    by (subst work_completion_loop.simps, simp only: t) (simp add: err_defs)
  have "work_completion_loop a k = Some (RT_EOK, ?k1\<lparr>k_sem := (k_sem ?k1)(a := 0)\<rparr>)"
    by (subst work_completion_loop.simps) (simp only: sem_try_fails[OF Nil(3,4)] r e bind.simps call.case if_True snd_conv refl)
  then show ?case using Nil by (intro exI[of _ "?k1\<lparr>k_sem := (k_sem ?k1)(a := 0)\<rparr>"]) simp
next
  case (Cons t ts)
  note q = Cons.hyps(2)[symmetric]
  obtain k1 where k1: "rt_sem_release a k = Some (RT_EOK, k1)" "sys_inv {} k1" "k_queues k1 (Pend a) = ts"
    "k_sem k1 = k_sem k" "ipc_is RT_Object_Class_Semaphore a k1"
    "\<forall>u. u = t \<or> tstat k u \<in> {RT_THREAD_READY, RT_THREAD_RUNNING} \<longrightarrow> tstat k1 u \<in> {RT_THREAD_READY, RT_THREAD_RUNNING}"
    using sem_release_runs[OF Cons.prems(1,2) q] by blast
  have z: "k_sem k1 a = 0" using k1(4) Cons.prems(3) by simp
  obtain k' where k': "work_completion_loop a k1 = Some (RT_EOK, k')" "sys_inv {} k'" "k_queues k' (Pend a) = []" "k_sem k' a = 0"
    "\<forall>u. u \<in> set ts \<or> tstat k1 u \<in> {RT_THREAD_READY, RT_THREAD_RUNNING} \<longrightarrow> tstat k' u \<in> {RT_THREAD_READY, RT_THREAD_RUNNING}"
    using Cons.hyps(1)[OF k1(3)[symmetric] k1(2,5) z] k1(3) by auto
  have run: "work_completion_loop a k = Some (RT_EOK, k')"
    by (subst work_completion_loop.simps)
      (simp only: sem_try_fails[OF Cons.prems(2,3)] k1(1) k'(1) bind.simps call.case if_True snd_conv refl)
  have st: "\<forall>u. u \<in> set (t # ts) \<or> tstat k u \<in> {RT_THREAD_READY, RT_THREAD_RUNNING} \<longrightarrow> tstat k' u \<in> {RT_THREAD_READY, RT_THREAD_RUNNING}"
    using k'(5) k1(6) by (metis set_ConsD)
  show ?case using run k'(2-4) st unfolding q by blast
qed

text \<open>The critical section around it does not get in the way.\<close>

lemma lock_sys_inv: "sys_inv X (k\<lparr>k_lock_nest := n\<rparr>) \<longleftrightarrow> sys_inv X k"
  by (simp add: sys_inv_def threads_inv_def sched_inv_def thread_ok_def group_ok_def mask_ok_def prio_of_def
      cur_ok_def timer_inv_def periods_ok_def thread_wf_def due_def periodic_def timer_flag_def is_timer_def
      is_thread_def rt_object_get_type_def cong: ball_cong map_cong)

lemma exit_critical_sys:
  assumes "sys_inv {} k"
  obtains k' where "rt_exit_critical k = Some k'" "sys_inv {} k'" "ksched.more k' = ksched.more k"
    "\<forall>t. tstat k t \<in> {RT_THREAD_READY, RT_THREAD_RUNNING} \<longrightarrow> tstat k' t \<in> {RT_THREAD_READY, RT_THREAD_RUNNING}"
proof -
  let ?k0 = "k\<lparr>k_lock_nest := 0\<rparr>"
  have i0: "sys_inv {} ?k0" and i1: "sys_inv {} (k\<lparr>k_lock_nest := k_lock_nest k - 1\<rparr>)" using assms by (simp_all add: lock_sys_inv)
  obtain k2 where k2: "rt_schedule ?k0 = Some k2" "sys_inv {} k2" "sched_frame ?k0 k2" "ksched.more k2 = ksched.more ?k0"
    by (rule schedule_sys[OF i0])
  show ?thesis
  proof (cases "sint (k_lock_nest k - 1) \<le> 0")
    case True
    show ?thesis
    proof (cases "k_current k = None")
      case None: True
      show ?thesis by (rule that[of ?k0]) (use True None i0 in \<open>simp_all add: rt_exit_critical_def\<close>)
    next
      case False
      show ?thesis
        by (rule that[of k2]) (use True False k2 frame_stat(3)[OF k2(3)] in \<open>simp_all add: rt_exit_critical_def\<close>)
    qed
  next
    case False
    show ?thesis by (rule that[of "k\<lparr>k_lock_nest := k_lock_nest k - 1\<rparr>"]) (use False i1 in \<open>simp_all add: rt_exit_critical_def\<close>)
  qed
qed

lemma work_completion_ok:
  assumes "sys_inv {} k" "ipc_is RT_Object_Class_Semaphore (k_work_sem k q) k" "k_sem k (k_work_sem k q) = 0"
  shows "\<exists>k'. workqueue_work_completion q k = Some (RT_EOK, k') \<and> sys_inv {} k' \<and> k_sem k' (k_work_sem k q) = 0 \<and>
    (\<forall>t \<in> set (k_queues k (Pend (k_work_sem k q))). tstat k' t \<in> {RT_THREAD_READY, RT_THREAD_RUNNING})"
proof -
  let ?a = "k_work_sem k q" and ?k1 = "rt_enter_critical k"
  have pre: "sys_inv {} ?k1" "ipc_is RT_Object_Class_Semaphore ?a ?k1" "k_sem ?k1 ?a = 0" "k_queues ?k1 = k_queues k"
    using assms lock_sys_inv[where X = "{}" and k = k] by (simp_all add: rt_enter_critical_def ipc_is_def rt_object_get_type_def)
  obtain k2 where k2: "work_completion_loop ?a ?k1 = Some (RT_EOK, k2)" "sys_inv {} k2" "k_sem k2 ?a = 0"
    "\<forall>t. t \<in> set (k_queues k (Pend ?a)) \<or> tstat ?k1 t \<in> {RT_THREAD_READY, RT_THREAD_RUNNING} \<longrightarrow>
       tstat k2 t \<in> {RT_THREAD_READY, RT_THREAD_RUNNING}"
    using work_completion_loop_ok[OF pre(1-3)] pre(4) by auto
  obtain k' where k': "rt_exit_critical k2 = Some k'" "sys_inv {} k'" "ksched.more k' = ksched.more k2"
    "\<forall>t. tstat k2 t \<in> {RT_THREAD_READY, RT_THREAD_RUNNING} \<longrightarrow> tstat k' t \<in> {RT_THREAD_READY, RT_THREAD_RUNNING}"
    by (rule exit_critical_sys[OF k2(2)])
  have "workqueue_work_completion q k = Some (RT_EOK, k')" using k2(1) k'(1) by (simp add: workqueue_work_completion_def)
  moreover have "k_sem k' ?a = 0" using sched_sem[OF k'(3)] k2(3) by simp
  ultimately show ?thesis using k'(2,4) k2(4) by blast
qed

text \<open>A delayed work that is to run at once but is still running is dropped, with success as the result.\<close>

lemma submit_delayed_now_dropped:
  assumes "wk_queue (k_work k w) = None" "k_work_current k q = Some w" "work_delayed w k"
  shows "\<exists>k'. rt_workqueue_submit_work h q w 0 k = Some (RT_EOK, k') \<and> k_work_list k' = k_work_list k \<and>
    k_timer_list k' = k_timer_list k \<and> work_pending w k' = work_pending w k"
proof -
  let ?k1 = "upd_work w (\<lambda>v. v\<lparr>wk_queue := Some q\<rparr>) k"
  have "workqueue_submit_work q w ?k1 = Some (- RT_EBUSY, ?k1)" by (rule workqueue_submit_busy) (simp add: assms)
  then have "rt_workqueue_submit_work h q w 0 k = Some (RT_EOK, ?k1)"
    using assms by (simp add: rt_workqueue_submit_work_def workqueue_submit_delayed_work_def err_defs)
  then show ?thesis by (intro exI[of _ ?k1]) (simp add: work_pending_def, simp add: upd_work_def)
qed

end
