(* ===== verification/Device.thy ===== *)
theory Device
  imports Ipc
begin

text \<open>
  The device layer (\<open>src/device.c\<close>) and the choice of the console device
  (\<open>src/kservice.c\<close>). What a driver does is an argument of the operations: for every device the
  functions it installs, where it installs any, on the whole state.
\<close>

unbundle bit_operations_syntax

section \<open>State\<close>

text \<open>The callbacks are the addresses of their functions.\<close>

record dev =
  dev_type :: int
  dev_flag :: u16
  dev_open_flag :: u16
  dev_ref_count :: u8
  dev_rx_indicate :: "nat option"
  dev_tx_complete :: "nat option"

record kdev = kipc +
  k_dev :: "nat \<Rightarrow> dev"
  k_errno :: rt_err
  k_console :: "nat option"

record 'k dev_ops =
  op_init :: "('k \<Rightarrow> rt_err \<times> 'k) option"
  op_open :: "(u16 \<Rightarrow> 'k \<Rightarrow> rt_err \<times> 'k) option"
  op_close :: "('k \<Rightarrow> rt_err \<times> 'k) option"
  op_read :: "(int \<Rightarrow> nat \<Rightarrow> u32 \<Rightarrow> 'k \<Rightarrow> u32 \<times> 'k) option"
  op_write :: "(int \<Rightarrow> nat \<Rightarrow> u32 \<Rightarrow> 'k \<Rightarrow> u32 \<times> 'k) option"
  op_control :: "(int \<Rightarrow> nat \<Rightarrow> 'k \<Rightarrow> rt_err \<times> 'k) option"

definition RT_DEVICE_FLAG_STANDALONE :: u16 where "RT_DEVICE_FLAG_STANDALONE = 0x008"
definition RT_DEVICE_FLAG_ACTIVATED :: u16 where "RT_DEVICE_FLAG_ACTIVATED = 0x010"
definition RT_DEVICE_FLAG_STREAM :: u16 where "RT_DEVICE_FLAG_STREAM = 0x040"
definition RT_DEVICE_OFLAG_CLOSE :: u16 where "RT_DEVICE_OFLAG_CLOSE = 0x000"
definition RT_DEVICE_OFLAG_RDWR :: u16 where "RT_DEVICE_OFLAG_RDWR = 0x003"
definition RT_DEVICE_OFLAG_OPEN :: u16 where "RT_DEVICE_OFLAG_OPEN = 0x008"
definition RT_DEVICE_OFLAG_MASK :: u16 where "RT_DEVICE_OFLAG_MASK = 0xf0f"

lemmas dev_flag_defs = RT_DEVICE_FLAG_STANDALONE_def RT_DEVICE_FLAG_ACTIVATED_def RT_DEVICE_FLAG_STREAM_def
  RT_DEVICE_OFLAG_CLOSE_def RT_DEVICE_OFLAG_RDWR_def RT_DEVICE_OFLAG_OPEN_def RT_DEVICE_OFLAG_MASK_def

definition upd_dev :: "nat \<Rightarrow> (dev \<Rightarrow> dev) \<Rightarrow> 'a kdev_scheme \<Rightarrow> 'a kdev_scheme" where
  "upd_dev d f k = k\<lparr>k_dev := (k_dev k)(d := f (k_dev k d))\<rparr>"

definition is_device :: "nat \<Rightarrow> 'a kobj_scheme \<Rightarrow> bool" where
  "is_device d k \<longleftrightarrow> rt_object_get_type (DevObj d) k = RT_Object_Class_Device"

section \<open>The error number\<close>

definition rt_set_errno :: "rt_err \<Rightarrow> 'a kdev_scheme \<Rightarrow> 'a kdev_scheme" where
  "rt_set_errno e k =
    (if k_irq_nest k \<noteq> 0 then k\<lparr>k_errno := e\<rparr>
     else (case k_current k of None \<Rightarrow> k\<lparr>k_errno := e\<rparr> | Some t \<Rightarrow> set_error e t k))"

definition rt_get_errno :: "'a kdev_scheme \<Rightarrow> rt_err" where
  "rt_get_errno k =
    (if k_irq_nest k \<noteq> 0 then k_errno k
     else (case k_current k of None \<Rightarrow> k_errno k | Some t \<Rightarrow> th_error (k_threads k t)))"

section \<open>Registration\<close>

definition rt_device_find :: "u8 list \<Rightarrow> 'a kdev_scheme \<Rightarrow> (obj option \<times> 'a kdev_scheme) option" where
  "rt_device_find name k = do {
     let k1 = (if k_current k \<noteq> None then rt_enter_critical k else k);
     info \<leftarrow> rt_object_get_information RT_Object_Class_Device;
     let r = find (\<lambda>ob. name_eq RT_NAME_MAX (k_obj_name k1 ob) name) (k_containers k1 info);
     k2 \<leftarrow> (if k_current k1 \<noteq> None then rt_exit_critical k1 else Some k1);
     Some (r, k2)
   }"

definition rt_device_register :: "nat option \<Rightarrow> u8 list \<Rightarrow> u16 \<Rightarrow> 'a kdev_scheme \<Rightarrow> (rt_err \<times> 'a kdev_scheme) option" where
  "rt_device_register dv name flags k =
    (case dv of None \<Rightarrow> Some (- RT_ERROR, k)
     | Some d \<Rightarrow> do {
         (found, k1) \<leftarrow> rt_device_find name k;
         if found \<noteq> None then Some (- RT_ERROR, k1)
         else do {
           k2 \<leftarrow> rt_object_init (DevObj d) RT_Object_Class_Device name k1;
           Some (RT_EOK, upd_dev d (\<lambda>v. v\<lparr>dev_flag := flags, dev_ref_count := 0, dev_open_flag := 0\<rparr>) k2)
         }
       })"

definition rt_device_unregister :: "nat \<Rightarrow> 'a kdev_scheme \<Rightarrow> (rt_err \<times> 'a kdev_scheme) option" where
  "rt_device_unregister d k = do {
     rt_assert (is_device d k);
     rt_assert (rt_object_is_systemobject (DevObj d) k);
     Some (RT_EOK, rt_object_detach (DevObj d) k)
   }"

definition rt_device_init_all :: "'a kdev_scheme \<Rightarrow> rt_err \<times> 'a kdev_scheme" where
  "rt_device_init_all k = (RT_EOK, k)"

text \<open>\<open>mem\<close> is the memory the heap gave for the device and its user data, where it had any.\<close>

definition rt_device_create :: "nat option \<Rightarrow> int \<Rightarrow> 'a kdev_scheme \<Rightarrow> nat option \<times> 'a kdev_scheme" where
  "rt_device_create mem type k =
    (case mem of None \<Rightarrow> (None, k)
     | Some d \<Rightarrow> (Some d, k\<lparr>k_obj_type := (k_obj_type k)(DevObj d := 0), k_obj_flag := (k_obj_flag k)(DevObj d := 0),
         k_obj_name := (k_obj_name k)(DevObj d := replicate RT_NAME_MAX 0),
         k_dev := (k_dev k)(d := \<lparr>dev_type = type, dev_flag = 0, dev_open_flag = 0, dev_ref_count = 0,
           dev_rx_indicate = None, dev_tx_complete = None\<rparr>)\<rparr>))"

definition rt_device_destroy :: "nat \<Rightarrow> 'a kdev_scheme \<Rightarrow> 'a kdev_scheme option" where
  "rt_device_destroy d k = do {
     rt_assert (is_device d k);
     rt_assert (\<not> rt_object_is_systemobject (DevObj d) k);
     Some (rt_object_detach (DevObj d) k)
   }"

section \<open>Use\<close>

definition rt_device_init :: "(nat \<Rightarrow> 'a kdev_scheme dev_ops) \<Rightarrow> nat \<Rightarrow> 'a kdev_scheme \<Rightarrow> rt_err \<times> 'a kdev_scheme" where
  "rt_device_init drv d k =
    (case op_init (drv d) of None \<Rightarrow> (RT_EOK, k)
     | Some f \<Rightarrow>
         if dev_flag (k_dev k d) AND RT_DEVICE_FLAG_ACTIVATED \<noteq> 0 then (RT_EOK, k)
         else (let (result, k1) = f k in
           (result, if result \<noteq> RT_EOK then k1
             else upd_dev d (\<lambda>v. v\<lparr>dev_flag := dev_flag v OR RT_DEVICE_FLAG_ACTIVATED\<rparr>) k1)))"

text \<open>The first open of a device initialises it; a failure of that is the result of the open.\<close>

definition dev_activate :: "(nat \<Rightarrow> 'a kdev_scheme dev_ops) \<Rightarrow> nat \<Rightarrow> 'a kdev_scheme \<Rightarrow> rt_err \<times> 'a kdev_scheme" where
  "dev_activate drv d k =
    (if dev_flag (k_dev k d) AND RT_DEVICE_FLAG_ACTIVATED \<noteq> 0 then (RT_EOK, k)
     else (let (result, k1) = (case op_init (drv d) of None \<Rightarrow> (RT_EOK, k) | Some f \<Rightarrow> f k) in
       (result, if result \<noteq> RT_EOK then k1
         else upd_dev d (\<lambda>v. v\<lparr>dev_flag := dev_flag v OR RT_DEVICE_FLAG_ACTIVATED\<rparr>) k1)))"

definition rt_device_open ::
    "(nat \<Rightarrow> 'a kdev_scheme dev_ops) \<Rightarrow> nat \<Rightarrow> u16 \<Rightarrow> 'a kdev_scheme \<Rightarrow> (rt_err \<times> 'a kdev_scheme) option" where
  "rt_device_open drv d oflag k = do {
     rt_assert (is_device d k);
     let (result, k1) = dev_activate drv d k;
     if result \<noteq> RT_EOK then Some (result, k1)
     else if dev_flag (k_dev k1 d) AND RT_DEVICE_FLAG_STANDALONE \<noteq> 0 \<and> dev_open_flag (k_dev k1 d) AND RT_DEVICE_OFLAG_OPEN \<noteq> 0
     then Some (- RT_EBUSY, k1)
     else do {
       let (result, k2) = (case op_open (drv d) of
           Some f \<Rightarrow> f oflag k1
         | None \<Rightarrow> (RT_EOK, upd_dev d (\<lambda>v. v\<lparr>dev_open_flag := oflag AND RT_DEVICE_OFLAG_MASK\<rparr>) k1));
       if result = RT_EOK \<or> result = - RT_ENOSYS then do {
         let k3 = upd_dev d (\<lambda>v. v\<lparr>dev_open_flag := dev_open_flag v OR RT_DEVICE_OFLAG_OPEN, dev_ref_count := dev_ref_count v + 1\<rparr>) k2;
         rt_assert (dev_ref_count (k_dev k3 d) \<noteq> 0);
         Some (result, k3)
       } else Some (result, k2)
     }
   }"

definition rt_device_close ::
    "(nat \<Rightarrow> 'a kdev_scheme dev_ops) \<Rightarrow> nat \<Rightarrow> 'a kdev_scheme \<Rightarrow> (rt_err \<times> 'a kdev_scheme) option" where
  "rt_device_close drv d k = do {
     rt_assert (is_device d k);
     if dev_ref_count (k_dev k d) = 0 then Some (- RT_ERROR, k)
     else do {
       let k1 = upd_dev d (\<lambda>v. v\<lparr>dev_ref_count := dev_ref_count v - 1\<rparr>) k;
       if dev_ref_count (k_dev k1 d) \<noteq> 0 then Some (RT_EOK, k1)
       else do {
         let (result, k2) = (case op_close (drv d) of None \<Rightarrow> (RT_EOK, k1) | Some f \<Rightarrow> f k1);
         Some (result, if result = RT_EOK \<or> result = - RT_ENOSYS
           then upd_dev d (\<lambda>v. v\<lparr>dev_open_flag := RT_DEVICE_OFLAG_CLOSE\<rparr>) k2 else k2)
       }
     }
   }"

definition rt_device_read ::
    "(nat \<Rightarrow> 'a kdev_scheme dev_ops) \<Rightarrow> nat \<Rightarrow> int \<Rightarrow> nat \<Rightarrow> u32 \<Rightarrow> 'a kdev_scheme \<Rightarrow> (u32 \<times> 'a kdev_scheme) option" where
  "rt_device_read drv d pos buffer sz k = do {
     rt_assert (is_device d k);
     Some (if dev_ref_count (k_dev k d) = 0 then (0, rt_set_errno (- RT_ERROR) k)
       else (case op_read (drv d) of Some f \<Rightarrow> f pos buffer sz k | None \<Rightarrow> (0, rt_set_errno (- RT_ENOSYS) k)))
   }"

definition rt_device_write ::
    "(nat \<Rightarrow> 'a kdev_scheme dev_ops) \<Rightarrow> nat \<Rightarrow> int \<Rightarrow> nat \<Rightarrow> u32 \<Rightarrow> 'a kdev_scheme \<Rightarrow> (u32 \<times> 'a kdev_scheme) option" where
  "rt_device_write drv d pos buffer sz k = do {
     rt_assert (is_device d k);
     Some (if dev_ref_count (k_dev k d) = 0 then (0, rt_set_errno (- RT_ERROR) k)
       else (case op_write (drv d) of Some f \<Rightarrow> f pos buffer sz k | None \<Rightarrow> (0, rt_set_errno (- RT_ENOSYS) k)))
   }"

definition rt_device_control ::
    "(nat \<Rightarrow> 'a kdev_scheme dev_ops) \<Rightarrow> nat \<Rightarrow> int \<Rightarrow> nat \<Rightarrow> 'a kdev_scheme \<Rightarrow> (rt_err \<times> 'a kdev_scheme) option" where
  "rt_device_control drv d cmd arg k = do {
     rt_assert (is_device d k);
     Some (case op_control (drv d) of Some f \<Rightarrow> f cmd arg k | None \<Rightarrow> (- RT_ENOSYS, k))
   }"

definition rt_device_set_rx_indicate :: "nat \<Rightarrow> nat option \<Rightarrow> 'a kdev_scheme \<Rightarrow> (rt_err \<times> 'a kdev_scheme) option" where
  "rt_device_set_rx_indicate d f k = do {
     rt_assert (is_device d k);
     Some (RT_EOK, upd_dev d (\<lambda>v. v\<lparr>dev_rx_indicate := f\<rparr>) k)
   }"

definition rt_device_set_tx_complete :: "nat \<Rightarrow> nat option \<Rightarrow> 'a kdev_scheme \<Rightarrow> (rt_err \<times> 'a kdev_scheme) option" where
  "rt_device_set_tx_complete d f k = do {
     rt_assert (is_device d k);
     Some (RT_EOK, upd_dev d (\<lambda>v. v\<lparr>dev_tx_complete := f\<rparr>) k)
   }"

section \<open>The console\<close>

definition rt_console_get_device :: "'a kdev_scheme \<Rightarrow> nat option" where
  "rt_console_get_device k = k_console k"

definition rt_console_set_device ::
    "(nat \<Rightarrow> 'a kdev_scheme dev_ops) \<Rightarrow> u8 list \<Rightarrow> 'a kdev_scheme \<Rightarrow> (nat option \<times> 'a kdev_scheme) option" where
  "rt_console_set_device drv name k = do {
     let old = k_console k;
     (found, k1) \<leftarrow> rt_device_find name k;
     (case found of
        Some (DevObj d) \<Rightarrow> do {
          k2 \<leftarrow> (case k_console k1 of None \<Rightarrow> Some k1 | Some c \<Rightarrow> map_option snd (rt_device_close drv c k1));
          (_, k3) \<leftarrow> rt_device_open drv d (RT_DEVICE_OFLAG_RDWR OR RT_DEVICE_FLAG_STREAM) k2;
          Some (old, k3\<lparr>k_console := Some d\<rparr>)
        }
      | _ \<Rightarrow> Some (old, k1))
   }"

text \<open>Bytes to the console, in stream mode; without a console device they are lost.\<close>

definition console_write ::
    "(nat \<Rightarrow> 'a kdev_scheme dev_ops) \<Rightarrow> nat \<Rightarrow> u32 \<Rightarrow> 'a kdev_scheme \<Rightarrow> 'a kdev_scheme option" where
  "console_write drv buffer len k =
    (case k_console k of None \<Rightarrow> Some k
     | Some d \<Rightarrow> do {
         let old_flag = dev_open_flag (k_dev k d);
         (_, k1) \<leftarrow> rt_device_write drv d 0 buffer len (upd_dev d (\<lambda>v. v\<lparr>dev_open_flag := dev_open_flag v OR RT_DEVICE_FLAG_STREAM\<rparr>) k);
         Some (upd_dev d (\<lambda>v. v\<lparr>dev_open_flag := old_flag\<rparr>) k1)
       })"

text \<open>\<open>len\<close> is the length of the string, which is null for a null pointer.\<close>

definition rt_kputs :: "(nat \<Rightarrow> 'a kdev_scheme dev_ops) \<Rightarrow> nat \<Rightarrow> u32 \<Rightarrow> 'a kdev_scheme \<Rightarrow> 'a kdev_scheme option" where
  "rt_kputs drv str len k = (if str = 0 then Some k else console_write drv str len k)"

section \<open>Opening and closing\<close>

lemma upd_dev_simps [simp]:
  "k_dev (upd_dev d f k) e = (if e = d then f (k_dev k d) else k_dev k e)"
  "is_device e (upd_dev d f k) \<longleftrightarrow> is_device e k"
  "k_console (upd_dev d f k) = k_console k" "k_containers (upd_dev d f k) = k_containers k"
  "k_obj_type (upd_dev d f k) = k_obj_type k" "k_obj_name (upd_dev d f k) = k_obj_name k"
  "k_current (upd_dev d f k) = k_current k"
  "obj_inv (upd_dev d f k) \<longleftrightarrow> obj_inv k" "sched_ok (upd_dev d f k) \<longleftrightarrow> sched_ok k"
  "rt_object_is_systemobject ob (upd_dev d f k) \<longleftrightarrow> rt_object_is_systemobject ob k"
  by (auto simp: upd_dev_def is_device_def rt_object_get_type_def rt_object_is_systemobject_def obj_inv_def intro!: sched_ok_cong simp: ksched.truncate_def)

text \<open>
  A driver whose functions leave the record and the registration of its device to the device layer,
  and do not fail.
\<close>

definition leaves_device :: "nat \<Rightarrow> 'a kdev_scheme \<Rightarrow> rt_err \<times> 'a kdev_scheme \<Rightarrow> bool" where
  "leaves_device d k r \<longleftrightarrow> k_dev (snd r) d = k_dev k d \<and> is_device d (snd r) = is_device d k"

definition good_driver :: "'a kdev_scheme dev_ops \<Rightarrow> nat \<Rightarrow> bool" where
  "good_driver p d \<longleftrightarrow>
     (\<forall>f k. op_init p = Some f \<longrightarrow> leaves_device d k (f k) \<and> fst (f k) = RT_EOK) \<and>
     (\<forall>f w k. op_open p = Some f \<longrightarrow> leaves_device d k (f w k) \<and> fst (f w k) = RT_EOK) \<and>
     (\<forall>f k. op_close p = Some f \<longrightarrow> leaves_device d k (f k) \<and> fst (f k) = RT_EOK)"

lemma good_driverD:
  assumes "good_driver p d"
  shows "op_init p = Some f \<Longrightarrow> leaves_device d k (f k)" "op_init p = Some f \<Longrightarrow> fst (f k) = RT_EOK"
    "op_open p = Some g \<Longrightarrow> leaves_device d k (g w k)" "op_open p = Some g \<Longrightarrow> fst (g w k) = RT_EOK"
    "op_close p = Some f \<Longrightarrow> leaves_device d k (f k)" "op_close p = Some f \<Longrightarrow> fst (f k) = RT_EOK"
  using assms by (auto simp: good_driver_def)

definition activated :: "dev \<Rightarrow> bool" where
  "activated v \<longleftrightarrow> dev_flag v AND RT_DEVICE_FLAG_ACTIVATED \<noteq> 0"

definition standalone :: "dev \<Rightarrow> bool" where
  "standalone v \<longleftrightarrow> dev_flag v AND RT_DEVICE_FLAG_STANDALONE \<noteq> 0"

definition opened :: "dev \<Rightarrow> bool" where
  "opened v \<longleftrightarrow> dev_open_flag v AND RT_DEVICE_OFLAG_OPEN \<noteq> 0"

lemma dev_flag_bits [simp]:
  "RT_DEVICE_FLAG_ACTIVATED \<noteq> 0" "RT_DEVICE_OFLAG_OPEN \<noteq> 0"
  "(w OR RT_DEVICE_FLAG_ACTIVATED) AND RT_DEVICE_FLAG_STANDALONE = w AND RT_DEVICE_FLAG_STANDALONE"
  by (simp_all add: bit.conj_disj_distrib2 dev_flag_defs)

lemma dev_activate_ok:
  assumes "good_driver (drv d) d"
  obtains k1 where "dev_activate drv d k = (RT_EOK, k1)" "is_device d k1 = is_device d k" "activated (k_dev k1 d)"
    "standalone (k_dev k1 d) = standalone (k_dev k d)" "dev_open_flag (k_dev k1 d) = dev_open_flag (k_dev k d)"
    "dev_ref_count (k_dev k1 d) = dev_ref_count (k_dev k d)"
proof (cases "activated (k_dev k d)")
  case True
  show ?thesis by (rule that[of k]) (use True in \<open>simp_all add: dev_activate_def activated_def\<close>)
next
  case False
  define r where "r = (case op_init (drv d) of None \<Rightarrow> (RT_EOK, k) | Some f \<Rightarrow> f k)"
  have r: "fst r = RT_EOK" "leaves_device d k r"
    using good_driverD(1,2)[OF assms, of _ k] by (auto simp: r_def leaves_device_def split: option.split)
  show ?thesis
    by (rule that[of "upd_dev d (\<lambda>v. v\<lparr>dev_flag := dev_flag v OR RT_DEVICE_FLAG_ACTIVATED\<rparr>) (snd r)"])
      (use False r in \<open>auto simp: dev_activate_def activated_def standalone_def leaves_device_def
         split_beta simp flip: r_def\<close>)
qed

text \<open>Opening counts a reference, in a byte; a standalone device that is open refuses.\<close>

lemma rt_device_open_ok:
  assumes "good_driver (drv d) d" "is_device d k" "\<not> (standalone (k_dev k d) \<and> opened (k_dev k d))"
  shows "\<exists>k'. rt_device_open drv d oflag k = (if dev_ref_count (k_dev k d) + 1 = 0 then None else Some (RT_EOK, k')) \<and>
    is_device d k' \<and> activated (k_dev k' d) \<and> opened (k_dev k' d) \<and>
    standalone (k_dev k' d) = standalone (k_dev k d) \<and>
    dev_ref_count (k_dev k' d) = dev_ref_count (k_dev k d) + 1"
proof -
  obtain k1 where k1: "dev_activate drv d k = (RT_EOK, k1)" "is_device d k1 = is_device d k" "activated (k_dev k1 d)"
    "standalone (k_dev k1 d) = standalone (k_dev k d)" "dev_open_flag (k_dev k1 d) = dev_open_flag (k_dev k d)"
    "dev_ref_count (k_dev k1 d) = dev_ref_count (k_dev k d)"
    by (rule dev_activate_ok[where drv = drv and d = d and k = k, OF assms(1)])
  define r where "r = (case op_open (drv d) of Some f \<Rightarrow> f oflag k1
    | None \<Rightarrow> (RT_EOK, upd_dev d (\<lambda>v. v\<lparr>dev_open_flag := oflag AND RT_DEVICE_OFLAG_MASK\<rparr>) k1))"
  have r: "fst r = RT_EOK" "is_device d (snd r)" "activated (k_dev (snd r) d)"
    "standalone (k_dev (snd r) d) = standalone (k_dev k d)" "dev_ref_count (k_dev (snd r) d) = dev_ref_count (k_dev k d)"
    using good_driverD(3,4)[OF assms(1), where w = oflag and k = k1] k1 assms(2)
    by (auto simp: r_def leaves_device_def activated_def standalone_def split: option.split)
  have nb: "\<not> (dev_flag (k_dev k1 d) AND RT_DEVICE_FLAG_STANDALONE \<noteq> 0 \<and> dev_open_flag (k_dev k1 d) AND RT_DEVICE_OFLAG_OPEN \<noteq> 0)"
    using assms(3) k1(4,5) by (auto simp: standalone_def opened_def)
  show ?thesis
    using assms(2) r nb
    by (intro exI[of _ "upd_dev d (\<lambda>v. v\<lparr>dev_open_flag := dev_open_flag v OR RT_DEVICE_OFLAG_OPEN,
        dev_ref_count := dev_ref_count v + 1\<rparr>) (snd r)"])
      (auto simp: rt_device_open_def k1(1) split_beta activated_def standalone_def opened_def rt_assert_def simp flip: r_def)
qed

text \<open>Closing gives a reference back; only the last close calls the driver and ends the open state.\<close>

lemma rt_device_close_shared:
  assumes "is_device d k" "dev_ref_count (k_dev k d) \<noteq> 0" "dev_ref_count (k_dev k d) \<noteq> 1"
  shows "rt_device_close drv d k = Some (RT_EOK, upd_dev d (\<lambda>v. v\<lparr>dev_ref_count := dev_ref_count v - 1\<rparr>) k)"
  using assms by (auto simp: rt_device_close_def rt_assert_def)

lemma rt_device_close_last:
  assumes "good_driver (drv d) d" "is_device d k" "dev_ref_count (k_dev k d) = 1"
  shows "\<exists>k'. rt_device_close drv d k = Some (RT_EOK, k') \<and> is_device d k' \<and> dev_ref_count (k_dev k' d) = 0 \<and>
    dev_open_flag (k_dev k' d) = 0 \<and> dev_flag (k_dev k' d) = dev_flag (k_dev k d)"
proof -
  define k1 where "k1 = upd_dev d (\<lambda>v. v\<lparr>dev_ref_count := dev_ref_count v - 1\<rparr>) k"
  define r where "r = (case op_close (drv d) of None \<Rightarrow> (RT_EOK, k1) | Some f \<Rightarrow> f k1)"
  have k1: "is_device d k1" "dev_ref_count (k_dev k1 d) = 0" "dev_flag (k_dev k1 d) = dev_flag (k_dev k d)"
    using assms by (simp_all add: k1_def)
  have r: "fst r = RT_EOK" "leaves_device d k1 r"
    using good_driverD(5,6)[OF assms(1), of _ k1] by (auto simp: r_def leaves_device_def split: option.split)
  have "rt_device_close drv d k = Some (RT_EOK, upd_dev d (\<lambda>v. v\<lparr>dev_open_flag := RT_DEVICE_OFLAG_CLOSE\<rparr>) (snd r))"
    using assms(2,3) r(1) k1(2)
    by (auto simp: rt_device_close_def rt_assert_def split_beta simp flip: r_def k1_def)
  then show ?thesis using r(2) k1 by (auto simp: leaves_device_def RT_DEVICE_OFLAG_CLOSE_def)
qed

text \<open>Any number of opens and closes in a row.\<close>

primrec dev_opens ::
    "(nat \<Rightarrow> 'a kdev_scheme dev_ops) \<Rightarrow> nat \<Rightarrow> u16 \<Rightarrow> nat \<Rightarrow> 'a kdev_scheme \<Rightarrow> 'a kdev_scheme option" where
  "dev_opens drv d oflag 0 k = Some k"
| "dev_opens drv d oflag (Suc n) k =
     Option.bind (dev_opens drv d oflag n k) (\<lambda>k1. map_option snd (rt_device_open drv d oflag k1))"

primrec dev_closes ::
    "(nat \<Rightarrow> 'a kdev_scheme dev_ops) \<Rightarrow> nat \<Rightarrow> nat \<Rightarrow> 'a kdev_scheme \<Rightarrow> 'a kdev_scheme option" where
  "dev_closes drv d 0 k = Some k"
| "dev_closes drv d (Suc n) k = Option.bind (rt_device_close drv d k) (\<lambda>r. dev_closes drv d n (snd r))"

lemma of_nat_u8: "n < 256 \<Longrightarrow> unat (of_nat n :: u8) = n"
  by (simp add: unat_of_nat)

lemma dev_opens_ok:
  assumes g: "good_driver (drv d) d" "is_device d k" "\<not> standalone (k_dev k d)" "dev_ref_count (k_dev k d) = 0"
  shows "n \<le> 255 \<Longrightarrow> \<exists>k'. dev_opens drv d oflag n k = Some k' \<and> is_device d k' \<and> \<not> standalone (k_dev k' d) \<and>
    dev_ref_count (k_dev k' d) = of_nat n \<and> (0 < n \<longrightarrow> activated (k_dev k' d) \<and> opened (k_dev k' d))"
proof (induction n)
  case 0
  then show ?case using g by simp
next
  case (Suc n)
  then obtain k1 where k1: "dev_opens drv d oflag n k = Some k1" "is_device d k1" "\<not> standalone (k_dev k1 d)"
    "dev_ref_count (k_dev k1 d) = of_nat n" by auto
  have "(of_nat n + 1 :: u8) \<noteq> 0" using of_nat_u8[of "Suc n"] Suc.prems by (auto simp: add.commute simp del: unat_eq_zero)
  then show ?case using rt_device_open_ok[where drv = drv and d = d and k = k1 and oflag = oflag, OF g(1) k1(2)] k1
    by (auto simp: add.commute)
qed

lemma dev_opens_256:
  assumes "good_driver (drv d) d" "is_device d k" "\<not> standalone (k_dev k d)" "dev_ref_count (k_dev k d) = 0"
  shows "dev_opens drv d oflag 256 k = None"
proof -
  obtain k1 where k1: "dev_opens drv d oflag 255 k = Some k1" "is_device d k1" "\<not> standalone (k_dev k1 d)"
    "dev_ref_count (k_dev k1 d) = 255"
    using dev_opens_ok[where drv = drv and d = d and k = k and n = 255 and oflag = oflag, OF assms] by auto
  have "rt_device_open drv d oflag k1 = None"
    using rt_device_open_ok[where drv = drv and d = d and k = k1 and oflag = oflag, OF assms(1) k1(2)] k1(3,4) by auto
  then have "dev_opens drv d oflag (Suc 255) k = None" by (simp only: dev_opens.simps k1(1)) simp
  then show ?thesis by simp
qed

lemma dev_closes_ok:
  assumes g: "good_driver (drv d) d"
  shows "is_device d k \<Longrightarrow> dev_ref_count (k_dev k d) = of_nat n \<Longrightarrow> n \<le> 255 \<Longrightarrow>
    \<exists>k'. dev_closes drv d n k = Some k' \<and> is_device d k' \<and> dev_ref_count (k_dev k' d) = 0 \<and>
      (0 < n \<longrightarrow> dev_open_flag (k_dev k' d) = 0)"
proof (induction n arbitrary: k)
  case (Suc n)
  show ?case
  proof (cases "n = 0")
    case True
    then show ?thesis using rt_device_close_last[where drv = drv, OF g Suc.prems(1)] Suc.prems(2) by auto
  next
    case False
    have "dev_ref_count (k_dev k d) \<noteq> 0" "dev_ref_count (k_dev k d) \<noteq> 1"
      using of_nat_u8[of "Suc n"] of_nat_u8[of n] False Suc.prems(2,3) by auto
    then show ?thesis
      using rt_device_close_shared[of d k drv] Suc.prems False
        Suc.IH[of "upd_dev d (\<lambda>v. v\<lparr>dev_ref_count := dev_ref_count v - 1\<rparr>) k"] by simp
  qed
qed simp

text \<open>
  A driver that refuses to close its standalone device leaves it without a reference but marked
  open: nobody can close it or open it again.
\<close>

lemma rt_device_close_refused:
  assumes "op_close (drv d) = Some f" "is_device d k" "dev_ref_count (k_dev k d) = 1" "standalone (k_dev k d)"
    "opened (k_dev k d)" "activated (k_dev k d)"
    and f: "\<And>k0. fst (f k0) = e \<and> leaves_device d k0 (f k0)" and e: "e \<noteq> RT_EOK" "e \<noteq> - RT_ENOSYS"
  shows "\<exists>k'. rt_device_close drv d k = Some (e, k') \<and> rt_device_close drv d k' = Some (- RT_ERROR, k') \<and>
    rt_device_open drv d oflag k' = Some (- RT_EBUSY, k')"
proof -
  define k1 where "k1 = upd_dev d (\<lambda>v. v\<lparr>dev_ref_count := dev_ref_count v - 1\<rparr>) k"
  have k1: "is_device d k1" "k_dev k1 d = (k_dev k d)\<lparr>dev_ref_count := 0\<rparr>" using assms(2,3) by (simp_all add: k1_def)
  define k' where "k' = snd (f k1)"
  have fk: "f k1 = (e, k')" using f[of k1] by (simp add: k'_def prod_eq_iff)
  have k': "is_device d k'" "k_dev k' d = (k_dev k d)\<lparr>dev_ref_count := 0\<rparr>" using f[of k1] k1 by (simp_all add: k'_def leaves_device_def)
  have "rt_device_close drv d k = Some (e, k')"
    using assms(1,2,3) k1 e fk by (simp add: rt_device_close_def rt_assert_def flip: k1_def)
  moreover have "rt_device_close drv d k' = Some (- RT_ERROR, k')" using k' by (simp add: rt_device_close_def rt_assert_def)
  moreover have "rt_device_open drv d oflag k' = Some (- RT_EBUSY, k')"
    using k' assms(4-6) by (simp add: rt_device_open_def rt_assert_def dev_activate_def activated_def standalone_def opened_def)
  ultimately show ?thesis by blast
qed

section \<open>The registry\<close>

lemma device_class [simp]: "RT_Object_Class_Device \<in> set rt_object_container"
  by (simp add: rt_object_container_def)

lemma rt_device_find_ok:
  assumes "sched_ok k"
  obtains k1 where "sched_ok k1" "sched_frame k k1" "rt_device_find name k =
    Some (find (\<lambda>ob. name_eq RT_NAME_MAX (k_obj_name k ob) name) (k_containers k RT_Object_Class_Device), k1)"
proof -
  have info: "rt_object_get_information RT_Object_Class_Device = Some RT_Object_Class_Device"
    by (simp add: get_information_Some)
  show ?thesis
  proof (cases "k_current k = None")
    case True
    show ?thesis by (rule that[of k]) (use True assms info in \<open>simp_all add: rt_device_find_def sched_frame_refl\<close>)
  next
    case False
    obtain k1 where k1: "rt_exit_critical (rt_enter_critical k) = Some k1" "sched_ok k1" "sched_frame k k1"
      using critical_section_ok[OF assms] by metis
    have e: "k_containers (rt_enter_critical k) = k_containers k" "k_obj_name (rt_enter_critical k) = k_obj_name k"
      "k_current (rt_enter_critical k) = k_current k"
      by (simp_all add: rt_enter_critical_def)
    show ?thesis by (rule that[of k1]) (use False k1 e info in \<open>simp_all add: rt_device_find_def\<close>)
  qed
qed

text \<open>A taken name is refused; a new one leads to the device from then on, closed and without references.\<close>

lemma rt_device_register_taken:
  assumes "sched_ok k" "ob \<in> set (k_containers k RT_Object_Class_Device)" "name_eq RT_NAME_MAX (k_obj_name k ob) name"
  shows "\<exists>k1. sched_frame k k1 \<and> rt_device_register (Some d) name flags k = Some (- RT_ERROR, k1)"
proof -
  obtain k1 where k1: "sched_frame k k1" "rt_device_find name k =
    Some (find (\<lambda>ob. name_eq RT_NAME_MAX (k_obj_name k ob) name) (k_containers k RT_Object_Class_Device), k1)"
    using rt_device_find_ok[OF assms(1)] by metis
  moreover have "find (\<lambda>ob. name_eq RT_NAME_MAX (k_obj_name k ob) name) (k_containers k RT_Object_Class_Device) \<noteq> None"
    using assms(2,3) by (auto simp: find_None_iff)
  ultimately show ?thesis by (auto simp: rt_device_register_def)
qed

lemma rt_device_register_ok:
  assumes s: "sched_ok k" and inv: "obj_inv k" and t: "k_obj_type k (DevObj d) = 0"
    and new: "\<forall>ob \<in> set (k_containers k RT_Object_Class_Device). \<not> name_eq RT_NAME_MAX (k_obj_name k ob) name"
  shows "\<exists>k1 k2. rt_device_register (Some d) name flags k = Some (RT_EOK, k1) \<and> obj_inv k1 \<and> is_device d k1 \<and>
    k_containers k1 = (k_containers k)(RT_Object_Class_Device := DevObj d # k_containers k RT_Object_Class_Device) \<and>
    dev_flag (k_dev k1 d) = flags \<and> dev_ref_count (k_dev k1 d) = 0 \<and> dev_open_flag (k_dev k1 d) = 0 \<and>
    rt_object_is_systemobject (DevObj d) k1 \<and> rt_device_find name k1 = Some (Some (DevObj d), k2)"
proof -
  obtain ka where ka: "sched_ok ka" "sched_frame k ka" "rt_device_find name k = Some (None, ka)"
    using rt_device_find_ok[OF s, of name] new by (metis find_None_iff)
  have ma: "ksched.more ka = ksched.more k" using ka(2) by (simp add: sched_frame_def)
  have inva: "obj_inv ka" using obj_inv_more[OF ma] inv by simp
  have ta: "k_obj_type ka (DevObj d) = 0" using kobj_more(1)[OF ma] t by simp
  have un: "DevObj d \<notin> set (k_containers ka RT_Object_Class_Device)" by (rule unregistered[OF inva ta])
  obtain kb where kb: "sched_ok kb" "sched_frame ka kb" "rt_object_init (DevObj d) RT_Object_Class_Device name ka =
      Some (registered (DevObj d) RT_Object_Class_Device (RT_Object_Class_Device OR RT_Object_Class_Static) name kb)"
    by (rule rt_object_init_ok[OF ka(1) device_class un])
  define kr where "kr = registered (DevObj d) RT_Object_Class_Device (RT_Object_Class_Device OR RT_Object_Class_Static) name kb"
  define k1 where "k1 = upd_dev d (\<lambda>v. v\<lparr>dev_flag := flags, dev_ref_count := 0, dev_open_flag := 0\<rparr>) kr"
  have mb: "ksched.more kb = ksched.more k" using kb(2) ma by (simp add: sched_frame_def)
  have invb: "obj_inv kb" using obj_inv_more[OF mb] inv by simp
  have "obj_inv kr" unfolding kr_def by (rule obj_inv_registered[OF invb _ device_class]) (use kobj_more(1)[OF mb] t in simp_all)
  moreover have c: "k_containers kr = (k_containers k)(RT_Object_Class_Device := DevObj d # k_containers k RT_Object_Class_Device)"
    using kobj_more(4)[OF mb] by (simp add: kr_def registered_def)
  moreover have "is_device d kr" "rt_object_is_systemobject (DevObj d) kr" by (simp_all add: kr_def is_device_def RT_Object_Class_Static_def RT_Object_Class_Device_def)
  moreover have "sched_ok k1" using kb(1) by (simp add: k1_def kr_def)
  then obtain k2 where "rt_device_find name k1 =
      Some (find (\<lambda>ob. name_eq RT_NAME_MAX (k_obj_name k1 ob) name) (k_containers k1 RT_Object_Class_Device), k2)"
    using rt_device_find_ok by blast
  then have "rt_device_find name k1 = Some (Some (DevObj d), k2)"
    using c by (simp add: k1_def) (simp add: kr_def registered_def name_eq_copy)
  moreover have "rt_device_register (Some d) name flags k = Some (RT_EOK, k1)"
    using ka(3) kb(3) by (simp add: rt_device_register_def k1_def kr_def)
  ultimately show ?thesis by (intro exI[of _ k1] exI[of _ k2]) (simp_all add: k1_def)
qed

text \<open>Unregistering takes the device out of the registry again.\<close>

lemma rt_device_unregister_ok:
  assumes "obj_inv k" "is_device d k" "rt_object_is_systemobject (DevObj d) k"
  shows "\<exists>k1. rt_device_unregister d k = Some (RT_EOK, k1) \<and> obj_inv k1 \<and>
    (\<forall>c. k_containers k1 c = removeAll (DevObj d) (k_containers k c)) \<and> k_obj_type k1 (DevObj d) = 0"
  using assms obj_inv_detach(1)[OF assms(1), of "DevObj d"]
  by (simp add: rt_device_unregister_def rt_assert_def) (simp add: rt_object_detach_def unlink_object_def)

end
