(* ===== verification/DfsPath.thy ===== *)
theory DfsPath
  imports Object
begin

text \<open>
  Paths of the device file system (\<open>dfs_normalize_path\<close> and \<open>dfs_subdir\<close> of
  \<open>components/dfs/src/dfs.c\<close>): the loop that rewrites the path in its own buffer, and the reading
  of a path as a list of components it implements. A path is a list of bytes without the null
  byte; the buffer has it.
\<close>

section \<open>The buffer\<close>

definition rd :: "u8 list \<Rightarrow> nat \<Rightarrow> u8 option" where
  "rd b i = (if i < length b then Some (b ! i) else None)"

definition wr :: "u8 list \<Rightarrow> nat \<Rightarrow> u8 \<Rightarrow> u8 list option" where
  "wr b i c = (if i < length b then Some (b[i := c]) else None)"

definition path_str :: "u8 list \<Rightarrow> u8 list" where
  "path_str b = takeWhile (\<lambda>c. c \<noteq> 0) b"

abbreviation (input) SLASH :: u8 where "SLASH \<equiv> 47"
abbreviation (input) DOT :: u8 where "DOT \<equiv> 46"

section \<open>Normalising a path\<close>

text \<open>The index of the first byte from \<open>src\<close> on that is not a slash.\<close>

partial_function (option) np_skip :: "u8 list \<Rightarrow> nat \<Rightarrow> nat option" where
  "np_skip b src = Option.bind (rd b src) (\<lambda>c. if c = SLASH then np_skip b (src + 1) else Some src)"

text \<open>Copying up to the next slash or the end; the byte that stopped it is the first result.\<close>

partial_function (option) np_copy :: "u8 list \<Rightarrow> nat \<Rightarrow> nat \<Rightarrow> (u8 \<times> u8 list \<times> nat \<times> nat) option" where
  "np_copy b src dst = Option.bind (rd b src) (\<lambda>c.
     if c \<noteq> 0 \<and> c \<noteq> SLASH then Option.bind (wr b dst c) (\<lambda>b1. np_copy b1 (src + 1) (dst + 1))
     else Some (c, b, src + 1, dst))"

primrec np_back :: "u8 list \<Rightarrow> nat \<Rightarrow> nat option" where
  "np_back b 0 = Some 0"
| "np_back b (Suc d) = do { c \<leftarrow> rd b d; if c \<noteq> SLASH then np_back b d else Some (Suc d) }"

text \<open>
  What stands at \<open>src\<close>: something to copy, a current directory to skip or a parent directory to go
  up to, each with the place to go on from.
\<close>

datatype np_kind = Copy nat | Skip nat | Up nat

definition np_look :: "u8 list \<Rightarrow> nat \<Rightarrow> np_kind option" where
  "np_look b src = do {
     c \<leftarrow> rd b src;
     if c = DOT then do {
       c1 \<leftarrow> rd b (src + 1);
       if c1 = 0 then Some (Copy (src + 1))
       else if c1 = SLASH then do { s \<leftarrow> np_skip b (src + 2); Some (Skip s) }
       else if c1 = DOT then do {
         c2 \<leftarrow> rd b (src + 2);
         if c2 = 0 then Some (Up (src + 2))
         else if c2 = SLASH then do { s \<leftarrow> np_skip b (src + 3); Some (Up s) }
         else Some (Copy src)
       } else Some (Copy src)
     } else Some (Copy src)
   }"

text \<open>The main loop. A parent directory above the start of the buffer is the result \<open>RT_NULL\<close>, here \<open>Some None\<close>.\<close>

partial_function (option) np_loop :: "u8 list \<Rightarrow> nat \<Rightarrow> nat \<Rightarrow> (u8 list \<times> nat) option option" where
  "np_loop b src dst = Option.bind (np_look b src) (\<lambda>k.
     case k of
       Skip s \<Rightarrow> np_loop b s dst
     | Up s \<Rightarrow> if dst = 0 then Some None else Option.bind (np_back b (dst - 1)) (\<lambda>d. np_loop b s d)
     | Copy s \<Rightarrow> Option.bind (np_copy b s dst) (\<lambda>(c, b1, s1, d1).
         if c = SLASH then Option.bind (wr b1 d1 SLASH) (\<lambda>b2.
           Option.bind (np_skip b2 s1) (\<lambda>s2. np_loop b2 s2 (d1 + 1)))
         else Some (Some (b1, d1))))"

text \<open>
  The end of the function. With nothing written \<open>dst\<close> then points in front of the buffer, and the
  byte there is read.
\<close>

definition np_finish :: "u8 list \<Rightarrow> nat \<Rightarrow> u8 list option" where
  "np_finish b dst = do {
     b1 \<leftarrow> wr b dst 0;
     rt_assert (dst \<noteq> 0);
     c \<leftarrow> rd b1 (dst - 1);
     b2 \<leftarrow> (if dst - 1 \<noteq> 0 \<and> c = SLASH then wr b1 (dst - 1) 0 else Some b1);
     c0 \<leftarrow> rd b2 0;
     if c0 = 0 then do { b3 \<leftarrow> wr b2 0 SLASH; wr b3 1 0 } else Some b2
   }"

text \<open>
  \<open>wd\<close> is the working directory, where one is configured, and \<open>mem\<close> whether the heap has room for
  the copy of the path.
\<close>

definition dfs_normalize_path ::
    "u8 list option \<Rightarrow> bool \<Rightarrow> u8 list option \<Rightarrow> u8 list \<Rightarrow> u8 list option option" where
  "dfs_normalize_path wd mem directory filename =
    (let dir = (case directory of None \<Rightarrow> wd | Some d \<Rightarrow> Some d);
         full = (if chd filename \<noteq> SLASH then map_option (\<lambda>d. d @ [SLASH] @ filename) dir else Some filename) in
     case full of None \<Rightarrow> Some None
     | Some path \<Rightarrow>
         if \<not> mem then Some None
         else do {
           r \<leftarrow> np_loop (path @ [0]) 0 0;
           (case r of None \<Rightarrow> Some None
            | Some (b, dst) \<Rightarrow> do { b1 \<leftarrow> np_finish b dst; Some (Some (path_str b1)) })
         })"

text \<open>The part of a file name below a directory, as the index where it starts, or null for the directory itself.\<close>

definition dfs_subdir :: "u8 list \<Rightarrow> u8 list \<Rightarrow> nat option option" where
  "dfs_subdir directory filename =
    (if length directory = length filename then Some None
     else do {
       c \<leftarrow> rd (filename @ [0]) (length directory);
       Some (Some (if c \<noteq> SLASH \<and> length directory \<noteq> 0 then length directory - 1 else length directory))
     })"

section \<open>Paths as lists of components\<close>

text \<open>The names between the slashes, empty ones left out.\<close>

function comps :: "u8 list \<Rightarrow> u8 list list" where
  "comps s = (case dropWhile (\<lambda>c. c = SLASH) s of [] \<Rightarrow> []
     | c # t \<Rightarrow> takeWhile (\<lambda>c. c \<noteq> SLASH) (c # t) # comps (dropWhile (\<lambda>c. c \<noteq> SLASH) (c # t)))"
  by pat_completeness auto
termination
proof (relation "measure length")
  fix s c t assume a: "dropWhile (\<lambda>c. c = SLASH) s = (c # t :: u8 list)"
  have "c \<noteq> SLASH" using hd_dropWhile[of "\<lambda>c. c = SLASH" s] a by simp
  then have "length (dropWhile (\<lambda>c. c \<noteq> SLASH) (c # t)) \<le> length t" by (simp add: length_dropWhile_le)
  also have "\<dots> < length (c # t)" by simp
  also have "length (c # t) \<le> length s" using length_dropWhile_le[of "\<lambda>c. c = SLASH" s] a by simp
  finally show "(dropWhile (\<lambda>c. c \<noteq> SLASH) (c # t), s) \<in> measure length" by simp
qed simp

declare comps.simps [simp del]

text \<open>
  A position in the tree: whether it is below the root, and the directories passed, innermost
  first. Going up from the root leaves the root behind; going up once more has no result.
\<close>

definition enter :: "bool \<times> u8 list list \<Rightarrow> u8 list \<Rightarrow> (bool \<times> u8 list list) option" where
  "enter p c = (case p of (root, dirs) \<Rightarrow>
     if c = [DOT] then Some (root, dirs)
     else if c = [DOT, DOT] then (case dirs of d # ds \<Rightarrow> Some (root, ds) | [] \<Rightarrow> if root then Some (False, []) else None)
     else Some (root, c # dirs))"

fun walk :: "bool \<times> u8 list list \<Rightarrow> u8 list list \<Rightarrow> (bool \<times> u8 list list) option" where
  "walk p [] = Some p"
| "walk p (c # cs) = (case enter p c of None \<Rightarrow> None | Some q \<Rightarrow> walk q cs)"

definition opened_text :: "bool \<times> u8 list list \<Rightarrow> u8 list" where
  "opened_text p = (if fst p then [SLASH] else []) @ concat (map (\<lambda>c. c @ [SLASH]) (rev (snd p)))"

definition path_text :: "bool \<times> u8 list list \<Rightarrow> u8 list" where
  "path_text p = (case snd p of [] \<Rightarrow> opened_text p | c # ds \<Rightarrow> opened_text (fst p, ds) @ c)"

text \<open>What the code computes for a path \<open>s\<close>: undefined where it leaves the root and ends there.\<close>

definition normal_form :: "u8 list \<Rightarrow> u8 list option option" where
  "normal_form s = (case walk (chd s = SLASH, []) (comps s) of
     None \<Rightarrow> Some None
   | Some p \<Rightarrow> if p = (False, []) then None else Some (Some (path_text p)))"

section \<open>The pieces of the loop\<close>

text \<open>The buffer holds the text written so far in front of \<open>dst\<close> and the text still to read, with its null byte, from \<open>src\<close> on.\<close>

definition holds :: "u8 list \<Rightarrow> u8 list \<Rightarrow> nat \<Rightarrow> u8 list \<Rightarrow> bool" where
  "holds b out src s \<longleftrightarrow> length out \<le> src \<and> take (length out) b = out \<and> drop src b = s @ [0] \<and> 0 \<notin> set s"

lemma drop_plus: "drop (m + n) xs = drop n (drop m xs)"
  by (simp add: add.commute)

lemma holdsD:
  assumes "holds b out src s"
  shows "length out \<le> src" "src + length s + 1 = length b" "rd b src = Some (chd s)" "0 \<notin> set s"
    "length out < length b" "\<And>i. rd b (src + i) = (if i \<le> length s then Some ((s @ [0]) ! i) else None)"
proof -
  have d: "drop src b = s @ [0]" using assms by (simp add: holds_def)
  then have l: "length b - src = length s + 1" by (metis length_append_singleton length_drop Suc_eq_plus1)
  then show "src + length s + 1 = length b" by simp
  show "length out \<le> src" "0 \<notin> set s" using assms by (simp_all add: holds_def)
  then show "length out < length b" using l by simp
  show r: "rd b (src + i) = (if i \<le> length s then Some ((s @ [0]) ! i) else None)" for i
    using l by (auto simp: rd_def simp flip: d)
  show "rd b src = Some (chd s)" using r[of 0] by (cases s) simp_all
qed

lemma holds_drop: "holds b out src (w @ s) \<Longrightarrow> holds b out (src + length w) s"
  by (auto simp: holds_def drop_plus simp del: drop_drop)

lemma np_skip_ok:
  "holds b out src s \<Longrightarrow> np_skip b src = Some (src + length (takeWhile (\<lambda>c. c = SLASH) s))"
proof (induction s arbitrary: src)
  case Nil
  then show ?case using holdsD(3)[OF Nil] by (subst np_skip.simps) simp
next
  case (Cons c s)
  have "holds b out (src + length [c]) s" by (rule holds_drop) (use Cons.prems in simp)
  then show ?case using Cons.IH[of "src + 1"] holdsD(3)[OF Cons.prems] by (subst np_skip.simps) simp
qed

lemma np_skip_holds:
  assumes "holds b out src s"
  shows "np_skip b src = Some (src + length (takeWhile (\<lambda>c. c = SLASH) s))"
    "holds b out (src + length (takeWhile (\<lambda>c. c = SLASH) s)) (dropWhile (\<lambda>c. c = SLASH) s)"
  using np_skip_ok[OF assms] holds_drop[of b out src "takeWhile (\<lambda>c. c = SLASH) s" "dropWhile (\<lambda>c. c = SLASH) s"] assms
  by (simp_all add: takeWhile_dropWhile_id)

lemma holds_write:
  assumes h: "holds b out src (c # s)"
  shows "wr b (length out) c = Some (b[length out := c])" "holds (b[length out := c]) (out @ [c]) (src + 1) s"
proof -
  note d = holdsD[OF h]
  show "wr b (length out) c = Some (b[length out := c])" using d(5) by (simp add: wr_def)
  have "take (Suc (length out)) (b[length out := c]) = out @ [c]"
    using h d(5) by (simp add: take_Suc_conv_app_nth holds_def)
  moreover have "drop (src + 1) (b[length out := c]) = s @ [0]"
    using h d(1) drop_plus[of src 1 b] by (simp add: holds_def drop_update_cancel del: drop_drop)
  ultimately show "holds (b[length out := c]) (out @ [c]) (src + 1) s" using h by (simp add: holds_def)
qed

lemma np_copy_ok:
  assumes "holds b out src s" "w = takeWhile (\<lambda>c. c \<noteq> SLASH) s"
  shows "dropWhile (\<lambda>c. c \<noteq> SLASH) s = [] \<Longrightarrow> \<exists>b1. np_copy b src (length out) = Some (0, b1, src + length s + 1, length out + length s) \<and>
      holds b1 (out @ s) (src + length s) []"
    "dropWhile (\<lambda>c. c \<noteq> SLASH) s = c # r \<Longrightarrow> \<exists>b1. np_copy b src (length out) = Some (SLASH, b1, src + length w + 1, length out + length w) \<and>
      holds b1 (out @ w) (src + length w) (c # r)"
  using assms
proof (induction s arbitrary: b out src w)
  case Nil
  {
    case 1
    show ?case using holdsD(3)[OF 1(2)] 1(2) by (subst np_copy.simps) simp
  next
    case 2
    then show ?case by simp
  }
next
  case (Cons x s)
  {
    case 1
    then have x: "x \<noteq> SLASH" "x \<noteq> 0" "dropWhile (\<lambda>c. c \<noteq> SLASH) s = []"
      using holdsD(4)[OF 1(2)] by (auto split: if_splits)
    note w = holds_write[OF 1(2)]
    obtain b1 where "np_copy (b[length out := x]) (src + 1) (length (out @ [x])) = Some (0, b1, src + 1 + length s + 1, length (out @ [x]) + length s)"
      "holds b1 ((out @ [x]) @ s) (src + 1 + length s) []"
      using Cons.IH(1)[OF x(3) w(2) refl] by blast
    then show ?case using holdsD(3)[OF 1(2)] x(1,2) w(1) by (subst np_copy.simps) simp
  next
    case 2
    show ?case
    proof (cases "x = SLASH")
      case True
      then show ?thesis using 2 holdsD(3)[OF 2(2)] by (subst np_copy.simps) simp
    next
      case False
      have x: "x \<noteq> 0" "dropWhile (\<lambda>c. c \<noteq> SLASH) s = c # r" using holdsD(4)[OF 2(2)] 2(1) False by auto
      note w = holds_write[OF 2(2)]
      obtain b1 where "np_copy (b[length out := x]) (src + 1) (length (out @ [x])) =
          Some (SLASH, b1, src + 1 + length (takeWhile (\<lambda>c. c \<noteq> SLASH) s) + 1, length (out @ [x]) + length (takeWhile (\<lambda>c. c \<noteq> SLASH) s))"
        "holds b1 ((out @ [x]) @ takeWhile (\<lambda>c. c \<noteq> SLASH) s) (src + 1 + length (takeWhile (\<lambda>c. c \<noteq> SLASH) s)) (c # r)"
        using Cons.IH(2)[OF x(2) w(2) refl] by blast
      then show ?thesis using holdsD(3)[OF 2(2)] False x(1) w(1) 2(3) by (subst np_copy.simps) simp
    qed
  }
qed

lemma np_back_ok:
  assumes "holds b (pre @ w) src s" "SLASH \<notin> set w" "pre = [] \<or> last pre = SLASH"
  shows "np_back b (length (pre @ w)) = Some (length pre)"
  using assms
proof (induction w rule: rev_induct)
  case Nil
  have t: "take (length pre) b = pre" "length pre < length b" using Nil(1) holdsD(5)[OF Nil(1)] by (simp_all add: holds_def)
  show ?case
  proof (cases pre rule: rev_cases)
    case (snoc p x)
    then have "b ! length p = SLASH" using t Nil(3) nth_take[of "length p" "length pre" b] by (simp add: nth_append)
    then show ?thesis using snoc t(2) by (simp add: rd_def)
  qed simp
next
  case (snoc x w)
  have t: "take (length (pre @ w @ [x])) b = pre @ w @ [x]" "length (pre @ w @ [x]) < length b"
    using snoc.prems(1) holdsD(5)[OF snoc.prems(1)] by (simp_all add: holds_def)
  then have "b ! length (pre @ w) = x" using nth_take[of "length (pre @ w)" "length (pre @ w @ [x])" b] by (simp add: nth_append)
  moreover have "holds b (pre @ w) src s" using snoc.prems(1) by (auto simp: holds_def dest: arg_cong[of _ _ "take (length (pre @ w))"])
  ultimately show ?case using snoc t(2) by (simp add: rd_def)
qed

section \<open>The loop walks the components\<close>

lemma comps_Nil [simp]: "comps [] = []"
  by (subst comps.simps) simp

lemma comps_skip [simp]: "comps (dropWhile (\<lambda>c. c = SLASH) s) = comps s"
proof -
  have "dropWhile (\<lambda>c. c = SLASH) (dropWhile (\<lambda>c. c = SLASH) s) = dropWhile (\<lambda>c. c = SLASH) s" by (rule dropWhile_idem)
  then show ?thesis unfolding comps.simps[of "dropWhile (\<lambda>c. c = SLASH) s"] comps.simps[of s] by simp
qed

lemma comps_slash [simp]: "comps (SLASH # s) = comps s"
  using comps_skip[of "SLASH # s"] comps_skip[of s] by simp

lemma comps_name:
  assumes "w \<noteq> []" "SLASH \<notin> set w"
  shows "comps w = [w]" "comps (w @ SLASH # s) = w # comps s"
proof -
  obtain x t where w: "w = x # t" "x \<noteq> SLASH" using assms by (cases w) auto
  have tw: "takeWhile (\<lambda>c. c \<noteq> SLASH) w = w" "dropWhile (\<lambda>c. c \<noteq> SLASH) w = []" using assms(2) by (auto simp: takeWhile_eq_all_conv)
  show "comps w = [w]" using w tw by (subst comps.simps) (auto simp: dropWhile_eq_Nil_conv[THEN iffD2])
  have "takeWhile (\<lambda>c. c \<noteq> SLASH) (w @ SLASH # s) = w" "dropWhile (\<lambda>c. c \<noteq> SLASH) (w @ SLASH # s) = SLASH # s"
    using assms(2) by (auto simp: takeWhile_append dropWhile_append)
  then show "comps (w @ SLASH # s) = w # comps s" using w by (subst comps.simps) auto
qed

text \<open>A directory name is not empty and has neither a slash nor a null byte.\<close>

definition name_ok :: "u8 list \<Rightarrow> bool" where
  "name_ok c \<longleftrightarrow> c \<noteq> [] \<and> SLASH \<notin> set c \<and> 0 \<notin> set c"

lemma opened_text_Cons: "opened_text (root, c # ds) = opened_text (root, ds) @ c @ [SLASH]"
  by (simp add: opened_text_def)

lemma opened_text_last: "opened_text p = [] \<or> last (opened_text p) = SLASH"
  by (cases p; cases "snd p") (auto simp: opened_text_def)

lemma opened_text_empty: "opened_text (root, ds) = [] \<longleftrightarrow> \<not> root \<and> ds = []"
  by (auto simp: opened_text_def)

lemma holds_prefix: "holds b (pre @ w) src s \<Longrightarrow> holds b pre src s"
  by (auto simp: holds_def dest: arg_cong[of _ _ "take (length pre)"])

text \<open>A name up to the next slash or the end.\<close>

lemma name_cases:
  obtains (ends) "s = []" | (slash) r where "s = SLASH # r"
  | (final) "s \<noteq> []" "SLASH \<notin> set s" | (name) w r where "w \<noteq> []" "SLASH \<notin> set w" "s = w @ SLASH # r"
proof (cases "SLASH \<in> set s")
  case True
  then obtain w r where "s = w @ SLASH # r" "SLASH \<notin> set w" by (meson split_list_first)
  then show ?thesis by (cases w) (auto intro: slash name)
next
  case False
  then show ?thesis by (cases s) (auto intro: ends final)
qed

lemma np_look_name:
  assumes h: "holds b out src (w @ s)" and w: "w \<noteq> []" "SLASH \<notin> set w" and s: "s = [] \<or> (\<exists>r. s = SLASH # r)"
  shows "np_look b src = Some (if w = [DOT] then (if s = [] then Copy (src + 1) else Skip (src + 1 + length (takeWhile (\<lambda>c. c = SLASH) s)))
     else if w = [DOT, DOT] then Up (src + 2 + length (takeWhile (\<lambda>c. c = SLASH) s)) else Copy src)"
proof -
  note r = holdsD(6)[OF h]
  have z: "0 \<notin> set w" using h by (simp add: holds_def)
  show ?thesis
  proof (cases "hd w = DOT")
    case False
    then have "rd b src = Some (hd w)" using r[of 0] w by (cases w) simp_all
    then show ?thesis using False w by (cases w) (auto simp: np_look_def)
  next
    case True
    then obtain t where t: "w = DOT # t" using w by (cases w) auto
    have r0: "rd b src = Some DOT" using r[of 0] t by simp
    show ?thesis
    proof (cases t)
      case Nil
      show ?thesis
      proof (cases s)
        case N: Nil
        then show ?thesis using r0 r[of 1] t Nil by (simp add: np_look_def)
      next
        case (Cons x r')
        have "holds b out (src + 2) r'" using holds_drop[of b out src "[DOT, SLASH]" r'] h t Nil Cons s by simp
        then show ?thesis using r0 r[of 1] t Nil Cons s np_skip_ok[of b out "src + 2" r'] by (auto simp: np_look_def)
      qed
    next
      case (Cons y u)
      have y: "y \<noteq> SLASH" "y \<noteq> 0" "rd b (src + 1) = Some y" using w z t Cons r[of 1] by auto
      show ?thesis
      proof (cases "y = DOT")
        case False
        then show ?thesis using r0 y t Cons by (simp add: np_look_def)
      next
        case True
        show ?thesis
        proof (cases u)
          case Nil
          show ?thesis
          proof (cases s)
            case N: Nil
            then show ?thesis using r0 y r[of 2] t Cons Nil True by (simp add: np_look_def)
          next
            case C: (Cons x r')
            have "holds b out (src + 3) r'"
              using holds_drop[of b out src "[DOT, DOT, SLASH]" r'] h t Cons Nil True C s by (simp add: eval_nat_numeral)
            then show ?thesis using r0 y r[of 2] t Cons Nil True C s np_skip_ok[of b out "src + 3" r'] by (auto simp: np_look_def)
          qed
        next
          case C: (Cons v u')
          have "v \<noteq> SLASH" "v \<noteq> 0" "rd b (src + 2) = Some v" using w z t Cons C r[of 2] by auto
          then show ?thesis using r0 y True t Cons C by (simp add: np_look_def)
        qed
      qed
    qed
  qed
qed

text \<open>What the loop started at a position \<open>p\<close> with the names \<open>cs\<close> ahead has to return.\<close>

definition walked :: "bool \<times> u8 list list \<Rightarrow> u8 list list \<Rightarrow> (u8 list \<times> nat) option option \<Rightarrow> bool" where
  "walked p cs r \<longleftrightarrow> (case walk p cs of None \<Rightarrow> r = Some None
     | Some q \<Rightarrow> list_all name_ok (snd q) \<and> (\<exists>b e n. r = Some (Some (b, length e)) \<and> holds b e n [] \<and> (e = opened_text q \<or> e = path_text q)))"

lemma walked_end:
  "holds b (opened_text p) n [] \<Longrightarrow> list_all name_ok (snd p) \<Longrightarrow> walked p [] (Some (Some (b, length (opened_text p))))"
  by (auto simp: walked_def)

lemma np_copy_end:
  assumes "holds b out src s" "SLASH \<notin> set s"
  shows "\<exists>b1. np_copy b src (length out) = Some (0, b1, src + length s + 1, length out + length s) \<and> holds b1 (out @ s) (src + length s) []"
  by (rule np_copy_ok(1)[OF assms(1) refl]) (use assms(2) in \<open>auto simp: dropWhile_eq_Nil_conv\<close>)

lemma np_copy_name:
  assumes "holds b out src (w @ SLASH # s)" "SLASH \<notin> set w"
  shows "\<exists>b1. np_copy b src (length out) = Some (SLASH, b1, src + length w + 1, length out + length w) \<and>
    holds b1 (out @ w) (src + length w) (SLASH # s)"
proof -
  have "takeWhile (\<lambda>c. c \<noteq> SLASH) (w @ SLASH # s) = w" "dropWhile (\<lambda>c. c \<noteq> SLASH) (w @ SLASH # s) = SLASH # s"
    using assms(2) by (auto simp: takeWhile_append dropWhile_append)
  then show ?thesis using np_copy_ok(2)[OF assms(1) refl, of SLASH s] by simp
qed

text \<open>Going up from a directory, as the loop does it in the text.\<close>

lemma np_up_ok:
  assumes h: "holds b (opened_text p) src s" and n: "list_all name_ok (snd p)" and e: "enter p [DOT, DOT] = Some q"
  shows "opened_text p \<noteq> []" "np_back b (length (opened_text p) - 1) = Some (length (opened_text q))"
    "holds b (opened_text q) src s" "list_all name_ok (snd q)"
proof -
  obtain root ds where p: "p = (root, ds)" by (cases p)
  have "opened_text p \<noteq> [] \<and> np_back b (length (opened_text p) - 1) = Some (length (opened_text q)) \<and>
    holds b (opened_text q) src s \<and> list_all name_ok (snd q)"
  proof (cases ds)
    case Nil
    then have q: "root" "q = (False, [])" using e p by (auto simp: enter_def split: if_splits)
    then show ?thesis using p Nil holds_prefix[of b "[]" "[SLASH]" src s] h by (simp add: opened_text_def)
  next
    case (Cons d es)
    then have q: "q = (root, es)" using e p by (simp add: enter_def)
    have o: "opened_text p = (opened_text q @ d) @ [SLASH]" using p Cons q by (simp add: opened_text_Cons)
    have h': "holds b (opened_text q @ d) src s" using h unfolding o by (rule holds_prefix)
    have d: "SLASH \<notin> set d" using n p Cons by (simp add: name_ok_def)
    show ?thesis using np_back_ok[OF h' d opened_text_last] holds_prefix[OF h'] n p Cons unfolding o by (simp add: q)
  qed
  then show "opened_text p \<noteq> []" "np_back b (length (opened_text p) - 1) = Some (length (opened_text q))"
    "holds b (opened_text q) src s" "list_all name_ok (snd q)" by auto
qed

lemma enter_up_None: "enter p [DOT, DOT] = None \<longleftrightarrow> opened_text p = []"
  by (cases p; cases "snd p") (auto simp: enter_def opened_text_def)

lemma np_loop_ok:
  assumes "holds b (opened_text p) src s" "chd s \<noteq> SLASH" "list_all name_ok (snd p)"
  shows "walked p (comps s) (np_loop b src (length (opened_text p)))"
  using assms
proof (induction "length s" arbitrary: b p src s rule: less_induct)
  case less
  note h = less.prems(1) and names = less.prems(3)
  obtain root ds where p: "p = (root, ds)" by (cases p)
  have up: "walked p ([DOT, DOT] # comps t) (np_loop b src (length (opened_text p)))"
    if look: "np_look b src = Some (Up n)" and t: "length t < length s" "chd t \<noteq> SLASH" "holds b (opened_text p) n t" for n t
  proof (cases "enter p [DOT, DOT]")
    case None
    then have "np_loop b src (length (opened_text p)) = Some None" using look enter_up_None[of p] by (subst np_loop.simps) simp
    then show ?thesis using None by (simp add: walked_def)
  next
    case (Some q)
    note u = np_up_ok[OF t(3) names Some]
    have "np_loop b src (length (opened_text p)) = np_loop b n (length (opened_text q))"
      using look u(1,2) by (subst np_loop.simps) simp
    moreover have "walked q (comps t) (np_loop b n (length (opened_text q)))" by (rule less.hyps[OF t(1) u(3) t(2) u(4)])
    ultimately show ?thesis using Some by (simp add: walked_def)
  qed
  have chd_skip: "chd (dropWhile (\<lambda>c. c = SLASH) t) \<noteq> SLASH" for t by (induction t) auto
  show ?case
  proof (cases s rule: name_cases)
    case ends
    have "np_look b src = Some (Copy src)" using holdsD(3)[OF h] ends by (simp add: np_look_def)
    moreover have "np_copy b src (length (opened_text p)) = Some (0, b, src + 1, length (opened_text p))"
      using holdsD(3)[OF h] ends by (subst np_copy.simps) simp
    ultimately have "np_loop b src (length (opened_text p)) = Some (Some (b, length (opened_text p)))" by (subst np_loop.simps) simp
    then show ?thesis using walked_end[of b p src] h names ends by simp
  next
    case slash
    then show ?thesis using less.prems(2) by simp
  next
    case final
    have h': "holds b (opened_text p) src (s @ [])" using h by simp
    note look = np_look_name[OF h' final, of]
    have c: "comps s = [s]" by (rule comps_name(1)[OF final])
    consider "s = [DOT]" | "s = [DOT, DOT]" | "s \<noteq> [DOT]" "s \<noteq> [DOT, DOT]" by blast
    then show ?thesis
    proof cases
      case 1
      have hs: "holds b (opened_text p) (src + 1) []" using holds_drop[of b "opened_text p" src "[DOT]" "[]"] h 1 by simp
      have "np_copy b (src + 1) (length (opened_text p)) = Some (0, b, src + 2, length (opened_text p))"
        using holdsD(3)[OF hs] by (subst np_copy.simps) simp
      then have "np_loop b src (length (opened_text p)) = Some (Some (b, length (opened_text p)))"
        using look 1 by (subst np_loop.simps) simp
      then show ?thesis using walked_end[OF hs names] c 1 by (simp add: walked_def enter_def p)
    next
      case 2
      have "holds b (opened_text p) (src + 2) []" using holds_drop[of b "opened_text p" src "[DOT, DOT]" "[]"] h 2 by simp
      then show ?thesis using up[of "src + 2" "[]"] look 2 c by simp
    next
      case 3
      obtain b1 where b1: "np_copy b src (length (opened_text p)) = Some (0, b1, src + length s + 1, length (opened_text p) + length s)"
        "holds b1 (opened_text p @ s) (src + length s) []"
        using np_copy_end[OF h final(2)] by blast
      have "np_loop b src (length (opened_text p)) = Some (Some (b1, length (opened_text p @ s)))"
        using look 3 b1(1) by (subst np_loop.simps) simp
      moreover have "opened_text p @ s = path_text (root, s # ds)" by (simp add: path_text_def p)
      moreover have "list_all name_ok (s # ds)" using names p final h by (simp add: name_ok_def holds_def)
      moreover have "walk p (comps s) = Some (root, s # ds)" using c 3 p by (simp add: enter_def)
      ultimately show ?thesis unfolding walked_def using b1(2) by auto
    qed
  next
    case (name w r)
    have h': "holds b (opened_text p) src (w @ (SLASH # r))" using h name(3) by simp
    note look = np_look_name[OF h' name(1,2)]
    have c: "comps s = w # comps r" unfolding name(3) by (rule comps_name(2)[OF name(1,2)])
    define t where "t = dropWhile (\<lambda>c. c = SLASH) r"
    have lt: "length t < length s" using length_dropWhile_le[of "\<lambda>c. c = SLASH" r] by (simp add: name(3) t_def)
    have ct: "comps t = comps r" "chd t \<noteq> SLASH" using chd_skip[of r] by (simp_all add: t_def)
    consider "w = [DOT]" | "w = [DOT, DOT]" | "w \<noteq> [DOT]" "w \<noteq> [DOT, DOT]" by blast
    then show ?thesis
    proof cases
      case 1
      have hr: "holds b (opened_text p) (src + 2) r" using holds_drop[of b "opened_text p" src "[DOT, SLASH]" r] h name(3) 1 by simp
      note sk = np_skip_holds(2)[OF hr, folded t_def]
      have "np_loop b src (length (opened_text p)) = np_loop b (src + 2 + length (takeWhile (\<lambda>c. c = SLASH) r)) (length (opened_text p))"
        using look 1 by (subst np_loop.simps) simp
      then show ?thesis using less.hyps[OF lt sk ct(2) names] c 1 ct(1) p by (simp add: walked_def enter_def)
    next
      case 2
      have hr: "holds b (opened_text p) (src + 3) r"
        using holds_drop[of b "opened_text p" src "[DOT, DOT, SLASH]" r] h name(3) 2 by (simp add: eval_nat_numeral)
      note sk = np_skip_holds(2)[OF hr, folded t_def]
      have "np_look b src = Some (Up (src + 3 + length (takeWhile (\<lambda>c. c = SLASH) r)))" using look 2 by (simp add: eval_nat_numeral)
      then show ?thesis using up[OF _ lt ct(2) sk] c 2 ct(1) by simp
    next
      case 3
      obtain b1 where b1: "np_copy b src (length (opened_text p)) = Some (SLASH, b1, src + length w + 1, length (opened_text p) + length w)"
        "holds b1 (opened_text p @ w) (src + length w) (SLASH # r)"
        using np_copy_name[OF h'] name(2) by blast
      note wr = holds_write[OF b1(2)]
      define b2 where "b2 = b1[length (opened_text p @ w) := SLASH]"
      have o: "opened_text (root, w # ds) = (opened_text p @ w) @ [SLASH]" by (simp add: opened_text_Cons p)
      have h2: "holds b2 (opened_text (root, w # ds)) (src + length w + 1) r" using wr(2) by (simp add: o b2_def)
      note sk = np_skip_holds[OF h2, folded t_def]
      have "np_loop b src (length (opened_text p)) =
          np_loop b2 (src + length w + 1 + length (takeWhile (\<lambda>c. c = SLASH) r)) (length (opened_text (root, w # ds)))"
        using look 3 b1(1) wr(1) sk(1) by (subst np_loop.simps) (simp add: b2_def o)
      moreover have "list_all name_ok (snd (root, w # ds))" using names p name h by (simp add: name_ok_def holds_def)
      ultimately show ?thesis
        using less.hyps[OF lt sk(2) ct(2)] c 3 ct(1) p by (simp add: walked_def enter_def)
    qed
  qed
qed

section \<open>The result\<close>

lemma path_str_cut: "0 \<notin> set e \<Longrightarrow> path_str (e @ 0 # r) = e"
  unfolding path_str_def by (subst takeWhile_append2) auto

lemma np_finish_ok:
  assumes h: "holds b e n []" and z: "0 \<notin> set e" "e \<noteq> []"
  shows "\<exists>b1. np_finish b (length e) = Some b1 \<and> path_str b1 = (if 1 < length e \<and> last e = SLASH then butlast e else e)"
proof -
  have l: "length e < length b" "take (length e) b = e" using holdsD(5)[OF h] h by (simp_all add: holds_def)
  define b1 where "b1 = b[length e := 0]"
  obtain r where b1: "b1 = e @ 0 # r" unfolding b1_def using l by (metis upd_conv_take_nth_drop)
  have w: "wr b (length e) 0 = Some b1" using l(1) by (simp add: wr_def b1_def)
  have lst: "rd b1 (length e - 1) = Some (last e)" using z(2) by (simp add: rd_def b1 nth_append last_conv_nth)
  show ?thesis
  proof (cases "1 < length e \<and> last e = SLASH")
    case True
    obtain f where e: "e = f @ [SLASH]" "f \<noteq> []" using True z(2) by (cases e rule: rev_cases) auto
    have "b1[length e - 1 := 0] = f @ 0 # 0 # r" unfolding b1 e(1) by (simp add: list_update_append)
    moreover have "rd (f @ 0 # 0 # r) 0 = Some (hd f)" "hd f \<noteq> 0" using e z(1) by (cases f; auto simp: rd_def)+
    moreover have "0 \<notin> set f" using z(1) e by simp
    ultimately show ?thesis using True w lst z(2) e path_str_cut[of f "0 # r"]
      by (auto simp: np_finish_def wr_def b1 rt_assert_def)
  next
    case False
    have "rd b1 0 = Some (hd e)" "hd e \<noteq> 0" using z by (cases e; auto simp: rd_def b1)+
    moreover have "\<not> (length e - 1 \<noteq> 0 \<and> last e = SLASH)" using False by auto
    ultimately show ?thesis using False w lst z path_str_cut[of e r]
      by (auto simp: np_finish_def rt_assert_def b1[symmetric])
  qed
qed

lemma texts_clean:
  assumes "list_all name_ok (snd p)"
  shows "0 \<notin> set (opened_text p)" "0 \<notin> set (path_text p)" "p \<noteq> (False, []) \<Longrightarrow> path_text p \<noteq> []"
    "1 < length (path_text p) \<Longrightarrow> last (path_text p) \<noteq> SLASH"
    "opened_text p = (if snd p = [] then path_text p else path_text p @ [SLASH])"
proof -
  show "0 \<notin> set (opened_text p)" using assms by (auto simp: opened_text_def list_all_iff name_ok_def)
  obtain root ds where p: "p = (root, ds)" by (cases p)
  show "0 \<notin> set (path_text p)" "p \<noteq> (False, []) \<Longrightarrow> path_text p \<noteq> []" "1 < length (path_text p) \<Longrightarrow> last (path_text p) \<noteq> SLASH"
    "opened_text p = (if snd p = [] then path_text p else path_text p @ [SLASH])"
    using assms p
    by (cases ds; auto simp: path_text_def opened_text_def name_ok_def list_all_iff last_append dest: last_in_set)+
qed

text \<open>\<open>dfs_normalize_path\<close> computes the normal form of the full path.\<close>

lemma walk_names: "list_all name_ok cs \<Longrightarrow> list_all name_ok (snd p) \<Longrightarrow> walk p cs = Some q \<Longrightarrow> list_all name_ok (snd q)"
proof (induction cs arbitrary: p)
  case (Cons c cs)
  obtain r where r: "enter p c = Some r" "walk r cs = Some q" using Cons.prems(3) by (auto split: option.splits)
  have "list_all name_ok (snd r)" using r(1) Cons.prems(1,2) by (auto simp: enter_def split: prod.splits if_splits list.splits)
  then show ?case using Cons r(2) by simp
qed simp

lemma normalize_loop:
  assumes "0 \<notin> set s"
  shows "walked (chd s = SLASH, []) (comps s) (np_loop (s @ [0]) 0 0)"
proof (cases "chd s = SLASH")
  case False
  have "holds (s @ [0]) (opened_text (False, [])) 0 s" using assms by (simp add: holds_def opened_text_def)
  then show ?thesis using np_loop_ok[of "s @ [0]" "(False, [])" 0 s] False by (simp add: opened_text_def)
next
  case True
  then obtain t where s: "s = SLASH # t" by (cases s) auto
  define b where "b = SLASH # t @ [0]"
  define u where "u = dropWhile (\<lambda>c. c = SLASH) t"
  have h1: "holds b (opened_text (True, [])) 1 t" using assms by (simp add: holds_def b_def opened_text_def s)
  note sk = np_skip_holds[OF h1, folded u_def]
  have "chd u \<noteq> SLASH" unfolding u_def by (induction t) auto
  then have w: "walked (True, []) (comps u) (np_loop b (1 + length (takeWhile (\<lambda>c. c = SLASH) t)) (length (opened_text (True, []))))"
    by (intro np_loop_ok[OF sk(2)]) simp_all
  have "rd b 0 = Some SLASH" by (simp add: rd_def b_def)
  then have "np_look b 0 = Some (Copy 0)" "np_copy b 0 0 = Some (SLASH, b, 1, 0)" "wr b 0 SLASH = Some b"
    by (simp_all add: np_look_def np_copy.simps wr_def b_def)
  then have "np_loop b 0 0 = np_loop b (1 + length (takeWhile (\<lambda>c. c = SLASH) t)) 1"
    using sk(1) by (subst np_loop.simps) simp
  then show ?thesis using w s by (simp add: b_def u_def opened_text_def)
qed

definition full_path :: "u8 list option \<Rightarrow> u8 list option \<Rightarrow> u8 list \<Rightarrow> u8 list option" where
  "full_path wd directory filename =
    (if chd filename = SLASH then Some filename
     else map_option (\<lambda>d. d @ [SLASH] @ filename) (if directory = None then wd else directory))"

lemma dfs_normalize_path_ok:
  assumes "full_path wd directory filename = Some s" "0 \<notin> set s" "normal_form s = Some r"
  shows "dfs_normalize_path wd True directory filename = Some r"
proof -
  let ?p = "(chd s = SLASH, [])"
  have full: "dfs_normalize_path wd True directory filename = do {
           r \<leftarrow> np_loop (s @ [0]) 0 0;
           (case r of None \<Rightarrow> Some None
            | Some (b, dst) \<Rightarrow> do { b1 \<leftarrow> np_finish b dst; Some (Some (path_str b1)) })
         }"
    using assms(1) by (cases directory) (auto simp: dfs_normalize_path_def full_path_def Let_def split: if_splits)
  have w: "walked ?p (comps s) (np_loop (s @ [0]) 0 0)" by (rule normalize_loop[OF assms(2)])
  show ?thesis
  proof (cases "walk ?p (comps s)")
    case None
    then show ?thesis using w full assms(3) by (simp add: walked_def normal_form_def)
  next
    case (Some q)
    then obtain b e n where q: "list_all name_ok (snd q)" "np_loop (s @ [0]) 0 0 = Some (Some (b, length e))" "holds b e n []"
      "e = opened_text q \<or> e = path_text q"
      using w by (auto simp: walked_def)
    have nq: "q \<noteq> (False, [])" "r = Some (path_text q)" using assms(3) Some by (auto simp: normal_form_def split: if_splits)
    note t = texts_clean[OF q(1)]
    have pt: "path_text q \<noteq> []" by (rule t(3)[OF nq(1)])
    have e: "0 \<notin> set e" "e \<noteq> []" using q(4) t(1,2,5) pt by (auto split: if_splits)
    obtain b1 where b1: "np_finish b (length e) = Some b1" "path_str b1 = (if 1 < length e \<and> last e = SLASH then butlast e else e)"
      using np_finish_ok[OF q(3) e] by blast
    have "path_str b1 = path_text q" using b1(2) q(4) t(4,5) pt by (auto split: if_splits simp: Suc_le_eq)
    then show ?thesis using full q(2) b1(1) nq(2) by simp
  qed
qed

section \<open>Normal forms are canonical\<close>

definition plain_name :: "u8 list \<Rightarrow> bool" where
  "plain_name c \<longleftrightarrow> name_ok c \<and> c \<noteq> [DOT] \<and> c \<noteq> [DOT, DOT]"

lemma walk_plain: "list_all plain_name cs \<Longrightarrow> walk (root, ds) cs = Some (root, rev cs @ ds)"
  by (induction cs arbitrary: ds) (auto simp: enter_def plain_name_def)

lemma enter_plain:
  "enter p c = Some q \<Longrightarrow> name_ok c \<Longrightarrow> list_all plain_name (snd p) \<Longrightarrow> list_all plain_name (snd q)"
  by (auto simp: enter_def plain_name_def split: prod.splits if_splits list.splits)

lemma walk_keeps_plain:
  "list_all name_ok cs \<Longrightarrow> list_all plain_name (snd p) \<Longrightarrow> walk p cs = Some q \<Longrightarrow> list_all plain_name (snd q)"
proof (induction cs arbitrary: p)
  case (Cons c cs)
  obtain r where "enter p c = Some r" "walk r cs = Some q" using Cons.prems(3) by (auto split: option.splits)
  then show ?case using Cons enter_plain by fastforce
qed simp

lemma plain_names_ok: "list_all plain_name cs \<Longrightarrow> list_all name_ok cs"
  by (auto simp: list_all_iff plain_name_def)

lemma comps_names: "0 \<notin> set s \<Longrightarrow> list_all name_ok (comps s)"
proof (induction s rule: comps.induct)
  case (1 s)
  show ?case
  proof (cases "dropWhile (\<lambda>c. c = SLASH) s")
    case Nil
    then show ?thesis by (simp add: comps.simps[of s] del: dropWhile_eq_Nil_conv)
  next
    case (Cons c t)
    have z: "0 \<notin> set (c # t)" using 1(2) set_dropWhileD[of _ "\<lambda>c. c = SLASH" s] Cons by metis
    have c: "c \<noteq> SLASH" using hd_dropWhile[of "\<lambda>c. c = SLASH" s] Cons by simp
    have "name_ok (takeWhile (\<lambda>c. c \<noteq> SLASH) (c # t))" using z c by (auto simp: name_ok_def dest: set_takeWhileD)
    moreover have "0 \<notin> set (dropWhile (\<lambda>c. c \<noteq> SLASH) (c # t))" using z set_dropWhileD by metis
    ultimately show ?thesis using 1(1)[OF Cons] Cons by (subst comps.simps) (simp del: takeWhile.simps dropWhile.simps)
  qed
qed

lemma comps_opened: "list_all name_ok ds \<Longrightarrow> comps (opened_text (root, ds) @ t) = rev ds @ comps t"
proof (induction ds arbitrary: t)
  case Nil
  then show ?case by (simp add: opened_text_def)
next
  case (Cons d ds)
  have "comps (d @ SLASH # t) = d # comps t" by (rule comps_name(2)) (use Cons.prems in \<open>auto simp: name_ok_def\<close>)
  then show ?case using Cons by (simp add: opened_text_Cons)
qed

lemma comps_path_text: "list_all name_ok (snd p) \<Longrightarrow> comps (path_text p) = rev (snd p)"
proof -
  assume n: "list_all name_ok (snd p)"
  obtain root ds where p: "p = (root, ds)" by (cases p)
  show ?thesis
  proof (cases ds)
    case Nil
    then show ?thesis using comps_opened[of "[]" root "[]"] p by (simp add: path_text_def)
  next
    case (Cons d es)
    have "comps d = [d]" by (rule comps_name(1)) (use n p Cons in \<open>auto simp: name_ok_def\<close>)
    then show ?thesis using comps_opened[of es root d] n p Cons by (simp add: path_text_def)
  qed
qed

lemma path_text_root: "list_all name_ok (snd p) \<Longrightarrow> chd (path_text p) = SLASH \<longleftrightarrow> fst p"
proof -
  assume n: "list_all name_ok (snd p)"
  obtain root ds where p: "p = (root, ds)" by (cases p)
  show ?thesis
  proof (cases root)
    case True
    then show ?thesis using p by (cases ds) (simp_all add: path_text_def opened_text_def)
  next
    case False
    have nm: "c \<noteq> [] \<and> SLASH \<notin> set c" if "c \<in> set ds" for c using that n p by (auto simp: list_all_iff name_ok_def)
    then have ch: "chd (c @ u) \<noteq> SLASH" if "c \<in> set ds" for c u using that by (cases c) force+
    show ?thesis
    proof (cases ds)
      case Nil
      then show ?thesis using False p by (simp add: path_text_def opened_text_def)
    next
      case (Cons d es)
      show ?thesis
      proof (cases "rev es")
        case Nil
        then show ?thesis using False p Cons ch[of d "[]"] by (simp add: path_text_def opened_text_def)
      next
        case C: (Cons c cs)
        then have "c \<in> set ds" using Cons by (metis list.set_intros(1,2) set_rev)
        then show ?thesis using False p Cons C ch[of c "SLASH # concat (map (\<lambda>c. c @ [SLASH]) cs) @ d"]
          by (simp add: path_text_def opened_text_def)
      qed
    qed
  qed
qed

lemma normal_form_fix:
  assumes "normal_form s = Some (Some t)" "0 \<notin> set s"
  shows "normal_form t = Some (Some t)" "list_all plain_name (comps t)" "0 \<notin> set t"
proof -
  let ?p = "(chd s = SLASH, []) :: bool \<times> u8 list list"
  obtain q where q: "walk ?p (comps s) = Some q" "q \<noteq> (False, [])" "t = path_text q"
    using assms(1) by (auto simp: normal_form_def split: option.splits if_splits)
  have n: "list_all plain_name (snd q)" by (rule walk_keeps_plain[OF comps_names[OF assms(2)] _ q(1)]) simp
  have nn: "list_all name_ok (snd q)" by (rule plain_names_ok[OF n])
  have c: "comps t = rev (snd q)" unfolding q(3) by (rule comps_path_text[OF nn])
  then show "list_all plain_name (comps t)" using n by simp
  then have "walk (chd t = SLASH, []) (comps t) = Some (chd t = SLASH, rev (comps t))" using walk_plain[of "comps t"] by simp
  then show "normal_form t = Some (Some t)" using q(2,3) c path_text_root[OF nn] by (simp add: normal_form_def)
  show "0 \<notin> set t" unfolding q(3) by (rule texts_clean(2)[OF nn])
qed

text \<open>A path that stays below the root becomes the path of the directory it leads to.\<close>

lemma dfs_normalize_below_root:
  assumes a: "chd path = SLASH" "0 \<notin> set path" and w: "walk (True, []) (comps path) = Some (True, ds)"
  shows "\<exists>t. dfs_normalize_path wd True directory path = Some (Some t) \<and> chd t = SLASH \<and> comps t = rev ds \<and>
    list_all plain_name (comps t) \<and> dfs_normalize_path wd True directory t = Some (Some t)"
proof -
  define t where "t = path_text (True, ds)"
  have nf: "normal_form path = Some (Some t)" using a(1) w by (simp add: normal_form_def t_def)
  have f: "full_path wd directory path = Some path" using a(1) by (simp add: full_path_def)
  note fx = normal_form_fix[OF nf a(2)]
  have "list_all plain_name ds" using walk_keeps_plain[OF comps_names[OF a(2)] _ w] by simp
  then have n: "list_all name_ok (snd (True, ds))" using plain_names_ok by simp
  have r: "chd t = SLASH" using path_text_root[OF n] by (simp add: t_def)
  then have f': "full_path wd directory t = Some t" by (simp add: full_path_def)
  show ?thesis
    using dfs_normalize_path_ok[OF f a(2) nf] dfs_normalize_path_ok[OF f' fx(3) fx(1)] fx(2) r comps_path_text[OF n]
    by (simp add: t_def)
qed

text \<open>
  Leaving the root is not refused: the rest of the path becomes a relative path. A path that ends
  there makes the function read in front of its buffer.
\<close>

lemma dfs_normalize_leaves_root:
  assumes "list_all plain_name cs" "cs \<noteq> []" "comps s = [DOT, DOT] # cs" "chd s = SLASH" "0 \<notin> set s"
  shows "\<exists>t. dfs_normalize_path wd True directory s = Some (Some t) \<and> chd t \<noteq> SLASH \<and> comps t = cs"
proof -
  have w: "walk (True, []) (comps s) = Some (False, rev cs)" using assms(1,3) walk_plain[of cs False "[]"] by (simp add: enter_def)
  then have nf: "normal_form s = Some (Some (path_text (False, rev cs)))" using assms(2,4) by (simp add: normal_form_def)
  have f: "full_path wd directory s = Some s" using assms(4) by (simp add: full_path_def)
  have n: "list_all name_ok (snd (False, rev cs))" using plain_names_ok[OF assms(1)] by simp
  show ?thesis using dfs_normalize_path_ok[OF f assms(5) nf] path_text_root[OF n] comps_path_text[OF n] by simp
qed

lemma dfs_normalize_root_up: "dfs_normalize_path wd True directory [SLASH, DOT, DOT] = None"
proof -
  have w: "walked (True, []) (comps [SLASH, DOT, DOT]) (np_loop ([SLASH, DOT, DOT] @ [0]) 0 0)"
    using normalize_loop[of "[SLASH, DOT, DOT]"] by simp
  have "comps [SLASH, DOT, DOT] = [[DOT, DOT]]" using comps_name(1)[of "[DOT, DOT]"] by simp
  then obtain b e where "np_loop ([SLASH, DOT, DOT] @ [0]) 0 0 = Some (Some (b, length e))" "e = opened_text (False, []) \<or> e = path_text (False, [])"
    using w by (auto simp: walked_def enter_def)
  then have "np_loop ([SLASH, DOT, DOT] @ [0]) 0 0 = Some (Some (b, 0))" by (auto simp: opened_text_def path_text_def)
  then show ?thesis by (simp add: dfs_normalize_path_def np_finish_def rt_assert_def Let_def)
qed

text \<open>Below a directory that is a prefix of the file name, the part from the separating slash on.\<close>

lemma dfs_subdir_ok:
  "dfs_subdir d d = Some None"
  "dfs_subdir d (d @ SLASH # r) = Some (Some (length d))"
  "d \<noteq> [] \<Longrightarrow> r \<noteq> [] \<Longrightarrow> hd r \<noteq> SLASH \<Longrightarrow> dfs_subdir d (d @ r) = Some (Some (length d - 1))"
  by (auto simp: dfs_subdir_def rd_def nth_append hd_conv_nth)

end
