(* ===== verification/Dfs.thy ===== *)
theory Dfs
  imports DfsPath Device Mutex "HOL-Library.Sublist"
begin

text \<open>
  The tables of the device file system: file descriptors (\<open>components/dfs/src/dfs.c\<close>), the
  registered file systems and the mounts (\<open>dfs_fs.c\<close>). What a file system does is an argument of
  the operations, as for device drivers. The lock of the file system is a recursive mutex; a
  section under it is one step here.
\<close>

unbundle bit_operations_syntax

section \<open>State\<close>

definition DFS_FILESYSTEMS_MAX :: nat where "DFS_FILESYSTEMS_MAX = 2"
definition DFS_FILESYSTEM_TYPES_MAX :: nat where "DFS_FILESYSTEM_TYPES_MAX = 2"
definition DFS_FD_MAX :: nat where "DFS_FD_MAX = 4"
definition DFS_FD_OFFSET :: nat where "DFS_FD_OFFSET = 3"
definition DFS_FD_MAGIC :: u16 where "DFS_FD_MAGIC = 0xfdfd"
definition DFS_FS_FLAG_FULLPATH :: u32 where "DFS_FS_FLAG_FULLPATH = 0x01"
definition FT_REGULAR :: u16 where "FT_REGULAR = 0"
definition FT_DIRECTORY :: u16 where "FT_DIRECTORY = 2"
definition DFS_F_OPEN :: u32 where "DFS_F_OPEN = 0x01000000"
definition DFS_F_DIRECTORY :: u32 where "DFS_F_DIRECTORY = 0x02000000"
definition DFS_F_EOF :: u32 where "DFS_F_EOF = 0x04000000"

definition ENOENT :: rt_err where "ENOENT = 2"
definition EIO :: rt_err where "EIO = 5"
definition ENXIO :: rt_err where "ENXIO = 6"
definition EBADF :: rt_err where "EBADF = 9"
definition ENOMEM :: rt_err where "ENOMEM = 12"
definition EBUSY :: rt_err where "EBUSY = 16"
definition EEXIST :: rt_err where "EEXIST = 17"
definition EXDEV :: rt_err where "EXDEV = 18"
definition ENODEV :: rt_err where "ENODEV = 19"
definition ENOTDIR :: rt_err where "ENOTDIR = 20"
definition ENOSPC :: rt_err where "ENOSPC = 28"
definition ENOSYS :: rt_err where "ENOSYS = 38"

text \<open>The private data of a descriptor: the mount it was opened in, or what the file system put there.\<close>

datatype dfs_ptr = Mount nat | Addr nat

text \<open>A mounted file system, by the indices of its device and its operations.\<close>

record mfs =
  fs_dev :: "nat option"
  fs_path :: "u8 list option"
  fs_ops :: "nat option"
  fs_data :: nat

record dfd =
  fd_magic :: u16
  fd_type :: u16
  fd_path :: "u8 list option"
  fd_ref :: int
  fd_fs :: "nat option"
  fd_fops :: "nat option"
  fd_flags :: u32
  fd_size :: u32
  fd_pos :: int
  fd_data :: dfs_ptr

text \<open>The fields of a file's status that are set here, and a directory stream with its buffer of entries.\<close>

record stat_buf =
  st_dev :: "nat option"
  st_mode :: u16
  st_size :: u32
  st_mtime :: int

record dfs_dir =
  dir_fd :: int
  dir_buf :: "u8 list"
  dir_num :: int
  dir_cur :: int

record kdfs = kdev +
  d_types :: "nat \<Rightarrow> nat option"
  d_table :: "nat \<Rightarrow> mfs"
  d_fds :: "nat option list"
  d_heap :: "nat \<Rightarrow> dfd option"
  d_wd :: "u8 list option"
  d_stat :: "nat \<Rightarrow> stat_buf"
  d_dirs :: "nat \<Rightarrow> dfs_dir option"
  d_init :: bool

definition mfs_zero :: mfs where
  "mfs_zero = \<lparr>fs_dev = None, fs_path = None, fs_ops = None, fs_data = 0\<rparr>"

definition dfd_zero :: dfd where
  "dfd_zero = \<lparr>fd_magic = 0, fd_type = 0, fd_path = None, fd_ref = 0, fd_fs = None, fd_fops = None,
    fd_flags = 0, fd_size = 0, fd_pos = 0, fd_data = Addr 0\<rparr>"

text \<open>The operations a file system has on its open files and on itself; a mount is given by its index.\<close>

record 'k file_ops =
  fop_open :: "(nat \<Rightarrow> 'k \<Rightarrow> int \<times> 'k) option"
  fop_close :: "(nat \<Rightarrow> 'k \<Rightarrow> int \<times> 'k) option"
  fop_ioctl :: "(nat \<Rightarrow> int \<Rightarrow> u32 \<Rightarrow> 'k \<Rightarrow> int \<times> 'k) option"
  fop_read :: "(nat \<Rightarrow> nat \<Rightarrow> u32 \<Rightarrow> 'k \<Rightarrow> int \<times> 'k) option"
  fop_write :: "(nat \<Rightarrow> nat \<Rightarrow> u32 \<Rightarrow> 'k \<Rightarrow> int \<times> 'k) option"
  fop_flush :: "(nat \<Rightarrow> 'k \<Rightarrow> int \<times> 'k) option"
  fop_lseek :: "(nat \<Rightarrow> int \<Rightarrow> 'k \<Rightarrow> int \<times> 'k) option"
  fop_getdents :: "(nat \<Rightarrow> nat \<Rightarrow> u32 \<Rightarrow> 'k \<Rightarrow> int \<times> 'k) option"

record 'k fs_ops =
  fo_name :: "u8 list"
  fo_flags :: u32
  fo_fops :: nat
  fo_mount :: "(nat \<Rightarrow> u32 \<Rightarrow> nat \<Rightarrow> 'k \<Rightarrow> int \<times> 'k) option"
  fo_unmount :: "(nat \<Rightarrow> 'k \<Rightarrow> int \<times> 'k) option"
  fo_mkfs :: "(nat \<Rightarrow> 'k \<Rightarrow> int \<times> 'k) option"
  fo_statfs :: "(nat \<Rightarrow> nat \<Rightarrow> 'k \<Rightarrow> int \<times> 'k) option"
  fo_unlink :: "(nat \<Rightarrow> u8 list \<Rightarrow> 'k \<Rightarrow> int \<times> 'k) option"
  fo_stat :: "(nat \<Rightarrow> u8 list \<Rightarrow> nat \<Rightarrow> 'k \<Rightarrow> int \<times> 'k) option"
  fo_rename :: "(nat \<Rightarrow> u8 list option \<Rightarrow> u8 list option \<Rightarrow> 'k \<Rightarrow> int \<times> 'k) option"

text \<open>Everything that is installed from outside: device drivers, file systems and their file operations.\<close>

record 'k dfs_env =
  en_dev :: "nat \<Rightarrow> 'k dev_ops"
  en_fs :: "nat \<Rightarrow> 'k fs_ops"
  en_file :: "nat \<Rightarrow> 'k file_ops"

definition upd_fd :: "nat \<Rightarrow> (dfd \<Rightarrow> dfd) \<Rightarrow> 'a kdfs_scheme \<Rightarrow> 'a kdfs_scheme option" where
  "upd_fd p f k = map_option (\<lambda>d. k\<lparr>d_heap := (d_heap k)(p \<mapsto> f d)\<rparr>) (d_heap k p)"

definition set_fs :: "nat \<Rightarrow> mfs \<Rightarrow> 'a kdfs_scheme \<Rightarrow> 'a kdfs_scheme" where
  "set_fs i m k = k\<lparr>d_table := (d_table k)(i := m)\<rparr>"

text \<open>Initialisation, once; \<open>fslock\<close> is the mutex of the file system.\<close>

definition dfs_init :: "nat \<Rightarrow> 'a kdfs_scheme \<Rightarrow> (int \<times> 'a kdfs_scheme) option" where
  "dfs_init fslock k =
    (if d_init k then Some (0, k)
     else do {
       (_, k1) \<leftarrow> rt_mutex_init fslock [102, 115, 108, 111, 99, 107] RT_IPC_FLAG_FIFO
         (k\<lparr>d_types := (\<lambda>_. None), d_table := (\<lambda>_. mfs_zero), d_fds := []\<rparr>);
       Some (0, k1\<lparr>d_wd := map_option (\<lambda>_. [SLASH]) (d_wd k1), d_init := True\<rparr>)
     })"

section \<open>File descriptors\<close>

text \<open>The first entry that is null or whose descriptor is unused; the end of the table if there is none.\<close>

fun fd_scan :: "(nat \<Rightarrow> dfd option) \<Rightarrow> nat option list \<Rightarrow> nat \<Rightarrow> nat option" where
  "fd_scan h [] i = Some i"
| "fd_scan h (None # ps) i = Some i"
| "fd_scan h (Some p # ps) i = do { d \<leftarrow> h p; if fd_ref d = 0 then Some i else fd_scan h ps (Suc i) }"

text \<open>\<open>room\<close> tells whether the table can grow and \<open>mem\<close> is the memory the heap gave for a descriptor.\<close>

definition fd_alloc :: "nat \<Rightarrow> bool \<Rightarrow> nat option \<Rightarrow> 'a kdfs_scheme \<Rightarrow> (nat \<times> 'a kdfs_scheme) option" where
  "fd_alloc startfd room mem k = do {
     idx \<leftarrow> fd_scan (d_heap k) (drop startfd (d_fds k)) startfd;
     let maxfd = length (d_fds k);
     let grow = (idx = maxfd \<and> maxfd < DFS_FD_MAX);
     if grow \<and> \<not> room then Some (idx, k)
     else do {
       let k1 = (if grow then k\<lparr>d_fds := d_fds k @ replicate (min (maxfd + 4) DFS_FD_MAX - maxfd) None\<rparr> else k);
       Some (if idx < length (d_fds k1) \<and> d_fds k1 ! idx = None
         then (case mem of
             None \<Rightarrow> (length (d_fds k1), k1)
           | Some p \<Rightarrow> (idx, k1\<lparr>d_fds := (d_fds k1)[idx := Some p], d_heap := (d_heap k1)(p \<mapsto> dfd_zero)\<rparr>))
         else (idx, k1))
     }
   }"

definition fd_new :: "bool \<Rightarrow> nat option \<Rightarrow> 'a kdfs_scheme \<Rightarrow> (int \<times> 'a kdfs_scheme) option" where
  "fd_new room mem k = do {
     (idx, k1) \<leftarrow> fd_alloc 0 room mem k;
     if idx = length (d_fds k1) then Some (- (1 + int DFS_FD_OFFSET) + int DFS_FD_OFFSET, k1)
     else do {
       p \<leftarrow> d_fds k1 ! idx;
       k2 \<leftarrow> upd_fd p (\<lambda>d. d\<lparr>fd_ref := 1, fd_magic := DFS_FD_MAGIC\<rparr>) k1;
       Some (int idx + int DFS_FD_OFFSET, k2)
     }
   }"

definition fd_get :: "int \<Rightarrow> 'a kdfs_scheme \<Rightarrow> (nat option \<times> 'a kdfs_scheme) option" where
  "fd_get fd k =
    (let i = fd - int DFS_FD_OFFSET in
     if i < 0 \<or> int (length (d_fds k)) \<le> i then Some (None, k)
     else (case d_fds k ! nat i of
         None \<Rightarrow> Some (None, k)
       | Some p \<Rightarrow> do {
           d \<leftarrow> d_heap k p;
           if fd_magic d \<noteq> DFS_FD_MAGIC then Some (None, k)
           else do { k1 \<leftarrow> upd_fd p (\<lambda>d. d\<lparr>fd_ref := fd_ref d + 1\<rparr>) k; Some (Some p, k1) }
         }))"

text \<open>Taking a descriptor out of the table: the first entry that points to it.\<close>

fun fd_clear :: "nat \<Rightarrow> nat option list \<Rightarrow> nat option list" where
  "fd_clear p [] = []"
| "fd_clear p (e # es) = (if e = Some p then None # es else e # fd_clear p es)"

definition fd_put :: "nat \<Rightarrow> 'a kdfs_scheme \<Rightarrow> 'a kdfs_scheme option" where
  "fd_put p k = do {
     k1 \<leftarrow> upd_fd p (\<lambda>d. d\<lparr>fd_ref := fd_ref d - 1\<rparr>) k;
     d \<leftarrow> d_heap k1 p;
     Some (if fd_ref d = 0 \<and> Some p \<in> set (d_fds k1)
       then k1\<lparr>d_fds := fd_clear p (d_fds k1), d_heap := (d_heap k1)(p := None)\<rparr> else k1)
   }"

section \<open>File system types and mounts\<close>

text \<open>The first free entry before the entry of that name, and whether there is such an entry.\<close>

fun reg_scan :: "('k dfs_env) \<Rightarrow> u8 list \<Rightarrow> (nat \<Rightarrow> nat option) \<Rightarrow> nat list \<Rightarrow> nat option \<Rightarrow> nat option \<times> bool" where
  "reg_scan env name t [] e = (e, False)"
| "reg_scan env name t (i # is) e =
    (case t i of
       None \<Rightarrow> reg_scan env name t is (if e = None then Some i else e)
     | Some q \<Rightarrow> if fo_name (en_fs env q) = name then (e, True) else reg_scan env name t is e)"

definition dfs_register :: "'a kdfs_scheme dfs_env \<Rightarrow> nat \<Rightarrow> 'a kdfs_scheme \<Rightarrow> int \<times> 'a kdfs_scheme" where
  "dfs_register env ops k =
    (let (empty, dup) = reg_scan env (fo_name (en_fs env ops)) (d_types k) [0..<DFS_FILESYSTEM_TYPES_MAX] None;
         k1 = (if dup then rt_set_errno (- EEXIST) k else k) in
     case empty of
       None \<Rightarrow> (-1, rt_set_errno (- ENOSPC) k1)
     | Some i \<Rightarrow> if dup then (-1, k1) else (RT_EOK, k1\<lparr>d_types := (d_types k1)(i := Some ops)\<rparr>))"

definition lookup_step :: "(nat \<Rightarrow> mfs) \<Rightarrow> u8 list \<Rightarrow> nat option \<times> nat \<Rightarrow> nat \<Rightarrow> nat option \<times> nat" where
  "lookup_step t path r i =
    (case (fs_path (t i), fs_ops (t i)) of
       (Some p, Some _) \<Rightarrow>
         if length p < snd r \<or> take (length p) path \<noteq> p then r
         else if length p > 1 \<and> length path > length p \<and> path ! length p \<noteq> SLASH then r
         else (Some i, length p)
     | _ \<Rightarrow> r)"

definition dfs_filesystem_lookup :: "u8 list \<Rightarrow> 'a kdfs_scheme \<Rightarrow> nat option" where
  "dfs_filesystem_lookup path k = fst (foldl (lookup_step (d_table k) path) (None, 0) [0..<DFS_FILESYSTEMS_MAX])"

definition dfs_filesystem_get_mounted_path :: "nat option \<Rightarrow> 'a kdfs_scheme \<Rightarrow> u8 list option" where
  "dfs_filesystem_get_mounted_path device k =
    (case find (\<lambda>i. fs_ops (d_table k i) \<noteq> None \<and> fs_dev (d_table k i) = device) [0..<DFS_FILESYSTEMS_MAX] of
       None \<Rightarrow> None | Some i \<Rightarrow> fs_path (d_table k i))"

text \<open>The first registered file system of a name.\<close>

definition find_type :: "'k dfs_env \<Rightarrow> u8 list \<Rightarrow> (nat \<Rightarrow> nat option) \<Rightarrow> nat option" where
  "find_type env name t =
    (case find (\<lambda>i. case t i of None \<Rightarrow> False | Some q \<Rightarrow> fo_name (en_fs env q) = name) [0..<DFS_FILESYSTEM_TYPES_MAX] of
       None \<Rightarrow> None | Some i \<Rightarrow> t i)"

section \<open>Open files\<close>

text \<open>The name of a file below a mount point, as most file systems are given it.\<close>

definition below_mount :: "u8 list \<Rightarrow> u8 list \<Rightarrow> u8 list option" where
  "below_mount mp full = map_option (\<lambda>r. case r of None \<Rightarrow> [SLASH] | Some j \<Rightarrow> drop j full) (dfs_subdir mp full)"

definition O_DIRECTORY :: u32 where "O_DIRECTORY = 0x10000"
definition O_RDONLY :: u32 where "O_RDONLY = 0"

text \<open>\<open>mem\<close> and \<open>dup\<close> tell whether there is memory for the full path and for its copy.\<close>

definition dfs_file_open ::
    "'a kdfs_scheme dfs_env \<Rightarrow> bool \<Rightarrow> bool \<Rightarrow> nat option \<Rightarrow> u8 list \<Rightarrow> u32 \<Rightarrow> 'a kdfs_scheme \<Rightarrow> (int \<times> 'a kdfs_scheme) option" where
  "dfs_file_open env mem dup fd path flags k =
    (case fd of None \<Rightarrow> Some (- EINVAL, k)
     | Some p \<Rightarrow> do {
         full \<leftarrow> dfs_normalize_path (d_wd k) mem None path;
         (case full of None \<Rightarrow> Some (- ENOMEM, k)
          | Some fullpath \<Rightarrow>
              (case dfs_filesystem_lookup fullpath k of None \<Rightarrow> Some (- ENOENT, k)
               | Some i \<Rightarrow> do {
                   fo \<leftarrow> map_option (en_fs env) (fs_ops (d_table k i));
                   mp \<leftarrow> fs_path (d_table k i);
                   name \<leftarrow> (if fo_flags fo AND DFS_FS_FLAG_FULLPATH \<noteq> 0 then Some (Some fullpath)
                           else map_option (\<lambda>s. if dup then Some s else None) (below_mount mp fullpath));
                   k1 \<leftarrow> upd_fd p (\<lambda>d. d\<lparr>fd_fs := Some i, fd_fops := Some (fo_fops fo), fd_type := FT_REGULAR,
                           fd_flags := flags, fd_size := 0, fd_pos := 0, fd_data := Mount i, fd_path := name\<rparr>) k;
                   (case fop_open (en_file env (fo_fops fo)) of
                      None \<Rightarrow> do { k2 \<leftarrow> upd_fd p (\<lambda>d. d\<lparr>fd_path := None\<rparr>) k1; Some (- ENOSYS, k2) }
                    | Some f \<Rightarrow> do {
                        let (result, k2) = f p k1;
                        if result < 0 then do { k3 \<leftarrow> upd_fd p (\<lambda>d. d\<lparr>fd_path := None\<rparr>) k2; Some (result, k3) }
                        else do {
                          k3 \<leftarrow> upd_fd p (\<lambda>d. if flags AND O_DIRECTORY \<noteq> 0
                            then d\<lparr>fd_flags := fd_flags d OR DFS_F_OPEN OR DFS_F_DIRECTORY, fd_type := FT_DIRECTORY\<rparr>
                            else d\<lparr>fd_flags := fd_flags d OR DFS_F_OPEN\<rparr>) k2;
                          Some (0, k3)
                        }
                      })
                 }))
       })"

definition dfs_file_close :: "'a kdfs_scheme dfs_env \<Rightarrow> nat option \<Rightarrow> 'a kdfs_scheme \<Rightarrow> (int \<times> 'a kdfs_scheme) option" where
  "dfs_file_close env fd k =
    (case fd of None \<Rightarrow> Some (- ENXIO, k)
     | Some p \<Rightarrow> do {
         d \<leftarrow> d_heap k p;
         fops \<leftarrow> fd_fops d;
         let (result, k1) = (case fop_close (en_file env fops) of None \<Rightarrow> (0, k) | Some f \<Rightarrow> f p k);
         if result < 0 then Some (result, k1)
         else do { k2 \<leftarrow> upd_fd p (\<lambda>d. d\<lparr>fd_path := None\<rparr>) k1; Some (result, k2) }
       })"

section \<open>Mounting\<close>

text \<open>The first free entry before the entry that is mounted on \<open>path\<close>, and whether there is such an entry.\<close>

fun mount_scan :: "u8 list \<Rightarrow> (nat \<Rightarrow> mfs) \<Rightarrow> nat list \<Rightarrow> nat option \<Rightarrow> (nat option \<times> bool) option" where
  "mount_scan path t [] e = Some (e, False)"
| "mount_scan path t (i # is) e =
    (if fs_ops (t i) = None then mount_scan path t is (if e = None then Some i else e)
     else do { p \<leftarrow> fs_path (t i); if p = path then Some (e, True) else mount_scan path t is e })"

text \<open>
  Whether the mount point exists: it is opened and closed as a directory, with a descriptor \<open>tmp\<close> of
  the caller that holds \<open>junk\<close> before.
\<close>

definition mount_point_ok ::
    "'a kdfs_scheme dfs_env \<Rightarrow> bool \<Rightarrow> bool \<Rightarrow> nat \<Rightarrow> dfd \<Rightarrow> u8 list \<Rightarrow> 'a kdfs_scheme \<Rightarrow> (bool \<times> 'a kdfs_scheme) option" where
  "mount_point_ok env mem dup tmp junk full k =
    (if full = [SLASH] \<or> full = [SLASH, 100, 101, 118] then Some (True, k)
     else do {
       (r, k1) \<leftarrow> dfs_file_open env mem dup (Some tmp) full (O_RDONLY OR O_DIRECTORY) (k\<lparr>d_heap := (d_heap k)(tmp \<mapsto> junk)\<rparr>);
       if r < 0 then Some (False, k1\<lparr>d_heap := (d_heap k1)(tmp := None)\<rparr>)
       else do {
         (_, k2) \<leftarrow> dfs_file_close env (Some tmp) k1;
         Some (True, k2\<lparr>d_heap := (d_heap k2)(tmp := None)\<rparr>)
       }
     })"

text \<open>The rest of a mount, once the entry \<open>i\<close> is filled: the device is opened and the file system mounts it.\<close>

definition mount_start ::
    "'a kdfs_scheme dfs_env \<Rightarrow> nat \<Rightarrow> nat \<Rightarrow> nat option \<Rightarrow> u32 \<Rightarrow> nat \<Rightarrow> 'a kdfs_scheme \<Rightarrow> (int \<times> 'a kdfs_scheme) option" where
  "mount_start env ops i dev rwflag data k = do {
     (r, k1) \<leftarrow> (case dev of None \<Rightarrow> Some (RT_EOK, k) | Some d \<Rightarrow> rt_device_open (en_dev env) d RT_DEVICE_OFLAG_RDWR k);
     if r \<noteq> RT_EOK then Some (-1, set_fs i mfs_zero k1)
     else do {
       mount \<leftarrow> fo_mount (en_fs env ops);
       let (result, k2) = mount i rwflag data k1;
       if result < 0 then do {
         k3 \<leftarrow> (if dev = None then Some k2
                else do { d \<leftarrow> fs_dev (d_table k2 i); map_option snd (rt_device_close (en_dev env) d k2) });
         Some (-1, set_fs i mfs_zero k3)
       } else Some (0, k2)
     }
   }"

definition dfs_mount ::
    "'a kdfs_scheme dfs_env \<Rightarrow> bool \<Rightarrow> bool \<Rightarrow> bool \<Rightarrow> nat \<Rightarrow> dfd \<Rightarrow> u8 list option \<Rightarrow> u8 list \<Rightarrow> u8 list \<Rightarrow> u32 \<Rightarrow> nat \<Rightarrow>
      'a kdfs_scheme \<Rightarrow> (int \<times> 'a kdfs_scheme) option" where
  "dfs_mount env mem mem2 dup tmp junk device_name path filesystemtype rwflag data k = do {
     (dev, k1) \<leftarrow> (case device_name of None \<Rightarrow> Some (Some None, k)
       | Some n \<Rightarrow> do {
           (found, k1) \<leftarrow> rt_device_find n k;
           Some (case found of Some (DevObj d) \<Rightarrow> Some (Some d) | _ \<Rightarrow> None, k1)
         });
     (case dev of None \<Rightarrow> Some (-1, rt_set_errno (- ENODEV) k1)
      | Some dev_id \<Rightarrow>
          (case find_type env filesystemtype (d_types k1) of
             None \<Rightarrow> Some (-1, rt_set_errno (- ENODEV) k1)
           | Some ops \<Rightarrow>
               if fo_mount (en_fs env ops) = None then Some (-1, rt_set_errno (- ENOSYS) k1)
               else do {
                 full \<leftarrow> dfs_normalize_path (d_wd k1) mem None path;
                 (case full of None \<Rightarrow> Some (-1, rt_set_errno (- ENOTDIR) k1)
                  | Some fullpath \<Rightarrow> do {
                      (ok, k2) \<leftarrow> mount_point_ok env mem2 dup tmp junk fullpath k1;
                      if \<not> ok then Some (-1, rt_set_errno (- ENOTDIR) k2)
                      else do {
                        (empty, dupl) \<leftarrow> mount_scan path (d_table k2) [0..<DFS_FILESYSTEMS_MAX] None;
                        if dupl then Some (-1, rt_set_errno (- EINVAL) k2)
                        else (case empty of None \<Rightarrow> Some (-1, rt_set_errno (- ENOSPC) k2)
                          | Some i \<Rightarrow> mount_start env ops i dev_id rwflag data
                              (set_fs i ((d_table k2 i)\<lparr>fs_path := Some fullpath, fs_ops := Some ops, fs_dev := dev_id\<rparr>) k2))
                      }
                    })
               }))
   }"

text \<open>The mounts to make at start-up: device, path, type, flags and data.\<close>

definition mount_table :: "(u8 list option \<times> u8 list \<times> u8 list \<times> u32 \<times> nat) list" where
  "mount_table = [(Some [110, 97, 110, 100], [SLASH], [117, 102, 102, 115], 0, 0)]"

fun dfs_mount_table ::
    "'a kdfs_scheme dfs_env \<Rightarrow> nat \<Rightarrow> dfd \<Rightarrow> (u8 list option \<times> u8 list \<times> u8 list \<times> u32 \<times> nat) list \<Rightarrow>
      'a kdfs_scheme \<Rightarrow> (int \<times> 'a kdfs_scheme) option" where
  "dfs_mount_table env tmp junk [] k = Some (0, k)"
| "dfs_mount_table env tmp junk ((dev, path, ty, rwflag, data) # es) k = do {
     (r, k1) \<leftarrow> dfs_mount env True True True tmp junk dev path ty rwflag data k;
     if r \<noteq> 0 then Some (- RT_ERROR, k1) else dfs_mount_table env tmp junk es k1
   }"

definition dfs_unmount :: "'a kdfs_scheme dfs_env \<Rightarrow> bool \<Rightarrow> u8 list \<Rightarrow> 'a kdfs_scheme \<Rightarrow> (int \<times> 'a kdfs_scheme) option" where
  "dfs_unmount env mem specialfile k = do {
     full \<leftarrow> dfs_normalize_path (d_wd k) mem None specialfile;
     (case full of None \<Rightarrow> Some (-1, rt_set_errno (- ENOTDIR) k)
      | Some fullpath \<Rightarrow>
          (case find (\<lambda>i. fs_path (d_table k i) = Some fullpath) [0..<DFS_FILESYSTEMS_MAX] of
             None \<Rightarrow> Some (-1, k)
           | Some i \<Rightarrow> do {
               ops \<leftarrow> fs_ops (d_table k i);
               (case fo_unmount (en_fs env ops) of None \<Rightarrow> Some (-1, k)
                | Some f \<Rightarrow> do {
                    let (result, k1) = f i k;
                    if result < 0 then Some (-1, k1)
                    else do {
                      k2 \<leftarrow> (case fs_dev (d_table k1 i) of None \<Rightarrow> Some k1
                             | Some d \<Rightarrow> map_option snd (rt_device_close (en_dev env) d k1));
                      Some (0, set_fs i mfs_zero k2)
                    }
                  })
             }))
   }"

definition dfs_mkfs :: "'a kdfs_scheme dfs_env \<Rightarrow> u8 list \<Rightarrow> u8 list option \<Rightarrow> 'a kdfs_scheme \<Rightarrow> (int \<times> 'a kdfs_scheme) option" where
  "dfs_mkfs env fs_name device_name k = do {
     (dev, k1) \<leftarrow> (case device_name of None \<Rightarrow> Some (None, k)
       | Some n \<Rightarrow> do {
           (found, k1) \<leftarrow> rt_device_find n k;
           Some (case found of Some (DevObj d) \<Rightarrow> Some d | _ \<Rightarrow> None, k1)
         });
     Some (case dev of None \<Rightarrow> (-1, rt_set_errno (- ENODEV) k1)
       | Some d \<Rightarrow>
           (case find_type env fs_name (d_types k1) of None \<Rightarrow> (-1, k1)
            | Some ops \<Rightarrow>
                (case fo_mkfs (en_fs env ops) of None \<Rightarrow> (-1, rt_set_errno (- ENOSYS) k1) | Some f \<Rightarrow> f d k1)))
   }"

definition dfs_statfs :: "'a kdfs_scheme dfs_env \<Rightarrow> u8 list \<Rightarrow> nat \<Rightarrow> 'a kdfs_scheme \<Rightarrow> (int \<times> 'a kdfs_scheme) option" where
  "dfs_statfs env path buffer k =
    (case dfs_filesystem_lookup path k of None \<Rightarrow> Some (-1, k)
     | Some i \<Rightarrow> do {
         ops \<leftarrow> fs_ops (d_table k i);
         Some (case fo_statfs (en_fs env ops) of None \<Rightarrow> (-1, k) | Some f \<Rightarrow> f i buffer k)
       })"

section \<open>The partition table of a boot sector\<close>

definition DPT_ADDRESS :: nat where "DPT_ADDRESS = 0x1be"
definition DPT_ITEM_SIZE :: nat where "DPT_ITEM_SIZE = 16"

record dfs_partition =
  part_type :: u8
  part_offset :: u32
  part_size :: u32

definition le32 :: "u8 list \<Rightarrow> nat \<Rightarrow> u32 option" where
  "le32 b i = do {
     c0 \<leftarrow> rd b i; c1 \<leftarrow> rd b (i + 1); c2 \<leftarrow> rd b (i + 2); c3 \<leftarrow> rd b (i + 3);
     Some (ucast c0 OR push_bit 8 (ucast c1) OR push_bit 16 (ucast c2) OR push_bit 24 (ucast c3))
   }"

definition dfs_filesystem_get_partition ::
    "dfs_partition \<Rightarrow> u8 list \<Rightarrow> u32 \<Rightarrow> (int \<times> dfs_partition) option" where
  "dfs_filesystem_get_partition part buf pindex = do {
     let dpt = unat (of_nat DPT_ADDRESS + pindex * of_nat DPT_ITEM_SIZE);
     boot \<leftarrow> rd buf dpt;
     if boot \<noteq> 0x80 \<and> boot \<noteq> 0x00 then Some (- EIO, part)
     else do {
       ty \<leftarrow> rd buf (dpt + 4);
       if ty = 0 then Some (- EIO, part)
       else do {
         off \<leftarrow> le32 buf (dpt + 8);
         sz \<leftarrow> le32 buf (dpt + 12);
         Some (RT_EOK, part\<lparr>part_type := ty, part_offset := off, part_size := sz\<rparr>)
       }
     }
   }"


section \<open>Mounts are found by the directories of a path\<close>

text \<open>An absolute path in normal form, as \<open>dfs_normalize_path\<close> makes it.\<close>

definition abs_text :: "u8 list list \<Rightarrow> u8 list" where
  "abs_text cs = (if cs = [] then [SLASH] else concat (map (\<lambda>c. SLASH # c) cs))"

definition canonical :: "u8 list \<Rightarrow> bool" where
  "canonical s \<longleftrightarrow> list_all plain_name (comps s) \<and> s = abs_text (comps s)"

lemma opened_slashes: "opened_text (True, ds) = SLASH # concat (map (\<lambda>c. c @ [SLASH]) (rev ds))"
  by (simp add: opened_text_def)

lemma slashes_shift: "SLASH # concat (map (\<lambda>c. c @ [SLASH]) cs) = concat (map (\<lambda>c. SLASH # c) cs) @ [SLASH]"
  by (induction cs) simp_all

lemma path_text_abs: "path_text (True, ds) = abs_text (rev ds)"
  by (cases ds) (simp_all add: path_text_def abs_text_def opened_slashes slashes_shift)

lemma comps_abs_text: "list_all name_ok cs \<Longrightarrow> comps (abs_text cs) = cs"
  using comps_path_text[of "(True, rev cs)"] by (simp add: path_text_abs)

lemma canonical_abs_text: "list_all plain_name cs \<Longrightarrow> canonical (abs_text cs)"
  by (simp add: canonical_def comps_abs_text plain_names_ok)

lemma abs_text_append: "cs \<noteq> [] \<Longrightarrow> abs_text (cs @ ds) = abs_text cs @ concat (map (\<lambda>c. SLASH # c) ds)"
  by (simp add: abs_text_def)

lemma comps_before_slash: "comps (s @ SLASH # t) = comps s @ comps t"
proof (induction "length s" arbitrary: s rule: less_induct)
  case less
  show ?case
  proof (cases s)
    case Nil
    have "comps ([] :: u8 list) = []" by simp
    then show ?thesis using Nil by simp
  next
    case (Cons c u)
    show ?thesis
    proof (cases "c = SLASH")
      case True
      then show ?thesis using less[of u] Cons by simp
    next
      case c: False
      show ?thesis
      proof (cases "SLASH \<in> set s")
        case True
        then obtain w r where wr: "s = w @ SLASH # r" "SLASH \<notin> set w" using split_list_first[of SLASH s] by auto
        have w: "w \<noteq> []" using wr Cons c by (cases w) auto
        have "comps (w @ SLASH # r @ SLASH # t) = w # comps (r @ SLASH # t)" by (rule comps_name(2)[OF w wr(2)])
        moreover have "comps (w @ SLASH # r) = w # comps r" by (rule comps_name(2)[OF w wr(2)])
        ultimately show ?thesis using less[of r] wr by simp
      next
        case False
        then show ?thesis using comps_name(1)[of s] comps_name(2)[of s t] Cons by simp
      qed
    qed
  qed
qed

text \<open>A mount point covers a path if the path starts with it and goes on at a slash.\<close>

definition covers :: "u8 list \<Rightarrow> u8 list \<Rightarrow> bool" where
  "covers p path \<longleftrightarrow> take (length p) path = p \<and> (length p > 1 \<and> length path > length p \<longrightarrow> path ! length p = SLASH)"

lemma abs_text_shape: "abs_text cs = SLASH # t \<Longrightarrow> abs_text cs = [SLASH] \<longleftrightarrow> t = []"
  by simp

lemma abs_text_length:
  assumes "list_all plain_name cs"
  shows "cs = [] \<longleftrightarrow> length (abs_text cs) \<le> 1" "abs_text cs \<noteq> []"
proof -
  have "1 < length (abs_text (c # ds))" if "plain_name c" for c ds using that by (cases c) (simp_all add: abs_text_def plain_name_def name_ok_def)
  then show "cs = [] \<longleftrightarrow> length (abs_text cs) \<le> 1" using assms by (cases cs) (fastforce simp: abs_text_def)+
  show "abs_text cs \<noteq> []" by (cases cs) (simp_all add: abs_text_def)
qed

lemma covers_dirs:
  assumes c: "list_all plain_name cs" "list_all plain_name ds"
  shows "covers (abs_text cs) (abs_text ds) \<longleftrightarrow> prefix cs ds"
proof (cases "cs = []")
  case True
  then show ?thesis by (cases ds) (simp_all add: covers_def abs_text_def)
next
  case False
  show ?thesis
  proof
    assume "prefix cs ds"
    then obtain es where es: "ds = cs @ es" by (rule prefixE)
    then show "covers (abs_text cs) (abs_text ds)"
      using abs_text_append[OF False, of es] by (cases es) (auto simp: covers_def)
  next
    assume cov: "covers (abs_text cs) (abs_text ds)"
    define r where "r = drop (length (abs_text cs)) (abs_text ds)"
    have r: "abs_text ds = abs_text cs @ r" using cov append_take_drop_id[of "length (abs_text cs)" "abs_text ds"] by (simp add: covers_def r_def)
    have l: "1 < length (abs_text cs)" using abs_text_length(1)[OF c(1)] False by simp
    have "r = [] \<or> (\<exists>t. r = SLASH # t)" using cov l r by (cases r) (auto simp: covers_def)
    then have "\<exists>es. comps (abs_text ds) = comps (abs_text cs) @ es" using r comps_before_slash[of "abs_text cs"] by auto
    then show "prefix cs ds" using c by (auto simp: comps_abs_text plain_names_ok)
  qed
qed

lemma covers_canonical: "canonical p \<Longrightarrow> canonical path \<Longrightarrow> covers p path \<longleftrightarrow> prefix (comps p) (comps path)"
  using covers_dirs[of "comps p" "comps path"] by (simp add: canonical_def)

lemma canonical_longer:
  assumes "canonical p" "canonical q" "prefix (comps p) path" "prefix (comps q) path" "length p \<le> length q"
  shows "prefix (comps p) (comps q)"
proof (rule ccontr)
  assume n: "\<not> prefix (comps p) (comps q)"
  then have "prefix (comps q) (comps p)" using prefix_same_cases[OF assms(3,4)] by blast
  then obtain es where es: "comps p = comps q @ es" "es \<noteq> []" using n by (metis append_Nil2 prefixE prefix_order.refl)
  have pl: "list_all plain_name (comps p)" and t: "p = abs_text (comps p)" "q = abs_text (comps q)" using assms(1,2) by (simp_all add: canonical_def)
  obtain c fs where c: "es = c # fs" "c \<noteq> []" using es pl by (cases es) (auto simp: plain_name_def name_ok_def)
  have "length (abs_text (comps q)) < length (abs_text (comps q @ es))"
    using c by (cases "comps q = []") (auto simp: abs_text_def)
  then show False using t es assms(5) by simp
qed

text \<open>A path that is normalised from below the root is canonical.\<close>

lemma normalized_canonical:
  assumes "chd path = SLASH" "0 \<notin> set path" "walk (True, []) (comps path) = Some (True, ds)"
  shows "dfs_normalize_path wd True directory path = Some (Some (abs_text (rev ds)))" "canonical (abs_text (rev ds))"
proof -
  have "normal_form path = Some (Some (abs_text (rev ds)))" using assms by (simp add: normal_form_def path_text_abs)
  then show "dfs_normalize_path wd True directory path = Some (Some (abs_text (rev ds)))"
    using dfs_normalize_path_ok[of wd directory path path] assms by (simp add: full_path_def)
  have "list_all plain_name ds" using walk_keeps_plain[OF comps_names[OF assms(2)] _ assms(3)] by simp
  then show "canonical (abs_text (rev ds))" by (simp add: canonical_abs_text)
qed

lemma canonical_fixed:
  assumes "canonical s"
  shows "dfs_normalize_path wd True directory s = Some (Some s)"
proof -
  have pl: "list_all plain_name (comps s)" and t: "s = abs_text (comps s)" using assms by (simp_all add: canonical_def)
  have nz: "0 \<notin> set c" if "c \<in> set (comps s)" for c using that pl by (auto simp: list_all_iff plain_name_def name_ok_def)
  have z: "0 \<notin> set s" using nz by (subst t) (auto simp: abs_text_def)
  have ch: "chd s = SLASH" by (subst t, cases "comps s") (simp_all add: abs_text_def)
  have w: "walk (True, []) (comps s) = Some (True, rev (comps s))" using walk_plain[OF pl, of True "[]"] by simp
  show ?thesis using normalized_canonical(1)[OF ch z w, of wd directory] t by simp
qed
section \<open>The lookup of a mount\<close>

definition mounted :: "nat \<Rightarrow> u8 list \<Rightarrow> 'a kdfs_scheme \<Rightarrow> bool" where
  "mounted i p k \<longleftrightarrow> i < DFS_FILESYSTEMS_MAX \<and> fs_path (d_table k i) = Some p \<and> fs_ops (d_table k i) \<noteq> None"

definition fs_entry :: "(nat \<Rightarrow> mfs) \<Rightarrow> nat \<Rightarrow> u8 list \<Rightarrow> bool" where
  "fs_entry t i p \<longleftrightarrow> fs_path (t i) = Some p \<and> fs_ops (t i) \<noteq> None"

lemma lookup_step_cases:
  "lookup_step t path r i = (if \<exists>p. fs_entry t i p \<and> covers p path \<and> snd r \<le> length p then (Some i, length (the (fs_path (t i)))) else r)"
  by (auto simp: lookup_step_def fs_entry_def covers_def not_less not_le split: option.splits)

lemma lookup_best:
  "case foldl (lookup_step t path) (None, 0) xs of
     (None, n) \<Rightarrow> n = 0 \<and> (\<forall>j\<in>set xs. \<forall>q. fs_entry t j q \<longrightarrow> \<not> covers q path)
   | (Some i, n) \<Rightarrow> i \<in> set xs \<and> (\<exists>p. fs_entry t i p \<and> covers p path \<and> length p = n) \<and>
       (\<forall>j\<in>set xs. \<forall>q. fs_entry t j q \<longrightarrow> covers q path \<longrightarrow> length q \<le> n)"
proof (induction xs rule: rev_induct)
  case (snoc x xs)
  obtain r n where r: "foldl (lookup_step t path) (None, 0) xs = (r, n)" by (metis surj_pair)
  show ?case
  proof (cases "\<exists>p. fs_entry t x p \<and> covers p path \<and> n \<le> length p")
    case True
    then obtain p where p: "fs_entry t x p" "covers p path" "n \<le> length p" by blast
    have le: "length q \<le> length p" if "j \<in> set (xs @ [x])" "fs_entry t j q" "covers q path" for j q
    proof (cases "j = x")
      case True
      then show ?thesis using that(2) p(1) by (simp add: fs_entry_def)
    next
      case False
      then have "length q \<le> n" using snoc r that by (cases r) auto
      then show ?thesis using p(3) by simp
    qed
    have "the (fs_path (t x)) = p" using p(1) by (simp add: fs_entry_def)
    then have "foldl (lookup_step t path) (None, 0) (xs @ [x]) = (Some x, length p)"
      using True by (simp add: r lookup_step_cases)
    then show ?thesis using p le by auto
  next
    case False
    then have x: "foldl (lookup_step t path) (None, 0) (xs @ [x]) = (r, n)" by (auto simp: r lookup_step_cases)
    have "length q < n" if "fs_entry t x q" "covers q path" for q using False that not_le by blast
    then show ?thesis using snoc r unfolding x by (cases r) (auto simp: less_imp_le)
  qed
qed simp

text \<open>
  The file system found for a path is mounted on the innermost directory of the path that is a
  mount point; none is found where no directory of the path is one.
\<close>

lemma lookup_innermost:
  assumes m: "\<And>i p. mounted i p k \<Longrightarrow> canonical p" and path: "canonical path"
  shows "case dfs_filesystem_lookup path k of
      None \<Rightarrow> \<not> (\<exists>i p. mounted i p k \<and> prefix (comps p) (comps path))
    | Some i \<Rightarrow> \<exists>p. mounted i p k \<and> prefix (comps p) (comps path) \<and>
        (\<forall>j q. mounted j q k \<and> prefix (comps q) (comps path) \<longrightarrow> prefix (comps q) (comps p))"
proof -
  obtain r n where r: "foldl (lookup_step (d_table k) path) (None, 0) [0..<DFS_FILESYSTEMS_MAX] = (r, n)" by (metis surj_pair)
  have mt: "mounted i p k \<longleftrightarrow> i \<in> set [0..<DFS_FILESYSTEMS_MAX] \<and> fs_entry (d_table k) i p" for i p
    by (auto simp: mounted_def fs_entry_def)
  have cp: "covers q path \<longleftrightarrow> prefix (comps q) (comps path)" if "mounted j q k" for j q
    using covers_canonical m path that by blast
  have best: "case (r, n) of
     (None, n) \<Rightarrow> n = 0 \<and> (\<forall>j\<in>set [0..<DFS_FILESYSTEMS_MAX]. \<forall>q. fs_entry (d_table k) j q \<longrightarrow> \<not> covers q path)
   | (Some i, n) \<Rightarrow> i \<in> set [0..<DFS_FILESYSTEMS_MAX] \<and> (\<exists>p. fs_entry (d_table k) i p \<and> covers p path \<and> length p = n) \<and>
       (\<forall>j\<in>set [0..<DFS_FILESYSTEMS_MAX]. \<forall>q. fs_entry (d_table k) j q \<longrightarrow> covers q path \<longrightarrow> length q \<le> n)"
    using lookup_best[where t = "d_table k" and path = path and xs = "[0..<DFS_FILESYSTEMS_MAX]"] by (simp only: r)
  show ?thesis
  proof (cases r)
    case None
    then show ?thesis using best r cp mt by (auto simp: dfs_filesystem_lookup_def)
  next
    case (Some i)
    then obtain p where p: "mounted i p k" "covers p path" "length p = n" using best mt by auto
    have "prefix (comps q) (comps p)" if "mounted j q k" "prefix (comps q) (comps path)" for j q
    proof (rule canonical_longer)
      show "canonical q" "canonical p" by (rule m[OF that(1)], rule m[OF p(1)])
      show "prefix (comps q) (comps path)" "prefix (comps p) (comps path)" using that(2) cp p by auto
      show "length q \<le> length p" using best Some that cp mt p(3) by auto
    qed
    then show ?thesis using p cp Some r by (auto simp: dfs_filesystem_lookup_def)
  qed
qed

lemma lookup_frame: "d_table k' = d_table k \<Longrightarrow> dfs_filesystem_lookup path k' = dfs_filesystem_lookup path k"
  by (simp add: dfs_filesystem_lookup_def)
section \<open>The table of descriptors\<close>

text \<open>A number names the descriptor in its place of the table, if there is one.\<close>

definition descs :: "'a kdfs_scheme \<Rightarrow> nat \<Rightarrow> nat option" where
  "descs k n = (if n < length (d_fds k) then d_fds k ! n else None)"

definition lowest_free :: "'a kdfs_scheme \<Rightarrow> nat" where
  "lowest_free k = length (takeWhile (\<lambda>e. e \<noteq> None) (d_fds k))"

definition fd_ok :: "'a kdfs_scheme \<Rightarrow> bool" where
  "fd_ok k \<longleftrightarrow> length (d_fds k) \<le> DFS_FD_MAX \<and> inj_on (descs k) (dom (descs k)) \<and>
     (\<forall>n p. descs k n = Some p \<longrightarrow> (\<exists>d. d_heap k p = Some d \<and> 0 < fd_ref d \<and> fd_magic d = DFS_FD_MAGIC))"

lemma upd_fd_ok: "d_heap k p = Some d \<Longrightarrow> upd_fd p f k = Some (k\<lparr>d_heap := (d_heap k)(p \<mapsto> f d)\<rparr>)"
  by (simp add: upd_fd_def)

lemma descs_frame [simp]: "descs (k\<lparr>d_heap := h\<rparr>) = descs k"
  by (simp add: descs_def fun_eq_iff)

lemma fd_okD:
  assumes "fd_ok k" "descs k n = Some p"
  obtains d where "d_heap k p = Some d" "0 < fd_ref d" "fd_magic d = DFS_FD_MAGIC"
  using assms by (auto simp: fd_ok_def)

lemma fd_ok_inj: "fd_ok k \<Longrightarrow> descs k n = Some p \<Longrightarrow> descs k j = Some p \<Longrightarrow> n = j"
  by (auto simp: fd_ok_def inj_on_def dom_def)

lemma in_table: "Some p \<in> set (d_fds k) \<longleftrightarrow> (\<exists>n. descs k n = Some p)"
  by (auto simp: descs_def in_set_conv_nth split: if_splits)

lemma fd_scan_ok:
  "(\<And>p. Some p \<in> set ps \<Longrightarrow> \<exists>d. h p = Some d \<and> fd_ref d \<noteq> 0) \<Longrightarrow>
    fd_scan h ps i = Some (i + length (takeWhile (\<lambda>e. e \<noteq> None) ps))"
  by (induction h ps i rule: fd_scan.induct) force+

lemma fd_ok_scan: "fd_ok k \<Longrightarrow> fd_scan (d_heap k) (d_fds k) 0 = Some (lowest_free k)"
proof -
  assume ok: "fd_ok k"
  have "\<exists>d. d_heap k p = Some d \<and> fd_ref d \<noteq> 0" if "Some p \<in> set (d_fds k)" for p
    using that ok unfolding in_table by (auto elim!: fd_okD)
  then show ?thesis using fd_scan_ok[of "d_fds k" "d_heap k" 0] by (simp add: lowest_free_def)
qed

lemma lowest_free_ok:
  "lowest_free k \<le> length (d_fds k)" "descs k (lowest_free k) = None" "j < lowest_free k \<Longrightarrow> descs k j \<noteq> None"
proof -
  show "lowest_free k \<le> length (d_fds k)" by (simp add: lowest_free_def length_takeWhile_le)
  show "descs k (lowest_free k) = None" using nth_length_takeWhile[of "\<lambda>e. e \<noteq> None" "d_fds k"] by (auto simp: descs_def lowest_free_def)
  assume j: "j < lowest_free k"
  then have "d_fds k ! j = takeWhile (\<lambda>e. e \<noteq> None) (d_fds k) ! j" by (simp add: lowest_free_def takeWhile_nth)
  moreover have "takeWhile (\<lambda>e. e \<noteq> None) (d_fds k) ! j \<noteq> None"
    using set_takeWhileD[OF nth_mem, of j "\<lambda>e. e \<noteq> None" "d_fds k"] j by (simp add: lowest_free_def)
  moreover have "j < length (d_fds k)" using j length_takeWhile_le[of "\<lambda>e. e \<noteq> None" "d_fds k"] by (simp add: lowest_free_def)
  ultimately show "descs k j \<noteq> None" by (simp add: descs_def)
qed

lemma fd_ok_upd:
  assumes "fd_ok k" "inj_on t (dom t)" "descs k' = t" "length (d_fds k') \<le> DFS_FD_MAX"
    "\<And>n p. t n = Some p \<Longrightarrow> \<exists>d. d_heap k' p = Some d \<and> 0 < fd_ref d \<and> fd_magic d = DFS_FD_MAGIC"
  shows "fd_ok k'"
  using assms by (auto simp: fd_ok_def)

text \<open>A new descriptor gets the lowest free number; a full table gives none.\<close>

definition fd_fresh :: dfd where
  "fd_fresh = dfd_zero\<lparr>fd_ref := 1, fd_magic := DFS_FD_MAGIC\<rparr>"

lemma fd_new_ok:
  assumes "fd_ok k" "lowest_free k < DFS_FD_MAX" "d_heap k p = None"
  shows "\<exists>fds. fd_new True (Some p) k = Some (int (lowest_free k) + int DFS_FD_OFFSET, k\<lparr>d_fds := fds, d_heap := (d_heap k)(p \<mapsto> fd_fresh)\<rparr>) \<and>
    descs (k\<lparr>d_fds := fds\<rparr>) = (descs k)(lowest_free k \<mapsto> p) \<and> length fds \<le> DFS_FD_MAX"
proof -
  let ?n = "lowest_free k"
  define g where "g = (if ?n = length (d_fds k) then d_fds k @ replicate (min (length (d_fds k) + 4) DFS_FD_MAX - length (d_fds k)) None else d_fds k)"
  have n: "?n < length g" "g ! ?n = None"
    using lowest_free_ok(1,2)[of k] assms(2) by (auto simp: g_def descs_def nth_append split: if_splits)
  have l: "length g \<le> DFS_FD_MAX" using assms(1) by (auto simp: g_def fd_ok_def)
  have dg: "descs (k\<lparr>d_fds := g[?n := Some p]\<rparr>) = (descs k)(?n \<mapsto> p)"
  proof
    fix j
    show "descs (k\<lparr>d_fds := g[?n := Some p]\<rparr>) j = ((descs k)(?n \<mapsto> p)) j"
      using n by (auto simp: descs_def g_def nth_append nth_list_update)
  qed
  have "fd_alloc 0 True (Some p) k = Some (?n, k\<lparr>d_fds := g[?n := Some p], d_heap := (d_heap k)(p \<mapsto> dfd_zero)\<rparr>)"
  proof (cases "?n = length (d_fds k)")
    case True
    then have g: "(if ?n = length (d_fds k) \<and> length (d_fds k) < DFS_FD_MAX then k\<lparr>d_fds := d_fds k @ replicate (min (length (d_fds k) + 4) DFS_FD_MAX - length (d_fds k)) None\<rparr> else k) = k\<lparr>d_fds := g\<rparr>"
      using assms(2) by (simp add: g_def)
    show ?thesis using fd_ok_scan[OF assms(1)] n unfolding fd_alloc_def Let_def by (simp add: g)
  next
    case False
    then have "g = d_fds k" by (simp add: g_def)
    then show ?thesis using fd_ok_scan[OF assms(1)] n False by (simp add: fd_alloc_def)
  qed
  then have "fd_new True (Some p) k = Some (int ?n + int DFS_FD_OFFSET, k\<lparr>d_fds := g[?n := Some p], d_heap := (d_heap k)(p \<mapsto> fd_fresh)\<rparr>)"
    using n by (simp add: fd_new_def upd_fd_def fd_fresh_def)
  then show ?thesis using dg l by (intro exI[of _ "g[?n := Some p]"]) simp
qed

lemma fd_new_full:
  assumes "fd_ok k" "lowest_free k = DFS_FD_MAX"
  shows "fd_new room mem k = Some (-1, k)"
proof -
  have "length (d_fds k) = DFS_FD_MAX" using assms lowest_free_ok(1)[of k] by (simp add: fd_ok_def)
  then show ?thesis using assms(2) fd_ok_scan[OF assms(1)] by (simp add: fd_new_def fd_alloc_def)
qed

lemma fd_get_none: "descs k n = None \<Longrightarrow> fd_get (int n + int DFS_FD_OFFSET) k = Some (None, k)"
  by (auto simp: fd_get_def descs_def split: if_splits)

lemma fd_get_ok:
  assumes "descs k n = Some p" "d_heap k p = Some d" "fd_magic d = DFS_FD_MAGIC"
  shows "fd_get (int n + int DFS_FD_OFFSET) k = Some (Some p, k\<lparr>d_heap := (d_heap k)(p \<mapsto> d\<lparr>fd_ref := fd_ref d + 1\<rparr>)\<rparr>)"
  using assms by (auto simp: fd_get_def descs_def upd_fd_def split: if_splits)

lemma fd_put_more:
  "d_heap k p = Some d \<Longrightarrow> fd_ref d \<noteq> 1 \<Longrightarrow> fd_put p k = Some (k\<lparr>d_heap := (d_heap k)(p \<mapsto> d\<lparr>fd_ref := fd_ref d - 1\<rparr>)\<rparr>)"
  by (simp add: fd_put_def upd_fd_def)

lemma fd_clear_ok:
  "n < length fds \<Longrightarrow> fds ! n = Some p \<Longrightarrow> (\<And>j. j < length fds \<Longrightarrow> fds ! j = Some p \<Longrightarrow> j = n) \<Longrightarrow> fd_clear p fds = fds[n := None]"
proof (induction fds arbitrary: n)
  case (Cons e es)
  show ?case
  proof (cases n)
    case 0
    then show ?thesis using Cons.prems(2) by simp
  next
    case (Suc m)
    have e: "e \<noteq> Some p" using Cons.prems(3)[of 0] Suc by auto
    have "fd_clear p es = es[m := None]"
    proof (rule Cons.IH)
      show "m < length es" "es ! m = Some p" using Cons.prems(1,2) Suc by simp_all
      show "j = m" if "j < length es" "es ! j = Some p" for j using Cons.prems(3)[of "Suc j"] that Suc by simp
    qed
    then show ?thesis using Suc e by simp
  qed
qed simp

lemma fd_put_last:
  assumes "fd_ok k0" "descs k0 n = Some p" "descs k = descs k0" "d_heap k p = Some d" "fd_ref d = 1"
  shows "\<exists>fds. fd_put p k = Some (k\<lparr>d_fds := fds, d_heap := (d_heap k)(p := None)\<rparr>) \<and>
    descs (k\<lparr>d_fds := fds\<rparr>) = (descs k0)(n := None) \<and> length fds = length (d_fds k)"
proof -
  have n: "n < length (d_fds k)" "d_fds k ! n = Some p" using assms(2,3) by (auto simp: descs_def fun_eq_iff split: if_splits)
  have u: "j = n" if "j < length (d_fds k)" "d_fds k ! j = Some p" for j
    using fd_ok_inj[OF assms(1,2), of j] that assms(3) by (auto simp: descs_def fun_eq_iff split: if_splits)
  have c: "fd_clear p (d_fds k) = (d_fds k)[n := None]" by (rule fd_clear_ok[OF n u])
  have "Some p \<in> set (d_fds k)" using n nth_mem by metis
  then have "fd_put p k = Some (k\<lparr>d_fds := (d_fds k)[n := None], d_heap := (d_heap k)(p := None)\<rparr>)"
    using assms(4,5) c by (simp add: fd_put_def upd_fd_def)
  moreover have "descs (k\<lparr>d_fds := (d_fds k)[n := None]\<rparr>) = (descs k0)(n := None)"
    unfolding assms(3)[symmetric] using n by (auto simp: descs_def fun_eq_iff nth_list_update)
  ultimately show ?thesis by (intro exI[of _ "(d_fds k)[n := None]"]) simp
qed
section \<open>Opening through a mount\<close>

text \<open>Below a mount point, a file is named by the directories that are left.\<close>

lemma below_mount_rest:
  assumes "list_all plain_name ds"
  shows "below_mount (abs_text cs) (abs_text (cs @ ds)) = Some (abs_text ds)"
proof (cases "cs = []")
  case True
  show ?thesis
  proof (cases ds)
    case Nil
    then show ?thesis using True by (simp add: below_mount_def abs_text_def dfs_subdir_ok)
  next
    case (Cons c es)
    then have c: "c \<noteq> []" "SLASH \<notin> set c" using assms by (simp_all add: plain_name_def name_ok_def)
    then have h: "hd (c @ concat (map (\<lambda>c. SLASH # c) es)) \<noteq> SLASH" by (cases c) auto
    have "abs_text (cs @ ds) = [SLASH] @ (c @ concat (map (\<lambda>c. SLASH # c) es))" using True Cons by (simp add: abs_text_def)
    then show ?thesis using dfs_subdir_ok(3)[OF _ _ h, of "[SLASH]"] c True Cons by (simp add: below_mount_def abs_text_def)
  qed
next
  case False
  show ?thesis
  proof (cases ds)
    case Nil
    then show ?thesis by (simp add: below_mount_def abs_text_def dfs_subdir_ok)
  next
    case (Cons c es)
    then have "abs_text (cs @ ds) = abs_text cs @ SLASH # (c @ concat (map (\<lambda>c. SLASH # c) es))"
      using abs_text_append[OF False, of ds] by simp
    then show ?thesis using dfs_subdir_ok(2)[of "abs_text cs" "c @ concat (map (\<lambda>c. SLASH # c) es)"] Cons
      by (simp add: below_mount_def abs_text_def)
  qed
qed

text \<open>
  What a path leads to: the mount \<open>i\<close>, its file system \<open>fo\<close> and the name that file system is given.
\<close>

definition leads_to :: "'a kdfs_scheme dfs_env \<Rightarrow> u8 list \<Rightarrow> 'a kdfs_scheme \<Rightarrow> nat \<Rightarrow> 'a kdfs_scheme fs_ops \<Rightarrow> u8 list \<Rightarrow> bool" where
  "leads_to env path k i fo name \<longleftrightarrow> (\<exists>full mp q. dfs_normalize_path (d_wd k) True None path = Some (Some full) \<and>
     dfs_filesystem_lookup full k = Some i \<and> fs_path (d_table k i) = Some mp \<and> fs_ops (d_table k i) = Some q \<and> fo = en_fs env q \<and>
     (if fo_flags fo AND DFS_FS_FLAG_FULLPATH \<noteq> 0 then name = full else below_mount mp full = Some name))"

text \<open>On canonical mount points and without \<open>DFS_FS_FLAG_FULLPATH\<close>, the name is the rest of the path.\<close>

lemma leads_to_rest:
  assumes m: "\<And>i p. mounted i p k \<Longrightarrow> canonical p" and path: "canonical path" and l: "leads_to env path k i fo name"
    and f: "fo_flags fo AND DFS_FS_FLAG_FULLPATH = 0"
  shows "\<exists>p. mounted i p k \<and> comps path = comps p @ comps name \<and> canonical name"
proof -
  have n: "dfs_normalize_path (d_wd k) True None path = Some (Some path)" by (rule canonical_fixed[OF path])
  obtain mp where mp: "dfs_filesystem_lookup path k = Some i" "fs_path (d_table k i) = Some mp" "below_mount mp path = Some name"
    using l n f by (auto simp: leads_to_def)
  obtain p where p: "mounted i p k" "prefix (comps p) (comps path)"
    using lookup_innermost[where k = k and path = path, OF _ path] m mp(1) by fastforce
  then have "p = mp" using mp(2) by (simp add: mounted_def)
  obtain ds where ds: "comps path = comps p @ ds" using p(2) by (rule prefixE)
  have c: "p = abs_text (comps p)" "path = abs_text (comps p @ ds)" "list_all plain_name ds"
    using m[OF p(1)] path ds by (auto simp: canonical_def)
  have "name = abs_text ds" using below_mount_rest[OF c(3), of "comps p"] mp(3) c(1,2) \<open>p = mp\<close> by simp
  then show ?thesis using p(1) ds c(3) by (auto simp: canonical_abs_text comps_abs_text plain_names_ok)
qed

text \<open>A file operation that leaves the tables alone, and of its descriptor all but size, position and data.\<close>

definition keeps_fds :: "nat \<Rightarrow> 'a kdfs_scheme \<Rightarrow> 'a kdfs_scheme \<Rightarrow> bool" where
  "keeps_fds p k k' \<longleftrightarrow> d_fds k' = d_fds k \<and> d_table k' = d_table k \<and> (\<forall>q. q \<noteq> p \<longrightarrow> d_heap k' q = d_heap k q) \<and>
     (\<exists>d d'. d_heap k p = Some d \<and> d_heap k' p = Some d' \<and> d = d'\<lparr>fd_size := fd_size d, fd_pos := fd_pos d, fd_data := fd_data d\<rparr>)"

definition good_files :: "'a kdfs_scheme file_ops \<Rightarrow> bool" where
  "good_files fo \<longleftrightarrow>
     (\<forall>f p k. fop_open fo = Some f \<longrightarrow> d_heap k p \<noteq> None \<longrightarrow> keeps_fds p k (snd (f p k))) \<and>
     (\<forall>f p k. fop_close fo = Some f \<longrightarrow> d_heap k p \<noteq> None \<longrightarrow> keeps_fds p k (snd (f p k)) \<and> 0 \<le> fst (f p k))"

lemma keeps_fdsD:
  assumes "keeps_fds p k k'" "d_heap k p = Some d"
  obtains d' where "d_heap k' = (d_heap k)(p \<mapsto> d')" "fd_ref d' = fd_ref d" "fd_magic d' = fd_magic d" "fd_fops d' = fd_fops d"
    "fd_path d' = fd_path d" "fd_fs d' = fd_fs d" "fd_flags d' = fd_flags d" "fd_type d' = fd_type d"
    "d_fds k' = d_fds k" "d_table k' = d_table k" "descs k' = descs k"
proof -
  obtain d' where d': "d_heap k' p = Some d'" "d = d'\<lparr>fd_size := fd_size d, fd_pos := fd_pos d, fd_data := fd_data d\<rparr>"
    using assms by (auto simp: keeps_fds_def)
  have h: "d_heap k' = (d_heap k)(p \<mapsto> d')" using assms d'(1) by (auto simp: keeps_fds_def fun_eq_iff)
  have f: "d_fds k' = d_fds k" "d_table k' = d_table k" using assms(1) by (auto simp: keeps_fds_def)
  show ?thesis
  proof (rule that[OF h _ _ _ _ _ _ _ f])
    have "fd_ref d = fd_ref d' \<and> fd_magic d = fd_magic d' \<and> fd_fops d = fd_fops d' \<and> fd_path d = fd_path d' \<and> fd_fs d = fd_fs d' \<and>
      fd_flags d = fd_flags d' \<and> fd_type d = fd_type d'"
      using d'(2) by (cases d; cases d') simp
    then show "fd_ref d' = fd_ref d" "fd_magic d' = fd_magic d" "fd_fops d' = fd_fops d" "fd_path d' = fd_path d" "fd_fs d' = fd_fs d"
      "fd_flags d' = fd_flags d" "fd_type d' = fd_type d" by simp_all
    show "descs k' = descs k" using f(1) by (simp add: descs_def fun_eq_iff)
  qed
qed

definition fd_init :: "nat \<Rightarrow> nat \<Rightarrow> u32 \<Rightarrow> u8 list \<Rightarrow> dfd \<Rightarrow> dfd" where
  "fd_init i fops flags name d = d\<lparr>fd_fs := Some i, fd_fops := Some fops, fd_type := FT_REGULAR,
     fd_flags := flags, fd_size := 0, fd_pos := 0, fd_data := Mount i, fd_path := Some name\<rparr>"

lemma dfs_file_open_ok:
  assumes l: "leads_to env path k i fo name" and d: "d_heap k p = Some d"
    and f: "fop_open (en_file env (fo_fops fo)) = Some f" and g: "good_files (en_file env (fo_fops fo))"
    and k1: "k1 = k\<lparr>d_heap := (d_heap k)(p \<mapsto> fd_init i (fo_fops fo) flags name d)\<rparr>"
  shows "\<exists>k' d'. dfs_file_open env True True (Some p) path flags k = Some (if fst (f p k1) < 0 then fst (f p k1) else 0, k') \<and>
    d_heap k' = (d_heap k)(p \<mapsto> d') \<and> d_fds k' = d_fds k \<and> d_table k' = d_table k \<and>
    fd_ref d' = fd_ref d \<and> fd_magic d' = fd_magic d \<and> fd_fops d' = Some (fo_fops fo) \<and> fd_fs d' = Some i \<and>
    fd_path d' = (if fst (f p k1) < 0 then None else Some name)"
proof -
  obtain full mp q where t: "dfs_normalize_path (d_wd k) True None path = Some (Some full)"
     "dfs_filesystem_lookup full k = Some i" "fs_path (d_table k i) = Some mp" "fs_ops (d_table k i) = Some q" "fo = en_fs env q"
     "if fo_flags fo AND DFS_FS_FLAG_FULLPATH \<noteq> 0 then name = full else below_mount mp full = Some name"
    using l by (auto simp: leads_to_def)
  have nm: "(if fo_flags fo AND DFS_FS_FLAG_FULLPATH \<noteq> 0 then Some (Some full)
      else map_option (\<lambda>s. if True then Some s else None) (below_mount mp full)) = Some (Some name)" using t(6) by auto
  have u: "upd_fd p (fd_init i (fo_fops fo) flags name) k = Some k1"
    using upd_fd_ok[OF d] by (simp add: k1)
  obtain r k2 where r: "f p k1 = (r, k2)" by (metis surj_pair)
  have d1: "d_heap k1 p = Some (fd_init i (fo_fops fo) flags name d)" by (simp add: k1)
  have kf: "keeps_fds p k1 k2" using g f d1 r unfolding good_files_def by (metis option.distinct(1) snd_conv)
  obtain d2 where d2: "d_heap k2 = (d_heap k1)(p \<mapsto> d2)" "fd_ref d2 = fd_ref d" "fd_magic d2 = fd_magic d" "fd_fops d2 = Some (fo_fops fo)"
    "fd_path d2 = Some name" "fd_fs d2 = Some i" "d_fds k2 = d_fds k1" "d_table k2 = d_table k1"
    by (rule keeps_fdsD[OF kf d1]) (simp add: fd_init_def)
  have h2: "d_heap k2 p = Some d2" using d2(1) by simp
  have open1: "dfs_file_open env True True (Some p) path flags k =
     (if r < 0 then do { k3 \<leftarrow> upd_fd p (\<lambda>d. d\<lparr>fd_path := None\<rparr>) k2; Some (r, k3) }
      else do {
        k3 \<leftarrow> upd_fd p (\<lambda>d. if flags AND O_DIRECTORY \<noteq> 0
          then d\<lparr>fd_flags := fd_flags d OR DFS_F_OPEN OR DFS_F_DIRECTORY, fd_type := FT_DIRECTORY\<rparr>
          else d\<lparr>fd_flags := fd_flags d OR DFS_F_OPEN\<rparr>) k2;
        Some (0, k3)
      })"
    using t(1-4) nm f u[unfolded fd_init_def[abs_def]] by (simp add: dfs_file_open_def fd_init_def[abs_def] t(5)[symmetric] r)
  define d3 where "d3 = (if r < 0 then d2\<lparr>fd_path := None\<rparr>
    else if flags AND O_DIRECTORY \<noteq> 0
    then d2\<lparr>fd_flags := fd_flags d2 OR DFS_F_OPEN OR DFS_F_DIRECTORY, fd_type := FT_DIRECTORY\<rparr>
    else d2\<lparr>fd_flags := fd_flags d2 OR DFS_F_OPEN\<rparr>)"
  have "dfs_file_open env True True (Some p) path flags k = Some (if r < 0 then r else 0, k2\<lparr>d_heap := (d_heap k2)(p \<mapsto> d3)\<rparr>)"
    unfolding open1 upd_fd_ok[OF h2] by (simp add: d3_def)
  moreover have "fd_ref d3 = fd_ref d2 \<and> fd_magic d3 = fd_magic d2 \<and> fd_fops d3 = fd_fops d2 \<and> fd_fs d3 = fd_fs d2 \<and>
    fd_path d3 = (if r < 0 then None else fd_path d2)" by (simp add: d3_def)
  moreover have "d_heap k2 = (d_heap k)(p \<mapsto> d2)" "d_fds k2 = d_fds k" "d_table k2 = d_table k" using d2 k1 by simp_all
  ultimately show ?thesis using d2(2-6) unfolding r fst_conv
    by (intro exI[of _ "k2\<lparr>d_heap := (d_heap k2)(p \<mapsto> d3)\<rparr>"] exI[of _ d3]) simp
qed
section \<open>Mounting and unmounting\<close>

text \<open>Free entries are clear, and the others are mounted on different canonical paths.\<close>

definition mounts_ok :: "'a kdfs_scheme \<Rightarrow> bool" where
  "mounts_ok k \<longleftrightarrow> (\<forall>i<DFS_FILESYSTEMS_MAX. d_table k i = mfs_zero \<or> (\<exists>p. mounted i p k \<and> canonical p)) \<and>
     (\<forall>i j p. mounted i p k \<and> mounted j p k \<longrightarrow> i = j)"

definition first_free :: "'a kdfs_scheme \<Rightarrow> nat option" where
  "first_free k = find (\<lambda>i. fs_ops (d_table k i) = None) [0..<DFS_FILESYSTEMS_MAX]"

lemma mounted_set_fs [simp]:
  "mounted j p (set_fs i m k) \<longleftrightarrow> (if j = i then i < DFS_FILESYSTEMS_MAX \<and> fs_path m = Some p \<and> fs_ops m \<noteq> None else mounted j p k)"
  by (simp add: mounted_def set_fs_def)

lemma set_fs_table [simp]: "d_table (set_fs i m k) = (d_table k)(i := m)" "d_wd (set_fs i m k) = d_wd k" "d_types (set_fs i m k) = d_types k"
  by (simp_all add: set_fs_def)

lemma mounted_cong: "d_table k' = d_table k \<Longrightarrow> mounted j p k' \<longleftrightarrow> mounted j p k"
  by (simp add: mounted_def)

lemma mounts_ok_cong: "d_table k' = d_table k \<Longrightarrow> mounts_ok k' \<longleftrightarrow> mounts_ok k"
  by (simp add: mounts_ok_def mounted_cong[of k' k])

lemma mount_scan_ok:
  assumes "\<And>i. i \<in> set xs \<Longrightarrow> fs_ops (t i) \<noteq> None \<Longrightarrow> \<exists>p. fs_path (t i) = Some p \<and> p \<noteq> path"
  shows "mount_scan path t xs e = Some (if e = None then find (\<lambda>i. fs_ops (t i) = None) xs else e, False)"
  using assms by (induction path t xs e rule: mount_scan.induct) (fastforce split: option.splits)+

lemma mount_scan_taken:
  assumes "\<And>i. i \<in> set xs \<Longrightarrow> fs_ops (t i) \<noteq> None \<Longrightarrow> fs_path (t i) \<noteq> None" "j \<in> set xs" "fs_ops (t j) \<noteq> None" "fs_path (t j) = Some path"
  shows "\<exists>e'. mount_scan path t xs e = Some (e', True)"
  using assms(1,2)
proof (induction xs arbitrary: e)
  case (Cons i xs)
  show ?case
  proof (cases "i = j")
    case True
    then show ?thesis using assms(3,4) by auto
  next
    case False
    have ih: "\<exists>e'. mount_scan path t xs e = Some (e', True)" for e using Cons.IH Cons.prems False by simp
    show ?thesis using ih Cons.prems(1)[of i] by (cases "fs_ops (t i)") (auto split: option.split)
  qed
qed simp

lemma mounts_ok_entry: "mounts_ok k \<Longrightarrow> i < DFS_FILESYSTEMS_MAX \<Longrightarrow> fs_ops (d_table k i) \<noteq> None \<Longrightarrow> \<exists>p. mounted i p k \<and> canonical p"
  by (auto simp: mounts_ok_def mfs_zero_def)

lemma mounts_ok_canonical: "mounts_ok k \<Longrightarrow> mounted i p k \<Longrightarrow> canonical p"
  by (frule mounts_ok_entry[where i = i]) (auto simp: mounted_def)

lemma first_freeD:
  assumes "first_free k = Some i"
  shows "i < DFS_FILESYSTEMS_MAX" "fs_ops (d_table k i) = None" "\<not> mounted i p k"
  using assms by (auto simp: first_free_def find_Some_iff mounted_def)

lemma mounts_ok_unique: "mounts_ok k \<Longrightarrow> mounted i p k \<Longrightarrow> mounted j p k \<Longrightarrow> i = j"
  unfolding mounts_ok_def by blast

text \<open>A mount without a device fills the first free entry, whatever the name of its mount point.\<close>

lemma dfs_mount_ok:
  assumes ty: "find_type env fstype (d_types k) = Some ops" "fo_mount (en_fs env ops) = Some mnt"
    and n: "dfs_normalize_path (d_wd k) True None path = Some (Some full)"
    and mp: "mount_point_ok env True True tmp junk full k = Some (True, k2)"
    and ok: "mounts_ok k2" "first_free k2 = Some i" "\<And>j. \<not> mounted j path k2"
    and m: "mnt i rwflag data (set_fs i ((d_table k2 i)\<lparr>fs_path := Some full, fs_ops := Some ops, fs_dev := None\<rparr>) k2) = (r, k3)" "0 \<le> r"
  shows "dfs_mount env True True True tmp junk None path fstype rwflag data k = Some (0, k3)"
proof -
  have s: "mount_scan path (d_table k2) [0..<DFS_FILESYSTEMS_MAX] None = Some (Some i, False)"
  proof -
    have "\<exists>p. fs_path (d_table k2 j) = Some p \<and> p \<noteq> path" if "j \<in> set [0..<DFS_FILESYSTEMS_MAX]" "fs_ops (d_table k2 j) \<noteq> None" for j
      using mounts_ok_entry[OF ok(1), of j] ok(3)[of j] that by (auto simp: mounted_def)
    then show ?thesis using mount_scan_ok[of "[0..<DFS_FILESYSTEMS_MAX]" "d_table k2" path None] ok(2) by (simp add: first_free_def)
  qed
  show ?thesis using ty n mp s m by (simp add: dfs_mount_def mount_start_def)
qed

lemma dfs_mount_again:
  assumes ty: "find_type env fstype (d_types k) = Some ops" "fo_mount (en_fs env ops) = Some mnt"
    and n: "dfs_normalize_path (d_wd k) True None path = Some (Some full)"
    and mp: "mount_point_ok env True True tmp junk full k = Some (True, k2)"
    and ok: "mounts_ok k2" "mounted j path k2"
  shows "dfs_mount env True True True tmp junk None path fstype rwflag data k = Some (-1, rt_set_errno (- EINVAL) k2)"
proof -
  have "\<exists>e. mount_scan path (d_table k2) [0..<DFS_FILESYSTEMS_MAX] None = Some (e, True)"
    by (rule mount_scan_taken[of _ _ j]) (use mounts_ok_entry[OF ok(1)] ok(2) in \<open>auto simp: mounted_def\<close>)
  then show ?thesis using ty n mp by (auto simp: dfs_mount_def)
qed

lemma mounts_ok_mount:
  assumes ok: "mounts_ok k" "first_free k = Some i" "\<And>j. \<not> mounted j full k" "canonical full"
    and t: "d_table k' = (d_table k)(i := (d_table k i)\<lparr>fs_path := Some full, fs_ops := Some ops, fs_dev := None\<rparr>)"
  shows "mounts_ok k'" "mounted j p k' \<longleftrightarrow> (if j = i then p = full else mounted j p k)"
proof -
  show m: "mounted j p k' \<longleftrightarrow> (if j = i then p = full else mounted j p k)" for j p
    using first_freeD(1)[OF ok(2)] t by (auto simp: mounted_def)
  have "d_table k' j = mfs_zero \<or> (\<exists>p. mounted j p k' \<and> canonical p)" if "j < DFS_FILESYSTEMS_MAX" for j
    using ok(1,4) that m t by (cases "j = i") (auto simp: mounts_ok_def)
  moreover have "j = l" if "mounted j p k'" "mounted l p k'" for j l p
    using that ok(3) mounts_ok_unique[OF ok(1)] unfolding m by (auto split: if_splits)
  ultimately show "mounts_ok k'" by (auto simp: mounts_ok_def)
qed

lemma dfs_unmount_ok:
  assumes ok: "mounts_ok k" "mounted i full k" "fs_ops (d_table k i) = Some ops" "fs_dev (d_table k i) = None"
    and n: "dfs_normalize_path (d_wd k) True None path = Some (Some full)"
    and u: "fo_unmount (en_fs env ops) = Some f" "f i k = (r, k1)" "0 \<le> r" "d_table k1 = d_table k"
  shows "dfs_unmount env True path k = Some (0, set_fs i mfs_zero k1)"
proof -
  have un: "fs_path (d_table k j) = Some full \<longleftrightarrow> j = i" if "j < DFS_FILESYSTEMS_MAX" for j
  proof
    assume "fs_path (d_table k j) = Some full"
    moreover have "d_table k j \<noteq> mfs_zero" using calculation by (auto simp: mfs_zero_def)
    ultimately have "mounted j full k" using ok(1) that by (auto simp: mounts_ok_def mounted_def)
    then show "j = i" using ok(1,2) by (auto simp: mounts_ok_def)
  qed (use ok(2) in \<open>simp add: mounted_def\<close>)
  have "find (\<lambda>j. fs_path (d_table k j) = Some full) [0..<DFS_FILESYSTEMS_MAX] = find (\<lambda>j. j = i) [0..<DFS_FILESYSTEMS_MAX]"
    by (rule find_cong) (use un in auto)
  also have "\<dots> = Some i"
  proof -
    have i: "i < DFS_FILESYSTEMS_MAX" using ok(2) by (simp add: mounted_def)
    show ?thesis unfolding find_Some_iff by (rule exI[of _ i]) (use i in simp)
  qed
  finally show ?thesis using n ok(3,4) u by (simp add: dfs_unmount_def)
qed

text \<open>An initialised file system has no mounts and no descriptors.\<close>

lemma sched_dfs:
  fixes k k' :: "'a kdfs_scheme"
  assumes "ksched.more k' = ksched.more k"
  shows "d_table k' = d_table k" "d_fds k' = d_fds k"
  using assms by (cases k; cases k'; simp)+

lemma dfs_init_ok:
  assumes "sched_ok k" "IpcObj fslock \<notin> set (k_containers k RT_Object_Class_Mutex)" "\<not> d_init k"
  shows "\<exists>k'. dfs_init fslock k = Some (0, k') \<and> d_init k' \<and> mounts_ok k' \<and> fd_ok k' \<and> (\<forall>n. descs k' n = None) \<and>
    (\<forall>path. dfs_filesystem_lookup path k' = None)"
proof -
  let ?k = "k\<lparr>d_types := (\<lambda>_. None), d_table := (\<lambda>_. mfs_zero), d_fds := []\<rparr>"
  have s: "sched_ok ?k" by (rule sched_ok_cong[THEN iffD2, OF _ assms(1)]) (simp add: ksched.truncate_def)
  have m: "RT_Object_Class_Mutex \<in> set rt_object_container" by (simp add: rt_object_container_def)
  have c: "IpcObj fslock \<notin> set (k_containers ?k RT_Object_Class_Mutex)" using assms(2) by simp
  obtain k1 where k1: "sched_frame ?k k1"
    "rt_object_init (IpcObj fslock) RT_Object_Class_Mutex [102, 115, 108, 111, 99, 107] ?k =
      Some (registered (IpcObj fslock) RT_Object_Class_Mutex (RT_Object_Class_Mutex OR RT_Object_Class_Static) [102, 115, 108, 111, 99, 107] k1)"
    by (rule rt_object_init_ok[OF s m c])
  define k2 where "k2 = mutex_setup fslock RT_IPC_FLAG_FIFO
    (registered (IpcObj fslock) RT_Object_Class_Mutex (RT_Object_Class_Mutex OR RT_Object_Class_Static) [102, 115, 108, 111, 99, 107] k1)"
  define k' where "k' = k2\<lparr>d_wd := map_option (\<lambda>_. [SLASH]) (d_wd k2), d_init := True\<rparr>"
  have f: "d_table k1 = (\<lambda>_. mfs_zero)" "d_fds k1 = []" using sched_dfs[of k1 ?k] k1(1) by (simp_all add: sched_frame_def)
  have f2: "d_table k2 = (\<lambda>_. mfs_zero)" "d_fds k2 = []"
    using f by (simp_all add: k2_def registered_def mutex_setup_def rt_ipc_object_init_def set_ipc_flag_def upd_mutex_def)
  have t: "d_table k' = (\<lambda>_. mfs_zero)" "descs k' = (\<lambda>_. None)" "d_fds k' = []" using f2 by (auto simp: k'_def descs_def)
  have nm: "\<not> mounted i p k'" for i p by (simp add: mounted_def t mfs_zero_def)
  have le: "foldl (lookup_step (\<lambda>_. mfs_zero) path) r xs = r" for path r xs by (induction xs) (simp_all add: lookup_step_def mfs_zero_def)
  have "dfs_init fslock k = Some (0, k')" using assms(3) k1(2) by (simp add: dfs_init_def rt_mutex_init_def k'_def k2_def)
  moreover have "mounts_ok k'" using nm by (simp add: mounts_ok_def t(1))
  moreover have "fd_ok k'" by (simp add: fd_ok_def t inj_on_def)
  moreover have "d_init k'" by (simp add: k'_def)
  ultimately show ?thesis using t le by (simp add: dfs_filesystem_lookup_def)
qed

text \<open>
  The table is searched for the path as it was given: under another name of the same directory a
  second file system is mounted on it.
\<close>

lemma mounted_twice:
  assumes ty: "find_type env fstype (d_types k) = Some ops" "fo_mount (en_fs env ops) = Some mnt"
    and n: "dfs_normalize_path (d_wd k) True None path = Some (Some full)"
    and mp: "mount_point_ok env True True tmp junk full k = Some (True, k2)"
    and ok: "mounts_ok k2" "first_free k2 = Some i" "\<And>j. \<not> mounted j path k2" "mounted j full k2"
    and m: "\<And>k'. 0 \<le> fst (mnt i rwflag data k') \<and> d_table (snd (mnt i rwflag data k')) = d_table k'"
  shows "\<exists>k'. dfs_mount env True True True tmp junk None path fstype rwflag data k = Some (0, k') \<and>
    mounted j full k' \<and> mounted i full k' \<and> i \<noteq> j \<and> \<not> mounts_ok k'"
proof -
  define e where "e = (d_table k2 i)\<lparr>fs_path := Some full, fs_ops := Some ops, fs_dev := None\<rparr>"
  obtain r k3 where k3: "mnt i rwflag data (set_fs i e k2) = (r, k3)" by (metis surj_pair)
  have t: "0 \<le> r" "d_table k3 = d_table (set_fs i e k2)" using m[of "set_fs i e k2"] k3 by simp_all
  have ij: "i \<noteq> j" using first_freeD[OF ok(2)] ok(4) by (auto simp: mounted_def)
  have md: "mounted j full k3" "mounted i full k3"
    using ok(4) ij first_freeD(1)[OF ok(2)] unfolding mounted_cong[OF t(2)] by (simp_all add: e_def)
  then have "\<not> mounts_ok k3" using ij mounts_ok_unique by blast
  then show ?thesis using dfs_mount_ok[OF ty n mp ok(1-3) k3[unfolded e_def] t(1)] md ij by blast
qed

section \<open>Partition entries\<close>

definition bytes32 :: "u32 \<Rightarrow> u8 list" where
  "bytes32 w = [ucast w, ucast (drop_bit 8 w), ucast (drop_bit 16 w), ucast (drop_bit 24 w)]"

lemma le32_bytes: "le32 (pre @ bytes32 w @ post) (length pre) = Some w"
proof -
  have "(ucast (ucast w :: u8) OR push_bit 8 (ucast (ucast (drop_bit 8 w) :: u8)) OR push_bit 16 (ucast (ucast (drop_bit 16 w) :: u8)) OR
      push_bit 24 (ucast (ucast (drop_bit 24 w) :: u8)) :: u32) = w"
  proof (rule bit_word_eqI)
    fix n assume n: "n < LENGTH(32)"
    have "n < 32" using n by simp
    then consider "n < 8" | "8 \<le> n \<and> n < 16" | "16 \<le> n \<and> n < 24" | "24 \<le> n \<and> n < 32" by linarith
    then show "bit (ucast (ucast w :: u8) OR push_bit 8 (ucast (ucast (drop_bit 8 w) :: u8)) OR push_bit 16 (ucast (ucast (drop_bit 16 w) :: u8)) OR
      push_bit 24 (ucast (ucast (drop_bit 24 w) :: u8)) :: u32) n = bit w n"
      by cases (auto simp: bit_simps)
  qed
  moreover have "rd (pre @ bytes32 w @ post) (length pre) = Some (ucast w)"
    "rd (pre @ bytes32 w @ post) (length pre + 1) = Some (ucast (drop_bit 8 w))"
    "rd (pre @ bytes32 w @ post) (length pre + 2) = Some (ucast (drop_bit 16 w))"
    "rd (pre @ bytes32 w @ post) (length pre + 3) = Some (ucast (drop_bit 24 w))"
    by (simp_all add: rd_def bytes32_def nth_append eval_nat_numeral)
  ultimately show ?thesis by (simp add: le32_def)
qed

text \<open>An entry of the table with a type and a boot flag is read back as it was written.\<close>

lemma partition_round_trip:
  assumes "length pre = 446 + 16 * n" "n < 4" "boot = 0x80 \<or> boot = 0" "ty \<noteq> 0"
  shows "dfs_filesystem_get_partition part (pre @ [boot, c1, c2, c3, ty, c5, c6, c7] @ bytes32 off @ bytes32 sz @ post) (of_nat n) =
    Some (RT_EOK, part\<lparr>part_type := ty, part_offset := off, part_size := sz\<rparr>)"
proof -
  let ?b = "pre @ [boot, c1, c2, c3, ty, c5, c6, c7] @ bytes32 off @ bytes32 sz @ post"
  have i: "unat (of_nat DPT_ADDRESS + of_nat n * of_nat DPT_ITEM_SIZE :: u32) = length pre"
  proof -
    have "(of_nat DPT_ADDRESS + of_nat n * of_nat DPT_ITEM_SIZE :: u32) = of_nat (446 + 16 * n)" by (simp add: DPT_ADDRESS_def DPT_ITEM_SIZE_def)
    moreover have "unat (of_nat (446 + 16 * n) :: u32) = 446 + 16 * n" 
      using assms(2) by (simp only: unat_of_nat take_bit_nat_eq_self_iff) (simp add: take_bit_nat_def)
    ultimately show ?thesis using assms(1) by simp
  qed
  have b: "rd ?b (length pre) = Some boot" "rd ?b (length pre + 4) = Some ty" by (simp_all add: rd_def nth_append)
  have l: "le32 ?b (length pre + 8) = Some off" "le32 ?b (length pre + 12) = Some sz"
    using le32_bytes[of "pre @ [boot, c1, c2, c3, ty, c5, c6, c7]" off "bytes32 sz @ post"]
      le32_bytes[of "pre @ [boot, c1, c2, c3, ty, c5, c6, c7] @ bytes32 off" sz post]
    by (simp_all add: bytes32_def eval_nat_numeral)
  have "dfs_filesystem_get_partition part buf (of_nat n) = Some (RT_EOK, part\<lparr>part_type := ty, part_offset := off, part_size := sz\<rparr>)"
    if "rd buf (length pre) = Some boot" "rd buf (length pre + 4) = Some ty" "le32 buf (length pre + 8) = Some off"
      "le32 buf (length pre + 12) = Some sz" for buf
    using assms(3,4) i that by (auto simp: dfs_filesystem_get_partition_def)
  then show ?thesis using b l by blast
qed

end
