(* ===== verification/DfsFile.thy ===== *)
theory DfsFile
  imports Dfs
begin

text \<open>
  Files of the device file system: the operations on an open file and on a path
  (\<open>components/dfs/src/dfs_file.c\<close>) and the POSIX calls on descriptor numbers and directory
  streams (\<open>dfs_posix.c\<close>), with the constants of \<open>include/libc\<close> for a build without newlib.
\<close>

unbundle bit_operations_syntax

definition F_GETFL :: int where "F_GETFL = 3"
definition F_SETFL :: int where "F_SETFL = 4"
definition O_CREAT :: u32 where "O_CREAT = 0x40"
definition O_APPEND :: u32 where "O_APPEND = 0x400"
definition O_NONBLOCK :: u32 where "O_NONBLOCK = 0x800"
definition SEEK_SET :: int where "SEEK_SET = 0"
definition SEEK_CUR :: int where "SEEK_CUR = 1"
definition SEEK_END :: int where "SEEK_END = 2"
definition S_IFREG :: u16 where "S_IFREG = 0x8000"
definition S_IFDIR :: u16 where "S_IFDIR = 0x4000"

text \<open>The mode bits for reading and writing, and for execution, by user, group and others.\<close>

definition S_RW :: u16 where "S_RW = 0x1b6"
definition S_X :: u16 where "S_X = 0x49"

section \<open>Open files\<close>

definition dfs_file_ioctl :: "'a kdfs_scheme dfs_env \<Rightarrow> nat option \<Rightarrow> int \<Rightarrow> u32 \<Rightarrow> 'a kdfs_scheme \<Rightarrow> (int \<times> 'a kdfs_scheme) option" where
  "dfs_file_ioctl env fd cmd args k =
    (case fd of None \<Rightarrow> Some (- EINVAL, k)
     | Some p \<Rightarrow> do {
         d \<leftarrow> d_heap k p;
         if fd_type d = FT_REGULAR \<and> cmd = F_GETFL then Some (sint (fd_flags d), k)
         else if fd_type d = FT_REGULAR \<and> cmd = F_SETFL then do {
           let mask = O_NONBLOCK OR O_APPEND;
           k1 \<leftarrow> upd_fd p (\<lambda>d. d\<lparr>fd_flags := (fd_flags d AND NOT mask) OR (args AND mask)\<rparr>) k;
           Some (0, k1)
         } else do {
           fops \<leftarrow> fd_fops d;
           Some (case fop_ioctl (en_file env fops) of Some f \<Rightarrow> f p cmd args k | None \<Rightarrow> (- ENOSYS, k))
         }
       })"

definition dfs_file_read :: "'a kdfs_scheme dfs_env \<Rightarrow> nat option \<Rightarrow> nat \<Rightarrow> u32 \<Rightarrow> 'a kdfs_scheme \<Rightarrow> (int \<times> 'a kdfs_scheme) option" where
  "dfs_file_read env fd buf len k =
    (case fd of None \<Rightarrow> Some (- EINVAL, k)
     | Some p \<Rightarrow> do {
         d \<leftarrow> d_heap k p;
         fops \<leftarrow> fd_fops d;
         (case fop_read (en_file env fops) of None \<Rightarrow> Some (- ENOSYS, k)
          | Some f \<Rightarrow> do {
              let (result, k1) = f p buf len k;
              if result < 0 then do { k2 \<leftarrow> upd_fd p (\<lambda>d. d\<lparr>fd_flags := fd_flags d OR DFS_F_EOF\<rparr>) k1; Some (result, k2) }
              else Some (result, k1)
            })
       })"

definition dfs_file_getdents :: "'a kdfs_scheme dfs_env \<Rightarrow> nat option \<Rightarrow> nat \<Rightarrow> u32 \<Rightarrow> 'a kdfs_scheme \<Rightarrow> (int \<times> 'a kdfs_scheme) option" where
  "dfs_file_getdents env fd dirp nbytes k =
    (case fd of None \<Rightarrow> Some (- EINVAL, k)
     | Some p \<Rightarrow> do {
         d \<leftarrow> d_heap k p;
         if fd_type d \<noteq> FT_DIRECTORY then Some (- EINVAL, k)
         else do {
           fops \<leftarrow> fd_fops d;
           Some (case fop_getdents (en_file env fops) of Some f \<Rightarrow> f p dirp nbytes k | None \<Rightarrow> (- ENOSYS, k))
         }
       })"

definition dfs_file_write :: "'a kdfs_scheme dfs_env \<Rightarrow> nat option \<Rightarrow> nat \<Rightarrow> u32 \<Rightarrow> 'a kdfs_scheme \<Rightarrow> (int \<times> 'a kdfs_scheme) option" where
  "dfs_file_write env fd buf len k =
    (case fd of None \<Rightarrow> Some (- EINVAL, k)
     | Some p \<Rightarrow> do {
         d \<leftarrow> d_heap k p;
         fops \<leftarrow> fd_fops d;
         Some (case fop_write (en_file env fops) of None \<Rightarrow> (- ENOSYS, k) | Some f \<Rightarrow> f p buf len k)
       })"

definition dfs_file_flush :: "'a kdfs_scheme dfs_env \<Rightarrow> nat option \<Rightarrow> 'a kdfs_scheme \<Rightarrow> (int \<times> 'a kdfs_scheme) option" where
  "dfs_file_flush env fd k =
    (case fd of None \<Rightarrow> Some (- EINVAL, k)
     | Some p \<Rightarrow> do {
         d \<leftarrow> d_heap k p;
         fops \<leftarrow> fd_fops d;
         Some (case fop_flush (en_file env fops) of None \<Rightarrow> (- ENOSYS, k) | Some f \<Rightarrow> f p k)
       })"

definition dfs_file_lseek :: "'a kdfs_scheme dfs_env \<Rightarrow> nat option \<Rightarrow> int \<Rightarrow> 'a kdfs_scheme \<Rightarrow> (int \<times> 'a kdfs_scheme) option" where
  "dfs_file_lseek env fd offset k =
    (case fd of None \<Rightarrow> Some (- EINVAL, k)
     | Some p \<Rightarrow> do {
         d \<leftarrow> d_heap k p;
         fops \<leftarrow> fd_fops d;
         (case fop_lseek (en_file env fops) of None \<Rightarrow> Some (- ENOSYS, k)
          | Some f \<Rightarrow> do {
              let (result, k1) = f p offset k;
              if result \<ge> 0 then do { k2 \<leftarrow> upd_fd p (\<lambda>d. d\<lparr>fd_pos := result\<rparr>) k1; Some (result, k2) }
              else Some (result, k1)
            })
       })"

section \<open>Files by path\<close>

text \<open>Whether a descriptor of the table is open on the file: the first such one ends the search.\<close>

fun open_scan :: "(nat \<Rightarrow> dfd option) \<Rightarrow> nat \<Rightarrow> u8 list \<Rightarrow> nat option list \<Rightarrow> bool option" where
  "open_scan h i name [] = Some False"
| "open_scan h i name (None # ps) = open_scan h i name ps"
| "open_scan h i name (Some p # ps) = do {
     d \<leftarrow> h p;
     if fd_fops d \<noteq> None \<and> fd_path d \<noteq> None \<and> fd_fs d = Some i \<and> fd_path d = Some name then Some True
     else open_scan h i name ps
   }"

definition fd_is_open :: "bool \<Rightarrow> u8 list \<Rightarrow> 'a kdfs_scheme \<Rightarrow> int option" where
  "fd_is_open mem pathname k = do {
     full \<leftarrow> dfs_normalize_path (d_wd k) mem None pathname;
     (case full of None \<Rightarrow> Some (-1)
      | Some fullpath \<Rightarrow>
          (case dfs_filesystem_lookup fullpath k of None \<Rightarrow> Some (-1)
           | Some i \<Rightarrow> do {
               mp \<leftarrow> fs_path (d_table k i);
               let mountpath = (if mp = [SLASH] then fullpath else drop (length mp) fullpath);
               found \<leftarrow> open_scan (d_heap k) i mountpath (d_fds k);
               Some (if found then 0 else -1)
             }))
   }"

definition dfs_file_unlink :: "'a kdfs_scheme dfs_env \<Rightarrow> bool \<Rightarrow> bool \<Rightarrow> u8 list \<Rightarrow> 'a kdfs_scheme \<Rightarrow> (int \<times> 'a kdfs_scheme) option" where
  "dfs_file_unlink env mem mem2 path k = do {
     full \<leftarrow> dfs_normalize_path (d_wd k) mem None path;
     (case full of None \<Rightarrow> Some (- EINVAL, k)
      | Some fullpath \<Rightarrow>
          (case dfs_filesystem_lookup fullpath k of None \<Rightarrow> Some (- ENOENT, k)
           | Some i \<Rightarrow> do {
               busy \<leftarrow> fd_is_open mem2 fullpath k;
               if busy = 0 then Some (- EBUSY, k)
               else do {
                 fo \<leftarrow> map_option (en_fs env) (fs_ops (d_table k i));
                 (case fo_unlink fo of None \<Rightarrow> Some (- ENOSYS, k)
                  | Some f \<Rightarrow> do {
                      mp \<leftarrow> fs_path (d_table k i);
                      name \<leftarrow> (if fo_flags fo AND DFS_FS_FLAG_FULLPATH \<noteq> 0 then Some fullpath else below_mount mp fullpath);
                      Some (f i name k)
                    })
               }
             }))
   }"

definition dfs_file_stat :: "'a kdfs_scheme dfs_env \<Rightarrow> bool \<Rightarrow> u8 list \<Rightarrow> nat \<Rightarrow> 'a kdfs_scheme \<Rightarrow> (int \<times> 'a kdfs_scheme) option" where
  "dfs_file_stat env mem path buf k = do {
     full \<leftarrow> dfs_normalize_path (d_wd k) mem None path;
     (case full of None \<Rightarrow> Some (-1, k)
      | Some fullpath \<Rightarrow>
          (case dfs_filesystem_lookup fullpath k of None \<Rightarrow> Some (- ENOENT, k)
           | Some i \<Rightarrow> do {
               mp \<leftarrow> fs_path (d_table k i);
               sub \<leftarrow> dfs_subdir mp fullpath;
               if fullpath = [SLASH] \<or> sub = None
               then Some (RT_EOK, k\<lparr>d_stat := (d_stat k)(buf := (d_stat k buf)\<lparr>st_dev := None,
                      st_mode := S_RW OR (S_IFDIR OR S_X), st_size := 0, st_mtime := 0\<rparr>)\<rparr>)
               else do {
                 fo \<leftarrow> map_option (en_fs env) (fs_ops (d_table k i));
                 Some (case fo_stat fo of None \<Rightarrow> (- ENOSYS, k)
                   | Some f \<Rightarrow> f i (if fo_flags fo AND DFS_FS_FLAG_FULLPATH \<noteq> 0 then fullpath else drop (the sub) fullpath) buf k)
               }
             }))
   }"

text \<open>Below a mount point itself \<open>dfs_subdir\<close> is null, and the file system is given the null pointer.\<close>

definition dfs_file_rename :: "'a kdfs_scheme dfs_env \<Rightarrow> bool \<Rightarrow> bool \<Rightarrow> u8 list \<Rightarrow> u8 list \<Rightarrow> 'a kdfs_scheme \<Rightarrow> (int \<times> 'a kdfs_scheme) option" where
  "dfs_file_rename env mem mem2 oldpath newpath k = do {
     old \<leftarrow> dfs_normalize_path (d_wd k) mem None oldpath;
     (case old of None \<Rightarrow> Some (- ENOENT, k)
      | Some oldfullpath \<Rightarrow> do {
          new \<leftarrow> dfs_normalize_path (d_wd k) mem2 None newpath;
          (case new of None \<Rightarrow> Some (- ENOENT, k)
           | Some newfullpath \<Rightarrow>
               if dfs_filesystem_lookup oldfullpath k \<noteq> dfs_filesystem_lookup newfullpath k then Some (- EXDEV, k)
               else do {
                 i \<leftarrow> dfs_filesystem_lookup oldfullpath k;
                 fo \<leftarrow> map_option (en_fs env) (fs_ops (d_table k i));
                 (case fo_rename fo of None \<Rightarrow> Some (- ENOSYS, k)
                  | Some f \<Rightarrow>
                      if fo_flags fo AND DFS_FS_FLAG_FULLPATH \<noteq> 0 then Some (f i (Some oldfullpath) (Some newfullpath) k)
                      else do {
                        mp \<leftarrow> fs_path (d_table k i);
                        os \<leftarrow> dfs_subdir mp oldfullpath;
                        ns \<leftarrow> dfs_subdir mp newfullpath;
                        Some (f i (map_option (\<lambda>j. drop j oldfullpath) os) (map_option (\<lambda>j. drop j newfullpath) ns) k)
                      })
               })
        })
   }"

section \<open>POSIX calls\<close>

text \<open>What the heap gives a call: room in the descriptor table, a descriptor, the full path and its copy.\<close>

record dfs_mem =
  m_room :: bool
  m_fd :: "nat option"
  m_path :: bool
  m_dup :: bool

definition posix_open :: "'a kdfs_scheme dfs_env \<Rightarrow> dfs_mem \<Rightarrow> u8 list \<Rightarrow> u32 \<Rightarrow> 'a kdfs_scheme \<Rightarrow> (int \<times> 'a kdfs_scheme) option" where
  "posix_open env m file flags k = do {
     (fd, k1) \<leftarrow> fd_new (m_room m) (m_fd m) k;
     if fd < 0 then Some (-1, rt_set_errno (- ENOMEM) k1)
     else do {
       (d, k2) \<leftarrow> fd_get fd k1;
       (result, k3) \<leftarrow> dfs_file_open env (m_path m) (m_dup m) d file flags k2;
       p \<leftarrow> d;
       k4 \<leftarrow> fd_put p k3;
       if result < 0 then do { k5 \<leftarrow> fd_put p k4; Some (-1, rt_set_errno result k5) }
       else Some (fd, k4)
     }
   }"

definition posix_close :: "'a kdfs_scheme dfs_env \<Rightarrow> int \<Rightarrow> 'a kdfs_scheme \<Rightarrow> (int \<times> 'a kdfs_scheme) option" where
  "posix_close env fd k = do {
     (d, k1) \<leftarrow> fd_get fd k;
     (case d of None \<Rightarrow> Some (-1, rt_set_errno (- EBADF) k1)
      | Some p \<Rightarrow> do {
          (result, k2) \<leftarrow> dfs_file_close env d k1;
          k3 \<leftarrow> fd_put p k2;
          if result < 0 then Some (-1, rt_set_errno result k3)
          else do { k4 \<leftarrow> fd_put p k3; Some (0, k4) }
        })
   }"

text \<open>A call on an open file: the descriptor is held while \<open>f\<close> runs, and a negative result goes to the error number.\<close>

definition with_fd :: "int \<Rightarrow> (nat \<Rightarrow> 'a kdfs_scheme \<Rightarrow> (int \<times> 'a kdfs_scheme) option) \<Rightarrow> 'a kdfs_scheme \<Rightarrow> (int \<times> 'a kdfs_scheme) option" where
  "with_fd fd f k = do {
     (d, k1) \<leftarrow> fd_get fd k;
     (case d of None \<Rightarrow> Some (-1, rt_set_errno (- EBADF) k1)
      | Some p \<Rightarrow> do {
          (result, k2) \<leftarrow> f p k1;
          k3 \<leftarrow> fd_put p k2;
          Some (if result < 0 then (-1, rt_set_errno result k3) else (result, k3))
        })
   }"

definition posix_read :: "'a kdfs_scheme dfs_env \<Rightarrow> int \<Rightarrow> nat \<Rightarrow> u32 \<Rightarrow> 'a kdfs_scheme \<Rightarrow> (int \<times> 'a kdfs_scheme) option" where
  "posix_read env fd buf len = with_fd fd (\<lambda>p. dfs_file_read env (Some p) buf len)"

definition posix_write :: "'a kdfs_scheme dfs_env \<Rightarrow> int \<Rightarrow> nat \<Rightarrow> u32 \<Rightarrow> 'a kdfs_scheme \<Rightarrow> (int \<times> 'a kdfs_scheme) option" where
  "posix_write env fd buf len = with_fd fd (\<lambda>p. dfs_file_write env (Some p) buf len)"

text \<open>The offset asked for; a sum that leaves the signed integers has no result, and one with the unsigned size wraps.\<close>

definition seek_offset :: "dfd \<Rightarrow> int \<Rightarrow> int \<Rightarrow> int option option" where
  "seek_offset d offset whence =
    (if whence = SEEK_SET then Some (Some offset)
     else if whence = SEEK_CUR
     then (let o1 = offset + fd_pos d in if - (2 ^ 31) \<le> o1 \<and> o1 < 2 ^ 31 then Some (Some o1) else None)
     else if whence = SEEK_END then Some (Some (sint (of_int offset + fd_size d)))
     else Some None)"

definition posix_lseek :: "'a kdfs_scheme dfs_env \<Rightarrow> int \<Rightarrow> int \<Rightarrow> int \<Rightarrow> 'a kdfs_scheme \<Rightarrow> (int \<times> 'a kdfs_scheme) option" where
  "posix_lseek env fd offset whence = with_fd fd (\<lambda>p k. do {
     d \<leftarrow> d_heap k p;
     to \<leftarrow> seek_offset d offset whence;
     (case to of None \<Rightarrow> Some (- EINVAL, k)
      | Some o1 \<Rightarrow> if o1 < 0 then Some (- EINVAL, k)
        else do { (result, k1) \<leftarrow> dfs_file_lseek env (Some p) o1 k; Some (if result < 0 then result else o1, k1) })
   })"

definition posix_rename :: "'a kdfs_scheme dfs_env \<Rightarrow> bool \<Rightarrow> bool \<Rightarrow> u8 list \<Rightarrow> u8 list \<Rightarrow> 'a kdfs_scheme \<Rightarrow> (int \<times> 'a kdfs_scheme) option" where
  "posix_rename env mem mem2 old_file new_file k = do {
     (result, k1) \<leftarrow> dfs_file_rename env mem mem2 old_file new_file k;
     Some (if result < 0 then (-1, rt_set_errno result k1) else (0, k1))
   }"

definition posix_unlink :: "'a kdfs_scheme dfs_env \<Rightarrow> bool \<Rightarrow> bool \<Rightarrow> u8 list \<Rightarrow> 'a kdfs_scheme \<Rightarrow> (int \<times> 'a kdfs_scheme) option" where
  "posix_unlink env mem mem2 pathname k = do {
     (result, k1) \<leftarrow> dfs_file_unlink env mem mem2 pathname k;
     Some (if result < 0 then (-1, rt_set_errno result k1) else (0, k1))
   }"

definition posix_rmdir :: "'a kdfs_scheme dfs_env \<Rightarrow> bool \<Rightarrow> bool \<Rightarrow> u8 list \<Rightarrow> 'a kdfs_scheme \<Rightarrow> (int \<times> 'a kdfs_scheme) option" where
  "posix_rmdir env mem mem2 pathname k = do {
     (result, k1) \<leftarrow> dfs_file_unlink env mem mem2 pathname k;
     Some (if result < 0 then (-1, rt_set_errno result k1) else (0, k1))
   }"

definition posix_stat :: "'a kdfs_scheme dfs_env \<Rightarrow> bool \<Rightarrow> u8 list \<Rightarrow> nat \<Rightarrow> 'a kdfs_scheme \<Rightarrow> (int \<times> 'a kdfs_scheme) option" where
  "posix_stat env mem file buf k = do {
     (result, k1) \<leftarrow> dfs_file_stat env mem file buf k;
     Some (if result < 0 then (-1, rt_set_errno result k1) else (result, k1))
   }"

definition posix_access :: "'a kdfs_scheme dfs_env \<Rightarrow> bool \<Rightarrow> u8 list \<Rightarrow> nat \<Rightarrow> 'a kdfs_scheme \<Rightarrow> (int \<times> 'a kdfs_scheme) option" where
  "posix_access env mem path sb k = do {
     (result, k1) \<leftarrow> posix_stat env mem path sb k;
     Some (if result < 0 then (-1, k1) else (0, k1))
   }"

definition posix_fstat :: "int \<Rightarrow> nat \<Rightarrow> 'a kdfs_scheme \<Rightarrow> (int \<times> 'a kdfs_scheme) option" where
  "posix_fstat fildes buf = with_fd fildes (\<lambda>p k. do {
     d \<leftarrow> d_heap k p;
     let mode = S_IFREG OR S_RW;
     Some (RT_EOK, k\<lparr>d_stat := (d_stat k)(buf := (d_stat k buf)\<lparr>st_dev := None,
       st_mode := (if fd_type d = FT_DIRECTORY then (mode AND NOT S_IFREG) OR (S_IFDIR OR S_X) else mode),
       st_size := fd_size d, st_mtime := 0\<rparr>)\<rparr>)
   })"

text \<open>A failed flush is returned as it is, without the error number.\<close>

definition posix_fsync :: "'a kdfs_scheme dfs_env \<Rightarrow> int \<Rightarrow> 'a kdfs_scheme \<Rightarrow> (int \<times> 'a kdfs_scheme) option" where
  "posix_fsync env fildes k = do {
     (d, k1) \<leftarrow> fd_get fildes k;
     (case d of None \<Rightarrow> Some (-1, rt_set_errno (- EBADF) k1)
      | Some p \<Rightarrow> do {
          (ret, k2) \<leftarrow> dfs_file_flush env d k1;
          k3 \<leftarrow> fd_put p k2;
          Some (ret, k3)
        })
   }"

definition posix_fcntl :: "'a kdfs_scheme dfs_env \<Rightarrow> int \<Rightarrow> int \<Rightarrow> u32 \<Rightarrow> 'a kdfs_scheme \<Rightarrow> (int \<times> 'a kdfs_scheme) option" where
  "posix_fcntl env fildes cmd arg = with_fd fildes (\<lambda>p. dfs_file_ioctl env (Some p) cmd arg)"

definition posix_ioctl :: "'a kdfs_scheme dfs_env \<Rightarrow> int \<Rightarrow> int \<Rightarrow> u32 \<Rightarrow> 'a kdfs_scheme \<Rightarrow> (int \<times> 'a kdfs_scheme) option" where
  "posix_ioctl env fildes cmd arg = posix_fcntl env fildes cmd arg"

definition posix_statfs :: "'a kdfs_scheme dfs_env \<Rightarrow> u8 list \<Rightarrow> nat \<Rightarrow> 'a kdfs_scheme \<Rightarrow> (int \<times> 'a kdfs_scheme) option" where
  "posix_statfs env path buf k = do {
     (result, k1) \<leftarrow> dfs_statfs env path buf k;
     Some (if result < 0 then (-1, rt_set_errno result k1) else (result, k1))
   }"

definition posix_mkdir :: "'a kdfs_scheme dfs_env \<Rightarrow> dfs_mem \<Rightarrow> u8 list \<Rightarrow> 'a kdfs_scheme \<Rightarrow> (int \<times> 'a kdfs_scheme) option" where
  "posix_mkdir env m path k = do {
     (fd, k1) \<leftarrow> fd_new (m_room m) (m_fd m) k;
     if fd = -1 then Some (-1, rt_set_errno (- ENOMEM) k1)
     else do {
       (d, k2) \<leftarrow> fd_get fd k1;
       (result, k3) \<leftarrow> dfs_file_open env (m_path m) (m_dup m) d path (O_DIRECTORY OR O_CREAT) k2;
       p \<leftarrow> d;
       if result < 0 then do {
         k4 \<leftarrow> fd_put p k3;
         k5 \<leftarrow> fd_put p k4;
         Some (-1, rt_set_errno result k5)
       } else do {
         (_, k4) \<leftarrow> dfs_file_close env d k3;
         k5 \<leftarrow> fd_put p k4;
         k6 \<leftarrow> fd_put p k5;
         Some (0, k6)
       }
     }
   }"

section \<open>Directory streams\<close>

definition upd_dir :: "nat \<Rightarrow> (dfs_dir \<Rightarrow> dfs_dir) \<Rightarrow> 'a kdfs_scheme \<Rightarrow> 'a kdfs_scheme option" where
  "upd_dir s f k = map_option (\<lambda>d. k\<lparr>d_dirs := (d_dirs k)(s \<mapsto> f d)\<rparr>) (d_dirs k s)"

text \<open>\<open>stream\<close> is the memory for the directory stream.\<close>

definition opendir :: "'a kdfs_scheme dfs_env \<Rightarrow> dfs_mem \<Rightarrow> nat option \<Rightarrow> u8 list \<Rightarrow> 'a kdfs_scheme \<Rightarrow> (nat option \<times> 'a kdfs_scheme) option" where
  "opendir env m stream name k = do {
     (fd, k1) \<leftarrow> fd_new (m_room m) (m_fd m) k;
     if fd = -1 then Some (None, rt_set_errno (- ENOMEM) k1)
     else do {
       (d, k2) \<leftarrow> fd_get fd k1;
       (result, k3) \<leftarrow> dfs_file_open env (m_path m) (m_dup m) d name (O_RDONLY OR O_DIRECTORY) k2;
       p \<leftarrow> d;
       if result \<ge> 0 then do {
         k4 \<leftarrow> (case stream of
             None \<Rightarrow> do { (_, k4) \<leftarrow> dfs_file_close env d k3; fd_put p k4 }
           | Some s \<Rightarrow> Some (k3\<lparr>d_dirs := (d_dirs k3)(s \<mapsto> \<lparr>dir_fd = fd, dir_buf = replicate 512 0, dir_num = 0, dir_cur = 0\<rparr>)\<rparr>));
         k5 \<leftarrow> fd_put p k4;
         Some (stream, k5)
       } else do {
         k4 \<leftarrow> fd_put p k3;
         k5 \<leftarrow> fd_put p k4;
         Some (None, rt_set_errno result k5)
       }
     }
   }"

text \<open>The length of the entry at \<open>cur\<close>: the half-word after its type and name length.\<close>

definition dirent_reclen :: "u8 list \<Rightarrow> int \<Rightarrow> int option" where
  "dirent_reclen b cur =
    (if cur < 0 then None
     else do { lo \<leftarrow> rd b (nat cur + 2); hi \<leftarrow> rd b (nat cur + 3); Some (uint lo + 256 * uint hi) })"

text \<open>
  The next entry, as its place in the buffer of the stream. The file system is asked for more
  entries where the buffer has no more; it is given the stream to fill.
\<close>

definition readdir :: "'a kdfs_scheme dfs_env \<Rightarrow> nat \<Rightarrow> 'a kdfs_scheme \<Rightarrow> (int option \<times> 'a kdfs_scheme) option" where
  "readdir env s k = do {
     d0 \<leftarrow> d_dirs k s;
     (fd, k1) \<leftarrow> fd_get (dir_fd d0) k;
     (case fd of None \<Rightarrow> Some (None, rt_set_errno (- EBADF) k1)
      | Some p \<Rightarrow> do {
          k2 \<leftarrow> (if dir_num d0 \<noteq> 0
                 then do { n \<leftarrow> dirent_reclen (dir_buf d0) (dir_cur d0); upd_dir s (\<lambda>d. d\<lparr>dir_cur := dir_cur d + n\<rparr>) k1 }
                 else Some k1);
          d \<leftarrow> d_dirs k2 s;
          if dir_num d = 0 \<or> dir_cur d \<ge> dir_num d then do {
            (result, k3) \<leftarrow> dfs_file_getdents env fd s 511 k2;
            if result \<le> 0 then do { k4 \<leftarrow> fd_put p k3; Some (None, rt_set_errno result k4) }
            else do {
              k4 \<leftarrow> upd_dir s (\<lambda>d. d\<lparr>dir_num := result, dir_cur := 0\<rparr>) k3;
              k5 \<leftarrow> fd_put p k4;
              Some (Some 0, k5)
            }
          } else do {
            k3 \<leftarrow> fd_put p k2;
            Some (Some (dir_cur d), k3)
          }
        })
   }"

definition telldir :: "nat \<Rightarrow> 'a kdfs_scheme \<Rightarrow> (int \<times> 'a kdfs_scheme) option" where
  "telldir s k = do {
     d \<leftarrow> d_dirs k s;
     (fd, k1) \<leftarrow> fd_get (dir_fd d) k;
     (case fd of None \<Rightarrow> Some (0, rt_set_errno (- EBADF) k1)
      | Some p \<Rightarrow> do {
          f \<leftarrow> d_heap k1 p;
          k2 \<leftarrow> fd_put p k1;
          Some (fd_pos f - dir_num d + dir_cur d, k2)
        })
   }"

definition seekdir :: "'a kdfs_scheme dfs_env \<Rightarrow> nat \<Rightarrow> int \<Rightarrow> 'a kdfs_scheme \<Rightarrow> 'a kdfs_scheme option" where
  "seekdir env s offset k = do {
     d \<leftarrow> d_dirs k s;
     (fd, k1) \<leftarrow> fd_get (dir_fd d) k;
     (case fd of None \<Rightarrow> Some (rt_set_errno (- EBADF) k1)
      | Some p \<Rightarrow> do {
          (result, k2) \<leftarrow> dfs_file_lseek env fd offset k1;
          k3 \<leftarrow> (if result \<ge> 0 then upd_dir s (\<lambda>d. d\<lparr>dir_num := 0, dir_cur := 0\<rparr>) k2 else Some k2);
          fd_put p k3
        })
   }"

definition rewinddir :: "'a kdfs_scheme dfs_env \<Rightarrow> nat \<Rightarrow> 'a kdfs_scheme \<Rightarrow> 'a kdfs_scheme option" where
  "rewinddir env s k = do {
     d \<leftarrow> d_dirs k s;
     (fd, k1) \<leftarrow> fd_get (dir_fd d) k;
     (case fd of None \<Rightarrow> Some (rt_set_errno (- EBADF) k1)
      | Some p \<Rightarrow> do {
          (result, k2) \<leftarrow> dfs_file_lseek env fd 0 k1;
          k3 \<leftarrow> (if result \<ge> 0 then upd_dir s (\<lambda>d. d\<lparr>dir_num := 0, dir_cur := 0\<rparr>) k2 else Some k2);
          fd_put p k3
        })
   }"

definition closedir :: "'a kdfs_scheme dfs_env \<Rightarrow> nat \<Rightarrow> 'a kdfs_scheme \<Rightarrow> (int \<times> 'a kdfs_scheme) option" where
  "closedir env s k = do {
     d \<leftarrow> d_dirs k s;
     (fd, k1) \<leftarrow> fd_get (dir_fd d) k;
     (case fd of None \<Rightarrow> Some (-1, rt_set_errno (- EBADF) k1)
      | Some p \<Rightarrow> do {
          (result, k2) \<leftarrow> dfs_file_close env fd k1;
          k3 \<leftarrow> fd_put p k2;
          k4 \<leftarrow> fd_put p k3;
          let k5 = k4\<lparr>d_dirs := (d_dirs k4)(s := None)\<rparr>;
          Some (if result < 0 then (-1, rt_set_errno result k5) else (0, k5))
        })
   }"


section \<open>The working directory\<close>

definition DFS_PATH_MAX :: nat where "DFS_PATH_MAX = 256"

text \<open>
  Changing the working directory, where there is one. A path that fills its array leaves no null
  byte there: no result.
\<close>

definition chdir :: "'a kdfs_scheme dfs_env \<Rightarrow> bool \<Rightarrow> dfs_mem \<Rightarrow> nat option \<Rightarrow> u8 list option \<Rightarrow> 'a kdfs_scheme \<Rightarrow> (int \<times> 'a kdfs_scheme) option" where
  "chdir env mem m stream path k =
    (case path of None \<Rightarrow> Some (0, k)
     | Some s \<Rightarrow>
         if length s > DFS_PATH_MAX then Some (-1, rt_set_errno (- ENOTDIR) k)
         else do {
           full \<leftarrow> dfs_normalize_path (d_wd k) mem None s;
           (case full of None \<Rightarrow> Some (-1, rt_set_errno (- ENOTDIR) k)
            | Some fullpath \<Rightarrow> do {
                (d, k1) \<leftarrow> opendir env m stream fullpath k;
                (case d of None \<Rightarrow> Some (-1, k1)
                 | Some t \<Rightarrow> do {
                     (_, k2) \<leftarrow> closedir env t k1;
                     rt_assert (length fullpath < DFS_PATH_MAX);
                     Some (0, k2\<lparr>d_wd := Some fullpath\<rparr>)
                   })
              })
         })"

text \<open>The bytes written to the caller's buffer: the directory, cut or padded with null bytes to its length.\<close>

definition getcwd :: "nat \<Rightarrow> 'a kdfs_scheme \<Rightarrow> u8 list" where
  "getcwd n k = (case d_wd k of None \<Rightarrow> [] | Some w \<Rightarrow> take n (w @ replicate (n - length w) 0))"

section \<open>Opening and closing a descriptor number\<close>

definition plenty :: "nat \<Rightarrow> dfs_mem" where
  "plenty p = \<lparr>m_room = True, m_fd = Some p, m_path = True, m_dup = True\<rparr>"

lemma leads_to_cong: "d_table k' = d_table k \<Longrightarrow> d_wd k' = d_wd k \<Longrightarrow> leads_to env path k' i fo name = leads_to env path k i fo name"
  by (simp add: leads_to_def lookup_frame[of k' k])

lemma descs_cong: "d_fds k' = d_fds k \<Longrightarrow> descs k' = descs k"
  by (simp add: descs_def fun_eq_iff)

lemma fd_new_ok':
  assumes "fd_ok k" "lowest_free k < DFS_FD_MAX" "d_heap k p = None"
  obtains k1 where "fd_new True (Some p) k = Some (int (lowest_free k) + int DFS_FD_OFFSET, k1)"
    "descs k1 = (descs k)(lowest_free k \<mapsto> p)" "d_heap k1 = (d_heap k)(p \<mapsto> fd_fresh)" "d_table k1 = d_table k" "d_wd k1 = d_wd k"
    "fd_ok k1"
proof -
  obtain fds where fds: "fd_new True (Some p) k = Some (int (lowest_free k) + int DFS_FD_OFFSET, k\<lparr>d_fds := fds, d_heap := (d_heap k)(p \<mapsto> fd_fresh)\<rparr>)"
    "descs (k\<lparr>d_fds := fds\<rparr>) = (descs k)(lowest_free k \<mapsto> p)" "length fds \<le> DFS_FD_MAX"
    using fd_new_ok[OF assms] by blast
  let ?k = "k\<lparr>d_fds := fds, d_heap := (d_heap k)(p \<mapsto> fd_fresh)\<rparr>"
  have de: "descs ?k = (descs k)(lowest_free k \<mapsto> p)" using fds(2) descs_cong[of ?k "k\<lparr>d_fds := fds\<rparr>"] by simp
  have np: "descs k j \<noteq> Some p" for j using fd_okD[OF assms(1), of j p] assms(3) by auto
  have "fd_ok ?k"
  proof (rule fd_ok_upd[OF assms(1) _ de])
    show "inj_on ((descs k)(lowest_free k \<mapsto> p)) (dom ((descs k)(lowest_free k \<mapsto> p)))"
      using fd_ok_inj[OF assms(1)] np by (auto simp: inj_on_def dom_def split: if_splits)
    show "\<exists>d. d_heap ?k q = Some d \<and> 0 < fd_ref d \<and> fd_magic d = DFS_FD_MAGIC" if "((descs k)(lowest_free k \<mapsto> p)) j = Some q" for j q
      using that np[of j] fd_okD[OF assms(1), of j q] by (auto simp: fd_fresh_def split: if_splits)
    show "length (d_fds ?k) \<le> DFS_FD_MAX" using fds(3) by simp
  qed
  then show ?thesis using that[OF fds(1) de] by simp
qed

lemma fd_put_last':
  assumes "fd_ok k0" "descs k0 n = Some p" "descs k = descs k0" "d_heap k = (d_heap k0)(p \<mapsto> d)" "fd_ref d = 1" "length (d_fds k) \<le> DFS_FD_MAX"
  obtains k' where "fd_put p k = Some k'" "descs k' = (descs k0)(n := None)" "d_heap k' = (d_heap k0)(p := None)"
    "d_table k' = d_table k" "d_wd k' = d_wd k" "fd_ok k'"
proof -
  have h: "d_heap k p = Some d" using assms(4) by simp
  obtain fds where fds: "fd_put p k = Some (k\<lparr>d_fds := fds, d_heap := (d_heap k)(p := None)\<rparr>)"
    "descs (k\<lparr>d_fds := fds\<rparr>) = (descs k0)(n := None)" "length fds = length (d_fds k)"
    using fd_put_last[OF assms(1,2,3) h assms(5)] by blast
  let ?k = "k\<lparr>d_fds := fds, d_heap := (d_heap k)(p := None)\<rparr>"
  have de: "descs ?k = (descs k0)(n := None)" using fds(2) descs_cong[of ?k "k\<lparr>d_fds := fds\<rparr>"] by simp
  have np: "j = n" if "descs k0 j = Some p" for j using fd_ok_inj[OF assms(1,2) that] by simp
  have "fd_ok ?k"
  proof (rule fd_ok_upd[OF assms(1) _ de])
    show "inj_on ((descs k0)(n := None)) (dom ((descs k0)(n := None)))"
      using fd_ok_inj[OF assms(1)] by (auto simp: inj_on_def dom_def split: if_splits)
    show "\<exists>d. d_heap ?k q = Some d \<and> 0 < fd_ref d \<and> fd_magic d = DFS_FD_MAGIC" if "((descs k0)(n := None)) j = Some q" for j q
      using that np[of j] fd_okD[OF assms(1), of j q] assms(4) by (auto split: if_splits)
    show "length (d_fds ?k) \<le> DFS_FD_MAX" using fds(3) assms(6) by simp
  qed
  then show ?thesis using that[OF fds(1) de] assms(4) by simp
qed

text \<open>The number while the file is being opened: the new descriptor with one more reference.\<close>

lemma posix_open_call:
  assumes ok: "fd_ok k" "lowest_free k < DFS_FD_MAX" "d_heap k p = None"
    and l: "leads_to env path k i fo name" and f: "fop_open (en_file env (fo_fops fo)) = Some f" and g: "good_files (en_file env (fo_fops fo))"
  obtains k1 k2 k3 d r where "fd_new True (Some p) k = Some (int (lowest_free k) + int DFS_FD_OFFSET, k1)"
    "fd_get (int (lowest_free k) + int DFS_FD_OFFSET) k1 = Some (Some p, k2)"
    "dfs_file_open env True True (Some p) path flags k2 = Some (r, k3)" "fd_ok k1" "descs k3 = descs k1"
    "descs k1 = (descs k)(lowest_free k \<mapsto> p)" "d_heap k3 = (d_heap k)(p \<mapsto> d)" "d_heap k1 = (d_heap k)(p \<mapsto> fd_fresh)"
    "fd_ref d = 2" "fd_magic d = DFS_FD_MAGIC" "fd_fops d = Some (fo_fops fo)" "fd_fs d = Some i" "fd_path d = (if r < 0 then None else Some name)"
    "d_table k3 = d_table k" "length (d_fds k3) \<le> DFS_FD_MAX" "\<exists>k'. r = (if fst (f p k') < 0 then fst (f p k') else 0)"
proof -
  obtain k1 where k1: "fd_new True (Some p) k = Some (int (lowest_free k) + int DFS_FD_OFFSET, k1)"
    "descs k1 = (descs k)(lowest_free k \<mapsto> p)" "d_heap k1 = (d_heap k)(p \<mapsto> fd_fresh)" "d_table k1 = d_table k" "d_wd k1 = d_wd k" "fd_ok k1"
    by (rule fd_new_ok'[OF ok])
  define k2 where "k2 = k1\<lparr>d_heap := (d_heap k1)(p \<mapsto> fd_fresh\<lparr>fd_ref := 2\<rparr>)\<rparr>"
  have k2: "fd_get (int (lowest_free k) + int DFS_FD_OFFSET) k1 = Some (Some p, k2)"
    using fd_get_ok[of k1 "lowest_free k" p fd_fresh] k1(2,3) by (simp add: k2_def fd_fresh_def)
  have d: "d_heap k2 p = Some (fd_fresh\<lparr>fd_ref := 2\<rparr>)" by (simp add: k2_def)
  have l2: "leads_to env path k2 i fo name" using l leads_to_cong[of k2 k] k1(4,5) by (simp add: k2_def)
  define ka where "ka = k2\<lparr>d_heap := (d_heap k2)(p \<mapsto> fd_init i (fo_fops fo) flags name (fd_fresh\<lparr>fd_ref := 2\<rparr>))\<rparr>"
  define r where "r = (if fst (f p ka) < 0 then fst (f p ka) else 0)"
  obtain k3 d' where k3: "dfs_file_open env True True (Some p) path flags k2 = Some (r, k3)"
    "d_heap k3 = (d_heap k2)(p \<mapsto> d')" "d_fds k3 = d_fds k2" "d_table k3 = d_table k2"
    "fd_ref d' = 2" "fd_magic d' = DFS_FD_MAGIC" "fd_fops d' = Some (fo_fops fo)" "fd_fs d' = Some i" "fd_path d' = (if fst (f p ka) < 0 then None else Some name)"
    using dfs_file_open_ok[OF l2 d f g ka_def] by (auto simp: fd_fresh_def r_def)
  have "fd_path d' = (if r < 0 then None else Some name)" using k3(9) by (simp add: r_def)
  moreover have "descs k3 = descs k1" using descs_cong[OF k3(3)] by (simp add: k2_def)
  moreover have "length (d_fds k3) \<le> DFS_FD_MAX" using k1(6) k3(3) by (simp add: fd_ok_def k2_def)
  moreover have "d_heap k3 = (d_heap k)(p \<mapsto> d')" using k3(2) k1(3) by (simp add: k2_def)
  moreover have "d_table k3 = d_table k" using k3(4) k1(4) by (simp add: k2_def)
  ultimately show ?thesis using that[OF k1(1) k2 k3(1) k1(6)] k1(2,3) k3(5-8) r_def by blast
qed

lemma posix_open_ok:
  assumes ok: "fd_ok k" "lowest_free k < DFS_FD_MAX" "d_heap k p = None"
    and l: "leads_to env path k i fo name" and f: "fop_open (en_file env (fo_fops fo)) = Some f" "\<And>q k'. 0 \<le> fst (f q k')"
    and g: "good_files (en_file env (fo_fops fo))"
  obtains k' d where "posix_open env (plenty p) path flags k = Some (int (lowest_free k) + int DFS_FD_OFFSET, k')"
    "fd_ok k'" "descs k' = (descs k)(lowest_free k \<mapsto> p)" "d_heap k' = (d_heap k)(p \<mapsto> d)" "d_table k' = d_table k"
    "fd_ref d = 1" "fd_fops d = Some (fo_fops fo)" "fd_fs d = Some i" "fd_path d = Some name"
proof (rule posix_open_call[OF ok l f(1) g, where flags = flags])
  fix k1 k2 k3 d r
  assume a: "fd_new True (Some p) k = Some (int (lowest_free k) + int DFS_FD_OFFSET, k1)"
    "fd_get (int (lowest_free k) + int DFS_FD_OFFSET) k1 = Some (Some p, k2)"
    "dfs_file_open env True True (Some p) path flags k2 = Some (r, k3)" "fd_ok k1" "descs k3 = descs k1"
    "descs k1 = (descs k)(lowest_free k \<mapsto> p)" "d_heap k3 = (d_heap k)(p \<mapsto> d)" "d_heap k1 = (d_heap k)(p \<mapsto> fd_fresh)"
    and d: "fd_ref d = 2" "fd_magic d = DFS_FD_MAGIC" "fd_fops d = Some (fo_fops fo)" "fd_fs d = Some i" "fd_path d = (if r < 0 then None else Some name)"
    and b: "d_table k3 = d_table k" "length (d_fds k3) \<le> DFS_FD_MAX" "\<exists>k'. r = (if fst (f p k') < 0 then fst (f p k') else 0)"
  obtain ka where "r = (if fst (f p ka) < 0 then fst (f p ka) else 0)" using b(3) by blast
  then have r: "\<not> r < 0" using f(2)[of p ka] by simp
  define k4 where "k4 = k3\<lparr>d_heap := (d_heap k3)(p \<mapsto> d\<lparr>fd_ref := 1\<rparr>)\<rparr>"
  have put: "fd_put p k3 = Some k4" using fd_put_more[of k3 p d] a(7) d(1) by (simp add: k4_def)
  have "fd_ok k4"
  proof (rule fd_ok_upd[OF ok(1), where t = "descs k1"])
    show "inj_on (descs k1) (dom (descs k1))" using a(4) by (simp add: fd_ok_def)
    show "descs k4 = descs k1" using a(5) by (simp add: k4_def)
    show "length (d_fds k4) \<le> DFS_FD_MAX" using b(2) by (simp add: k4_def)
    show "\<exists>d. d_heap k4 q = Some d \<and> 0 < fd_ref d \<and> fd_magic d = DFS_FD_MAGIC" if "descs k1 j = Some q" for j q
    proof (cases "q = p")
      case True
      then show ?thesis using d(2) by (simp add: k4_def)
    next
      case False
      show ?thesis by (rule fd_okD[OF a(4) that]) (use False a(7,8) in \<open>auto simp: k4_def\<close>)
    qed
  qed
  then show thesis
  proof (rule that[rotated])
    show "posix_open env (plenty p) path flags k = Some (int (lowest_free k) + int DFS_FD_OFFSET, k4)"
      using a(1-3) r put by (simp add: posix_open_def plenty_def)
    show "descs k4 = (descs k)(lowest_free k \<mapsto> p)" using a(5,6) by (simp add: k4_def)
    show "d_heap k4 = (d_heap k)(p \<mapsto> d\<lparr>fd_ref := 1\<rparr>)" using a(7) by (simp add: k4_def)
  qed (use d b r in \<open>simp_all add: k4_def\<close>)
qed

text \<open>A failed open gives the number and the descriptor back.\<close>

lemma posix_open_fails:
  assumes ok: "fd_ok k" "lowest_free k < DFS_FD_MAX" "d_heap k p = None"
    and l: "leads_to env path k i fo name" and f: "fop_open (en_file env (fo_fops fo)) = Some f" "\<And>q k'. fst (f q k') < 0"
    and g: "good_files (en_file env (fo_fops fo))"
  obtains k' where "posix_open env (plenty p) path flags k = Some (-1, k')"
    "fd_ok k'" "descs k' = descs k" "d_heap k' = d_heap k" "d_table k' = d_table k"
proof (rule posix_open_call[OF ok l f(1) g, where flags = flags])
  fix k1 k2 k3 d r
  assume a: "fd_new True (Some p) k = Some (int (lowest_free k) + int DFS_FD_OFFSET, k1)"
    "fd_get (int (lowest_free k) + int DFS_FD_OFFSET) k1 = Some (Some p, k2)"
    "dfs_file_open env True True (Some p) path flags k2 = Some (r, k3)" "fd_ok k1" "descs k3 = descs k1"
    "descs k1 = (descs k)(lowest_free k \<mapsto> p)" "d_heap k3 = (d_heap k)(p \<mapsto> d)" "d_heap k1 = (d_heap k)(p \<mapsto> fd_fresh)"
    and d: "fd_ref d = 2"
    and b: "d_table k3 = d_table k" "length (d_fds k3) \<le> DFS_FD_MAX" "\<exists>k'. r = (if fst (f p k') < 0 then fst (f p k') else 0)"
  have r: "r < 0" using b(3) f(2) by auto
  define k4 where "k4 = k3\<lparr>d_heap := (d_heap k3)(p \<mapsto> d\<lparr>fd_ref := 1\<rparr>)\<rparr>"
  have put: "fd_put p k3 = Some k4" using fd_put_more[of k3 p d] a(7) d(1) by (simp add: k4_def)
  have dn: "descs k1 (lowest_free k) = Some p" using a(6) by simp
  have k4: "descs k4 = descs k1" "d_heap k4 = (d_heap k1)(p \<mapsto> d\<lparr>fd_ref := 1\<rparr>)" "length (d_fds k4) \<le> DFS_FD_MAX"
    using a(5,7,8) b(2) by (simp_all add: k4_def)
  obtain k5 where k5: "fd_put p k4 = Some k5" "descs k5 = (descs k1)(lowest_free k := None)" "d_heap k5 = (d_heap k1)(p := None)"
    "d_table k5 = d_table k4" "fd_ok k5"
    by (rule fd_put_last'[OF a(4) dn k4(1,2) _ k4(3)]) simp
  have fr: "d_fds (rt_set_errno r k5) = d_fds k5" "d_heap (rt_set_errno r k5) = d_heap k5" "d_table (rt_set_errno r k5) = d_table k5"
    by (auto simp: rt_set_errno_def set_error_def upd_thread_def split: option.split)
  show thesis
  proof (rule that)
    show "posix_open env (plenty p) path flags k = Some (-1, rt_set_errno r k5)"
      using a(1-3) r put k5(1) by (simp add: posix_open_def plenty_def)
    have dc: "descs (rt_set_errno r k5) = descs k5" by (rule descs_cong) (rule fr(1))
    show "fd_ok (rt_set_errno r k5)" using k5(5) fr dc by (simp add: fd_ok_def)
    show "descs (rt_set_errno r k5) = descs k" using dc k5(2) a(6) lowest_free_ok(2)[of k] by (auto simp: fun_eq_iff)
    show "d_heap (rt_set_errno r k5) = d_heap k" using fr(2) k5(3) a(8) ok(3) by (auto simp: fun_eq_iff)
    show "d_table (rt_set_errno r k5) = d_table k" using fr(3) k5(4) b(1) by (simp add: k4_def)
  qed
qed

lemma posix_close_ok:
  assumes ok: "fd_ok k" "descs k n = Some p" "d_heap k p = Some d" "fd_ref d = 1" "fd_fops d = Some q" and g: "good_files (en_file env q)"
  obtains k' where "posix_close env (int n + int DFS_FD_OFFSET) k = Some (0, k')" "fd_ok k'" "descs k' = (descs k)(n := None)"
    "d_heap k' = (d_heap k)(p := None)" "d_table k' = d_table k"
proof -
  define k1 where "k1 = k\<lparr>d_heap := (d_heap k)(p \<mapsto> d\<lparr>fd_ref := 2\<rparr>)\<rparr>"
  have m: "fd_magic d = DFS_FD_MAGIC" using ok fd_okD[OF ok(1,2)] by auto
  have k1: "fd_get (int n + int DFS_FD_OFFSET) k = Some (Some p, k1)" using fd_get_ok[OF ok(2,3) m] ok(4) by (simp add: k1_def)
  define c where "c = (case fop_close (en_file env q) of None \<Rightarrow> (0, k1) | Some f \<Rightarrow> f p k1)"
  have h1: "d_heap k1 p = Some (d\<lparr>fd_ref := 2\<rparr>)" by (simp add: k1_def)
  have c: "0 \<le> fst c" "\<exists>d'. d_heap (snd c) = (d_heap k1)(p \<mapsto> d') \<and> fd_ref d' = 2 \<and> d_fds (snd c) = d_fds k1 \<and> d_table (snd c) = d_table k1"
  proof -
    have "0 \<le> fst c \<and> (\<exists>d'. d_heap (snd c) = (d_heap k1)(p \<mapsto> d') \<and> fd_ref d' = 2 \<and> d_fds (snd c) = d_fds k1 \<and> d_table (snd c) = d_table k1)"
    proof (cases "fop_close (en_file env q)")
      case None
      then show ?thesis using h1 by (auto simp: c_def intro!: exI[of _ "d\<lparr>fd_ref := 2\<rparr>"])
    next
      case (Some f)
      have kf: "keeps_fds p k1 (snd (f p k1)) \<and> 0 \<le> fst (f p k1)" using g Some h1 unfolding good_files_def by blast
      show ?thesis by (rule keeps_fdsD[OF conjunct1[OF kf] h1]) (use kf Some in \<open>auto simp: c_def\<close>)
    qed
    then show "0 \<le> fst c" "\<exists>d'. d_heap (snd c) = (d_heap k1)(p \<mapsto> d') \<and> fd_ref d' = 2 \<and> d_fds (snd c) = d_fds k1 \<and> d_table (snd c) = d_table k1" by auto
  qed
  obtain d' where d': "d_heap (snd c) = (d_heap k1)(p \<mapsto> d')" "fd_ref d' = 2" "d_fds (snd c) = d_fds k1" "d_table (snd c) = d_table k1" using c(2) by blast
  define k2 where "k2 = (snd c)\<lparr>d_heap := (d_heap k)(p \<mapsto> d'\<lparr>fd_path := None\<rparr>)\<rparr>"
  have cl: "dfs_file_close env (Some p) k1 = Some (fst c, k2)"
    using c(1) d' ok(5) h1 by (simp add: dfs_file_close_def upd_fd_def k2_def split_beta k1_def[symmetric] flip: c_def) (simp add: k1_def)
  define k3 where "k3 = k2\<lparr>d_heap := (d_heap k)(p \<mapsto> d'\<lparr>fd_path := None, fd_ref := 1\<rparr>)\<rparr>"
  have k3: "fd_put p k2 = Some k3" using fd_put_more[of k2 p "d'\<lparr>fd_path := None\<rparr>"] d'(2) by (simp add: k2_def k3_def)
  have de: "descs k3 = descs k" by (rule descs_cong) (simp add: k3_def k2_def d'(3) k1_def)
  have h3: "d_heap k3 = (d_heap k)(p \<mapsto> d'\<lparr>fd_path := None, fd_ref := 1\<rparr>)" by (simp add: k3_def)
  have l3: "length (d_fds k3) \<le> DFS_FD_MAX" using ok(1) d'(3) by (simp add: k3_def k2_def k1_def fd_ok_def)
  obtain k4 where k4: "fd_put p k3 = Some k4" "descs k4 = (descs k)(n := None)" "d_heap k4 = (d_heap k)(p := None)"
    "d_table k4 = d_table k3" "fd_ok k4"
    by (rule fd_put_last'[OF ok(1,2) de h3 _ l3]) simp
  show ?thesis
  proof (rule that)
    show "posix_close env (int n + int DFS_FD_OFFSET) k = Some (0, k4)" using k1 cl c(1) k3 k4(1) by (simp add: posix_close_def)
    show "d_table k4 = d_table k" using k4(4) d'(4) by (simp add: k3_def k2_def k1_def)
  qed (use k4 in auto)
qed
section \<open>Unlinking an open file\<close>

lemma open_scan_ok:
  assumes "\<And>p. Some p \<in> set ps \<Longrightarrow> h p \<noteq> None"
  shows "open_scan h i name ps = Some (\<exists>p d. Some p \<in> set ps \<and> h p = Some d \<and> fd_fops d \<noteq> None \<and> fd_fs d = Some i \<and> fd_path d = Some name)"
  using assms
proof (induction h i name ps rule: open_scan.induct)
  case (3 h i name p ps)
  obtain d where d: "h p = Some d" using 3(2)[of p] by auto
  show ?case
  proof (cases "fd_fops d \<noteq> None \<and> fd_fs d = Some i \<and> fd_path d = Some name")
    case True
    then show ?thesis using d by auto
  next
    case False
    have "open_scan h i name ps = Some (\<exists>p d. Some p \<in> set ps \<and> h p = Some d \<and> fd_fops d \<noteq> None \<and> fd_fs d = Some i \<and> fd_path d = Some name)"
      by (rule 3(1)[OF d]) (use False 3(2) in auto)
    then show ?thesis using d False by auto
  qed
qed simp_all

lemma fd_ok_allocated: "fd_ok k \<Longrightarrow> Some p \<in> set (d_fds k) \<Longrightarrow> d_heap k p \<noteq> None"
  unfolding in_table by (auto elim!: fd_okD)

text \<open>An open file of a mount is named below its mount point, and is not unlinked.\<close>

lemma unlink_open_refused:
  assumes path: "canonical path" and mp: "canonical mp" "fs_path (d_table k i) = Some mp" "dfs_filesystem_lookup path k = Some i"
    and s: "comps path = comps mp @ ds" "ds \<noteq> []"
    and d: "fd_ok k" "descs k n = Some p" "d_heap k p = Some d" "fd_fops d \<noteq> None" "fd_fs d = Some i" "fd_path d = Some (abs_text ds)"
  shows "dfs_file_unlink env True True path k = Some (- EBUSY, k)"
proof -
  have t: "path = abs_text (comps mp @ ds)" "mp = abs_text (comps mp)" using path mp(1) s(1) by (auto simp: canonical_def)
  have n: "(if mp = [SLASH] then path else drop (length mp) path) = abs_text ds"
  proof (cases "comps mp = []")
    case True
    then show ?thesis using t by (simp add: abs_text_def)
  next
    case False
    have "path = mp @ abs_text ds" using t abs_text_append[OF False, of ds] s(2) by (metis abs_text_def)
    moreover have "mp \<noteq> [SLASH]" using False t(2) comps_before_slash[of "[]" "[]"] by (auto simp: comps_abs_text)
    ultimately show ?thesis by simp
  qed
  have "\<exists>q e. Some q \<in> set (d_fds k) \<and> d_heap k q = Some e \<and> fd_fops e \<noteq> None \<and> fd_fs e = Some i \<and> fd_path e = Some (abs_text ds)"
    using d in_table by blast
  then have "fd_is_open True path k = Some 0"
    using open_scan_ok[of "d_fds k" "d_heap k" i "abs_text ds"] fd_ok_allocated[OF d(1)] canonical_fixed[OF path] mp(2,3) n
    by (simp add: fd_is_open_def)
  then show ?thesis using canonical_fixed[OF path] mp(3) by (simp add: dfs_file_unlink_def)
qed

text \<open>
  A file system with \<open>DFS_FS_FLAG_FULLPATH\<close> keeps the full path in the descriptor, which is never
  the name below a mount point other than the root: the open file is unlinked.
\<close>

lemma unlink_open_fullpath:
  assumes path: "canonical path" and mp: "fs_path (d_table k i) = Some mp" "mp \<noteq> []" "mp \<noteq> [SLASH]" "dfs_filesystem_lookup path k = Some i"
    and fs: "fs_ops (d_table k i) = Some q" "fo_flags (en_fs env q) AND DFS_FS_FLAG_FULLPATH \<noteq> 0" "fo_unlink (en_fs env q) = Some f"
    and d: "fd_ok k" "\<And>n p d. descs k n = Some p \<Longrightarrow> d_heap k p = Some d \<Longrightarrow> fd_path d = Some path"
  shows "dfs_file_unlink env True True path k = Some (f i path k)"
proof -
  have "path \<noteq> []" using path abs_text_length(2)[of "comps path"] by (metis canonical_def)
  then have ne: "drop (length mp) path \<noteq> path" using mp(2) by (metis append_take_drop_id length_drop length_greater_0_conv diff_less less_irrefl)
  have "\<not> (\<exists>p d. Some p \<in> set (d_fds k) \<and> d_heap k p = Some d \<and> fd_fops d \<noteq> None \<and> fd_fs d = Some i \<and> fd_path d = Some (drop (length mp) path))"
    using d(2) ne in_table by fastforce
  then have "fd_is_open True path k = Some (-1)"
    using open_scan_ok[of "d_fds k" "d_heap k" i "drop (length mp) path"] fd_ok_allocated[OF d(1)] canonical_fixed[OF path] mp
    by (simp add: fd_is_open_def)
  then show ?thesis using canonical_fixed[OF path] mp fs by (simp add: dfs_file_unlink_def)
qed

text \<open>Renaming between paths that no file system is mounted for uses the null mount.\<close>

lemma rename_unmounted:
  assumes "canonical a" "canonical b" "dfs_filesystem_lookup a k = None" "dfs_filesystem_lookup b k = None"
  shows "dfs_file_rename env True True a b k = None"
  using assms by (simp add: dfs_file_rename_def canonical_fixed)

end
