(* ===== verification/RingBuffer.thy ===== *)
theory RingBuffer
  imports Fifo
begin

text \<open>
  The byte ring buffer of the device drivers (\<open>components/drivers/src/ringbuffer.c\<close>): 15-bit
  indices with a mirror bit each, so that a full and an empty buffer differ. Bytes are copied in
  and out of the pool in one or two pieces; a copy past the end of a pool or of the caller's
  buffer is the failure \<open>None\<close>.
\<close>

section \<open>State and operations\<close>

record ringbuffer =
  rb_buffer_ptr :: "u8 list"
  rb_read_mirror :: bool
  rb_read_index :: "15 word"
  rb_write_mirror :: bool
  rb_write_index :: "15 word"
  rb_buffer_size :: "16 word"

datatype rt_ringbuffer_state = RT_RINGBUFFER_EMPTY | RT_RINGBUFFER_FULL | RT_RINGBUFFER_HALFFULL

definition buf_write :: "int \<Rightarrow> u8 list \<Rightarrow> u8 list \<Rightarrow> u8 list option" where
  "buf_write i bs buf =
    (if 0 \<le> i \<and> nat i + length bs \<le> length buf
     then Some (take (nat i) buf @ bs @ drop (nat i + length bs) buf) else None)"

definition buf_read :: "int \<Rightarrow> int \<Rightarrow> u8 list \<Rightarrow> u8 list option" where
  "buf_read i n buf =
    (if 0 \<le> i \<and> 0 \<le> n \<and> nat i + nat n \<le> length buf then Some (take (nat n) (drop (nat i) buf)) else None)"

text \<open>The size is a signed 16-bit number.\<close>

definition rb_size :: "ringbuffer \<Rightarrow> int" where
  "rb_size rb = sint (rb_buffer_size rb)"

definition rt_ringbuffer_status :: "ringbuffer \<Rightarrow> rt_ringbuffer_state" where
  "rt_ringbuffer_status rb =
    (if rb_read_index rb = rb_write_index rb then
       (if rb_read_mirror rb = rb_write_mirror rb then RT_RINGBUFFER_EMPTY else RT_RINGBUFFER_FULL)
     else RT_RINGBUFFER_HALFFULL)"

definition rt_ringbuffer_data_len :: "ringbuffer \<Rightarrow> u32" where
  "rt_ringbuffer_data_len rb = (case rt_ringbuffer_status rb of
      RT_RINGBUFFER_EMPTY \<Rightarrow> 0
    | RT_RINGBUFFER_FULL \<Rightarrow> of_int (rb_size rb)
    | RT_RINGBUFFER_HALFFULL \<Rightarrow>
        if rb_read_index rb < rb_write_index rb
        then of_int (uint (rb_write_index rb) - uint (rb_read_index rb))
        else of_int (rb_size rb - (uint (rb_read_index rb) - uint (rb_write_index rb))))"

definition rt_ringbuffer_space_len :: "ringbuffer \<Rightarrow> u32" where
  "rt_ringbuffer_space_len rb = of_int (rb_size rb) - rt_ringbuffer_data_len rb"

definition rt_ringbuffer_get_size :: "ringbuffer \<Rightarrow> u16" where
  "rt_ringbuffer_get_size rb = rb_buffer_size rb"

text \<open>\<open>RT_ALIGN_DOWN (size, 4)\<close> on the signed size.\<close>

definition rt_ringbuffer_init :: "u8 list \<Rightarrow> 16 word \<Rightarrow> ringbuffer option" where
  "rt_ringbuffer_init pool sz = do {
     rt_assert (0 < sint sz);
     Some \<lparr>rb_buffer_ptr = pool, rb_read_mirror = False, rb_read_index = 0,
       rb_write_mirror = False, rb_write_index = 0, rb_buffer_size = sz AND NOT 3\<rparr>
   }"

definition rt_ringbuffer_reset :: "ringbuffer \<Rightarrow> ringbuffer" where
  "rt_ringbuffer_reset rb = rb\<lparr>rb_read_mirror := False, rb_read_index := 0,
     rb_write_mirror := False, rb_write_index := 0\<rparr>"

text \<open>The copy of \<open>len\<close> bytes from \<open>ptr\<close> to the write position, moving the position.\<close>

definition rb_copy_in :: "u8 list \<Rightarrow> int \<Rightarrow> ringbuffer \<Rightarrow> ringbuffer option" where
  "rb_copy_in ptr len rb =
    (let room = rb_size rb - uint (rb_write_index rb) in
     if len < room then do {
       d \<leftarrow> buf_read 0 len ptr;
       b \<leftarrow> buf_write (uint (rb_write_index rb)) d (rb_buffer_ptr rb);
       Some (rb\<lparr>rb_buffer_ptr := b, rb_write_index := rb_write_index rb + of_int len\<rparr>)
     } else do {
       d1 \<leftarrow> buf_read 0 room ptr;
       b1 \<leftarrow> buf_write (uint (rb_write_index rb)) d1 (rb_buffer_ptr rb);
       d2 \<leftarrow> buf_read room (len - room) ptr;
       b2 \<leftarrow> buf_write 0 d2 b1;
       Some (rb\<lparr>rb_buffer_ptr := b2, rb_write_mirror := \<not> rb_write_mirror rb,
                rb_write_index := of_int (len - room)\<rparr>)
     })"

definition rt_ringbuffer_put :: "u8 list \<Rightarrow> u16 \<Rightarrow> ringbuffer \<Rightarrow> (u32 \<times> ringbuffer) option" where
  "rt_ringbuffer_put ptr len rb =
    (let sz = ucast (rt_ringbuffer_space_len rb) :: u16 in
     if sz = 0 then Some (0, rb)
     else do {
       let len = (if sz < len then sz else len);
       rb' \<leftarrow> rb_copy_in ptr (uint len) rb;
       Some (ucast len, rb')
     })"

text \<open>
  \<open>rt_ringbuffer_put_force\<close> keeps only the last \<open>buffer_size\<close> bytes of a longer block. When it
  overwrites unread bytes it moves the read index to the write index, and turns the read mirror
  only where the write position has wrapped.
\<close>

definition rt_ringbuffer_put_force :: "u8 list \<Rightarrow> u16 \<Rightarrow> ringbuffer \<Rightarrow> (u32 \<times> ringbuffer) option" where
  "rt_ringbuffer_put_force ptr len rb =
    (let space_length = ucast (rt_ringbuffer_space_len rb) :: u16;
         cut = rb_size rb < uint len;
         ptr = (if cut then drop (nat (uint len - rb_size rb)) ptr else ptr);
         len = (if cut then rb_buffer_size rb else len);
         wraps = rb_size rb - uint (rb_write_index rb) \<le> uint len
     in do {
       rb1 \<leftarrow> rb_copy_in ptr (uint len) rb;
       Some (ucast len,
         if space_length < len
         then rb1\<lparr>rb_read_mirror := (if wraps then \<not> rb_read_mirror rb1 else rb_read_mirror rb1),
                  rb_read_index := rb_write_index rb1\<rparr>
         else rb1)
     })"

text \<open>Reading returns the number of bytes and the bytes stored through \<open>ptr\<close>.\<close>

definition rt_ringbuffer_get :: "u16 \<Rightarrow> ringbuffer \<Rightarrow> (u32 \<times> u8 list \<times> ringbuffer) option" where
  "rt_ringbuffer_get len rb =
    (let sz = rt_ringbuffer_data_len rb in
     if sz = 0 then Some (0, [], rb)
     else
       let len = (if sz < ucast len then ucast sz else len);
           room = rb_size rb - uint (rb_read_index rb) in
       if uint len < room then do {
         d \<leftarrow> buf_read (uint (rb_read_index rb)) (uint len) (rb_buffer_ptr rb);
         Some (ucast len, d, rb\<lparr>rb_read_index := rb_read_index rb + ucast len\<rparr>)
       } else do {
         d1 \<leftarrow> buf_read (uint (rb_read_index rb)) room (rb_buffer_ptr rb);
         d2 \<leftarrow> buf_read 0 (uint len - room) (rb_buffer_ptr rb);
         Some (ucast len, d1 @ d2, rb\<lparr>rb_read_mirror := \<not> rb_read_mirror rb,
           rb_read_index := of_int (uint len - room)\<rparr>)
       })"

definition rb_store :: "u8 \<Rightarrow> ringbuffer \<Rightarrow> ringbuffer option" where
  "rb_store ch rb = map_option (\<lambda>b. rb\<lparr>rb_buffer_ptr := b\<rparr>)
     (buf_write (uint (rb_write_index rb)) [ch] (rb_buffer_ptr rb))"

definition rb_step_write :: "ringbuffer \<Rightarrow> ringbuffer" where
  "rb_step_write rb =
    (if uint (rb_write_index rb) = rb_size rb - 1
     then rb\<lparr>rb_write_mirror := \<not> rb_write_mirror rb, rb_write_index := 0\<rparr>
     else rb\<lparr>rb_write_index := rb_write_index rb + 1\<rparr>)"

definition rt_ringbuffer_putchar :: "u8 \<Rightarrow> ringbuffer \<Rightarrow> (u32 \<times> ringbuffer) option" where
  "rt_ringbuffer_putchar ch rb =
    (if rt_ringbuffer_space_len rb = 0 then Some (0, rb)
     else map_option (\<lambda>rb1. (1, rb_step_write rb1)) (rb_store ch rb))"

definition rt_ringbuffer_putchar_force :: "u8 \<Rightarrow> ringbuffer \<Rightarrow> (u32 \<times> ringbuffer) option" where
  "rt_ringbuffer_putchar_force ch rb = do {
     let old_state = rt_ringbuffer_status rb;
     rb1 \<leftarrow> rb_store ch rb;
     let rb2 = rb_step_write rb1;
     Some (1, if old_state \<noteq> RT_RINGBUFFER_FULL then rb2
       else if uint (rb_write_index rb1) = rb_size rb1 - 1
       then rb2\<lparr>rb_read_mirror := \<not> rb_read_mirror rb2, rb_read_index := rb_write_index rb2\<rparr>
       else rb2\<lparr>rb_read_index := rb_write_index rb2\<rparr>)
   }"

definition rt_ringbuffer_getchar :: "ringbuffer \<Rightarrow> (u32 \<times> u8 option \<times> ringbuffer) option" where
  "rt_ringbuffer_getchar rb =
    (if rt_ringbuffer_data_len rb = 0 then Some (0, None, rb)
     else do {
       d \<leftarrow> buf_read (uint (rb_read_index rb)) 1 (rb_buffer_ptr rb);
       Some (1, Some (hd d),
         if uint (rb_read_index rb) = rb_size rb - 1
         then rb\<lparr>rb_read_mirror := \<not> rb_read_mirror rb, rb_read_index := 0\<rparr>
         else rb\<lparr>rb_read_index := rb_read_index rb + 1\<rparr>)
     })"

text \<open>\<open>got\<close> and \<open>pool\<close> are the results of the two allocations.\<close>

definition rt_ringbuffer_create :: "bool \<Rightarrow> u8 list option \<Rightarrow> u16 \<Rightarrow> ringbuffer option option" where
  "rt_ringbuffer_create got pool sz = do {
     rt_assert (0 < sz);
     let sz = sz AND NOT 3;
     if \<not> got then Some None
     else case pool of None \<Rightarrow> Some None | Some p \<Rightarrow> map_option Some (rt_ringbuffer_init p sz)
   }"

section \<open>The buffer as a list\<close>

definition rb_cap :: "ringbuffer \<Rightarrow> nat" where
  "rb_cap rb = nat (rb_size rb)"

abbreviation rb_r :: "ringbuffer \<Rightarrow> nat" where
  "rb_r rb \<equiv> unat (rb_read_index rb)"

abbreviation rb_w :: "ringbuffer \<Rightarrow> nat" where
  "rb_w rb \<equiv> unat (rb_write_index rb)"

definition rb_len :: "ringbuffer \<Rightarrow> nat" where
  "rb_len rb = (if rb_read_mirror rb = rb_write_mirror rb then rb_w rb - rb_r rb else rb_cap rb + rb_w rb - rb_r rb)"

definition rb_ok :: "ringbuffer \<Rightarrow> bool" where
  "rb_ok rb \<longleftrightarrow> 0 < rb_cap rb \<and> length (rb_buffer_ptr rb) = rb_cap rb \<and> rb_r rb < rb_cap rb \<and> rb_w rb < rb_cap rb \<and>
     (if rb_read_mirror rb = rb_write_mirror rb then rb_r rb \<le> rb_w rb else rb_w rb \<le> rb_r rb)"

definition rb_content :: "ringbuffer \<Rightarrow> u8 list" where
  "rb_content rb = ring_list (rb_buffer_ptr rb) (rb_r rb) (rb_len rb)"

lemma length_rb_content [simp]: "length (rb_content rb) = rb_len rb"
  by (simp add: rb_content_def)

lemma rb_cap_limit: "rb_cap rb < 2 ^ 15"
  using sint_less[of "rb_buffer_size rb"] by (simp add: rb_cap_def rb_size_def)

lemma rb_size_cap: "rb_ok rb \<Longrightarrow> rb_size rb = int (rb_cap rb)"
  by (simp add: rb_ok_def rb_cap_def)

lemma rb_len_le: "rb_ok rb \<Longrightarrow> rb_len rb \<le> rb_cap rb"
  by (auto simp: rb_ok_def rb_len_def split: if_splits)

lemma rb_mod: "w < n \<Longrightarrow> k \<le> n \<Longrightarrow> (w + k) mod n = (if w + k < n then w + k else w + k - n)" for w :: nat
  by (simp add: mod_if)

text \<open>The write position is the read position plus the number of bytes.\<close>

lemma rb_write_pos: "rb_ok rb \<Longrightarrow> (rb_r rb + rb_len rb) mod rb_cap rb = rb_w rb"
  using rb_len_le[of rb] by (subst rb_mod) (auto simp: rb_ok_def rb_len_def split: if_splits)

lemma idx_of_nat: "n < 2 ^ 15 \<Longrightarrow> unat (of_nat n :: 15 word) = n"
  by (simp add: unat_of_nat)

lemma idx_add: "unat i + n < 2 ^ 15 \<Longrightarrow> i + of_nat n = (of_nat (unat i + n) :: 15 word)"
  by simp

lemma data_len_ok: "rb_ok rb \<Longrightarrow> rt_ringbuffer_data_len rb = of_nat (rb_len rb)"
proof -
  assume ok: "rb_ok rb"
  have lt: "rb_read_index rb < rb_write_index rb \<longleftrightarrow> rb_r rb < rb_w rb" by (simp add: word_less_nat_alt)
  have eq: "rb_read_index rb = rb_write_index rb \<longleftrightarrow> rb_r rb = rb_w rb" by (simp add: word_unat_eq_iff)
  have "uint (rb_write_index rb) - uint (rb_read_index rb) = int (rb_w rb - rb_r rb)" if "rb_r rb < rb_w rb"
    using that by (simp add: of_nat_diff)
  then have d: "of_int (uint (rb_write_index rb) - uint (rb_read_index rb)) = (of_nat (rb_w rb - rb_r rb) :: u32)"
    if "rb_r rb < rb_w rb" using that by (simp only: of_int_of_nat_eq)
  have "int (rb_cap rb) - (uint (rb_read_index rb) - uint (rb_write_index rb)) = int (rb_cap rb + rb_w rb - rb_r rb)"
    if "rb_r rb < rb_cap rb" using that by (simp add: of_nat_diff)
  then have e: "of_int (int (rb_cap rb) - (uint (rb_read_index rb) - uint (rb_write_index rb))) =
      (of_nat (rb_cap rb + rb_w rb - rb_r rb) :: u32)" if "rb_r rb < rb_cap rb" using that by (simp only: of_int_of_nat_eq)
  show ?thesis
    using ok unfolding rt_ringbuffer_data_len_def rt_ringbuffer_status_def rb_len_def rb_ok_def rb_size_cap[OF ok] lt eq
    by (cases "rb_r rb < rb_w rb") (simp_all add: d e del: of_int_diff of_nat_diff of_nat_add split: if_splits)
qed

lemma space_len_ok: "rb_ok rb \<Longrightarrow> rt_ringbuffer_space_len rb = of_nat (rb_cap rb - rb_len rb)"
  using rb_len_le[of rb] by (simp add: rt_ringbuffer_space_len_def data_len_ok rb_size_cap of_nat_diff)

lemma u32_small: "n < 2 ^ 16 \<Longrightarrow> (of_nat n :: u32) = 0 \<longleftrightarrow> n = 0" "n < 2 ^ 16 \<Longrightarrow> unat (of_nat n :: u32) = n"
  "n < 2 ^ 16 \<Longrightarrow> unat (ucast (of_nat n :: u32) :: u16) = n"
  by (simp_all add: unat_of_nat unsigned_ucast_eq word_unat_eq_iff take_bit_nat_eq_self)

section \<open>Writing\<close>

text \<open>The state after \<open>bs\<close> has been copied in at the write position.\<close>

definition rb_moved :: "u8 list \<Rightarrow> ringbuffer \<Rightarrow> ringbuffer" where
  "rb_moved bs rb = rb\<lparr>rb_buffer_ptr := ring_put (rb_w rb) bs (rb_buffer_ptr rb),
     rb_write_mirror := (if rb_w rb + length bs < rb_cap rb then rb_write_mirror rb else \<not> rb_write_mirror rb),
     rb_write_index := of_nat ((rb_w rb + length bs) mod rb_cap rb)\<rparr>"

lemma rb_moved_fields [simp]:
  "rb_cap (rb_moved bs rb) = rb_cap rb" "rb_r (rb_moved bs rb) = rb_r rb"
  "rb_read_mirror (rb_moved bs rb) = rb_read_mirror rb" "rb_buffer_size (rb_moved bs rb) = rb_buffer_size rb"
  "rb_size (rb_moved bs rb) = rb_size rb"
  "rb_write_mirror (rb_moved bs rb) =
     (if rb_w rb + length bs < rb_cap rb then rb_write_mirror rb else \<not> rb_write_mirror rb)"
  "rb_buffer_ptr (rb_moved bs rb) = ring_put (rb_w rb) bs (rb_buffer_ptr rb)"
  by (simp_all add: rb_moved_def rb_cap_def rb_size_def)

lemma rb_moved_w: "rb_ok rb \<Longrightarrow> rb_w (rb_moved bs rb) = (rb_w rb + length bs) mod rb_cap rb"
proof -
  assume "rb_ok rb"
  then have "(rb_w rb + length bs) mod rb_cap rb < rb_cap rb" by (intro mod_less_divisor) (simp add: rb_ok_def)
  then show ?thesis using rb_cap_limit[of rb] by (simp add: rb_moved_def idx_of_nat)
qed

lemma uint_from_unat: "unat x = n \<Longrightarrow> uint x = int n"
  by auto

lemma ucast_of_unat: "(ucast (x :: u16) :: u32) = of_nat (unat x)"
  by simp

lemma rb_copy_in_ok:
  assumes ok: "rb_ok rb" and n: "n \<le> rb_cap rb" "n \<le> length ptr"
  shows "rb_copy_in ptr (int n) rb = Some (rb_moved (take n ptr) rb)"
proof (cases "n < rb_cap rb - rb_w rb")
  case True
  have w: "rb_w rb < rb_cap rb" "length (rb_buffer_ptr rb) = rb_cap rb" using ok by (simp_all add: rb_ok_def)
  have m: "(rb_w rb + n) mod rb_cap rb = rb_w rb + n" using True by simp
  have lt: "int n < int (rb_cap rb) - uint (rb_write_index rb)"
  proof -
    have "int n + int (rb_w rb) < int (rb_cap rb)" using True w by linarith
    then show ?thesis by simp
  qed
  show ?thesis
    using True w n m lt by (simp add: rb_copy_in_def rb_size_cap[OF ok] buf_read_def buf_write_def rb_moved_def
        ring_put_straight Let_def)
next
  case False
  have w: "rb_w rb < rb_cap rb" "length (rb_buffer_ptr rb) = rb_cap rb" using ok by (simp_all add: rb_ok_def)
  let ?k = "rb_cap rb - rb_w rb"
  have k: "int (rb_cap rb) - uint (rb_write_index rb) = int ?k" using w(1) by (simp add: of_nat_diff)
  have kn: "?k \<le> n" "n - ?k \<le> rb_w rb" using False n(1) w(1) by simp_all
  have m: "(rb_w rb + n) mod rb_cap rb = n - ?k" using kn w(1) n(1) by (subst rb_mod) auto
  have l: "int n - int ?k = int (n - ?k)" using kn(1) by simp
  have r1: "buf_read 0 (int ?k) ptr = Some (take ?k ptr)" using kn n by (simp add: buf_read_def)
  have w1: "buf_write (uint (rb_write_index rb)) (take ?k ptr) (rb_buffer_ptr rb) =
      Some (take (rb_w rb) (rb_buffer_ptr rb) @ take ?k ptr)"
    using kn n w by (simp add: buf_write_def min_absorb2)
  have r2: "buf_read (int ?k) (int (n - ?k)) ptr = Some (take (n - ?k) (drop ?k ptr))"
    using kn n by (simp only: buf_read_def nat_int of_nat_0_le_iff) simp
  have w2: "buf_write 0 (take (n - ?k) (drop ?k ptr)) (take (rb_w rb) (rb_buffer_ptr rb) @ take ?k ptr) =
      Some (ring_put (rb_w rb) (take n ptr) (rb_buffer_ptr rb))"
  proof -
    have "ring_put (rb_w rb) (take n ptr) (rb_buffer_ptr rb) =
        take (n - ?k) (drop ?k ptr) @ drop (n - ?k) (take (rb_w rb) (rb_buffer_ptr rb)) @ take ?k ptr"
      using ring_put_wrap[where w = "rb_w rb" and bs = "take n ptr" and p = "rb_buffer_ptr rb"] kn n w by (simp add: drop_take min_absorb1)
    moreover have "length (take (n - ?k) (drop ?k ptr)) = n - ?k" using kn n by simp
    ultimately show ?thesis using kn w by (simp add: buf_write_def)
  qed
  have "?k \<le> n" using kn(1) .
  then have nl1: "\<not> int n < int ?k" by (simp only: of_nat_less_iff not_less)
  have nl2: "\<not> rb_w rb + length (take n ptr) < rb_cap rb" using kn n w(1) by simp
  have m': "(rb_w rb + length (take n ptr)) mod rb_cap rb = n - ?k" using m n by simp
  show ?thesis
    unfolding rb_copy_in_def rb_size_cap[OF ok] k Let_def if_not_P[OF nl1] l r1 r2 bind.bind_lunit w1 w2
      rb_moved_def if_not_P[OF nl2] m' of_int_of_nat_eq ..
qed

text \<open>Room for the block: it is appended.\<close>

lemma rb_moved_ok:
  assumes ok: "rb_ok rb" and l: "rb_len rb + length bs \<le> rb_cap rb"
  shows "rb_ok (rb_moved bs rb)" "rb_len (rb_moved bs rb) = rb_len rb + length bs"
    "rb_content (rb_moved bs rb) = rb_content rb @ bs"
proof -
  have w: "rb_w (rb_moved bs rb) = (if rb_w rb + length bs < rb_cap rb then rb_w rb + length bs else rb_w rb + length bs - rb_cap rb)"
    unfolding rb_moved_w[OF ok] using ok l by (intro rb_mod) (simp_all add: rb_ok_def)
  show o: "rb_ok (rb_moved bs rb)" and ln: "rb_len (rb_moved bs rb) = rb_len rb + length bs"
    using ok l unfolding rb_ok_def rb_len_def w by (auto split: if_splits)
  have n: "rb_len rb < length (rb_buffer_ptr rb) \<or> bs = []" using ok l by (cases bs) (auto simp: rb_ok_def)
  have lp: "length (rb_buffer_ptr rb) = rb_cap rb" using ok by (simp add: rb_ok_def)
  show "rb_content (rb_moved bs rb) = rb_content rb @ bs"
    using ring_list_put[of bs "rb_len rb" "rb_buffer_ptr rb" "rb_r rb"] n l lp ln rb_write_pos[OF ok]
    by (simp add: rb_content_def add.commute)
qed

lemma rt_ringbuffer_put_ok:
  assumes ok: "rb_ok rb" and n: "unat n \<le> length ptr"
  defines "k \<equiv> min (unat n) (rb_cap rb - rb_len rb)"
  shows "\<exists>rb'. rt_ringbuffer_put ptr n rb = Some (of_nat k, rb') \<and> rb_ok rb' \<and> rb_cap rb' = rb_cap rb \<and>
    rb_content rb' = rb_content rb @ take k ptr"
proof -
  let ?s = "rb_cap rb - rb_len rb"
  let ?sz = "ucast (rt_ringbuffer_space_len rb) :: u16"
  have s: "unat ?sz = ?s" using rb_cap_limit[of rb] u32_small(3)[of ?s] by (simp add: space_len_ok[OF ok])
  have z: "?sz = 0 \<longleftrightarrow> ?s = 0" using s by (metis unat_0 unat_eq_zero)
  show ?thesis
  proof (cases "?s = 0")
    case True
    then show ?thesis using ok z by (simp add: rt_ringbuffer_put_def k_def)
  next
    case False
    let ?n = "if ?sz < n then ?sz else n"
    have k: "unat ?n = k" using s by (auto simp: k_def word_less_nat_alt)
    then have ki: "uint ?n = int k" by (rule uint_from_unat)
    have c: "rb_copy_in ptr (int k) rb = Some (rb_moved (take k ptr) rb)"
      by (rule rb_copy_in_ok[OF ok]) (use n in \<open>simp_all add: k_def\<close>)
    have lk: "length (take k ptr) = k" using n by (simp add: k_def)
    have le: "rb_len rb + length (take k ptr) \<le> rb_cap rb" using lk rb_len_le[OF ok] by (simp add: k_def)
    have "rt_ringbuffer_put ptr n rb = Some (ucast ?n, rb_moved (take k ptr) rb)"
      using False z c unfolding rt_ringbuffer_put_def Let_def ki by simp
    moreover have "(ucast ?n :: u32) = of_nat k" using k by (metis ucast_of_unat)
    ultimately show ?thesis using rb_moved_ok[OF ok le] by simp
  qed
qed

section \<open>Single characters\<close>

lemma rb_store_ok:
  assumes ok: "rb_ok rb" shows "map_option rb_step_write (rb_store ch rb) = Some (rb_moved [ch] rb)"
proof -
  have w: "rb_w rb < rb_cap rb" "length (rb_buffer_ptr rb) = rb_cap rb" "0 < rb_cap rb" using ok by (simp_all add: rb_ok_def)
  have p: "ring_put (rb_w rb) [ch] (rb_buffer_ptr rb) =
      take (rb_w rb) (rb_buffer_ptr rb) @ [ch] @ drop (rb_w rb + 1) (rb_buffer_ptr rb)"
    using ring_put_straight[of "rb_w rb" "[ch]" "rb_buffer_ptr rb"] w by simp
  let ?rb = "rb\<lparr>rb_buffer_ptr := ring_put (rb_w rb) [ch] (rb_buffer_ptr rb)\<rparr>"
  have st: "rb_store ch rb = Some ?rb" unfolding p using w by (simp add: rb_store_def buf_write_def)
  have sz: "rb_size ?rb = int (rb_cap rb)" using rb_size_cap[OF ok] by (simp add: rb_size_def)
  have last: "uint (rb_write_index ?rb) = rb_size ?rb - 1 \<longleftrightarrow> rb_w rb = rb_cap rb - 1"
  proof -
    have "int (rb_w rb) = int (rb_cap rb) - 1 \<longleftrightarrow> rb_w rb = rb_cap rb - 1" using w(3) by linarith
    then show ?thesis unfolding sz by simp
  qed
  have "rb_step_write ?rb = rb_moved [ch] rb"
  proof (cases "rb_w rb = rb_cap rb - 1")
    case True
    then have "(rb_w rb + 1) mod rb_cap rb = 0" "\<not> rb_w rb + 1 < rb_cap rb" using w by simp_all
    then show ?thesis using True last by (simp add: rb_step_write_def rb_moved_def)
  next
    case False
    then have "rb_w rb + 1 < rb_cap rb" using w by linarith
    then show ?thesis using False last by (simp add: rb_step_write_def rb_moved_def add.commute)
  qed
  then show ?thesis using st by simp
qed

lemma rt_ringbuffer_putchar_ok:
  assumes ok: "rb_ok rb"
  shows "rt_ringbuffer_putchar ch rb =
    (if rb_len rb < rb_cap rb then Some (1, rb_moved [ch] rb) else Some (0, rb))"
proof -
  have "rb_cap rb - rb_len rb < 2 ^ 16" using rb_cap_limit[of rb] by simp
  from u32_small(1)[OF this] have "rt_ringbuffer_space_len rb = 0 \<longleftrightarrow> \<not> rb_len rb < rb_cap rb"
    unfolding space_len_ok[OF ok] using rb_len_le[OF ok] by auto
  then show ?thesis using rb_store_ok[OF ok, of ch] by (auto simp: rt_ringbuffer_putchar_def option.map_comp comp_def)
qed

section \<open>Reading\<close>

definition rb_taken :: "nat \<Rightarrow> ringbuffer \<Rightarrow> ringbuffer" where
  "rb_taken n rb = rb\<lparr>
     rb_read_mirror := (if rb_r rb + n < rb_cap rb then rb_read_mirror rb else \<not> rb_read_mirror rb),
     rb_read_index := of_nat ((rb_r rb + n) mod rb_cap rb)\<rparr>"

lemma rb_taken_ok:
  assumes ok: "rb_ok rb" and n: "n \<le> rb_len rb"
  shows "rb_ok (rb_taken n rb)" "rb_len (rb_taken n rb) = rb_len rb - n" "rb_cap (rb_taken n rb) = rb_cap rb"
    "rb_content (rb_taken n rb) = drop n (rb_content rb)"
proof -
  show c: "rb_cap (rb_taken n rb) = rb_cap rb" by (simp add: rb_taken_def rb_cap_def rb_size_def)
  have lt: "(rb_r rb + n) mod rb_cap rb < rb_cap rb" using ok by (intro mod_less_divisor) (simp add: rb_ok_def)
  have r0: "rb_r (rb_taken n rb) = (rb_r rb + n) mod rb_cap rb"
    using lt rb_cap_limit[of rb] by (simp add: rb_taken_def idx_of_nat)
  have r: "rb_r (rb_taken n rb) = (if rb_r rb + n < rb_cap rb then rb_r rb + n else rb_r rb + n - rb_cap rb)"
    unfolding r0 using ok n rb_len_le[OF ok] by (intro rb_mod) (simp_all add: rb_ok_def)
  have f: "rb_w (rb_taken n rb) = rb_w rb" "rb_write_mirror (rb_taken n rb) = rb_write_mirror rb"
    "rb_buffer_ptr (rb_taken n rb) = rb_buffer_ptr rb"
    "rb_read_mirror (rb_taken n rb) = (if rb_r rb + n < rb_cap rb then rb_read_mirror rb else \<not> rb_read_mirror rb)"
    by (simp_all add: rb_taken_def)
  show "rb_ok (rb_taken n rb)" and l: "rb_len (rb_taken n rb) = rb_len rb - n"
    using ok n unfolding rb_ok_def rb_len_def r f c by (auto split: if_splits)
  have "length (rb_buffer_ptr rb) = rb_cap rb" using ok by (simp add: rb_ok_def)
  then show "rb_content (rb_taken n rb) = drop n (rb_content rb)"
    unfolding rb_content_def l f r0 by (simp add: drop_ring_list)
qed

lemma rt_ringbuffer_get_ok:
  fixes n :: u16
  assumes ok: "rb_ok rb"
  defines "k \<equiv> min (unat n) (rb_len rb)"
  shows "rt_ringbuffer_get n rb = Some (of_nat k, take k (rb_content rb), if rb_len rb = 0 then rb else rb_taken k rb)"
proof -
  have lim: "rb_len rb < 2 ^ 16" using rb_len_le[OF ok] rb_cap_limit[of rb] by simp
  let ?sz = "rt_ringbuffer_data_len rb"
  have s: "unat ?sz = rb_len rb" "?sz = 0 \<longleftrightarrow> rb_len rb = 0" "unat (ucast ?sz :: u16) = rb_len rb"
    using u32_small[OF lim] by (simp_all add: data_len_ok[OF ok])
  show ?thesis
  proof (cases "rb_len rb = 0")
    case True
    then show ?thesis using s by (simp add: rt_ringbuffer_get_def k_def)
  next
    case False
    let ?n = "if ?sz < ucast n then ucast ?sz else n :: u16"
    have un: "unat (ucast n :: u32) = unat n" using unsigned_less[of n, where 'a = nat] by (simp add: unsigned_ucast_eq take_bit_nat_eq_self)
    have kn: "unat ?n = k" using s un by (auto simp: k_def word_less_nat_alt)
    have r: "rb_r rb < rb_cap rb" "length (rb_buffer_ptr rb) = rb_cap rb" using ok by (simp_all add: rb_ok_def)
    have kc: "k \<le> rb_cap rb" "k \<le> rb_len rb" using rb_len_le[OF ok] by (simp_all add: k_def)
    let ?m = "rb_cap rb - rb_r rb"
    have room: "int (rb_cap rb) - uint (rb_read_index rb) = int ?m" using r(1) by (simp add: of_nat_diff)
    have data: "take k (rb_content rb) = ring_list (rb_buffer_ptr rb) (rb_r rb) k"
      using kc(2) by (simp add: rb_content_def take_ring_list)
    have cn: "(ucast ?n :: u32) = of_nat k" using kn by (metis ucast_of_unat)
    note u = rt_ringbuffer_get_def Let_def uint_from_unat[OF kn] rb_size_cap[OF ok] room cn
    show ?thesis
    proof (cases "k < ?m")
      case True
      then have lt: "rb_r rb + k < rb_cap rb" by simp
      have ln: "int k < int ?m" using True by (simp only: of_nat_less_iff)
      have rd: "buf_read (uint (rb_read_index rb)) (int k) (rb_buffer_ptr rb) = Some (take k (rb_content rb))"
        unfolding data using lt r by (simp add: buf_read_def ring_list_straight)
      have ni: "rb_read_index rb + ucast ?n = of_nat ((rb_r rb + k) mod rb_cap rb)"
      proof -
        have "(ucast ?n :: 15 word) = of_nat (unat ?n)" by (rule of_nat_unat[symmetric])
        then show ?thesis unfolding kn using lt by simp
      qed
      have "rt_ringbuffer_get n rb = Some (of_nat k, take k (rb_content rb), rb_taken k rb)"
        unfolding u if_P[OF ln] rd bind.bind_lunit ni using False s(2) lt by (simp add: rb_taken_def)
      then show ?thesis using False by simp
    next
      case nlt: False
      then have ge: "?m \<le> k" by simp
      have ln: "\<not> int k < int ?m" using nlt by (simp only: of_nat_less_iff not_False_eq_True)
      have l: "int k - int ?m = int (k - ?m)" using ge by simp
      have rd1: "buf_read (uint (rb_read_index rb)) (int ?m) (rb_buffer_ptr rb) = Some (drop (rb_r rb) (rb_buffer_ptr rb))"
      proof -
        have "nat (int ?m) = ?m" "0 \<le> int ?m" by (simp_all only: nat_int of_nat_0_le_iff)
        then show ?thesis using r unfolding buf_read_def by simp
      qed
      have rd2: "buf_read 0 (int (k - ?m)) (rb_buffer_ptr rb) = Some (take (k - ?m) (rb_buffer_ptr rb))"
        using r kc by (simp only: buf_read_def nat_int of_nat_0_le_iff) simp
      have d: "drop (rb_r rb) (rb_buffer_ptr rb) @ take (k - ?m) (rb_buffer_ptr rb) = take k (rb_content rb)"
        unfolding data using ring_list_wrap[of "rb_r rb" "rb_buffer_ptr rb" k] r kc ge by (simp add: add.commute)
      have m: "(rb_r rb + k) mod rb_cap rb = k - ?m" using ge r kc by (subst rb_mod) auto
      have nr: "\<not> rb_r rb + k < rb_cap rb" using ge r by simp
      have "rt_ringbuffer_get n rb = Some (of_nat k, take k (rb_content rb), rb_taken k rb)"
        unfolding u if_not_P[OF ln] l rd1 rd2 bind.bind_lunit d using False s(2) nr m by (simp add: rb_taken_def)
      then show ?thesis using False by simp
    qed
  qed
qed

lemma rt_ringbuffer_getchar_ok:
  assumes ok: "rb_ok rb"
  shows "rt_ringbuffer_getchar rb =
    (case rb_content rb of [] \<Rightarrow> Some (0, None, rb) | c # _ \<Rightarrow> Some (1, Some c, rb_taken 1 rb))"
proof -
  have lim: "rb_len rb < 2 ^ 16" using rb_len_le[OF ok] rb_cap_limit[of rb] by simp
  have z: "rt_ringbuffer_data_len rb = 0 \<longleftrightarrow> rb_content rb = []"
    unfolding data_len_ok[OF ok] using u32_small(1)[OF lim] by (simp flip: length_0_conv)
  have r: "rb_r rb < rb_cap rb" "length (rb_buffer_ptr rb) = rb_cap rb" "0 < rb_cap rb" using ok by (simp_all add: rb_ok_def)
  show ?thesis
  proof (cases "rb_content rb")
    case Nil
    then show ?thesis using z by (simp add: rt_ringbuffer_getchar_def)
  next
    case (Cons c cs)
    then have l: "0 < rb_len rb" using length_rb_content[of rb] by simp
    have hd: "rb_buffer_ptr rb ! rb_r rb = c"
      using ring_list_pop[OF l, of "rb_buffer_ptr rb" "rb_r rb"] Cons r by (simp add: rb_content_def)
    have rd: "buf_read (uint (rb_read_index rb)) 1 (rb_buffer_ptr rb) = Some [c]"
      using r hd by (simp add: buf_read_def take_Suc_conv_app_nth[of 0] hd_drop_conv_nth take_Suc)
    have last: "uint (rb_read_index rb) = int (rb_cap rb) - 1 \<longleftrightarrow> rb_r rb = rb_cap rb - 1"
    proof -
      have "int (rb_r rb) = int (rb_cap rb) - 1 \<longleftrightarrow> rb_r rb = rb_cap rb - 1" using r(3) by linarith
      then show ?thesis by simp
    qed
    have "(if uint (rb_read_index rb) = int (rb_cap rb) - 1
         then rb\<lparr>rb_read_mirror := \<not> rb_read_mirror rb, rb_read_index := 0\<rparr>
         else rb\<lparr>rb_read_index := rb_read_index rb + 1\<rparr>) = rb_taken 1 rb"
    proof (cases "rb_r rb = rb_cap rb - 1")
      case True
      then have "(rb_r rb + 1) mod rb_cap rb = 0" "\<not> rb_r rb + 1 < rb_cap rb" using r by simp_all
      then show ?thesis unfolding last using True by (simp add: rb_taken_def)
    next
      case False
      then have "rb_r rb + 1 < rb_cap rb" using r by linarith
      then show ?thesis unfolding last using False by (simp add: rb_taken_def add.commute)
    qed
    then show ?thesis using Cons z rd by (simp add: rt_ringbuffer_getchar_def rb_size_cap[OF ok])
  qed
qed

section \<open>A bounded first-in first-out store\<close>

definition rb_push :: "u8 \<Rightarrow> ringbuffer \<Rightarrow> ringbuffer" where
  "rb_push ch rb = (case rt_ringbuffer_putchar ch rb of None \<Rightarrow> rb | Some (_, rb') \<Rightarrow> rb')"

definition rb_pop :: "ringbuffer \<Rightarrow> u8 \<times> ringbuffer" where
  "rb_pop rb = (case rt_ringbuffer_getchar rb of Some (_, Some c, rb') \<Rightarrow> (c, rb') | _ \<Rightarrow> (0, rb))"

lemma rb_push_moved: "rb_ok rb \<Longrightarrow> rb_len rb < rb_cap rb \<Longrightarrow> rb_push ch rb = rb_moved [ch] rb"
  by (simp add: rb_push_def rt_ringbuffer_putchar_ok)

lemma rb_pop_taken: "rb_ok rb \<Longrightarrow> rb_content rb \<noteq> [] \<Longrightarrow> rb_pop rb = (hd (rb_content rb), rb_taken 1 rb)"
  by (cases "rb_content rb") (simp_all add: rb_pop_def rt_ringbuffer_getchar_ok)

interpretation rb: fifo rb_ok rb_cap rb_content rb_push rb_pop "\<lambda>_. True"
proof unfold_locales
  fix s :: ringbuffer and x :: u8
  assume ok: "rb_ok s"
  show "length (rb_content s) < rb_cap s \<Longrightarrow> rb_ok (rb_push x s)"
    "length (rb_content s) < rb_cap s \<Longrightarrow> rb_cap (rb_push x s) = rb_cap s"
    "length (rb_content s) < rb_cap s \<Longrightarrow> rb_content (rb_push x s) = rb_content s @ [x]"
    using rb_moved_ok[OF ok, of "[x]"] by (simp_all add: rb_push_moved[OF ok])
  assume ne: "rb_content s \<noteq> []"
  then have "1 \<le> rb_len s" using length_rb_content[of s] by (cases "rb_content s") auto
  note t = rb_taken_ok[OF ok this]
  show "rb_ok (snd (rb_pop s))" "rb_cap (snd (rb_pop s)) = rb_cap s" "fst (rb_pop s) = hd (rb_content s)"
    "rb_content (snd (rb_pop s)) = tl (rb_content s)"
    using t by (simp_all add: rb_pop_taken[OF ok ne] drop_Suc)
qed

section \<open>Overwriting the oldest bytes\<close>

text \<open>The state in which everything from the write position round to itself is unread.\<close>

definition rb_full_at_write :: "ringbuffer \<Rightarrow> ringbuffer" where
  "rb_full_at_write rb = rb\<lparr>rb_read_mirror := \<not> rb_write_mirror rb, rb_read_index := rb_write_index rb\<rparr>"

lemma rb_full_ok:
  assumes ok: "rb_ok rb" and n: "length bs \<le> rb_cap rb" "rb_cap rb < rb_len rb + length bs"
  defines "rb' \<equiv> rb_full_at_write (rb_moved bs rb)"
  shows "rb_ok rb'" "rb_len rb' = rb_cap rb" "rb_cap rb' = rb_cap rb"
    "rb_content rb' = drop (rb_len rb + length bs - rb_cap rb) (rb_content rb) @ bs"
proof -
  have lp: "length (rb_buffer_ptr rb) = rb_cap rb" "rb_w rb < rb_cap rb" "rb_r rb < rb_cap rb" using ok by (simp_all add: rb_ok_def)
  have w: "rb_w (rb_moved bs rb) = (rb_w rb + length bs) mod rb_cap rb" by (rule rb_moved_w[OF ok])
  have lt: "(rb_w rb + length bs) mod rb_cap rb < rb_cap rb" using lp(2) by (intro mod_less_divisor) linarith
  show c: "rb_cap rb' = rb_cap rb" by (simp add: rb'_def rb_full_at_write_def rb_cap_def rb_size_def)
  show "rb_ok rb'" and l: "rb_len rb' = rb_cap rb"
    using lp lt w c by (simp_all add: rb_ok_def rb_len_def rb'_def rb_full_at_write_def)
  have whole: "drop (rb_cap rb - rb_len rb) (ring_list (rb_buffer_ptr rb) (rb_w rb) (rb_cap rb)) = rb_content rb"
    using ring_list_whole[of "rb_r rb" "rb_buffer_ptr rb" "rb_len rb"] lp rb_len_le[OF ok] rb_write_pos[OF ok]
    by (simp add: rb_content_def)
  have "rb_content rb' = ring_list (ring_put (rb_w rb) bs (rb_buffer_ptr rb)) ((rb_w rb + length bs) mod rb_cap rb) (rb_cap rb)"
    using l w by (simp add: rb_content_def rb'_def rb_full_at_write_def)
  also have "\<dots> = drop (length bs) (ring_list (rb_buffer_ptr rb) (rb_w rb) (rb_cap rb)) @ bs"
    using ring_list_put_full[of "rb_w rb" "rb_buffer_ptr rb" bs] lp n(1) by simp
  also have "drop (length bs) (ring_list (rb_buffer_ptr rb) (rb_w rb) (rb_cap rb)) =
      drop (rb_len rb + length bs - rb_cap rb) (rb_content rb)"
    unfolding whole[symmetric] drop_drop using n rb_len_le[OF ok] by (simp add: add.commute)
  finally show "rb_content rb' = drop (rb_len rb + length bs - rb_cap rb) (rb_content rb) @ bs" .
qed

text \<open>
  \<open>put_block bs\<close> is what \<open>rt_ringbuffer_put_force\<close> does with a block that fits in the pool. When
  it overwrites, the write position wraps, and the indices were in the same mirror before, both
  mirrors turn: the buffer is then empty, not full.
\<close>

definition loses_all :: "u8 list \<Rightarrow> ringbuffer \<Rightarrow> bool" where
  "loses_all bs rb \<longleftrightarrow> rb_cap rb < rb_len rb + length bs \<and> rb_cap rb \<le> rb_w rb + length bs \<and>
     rb_read_mirror rb = rb_write_mirror rb"

definition put_block :: "u8 list \<Rightarrow> ringbuffer \<Rightarrow> ringbuffer" where
  "put_block bs rb =
    (let rb1 = rb_moved bs rb in
     if rb_cap rb < rb_len rb + length bs
     then rb1\<lparr>rb_read_mirror := (if rb_cap rb \<le> rb_w rb + length bs then \<not> rb_read_mirror rb1 else rb_read_mirror rb1),
              rb_read_index := rb_write_index rb1\<rparr>
     else rb1)"

lemma put_block_ok:
  assumes ok: "rb_ok rb" and n: "length bs \<le> rb_cap rb"
  shows "rb_ok (put_block bs rb)" "rb_cap (put_block bs rb) = rb_cap rb"
    "rb_content (put_block bs rb) =
      (if loses_all bs rb then [] else drop (rb_len rb + length bs - rb_cap rb) (rb_content rb) @ bs)"
proof -
  show c: "rb_cap (put_block bs rb) = rb_cap rb" by (simp add: put_block_def Let_def rb_cap_def rb_size_def)
  have lp: "length (rb_buffer_ptr rb) = rb_cap rb" "rb_w rb < rb_cap rb" "rb_r rb < rb_cap rb" using ok by (simp_all add: rb_ok_def)
  have w: "rb_w (rb_moved bs rb) = (rb_w rb + length bs) mod rb_cap rb" by (rule rb_moved_w[OF ok])
  have lt: "(rb_w rb + length bs) mod rb_cap rb < rb_cap rb" using lp(2) by (intro mod_less_divisor) linarith
  have "rb_ok (put_block bs rb) \<and> rb_content (put_block bs rb) =
      (if loses_all bs rb then [] else drop (rb_len rb + length bs - rb_cap rb) (rb_content rb) @ bs)"
  proof (cases "rb_cap rb < rb_len rb + length bs")
    case False
    then show ?thesis using rb_moved_ok[OF ok] by (simp add: put_block_def loses_all_def)
  next
    case over: True
    show ?thesis
    proof (cases "loses_all bs rb")
      case True
      then have z: "rb_len (put_block bs rb) = 0" "rb_ok (put_block bs rb)"
        using over lp lt w c by (simp_all add: put_block_def loses_all_def Let_def rb_len_def rb_ok_def)
      then show ?thesis using True by (simp flip: length_0_conv)
    next
      case False
      have "put_block bs rb = rb_full_at_write (rb_moved bs rb)"
        using False over ok by (auto simp: put_block_def loses_all_def rb_full_at_write_def Let_def rb_len_def rb_ok_def
            split: if_splits)
      then show ?thesis using rb_full_ok[OF ok n over] False by simp
    qed
  qed
  then show "rb_ok (put_block bs rb)" "rb_content (put_block bs rb) =
      (if loses_all bs rb then [] else drop (rb_len rb + length bs - rb_cap rb) (rb_content rb) @ bs)" by blast+
qed

lemma uint_pos: "0 \<le> sint w \<Longrightarrow> uint w = sint w" for w :: "16 word"
  using sint_less[of w] by (simp add: uint_sint take_bit_int_eq_self)

text \<open>Of a block longer than the pool only its end is used.\<close>

lemma rt_ringbuffer_put_force_ok:
  fixes n :: u16
  assumes ok: "rb_ok rb" and n: "unat n = length ptr"
  defines "bs \<equiv> drop (length ptr - rb_cap rb) ptr"
  shows "rt_ringbuffer_put_force ptr n rb = Some (of_nat (length bs), put_block bs rb)"
proof -
  let ?cut = "rb_size rb < uint n"
  let ?ptr = "if ?cut then drop (nat (uint n - rb_size rb)) ptr else ptr"
  let ?n = "if ?cut then rb_buffer_size rb else n"
  have ni: "uint n = int (length ptr)" by (rule uint_from_unat[OF n])
  have sz: "rb_size rb = int (rb_cap rb)" by (rule rb_size_cap[OF ok])
  have c: "?cut \<longleftrightarrow> rb_cap rb < length ptr" using ni sz by simp
  have p: "?ptr = bs"
  proof -
    have "nat (int (length ptr) - int (rb_cap rb)) = length ptr - rb_cap rb" by (simp add: nat_diff_distrib')
    then show ?thesis unfolding c ni sz bs_def by simp
  qed
  have bsz: "uint (rb_buffer_size rb) = int (rb_cap rb)" using uint_pos[of "rb_buffer_size rb"] sz by (simp add: rb_size_def)
  have lb: "length bs = min (length ptr) (rb_cap rb)" by (simp add: bs_def)
  have nl: "uint ?n = int (length bs)" unfolding c using ni bsz lb by simp
  then have ul: "unat ?n = length bs" by (metis nat_int unat_eq_nat_uint)
  have cp: "rb_copy_in bs (int (length bs)) rb = Some (rb_moved bs rb)"
    using rb_copy_in_ok[OF ok, of "length bs" bs] lb by simp
  have sp: "unat (ucast (rt_ringbuffer_space_len rb) :: u16) = rb_cap rb - rb_len rb"
    using rb_cap_limit[of rb] u32_small(3)[of "rb_cap rb - rb_len rb"] by (simp add: space_len_ok[OF ok])
  have over: "(ucast (rt_ringbuffer_space_len rb) :: u16) < ?n \<longleftrightarrow> rb_cap rb < rb_len rb + length bs"
    unfolding word_less_nat_alt sp ul using rb_len_le[OF ok] by auto
  have wr: "int (rb_cap rb) - uint (rb_write_index rb) \<le> int (length bs) \<longleftrightarrow> rb_cap rb \<le> rb_w rb + length bs"
  proof -
    have "int (rb_cap rb) - int (rb_w rb) \<le> int (length bs) \<longleftrightarrow> rb_cap rb \<le> rb_w rb + length bs" by linarith
    then show ?thesis by simp
  qed
  have cl: "(ucast ?n :: u32) = of_nat (length bs)" using ul by (metis ucast_of_unat)
  show ?thesis
    unfolding rt_ringbuffer_put_force_def Let_def p nl cp bind.bind_lunit over cl put_block_def wr[folded sz] by simp
qed

lemma rt_ringbuffer_putchar_force_ok:
  assumes ok: "rb_ok rb"
  shows "rt_ringbuffer_putchar_force ch rb = Some (1,
    if rb_len rb < rb_cap rb then rb_moved [ch] rb else rb_full_at_write (rb_moved [ch] rb))"
proof -
  have full: "rt_ringbuffer_status rb = RT_RINGBUFFER_FULL \<longleftrightarrow> \<not> rb_len rb < rb_cap rb"
  proof -
    have eq: "rb_read_index rb = rb_write_index rb \<longleftrightarrow> rb_r rb = rb_w rb" by (simp add: word_unat_eq_iff)
    show ?thesis unfolding rt_ringbuffer_status_def eq using ok by (auto simp: rb_ok_def rb_len_def split: if_splits)
  qed
  have m: "rb_len rb = rb_cap rb \<Longrightarrow> rb_read_mirror rb \<noteq> rb_write_mirror rb"
    using ok by (auto simp: rb_ok_def rb_len_def split: if_splits)
  obtain rb1 where rb1: "rb_store ch rb = Some rb1" "rb_step_write rb1 = rb_moved [ch] rb"
    using rb_store_ok[OF ok, of ch] by (auto simp: map_option_eq_Some)
  have f: "rb_write_index rb1 = rb_write_index rb" "rb_size rb1 = rb_size rb"
    using rb1(1) by (auto simp: rb_store_def rb_size_def)
  have last: "uint (rb_write_index rb1) = rb_size rb1 - 1 \<longleftrightarrow> \<not> rb_w rb + 1 < rb_cap rb"
  proof -
    have "rb_w rb < rb_cap rb" using ok by (simp add: rb_ok_def)
    then have "int (rb_w rb) = int (rb_cap rb) - 1 \<longleftrightarrow> \<not> rb_w rb + 1 < rb_cap rb" by linarith
    then show ?thesis unfolding f rb_size_cap[OF ok] by simp
  qed
  show ?thesis
    using rb1 full m rb_len_le[OF ok] unfolding rt_ringbuffer_putchar_force_def
    by (auto simp: Let_def last rb_full_at_write_def le_less)
qed

lemma rt_ringbuffer_init_ok:
  assumes "0 < sint sz" "sz AND 3 = 0" "length pool = nat (sint sz)"
  shows "\<exists>rb. rt_ringbuffer_init pool sz = Some rb \<and> rb_ok rb \<and> rb_cap rb = nat (sint sz) \<and> rb_content rb = []"
proof -
  have "sz = sz AND (3 OR NOT 3)" by simp
  also have "\<dots> = (sz AND 3) OR (sz AND NOT 3)" by (rule bit.conj_disj_distrib)
  finally have "sz AND NOT 3 = sz" using assms(2) by simp
  then show ?thesis using assms(1,3)
    by (simp add: rt_ringbuffer_init_def rb_ok_def rb_cap_def rb_size_def rb_content_def rb_len_def ring_list_def)
qed

lemma rt_ringbuffer_reset_ok: "rb_ok rb \<Longrightarrow> rb_ok (rt_ringbuffer_reset rb) \<and> rb_content (rt_ringbuffer_reset rb) = []"
  by (simp add: rt_ringbuffer_reset_def rb_ok_def rb_cap_def rb_size_def rb_content_def rb_len_def ring_list_def)

end
