(* ===== verification/RingBlk.thy ===== *)
theory RingBlk
  imports Prelude
begin

text \<open>
  The ring block buffer of the device drivers (\<open>components/drivers/src/ringblk_buf.c\<close>): blocks
  of contiguous bytes laid out round a buffer, described by the entries of a fixed set; the list
  of the buffer, oldest block first, is the list of the indices of its entries. Addresses and
  sizes are natural numbers with 32-bit arithmetic.
\<close>

section \<open>State and operations\<close>

datatype rbb_status = RT_RBB_BLK_UNUSED | RT_RBB_BLK_INITED | RT_RBB_BLK_PUT | RT_RBB_BLK_GET

record rbb_blk =
  blk_status :: rbb_status
  blk_size :: nat
  blk_buf :: nat

record rbb =
  rbb_buf :: nat
  rbb_buf_size :: nat
  rbb_blk_set :: "rbb_blk list"
  rbb_blk_max_num :: nat
  rbb_blk_list :: "nat list"

record rbb_queue =
  q_blocks :: nat
  q_blk_num :: nat

definition blk :: "rbb \<Rightarrow> nat \<Rightarrow> rbb_blk" where
  "blk r i = rbb_blk_set r ! i"

definition set_blk :: "nat \<Rightarrow> rbb_blk \<Rightarrow> rbb \<Rightarrow> rbb" where
  "set_blk i b r = r\<lparr>rbb_blk_set := (rbb_blk_set r)[i := b]\<rparr>"

definition set_status :: "rbb_status \<Rightarrow> nat \<Rightarrow> rbb \<Rightarrow> rbb" where
  "set_status s i r = set_blk i ((blk r i)\<lparr>blk_status := s\<rparr>) r"

text \<open>\<open>block_set\<close> is the memory of the entries, whatever it holds.\<close>

definition rt_rbb_init :: "nat \<Rightarrow> nat \<Rightarrow> rbb_blk list \<Rightarrow> nat \<Rightarrow> rbb option" where
  "rt_rbb_init buf buf_size block_set blk_max_num = do {
     rt_assert (buf \<noteq> 0 \<and> blk_max_num \<le> length block_set);
     Some \<lparr>rbb_buf = buf, rbb_buf_size = buf_size,
       rbb_blk_set = map (\<lambda>b. b\<lparr>blk_status := RT_RBB_BLK_UNUSED\<rparr>) (take blk_max_num block_set) @ drop blk_max_num block_set,
       rbb_blk_max_num = blk_max_num, rbb_blk_list = []\<rparr>
   }"

text \<open>The three pieces of memory are what the heap gave, in this order.\<close>

definition rt_rbb_create :: "bool \<Rightarrow> nat option \<Rightarrow> rbb_blk list option \<Rightarrow> nat \<Rightarrow> nat \<Rightarrow> rbb option option" where
  "rt_rbb_create rbb_mem buf_mem set_mem buf_size blk_max_num =
    (if \<not> rbb_mem then Some None
     else (case buf_mem of None \<Rightarrow> Some None
     | Some buf \<Rightarrow> (case set_mem of None \<Rightarrow> Some None
       | Some block_set \<Rightarrow> map_option Some (rt_rbb_init buf buf_size block_set blk_max_num))))"

definition find_empty_blk_in_set :: "rbb \<Rightarrow> nat option" where
  "find_empty_blk_in_set r = find (\<lambda>i. blk_status (blk r i) = RT_RBB_BLK_UNUSED) [0..<rbb_blk_max_num r]"

definition rbb_append :: "nat \<Rightarrow> nat \<Rightarrow> nat \<Rightarrow> rbb \<Rightarrow> nat option \<times> rbb" where
  "rbb_append i buf sz r =
    (Some i, (set_blk i \<lparr>blk_status = RT_RBB_BLK_INITED, blk_size = sz, blk_buf = buf\<rparr> r)\<lparr>rbb_blk_list := rbb_blk_list r @ [i]\<rparr>)"

text \<open>An empty buffer takes a block of any size.\<close>

definition rt_rbb_blk_alloc :: "nat \<Rightarrow> rbb \<Rightarrow> (nat option \<times> rbb) option" where
  "rt_rbb_blk_alloc sz r = do {
     rt_assert (sz < 2 ^ 24);
     Some (case find_empty_blk_in_set r of
       None \<Rightarrow> (None, r)
     | Some i \<Rightarrow>
         if \<not> length (rbb_blk_list r) < rbb_blk_max_num r then (None, r)
         else if rbb_blk_list r \<noteq> [] then
           (let head = blk r (hd (rbb_blk_list r)); tail = blk r (last (rbb_blk_list r));
                tail_end = uadd (blk_buf tail) (blk_size tail) in
            if blk_buf head \<le> blk_buf tail then
              (let empty1 = usub (uadd (rbb_buf r) (rbb_buf_size r)) tail_end;
                   empty2 = usub (blk_buf head) (rbb_buf r) in
               if empty1 \<ge> sz then rbb_append i tail_end sz r
               else if empty2 \<ge> sz then rbb_append i (rbb_buf r) sz r
               else (None, r))
            else
              (let empty1 = usub (blk_buf head) tail_end in
               if empty1 \<ge> sz then rbb_append i tail_end sz r else (None, r)))
         else rbb_append i (rbb_buf r) sz r)
   }"

definition rt_rbb_blk_put :: "nat \<Rightarrow> rbb \<Rightarrow> rbb option" where
  "rt_rbb_blk_put i r = do {
     rt_assert (blk_status (blk r i) = RT_RBB_BLK_INITED);
     Some (set_status RT_RBB_BLK_PUT i r)
   }"

definition rt_rbb_blk_get :: "rbb \<Rightarrow> nat option \<times> rbb" where
  "rt_rbb_blk_get r =
    (case find (\<lambda>i. blk_status (blk r i) = RT_RBB_BLK_PUT) (rbb_blk_list r) of
       None \<Rightarrow> (None, r) | Some i \<Rightarrow> (Some i, set_status RT_RBB_BLK_GET i r))"

definition rt_rbb_blk_free :: "nat \<Rightarrow> rbb \<Rightarrow> rbb option" where
  "rt_rbb_blk_free i r = do {
     rt_assert (blk_status (blk r i) \<noteq> RT_RBB_BLK_UNUSED);
     Some (set_status RT_RBB_BLK_UNUSED i (r\<lparr>rbb_blk_list := remove1 i (rbb_blk_list r)\<rparr>))
   }"

text \<open>
  The loop of \<open>rt_rbb_blk_queue_get\<close> over the nodes of the list, with the last block taken so far;
  a node taken out of the list keeps its next pointer, so the loop runs over the list as it was.
\<close>

definition rbb_take :: "nat \<Rightarrow> rbb \<Rightarrow> rbb" where
  "rbb_take i r = set_status RT_RBB_BLK_GET i (r\<lparr>rbb_blk_list := remove1 i (rbb_blk_list r)\<rparr>)"

fun rbb_queue_loop :: "nat \<Rightarrow> nat list \<Rightarrow> nat option \<Rightarrow> nat \<Rightarrow> rbb_queue \<Rightarrow> rbb \<Rightarrow> nat \<times> rbb_queue \<times> rbb" where
  "rbb_queue_loop limit [] last_block len q r = (len, q, r)"
| "rbb_queue_loop limit (i # is) last_block len q r =
    (case last_block of
       None \<Rightarrow>
         if blk_status (blk r i) = RT_RBB_BLK_PUT
         then rbb_queue_loop limit is (Some i) (uadd len (blk_size (blk r i))) \<lparr>q_blocks = i, q_blk_num = 1\<rparr> (rbb_take i r)
         else rbb_queue_loop limit is None len q r
     | Some l \<Rightarrow>
         if blk_status (blk r i) \<noteq> RT_RBB_BLK_PUT \<or> blk_buf (blk r l) > blk_buf (blk r i) \<or>
            uadd len (blk_size (blk r i)) > limit
         then (len, q, r)
         else rbb_queue_loop limit is (Some i) (uadd len (blk_size (blk r i))) (q\<lparr>q_blk_num := q_blk_num q + 1\<rparr>) (rbb_take i r))"

definition rt_rbb_blk_queue_get :: "nat \<Rightarrow> rbb_queue \<Rightarrow> rbb \<Rightarrow> nat \<times> rbb_queue \<times> rbb" where
  "rt_rbb_blk_queue_get queue_data_len q r =
    (if rbb_blk_list r = [] then (0, q, r) else rbb_queue_loop queue_data_len (rbb_blk_list r) None 0 q r)"

text \<open>The blocks of a queue are taken to be neighbours in the set.\<close>

primrec rbb_queue_sum :: "rbb \<Rightarrow> nat \<Rightarrow> nat \<Rightarrow> nat option" where
  "rbb_queue_sum r b 0 = Some 0"
| "rbb_queue_sum r b (Suc n) = do {
     s \<leftarrow> rbb_queue_sum r b n;
     rt_assert (b + n < length (rbb_blk_set r));
     Some (uadd s (blk_size (blk r (b + n))))
   }"

definition rt_rbb_blk_queue_len :: "rbb_queue \<Rightarrow> rbb \<Rightarrow> nat option" where
  "rt_rbb_blk_queue_len q r = rbb_queue_sum r (q_blocks q) (q_blk_num q)"

definition rt_rbb_blk_queue_buf :: "rbb_queue \<Rightarrow> rbb \<Rightarrow> nat" where
  "rt_rbb_blk_queue_buf q r = blk_buf (blk r (q_blocks q))"

primrec rbb_queue_free_loop :: "nat \<Rightarrow> nat \<Rightarrow> rbb \<Rightarrow> rbb option" where
  "rbb_queue_free_loop b 0 r = Some r"
| "rbb_queue_free_loop b (Suc n) r = do {
     r1 \<leftarrow> rbb_queue_free_loop b n r;
     rt_assert (b + n < length (rbb_blk_set r1));
     rt_rbb_blk_free (b + n) r1
   }"

definition rt_rbb_blk_queue_free :: "rbb_queue \<Rightarrow> rbb \<Rightarrow> rbb option" where
  "rt_rbb_blk_queue_free q r = rbb_queue_free_loop (q_blocks q) (q_blk_num q) r"

fun rbb_next_loop :: "nat list \<Rightarrow> nat option \<Rightarrow> nat \<Rightarrow> rbb \<Rightarrow> nat" where
  "rbb_next_loop [] last_block len r = len"
| "rbb_next_loop (i # is) last_block len r =
    (case last_block of
       None \<Rightarrow>
         if blk_status (blk r i) \<noteq> RT_RBB_BLK_PUT then rbb_next_loop is None len r
         else rbb_next_loop is (Some i) (uadd len (blk_size (blk r i))) r
     | Some l \<Rightarrow>
         if blk_status (blk r i) \<noteq> RT_RBB_BLK_PUT \<or> blk_buf (blk r l) > blk_buf (blk r i) then len
         else rbb_next_loop is (Some i) (uadd len (blk_size (blk r i))) r)"

definition rt_rbb_next_blk_queue_len :: "rbb \<Rightarrow> nat" where
  "rt_rbb_next_blk_queue_len r = rbb_next_loop (rbb_blk_list r) None 0 r"

definition rt_rbb_get_buf_size :: "rbb \<Rightarrow> nat" where
  "rt_rbb_get_buf_size r = rbb_buf_size r"

definition rt_rbb_blk_size :: "nat \<Rightarrow> rbb \<Rightarrow> nat" where
  "rt_rbb_blk_size i r = blk_size (blk r i)"

definition rt_rbb_blk_buf :: "nat \<Rightarrow> rbb \<Rightarrow> nat" where
  "rt_rbb_blk_buf i r = blk_buf (blk r i)"

section \<open>The layout of the blocks\<close>

text \<open>Stretches of memory one behind the other, none of them empty.\<close>

fun stacked :: "nat \<Rightarrow> (nat \<times> nat) list \<Rightarrow> nat \<Rightarrow> bool" where
  "stacked lo [] hi = (lo \<le> hi)"
| "stacked lo ((a, n) # s) hi = (lo \<le> a \<and> 0 < n \<and> stacked (a + n) s hi)"

definition span :: "rbb \<Rightarrow> nat \<Rightarrow> nat \<times> nat" where
  "span r i = (blk_buf (blk r i), blk_size (blk r i))"

text \<open>
  The blocks of the list go round the buffer once: the younger ones that have been wrapped to its
  start lie below the older ones.
\<close>

definition rbb_ok :: "rbb \<Rightarrow> bool" where
  "rbb_ok r \<longleftrightarrow> rbb_blk_max_num r \<le> length (rbb_blk_set r) \<and> distinct (rbb_blk_list r) \<and>
     (\<forall>i \<in> set (rbb_blk_list r). i < rbb_blk_max_num r \<and> blk_status (blk r i) \<noteq> RT_RBB_BLK_UNUSED) \<and>
     rbb_buf r + rbb_buf_size r < 2 ^ 32 \<and>
     (\<exists>xs ys. rbb_blk_list r = xs @ ys \<and>
        stacked (rbb_buf r) (map (span r) (ys @ xs)) (rbb_buf r + rbb_buf_size r))"

section \<open>Allocating and freeing keep the layout\<close>

lemma stacked_le: "stacked lo s hi \<Longrightarrow> lo \<le> hi"
  by (induction lo s hi rule: stacked.induct) auto

lemma stacked_append: "stacked lo (s @ t) hi \<longleftrightarrow> (\<exists>m. stacked lo s m \<and> stacked m t hi)"
proof (induction lo s hi rule: stacked.induct)
  case (1 lo hi)
  then show ?case using stacked_le[of _ t hi] by (cases t) (auto intro: le_trans)
qed auto

lemma stacked_mono: "stacked lo s hi \<Longrightarrow> lo' \<le> lo \<Longrightarrow> hi \<le> hi' \<Longrightarrow> stacked lo' s hi'"
  by (induction lo s hi arbitrary: lo' rule: stacked.induct) auto

lemma stacked_remove: "stacked lo (s @ x # t) hi \<Longrightarrow> stacked lo (s @ t) hi"
proof (cases x)
  case (Pair a n)
  assume "stacked lo (s @ x # t) hi"
  then obtain m where "stacked lo s m" "m \<le> a + n" "stacked (a + n) t hi" using Pair by (auto simp: stacked_append)
  then show ?thesis using stacked_mono[of "a + n" t hi m hi] by (auto simp: stacked_append)
qed

lemma stacked_in: "stacked lo s hi \<Longrightarrow> (a, n) \<in> set s \<Longrightarrow> lo \<le> a \<and> 0 < n \<and> a + n \<le> hi"
  by (induction lo s hi rule: stacked.induct) (auto dest: stacked_le)

lemma stacked_snoc: "stacked lo (s @ [(a, n)]) hi \<longleftrightarrow> stacked lo s a \<and> 0 < n \<and> a + n \<le> hi"
  by (auto simp: stacked_append intro: stacked_mono)

lemma stacked_apart:
  "stacked lo (s @ (a, n) # t) hi \<Longrightarrow> (b, m) \<in> set (s @ t) \<Longrightarrow> b + m \<le> a \<or> a + n \<le> b"
  by (auto simp: stacked_append dest: stacked_in)

lemma blk_simps [simp]:
  "rbb_buf (set_blk i b r) = rbb_buf r" "rbb_buf_size (set_blk i b r) = rbb_buf_size r"
  "rbb_blk_max_num (set_blk i b r) = rbb_blk_max_num r" "rbb_blk_list (set_blk i b r) = rbb_blk_list r"
  "length (rbb_blk_set (set_blk i b r)) = length (rbb_blk_set r)"
  "blk (r\<lparr>rbb_blk_list := l\<rparr>) j = blk r j"
  "i < length (rbb_blk_set r) \<Longrightarrow> blk (set_blk i b r) j = (if j = i then b else blk r j)"
  by (auto simp: set_blk_def blk_def)

lemma find_empty_Some:
  "find_empty_blk_in_set r = Some i \<Longrightarrow> i < rbb_blk_max_num r \<and> blk_status (blk r i) = RT_RBB_BLK_UNUSED"
  by (auto simp: find_empty_blk_in_set_def find_Some_iff)

lemma span_cong: "(\<And>i. i \<in> set is \<Longrightarrow> blk r' i = blk r i) \<Longrightarrow> map (span r') is = map (span r) is"
  by (simp add: span_def)

text \<open>A new block at the end of the list whose stretch fits between two halves of the layout.\<close>

lemma rbb_append_ok:
  assumes ok: "rbb_ok r" and i: "find_empty_blk_in_set r = Some i" and sz: "0 < sz"
    and xs: "rbb_blk_list r = xs @ ys" "stacked (rbb_buf r) (map (span r) ys @ [(a, sz)] @ map (span r) xs) (rbb_buf r + rbb_buf_size r)"
  shows "\<exists>r'. rbb_append i a sz r = (Some i, r') \<and> rbb_ok r' \<and> rbb_blk_list r' = rbb_blk_list r @ [i] \<and>
    blk r' i = \<lparr>blk_status = RT_RBB_BLK_INITED, blk_size = sz, blk_buf = a\<rparr> \<and> (\<forall>j. j \<noteq> i \<longrightarrow> blk r' j = blk r j) \<and>
    rbb_buf r \<le> a \<and> a + sz \<le> rbb_buf r + rbb_buf_size r \<and>
    (\<forall>j \<in> set (rbb_blk_list r). blk_buf (blk r j) + blk_size (blk r j) \<le> a \<or> a + sz \<le> blk_buf (blk r j))"
proof -
  define r' where "r' = snd (rbb_append i a sz r)"
  have r': "rbb_append i a sz r = (Some i, r')" by (simp add: r'_def rbb_append_def)
  note e = find_empty_Some[OF i]
  have il: "i < length (rbb_blk_set r)" using ok e by (simp add: rbb_ok_def)
  have ni: "i \<notin> set (rbb_blk_list r)" using ok e by (auto simp: rbb_ok_def)
  have b: "blk r' j = (if j = i then \<lparr>blk_status = RT_RBB_BLK_INITED, blk_size = sz, blk_buf = a\<rparr> else blk r j)" for j
    using il by (simp add: r'_def rbb_append_def)
  have l: "rbb_blk_list r' = xs @ (ys @ [i])" "rbb_buf r' = rbb_buf r" "rbb_buf_size r' = rbb_buf_size r"
      "rbb_blk_max_num r' = rbb_blk_max_num r" "length (rbb_blk_set r') = length (rbb_blk_set r)"
    using xs(1) by (simp_all add: r'_def rbb_append_def)
  have sp: "map (span r') xs = map (span r) xs" "map (span r') ys = map (span r) ys"
    by (rule span_cong; use ni xs(1) b in auto)+
  have eq: "map (span r') ((ys @ [i]) @ xs) = map (span r) ys @ [(a, sz)] @ map (span r) xs"
    using sp b[of i] by (simp add: span_def)
  have st: "stacked (rbb_buf r') (map (span r') ((ys @ [i]) @ xs)) (rbb_buf r' + rbb_buf_size r')"
    unfolding eq l(2,3) by (rule xs(2))
  have "rbb_ok r'"
    unfolding rbb_ok_def
  proof (intro conjI)
    show "\<exists>xs ys. rbb_blk_list r' = xs @ ys \<and>
        stacked (rbb_buf r') (map (span r') (ys @ xs)) (rbb_buf r' + rbb_buf_size r')"
      using l(1) st by blast
  qed (use ok e ni l b xs(1) in \<open>auto simp: rbb_ok_def\<close>)
  moreover have "rbb_buf r \<le> a \<and> a + sz \<le> rbb_buf r + rbb_buf_size r"
    using stacked_in[OF xs(2), of a sz] by simp
  moreover have "blk_buf (blk r j) + blk_size (blk r j) \<le> a \<or> a + sz \<le> blk_buf (blk r j)" if "j \<in> set (rbb_blk_list r)" for j
  proof -
    have "span r j \<in> set (map (span r) ys @ map (span r) xs)" using that xs(1) by auto
    then show ?thesis using stacked_apart[of "rbb_buf r" "map (span r) ys" a sz "map (span r) xs" _ "blk_buf (blk r j)" "blk_size (blk r j)"] xs(2)
      by (simp add: span_def)
  qed
  ultimately show ?thesis using r' b l(1) xs(1) by (intro exI[of _ r']) simp
qed

lemma stacked_hd_last: "stacked lo s hi \<Longrightarrow> s \<noteq> [] \<Longrightarrow> fst (hd s) \<le> fst (last s)"
proof (induction lo s hi rule: stacked.induct)
  case (2 lo a n s hi)
  then show ?case by (cases s) (auto simp: le_trans)
qed simp

lemma stacked_from: "stacked lo s hi \<Longrightarrow> s \<noteq> [] \<Longrightarrow> lo' \<le> fst (hd s) \<Longrightarrow> stacked lo' s hi"
  by (cases s) auto

lemma stacked_last: "stacked lo s hi \<Longrightarrow> s \<noteq> [] \<Longrightarrow> stacked lo s (fst (last s) + snd (last s))"
  by (induction s rule: rev_induct) (auto simp: stacked_snoc split: prod.splits)

text \<open>Where the oldest block lies not above the youngest, nothing is wrapped; otherwise both halves are there.\<close>

lemma layout_cases:
  fixes f :: "nat \<Rightarrow> nat \<times> nat"
  assumes st: "stacked lo (map f (ys @ xs)) hi" and l: "l = xs @ ys" "l \<noteq> []"
  shows "fst (f (hd l)) \<le> fst (f (last l)) \<Longrightarrow> stacked lo (map f l) hi"
    "fst (f (last l)) < fst (f (hd l)) \<Longrightarrow> stacked lo (map f ys) (fst (f (last l)) + snd (f (last l))) \<and>
       stacked (fst (f (hd l))) (map f xs) hi \<and> fst (f (last l)) + snd (f (last l)) \<le> fst (f (hd l))"
proof -
  have both: "stacked lo (map f ys) (fst (f (last l)) + snd (f (last l))) \<and> stacked (fst (f (hd l))) (map f xs) hi \<and>
      fst (f (last l)) + snd (f (last l)) \<le> fst (f (hd l)) \<and> 0 < snd (f (last l))" if ne: "xs \<noteq> []" "ys \<noteq> []"
  proof -
    obtain m where m: "stacked lo (map f ys) m" "stacked m (map f xs) hi" using st by (auto simp: stacked_append)
    have e: "last (map f ys) = f (last l)" "hd (map f xs) = f (hd l)" using ne l(1) by (simp_all add: last_map hd_map)
    obtain x vs where x: "xs = x # vs" using ne(1) by (cases xs) auto
    have "stacked (fst (f x)) (map f xs) hi" "m \<le> fst (f x)" using m(2) x by (cases "f x"; simp)+
    moreover have "hd l = x" using x l(1) by simp
    moreover have "stacked lo (map f ys) (fst (f (last l)) + snd (f (last l)))"
      using stacked_last[OF m(1)] ne(2) e(1) by simp
    moreover have "f (last l) \<in> set (map f ys)" using e(1) ne(2) last_in_set[of "map f ys"] by simp
    then have "fst (f (last l)) + snd (f (last l)) \<le> m \<and> 0 < snd (f (last l))"
      using stacked_in[OF m(1), of "fst (f (last l))" "snd (f (last l))"] by simp
    ultimately show ?thesis by auto
  qed
  show "stacked lo (map f l) hi" if "fst (f (hd l)) \<le> fst (f (last l))"
  proof (cases "xs = [] \<or> ys = []")
    case True
    then show ?thesis using st l(1) by auto
  next
    case False
    then show ?thesis using both that by auto
  qed
  show "stacked lo (map f ys) (fst (f (last l)) + snd (f (last l))) \<and>
       stacked (fst (f (hd l))) (map f xs) hi \<and> fst (f (last l)) + snd (f (last l)) \<le> fst (f (hd l))"
    if lt: "fst (f (last l)) < fst (f (hd l))"
  proof (cases "xs = [] \<or> ys = []")
    case True
    then have "stacked lo (map f l) hi" using st l(1) by auto
    then show ?thesis using stacked_hd_last[of lo "map f l" hi] l(2) lt by (simp add: hd_map last_map)
  next
    case False
    then show ?thesis using both by blast
  qed
qed

text \<open>
  Allocation of a block that is not empty, in a buffer with a block or for a size that the buffer has:
  either nothing changes, or a new block that overlaps no other one.
\<close>

lemma rt_rbb_blk_alloc_ok:
  assumes ok: "rbb_ok r" and sz: "0 < sz" "sz < 2 ^ 24" and fit: "rbb_blk_list r = [] \<Longrightarrow> sz \<le> rbb_buf_size r"
  obtains (none) "rt_rbb_blk_alloc sz r = Some (None, r)"
  | (block) i a r' where "rt_rbb_blk_alloc sz r = Some (Some i, r')" "rbb_ok r'" "rbb_blk_list r' = rbb_blk_list r @ [i]"
      "blk r' i = \<lparr>blk_status = RT_RBB_BLK_INITED, blk_size = sz, blk_buf = a\<rparr>" "\<forall>j. j \<noteq> i \<longrightarrow> blk r' j = blk r j"
      "rbb_buf r \<le> a" "a + sz \<le> rbb_buf r + rbb_buf_size r"
      "\<forall>j \<in> set (rbb_blk_list r). blk_buf (blk r j) + blk_size (blk r j) \<le> a \<or> a + sz \<le> blk_buf (blk r j)"
proof -
  let ?lo = "rbb_buf r" and ?hi = "rbb_buf r + rbb_buf_size r" and ?l = "rbb_blk_list r"
  obtain xs ys where l: "?l = xs @ ys" and st: "stacked ?lo (map (span r) (ys @ xs)) ?hi" and hi: "?hi < 2 ^ 32"
    using ok by (auto simp: rbb_ok_def)
  have fin: thesis if "find_empty_blk_in_set r = Some i" "rt_rbb_blk_alloc sz r = Some (rbb_append i a sz r)"
      "?l = us @ vs" "stacked ?lo (map (span r) vs @ [(a, sz)] @ map (span r) us) ?hi" for i a us vs
    using rbb_append_ok[OF ok that(1) sz(1) that(3,4)] that(2) block by metis
  show ?thesis
  proof (cases "find_empty_blk_in_set r")
    case None
    then show ?thesis using none sz by (simp add: rt_rbb_blk_alloc_def)
  next
    case i: (Some i)
    show ?thesis
    proof (cases "length ?l < rbb_blk_max_num r")
      case False
      then show ?thesis using none sz i by (simp add: rt_rbb_blk_alloc_def)
    next
      case room: True
      show ?thesis
      proof (cases "?l = []")
        case True
        then show ?thesis
          using fin[OF i, of ?lo "[]" "[]"] fit sz room by (simp add: rt_rbb_blk_alloc_def i)
      next
        case False
        let ?h = "blk r (hd ?l)" and ?t = "blk r (last ?l)"
        have inl: "hd ?l \<in> set ?l" "last ?l \<in> set ?l" using False by simp_all
        have in_buf: "?lo \<le> blk_buf (blk r j) \<and> 0 < blk_size (blk r j) \<and> blk_buf (blk r j) + blk_size (blk r j) \<le> ?hi"
          if "j \<in> set ?l" for j
          using stacked_in[OF st, of "blk_buf (blk r j)" "blk_size (blk r j)"] that l by (auto simp: span_def)
        note ht = in_buf[OF inl(1)] in_buf[OF inl(2)]
        define te where "te = blk_buf ?t + blk_size ?t"
        have u: "uadd (blk_buf ?t) (blk_size ?t) = te" "uadd ?lo (rbb_buf_size r) = ?hi" "usub ?hi te = ?hi - te"
            "usub (blk_buf ?h) ?lo = blk_buf ?h - ?lo"
          using ht hi by (simp_all add: te_def)
        have run: "rt_rbb_blk_alloc sz r =
            Some (if blk_buf ?h \<le> blk_buf ?t then
                    (if ?hi - te \<ge> sz then rbb_append i te sz r
                     else if blk_buf ?h - ?lo \<ge> sz then rbb_append i ?lo sz r else (None, r))
                  else if usub (blk_buf ?h) te \<ge> sz then rbb_append i te sz r else (None, r))"
          using False room sz i by (simp add: rt_rbb_blk_alloc_def Let_def u)
        show ?thesis
        proof (cases "blk_buf ?h \<le> blk_buf ?t")
          case True
          have up: "stacked ?lo (map (span r) ?l) ?hi" by (rule layout_cases(1)[OF st l False]) (use True in \<open>simp add: span_def\<close>)
          have "stacked ?lo (map (span r) ?l) te"
            using stacked_last[OF up] False by (simp add: last_map span_def te_def)
          then have top: "stacked ?lo (map (span r) ?l @ [(te, sz)] @ map (span r) []) ?hi" if "sz \<le> ?hi - te"
            using that sz ht by (auto simp: stacked_snoc te_def)
          have bot: "stacked ?lo (map (span r) [] @ [(?lo, sz)] @ map (span r) ?l) ?hi" if "sz \<le> blk_buf ?h - ?lo"
            using stacked_from[OF up, of "?lo + sz"] that sz False ht by (simp add: hd_map span_def)
          consider "sz \<le> ?hi - te" | "\<not> sz \<le> ?hi - te" "sz \<le> blk_buf ?h - ?lo" | "\<not> sz \<le> ?hi - te" "\<not> sz \<le> blk_buf ?h - ?lo"
            by blast
          then show ?thesis
          proof cases
            case 1
            then show ?thesis using fin[OF i _ _ top] run True by simp
          next
            case 2
            then show ?thesis using fin[OF i _ _ bot] run True by simp
          next
            case 3
            then show ?thesis using none run True by simp
          qed
        next
          case wrapped: False
          have w: "stacked ?lo (map (span r) ys) te \<and> stacked (blk_buf ?h) (map (span r) xs) ?hi \<and> te \<le> blk_buf ?h"
            using layout_cases(2)[OF st l False] wrapped by (simp add: span_def te_def)
          then have mid: "stacked ?lo (map (span r) ys @ [(te, sz)] @ map (span r) xs) ?hi" if "sz \<le> blk_buf ?h - te"
            using that sz(1) stacked_mono[of "blk_buf ?h" "map (span r) xs" ?hi "te + sz" ?hi] by (auto simp: stacked_append)
          have "usub (blk_buf ?h) te = blk_buf ?h - te" using w ht hi by simp
          then show ?thesis using fin[OF i _ l mid] run none wrapped by (cases "sz \<le> blk_buf ?h - te") auto
        qed
      qed
    qed
  qed
qed

section \<open>The other operations\<close>

lemma set_status_simps [simp]:
  "rbb_buf (set_status s i r) = rbb_buf r" "rbb_buf_size (set_status s i r) = rbb_buf_size r"
  "rbb_blk_max_num (set_status s i r) = rbb_blk_max_num r" "rbb_blk_list (set_status s i r) = rbb_blk_list r"
  "length (rbb_blk_set (set_status s i r)) = length (rbb_blk_set r)"
  by (simp_all add: set_status_def)

lemma blk_set_status:
  "i < length (rbb_blk_set r) \<Longrightarrow> blk (set_status s i r) j = (if j = i then (blk r i)\<lparr>blk_status := s\<rparr> else blk r j)"
  by (simp add: set_status_def)

lemma rt_rbb_init_ok:
  "buf \<noteq> 0 \<Longrightarrow> buf + sz < 2 ^ 32 \<Longrightarrow> n \<le> length bs \<Longrightarrow>
   \<exists>r. rt_rbb_init buf sz bs n = Some r \<and> rbb_ok r \<and> rbb_blk_list r = [] \<and> rbb_buf r = buf \<and> rbb_buf_size r = sz \<and>
     (0 < n \<longrightarrow> find_empty_blk_in_set r = Some 0)"
  by (cases n; cases bs) (auto simp: rt_rbb_init_def rbb_ok_def find_empty_blk_in_set_def blk_def upt_conv_Cons simp del: upt_Suc)

lemma span_set_status [simp]: "i < length (rbb_blk_set r) \<Longrightarrow> span (set_status s i r) = span r"
  by (auto simp: span_def blk_set_status fun_eq_iff)

lemma set_status_ok:
  assumes ok: "rbb_ok r" and i: "i \<in> set (rbb_blk_list r)" and s: "s \<noteq> RT_RBB_BLK_UNUSED"
  shows "rbb_ok (set_status s i r)"
proof -
  have "i < length (rbb_blk_set r)" using ok i by (auto simp: rbb_ok_def)
  then show ?thesis using ok s by (auto simp: rbb_ok_def blk_set_status)
qed

lemma remove1_half:
  assumes "i \<in> set (xs @ ys)" "distinct (xs @ ys)"
  shows "remove1 i (xs @ ys) = remove1 i xs @ remove1 i ys"
proof (cases "i \<in> set xs")
  case True
  then have "i \<notin> set ys" using assms(2) by auto
  then show ?thesis using True by (simp add: remove1_append remove1_idem[of i ys])
qed (simp add: remove1_append remove1_idem)

lemma stacked_remove1: "stacked lo (map f s) hi \<Longrightarrow> stacked lo (map f (remove1 i s)) hi"
proof (cases "i \<in> set s")
  case True
  assume st: "stacked lo (map f s) hi"
  obtain us vs where "s = us @ i # vs" "i \<notin> set us" using split_list_first[OF True] by blast
  then show ?thesis using st stacked_remove[of lo "map f us" "f i" "map f vs" hi] by (simp add: remove1_append)
qed (simp add: remove1_idem)

text \<open>Taking a block out of the list, whatever its status then becomes, keeps the layout of the others.\<close>

lemma unlist_ok:
  assumes ok: "rbb_ok r" and i: "i \<in> set (rbb_blk_list r)"
  shows "rbb_ok (set_status s i (r\<lparr>rbb_blk_list := remove1 i (rbb_blk_list r)\<rparr>))"
proof -
  let ?r = "r\<lparr>rbb_blk_list := remove1 i (rbb_blk_list r)\<rparr>"
  obtain xs ys where l: "rbb_blk_list r = xs @ ys" and st: "stacked (rbb_buf r) (map (span r) (ys @ xs)) (rbb_buf r + rbb_buf_size r)"
    using ok by (auto simp: rbb_ok_def)
  have d: "distinct (xs @ ys)" "i \<in> set (xs @ ys)" using ok i l by (auto simp: rbb_ok_def)
  have il: "i < length (rbb_blk_set r)" using ok i by (auto simp: rbb_ok_def)
  have sp: "span (set_status s i ?r) = span r" using il by (auto simp: span_def blk_set_status fun_eq_iff)
  have l': "remove1 i (rbb_blk_list r) = remove1 i xs @ remove1 i ys" using remove1_half[OF d(2,1)] l by simp
  have "remove1 i (ys @ xs) = remove1 i ys @ remove1 i xs" using d by (intro remove1_half) auto
  then have st': "stacked (rbb_buf r) (map (span r) (remove1 i ys @ remove1 i xs)) (rbb_buf r + rbb_buf_size r)"
    using stacked_remove1[OF st, of i] by simp
  show ?thesis
    unfolding rbb_ok_def
  proof (intro conjI)
    show "\<exists>xs ys. rbb_blk_list (set_status s i ?r) = xs @ ys \<and> stacked (rbb_buf (set_status s i ?r))
        (map (span (set_status s i ?r)) (ys @ xs)) (rbb_buf (set_status s i ?r) + rbb_buf_size (set_status s i ?r))"
      using l' st' sp by auto
  qed (use ok il in \<open>auto simp: rbb_ok_def blk_set_status\<close>)
qed

lemma rt_rbb_blk_put_ok:
  "rbb_ok r \<Longrightarrow> i \<in> set (rbb_blk_list r) \<Longrightarrow> rt_rbb_blk_put i r = Some r' \<Longrightarrow> rbb_ok r'"
  by (auto simp: rt_rbb_blk_put_def rt_assert_Some set_status_ok split: Option.bind_splits)

lemma rt_rbb_blk_get_ok: "rbb_ok r \<Longrightarrow> rbb_ok (snd (rt_rbb_blk_get r))"
  by (auto simp: rt_rbb_blk_get_def find_Some_iff intro!: set_status_ok split: option.splits)

lemma rt_rbb_blk_free_ok:
  assumes "rbb_ok r" "i \<in> set (rbb_blk_list r)"
  shows "\<exists>r'. rt_rbb_blk_free i r = Some r' \<and> rbb_ok r' \<and> rbb_blk_list r' = remove1 i (rbb_blk_list r)"
  using assms unlist_ok[OF assms, of RT_RBB_BLK_UNUSED] by (auto simp: rt_rbb_blk_free_def rbb_ok_def)

lemma rbb_queue_loop_ok:
  "rbb_ok r \<Longrightarrow> set is \<subseteq> set (rbb_blk_list r) \<Longrightarrow> distinct is \<Longrightarrow> rbb_queue_loop limit is lb n q r = (n', q', r') \<Longrightarrow> rbb_ok r'"
proof (induction limit "is" lb n q r rule: rbb_queue_loop.induct)
  case (2 limit i "is" lb n q r)
  have ok: "rbb_ok (rbb_take i r)" using unlist_ok[OF 2(4), of i] 2(5) by (simp add: rbb_take_def)
  have sub: "set is \<subseteq> set (rbb_blk_list (rbb_take i r))" "distinct is" "set is \<subseteq> set (rbb_blk_list r)"
    using 2(4,5,6) by (auto simp: rbb_take_def rbb_ok_def)
  show ?case using 2(1,2,3,7) ok sub 2(4) by (auto split: option.splits if_splits)
qed simp

lemma rt_rbb_blk_queue_get_ok: "rbb_ok r \<Longrightarrow> rt_rbb_blk_queue_get limit q r = (n, q', r') \<Longrightarrow> rbb_ok r'"
  using rbb_queue_loop_ok[of r "rbb_blk_list r" limit None 0 q n q' r']
  by (auto simp: rt_rbb_blk_queue_get_def rbb_ok_def split: if_splits)

section \<open>Where the promises break\<close>

text \<open>An empty buffer gives out a block that is larger than the buffer.\<close>

lemma rt_rbb_blk_alloc_oversize:
  assumes "rbb_ok r" "rbb_blk_list r = []" "find_empty_blk_in_set r = Some i" "rbb_buf_size r < sz" "sz < 2 ^ 24"
  shows "\<exists>r'. rt_rbb_blk_alloc sz r = Some (Some i, r') \<and> span r' i = (rbb_buf r, sz)"
proof -
  have "i < length (rbb_blk_set r)" using assms(1) find_empty_Some[OF assms(3)] by (simp add: rbb_ok_def)
  then show ?thesis
    using assms find_empty_Some[OF assms(3)] by (auto simp: rt_rbb_blk_alloc_def rbb_append_def span_def)
qed

text \<open>
  \<open>rt_rbb_blk_queue_get\<close> takes its blocks out of the list although they are still read: the next
  block is laid over them. It also takes the first block whatever the limit.
\<close>

lemma rt_rbb_blk_queue_get_unprotected:
  assumes ok: "rbb_ok r" and l: "rbb_blk_list r = [b]" and p: "blk_status (blk r b) = RT_RBB_BLK_PUT"
    and i: "find_empty_blk_in_set r = Some i" and sz: "sz < 2 ^ 24" and n: "blk_size (blk r b) < 2 ^ 32"
  shows "\<exists>q' r' r''. rt_rbb_blk_queue_get limit q r = (blk_size (blk r b), q', r') \<and> q_blocks q' = b \<and> q_blk_num q' = 1 \<and>
    rt_rbb_blk_alloc sz r' = Some (Some i, r'') \<and> i \<noteq> b \<and> span r'' i = (rbb_buf r, sz) \<and>
    span r'' b = span r b \<and> blk_status (blk r'' b) = RT_RBB_BLK_GET"
proof -
  let ?r' = "rbb_take b r"
  note e = find_empty_Some[OF i]
  have len: "i < length (rbb_blk_set r)" "b < length (rbb_blk_set r)" using ok e l by (auto simp: rbb_ok_def)
  have ib: "i \<noteq> b" using e p by auto
  have st: "blk ?r' j = (if j = b then (blk r b)\<lparr>blk_status := RT_RBB_BLK_GET\<rparr> else blk r j)" for j
    using len(2) by (simp add: rbb_take_def blk_set_status)
  have "(\<lambda>j. blk_status (blk ?r' j) = RT_RBB_BLK_UNUSED) = (\<lambda>j. blk_status (blk r j) = RT_RBB_BLK_UNUSED)"
    using p by (auto simp: st fun_eq_iff)
  then have i': "find_empty_blk_in_set ?r' = Some i" using i by (simp add: find_empty_blk_in_set_def rbb_take_def)
  have "0 < rbb_blk_max_num r" using e by auto
  then have al: "rt_rbb_blk_alloc sz ?r' = Some (rbb_append i (rbb_buf r) sz ?r')"
    using i' sz l by (simp add: rt_rbb_blk_alloc_def rbb_take_def)
  have "rt_rbb_blk_queue_get limit q r = (blk_size (blk r b), \<lparr>q_blocks = b, q_blk_num = 1\<rparr>, ?r')"
    using l p n by (simp add: rt_rbb_blk_queue_get_def)
  moreover have "i < length (rbb_blk_set ?r')" "b < length (rbb_blk_set ?r')" using len by (simp_all add: rbb_take_def)
  ultimately show ?thesis
    using al ib st by (auto simp: rbb_append_def span_def)
qed

end
