(* ===== verification/Mem.thy ===== *)
theory Mem
  imports Kservice
begin

text \<open>
  The small memory manager (\<open>src/mem.c\<close>). The heap is a chain of blocks, each with a 12-byte
  header in front of its data. Headers are kept by their offset from \<open>heap_ptr\<close>, the data bytes in
  the byte memory of theory Kservice; offsets and sizes are natural numbers with the 32-bit
  arithmetic of \<open>rt_size_t\<close> written out. Reading a header where none has been written is the
  failure \<open>None\<close>, like a failed assertion.
\<close>

section \<open>State\<close>

abbreviation (input) RT_NULL :: nat where
  "RT_NULL \<equiv> 0"

definition HEAP_MAGIC :: u16 where
  "HEAP_MAGIC = 0x1ea0"

definition MIN_SIZE_ALIGNED :: nat where
  "MIN_SIZE_ALIGNED = 12"

definition SIZEOF_STRUCT_MEM :: nat where
  "SIZEOF_STRUCT_MEM = 12"

record heap_mem =
  hm_magic :: u16
  hm_used :: u16
  hm_next :: nat
  hm_prev :: nat

text \<open>
  \<open>heap_end\<close> and \<open>lfree\<close> are pointers to headers, kept as offsets. \<open>heap_sem\<close> is the value of the
  semaphore and \<open>heap_irq\<close> says whether the code runs in an interrupt.
\<close>

record heap =
  heap_ptr :: nat
  heap_end :: nat
  lfree :: nat
  heap_sem :: u16
  mem_size_aligned :: nat
  used_mem :: nat
  max_mem :: nat
  heap_hdr :: "nat \<rightharpoonup> heap_mem"
  heap_data :: mem
  heap_irq :: bool

definition set_hdr :: "nat \<Rightarrow> heap_mem \<Rightarrow> heap \<Rightarrow> heap" where
  "set_hdr a m h = h\<lparr>heap_hdr := (heap_hdr h)(a \<mapsto> m)\<rparr>"

definition hdr_prev :: "nat \<Rightarrow> nat \<Rightarrow> heap \<Rightarrow> heap option" where
  "hdr_prev a p h = map_option (\<lambda>m. set_hdr a (m\<lparr>hm_prev := p\<rparr>) h) (heap_hdr h a)"

text \<open>
  \<open>rt_sem_take\<close> with \<open>RT_WAITING_FOREVER\<close> and \<open>rt_sem_release\<close> on the heap semaphore, seen from
  the thread that gets it: a call made while another thread is inside the heap starts when that
  thread has left (theory Sem has the waiting), so it is not a value of these definitions.
\<close>

definition heap_lock :: "heap \<Rightarrow> heap option" where
  "heap_lock h = (if 0 < heap_sem h then Some (h\<lparr>heap_sem := heap_sem h - 1\<rparr>) else None)"

definition heap_unlock :: "heap \<Rightarrow> heap" where
  "heap_unlock h = h\<lparr>heap_sem := heap_sem h + 1\<rparr>"

section \<open>Operations\<close>

text \<open>The two halves of \<open>plug_holes\<close> for the free block at offset \<open>p\<close>.\<close>

definition plug_forward :: "nat \<Rightarrow> heap \<Rightarrow> heap option" where
  "plug_forward p h = do {
     m \<leftarrow> heap_hdr h p;
     let n = hm_next m;
     nm \<leftarrow> heap_hdr h n;
     if p \<noteq> n \<and> hm_used nm = 0 \<and> n \<noteq> heap_end h then do {
       let h1 = (if lfree h = n then h\<lparr>lfree := p\<rparr> else h);
       hdr_prev (hm_next nm) p (set_hdr p (m\<lparr>hm_next := hm_next nm\<rparr>) h1)
     } else Some h
   }"

definition plug_backward :: "nat \<Rightarrow> heap \<Rightarrow> heap option" where
  "plug_backward p h = do {
     m \<leftarrow> heap_hdr h p;
     let q = hm_prev m;
     pm \<leftarrow> heap_hdr h q;
     if q \<noteq> p \<and> hm_used pm = 0 then do {
       let h1 = (if lfree h = p then h\<lparr>lfree := q\<rparr> else h);
       hdr_prev (hm_next m) q (set_hdr q (pm\<lparr>hm_next := hm_next m\<rparr>) h1)
     } else Some h
   }"

text \<open>\<open>mem\<close> is an address here, as in the assertions of the code.\<close>

definition plug_holes :: "nat \<Rightarrow> heap \<Rightarrow> heap option" where
  "plug_holes mem h = do {
     rt_assert (heap_ptr h \<le> mem);
     rt_assert (mem < uadd (heap_ptr h) (heap_end h));
     let p = usub mem (heap_ptr h);
     m \<leftarrow> heap_hdr h p;
     rt_assert (hm_used m = 0);
     h1 \<leftarrow> plug_forward p h;
     plug_backward p h1
   }"

text \<open>Addresses too close to each other are reported and leave the heap as it is.\<close>

definition rt_system_heap_init :: "u32 \<Rightarrow> u32 \<Rightarrow> heap \<Rightarrow> heap option" where
  "rt_system_heap_init begin_addr end_addr h =
    (let begin_align = unat (rt_align begin_addr); end_align = unat (end_addr AND NOT 3) in do {
     rt_assert (\<not> heap_irq h);
     if 2 * SIZEOF_STRUCT_MEM < end_align \<and> begin_align \<le> end_align - 2 * SIZEOF_STRUCT_MEM then do {
       let msize = usub (usub end_align begin_align) (2 * SIZEOF_STRUCT_MEM);
       let e = uadd msize SIZEOF_STRUCT_MEM;
       Some (h\<lparr>mem_size_aligned := msize, heap_ptr := begin_align, heap_end := e, heap_sem := 1, lfree := 0,
         heap_hdr := (heap_hdr h)(0 \<mapsto> \<lparr>hm_magic = HEAP_MAGIC, hm_used = 0, hm_next = e, hm_prev = 0\<rparr>,
           e \<mapsto> \<lparr>hm_magic = HEAP_MAGIC, hm_used = 1, hm_next = e, hm_prev = e\<rparr>)\<rparr>)
     } else Some h
   })"

text \<open>
  The loop of \<open>rt_malloc\<close>: the offset of the first free block that is large enough, or none.
  The bound is an unsigned difference. A chain that never reaches it makes the loop run forever,
  which is \<open>None\<close>.
\<close>

partial_function (option) malloc_find :: "heap \<Rightarrow> nat \<Rightarrow> nat \<Rightarrow> nat option option" where
  "malloc_find h n p =
    (if p < usub (mem_size_aligned h) n then
       Option.bind (heap_hdr h p) (\<lambda>m.
         if hm_used m = 0 \<and> n \<le> usub (hm_next m) (uadd p SIZEOF_STRUCT_MEM) then Some (Some p)
         else malloc_find h n (hm_next m))
     else Some None)"

definition count_used :: "nat \<Rightarrow> heap \<Rightarrow> heap" where
  "count_used n h = (let u = uadd (used_mem h) n in h\<lparr>used_mem := u, max_mem := max (max_mem h) u\<rparr>)"

text \<open>Taking the block at \<open>p\<close>, which is split when the rest can hold a block of its own.\<close>

definition malloc_take :: "nat \<Rightarrow> nat \<Rightarrow> heap \<Rightarrow> heap option" where
  "malloc_take n p h = do {
     m \<leftarrow> heap_hdr h p;
     if uadd (uadd n SIZEOF_STRUCT_MEM) MIN_SIZE_ALIGNED \<le> usub (hm_next m) (uadd p SIZEOF_STRUCT_MEM) then do {
       let p2 = uadd (uadd p SIZEOF_STRUCT_MEM) n;
       let h1 = set_hdr p2 \<lparr>hm_magic = HEAP_MAGIC, hm_used = 0, hm_next = hm_next m, hm_prev = p\<rparr> h;
       let h2 = set_hdr p (m\<lparr>hm_next := p2, hm_used := 1, hm_magic := HEAP_MAGIC\<rparr>) h1;
       h3 \<leftarrow> (if hm_next m \<noteq> uadd (mem_size_aligned h) SIZEOF_STRUCT_MEM then hdr_prev (hm_next m) p2 h2 else Some h2);
       Some (count_used (uadd n SIZEOF_STRUCT_MEM) h3)
     } else
       Some (count_used (usub (hm_next m) p) (set_hdr p (m\<lparr>hm_used := 1, hm_magic := HEAP_MAGIC\<rparr>) h))
   }"

partial_function (option) lfree_advance :: "heap \<Rightarrow> nat \<Rightarrow> nat option" where
  "lfree_advance h l =
    Option.bind (heap_hdr h l) (\<lambda>m.
      if hm_used m \<noteq> 0 \<and> l \<noteq> heap_end h then lfree_advance h (hm_next m) else Some l)"

definition rt_malloc :: "u32 \<Rightarrow> heap \<Rightarrow> (nat \<times> heap) option" where
  "rt_malloc sz h =
    (if sz = 0 then Some (RT_NULL, h)
     else do {
       rt_assert (\<not> heap_irq h);
       let n = unat (rt_align sz);
       if mem_size_aligned h < n then Some (RT_NULL, h)
       else do {
         let n = max n MIN_SIZE_ALIGNED;
         h1 \<leftarrow> heap_lock h;
         found \<leftarrow> malloc_find h1 n (lfree h1);
         (case found of
            None \<Rightarrow> Some (RT_NULL, heap_unlock h1)
          | Some p \<Rightarrow> do {
              h2 \<leftarrow> malloc_take n p h1;
              h3 \<leftarrow> (if p = lfree h2 then do {
                  l \<leftarrow> lfree_advance h2 p;
                  m \<leftarrow> heap_hdr h2 l;
                  rt_assert (l = heap_end h2 \<or> hm_used m = 0);
                  Some (h2\<lparr>lfree := l\<rparr>)
                } else Some h2);
              let h4 = heap_unlock h3;
              let mem = uadd (heap_ptr h4) p;
              rt_assert (uadd (uadd mem SIZEOF_STRUCT_MEM) n \<le> uadd (heap_ptr h4) (heap_end h4));
              rt_assert (uadd mem SIZEOF_STRUCT_MEM mod 4 = 0);
              rt_assert (mem mod 4 = 0);
              Some (uadd mem SIZEOF_STRUCT_MEM, h4)
            })
       }
     })"

definition rt_free :: "nat \<Rightarrow> heap \<Rightarrow> heap option" where
  "rt_free rmem h =
    (if rmem = RT_NULL then Some h
     else do {
       rt_assert (\<not> heap_irq h);
       rt_assert (rmem mod 4 = 0);
       rt_assert (heap_ptr h \<le> rmem \<and> rmem < uadd (heap_ptr h) (heap_end h));
       let mem = usub rmem SIZEOF_STRUCT_MEM;
       let p = usub mem (heap_ptr h);
       h1 \<leftarrow> heap_lock h;
       m \<leftarrow> heap_hdr h1 p;
       rt_assert (hm_used m \<noteq> 0);
       rt_assert (hm_magic m = HEAP_MAGIC);
       let h2 = set_hdr p (m\<lparr>hm_used := 0, hm_magic := HEAP_MAGIC\<rparr>) h1;
       let h3 = (if p < lfree h2 then h2\<lparr>lfree := p\<rparr> else h2);
       h4 \<leftarrow> plug_holes mem (h3\<lparr>used_mem := usub (used_mem h3) (usub (hm_next m) p)\<rparr>);
       Some (heap_unlock h4)
     })"

text \<open>
  The part of \<open>rt_realloc\<close> that gives the end of a block back. It does not move \<open>lfree\<close> down to
  the new free block.
\<close>

definition realloc_shrink :: "nat \<Rightarrow> nat \<Rightarrow> heap \<Rightarrow> heap option" where
  "realloc_shrink newsize p h = do {
     m \<leftarrow> heap_hdr h p;
     let osize = usub (usub (hm_next m) p) SIZEOF_STRUCT_MEM;
     let h1 = h\<lparr>used_mem := usub (used_mem h) (usub osize newsize)\<rparr>;
     let p2 = uadd (uadd p SIZEOF_STRUCT_MEM) newsize;
     let h2 = set_hdr p2 \<lparr>hm_magic = HEAP_MAGIC, hm_used = 0, hm_next = hm_next m, hm_prev = p\<rparr> h1;
     let h3 = set_hdr p (m\<lparr>hm_next := p2\<rparr>) h2;
     h4 \<leftarrow> (if hm_next m \<noteq> uadd (mem_size_aligned h) SIZEOF_STRUCT_MEM then hdr_prev (hm_next m) p2 h3 else Some h3);
     plug_holes (uadd (heap_ptr h) p2) h4
   }"

definition rt_realloc :: "nat \<Rightarrow> u32 \<Rightarrow> heap \<Rightarrow> (nat \<times> heap) option" where
  "rt_realloc rmem nsize h = do {
     rt_assert (\<not> heap_irq h);
     let newsize = unat (rt_align nsize);
     if mem_size_aligned h < newsize then Some (RT_NULL, h)
     else if newsize = 0 then map_option (\<lambda>h1. (RT_NULL, h1)) (rt_free rmem h)
     else if rmem = RT_NULL then rt_malloc (rt_align nsize) h
     else do {
       h1 \<leftarrow> heap_lock h;
       if rmem < heap_ptr h \<or> uadd (heap_ptr h) (heap_end h) \<le> rmem then Some (rmem, heap_unlock h1)
       else do {
         let p = usub (usub rmem SIZEOF_STRUCT_MEM) (heap_ptr h);
         m \<leftarrow> heap_hdr h1 p;
         let osize = usub (usub (hm_next m) p) SIZEOF_STRUCT_MEM;
         if osize = newsize then Some (rmem, heap_unlock h1)
         else if uadd (uadd newsize SIZEOF_STRUCT_MEM) MIN_SIZE_ALIGNED < osize then do {
           h2 \<leftarrow> realloc_shrink newsize p h1;
           Some (rmem, heap_unlock h2)
         } else do {
           (nmem, h2) \<leftarrow> rt_malloc (rt_align nsize) (heap_unlock h1);
           if nmem = RT_NULL then Some (RT_NULL, h2)
           else do {
             h3 \<leftarrow> rt_free rmem (h2\<lparr>heap_data := rt_memcpy nmem rmem (min osize newsize) (heap_data h2)\<rparr>);
             Some (nmem, h3)
           }
         }
       }
     }
   }"

definition rt_calloc :: "u32 \<Rightarrow> u32 \<Rightarrow> heap \<Rightarrow> (nat \<times> heap) option" where
  "rt_calloc count sz h = do {
     (p, h1) \<leftarrow> rt_malloc (count * sz) h;
     Some (p, if p = RT_NULL then h1
       else h1\<lparr>heap_data := rt_memset p 0 (unat (count * sz)) (heap_data h1)\<rparr>)
   }"

definition rt_memory_info :: "heap \<Rightarrow> nat \<times> nat \<times> nat" where
  "rt_memory_info h = (mem_size_aligned h, used_mem h, max_mem h)"

end
