(* ===== verification/MemLayout.thy ===== *)
theory MemLayout
  imports Mem
begin

text \<open>
  The heap as a list of blocks. A block is its data size and whether it is in use; offsets,
  links and statistics follow from the list. Each operation of theory Mem is an edit of this
  list: \<open>rt_malloc\<close> splits the first free block that fits, \<open>rt_free\<close> marks a block free and joins it
  with its free neighbours, \<open>rt_realloc\<close> cuts a block.
\<close>

section \<open>Blocks and headers\<close>

type_synonym blocks = "(nat \<times> bool) list"

fun lsize :: "blocks \<Rightarrow> nat" where
  "lsize [] = 0"
| "lsize ((n, u) # bs) = 12 + n + lsize bs"

fun in_use :: "blocks \<Rightarrow> nat" where
  "in_use [] = 0"
| "in_use ((n, u) # bs) = (if u then n + 12 else 0) + in_use bs"

text \<open>There is a free block at offset \<open>l\<close>; the blocks in use, by the address of their data.\<close>

fun free_at :: "nat \<Rightarrow> nat \<Rightarrow> blocks \<Rightarrow> bool" where
  "free_at l a [] = False"
| "free_at l a ((n, u) # bs) = (l = a \<and> \<not> u \<or> free_at l (a + (12 + n)) bs)"

fun live :: "nat \<Rightarrow> blocks \<Rightarrow> (nat \<times> nat) set" where
  "live a [] = {}"
| "live a ((n, u) # bs) = (if u then {(a + 12, n)} else {}) \<union> live (a + (12 + n)) bs"

definition header :: "nat \<Rightarrow> nat \<Rightarrow> bool \<Rightarrow> nat \<Rightarrow> heap_mem" where
  "header p a u n = \<lparr>hm_magic = HEAP_MAGIC, hm_used = (if u then 1 else 0), hm_next = a + (12 + n), hm_prev = p\<rparr>"

lemma header_simps [simp]: "hm_magic (header p a u n) = HEAP_MAGIC" "hm_used (header p a u n) = (if u then 1 else 0)"
  "hm_next (header p a u n) = a + (12 + n)" "hm_prev (header p a u n) = p"
  by (simp_all add: header_def)

fun lseg :: "(nat \<rightharpoonup> heap_mem) \<Rightarrow> nat \<Rightarrow> nat \<Rightarrow> blocks \<Rightarrow> bool" where
  "lseg H p a [] = True"
| "lseg H p a ((n, u) # bs) = (H a = Some (header p a u n) \<and> lseg H a (a + (12 + n)) bs)"

fun last_off :: "nat \<Rightarrow> nat \<Rightarrow> blocks \<Rightarrow> nat" where
  "last_off p a [] = p"
| "last_off p a ((n, u) # bs) = last_off a (a + (12 + n)) bs"

definition end_ok :: "(nat \<rightharpoonup> heap_mem) \<Rightarrow> nat \<Rightarrow> bool" where
  "end_ok H e \<longleftrightarrow> (\<exists>p. H e = Some \<lparr>hm_magic = HEAP_MAGIC, hm_used = 1, hm_next = e, hm_prev = p\<rparr>)"

definition chain :: "(nat \<rightharpoonup> heap_mem) \<Rightarrow> blocks \<Rightarrow> bool" where
  "chain H bs \<longleftrightarrow> lseg H 0 0 bs \<and> end_ok H (lsize bs)"

definition sizes_ok :: "blocks \<Rightarrow> bool" where
  "sizes_ok bs \<longleftrightarrow> (\<forall>(n, u) \<in> set bs. 4 \<le> n \<and> n mod 4 = 0)"

abbreviation joined :: "blocks \<Rightarrow> bool" where
  "joined \<equiv> successively (\<lambda>b c. snd b \<or> snd c)"

text \<open>The invariant of the memory manager: heap \<open>h\<close> consists of the blocks \<open>bs\<close>.\<close>

definition heap_is :: "heap \<Rightarrow> blocks \<Rightarrow> bool" where
  "heap_is h bs \<longleftrightarrow> chain (heap_hdr h) bs \<and> heap_end h = lsize bs \<and> bs \<noteq> [] \<and> sizes_ok bs \<and> joined bs \<and>
     12 \<le> mem_size_aligned h \<and> mem_size_aligned h + 12 = lsize bs \<and> used_mem h = in_use bs \<and> in_use bs \<le> max_mem h \<and>
     (lfree h = lsize bs \<or> free_at (lfree h) 0 bs) \<and>
     0 < heap_ptr h \<and> heap_ptr h mod 4 = 0 \<and> heap_ptr h + lsize bs + 12 < 2 ^ 32 \<and>
     heap_sem h = 1 \<and> \<not> heap_irq h"

lemma lsize_append [simp]: "lsize (xs @ ys) = lsize xs + lsize ys"
  by (induction xs rule: lsize.induct) auto

lemma in_use_append [simp]: "in_use (xs @ ys) = in_use xs + in_use ys"
  by (induction xs rule: in_use.induct) auto

lemma in_use_le: "in_use bs \<le> lsize bs"
  by (induction bs rule: in_use.induct) auto

lemma lsize_Cons_pos: "bs \<noteq> [] \<Longrightarrow> 12 \<le> lsize bs"
  by (cases bs rule: lsize.cases) auto

lemma sizes_ok_simps [simp]: "sizes_ok []" "sizes_ok ((n, u) # bs) \<longleftrightarrow> 4 \<le> n \<and> n mod 4 = 0 \<and> sizes_ok bs"
  "sizes_ok (xs @ ys) \<longleftrightarrow> sizes_ok xs \<and> sizes_ok ys"
  by (auto simp: sizes_ok_def)

lemma lsize_mod: "sizes_ok bs \<Longrightarrow> lsize bs mod 4 = 0"
proof (induction bs rule: lsize.induct)
  case (2 n u bs)
  then have "n mod 4 = 0" "lsize bs mod 4 = 0" by simp_all
  then show ?case unfolding lsize.simps by presburger
qed simp

lemma free_at_append [simp]: "free_at l a (xs @ ys) \<longleftrightarrow> free_at l a xs \<or> free_at l (a + lsize xs) ys"
  by (induction xs arbitrary: a rule: lsize.induct) (auto simp: add_ac)

lemma free_at_bounds: "free_at l a bs \<Longrightarrow> a \<le> l \<and> l + 12 \<le> a + lsize bs"
  by (induction l a bs rule: free_at.induct) auto

lemma free_at_split:
  "free_at l a bs \<Longrightarrow> \<exists>xs n ys. bs = xs @ (n, False) # ys \<and> l = a + lsize xs"
proof (induction l a bs rule: free_at.induct)
  case (2 l a n u bs)
  show ?case
  proof (cases "l = a \<and> \<not> u")
    case True
    then show ?thesis by (intro exI[of _ "[]"] exI[of _ n] exI[of _ bs]) simp
  next
    case False
    then have "free_at l (a + (12 + n)) bs" using 2(2) by auto
    then obtain xs m ys where "bs = xs @ (m, False) # ys" "l = a + (12 + n) + lsize xs" using 2(1) by blast
    then show ?thesis by (intro exI[of _ "(n, u) # xs"] exI[of _ m] exI[of _ ys]) simp
  qed
qed simp

lemma live_append [simp]: "live a (xs @ ys) = live a xs \<union> live (a + lsize xs) ys"
  by (induction xs arbitrary: a rule: lsize.induct) (auto simp: add_ac)

lemma live_bounds: "(q, m) \<in> live a bs \<Longrightarrow> a + 12 \<le> q \<and> q + m \<le> a + lsize bs"
  by (induction a bs rule: live.induct) (fastforce split: if_splits)+

lemma live_split:
  "(q, m) \<in> live a bs \<Longrightarrow> \<exists>xs ys. bs = xs @ (m, True) # ys \<and> q = a + lsize xs + 12"
proof (induction a bs rule: live.induct)
  case (2 a n u bs)
  show ?case
  proof (cases "u \<and> q = a + 12 \<and> m = n")
    case True
    then show ?thesis by (intro exI[of _ "[]"] exI[of _ bs]) simp
  next
    case False
    then have "(q, m) \<in> live (a + (12 + n)) bs" using 2(2) by (auto split: if_splits)
    then obtain xs ys where "bs = xs @ (m, True) # ys" "q = a + (12 + n) + lsize xs + 12" using 2(1) by blast
    then show ?thesis by (intro exI[of _ "(n, u) # xs"] exI[of _ ys]) simp
  qed
qed simp

lemma lseg_append: "lseg H p a (xs @ ys) \<longleftrightarrow> lseg H p a xs \<and> lseg H (last_off p a xs) (a + lsize xs) ys"
  by (induction xs arbitrary: p a rule: lsize.induct) (auto simp: add_ac)

lemma last_off_append [simp]: "last_off p a (xs @ [(n, u)]) = a + lsize xs"
  by (induction xs arbitrary: p a rule: lsize.induct) (auto simp: add_ac)

lemma lseg_upd [simp]: "b < a \<or> a + lsize bs \<le> b \<Longrightarrow> lseg (H(b := v)) p a bs = lseg H p a bs"
  by (induction bs arbitrary: p a rule: lsize.induct) auto

lemma lseg_frame: "lseg H p a bs \<Longrightarrow> (\<And>x. a \<le> x \<Longrightarrow> x < a + lsize bs \<Longrightarrow> H' x = H x) \<Longrightarrow> lseg H' p a bs"
  by (induction bs arbitrary: p a rule: lsize.induct) simp_all

lemma end_ok_upd [simp]: "b \<noteq> e \<Longrightarrow> end_ok (H(b := v)) e = end_ok H e"
  by (simp add: end_ok_def)

lemma chain_append:
  "chain H (xs @ ys) \<longleftrightarrow> lseg H 0 0 xs \<and> lseg H (last_off 0 0 xs) (lsize xs) ys \<and> end_ok H (lsize xs + lsize ys)"
  by (simp add: chain_def lseg_append)

section \<open>Searching\<close>

fun first_fit :: "nat \<Rightarrow> nat \<Rightarrow> nat \<Rightarrow> blocks \<Rightarrow> nat option" where
  "first_fit n lim a [] = None"
| "first_fit n lim a ((k, u) # bs) =
     (if \<not> a < lim then None else if \<not> u \<and> n \<le> k then Some a else first_fit n lim (a + (12 + k)) bs)"

lemma first_fit_Some:
  "first_fit n lim a bs = Some p \<Longrightarrow>
     \<exists>xs k ys. bs = xs @ (k, False) # ys \<and> p = a + lsize xs \<and> n \<le> k \<and> p < lim \<and>
       (\<forall>vs j ws. bs = vs @ (j, False) # ws \<and> lsize vs < lsize xs \<longrightarrow> j < n)"
proof (induction n lim a bs rule: first_fit.induct)
  case (2 n lim a k u bs)
  then have lim: "a < lim" by (auto split: if_splits)
  show ?case
  proof (cases "\<not> u \<and> n \<le> k")
    case True
    then show ?thesis using 2(2) lim by (intro exI[of _ "[]"] exI[of _ k] exI[of _ bs]) simp
  next
    case False
    then have "first_fit n lim (a + (12 + k)) bs = Some p" using 2(2) lim by (auto split: if_splits)
    then obtain xs m ys where r: "bs = xs @ (m, False) # ys" "p = a + (12 + k) + lsize xs" "n \<le> m" "p < lim"
        "\<forall>vs j ws. bs = vs @ (j, False) # ws \<and> lsize vs < lsize xs \<longrightarrow> j < n"
      using 2(1) lim False by blast
    have "j < n" if "(k, u) # bs = vs @ (j, False) # ws" "lsize vs < lsize ((k, u) # xs)" for vs j ws
    proof (cases vs)
      case Nil
      then show ?thesis using that False by auto
    next
      case (Cons v us)
      then have "bs = us @ (j, False) # ws" "lsize us < lsize xs" using that by auto
      then show ?thesis using r(5) by blast
    qed
    then show ?thesis using r(1-4) by (intro exI[of _ "(k, u) # xs"] exI[of _ m] exI[of _ ys]) auto
  qed
qed simp

lemma first_fit_None:
  "first_fit n lim a (xs @ (k, False) # ys) = None \<Longrightarrow> n \<le> k \<Longrightarrow> lim \<le> a + lsize xs"
proof (induction xs arbitrary: a rule: lsize.induct)
  case (2 m u xs)
  show ?case
  proof (cases "a < lim")
    case True
    then have "first_fit n lim (a + (12 + m)) (xs @ (k, False) # ys) = None"
      using 2(2) by (auto simp del: first_fit.simps(2) simp: first_fit.simps(2)[of n lim a m u] split: if_splits)
    then show ?thesis using 2(1)[of "a + (12 + m)"] 2(3) by simp
  qed simp
qed (simp split: if_splits)

lemma malloc_find_ok:
  assumes "lseg (heap_hdr h) p a bs" "a + lsize bs = mem_size_aligned h + 12" "mem_size_aligned h + 12 < 2 ^ 32"
    "n \<le> mem_size_aligned h"
  shows "malloc_find h n a = Some (first_fit n (mem_size_aligned h - n) a bs)"
  using assms
proof (induction bs arbitrary: p a rule: lsize.induct)
  case 1
  then have "\<not> a < usub (mem_size_aligned h) n" by simp
  then show ?case using malloc_find.simps[of h n a] by simp
next
  case (2 k u bs)
  have u1: "uadd a 12 = a + 12" "usub (mem_size_aligned h) n = mem_size_aligned h - n" using 2(3-5) by simp_all
  then have u2: "usub (a + (12 + k)) (uadd a 12) = k" using 2(3,4) by simp
  have IH: "malloc_find h n (a + (12 + k)) = Some (first_fit n (mem_size_aligned h - n) (a + (12 + k)) bs)"
    by (rule 2(1)[of a]) (use 2(2-5) in simp_all)
  show ?case using 2(2) u2 IH unfolding malloc_find.simps[of h n a] u1(2) by (simp add: SIZEOF_STRUCT_MEM_def)
qed

fun next_free :: "nat \<Rightarrow> blocks \<Rightarrow> nat" where
  "next_free a [] = a"
| "next_free a ((n, u) # bs) = (if u then next_free (a + (12 + n)) bs else a)"

lemma next_free_ok: "next_free a bs = a + lsize bs \<or> free_at (next_free a bs) a bs"
  by (induction a bs rule: next_free.induct) (auto simp: add_ac)

lemma lfree_advance_ok:
  assumes "lseg (heap_hdr h) p a bs" "end_ok (heap_hdr h) (a + lsize bs)" "heap_end h = a + lsize bs"
  shows "lfree_advance h a = Some (next_free a bs)"
  using assms
proof (induction bs arbitrary: p a rule: lsize.induct)
  case 1
  then show ?case by (auto simp: lfree_advance.simps[of h a] end_ok_def)
next
  case (2 n u bs)
  have "lfree_advance h (a + (12 + n)) = Some (next_free (a + (12 + n)) bs)"
    by (rule 2(1)[of a]) (use 2(2-4) in \<open>simp_all add: add_ac\<close>)
  then show ?case using 2(2,4) by (simp add: lfree_advance.simps[of h a])
qed

section \<open>Edits of the chain\<close>

lemma hdr_prev_ok:
  assumes "lseg (heap_hdr h) q' a ys" "end_ok (heap_hdr h) (a + lsize ys)"
  obtains m where "hdr_prev a q h = Some (set_hdr a m h)"
    "lseg ((heap_hdr h)(a \<mapsto> m)) q a ys" "end_ok ((heap_hdr h)(a \<mapsto> m)) (a + lsize ys)"
proof (cases ys rule: lsize.cases)
  case 1
  with assms(2) obtain p where p: "heap_hdr h a = Some \<lparr>hm_magic = HEAP_MAGIC, hm_used = 1, hm_next = a, hm_prev = p\<rparr>"
    by (auto simp: end_ok_def)
  show ?thesis
    by (rule that[of "\<lparr>hm_magic = HEAP_MAGIC, hm_used = 1, hm_next = a, hm_prev = q\<rparr>"])
      (use 1 p in \<open>auto simp: hdr_prev_def end_ok_def\<close>)
next
  case (2 n u zs)
  show ?thesis
    by (rule that[of "header q a u n"]) (use 2 assms in \<open>auto simp: hdr_prev_def header_def end_ok_def\<close>)
qed

text \<open>Taking a free block of size \<open>k\<close> for \<open>n\<close> bytes leaves these blocks.\<close>

definition carve :: "nat \<Rightarrow> nat \<Rightarrow> blocks" where
  "carve n k = (if n + 24 \<le> k then [(n, True), (k - n - 12, False)] else [(k, True)])"

lemma lsize_carve [simp]: "lsize (carve n k) = 12 + k"
  by (simp add: carve_def)

lemma chain_block:
  assumes "chain H (xs @ (k, u) # ys)"
  shows "H (lsize xs) = Some (header (last_off 0 0 xs) (lsize xs) u k)" "lseg H 0 0 xs"
    "lseg H (lsize xs) (lsize xs + (12 + k)) ys" "end_ok H (lsize xs + (12 + k) + lsize ys)"
  using assms by (simp_all add: chain_append add_ac)

lemma chain_two:
  "chain H (xs @ (n, u) # (k, v) # ys) \<longleftrightarrow> lseg H 0 0 xs \<and> H (lsize xs) = Some (header (last_off 0 0 xs) (lsize xs) u n) \<and>
     H (lsize xs + (12 + n)) = Some (header (lsize xs) (lsize xs + (12 + n)) v k) \<and>
     lseg H (lsize xs + (12 + n)) (lsize xs + (12 + n) + (12 + k)) ys \<and> end_ok H (lsize xs + (12 + n) + (12 + k) + lsize ys)"
  by (auto simp: chain_append add_ac)

lemma chain_one:
  "chain H (xs @ (n, u) # ys) \<longleftrightarrow> lseg H 0 0 xs \<and> H (lsize xs) = Some (header (last_off 0 0 xs) (lsize xs) u n) \<and>
     lseg H (lsize xs) (lsize xs + (12 + n)) ys \<and> end_ok H (lsize xs + (12 + n) + lsize ys)"
  by (auto simp: chain_append add_ac)

text \<open>
  A block cut in two, the way \<open>rt_malloc\<close> and \<open>rt_realloc\<close> do it: the back link of the following
  block is set unless that is the end of the heap.
\<close>

lemma split_ok:
  assumes c: "chain (heap_hdr h) (xs @ (k, u) # ys)" and n: "n + 12 \<le> k"
  defines "a \<equiv> lsize xs + (12 + k)" and "p2 \<equiv> lsize xs + (12 + n)"
  defines "h2 \<equiv> set_hdr (lsize xs) (header (last_off 0 0 xs) (lsize xs) u k\<lparr>hm_next := p2, hm_used := 1, hm_magic := HEAP_MAGIC\<rparr>)
      (set_hdr p2 \<lparr>hm_magic = HEAP_MAGIC, hm_used = 0, hm_next = a, hm_prev = lsize xs\<rparr> h)"
  shows "\<exists>H. (if a \<noteq> a + lsize ys then hdr_prev a p2 h2 else Some h2) = Some (h\<lparr>heap_hdr := H\<rparr>) \<and>
    chain H (xs @ (n, True) # (k - n - 12, False) # ys)"
proof -
  let ?p = "lsize xs" and ?H = "heap_hdr h"
  note b = chain_block[OF c]
  have p2: "p2 + (12 + (k - n - 12)) = a" using n by (simp add: a_def p2_def)
  let ?H2 = "?H(p2 \<mapsto> header ?p p2 False (k - n - 12), ?p \<mapsto> header (last_off 0 0 xs) ?p True n)"
  have h2: "h2 = h\<lparr>heap_hdr := ?H2\<rparr>"
    using p2 by (simp add: h2_def set_hdr_def header_def p2_def)
  have lt: "?p < p2" "p2 < a" using n by (simp_all add: a_def p2_def)
  have l: "lseg (heap_hdr h2) ?p a ys" "end_ok (heap_hdr h2) (a + lsize ys)"
    using b(3,4) lt unfolding h2 a_def[symmetric] by simp_all
  obtain H where H: "(if a \<noteq> a + lsize ys then hdr_prev a p2 h2 else Some h2) = Some (h\<lparr>heap_hdr := H\<rparr>)"
      "lseg H p2 a ys" "end_ok H (a + lsize ys)" "\<And>x. x < a \<Longrightarrow> H x = ?H2 x"
  proof (cases "ys = []")
    case True
    then show ?thesis using that[of ?H2] l h2 by simp
  next
    case False
    obtain m where m: "hdr_prev a p2 h2 = Some (set_hdr a m h2)" "lseg ((heap_hdr h2)(a \<mapsto> m)) p2 a ys"
        "end_ok ((heap_hdr h2)(a \<mapsto> m)) (a + lsize ys)"
      by (rule hdr_prev_ok[OF l])
    show ?thesis by (rule that[of "?H2(a \<mapsto> m)"]) (use m lsize_Cons_pos[OF False] h2 in \<open>simp_all add: set_hdr_def\<close>)
  qed
  have "lseg H 0 0 xs" by (rule lseg_frame[OF b(2)]) (use H(4) lt in simp)
  moreover have "H ?p = Some (header (last_off 0 0 xs) ?p True n)" "H p2 = Some (header ?p p2 False (k - n - 12))"
    using H(4) lt by simp_all
  ultimately have "chain H (xs @ (n, True) # (k - n - 12, False) # ys)"
    unfolding chain_two p2_def[symmetric] p2 using H(2,3) by simp
  then show ?thesis using H(1) by blast
qed

lemma malloc_take_ok:
  assumes c: "chain (heap_hdr h) (xs @ (k, False) # ys)" and n: "12 \<le> n" "n \<le> k"
    and sz: "mem_size_aligned h + 12 = lsize (xs @ (k, False) # ys)" "mem_size_aligned h + 24 < 2 ^ 32"
  shows "\<exists>H. malloc_take n (lsize xs) h = Some (count_used (in_use (carve n k)) (h\<lparr>heap_hdr := H\<rparr>)) \<and>
    chain H (xs @ carve n k @ ys)"
proof -
  let ?p = "lsize xs" and ?a = "lsize xs + (12 + k)"
  note b = chain_block[OF c]
  have w: "uadd ?p 12 = ?p + 12" "usub ?a (?p + 12) = k" "uadd n 12 = n + 12" "uadd (n + 12) 12 = n + 24"
      "uadd (?p + 12) n = ?p + (12 + n)" "uadd (mem_size_aligned h) 12 = ?a + lsize ys" "usub ?a ?p = 12 + k"
    using n sz by simp_all
  note d = malloc_take_def SIZEOF_STRUCT_MEM_def MIN_SIZE_ALIGNED_def
  show ?thesis
  proof (cases "n + 24 \<le> k")
    case True
    then have "n + 12 \<le> k" by simp
    from split_ok[OF c this] obtain H where H: "(if ?a \<noteq> ?a + lsize ys then hdr_prev ?a (?p + (12 + n))
        (set_hdr ?p (header (last_off 0 0 xs) ?p False k\<lparr>hm_next := ?p + (12 + n), hm_used := 1, hm_magic := HEAP_MAGIC\<rparr>)
        (set_hdr (?p + (12 + n)) \<lparr>hm_magic = HEAP_MAGIC, hm_used = 0, hm_next = ?a, hm_prev = ?p\<rparr> h)) else
        Some (set_hdr ?p (header (last_off 0 0 xs) ?p False k\<lparr>hm_next := ?p + (12 + n), hm_used := 1, hm_magic := HEAP_MAGIC\<rparr>)
        (set_hdr (?p + (12 + n)) \<lparr>hm_magic = HEAP_MAGIC, hm_used = 0, hm_next = ?a, hm_prev = ?p\<rparr> h))) = Some (h\<lparr>heap_hdr := H\<rparr>)"
      "chain H (xs @ (n, True) # (k - n - 12, False) # ys)" by blast
    have "malloc_take n ?p h = Some (count_used (n + 12) (h\<lparr>heap_hdr := H\<rparr>))"
      unfolding d b(1) Option.bind.simps header_simps Let_def w H(1) using True by simp
    then show ?thesis using True H(2) by (intro exI[of _ H]) (simp add: carve_def)
  next
    case False
    let ?H' = "(heap_hdr h)(?p \<mapsto> header (last_off 0 0 xs) ?p True k)"
    have "chain ?H' (xs @ (k, True) # ys)" unfolding chain_one using b by simp
    moreover have "set_hdr ?p (header (last_off 0 0 xs) ?p False k\<lparr>hm_used := 1, hm_magic := HEAP_MAGIC\<rparr>) h = h\<lparr>heap_hdr := ?H'\<rparr>"
      by (simp add: set_hdr_def header_def)
    ultimately show ?thesis
      using b(1) w False by (intro exI[of _ ?H']) (simp add: d carve_def add.commute)
  qed
qed

lemma join_ok:
  assumes c: "chain (heap_hdr h) (xs @ (n, False) # (m, False) # ys)"
  shows "\<exists>H. hdr_prev (lsize xs + (12 + n) + (12 + m)) (lsize xs)
      (set_hdr (lsize xs) (header (last_off 0 0 xs) (lsize xs) False n\<lparr>hm_next := lsize xs + (12 + n) + (12 + m)\<rparr>) h)
      = Some (h\<lparr>heap_hdr := H\<rparr>) \<and> chain H (xs @ (n + 12 + m, False) # ys)"
proof -
  let ?p = "lsize xs" and ?a = "lsize xs + (12 + n) + (12 + m)"
  have b: "lseg (heap_hdr h) 0 0 xs" "lseg (heap_hdr h) (?p + (12 + n)) ?a ys" "end_ok (heap_hdr h) (?a + lsize ys)"
    using c unfolding chain_two by simp_all
  let ?m = "header (last_off 0 0 xs) ?p False (n + 12 + m)"
  have m: "header (last_off 0 0 xs) ?p False n\<lparr>hm_next := ?a\<rparr> = ?m" by (simp add: header_def)
  have "lseg (heap_hdr (set_hdr ?p ?m h)) (?p + (12 + n)) ?a ys" "end_ok (heap_hdr (set_hdr ?p ?m h)) (?a + lsize ys)"
    using b by (simp_all add: set_hdr_def)
  then obtain k where k: "hdr_prev ?a ?p (set_hdr ?p ?m h) = Some (set_hdr ?a k (set_hdr ?p ?m h))"
      "lseg ((heap_hdr (set_hdr ?p ?m h))(?a \<mapsto> k)) ?p ?a ys" "end_ok ((heap_hdr (set_hdr ?p ?m h))(?a \<mapsto> k)) (?a + lsize ys)"
    by (rule hdr_prev_ok)
  have a: "?p + (12 + (n + 12 + m)) = ?a" by simp
  have "chain ((heap_hdr h)(?p \<mapsto> ?m, ?a \<mapsto> k)) (xs @ (n + 12 + m, False) # ys)"
    unfolding chain_one a using b(1) k(2,3) by (simp add: set_hdr_def)
  then show ?thesis unfolding m k(1) by (intro exI[of _ "(heap_hdr h)(?p \<mapsto> ?m, ?a \<mapsto> k)"]) (simp add: set_hdr_def)
qed

definition starts_free :: "blocks \<Rightarrow> bool" where
  "starts_free ys \<longleftrightarrow> ys \<noteq> [] \<and> \<not> snd (hd ys)"

lemma plug_forward_used:
  assumes "chain (heap_hdr h) (xs @ (n, False) # ys)" "heap_end h = lsize (xs @ (n, False) # ys)" "\<not> starts_free ys"
  shows "plug_forward (lsize xs) h = Some h"
proof (cases ys rule: lsize.cases)
  case 1
  then show ?thesis using assms(2) chain_block[OF assms(1)] by (auto simp: plug_forward_def end_ok_def)
next
  case (2 m u zs)
  then show ?thesis using assms(3) chain_block[OF assms(1)] by (simp add: plug_forward_def starts_free_def)
qed

lemma plug_forward_free:
  assumes c: "chain (heap_hdr h) (xs @ (n, False) # (m, False) # ys)"
    and e: "heap_end h = lsize (xs @ (n, False) # (m, False) # ys)"
  shows "\<exists>H. plug_forward (lsize xs) h = Some (h\<lparr>heap_hdr := H,
      lfree := (if lfree h = lsize xs + (12 + n) then lsize xs else lfree h)\<rparr>) \<and> chain H (xs @ (n + 12 + m, False) # ys)"
proof -
  let ?h = "if lfree h = lsize xs + (12 + n) then h\<lparr>lfree := lsize xs\<rparr> else h"
  have b: "heap_hdr h (lsize xs) = Some (header (last_off 0 0 xs) (lsize xs) False n)"
      "heap_hdr h (lsize xs + (12 + n)) = Some (header (lsize xs) (lsize xs + (12 + n)) False m)"
    using c unfolding chain_two by simp_all
  have "chain (heap_hdr ?h) (xs @ (n, False) # (m, False) # ys)" using c by simp
  from join_ok[OF this] obtain H where H: "hdr_prev (lsize xs + (12 + n) + (12 + m)) (lsize xs)
      (set_hdr (lsize xs) (header (last_off 0 0 xs) (lsize xs) False n\<lparr>hm_next := lsize xs + (12 + n) + (12 + m)\<rparr>) ?h)
      = Some (?h\<lparr>heap_hdr := H\<rparr>)" "chain H (xs @ (n + 12 + m, False) # ys)"
    by blast
  have "plug_forward (lsize xs) h = Some (?h\<lparr>heap_hdr := H\<rparr>)"
    unfolding plug_forward_def b Option.bind.simps header_simps Let_def H(1) using e b(2) by (simp del: add_Suc)
  then show ?thesis using H(2) by (intro exI[of _ H]) simp
qed

lemma plug_backward_used:
  assumes "chain (heap_hdr h) (xs @ (n, u) # ys)" "xs = [] \<or> snd (last xs)"
  shows "plug_backward (lsize xs) h = Some h"
proof (cases xs rule: rev_cases)
  case Nil
  then show ?thesis using chain_block(1)[OF assms(1)] by (simp add: plug_backward_def)
next
  case (snoc zs b)
  obtain k v where b: "b = (k, v)" by (cases b)
  have "chain (heap_hdr h) (zs @ (k, v) # (n, u) # ys)" using assms(1) snoc b by simp
  then show ?thesis using assms(2) snoc b unfolding chain_two by (simp add: plug_backward_def)
qed

lemma plug_backward_free:
  assumes c: "chain (heap_hdr h) (xs @ (k, False) # (n, False) # ys)"
  shows "\<exists>H. plug_backward (lsize xs + (12 + k)) h = Some (h\<lparr>heap_hdr := H,
      lfree := (if lfree h = lsize xs + (12 + k) then lsize xs else lfree h)\<rparr>) \<and> chain H (xs @ (k + 12 + n, False) # ys)"
proof -
  let ?h = "if lfree h = lsize xs + (12 + k) then h\<lparr>lfree := lsize xs\<rparr> else h"
  have b: "heap_hdr h (lsize xs) = Some (header (last_off 0 0 xs) (lsize xs) False k)"
      "heap_hdr h (lsize xs + (12 + k)) = Some (header (lsize xs) (lsize xs + (12 + k)) False n)"
    using c unfolding chain_two by simp_all
  have "chain (heap_hdr ?h) (xs @ (k, False) # (n, False) # ys)" using c by simp
  from join_ok[OF this] obtain H where H: "hdr_prev (lsize xs + (12 + k) + (12 + n)) (lsize xs)
      (set_hdr (lsize xs) (header (last_off 0 0 xs) (lsize xs) False k\<lparr>hm_next := lsize xs + (12 + k) + (12 + n)\<rparr>) ?h)
      = Some (?h\<lparr>heap_hdr := H\<rparr>)" "chain H (xs @ (k + 12 + n, False) # ys)"
    by blast
  have "plug_backward (lsize xs + (12 + k)) h = Some (?h\<lparr>heap_hdr := H\<rparr>)"
    unfolding plug_backward_def b Option.bind.simps header_simps Let_def H(1) by simp
  then show ?thesis using H(2) by (intro exI[of _ H]) simp
qed

end
