(* ===== verification/MemOps.thy ===== *)
theory MemOps
  imports MemLayout
begin

text \<open>
  What the operations of the memory manager do to the list of blocks.
\<close>

section \<open>Joining free blocks\<close>

text \<open>The blocks after the block of size \<open>n\<close> between \<open>xs\<close> and \<open>ys\<close> has become free.\<close>

definition join_right :: "nat \<Rightarrow> blocks \<Rightarrow> blocks" where
  "join_right n ys = (if starts_free ys then (n + 12 + fst (hd ys), False) # tl ys else (n, False) # ys)"

definition ends_free :: "blocks \<Rightarrow> bool" where
  "ends_free xs \<longleftrightarrow> xs \<noteq> [] \<and> \<not> snd (last xs)"

definition release :: "blocks \<Rightarrow> nat \<Rightarrow> blocks \<Rightarrow> blocks" where
  "release xs n ys =
    (if ends_free xs then butlast xs @ (fst (last xs) + 12 + fst (hd (join_right n ys)), False) # tl (join_right n ys)
     else xs @ join_right n ys)"

lemma ends_free_cases:
  obtains (used) "\<not> ends_free xs" "xs = [] \<or> snd (last xs)"
  | (free) zs k where "ends_free xs" "xs = zs @ [(k, False)]"
proof (cases "ends_free xs")
  case True
  then have "xs = butlast xs @ [(fst (last xs), False)]" by (cases xs rule: rev_cases) (auto simp: ends_free_def)
  then show ?thesis using True free by blast
qed (use used in \<open>auto simp: ends_free_def\<close>)

lemma starts_free_cases:
  obtains (used) "\<not> starts_free ys" | (free) m zs where "starts_free ys" "ys = (m, False) # zs"
proof (cases "starts_free ys")
  case True
  then have "ys = (fst (hd ys), False) # tl ys" by (cases ys) (auto simp: starts_free_def)
  then show ?thesis using True free by blast
qed (use used in auto)

lemma join_right_cases:
  obtains m zs where "join_right n ys = (m, False) # zs" "lsize ((m, False) # zs) = 12 + n + lsize ys"
    "n \<le> m" "in_use zs = in_use ys" "\<And>a. live (a + m) zs = live (a + n) ys"
    "sizes_ok ((n, False) # ys) \<Longrightarrow> sizes_ok ((m, False) # zs)" "joined ys \<Longrightarrow> joined ((m, False) # zs)"
proof (cases ys rule: starts_free_cases)
  case used
  have "joined ys \<Longrightarrow> joined ((n, False) # ys)" using used by (cases ys) (auto simp: starts_free_def)
  then show ?thesis using used that[of n ys] by (simp add: join_right_def)
next
  case (free m zs)
  have "joined ys \<Longrightarrow> joined ((n + 12 + m, False) # zs)" using free by (cases zs) auto
  moreover have "n mod 4 = 0 \<Longrightarrow> m mod 4 = 0 \<Longrightarrow> (n + 12 + m) mod 4 = 0" by presburger
  ultimately show ?thesis using free that[of "n + 12 + m" zs] by (simp add: join_right_def add_ac)
qed

lemma release_ok:
  shows "lsize (release xs n ys) = lsize xs + 12 + n + lsize ys" "in_use (release xs n ys) = in_use xs + in_use ys"
    "live a (release xs n ys) = live a xs \<union> live (a + lsize xs + 12 + n) ys" "release xs n ys \<noteq> []"
    "sizes_ok (xs @ (n, False) # ys) \<Longrightarrow> sizes_ok (release xs n ys)"
    "joined xs \<Longrightarrow> joined ys \<Longrightarrow> joined (release xs n ys)"
proof -
  obtain m zs where j: "join_right n ys = (m, False) # zs" "lsize ((m, False) # zs) = 12 + n + lsize ys"
    "n \<le> m" "in_use zs = in_use ys" "\<And>a. live (a + m) zs = live (a + n) ys"
    "sizes_ok ((n, False) # ys) \<Longrightarrow> sizes_ok ((m, False) # zs)" "joined ys \<Longrightarrow> joined ((m, False) # zs)"
    by (rule join_right_cases[of n ys]) (rule that)
  have all: "lsize (release xs n ys) = lsize xs + 12 + n + lsize ys \<and> in_use (release xs n ys) = in_use xs + in_use ys \<and>
    live a (release xs n ys) = live a xs \<union> live (a + lsize xs + 12 + n) ys \<and> release xs n ys \<noteq> [] \<and>
    (sizes_ok (xs @ (n, False) # ys) \<longrightarrow> sizes_ok (release xs n ys)) \<and>
    (joined xs \<and> joined ys \<longrightarrow> joined (release xs n ys))"
  proof (cases xs rule: ends_free_cases)
    case used
    have "joined xs \<and> joined ys \<longrightarrow> joined (xs @ (m, False) # zs)"
      using used(2) j(7) by (auto simp: successively_append_iff)
    then show ?thesis using used j(1,2,4,6) j(5)[of "a + lsize xs + 12"] by (simp add: release_def add_ac)
  next
    case (free ws k)
    have "joined xs \<and> joined ys \<longrightarrow> joined (ws @ (k + 12 + m, False) # zs)"
    proof
      assume "joined xs \<and> joined ys"
      then have "joined ((m, False) # zs)" "joined ws" "ws \<noteq> [] \<longrightarrow> snd (last ws)"
        using j(7) free(2) by (auto simp: successively_append_iff)
      then show "joined (ws @ (k + 12 + m, False) # zs)" by (cases zs) (auto simp: successively_append_iff)
    qed
    moreover have "k mod 4 = 0 \<Longrightarrow> m mod 4 = 0 \<Longrightarrow> (k + 12 + m) mod 4 = 0" by presburger
    ultimately show ?thesis using free j(1,2,4,6) j(5)[of "a + lsize ws + 24 + k"] by (simp add: release_def add_ac)
  qed
  then show "lsize (release xs n ys) = lsize xs + 12 + n + lsize ys" "in_use (release xs n ys) = in_use xs + in_use ys"
    "live a (release xs n ys) = live a xs \<union> live (a + lsize xs + 12 + n) ys" "release xs n ys \<noteq> []"
    "sizes_ok (xs @ (n, False) # ys) \<Longrightarrow> sizes_ok (release xs n ys)"
    "joined xs \<Longrightarrow> joined ys \<Longrightarrow> joined (release xs n ys)" by blast+
qed

text \<open>The lowest free block, as far as the invariant knows it.\<close>

definition free_or_end :: "nat \<Rightarrow> blocks \<Rightarrow> bool" where
  "free_or_end l bs \<longleftrightarrow> l = lsize bs \<or> free_at l 0 bs"

lemma plug_holes_ok:
  assumes c: "chain (heap_hdr h) (xs @ (n, False) # ys)" and e: "heap_end h = lsize (xs @ (n, False) # ys)"
    and sz: "heap_ptr h + heap_end h < 2 ^ 32" and l: "free_or_end (lfree h) (xs @ (n, False) # ys)"
  shows "\<exists>H l. plug_holes (heap_ptr h + lsize xs) h = Some (h\<lparr>heap_hdr := H, lfree := l\<rparr>) \<and>
    chain H (release xs n ys) \<and> free_or_end l (release xs n ys)"
proof -
  obtain H1 l1 where f: "plug_forward (lsize xs) h = Some (h\<lparr>heap_hdr := H1, lfree := l1\<rparr>)"
      "chain H1 (xs @ join_right n ys)" "free_or_end l1 (xs @ join_right n ys)"
  proof (cases ys rule: starts_free_cases)
    case used
    then show ?thesis using that[of "lfree h" "heap_hdr h"] plug_forward_used[OF c e used] c l by (simp add: join_right_def)
  next
    case (free m zs)
    let ?l = "if lfree h = lsize xs + (12 + n) then lsize xs else lfree h"
    from plug_forward_free[OF c[unfolded free(2)] e[unfolded free(2)]] obtain H where
      "plug_forward (lsize xs) h = Some (h\<lparr>heap_hdr := H, lfree := ?l\<rparr>)" "chain H (xs @ (n + 12 + m, False) # zs)" by blast
    moreover have "free_or_end ?l (xs @ (n + 12 + m, False) # zs)"
      using l free(2) by (auto simp: free_or_end_def add_ac)
    ultimately show ?thesis using that[of ?l H] free by (simp add: join_right_def)
  qed
  obtain m zs where j: "join_right n ys = (m, False) # zs" by (rule join_right_cases)
  let ?h1 = "h\<lparr>heap_hdr := H1, lfree := l1\<rparr>"
  have c1: "chain (heap_hdr ?h1) (xs @ (m, False) # zs)" using f(2) j by simp
  obtain H l where b: "plug_backward (lsize xs) ?h1 = Some (h\<lparr>heap_hdr := H, lfree := l\<rparr>)"
      "chain H (release xs n ys)" "free_or_end l (release xs n ys)"
  proof (cases xs rule: ends_free_cases)
    case used
    then show ?thesis using that[of l1 H1] plug_backward_used[OF c1 used(2)] f(2,3) by (simp add: release_def)
  next
    case (free ws k)
    have r: "release xs n ys = ws @ (k + 12 + m, False) # zs" using free j by (simp add: release_def)
    let ?l = "if l1 = lsize ws + (12 + k) then lsize ws else l1"
    have "chain (heap_hdr ?h1) (ws @ (k, False) # (m, False) # zs)" using c1 free(2) by simp
    from plug_backward_free[OF this] obtain H where
      "plug_backward (lsize ws + (12 + k)) ?h1 = Some (h\<lparr>heap_hdr := H, lfree := ?l\<rparr>)" "chain H (ws @ (k + 12 + m, False) # zs)" by (auto cong: if_cong)
    moreover have "free_or_end ?l (ws @ (k + 12 + m, False) # zs)"
      using f(3) j free(2) by (auto simp: free_or_end_def add_ac)
    ultimately show ?thesis using that[of ?l H] free(2) r by (simp add: add.commute)
  qed
  have "heap_hdr h (lsize xs) = Some (header (last_off 0 0 xs) (lsize xs) False n)" by (rule chain_block(1)[OF c])
  then have "plug_holes (heap_ptr h + lsize xs) h = Some (h\<lparr>heap_hdr := H, lfree := l\<rparr>)"
    using e sz f(1) b(1) by (simp add: plug_holes_def)
  then show ?thesis using b by blast
qed

section \<open>rt_malloc\<close>

definition heap_frame :: "heap \<Rightarrow> heap \<Rightarrow> bool" where
  "heap_frame h h' \<longleftrightarrow> heap_ptr h' = heap_ptr h \<and> heap_end h' = heap_end h \<and>
     mem_size_aligned h' = mem_size_aligned h \<and> heap_data h' = heap_data h"

lemma heap_lock_ok:
  "heap_is h bs \<Longrightarrow> heap_lock h = Some (h\<lparr>heap_sem := 0\<rparr>)"
  "heap_is h bs \<Longrightarrow> heap_unlock (h\<lparr>heap_sem := 0\<rparr>) = h"
  by (simp_all add: heap_is_def heap_lock_def heap_unlock_def)

lemma split_at:
  assumes "xs @ b # ys = zs @ rest" "lsize zs \<le> lsize xs"
  shows "\<exists>ws. xs = zs @ ws \<and> rest = ws @ b # ys"
proof -
  from assms(1) obtain us where "xs @ us = zs \<and> b # ys = us @ rest \<or> xs = zs @ us \<and> us @ b # ys = rest"
    unfolding append_eq_append_conv2 by blast
  then show ?thesis
  proof
    assume u: "xs @ us = zs \<and> b # ys = us @ rest"
    then have "lsize us = 0" using assms(2) by auto
    then have "us = []" by (cases us rule: lsize.cases) auto
    then show ?thesis using u by simp
  qed auto
qed

lemma free_or_end_split: "free_or_end l bs \<Longrightarrow> \<exists>zs rest. bs = zs @ rest \<and> l = lsize zs"
proof (cases "free_at l 0 bs")
  case True
  then show ?thesis using free_at_split[OF True] by auto
next
  case False
  then show "free_or_end l bs \<Longrightarrow> ?thesis" by (intro exI[of _ bs] exI[of _ "[]"]) (simp add: free_or_end_def)
qed

lemma carve_ok:
  assumes "12 \<le> n" "n \<le> k" "n mod 4 = 0"
  shows "sizes_ok (xs @ (k, u) # ys) \<Longrightarrow> sizes_ok (xs @ carve n k @ ys)"
    "joined (xs @ (k, False) # ys) \<Longrightarrow> joined (xs @ carve n k @ ys)"
    "in_use (carve n k) \<le> 12 + k" "carve n k \<noteq> []"
    "free_at l a (xs @ (k, False) # ys) \<Longrightarrow> l \<noteq> a + lsize xs \<Longrightarrow> free_at l a (xs @ carve n k @ ys)"
proof -
  have "n mod 4 = 0 \<Longrightarrow> k mod 4 = 0 \<Longrightarrow> n + 24 \<le> k \<Longrightarrow> (k - n - 12) mod 4 = 0" by presburger
  then show "sizes_ok (xs @ (k, u) # ys) \<Longrightarrow> sizes_ok (xs @ carve n k @ ys)" using assms by (auto simp: carve_def)
  show "joined (xs @ (k, False) # ys) \<Longrightarrow> joined (xs @ carve n k @ ys)"
    by (cases ys) (auto simp: carve_def successively_append_iff)
qed (use assms in \<open>auto simp: carve_def add_ac split: if_splits\<close>)

text \<open>The block of \<open>rt_malloc\<close>: the first free block at or after \<open>lfree\<close> with room for \<open>n\<close> bytes.\<close>

definition fits :: "nat \<Rightarrow> nat \<Rightarrow> blocks \<Rightarrow> blocks \<Rightarrow> nat \<Rightarrow> blocks \<Rightarrow> bool" where
  "fits n l bs xs k ys \<longleftrightarrow> bs = xs @ (k, False) # ys \<and> n \<le> k \<and> l \<le> lsize xs"

lemma malloc_find_cases:
  assumes h: "heap_is h bs" and n: "n \<le> mem_size_aligned h"
  obtains (none) "malloc_find (h\<lparr>heap_sem := 0\<rparr>) n (lfree h) = Some None"
      "\<And>xs k ys. fits n (lfree h) bs xs k ys \<Longrightarrow> ys = [] \<and> k = n"
  | (some) xs k ys where "malloc_find (h\<lparr>heap_sem := 0\<rparr>) n (lfree h) = Some (Some (lsize xs))" "fits n (lfree h) bs xs k ys"
      "\<And>vs j ws. fits n (lfree h) bs vs j ws \<Longrightarrow> lsize xs \<le> lsize vs"
proof -
  have "free_or_end (lfree h) bs" using h by (auto simp: heap_is_def free_or_end_def)
  then obtain zs rest where z: "bs = zs @ rest" "lfree h = lsize zs" using free_or_end_split by blast
  have sz: "lsize zs + lsize rest = mem_size_aligned h + 12" "mem_size_aligned h + 12 < 2 ^ 32"
    using h z(1) by (auto simp: heap_is_def)
  have l: "lseg (heap_hdr (h\<lparr>heap_sem := 0\<rparr>)) (last_off 0 0 zs) (lsize zs) rest"
    using h z(1) by (simp add: heap_is_def chain_append)
  have f: "malloc_find (h\<lparr>heap_sem := 0\<rparr>) n (lfree h) = Some (first_fit n (mem_size_aligned h - n) (lsize zs) rest)"
    using malloc_find_ok[OF l, of n] sz n z(2) by simp
  have rest: "\<exists>us. vs = zs @ us \<and> rest = us @ (j, False) # ws" if "fits n (lfree h) bs vs j ws" for vs j ws
    using split_at[of vs "(j, False)" ws zs rest] that z by (auto simp: fits_def)
  show ?thesis
  proof (cases "first_fit n (mem_size_aligned h - n) (lsize zs) rest")
    case None
    have "ws = [] \<and> j = n" if "fits n (lfree h) bs vs j ws" for vs j ws
    proof -
      obtain us where u: "vs = zs @ us" "rest = us @ (j, False) # ws" using rest[OF \<open>fits n (lfree h) bs vs j ws\<close>] by blast
      have "n \<le> j" using \<open>fits n (lfree h) bs vs j ws\<close> by (simp add: fits_def)
      then have le: "mem_size_aligned h - n \<le> lsize vs" using None unfolding u by (auto dest: first_fit_None)
      then have "lsize ws = 0" "j = n" using sz(1) \<open>n \<le> j\<close> n u by simp_all
      then show ?thesis using lsize_Cons_pos[of ws] by auto
    qed
    then show ?thesis using none f None by simp
  next
    case (Some p)
    from first_fit_Some[OF this] obtain us k ys where u: "rest = us @ (k, False) # ys" "p = lsize zs + lsize us" "n \<le> k"
        "\<forall>vs j ws. rest = vs @ (j, False) # ws \<and> lsize vs < lsize us \<longrightarrow> j < n" by blast
    have low: "lsize (zs @ us) \<le> lsize vs" if "fits n (lfree h) bs vs j ws" for vs j ws
    proof -
      have "n \<le> j" using \<open>fits n (lfree h) bs vs j ws\<close> by (simp add: fits_def)
      then show ?thesis using rest[OF \<open>fits n (lfree h) bs vs j ws\<close>] u(4) by (metis add_le_cancel_left leD le_less_linear lsize_append)
    qed
    show ?thesis
    proof (rule some[of "zs @ us" k ys])
      show "fits n (lfree h) bs (zs @ us) k ys" using u z by (simp add: fits_def)
    qed (use low f Some u(2) in simp_all)
  qed
qed

lemma free_or_end_header:
  assumes "chain H bs" "free_or_end l bs"
  shows "\<exists>m. H l = Some m \<and> (l = lsize bs \<or> hm_used m = 0)"
proof (cases "l = lsize bs")
  case True
  then show ?thesis using assms(1) by (auto simp: chain_def end_ok_def)
next
  case False
  then obtain xs n ys where "bs = xs @ (n, False) # ys" "l = lsize xs"
    using assms(2) free_at_split[of l 0 bs] by (auto simp: free_or_end_def)
  then show ?thesis using chain_block(1)[of H xs n False ys] assms(1) by simp
qed

text \<open>The move of \<open>lfree\<close> past a block that has just been taken.\<close>

lemma lfree_moved:
  assumes c: "chain (heap_hdr h) (xs @ bs)" and e: "heap_end h = lsize (xs @ bs)"
  obtains l m where "lfree_advance h (lsize xs) = Some l" "heap_hdr h l = Some m" "l = heap_end h \<or> hm_used m = 0"
    "free_or_end l (xs @ bs)"
proof -
  let ?l = "next_free (lsize xs) bs"
  have fe: "free_or_end ?l (xs @ bs)" using next_free_ok[of "lsize xs" bs] by (auto simp: free_or_end_def)
  have "lfree_advance h (lsize xs) = Some ?l"
    by (rule lfree_advance_ok[of _ "last_off 0 0 xs"]) (use c e in \<open>simp_all add: chain_append\<close>)
  then show ?thesis using free_or_end_header[OF c fe] that fe e by metis
qed

lemma rt_malloc_found:
  assumes h: "heap_is h bs" and n: "n = max (unat (rt_align sz)) 12" and sz: "sz \<noteq> 0" "unat (rt_align sz) \<le> mem_size_aligned h"
    and find: "malloc_find (h\<lparr>heap_sem := 0\<rparr>) n (lfree h) = Some (Some (lsize xs))" and fit: "fits n (lfree h) bs xs k ys"
  shows "\<exists>h'. rt_malloc sz h = Some (heap_ptr h + lsize xs + 12, h') \<and> heap_is h' (xs @ carve n k @ ys) \<and> heap_frame h h'"
proof -
  let ?bs = "xs @ carve n k @ ys"
  have bs: "bs = xs @ (k, False) # ys" "12 \<le> n" "n \<le> k" using fit n by (simp_all add: fits_def)
  have n4: "n mod 4 = 0" using n rt_align_dvd[of sz] by (simp add: max_def dvd_eq_mod_eq_0)
  note cut = carve_ok[OF bs(2,3) n4]
  note d = h[unfolded heap_is_def]
  have size: "mem_size_aligned h + 12 = lsize xs + (12 + k) + lsize ys" "heap_end h = lsize ?bs" "lsize ?bs = lsize bs"
      "heap_ptr h + lsize bs + 12 < 2 ^ 32"
    using d bs(1) by simp_all
  let ?h1 = "h\<lparr>heap_sem := 0\<rparr>" and ?c = "in_use (carve n k)"
  have "chain (heap_hdr ?h1) (xs @ (k, False) # ys)" using d bs(1) by simp
  from malloc_take_ok[OF this bs(2,3)] size obtain H where
    t: "malloc_take n (lsize xs) ?h1 = Some (count_used ?c (?h1\<lparr>heap_hdr := H\<rparr>))" and c: "chain H ?bs" by force
  have "used_mem h + ?c < 2 ^ 32" using d bs(1) cut(3) in_use_le[of xs] in_use_le[of ys] by simp
  moreover define h2 where "h2 = ?h1\<lparr>heap_hdr := H, used_mem := used_mem h + ?c, max_mem := max (max_mem h) (used_mem h + ?c)\<rparr>"
  ultimately have t2: "malloc_take n (lsize xs) ?h1 = Some h2" using t by (simp add: count_used_def Let_def)
  have h2: "lfree h2 = lfree h" "heap_hdr h2 = H" "heap_end h2 = heap_end h" "heap_ptr h2 = heap_ptr h" by (simp_all add: h2_def)
  obtain l where l: "(if lsize xs = lfree h2 then do {
        l \<leftarrow> lfree_advance h2 (lsize xs); m \<leftarrow> heap_hdr h2 l; rt_assert (l = heap_end h2 \<or> hm_used m = 0);
        Some (h2\<lparr>lfree := l\<rparr>) } else Some h2) = Some (h2\<lparr>lfree := l\<rparr>)" and fe: "free_or_end l ?bs"
  proof (cases "lsize xs = lfree h2")
    case True
    have "chain (heap_hdr h2) (xs @ carve n k @ ys)" "heap_end h2 = lsize (xs @ carve n k @ ys)" using c size(2) h2 by simp_all
    then obtain l m where "lfree_advance h2 (lsize xs) = Some l" "heap_hdr h2 l = Some m" "l = heap_end h2 \<or> hm_used m = 0"
        "free_or_end l ?bs" by (rule lfree_moved)
    then show ?thesis using that[of l] True by simp
  next
    case False
    have "free_or_end (lfree h2) ?bs" using d False size(3) cut(5)[of "lfree h" 0 xs ys] bs(1) h2(1) by (auto simp: free_or_end_def)
    then show ?thesis using that[of "lfree h2"] False by simp
  qed
  let ?h' = "heap_unlock (h2\<lparr>lfree := l\<rparr>)"
  have "heap_is ?h' ?bs"
    using d c fe cut(1)[of xs False ys] cut(2)[of xs ys] bs(1) size cut(4)
    by (auto simp: heap_is_def heap_unlock_def free_or_end_def h2_def)
  moreover have "rt_malloc sz h = Some (heap_ptr h + lsize xs + 12, ?h')"
  proof -
    have m4: "lsize xs mod 4 = 0" "heap_ptr h mod 4 = 0" using d bs(1) lsize_mod[of xs] by simp_all
    then have "(heap_ptr h + lsize xs) mod 4 = 0" "(heap_ptr h + lsize xs + 12) mod 4 = 0" by presburger+
    moreover have "uadd (heap_ptr h) (lsize xs) = heap_ptr h + lsize xs" "uadd (heap_ptr h + lsize xs) 12 = heap_ptr h + lsize xs + 12"
        "uadd (heap_ptr h + lsize xs + 12) n = heap_ptr h + lsize xs + 12 + n" "uadd (heap_ptr h) (heap_end h) = heap_ptr h + lsize bs"
        "heap_ptr h + lsize xs + 12 + n \<le> heap_ptr h + lsize bs"
      using size bs by simp_all
    moreover have "lfree ?h1 = lfree h" "\<not> heap_irq h" "heap_ptr (h2\<lparr>lfree := l\<rparr>) = heap_ptr h" "heap_end (h2\<lparr>lfree := l\<rparr>) = heap_end h"
      using d h2 by simp_all
    ultimately show ?thesis
      unfolding rt_malloc_def SIZEOF_STRUCT_MEM_def MIN_SIZE_ALIGNED_def Let_def n[symmetric]
      using sz by (simp add: heap_lock_ok(1)[OF h] find t2 l heap_unlock_def)
  qed
  ultimately show ?thesis by (auto simp: heap_frame_def heap_unlock_def h2_def)
qed

lemma rt_malloc_none:
  assumes h: "heap_is h bs" and n: "n = max (unat (rt_align sz)) 12"
    and find: "malloc_find (h\<lparr>heap_sem := 0\<rparr>) n (lfree h) = Some None"
  shows "rt_malloc sz h = Some (RT_NULL, h)"
proof -
  have "\<not> heap_irq h" using h by (simp add: heap_is_def)
  then show ?thesis
    unfolding rt_malloc_def SIZEOF_STRUCT_MEM_def MIN_SIZE_ALIGNED_def Let_def n[symmetric]
    by (simp add: heap_lock_ok[OF h] find)
qed

lemma rt_malloc_cases:
  fixes sz :: u32
  assumes h: "heap_is h bs"
  defines "n \<equiv> max (unat (rt_align sz)) 12"
  obtains (zero) "sz = 0" "rt_malloc sz h = Some (RT_NULL, h)"
  | (large) "mem_size_aligned h < unat (rt_align sz)" "rt_malloc sz h = Some (RT_NULL, h)"
  | (none) "sz \<noteq> 0" "unat (rt_align sz) \<le> mem_size_aligned h" "rt_malloc sz h = Some (RT_NULL, h)"
      "\<And>xs k ys. fits n (lfree h) bs xs k ys \<Longrightarrow> ys = [] \<and> k = n"
  | (some) xs k ys h' where "sz \<noteq> 0" "unat (rt_align sz) \<le> mem_size_aligned h" "fits n (lfree h) bs xs k ys"
      "\<And>vs j ws. fits n (lfree h) bs vs j ws \<Longrightarrow> lsize xs \<le> lsize vs"
      "rt_malloc sz h = Some (heap_ptr h + lsize xs + 12, h')" "heap_is h' (xs @ carve n k @ ys)" "heap_frame h h'"
proof -
  have irq: "\<not> heap_irq h" "12 \<le> mem_size_aligned h" using h by (simp_all add: heap_is_def)
  consider "sz = 0" | "sz \<noteq> 0" "mem_size_aligned h < unat (rt_align sz)" | "sz \<noteq> 0" "unat (rt_align sz) \<le> mem_size_aligned h"
    by linarith
  then show ?thesis
  proof cases
    case 1
    then show ?thesis using zero by (simp add: rt_malloc_def)
  next
    case 2
    then show ?thesis using large irq by (simp add: rt_malloc_def)
  next
    case 3
    then have "n \<le> mem_size_aligned h" using irq(2) by (simp add: n_def)
    from h this show ?thesis
    proof (cases rule: malloc_find_cases)
      case none': none
      show ?thesis using none[OF 3 rt_malloc_none[OF h n_def[THEN meta_eq_to_obj_eq] none'(1)]] none'(2) by blast
    next
      case some': (some xs k ys)
      obtain h' where "rt_malloc sz h = Some (heap_ptr h + lsize xs + 12, h')" "heap_is h' (xs @ carve n k @ ys)" "heap_frame h h'"
        using rt_malloc_found[OF h n_def[THEN meta_eq_to_obj_eq] 3 some'(1,2)] by blast
      then show ?thesis by (rule some[OF 3 some'(2), rotated 1]) (rule some'(3))
    qed
  qed
qed

section \<open>rt_free\<close>

lemma joined_used: "joined (xs @ (k, True) # ys) \<Longrightarrow> joined xs \<and> joined ys"
  by (cases ys) (auto simp: successively_append_iff)

lemma rt_free_ok:
  assumes h: "heap_is h (xs @ (k, True) # ys)"
  shows "\<exists>h'. rt_free (heap_ptr h + lsize xs + 12) h = Some h' \<and> heap_is h' (release xs k ys) \<and> heap_frame h h'"
proof -
  let ?p = "lsize xs" and ?r = "heap_ptr h + lsize xs + 12"
  note d = h[unfolded heap_is_def]
  let ?h1 = "h\<lparr>heap_sem := 0\<rparr>"
  have c: "chain (heap_hdr h) (xs @ (k, True) # ys)" using d by simp
  note b = chain_block[OF c]
  have "lsize xs mod 4 = 0" "heap_ptr h mod 4 = 0" using d lsize_mod[of xs] by simp_all
  then have m4: "?r mod 4 = 0" by presburger
  have w: "uadd (heap_ptr h) (heap_end h) = heap_ptr h + heap_end h" "usub ?r 12 = heap_ptr h + ?p"
      "usub (heap_ptr h + ?p) (heap_ptr h) = ?p" "usub (?p + (12 + k)) ?p = 12 + k"
      "?r < heap_ptr h + heap_end h"
    using d by simp_all
  have u: "usub (used_mem h) (12 + k) = in_use xs + in_use ys"
    using d in_use_le[of "xs @ (k, True) # ys"] by (simp add: add.commute)
  define h3 where "h3 = ?h1\<lparr>heap_hdr := (heap_hdr h)(?p \<mapsto> header (last_off 0 0 xs) ?p False k),
    lfree := (if ?p < lfree h then ?p else lfree h), used_mem := in_use xs + in_use ys\<rparr>"
  have c3: "chain (heap_hdr h3) (xs @ (k, False) # ys)" unfolding chain_one using b by (simp add: h3_def)
  have "free_or_end (lfree h3) (xs @ (k, False) # ys)"
    using d by (auto simp: h3_def free_or_end_def dest: free_at_bounds)
  then obtain H l where p: "plug_holes (heap_ptr h + ?p) h3 = Some (h3\<lparr>heap_hdr := H, lfree := l\<rparr>)"
      "chain H (release xs k ys)" "free_or_end l (release xs k ys)"
    using plug_holes_ok[OF c3] d by (auto simp: h3_def)
  let ?h2 = "set_hdr ?p (header (last_off 0 0 xs) ?p True k\<lparr>hm_used := 0, hm_magic := HEAP_MAGIC\<rparr>) ?h1"
  let ?h2' = "if ?p < lfree ?h2 then ?h2\<lparr>lfree := ?p\<rparr> else ?h2"
  have step: "?h2'\<lparr>used_mem := usub (used_mem ?h2') (12 + k)\<rparr> = h3"
    using u by (simp add: h3_def set_hdr_def header_def)
  have "rt_free ?r h = Some (heap_unlock (h3\<lparr>heap_hdr := H, lfree := l\<rparr>))"
    unfolding rt_free_def SIZEOF_STRUCT_MEM_def w(1-3) Let_def heap_lock_ok(1)[OF h]
    using m4 d w(4,5) b(1) p(1) by (simp add: step split del: if_split)
  moreover have "heap_is (heap_unlock (h3\<lparr>heap_hdr := H, lfree := l\<rparr>)) (release xs k ys)"
    using d p(2,3) release_ok[where xs = xs and n = k and ys = ys] joined_used[of xs k ys]
    by (simp add: heap_is_def heap_unlock_def h3_def free_or_end_def)
  ultimately show ?thesis by (auto simp: heap_frame_def heap_unlock_def h3_def)
qed

section \<open>Blocks in use\<close>

lemma live_disjoint:
  "(p, k) \<in> live a bs \<Longrightarrow> (q, j) \<in> live a bs \<Longrightarrow> (p, k) = (q, j) \<or> p + k + 12 \<le> q \<or> q + j + 12 \<le> p"
  by (induction a bs rule: live.induct) (fastforce dest: live_bounds split: if_splits)+

lemma rt_free_live:
  assumes h: "heap_is h bs" and p: "(p, k) \<in> live (heap_ptr h) bs"
  shows "\<exists>h' bs'. rt_free p h = Some h' \<and> heap_is h' bs' \<and> heap_frame h h' \<and>
    live (heap_ptr h) bs' = live (heap_ptr h) bs - {(p, k)} \<and> used_mem h' + (k + 12) = used_mem h"
proof -
  obtain xs ys where bs: "bs = xs @ (k, True) # ys" "p = heap_ptr h + lsize xs + 12"
    using live_split[OF p] by blast
  let ?a = "heap_ptr h + lsize xs + 12 + k"
  have "(p, k) \<notin> live (heap_ptr h) xs" "(p, k) \<notin> live ?a ys"
    using bs(2) live_bounds[of p k "heap_ptr h" xs] live_bounds[of p k ?a ys] by auto
  moreover have "live (heap_ptr h) bs = insert (p, k) (live (heap_ptr h) xs \<union> live ?a ys)"
    using bs by (auto simp: add_ac)
  ultimately have "live (heap_ptr h) (release xs k ys) = live (heap_ptr h) bs - {(p, k)}"
    using release_ok(3)[of "heap_ptr h" xs k ys] by auto
  moreover obtain h' where h': "rt_free p h = Some h'" "heap_is h' (release xs k ys)" "heap_frame h h'"
    using rt_free_ok[of h xs k ys] h bs by blast
  moreover have "used_mem h' + (k + 12) = used_mem h"
    using h h'(2) bs(1) release_ok(2)[of xs k ys] by (simp add: heap_is_def)
  ultimately show ?thesis by blast
qed

definition got :: "nat \<Rightarrow> nat \<Rightarrow> nat" where
  "got n k = (if n + 24 \<le> k then n else k)"

lemma live_carve_free: "live a (xs @ carve n k @ ys) = insert (a + lsize xs + 12, got n k) (live a (xs @ (k, False) # ys))"
  by (auto simp: carve_def got_def add_ac)

lemma rt_malloc_live:
  assumes "heap_is h' (xs @ carve n k @ ys)" "fits n l bs xs k ys" "heap_ptr h' = a" "unat sz + 3 < 2 ^ 32" "n = max (unat (rt_align sz)) 12"
  shows "live a (xs @ carve n k @ ys) = insert (a + lsize xs + 12, got n k) (live a bs)"
    "unat sz \<le> got n k" "n \<le> got n k" "a + lsize xs + 12 + got n k + 12 < 2 ^ 32"
    "(a + lsize xs + 12) mod 4 = 0" "a + lsize xs + 12 + got n k \<le> a + heap_end h'"
    "(q, j) \<in> live a bs \<Longrightarrow> q + j + 12 \<le> a + lsize xs + 12 \<or> a + lsize xs + 12 + got n k + 12 \<le> q"
proof -
  have bs: "bs = xs @ (k, False) # ys" "n \<le> k" using assms(2) by (simp_all add: fits_def)
  show l: "live a (xs @ carve n k @ ys) = insert (a + lsize xs + 12, got n k) (live a bs)"
    using live_carve_free bs(1) by simp
  show n: "n \<le> got n k" using bs(2) by (simp add: got_def)
  have "unat sz \<le> n" using assms(4,5) by (simp add: unat_rt_align)
  then show "unat sz \<le> got n k" using n by simp
  have "lsize (xs @ carve n k @ ys) + a + 12 < 2 ^ 32" using assms(1,3) by (simp add: heap_is_def add.commute)
  moreover have "got n k \<le> k" using bs(2) by (simp add: got_def)
  ultimately show "a + lsize xs + 12 + got n k + 12 < 2 ^ 32" by simp
  have "a mod 4 = 0" "lsize xs mod 4 = 0" using assms(1,3) lsize_mod[of xs] by (simp_all add: heap_is_def)
  then show "(a + lsize xs + 12) mod 4 = 0" by presburger
  show "a + lsize xs + 12 + got n k \<le> a + heap_end h'"
    using assms(1) \<open>got n k \<le> k\<close> by (simp add: heap_is_def)
  assume q: "(q, j) \<in> live a bs"
  then have "(q, j) \<in> live a xs \<or> (q, j) \<in> live (a + lsize xs + (12 + k)) ys" using bs(1) by (simp add: add_ac)
  then show "q + j + 12 \<le> a + lsize xs + 12 \<or> a + lsize xs + 12 + got n k + 12 \<le> q"
    using live_bounds[of q j a xs] live_bounds[of q j "a + lsize xs + (12 + k)" ys] \<open>got n k \<le> k\<close> by auto
qed

lemma heap_aligned: "heap_is h bs \<Longrightarrow> mem_size_aligned h mod 4 = 0"
proof -
  assume "heap_is h bs"
  then have "mem_size_aligned h + 12 = lsize bs" "lsize bs mod 4 = 0" using lsize_mod[of bs] by (simp_all add: heap_is_def)
  then show ?thesis by presburger
qed

lemma too_large:
  fixes sz :: u32
  assumes "heap_is h bs" "unat sz + 3 < 2 ^ 32" "mem_size_aligned h < unat (rt_align sz)"
  shows "mem_size_aligned h < unat sz"
proof -
  have "mem_size_aligned h < (unat sz + 3) div 4 * 4" using assms(2,3) by (simp add: unat_rt_align)
  then show ?thesis using heap_aligned[OF assms(1)] by presburger
qed

section \<open>rt_realloc, rt_calloc and the initial heap\<close>

lemma shrink_split:
  assumes c: "chain (heap_hdr h) (xs @ (k, True) # ys)" and n: "n + 24 < k"
    and sz: "mem_size_aligned h + 12 = lsize (xs @ (k, True) # ys)" "heap_ptr h + lsize (xs @ (k, True) # ys) + 12 < 2 ^ 32"
  shows "\<exists>H. realloc_shrink n (lsize xs) h = plug_holes (heap_ptr h + lsize (xs @ [(n, True)]))
      (h\<lparr>heap_hdr := H, used_mem := usub (used_mem h) (k - n)\<rparr>) \<and> chain H ((xs @ [(n, True)]) @ (k - n - 12, False) # ys)"
proof -
  let ?p = "lsize xs" and ?a = "lsize xs + (12 + k)" and ?h = "h\<lparr>used_mem := usub (used_mem h) (k - n)\<rparr>"
  note b = chain_block[OF c]
  have w: "usub ?a ?p = 12 + k" "usub (12 + k) 12 = k" "usub k n = k - n" "uadd ?p 12 = ?p + 12" "uadd (?p + 12) n = ?p + (12 + n)"
      "uadd (mem_size_aligned h) 12 = ?a + lsize ys" "uadd (heap_ptr h) (?p + (12 + n)) = heap_ptr h + lsize (xs @ [(n, True)])"
    using n sz by simp_all
  have hd: "header (last_off 0 0 xs) ?p True k\<lparr>hm_next := q, hm_used := 1, hm_magic := HEAP_MAGIC\<rparr> =
      header (last_off 0 0 xs) ?p True k\<lparr>hm_next := q\<rparr>" for q
    by (simp add: header_def)
  have "chain (heap_hdr ?h) (xs @ (k, True) # ys)" "n + 12 \<le> k" using c n by simp_all
  from split_ok[OF this, unfolded hd] obtain H where H: "(if ?a \<noteq> ?a + lsize ys then hdr_prev ?a (?p + (12 + n))
        (set_hdr ?p (header (last_off 0 0 xs) ?p True k\<lparr>hm_next := ?p + (12 + n)\<rparr>)
        (set_hdr (?p + (12 + n)) \<lparr>hm_magic = HEAP_MAGIC, hm_used = 0, hm_next = ?a, hm_prev = ?p\<rparr> ?h)) else
        Some (set_hdr ?p (header (last_off 0 0 xs) ?p True k\<lparr>hm_next := ?p + (12 + n)\<rparr>)
        (set_hdr (?p + (12 + n)) \<lparr>hm_magic = HEAP_MAGIC, hm_used = 0, hm_next = ?a, hm_prev = ?p\<rparr> ?h))) = Some (?h\<lparr>heap_hdr := H\<rparr>)"
      "chain H (xs @ (n, True) # (k - n - 12, False) # ys)" by blast
  have "realloc_shrink n ?p h = plug_holes (heap_ptr h + lsize (xs @ [(n, True)])) (?h\<lparr>heap_hdr := H\<rparr>)"
    unfolding realloc_shrink_def SIZEOF_STRUCT_MEM_def b(1) Option.bind.simps header_simps Let_def w H(1) by simp
  moreover have "?h\<lparr>heap_hdr := H\<rparr> = h\<lparr>heap_hdr := H, used_mem := usub (used_mem h) (k - n)\<rparr>" by (cases h) simp
  ultimately show ?thesis using H(2) by (intro exI[of _ H]) simp
qed

lemma realloc_shrink_ok:
  assumes h: "heap_is h (xs @ (k, True) # ys)" and n: "n + 24 < k" "4 \<le> n" "n mod 4 = 0"
  shows "\<exists>h'. realloc_shrink n (lsize xs) (h\<lparr>heap_sem := 0\<rparr>) = Some h' \<and>
    heap_is (heap_unlock h') (release (xs @ [(n, True)]) (k - n - 12) ys) \<and> heap_frame h (heap_unlock h') \<and>
    (\<not> starts_free ys \<longrightarrow> lfree h' = lfree h)"
proof -
  note d = h[unfolded heap_is_def]
  let ?h1 = "h\<lparr>heap_sem := 0\<rparr>" and ?xs = "xs @ [(n, True)]"
  have "chain (heap_hdr ?h1) (xs @ (k, True) # ys)" "mem_size_aligned ?h1 + 12 = lsize (xs @ (k, True) # ys)"
      "heap_ptr ?h1 + lsize (xs @ (k, True) # ys) + 12 < 2 ^ 32" using d by simp_all
  from shrink_split[OF this(1) n(1) this(2,3)] obtain H where
    s: "realloc_shrink n (lsize xs) ?h1 = plug_holes (heap_ptr h + lsize ?xs) (?h1\<lparr>heap_hdr := H, used_mem := usub (used_mem h) (k - n)\<rparr>)"
      and c: "chain H (?xs @ (k - n - 12, False) # ys)" by auto
  have u: "usub (used_mem h) (k - n) = in_use ?xs + in_use ys"
    using d n in_use_le[of "xs @ (k, True) # ys"] by (simp add: add.commute)
  let ?h2 = "?h1\<lparr>heap_hdr := H, used_mem := usub (used_mem h) (k - n)\<rparr>"
  have c2: "chain (heap_hdr ?h2) (?xs @ (k - n - 12, False) # ys)" using c by simp
  have e2: "heap_end ?h2 = lsize (?xs @ (k - n - 12, False) # ys)" using d n by simp
  have l2: "free_or_end (lfree ?h2) (?xs @ (k - n - 12, False) # ys)" using d n by (auto simp: free_or_end_def add_ac)
  obtain H2 l where p: "plug_holes (heap_ptr h + lsize ?xs) ?h2 = Some (?h2\<lparr>heap_hdr := H2, lfree := l\<rparr>)"
      "chain H2 (release ?xs (k - n - 12) ys)" "free_or_end l (release ?xs (k - n - 12) ys)" "\<not> starts_free ys \<longrightarrow> l = lfree h"
  proof -
    have "heap_ptr ?h2 + heap_end ?h2 < 2 ^ 32" using d by simp
    from plug_holes_ok[OF c2 e2 this l2] obtain H2 l where
      p: "plug_holes (heap_ptr h + lsize ?xs) ?h2 = Some (?h2\<lparr>heap_hdr := H2, lfree := l\<rparr>)"
        "chain H2 (release ?xs (k - n - 12) ys)" "free_or_end l (release ?xs (k - n - 12) ys)" by auto
    have "l = lfree h" if "\<not> starts_free ys"
    proof -
      have "plug_holes (heap_ptr h + lsize ?xs) ?h2 = Some ?h2"
        using plug_forward_used[OF c2 e2 that] plug_backward_used[OF c2] chain_block(1)[OF c2] d n
        by (simp add: plug_holes_def)
      then have "?h2\<lparr>heap_hdr := H2, lfree := l\<rparr> = ?h2" using p(1) by simp
      then have "lfree (?h2\<lparr>heap_hdr := H2, lfree := l\<rparr>) = lfree ?h2" by (rule arg_cong)
      then show ?thesis by simp
    qed
    then show ?thesis using that[of l H2] p by blast
  qed
  have sz: "k mod 4 = 0 \<Longrightarrow> (k - n - 12) mod 4 = 0" using n by presburger
  have j: "joined ?xs" "joined ys"
    using d joined_used[of xs k ys] by (auto simp: successively_append_iff)
  have "heap_is (heap_unlock (?h2\<lparr>heap_hdr := H2, lfree := l\<rparr>)) (release ?xs (k - n - 12) ys)"
    using d p(2,3) release_ok[where xs = ?xs and n = "k - n - 12" and ys = ys] j n sz u
    by (simp add: heap_is_def heap_unlock_def free_or_end_def)
  then show ?thesis using s p(1,4) by (auto simp: heap_frame_def heap_unlock_def)
qed

text \<open>\<open>rt_realloc\<close> of a block in use, without the arithmetic: what each outcome leaves.\<close>

lemma rt_realloc_cases:
  fixes nsize :: u32
  assumes h: "heap_is h (xs @ (k, True) # ys)"
  defines "n \<equiv> unat (rt_align nsize)" and "p \<equiv> heap_ptr h + lsize xs + 12"
  obtains (large) "mem_size_aligned h < n" "rt_realloc p nsize h = Some (RT_NULL, h)"
  | (freed) h' where "n = 0" "rt_free p h = Some h'" "rt_realloc p nsize h = Some (RT_NULL, h')"
  | (same) "n = k" "rt_realloc p nsize h = Some (p, h)"
  | (shrunk) h' where "0 < n" "n + 24 < k" "rt_realloc p nsize h = Some (p, h')" "heap_is h' (release (xs @ [(n, True)]) (k - n - 12) ys)"
      "heap_frame h h'" "\<not> starts_free ys \<Longrightarrow> lfree h' = lfree h"
  | (moved) "0 < n" "k \<le> n + 24" "n \<noteq> k" "rt_realloc p nsize h = do {
        (q, h1) \<leftarrow> rt_malloc (rt_align nsize) h;
        if q = RT_NULL then Some (RT_NULL, h1)
        else do { h2 \<leftarrow> rt_free p (h1\<lparr>heap_data := rt_memcpy q p (min k n) (heap_data h1)\<rparr>); Some (q, h2) } }"
proof -
  note d = h[unfolded heap_is_def]
  have irq: "\<not> heap_irq h" using d by simp
  have w: "uadd (heap_ptr h) (heap_end h) = heap_ptr h + heap_end h" "usub p 12 = heap_ptr h + lsize xs"
      "usub (heap_ptr h + lsize xs) (heap_ptr h) = lsize xs" "usub (lsize xs + (12 + k)) (lsize xs) = 12 + k" "usub (12 + k) 12 = k"
      "\<not> (p < heap_ptr h \<or> heap_ptr h + heap_end h \<le> p)" "p \<noteq> RT_NULL"
    using d by (simp_all add: p_def)
  have m: "heap_hdr h (lsize xs) = Some (header (last_off 0 0 xs) (lsize xs) True k)" using chain_block(1) d by blast
  have u: "uadd (uadd n 12) 12 = n + 24" if "n \<le> mem_size_aligned h" using that d by simp
  note def = rt_realloc_def SIZEOF_STRUCT_MEM_def MIN_SIZE_ALIGNED_def Let_def n_def[symmetric]
  consider "mem_size_aligned h < n" | "n = 0" | "n = k" "0 < n" "n \<le> mem_size_aligned h"
    | "n + 24 < k" "0 < n" "n \<le> mem_size_aligned h" | "k \<le> n + 24" "0 < n" "n \<le> mem_size_aligned h" "n \<noteq> k" by linarith
  then show ?thesis
  proof cases
    case 1
    then show ?thesis using large irq unfolding def by simp
  next
    case 2
    obtain h' where "rt_free p h = Some h'" using rt_free_ok[OF h] unfolding p_def by blast
    then show ?thesis using freed[OF 2] 2 irq unfolding def by simp
  next
    case 3
    then have "rt_realloc p nsize h = Some (p, h)" using irq w m unfolding def by (simp add: heap_lock_ok[OF h])
    then show ?thesis using same 3 by blast
  next
    case 4
    have "n mod 4 = 0" using rt_align_dvd[of nsize] by (simp add: n_def dvd_eq_mod_eq_0)
    then have "4 \<le> n" using 4(2) by presburger
    from realloc_shrink_ok[OF h 4(1) this \<open>n mod 4 = 0\<close>] obtain h' where
      r: "realloc_shrink n (lsize xs) (h\<lparr>heap_sem := 0\<rparr>) = Some h'" "heap_is (heap_unlock h') (release (xs @ [(n, True)]) (k - n - 12) ys)"
        "heap_frame h (heap_unlock h')" "\<not> starts_free ys \<longrightarrow> lfree h' = lfree h" by blast
    have "rt_realloc p nsize h = Some (p, heap_unlock h')"
      using irq w m u 4 r(1) unfolding def by (simp add: heap_lock_ok[OF h])
    then show ?thesis using shrunk[OF 4(2,1) _ r(2,3)] r(4) by (simp add: heap_unlock_def)
  next
    case 5
    then show ?thesis using moved[OF 5(2,1,4)] irq w m u unfolding def by (simp add: heap_lock_ok[OF h] cong: if_cong)
  qed
qed

lemma rt_system_heap_init_ok:
  fixes b e :: u32
  defines "lo \<equiv> unat (rt_align b)" and "hi \<equiv> unat e div 4 * 4"
  assumes "\<not> heap_irq h" "lo + 36 \<le> hi" "0 < lo" "used_mem h = 0"
  shows "\<exists>h'. rt_system_heap_init b e h = Some h' \<and> heap_is h' [(hi - lo - 24, False)] \<and> heap_ptr h' = lo"
proof -
  have hi: "unat (e AND NOT 3) = hi" "hi < 2 ^ 32"
    using unsigned_less[of e, where 'a = nat] unfolding hi_def unat_align_down by simp_all
  have m4: "lo mod 4 = 0" "hi mod 4 = 0" using rt_align_dvd[of b] by (simp_all add: lo_def hi_def dvd_eq_mod_eq_0)
  then have "(hi - lo - 24) mod 4 = 0" using assms(4) by presburger
  moreover have "usub (usub hi lo) 24 = hi - lo - 24" "uadd (hi - lo - 24) 12 = hi - lo - 12"
    using assms(4) hi(2) by simp_all
  moreover have "lo \<le> hi - 24" "24 < hi" "4 \<le> hi - (lo + 24)" "12 \<le> hi - (lo + 24)" using assms(4) by linarith+
  ultimately show ?thesis
    using assms(3-6) hi(2) m4(1) unfolding rt_system_heap_init_def hi(1) lo_def[symmetric] Let_def
    by (simp add: SIZEOF_STRUCT_MEM_def heap_is_def chain_def header_def end_ok_def)
qed

text \<open>\<open>rt_malloc\<close> and \<open>rt_realloc\<close> in terms of the blocks in use.\<close>

lemma rt_malloc_ok:
  fixes sz :: u32
  assumes h: "heap_is h bs" and small: "unat sz + 3 < 2 ^ 32"
  obtains (null) "rt_malloc sz h = Some (RT_NULL, h)"
  | (block) p k h' bs' where "rt_malloc sz h = Some (p, h')" "p \<noteq> RT_NULL" "unat sz \<le> k" "unat (rt_align sz) \<le> k"
      "heap_is h' bs'" "heap_frame h h'" "live (heap_ptr h) bs' = insert (p, k) (live (heap_ptr h) bs)"
      "\<And>q j. (q, j) \<in> live (heap_ptr h) bs \<Longrightarrow> q + j + 12 \<le> p \<or> p + k + 12 \<le> q"
  using h
proof (cases rule: rt_malloc_cases[where sz = sz])
  case (some xs k ys h')
  have "heap_ptr h' = heap_ptr h" using some(7) by (simp add: heap_frame_def)
  note l = rt_malloc_live[OF some(6,3) this small refl]
  show ?thesis by (rule block[OF some(5) _ l(2) _ some(6,7) l(1)]) (use l(3,7) in auto)
qed (use null in blast)+

lemma rt_realloc_ok:
  fixes nsize :: u32
  assumes h: "heap_is h bs" and p: "(p, k) \<in> live (heap_ptr h) bs" and small: "unat nsize + 3 < 2 ^ 32" "nsize \<noteq> 0"
  obtains (null) "rt_realloc p nsize h = Some (RT_NULL, h)"
  | (block) q j h' bs' where "rt_realloc p nsize h = Some (q, h')" "q \<noteq> RT_NULL" "unat nsize \<le> j" "heap_is h' bs'"
      "live (heap_ptr h) bs' = insert (q, j) (live (heap_ptr h) bs - {(p, k)})"
      "heap_data h' = blit q p (min k (unat (rt_align nsize))) (heap_data h)"
      "q = p \<or> (\<forall>(r, i) \<in> live (heap_ptr h) bs. r + i + 12 \<le> q \<or> q + j + 12 \<le> r)" "unat (rt_align nsize) \<le> j"
proof -
  obtain xs ys where bs: "bs = xs @ (k, True) # ys" "p = heap_ptr h + lsize xs + 12" using live_split[OF p] by blast
  let ?n = "unat (rt_align nsize)" and ?L = "live (heap_ptr h) bs"
  have "unat nsize \<noteq> 0" using small(2) by (simp add: unat_eq_zero)
  then have "(unat nsize + 3) div 4 \<noteq> 0" by presburger
  then have n: "unat nsize \<le> ?n" "?n mod 4 = 0" "?n \<noteq> 0"
    using small(1) rt_align_dvd[of nsize] by (simp_all add: unat_rt_align dvd_eq_mod_eq_0)
  note null_case = null and block_case = block
  have self: "blit p p m d = d" for m d by (auto simp: blit_def fun_eq_iff)
  have p0: "p \<noteq> RT_NULL" using bs(2) by simp
  have rest: "(p, i) \<notin> live (heap_ptr h) xs" "(p, i) \<notin> live (p + k) ys" for i
    using bs(2) live_bounds[of p i "heap_ptr h" xs] live_bounds[of p i "p + k" ys] by auto
  have L: "?L = insert (p, k) (live (heap_ptr h) xs \<union> live (p + k) ys)" using bs by (auto simp: add_ac)
  show ?thesis
  proof (rule rt_realloc_cases[OF h[unfolded bs(1)], of nsize, folded bs(2)])
    assume "rt_realloc p nsize h = Some (p, h)" "?n = k"
    then show ?thesis using block[of p h k bs] n p0 h p self by auto
  next
    fix h' assume r: "?n + 24 < k" "rt_realloc p nsize h = Some (p, h')"
      "heap_is h' (release (xs @ [(?n, True)]) (k - ?n - 12) ys)" "heap_frame h h'"
    have "heap_ptr h + lsize (xs @ [(?n, True)]) + 12 + (k - ?n - 12) = p + k" using r(1) bs(2) by simp
    then have "live (heap_ptr h) (release (xs @ [(?n, True)]) (k - ?n - 12) ys) = live (heap_ptr h) (xs @ [(?n, True)]) \<union> live (p + k) ys"
      using release_ok(3)[of "heap_ptr h" "xs @ [(?n, True)]" "k - ?n - 12" ys] by (simp only:)
    moreover have "live (heap_ptr h) (xs @ [(?n, True)]) = insert (p, ?n) (live (heap_ptr h) xs)" using bs(2) by simp
    ultimately have "live (heap_ptr h) (release (xs @ [(?n, True)]) (k - ?n - 12) ys) = insert (p, ?n) (?L - {(p, k)})"
      using L rest by blast
    then show ?thesis using block[of p h' ?n] r n p0 self by (simp add: heap_frame_def)
  next
    assume big: "k \<le> ?n + 24" "?n \<noteq> k" and eq: "rt_realloc p nsize h = do {
        (q, h1) \<leftarrow> rt_malloc (rt_align nsize) h;
        if q = RT_NULL then Some (RT_NULL, h1)
        else do { h2 \<leftarrow> rt_free p (h1\<lparr>heap_data := rt_memcpy q p (min k ?n) (heap_data h1)\<rparr>); Some (q, h2) } }"
    have "?n + 3 < 2 ^ 32" by (rule rt_align_room)
    from h this show ?thesis
    proof (cases rule: rt_malloc_ok[where sz = "rt_align nsize"])
      case null
      then show ?thesis using eq null_case by simp
    next
      case (block q j h1 bs1)
      have cl: "clear q p (min k ?n)" using block(8)[OF p] block(3) by (auto simp: clear_def)
      let ?h1 = "h1\<lparr>heap_data := rt_memcpy q p (min k ?n) (heap_data h1)\<rparr>"
      have "heap_is ?h1 bs1" "(p, k) \<in> live (heap_ptr ?h1) bs1"
        using block(5-7) p by (simp_all add: heap_is_def heap_frame_def)
      from rt_free_live[OF this] obtain h' bs' where f: "rt_free p ?h1 = Some h'" "heap_is h' bs'" "heap_frame ?h1 h'"
          "live (heap_ptr ?h1) bs' = live (heap_ptr ?h1) bs1 - {(p, k)}" by blast
      have "q \<noteq> p" using block(8)[OF p] by auto
      moreover have "live (heap_ptr h) bs' = insert (q, j) (?L - {(p, k)})"
        using f(4) block(6,7) calculation by (auto simp: heap_frame_def)
      moreover have "heap_data h' = blit q p (min k ?n) (heap_data h)"
        using f(3) block(6) rt_memcpy_blit[OF cl] by (simp add: heap_frame_def)
      moreover have "rt_realloc p nsize h = Some (q, h')" using eq block(1,2) f(1) by simp
      ultimately show ?thesis using block_case[of q h' j bs'] block(2,3,8) n(1) f(2) by auto
    qed
  qed (use n null in auto)
qed

end
