(* ===== verification/MemAlign.thy ===== *)
theory MemAlign
  imports MemOps
begin

text \<open>
  Allocation at a chosen alignment (\<open>rt_malloc_align\<close> and \<open>rt_free_align\<close> of \<open>src/kservice.c\<close>) on
  top of the small memory manager: the address of the real block is kept in the word in front of
  the aligned address.
\<close>

unbundle bit_operations_syntax

section \<open>Operations\<close>

definition rt_malloc_align :: "u32 \<Rightarrow> u32 \<Rightarrow> heap \<Rightarrow> (nat \<times> heap) option" where
  "rt_malloc_align sz align h = do {
     let align = (align + 3) AND NOT 3;
     let align_size = ((sz + 3) AND NOT 3) + align;
     (ptr, h1) \<leftarrow> rt_malloc align_size h;
     if ptr \<noteq> RT_NULL then do {
       let p = (of_nat ptr :: u32);
       let align_ptr = (if p AND (align - 1) = 0 then p + align else (p + (align - 1)) AND NOT (align - 1));
       Some (unat align_ptr, h1\<lparr>heap_data := store32 (unat (align_ptr - 4)) p (heap_data h1)\<rparr>)
     } else Some (ptr, h1)
   }"

definition rt_free_align :: "nat \<Rightarrow> heap \<Rightarrow> heap option" where
  "rt_free_align ptr h = rt_free (unat (load32 (unat (of_nat ptr - 4 :: u32)) (heap_data h))) h"

definition rt_strdup :: "nat \<Rightarrow> heap \<Rightarrow> (nat \<times> heap) option" where
  "rt_strdup s h = do {
     n \<leftarrow> rt_strlen (heap_data h) s;
     let len = n + 1;
     (tmp, h1) \<leftarrow> rt_malloc (of_nat len) h;
     if tmp = RT_NULL then Some (RT_NULL, h1)
     else Some (tmp, h1\<lparr>heap_data := rt_memcpy tmp s len (heap_data h1)\<rparr>)
   }"

section \<open>Words in memory and alignment\<close>

lemma load_store32: "load32 a (store32 a w m) = w"
proof (rule bit_word_eqI)
  fix n assume "n < LENGTH(32)"
  then consider "n < 8" | "8 \<le> n" "n < 16" | "16 \<le> n" "n < 24" | "24 \<le> n" "n < 32" by fastforce
  then show "bit (load32 a (store32 a w m)) n = bit w n"
    by cases (auto simp: load32_def store32_def bit_simps)
qed

lemma store32_elsewhere: "x < a \<or> a + 4 \<le> x \<Longrightarrow> store32 a w m x = m x"
  by (auto simp: store32_def)

lemma unat_and_not_mask: "unat (x AND NOT (mask k) :: u32) = unat x div 2 ^ k * 2 ^ k"
proof -
  have "x AND NOT (mask k) = push_bit k (drop_bit k x)"
    by (rule bit_eqI) (auto simp: bit_simps not_less dest!: le_Suc_ex)
  moreover have "unat x div 2 ^ k * 2 ^ k < 2 ^ 32"
    by (rule order.strict_trans1[OF div_times_less_eq_dividend]) (use unsigned_less[of x, where 'a = nat] in simp)
  then have "unat (push_bit k (drop_bit k x)) = unat x div 2 ^ k * 2 ^ k"
    unfolding unsigned_push_bit_eq unsigned_drop_bit_eq
    using unsigned_less[of x, where 'a = nat] by (simp add: push_bit_nat_def drop_bit_nat_def take_bit_nat_eq_self)
  ultimately show ?thesis by simp
qed

lemma and_mask_0: "x AND mask k = 0 \<longleftrightarrow> unat x mod 2 ^ k = 0" for x :: u32
proof -
  have "unat (x AND mask k) = unat x mod 2 ^ k"
    by (simp only: take_bit_eq_mask[symmetric] unsigned_take_bit_eq take_bit_eq_mod[of k "unat x"])
  then show ?thesis by (metis unat_eq_0)
qed

text \<open>Where the aligned address lies: after the word that holds the block, with the size requested behind it.\<close>

lemma aligned_room:
  fixes p sz al i :: nat
  assumes "al = 2 ^ i" "4 \<le> al" "p mod 4 = 0"
  defines "q \<equiv> if p mod al = 0 then p + al else (p + (al - 1)) div al * al"
  shows "q mod al = 0" "p + 4 \<le> q" "q \<le> p + al"
proof -
  have "2 \<le> i"
  proof (rule ccontr)
    assume "\<not> 2 \<le> i"
    then have "i = 0 \<or> i = 1" by arith
    then show False using assms(1,2) by auto
  qed
  then obtain j where "i = 2 + j" using le_Suc_ex by blast
  then have "al = 4 * 2 ^ j" using assms(1) by (simp add: power_add)
  then have d4: "4 dvd al" by simp
  define d r where "d = p div al" and "r = p mod al"
  have p: "p = d * al + r" "r < al" using assms(2) by (simp_all add: d_def r_def)
  show "q mod al = 0" using p by (auto simp: q_def)
  have "p + 4 \<le> q \<and> q \<le> p + al"
  proof (cases "r = 0")
    case True
    then show ?thesis using p assms(2) by (simp add: q_def)
  next
    case False
    have "(p + (al - 1)) div al = d + 1"
    proof -
      have "p + (al - 1) = (r - 1) + (d + 1) * al" using p False by (simp add: algebra_simps)
      moreover have "((r - 1) + (d + 1) * al) div al = (d + 1) + (r - 1) div al"
        by (rule div_mult_self1) (use assms(2) in simp)
      moreover have "(r - 1) div al = 0" using p(2) by simp
      ultimately show ?thesis by simp
    qed
    moreover have "p mod al \<noteq> 0" using False by (simp add: r_def)
    ultimately have q: "q = (d + 1) * al" by (simp add: q_def)
    then have "4 dvd q" "4 dvd p" using d4 assms(3) by (auto simp: mod_eq_0_iff_dvd)
    moreover have "p < q" "q \<le> p + al" using p False unfolding q by (auto simp: algebra_simps)
    ultimately show ?thesis by presburger
  qed
  then show "p + 4 \<le> q" "q \<le> p + al" by auto
qed

section \<open>Correctness\<close>

lemma unat_power2: "i < 32 \<Longrightarrow> unat (2 ^ i :: u32) = 2 ^ i"
proof -
  assume i: "i < 32"
  then have "(2 :: nat) ^ i < 2 ^ 32" by (intro power_strict_increasing) auto
  then have "unat (of_nat (2 ^ i) :: u32) = 2 ^ i"
    using i by (simp add: unsigned_of_nat take_bit_nat_eq_self del: of_nat_power)
  then show ?thesis by simp
qed

lemma unat_aligned:
  fixes p al :: u32
  assumes "al = 2 ^ i" "i < 32" "unat p + unat al < 2 ^ 32"
  shows "unat (if p AND (al - 1) = 0 then p + al else (p + (al - 1)) AND NOT (al - 1)) =
    (if unat p mod unat al = 0 then unat p + unat al else (unat p + (unat al - 1)) div unat al * unat al)"
proof -
  have m: "al - 1 = mask i" using assms(1) by (simp add: mask_eq_exp_minus_1)
  have al: "unat al = 2 ^ i" using assms(1,2) by (simp add: unat_power2)
  have "al \<noteq> 0" using al by auto
  then have "unat (al - 1) = 2 ^ i - 1" using al by (simp add: unat_minus_one)
  then have "unat (p + mask i) = unat p + (2 ^ i - 1)"
    using assms(3) al unfolding m[symmetric] by (simp add: unat_plus_if')
  then show ?thesis using assms(3) unfolding m by (simp add: and_mask_0 unat_and_not_mask al unat_plus_if')
qed

lemma live_mod_4:
  assumes "heap_is h bs" "(p, k) \<in> live (heap_ptr h) bs"
  shows "p mod 4 = 0"
proof -
  obtain xs ys where "bs = xs @ (k, True) # ys" "p = heap_ptr h + lsize xs + 12"
    using live_split[OF assms(2)] by blast
  moreover have "lsize xs mod 4 = 0" using assms(1) calculation lsize_mod[of xs] by (simp add: heap_is_def)
  moreover have "heap_ptr h mod 4 = 0" using assms(1) by (simp add: heap_is_def)
  ultimately show ?thesis by presburger
qed

lemma heap_is_data [simp]: "heap_is (h\<lparr>heap_data := d\<rparr>) bs = heap_is h bs"
  by (simp add: heap_is_def)

text \<open>
  For an alignment that is a power of two and at least 4: either no memory, or an aligned address
  with the size requested behind it, all inside one fresh block that \<open>rt_free_align\<close> finds again.
\<close>

lemma rt_malloc_align_ok:
  fixes sz al :: u32
  assumes h: "heap_is h bs" and al: "al = 2 ^ i" "2 \<le> i" "i < 32" and small: "unat sz + unat al + 6 < 2 ^ 32"
  obtains (null) "rt_malloc_align sz al h = Some (RT_NULL, h)"
  | (block) q p k h' bs' where "rt_malloc_align sz al h = Some (q, h')" "q mod unat al = 0" "p + 4 \<le> q"
      "q + unat sz \<le> p + k" "heap_is h' bs'" "live (heap_ptr h) bs' = insert (p, k) (live (heap_ptr h) bs)"
      "\<And>r j. (r, j) \<in> live (heap_ptr h) bs \<Longrightarrow> r + j + 12 \<le> p \<or> p + k + 12 \<le> r"
      "\<And>x. x < p \<or> p + k \<le> x \<Longrightarrow> heap_data h' x = heap_data h x" "rt_free_align q h' = rt_free p h'"
proof -
  define n where "n = ((sz + 3) AND NOT 3) + al"
  obtain j where "i = 2 + j" using al(2) le_Suc_ex by blast
  moreover have al': "unat al = 2 ^ i" using al by (simp add: unat_power2)
  ultimately have "unat al = 4 * 2 ^ j" by (simp add: power_add)
  then have "4 \<le> unat al" by simp
  note al' = al' this
  from \<open>unat al = 4 * 2 ^ j\<close>
  have "4 dvd unat al" by simp
  then have al4: "(al + 3) AND NOT 3 = al"
    using small unat_align_down[of "al + 3"] by (auto simp: word_unat_eq_iff unat_plus_if' elim!: dvdE)
  have n: "unat sz + unat al \<le> unat n" "unat n \<le> unat sz + 3 + unat al"
    using small unat_align_down[of "sz + 3"] by (auto simp: n_def unat_plus_if')
  have eq: "rt_malloc_align sz al h = (case rt_malloc n h of None \<Rightarrow> None | Some (ptr, h1) \<Rightarrow>
     if ptr \<noteq> RT_NULL then (let p = of_nat ptr :: u32;
       q = (if p AND (al - 1) = 0 then p + al else (p + (al - 1)) AND NOT (al - 1))
       in Some (unat q, h1\<lparr>heap_data := store32 (unat (q - 4)) p (heap_data h1)\<rparr>)) else Some (ptr, h1))"
    unfolding rt_malloc_align_def Let_def al4 n_def[symmetric] by (simp split: option.split)
  have "unat n + 3 < 2 ^ 32" using n small by simp
  from h this show ?thesis
  proof (cases rule: rt_malloc_ok)
    case null
    then show ?thesis using that(1) by (simp add: eq)
  next
    case (block p k h1 bs1)
    define w where "w = (of_nat p :: u32)"
    define q where "q = (if w AND (al - 1) = 0 then w + al else (w + (al - 1)) AND NOT (al - 1))"
    have live: "(p, k) \<in> live (heap_ptr h1) bs1" using block(6,7) by (simp add: heap_frame_def)
    have top: "p + k + 12 < 2 ^ 32"
      using live_bounds[OF live] block(5) by (simp add: heap_is_def)
    have w: "unat w = p" using top by (simp add: w_def unsigned_of_nat take_bit_nat_eq_self)
    have room: "p + unat al + unat sz \<le> p + k" using block(3) n by simp
    have q: "unat q mod unat al = 0" "p + 4 \<le> unat q" "unat q \<le> p + unat al"
      using aligned_room[of "unat al" i p] unat_aligned[of al i w] al(1,3) al' live_mod_4[OF block(5) live] top room
      unfolding q_def w by auto
    have q4: "unat (q - 4) = unat q - 4" using q(2) by (simp add: unat_sub word_le_nat_alt)
    show ?thesis
    proof (rule that(2))
      show "rt_malloc_align sz al h = Some (unat q, h1\<lparr>heap_data := store32 (unat q - 4) w (heap_data h1)\<rparr>)"
        using block(1,2) by (simp add: eq Let_def w_def[symmetric] q_def[symmetric] q4)
      show "rt_free_align (unat q) (h1\<lparr>heap_data := store32 (unat q - 4) w (heap_data h1)\<rparr>) = rt_free p (h1\<lparr>heap_data := store32 (unat q - 4) w (heap_data h1)\<rparr>)"
        by (simp add: rt_free_align_def q4 load_store32 w)
    qed (use q room block(5,6,7,8) in \<open>auto simp: heap_frame_def store32_elsewhere\<close>)
  qed
qed

text \<open>A duplicated string: no memory, or a copy in a fresh block, with every string elsewhere unchanged.\<close>

lemma rt_strdup_ok:
  assumes h: "heap_is h bs" and s: "cstr (heap_data h) s n" and small: "n + 4 < 2 ^ 32"
    and live: "(q, j) \<in> live (heap_ptr h) bs" "q \<le> s" "s + n < q + j"
  obtains (null) "rt_strdup s h = Some (RT_NULL, h)"
  | (copy) p k h' bs' where "rt_strdup s h = Some (p, h')" "p \<noteq> RT_NULL" "n < k" "heap_is h' bs'"
      "live (heap_ptr h) bs' = insert (p, k) (live (heap_ptr h) bs)" "cstr (heap_data h') p n" "cstr (heap_data h') s n"
      "\<And>i. i \<le> n \<Longrightarrow> heap_data h' (p + i) = heap_data h (s + i)"
proof -
  have u: "unat (of_nat (n + 1) :: u32) = n + 1"
    unfolding unsigned_of_nat using small by (simp add: take_bit_nat_eq_self)
  then have "unat (of_nat (n + 1) :: u32) + 3 < 2 ^ 32" using small by simp
  from h this show ?thesis
  proof (cases rule: rt_malloc_ok)
    case null
    then show ?thesis using that(1) rt_strlen_cstr[OF s] by (simp add: rt_strdup_def Let_def)
  next
    case (block p k h1 bs1)
    have far: "q + j + 12 \<le> p \<or> p + k + 12 \<le> q" using block(8) live(1) by simp
    have k: "n + 1 \<le> k" using block(3) u by simp
    have "clear p s (n + 1)" using far k live(2,3) by (auto simp: clear_def)
    note copy = rt_memcpy_blit[OF this]
    have d: "heap_data h1 = heap_data h" using block(6) by (simp add: heap_frame_def)
    show ?thesis
    proof (rule that(2)[of p _ k bs1])
      show "rt_strdup s h = Some (p, h1\<lparr>heap_data := blit p s (n + 1) (heap_data h)\<rparr>)"
        using rt_strlen_cstr[OF s] block(1,2) by (simp add: rt_strdup_def Let_def copy d del: One_nat_def)
    qed (use block(2,5,7) k far live(2,3) s in \<open>auto simp: blit_def cstr_def\<close>)
  qed
qed

end
