(* ===== verification/Mempool.thy ===== *)
theory Mempool
  imports Ipc
begin

text \<open>
  Memory pools (\<open>src/mempool.c\<close>): blocks of one size, each behind a pointer-sized word that links
  the free blocks and names the pool of a block in use. A thread that finds no block waits in the
  pool's suspend list; the pool counts its waiters separately from that list.
\<close>

section \<open>State\<close>

record mempool =
  mp_start :: nat
  mp_size :: u32
  mp_block_size :: u32
  mp_block_list :: "nat option"
  mp_total :: u32
  mp_free :: u32
  mp_suspend_count :: u32

text \<open>The word in front of a block: the next free block, or the pool that the block belongs to.\<close>

datatype mp_word = Link "nat option" | Pool nat

record kpool = kipc +
  k_mp :: "nat \<Rightarrow> mempool"
  k_mp_word :: "nat \<Rightarrow> mp_word"

definition set_mp :: "nat \<Rightarrow> mempool \<Rightarrow> 'a kpool_scheme \<Rightarrow> 'a kpool_scheme" where
  "set_mp a m k = k\<lparr>k_mp := (k_mp k)(a := m)\<rparr>"

definition set_mp_word :: "nat \<Rightarrow> mp_word \<Rightarrow> 'a kpool_scheme \<Rightarrow> 'a kpool_scheme" where
  "set_mp_word b w k = k\<lparr>k_mp_word := (k_mp_word k)(b := w)\<rparr>"

section \<open>Operations\<close>

text \<open>The loop that links the blocks; the last one is then given the null link.\<close>

primrec mp_link_blocks :: "nat \<Rightarrow> nat \<Rightarrow> nat \<Rightarrow> (nat \<Rightarrow> mp_word) \<Rightarrow> nat \<Rightarrow> mp_word" where
  "mp_link_blocks start step 0 w = w"
| "mp_link_blocks start step (Suc n) w =
     (mp_link_blocks start step n w)(start + n * step := Link (Some (start + (n + 1) * step)))"

text \<open>
  The common part of \<open>rt_mp_init\<close> and \<open>rt_mp_create\<close>. Without a block the null link would be
  written in front of the pool, which is the failure \<open>None\<close>.
\<close>

definition mp_setup :: "nat \<Rightarrow> nat \<Rightarrow> u32 \<Rightarrow> u32 \<Rightarrow> u32 \<Rightarrow> 'a kpool_scheme \<Rightarrow> 'a kpool_scheme option" where
  "mp_setup a start sz bsize cnt k =
    (let step = unat (bsize + 4); n = unat cnt; k1 = rt_ipc_object_init a k in do {
     rt_assert (0 < n);
     Some (k1\<lparr>k_mp := (k_mp k1)(a := \<lparr>mp_start = start, mp_size = sz, mp_block_size = bsize, mp_block_list = Some start,
         mp_total = cnt, mp_free = cnt, mp_suspend_count = 0\<rparr>),
       k_mp_word := (mp_link_blocks start step n (k_mp_word k1))(start + (n - 1) * step := Link None)\<rparr>)
   })"

definition rt_mp_init ::
    "nat \<Rightarrow> u8 list \<Rightarrow> nat \<Rightarrow> u32 \<Rightarrow> u32 \<Rightarrow> 'a kpool_scheme \<Rightarrow> (rt_err \<times> 'a kpool_scheme) option" where
  "rt_mp_init a name start sz block_size k = do {
     rt_assert (0 < sz \<and> 0 < block_size);
     k1 \<leftarrow> rt_object_init (IpcObj a) RT_Object_Class_MemPool name k;
     let sz1 = sz AND NOT 3;
     let bsize = rt_align block_size;
     k2 \<leftarrow> mp_setup a start sz1 bsize (sz1 div (bsize + 4)) k1;
     Some (RT_EOK, k2)
   }"

text \<open>Every waiter is resumed with an error and counted down.\<close>

definition mp_resume_all :: "nat \<Rightarrow> 'a kpool_scheme \<Rightarrow> 'a kpool_scheme option" where
  "mp_resume_all a k = do {
     k1 \<leftarrow> rt_ipc_list_resume_all (Pend a) k;
     let m = k_mp k1 a;
     Some (set_mp a (m\<lparr>mp_suspend_count := mp_suspend_count m - of_nat (length (k_queues k (Pend a)))\<rparr>) k1)
   }"

definition rt_mp_detach :: "nat \<Rightarrow> 'a kpool_scheme \<Rightarrow> (rt_err \<times> 'a kpool_scheme) option" where
  "rt_mp_detach a k = do {
     rt_assert (ipc_is RT_Object_Class_MemPool a k);
     rt_assert (rt_object_is_systemobject (IpcObj a) k);
     k1 \<leftarrow> mp_resume_all a k;
     Some (RT_EOK, rt_object_detach (IpcObj a) k1)
   }"

text \<open>\<open>mem\<close> is the control block and \<open>start\<close> the blocks, where the heap has them.\<close>

definition rt_mp_create ::
    "nat option \<Rightarrow> nat option \<Rightarrow> u8 list \<Rightarrow> u32 \<Rightarrow> u32 \<Rightarrow> 'a kpool_scheme \<Rightarrow> (nat option \<times> 'a kpool_scheme) option" where
  "rt_mp_create mem start name block_count block_size k = do {
     rt_assert (k_irq_nest k = 0);
     rt_assert (0 < block_count \<and> 0 < block_size);
     (_, k1) \<leftarrow> rt_object_allocate (map_option IpcObj mem) RT_Object_Class_MemPool name k;
     let bsize = rt_align block_size;
     (case mem of None \<Rightarrow> Some (None, k1)
      | Some a \<Rightarrow> (case start of
          None \<Rightarrow> do { k2 \<leftarrow> rt_object_delete (IpcObj a) k1; Some (None, k2) }
        | Some s \<Rightarrow> do { k2 \<leftarrow> mp_setup a s ((bsize + 4) * block_count) bsize block_count k1; Some (Some a, k2) }))
   }"

definition rt_mp_delete :: "nat \<Rightarrow> 'a kpool_scheme \<Rightarrow> (rt_err \<times> 'a kpool_scheme) option" where
  "rt_mp_delete a k = do {
     rt_assert (k_irq_nest k = 0);
     rt_assert (ipc_is RT_Object_Class_MemPool a k);
     rt_assert (\<not> rt_object_is_systemobject (IpcObj a) k);
     k1 \<leftarrow> mp_resume_all a k;
     k2 \<leftarrow> rt_object_delete (IpcObj a) k1;
     Some (RT_EOK, k2)
   }"

text \<open>The waiter is linked right behind the list head, in front of those that wait longer.\<close>

definition mp_wait :: "nat \<Rightarrow> nat \<Rightarrow> 32 word \<Rightarrow> 'a kpool_scheme \<Rightarrow> 'a kpool_scheme option" where
  "mp_wait a t time k = do {
     (e, k1) \<leftarrow> rt_thread_suspend t k;
     rt_assert (e = RT_EOK);
     let k2 = k1\<lparr>k_queues := (k_queues k1)(Pend a := t # k_queues k1 (Pend a))\<rparr>;
     let m = k_mp k2 a;
     let k3 = set_mp a (m\<lparr>mp_suspend_count := mp_suspend_count m + 1\<rparr>) k2;
     if 0 < sint time then arm_timer t time k3 else Some k3
   }"

text \<open>The loop of \<open>rt_mp_alloc\<close>: one turn, which takes a block, gives up or blocks.\<close>

definition rt_mp_alloc :: "nat \<Rightarrow> 32 word \<Rightarrow> 'a kpool_scheme \<Rightarrow> (nat option, 'a kpool_scheme) call option" where
  "rt_mp_alloc a time k =
    (let m = k_mp k a in
     if mp_free m = 0 then
       (if time = 0 then Some (Done None k)
        else do {
          rt_assert (k_irq_nest k = 0);
          t \<leftarrow> rt_thread_self k;
          k1 \<leftarrow> mp_wait a t time (set_error RT_EOK t k);
          k2 \<leftarrow> rt_schedule k1;
          Some (Blocked k2)
        })
     else do {
       b \<leftarrow> mp_block_list m;
       nx \<leftarrow> (case k_mp_word k b of Link n \<Rightarrow> Some n | Pool p \<Rightarrow> None);
       let k1 = set_mp a (m\<lparr>mp_free := mp_free m - 1, mp_block_list := nx\<rparr>) k;
       Some (Done (Some (b + 4)) (set_mp_word b (Pool a) k1))
     })"

text \<open>What a caller that had to wait since tick \<open>since\<close> does when its thread runs again.\<close>

definition rt_mp_alloc_return ::
    "nat \<Rightarrow> nat \<Rightarrow> 32 word \<Rightarrow> u32 \<Rightarrow> 'a kpool_scheme \<Rightarrow> (nat option, 'a kpool_scheme) call option" where
  "rt_mp_alloc_return a t time since k =
    (if th_error (k_threads k t) \<noteq> RT_EOK then Some (Done None k)
     else rt_mp_alloc a (time_left time since (k_tick k)) k)"

definition rt_mp_free :: "nat \<Rightarrow> 'a kpool_scheme \<Rightarrow> 'a kpool_scheme option" where
  "rt_mp_free block k =
    (if block = 0 then Some k
     else do {
       let b = block - 4;
       a \<leftarrow> (case k_mp_word k b of Pool p \<Rightarrow> Some p | Link n \<Rightarrow> None);
       let m = k_mp k a;
       let k1 = set_mp_word b (Link (mp_block_list m)) k;
       let k2 = set_mp a (m\<lparr>mp_free := mp_free m + 1, mp_block_list := Some b\<rparr>) k1;
       if 0 < mp_suspend_count m then do {
         t \<leftarrow> (case k_queues k2 (Pend a) of [] \<Rightarrow> None | t # _ \<Rightarrow> Some t);
         (_, k3) \<leftarrow> rt_thread_resume t (set_error RT_EOK t k2);
         let m3 = k_mp k3 a;
         rt_schedule (set_mp a (m3\<lparr>mp_suspend_count := mp_suspend_count m3 - 1\<rparr>) k3)
       } else Some k2
     })"

section \<open>The free blocks\<close>

fun mp_chain :: "(nat \<Rightarrow> mp_word) \<Rightarrow> nat option \<Rightarrow> nat list \<Rightarrow> bool" where
  "mp_chain w p [] = (p = None)"
| "mp_chain w p (b # bs) = (p = Some b \<and> (case w b of Link n \<Rightarrow> mp_chain w n bs | Pool q \<Rightarrow> False))"

definition mp_ok :: "nat \<Rightarrow> nat list \<Rightarrow> 'a kpool_scheme \<Rightarrow> bool" where
  "mp_ok a bs k \<longleftrightarrow> distinct bs \<and> mp_chain (k_mp_word k) (mp_block_list (k_mp k a)) bs \<and>
     unat (mp_free (k_mp k a)) = length bs"

lemma mp_chain_upd [simp]: "b \<notin> set bs \<Longrightarrow> mp_chain (w(b := v)) p bs = mp_chain w p bs"
  by (induction w p bs rule: mp_chain.induct) (auto split: mp_word.splits)

lemma mp_free_none: "mp_ok a [] k \<longleftrightarrow> mp_free (k_mp k a) = 0 \<and> mp_block_list (k_mp k a) = None"
  by (auto simp: mp_ok_def unat_eq_zero)

lemma rt_mp_alloc_ok:
  assumes "mp_ok a (b # bs) k"
  obtains k' where "rt_mp_alloc a time k = Some (Done (Some (b + 4)) k')" "mp_ok a bs k'" "k_mp_word k' b = Pool a"
    "mp_suspend_count (k_mp k' a) = mp_suspend_count (k_mp k a)"
    "mp_suspend_count (k_mp k a) = 0 \<Longrightarrow> rt_mp_free (b + 4) k' = Some k"
proof -
  let ?m = "k_mp k a"
  obtain n where n: "k_mp_word k b = Link n" "mp_chain (k_mp_word k) n bs" "mp_block_list ?m = Some b"
      "b \<notin> set bs" "distinct bs" "unat (mp_free ?m) = Suc (length bs)"
    using assms by (auto simp: mp_ok_def split: mp_word.splits)
  let ?k' = "set_mp_word b (Pool a) (set_mp a (?m\<lparr>mp_free := mp_free ?m - 1, mp_block_list := n\<rparr>) k)"
  have f0: "mp_free ?m \<noteq> 0" using n(6) by auto
  then have "unat (mp_free ?m - 1) = length bs" using n(6) unat_minus_one[of "mp_free ?m"] by simp
  then have ok: "mp_ok a bs ?k'" using n by (simp add: mp_ok_def set_mp_def set_mp_word_def)
  have undone: "rt_mp_free (b + 4) ?k' = Some k" if "mp_suspend_count ?m = 0"
    using that n by (cases k) (auto simp: rt_mp_free_def set_mp_def set_mp_word_def fun_upd_idem_iff)
  show ?thesis
    by (rule that[of ?k']) (use f0 n ok undone in \<open>simp_all add: rt_mp_alloc_def set_mp_def set_mp_word_def Let_def\<close>)
qed

section \<open>A new pool\<close>

lemma mp_link_blocks_at:
  "0 < step \<Longrightarrow> mp_link_blocks start step n w (start + i * step) =
     (if i < n then Link (Some (start + (i + 1) * step)) else w (start + i * step))"
  by (induction n) auto

lemma mp_chain_blocks:
  assumes "\<And>j. j < n \<Longrightarrow> w (start + j * step) = Link (if j + 1 < n then Some (start + (j + 1) * step) else None)"
    "0 < m" "m \<le> n"
  shows "mp_chain w (Some (start + (n - m) * step)) (map (\<lambda>i. start + i * step) [n - m..<n])"
  using assms(2,3)
proof (induction m)
  case (Suc m)
  have w: "w (start + (n - Suc m) * step) = Link (if 0 < m then Some (start + (n - m) * step) else None)"
    using assms(1)[of "n - Suc m"] Suc.prems by (cases m) (auto simp: Suc_diff_Suc)
  have l: "[n - Suc m..<n] = (n - Suc m) # [n - m..<n]" using Suc.prems by (simp add: upt_conv_Cons Suc_diff_Suc)
  show ?case
  proof (cases m)
    case 0
    then show ?thesis unfolding l using w by simp
  next
    case (Suc m')
    then show ?thesis unfolding l using w Suc.IH \<open>Suc m \<le> n\<close> by simp
  qed
qed simp

text \<open>The blocks of the pool lie one behind the other from its start, each behind its word.\<close>

lemma mp_setup_ok:
  assumes n: "0 < cnt" and step: "unat bsize + 4 < 2 ^ 32"
  shows "\<exists>k'. mp_setup a start sz bsize cnt k = Some k' \<and>
    mp_ok a (map (\<lambda>i. start + i * (unat bsize + 4)) [0..<unat cnt]) k' \<and> k_queues k' (Pend a) = [] \<and>
    mp_suspend_count (k_mp k' a) = 0"
proof -
  have st: "unat (bsize + 4) = unat bsize + 4" using step by (simp add: unat_plus_if')
  let ?n = "unat cnt" and ?s = "unat bsize + 4" and ?w = "k_mp_word (rt_ipc_object_init a k)"
  have n0: "0 < ?n" using n by (simp add: word_less_nat_alt)
  let ?W = "(mp_link_blocks start ?s ?n ?w)(start + (?n - 1) * ?s := Link None)"
  have "?W (start + j * ?s) = Link (if j + 1 < ?n then Some (start + (j + 1) * ?s) else None)" if "j < ?n" for j
    using that mp_link_blocks_at[of ?s start ?n ?w j] by (auto simp: add_mult_distrib)
  then have "mp_chain ?W (Some start) (map (\<lambda>i. start + i * ?s) [0..<?n])"
    using mp_chain_blocks[of ?n ?W start ?s ?n] n0 by simp
  moreover have "distinct (map (\<lambda>i. start + i * ?s) [0..<?n])" by (simp add: distinct_map inj_on_def)
  ultimately show ?thesis
    using n0 by (simp add: mp_setup_def st mp_ok_def Let_def rt_ipc_object_init_def)
qed

section \<open>Waiting for a block\<close>

lemma kpool_sys_inv [simp]:
  "sys_inv X (set_mp a m k) \<longleftrightarrow> sys_inv X k" "sys_inv X (set_mp_word b w k) \<longleftrightarrow> sys_inv X k"
  by (simp_all add: set_mp_def set_mp_word_def sys_inv_def threads_inv_def sched_inv_def thread_ok_def group_ok_def
      mask_ok_def prio_of_def cur_ok_def timer_inv_def periods_ok_def thread_wf_def due_def periodic_def timer_flag_def
      is_timer_def is_thread_def rt_object_get_type_def cong: ball_cong map_cong)

lemma set_mp_simps [simp]:
  "k_queues (set_mp a m k) = k_queues k" "k_threads (set_mp a m k) = k_threads k" "k_current (set_mp a m k) = k_current k"
  "k_irq_nest (set_mp a m k) = k_irq_nest k" "k_mp (set_mp a m k) = (k_mp k)(a := m)" "k_mp_word (set_mp a m k) = k_mp_word k"
  "k_queues (set_mp_word b w k) = k_queues k" "k_threads (set_mp_word b w k) = k_threads k"
  "k_current (set_mp_word b w k) = k_current k" "k_mp (set_mp_word b w k) = k_mp k"
  "k_mp_word (set_mp_word b w k) = (k_mp_word k)(b := w)" "k_timer_list (set_mp a m k) = k_timer_list k"
  by (simp_all add: set_mp_def set_mp_word_def)

lemma kpool_more:
  assumes "ktimer.more k' = ktimer.more k"
  shows "k_mp k' = k_mp k" "k_mp_word k' = k_mp_word k"
proof -
  have "kipc.more k' = kipc.more k" by (rule kipc_more(6)[OF assms])
  then show "k_mp k' = k_mp k" "k_mp_word k' = k_mp_word k" by (cases k; cases k'; simp)+
qed

lemma mp_wait_ok:
  assumes inv: "sys_inv {} k" and s: "tstat k t = RT_THREAD_RUNNING" and tm: "time \<noteq> 0x7fffffff"
  obtains k' where "mp_wait a t time k = Some k'" "sys_inv {} k'" "k_queues k' (Pend a) = t # k_queues k (Pend a)"
    "k_threads k' = (k_threads k)(t := set_stat RT_THREAD_SUSPEND (k_threads k t))"
    "k_mp k' = (k_mp k)(a := (k_mp k a)\<lparr>mp_suspend_count := mp_suspend_count (k_mp k a) + 1\<rparr>)" "k_mp_word k' = k_mp_word k"
    "0 < sint time \<Longrightarrow> ThreadTimer t \<in> set (k_timer_list k') \<and> due k' (ThreadTimer t) = sint time"
proof -
  have "tstat k t \<in> {RT_THREAD_READY, RT_THREAD_RUNNING}" using s by simp
  then obtain k1 k2 where k1: "rt_thread_suspend t k = Some (RT_EOK, k1)"
      "k2 = k1\<lparr>k_queues := (k_queues k1)(Pend a := t # k_queues k (Pend a))\<rparr>" "sys_inv {} k2" "k_queues k1 (Pend a) = k_queues k (Pend a)"
      "k_threads k2 = (k_threads k)(t := set_stat RT_THREAD_SUSPEND (k_threads k t))"
      "k_queues k2 = (q_remove t (k_queues k))(Pend a := t # k_queues k (Pend a))" "ktimer.more k2 = ktimer.more k"
    by (rule suspend_into_ok[OF inv, where l = "Pend a" and L = "t # k_queues k (Pend a)"]) auto
  let ?k3 = "set_mp a ((k_mp k2 a)\<lparr>mp_suspend_count := mp_suspend_count (k_mp k2 a) + 1\<rparr>) k2"
  have i3: "sys_inv {} ?k3" using k1(3) by simp
  have s3: "tstat ?k3 t = RT_THREAD_SUSPEND" using k1(5) by simp
  obtain k' where k': "(if 0 < sint time then arm_timer t time ?k3 else Some ?k3) = Some k'" "sys_inv {} k'"
    "k_threads k' = k_threads ?k3" "k_queues k' = k_queues ?k3"
    "0 < sint time \<Longrightarrow> ThreadTimer t \<in> set (k_timer_list k') \<and> due k' (ThreadTimer t) = sint time"
    "ktimer.more k' = ktimer.more ?k3"
    using arm_wait_ok[OF i3 s3 tm] by metis
  have "mp_wait a t time k = Some k'"
    using k1(1) k'(1) by (simp add: mp_wait_def Let_def k1(2) k1(4) cong: if_cong)
  then show ?thesis
    by (rule that) (use k1 k' kpool_more[OF k'(6)] kpool_more[OF k1(7)] in simp_all)
qed

lemma rt_mp_alloc_blocks:
  assumes inv: "sys_inv {} k" and c: "k_current k = Some t" "tstat k t = RT_THREAD_RUNNING" "k_irq_nest k = 0"
    and m: "mp_free (k_mp k a) = 0" and tm: "time \<noteq> 0" "time \<noteq> 0x7fffffff"
  obtains k' where "rt_mp_alloc a time k = Some (Blocked k')" "sys_inv {} k'" "tstat k' t = RT_THREAD_SUSPEND"
    "k_queues k' (Pend a) = t # k_queues k (Pend a)"
    "mp_suspend_count (k_mp k' a) = mp_suspend_count (k_mp k a) + 1" "k_mp_word k' = k_mp_word k"
    "0 < sint time \<Longrightarrow> ThreadTimer t \<in> set (k_timer_list k') \<and> due k' (ThreadTimer t) = sint time"
proof -
  let ?k = "set_error RT_EOK t k"
  have i: "sys_inv {} ?k" using inv by (simp add: set_error_sys)
  have s: "tstat ?k t = RT_THREAD_RUNNING" using c by (simp del: set_error_simps(1))
  note e = kpool_more[OF set_error_kipc(9)[of RT_EOK t k]]
  obtain k1 where k1: "mp_wait a t time ?k = Some k1" "sys_inv {} k1" "k_queues k1 (Pend a) = t # k_queues ?k (Pend a)"
    "k_threads k1 = (k_threads ?k)(t := set_stat RT_THREAD_SUSPEND (k_threads ?k t))"
    "k_mp k1 = (k_mp ?k)(a := (k_mp ?k a)\<lparr>mp_suspend_count := mp_suspend_count (k_mp ?k a) + 1\<rparr>)" "k_mp_word k1 = k_mp_word ?k"
    "0 < sint time \<Longrightarrow> ThreadTimer t \<in> set (k_timer_list k1) \<and> due k1 (ThreadTimer t) = sint time"
    using mp_wait_ok[OF i s tm(2)] by metis
  obtain k' where k': "rt_schedule k1 = Some k'" "sys_inv {} k'" "sched_frame k1 k'" "ksched.more k' = ksched.more k1"
    by (rule schedule_sys[OF k1(2)])
  have st: "tstat k1 t = RT_THREAD_SUSPEND" using k1(4) by simp
  have "k_threads k' t = k_threads k1 t" by (rule frame_stat(2)[OF k'(3)]) (simp add: st)
  moreover have "rt_mp_alloc a time k = Some (Blocked k')"
    using c m tm(1) k1(1) k'(1) by (simp add: rt_mp_alloc_def rt_thread_self_def Let_def)
  moreover have "k_timer_list k' = k_timer_list k1" "due k' = due k1" "ktimer.more k' = ktimer.more k1"
    using more_fields[OF k'(4)] more_preds[OF k'(4)] by simp_all
  ultimately show ?thesis
    by (intro that[of k']) (use k' k1 st e frame_queue[OF k'(3), of "Pend a"] kpool_more[of k' k1] in simp_all)
qed

lemma rt_mp_free_wakes:
  assumes inv: "sys_inv {} k" and q: "k_queues k (Pend a) = t # ts" and b: "k_mp_word k b = Pool a" "b \<notin> set bs"
    and m: "0 < mp_suspend_count (k_mp k a)" and ok: "mp_ok a bs k" "mp_free (k_mp k a) \<noteq> 0xFFFFFFFF"
  obtains k' where "rt_mp_free (b + 4) k = Some k'" "sys_inv {} k'" "k_queues k' (Pend a) = ts" "mp_ok a (b # bs) k'"
    "tstat k' t \<in> {RT_THREAD_READY, RT_THREAD_RUNNING}" "th_error (k_threads k' t) = RT_EOK"
    "mp_suspend_count (k_mp k' a) = mp_suspend_count (k_mp k a) - 1"
proof -
  let ?m = "k_mp k a"
  let ?k2 = "set_mp a (?m\<lparr>mp_free := mp_free ?m + 1, mp_block_list := Some b\<rparr>) (set_mp_word b (Link (mp_block_list ?m)) k)"
  let ?e = "set_error RT_EOK t ?k2"
  have i: "sys_inv {} ?e" using inv by (simp add: set_error_sys)
  have qe: "k_queues ?e (Pend a) = t # ts" using q by simp
  note me = kpool_more[OF set_error_kipc(9)[of RT_EOK t ?k2]]
  obtain k3 where k3: "rt_ipc_list_resume (Pend a) ?e = Some k3" "sys_inv {} k3"
    "k_threads k3 = (k_threads ?e)(t := set_stat (back_stat t ?e) (k_threads ?e t))"
    "k_queues k3 (Pend a) = ts" "ktimer.more k3 = ktimer.more ?e"
    using rt_ipc_list_resume_ok[OF i wait_head_simps(1) qe] by metis
  then obtain r where r: "rt_thread_resume t ?e = Some (r, k3)" using qe by (auto simp: rt_ipc_list_resume_def)
  let ?k4 = "set_mp a ((k_mp k3 a)\<lparr>mp_suspend_count := mp_suspend_count (k_mp k3 a) - 1\<rparr>) k3"
  have i4: "sys_inv {} ?k4" using k3(2) by simp
  obtain k' where k': "rt_schedule ?k4 = Some k'" "sys_inv {} k'" "sched_frame ?k4 k'" "ksched.more k' = ksched.more ?k4"
    by (rule schedule_sys[OF i4])
  have m3: "k_mp k3 = k_mp ?k2" "k_mp_word k3 = k_mp_word ?k2" using kpool_more[OF k3(5)] me by simp_all
  have mk: "k_mp k' = k_mp ?k4" "k_mp_word k' = k_mp_word ?k4"
    using kpool_more more_fields[OF k'(4)] by blast+
  have "tstat ?k4 t \<in> {RT_THREAD_READY, RT_THREAD_RUNNING}" using k3(3) by (simp add: back_stat_def)
  then have st: "tstat k' t \<in> {RT_THREAD_READY, RT_THREAD_RUNNING}" using frame_stat(3)[OF k'(3), of t] by blast
  have er: "th_error (k_threads k' t) = RT_EOK" using frame_stat(4)[OF k'(3), of t] k3(3) by simp
  have "unat (mp_free ?m) \<noteq> 2 ^ 32 - 1" using ok(2) by (simp add: word_unat_eq_iff)
  then have "unat (mp_free ?m + 1) = Suc (unat (mp_free ?m))"
    using unsigned_less[of "mp_free ?m", where 'a = nat] by (simp add: unat_plus_if')
  then have "mp_ok a (b # bs) k'" using ok(1) b(2) by (simp add: mp_ok_def mk m3)
  moreover have "rt_mp_free (b + 4) k = Some k'" using b(1) q m r k'(1) by (simp add: rt_mp_free_def Let_def)
  ultimately show ?thesis
    by (intro that[of k'] k'(2) st er) (use frame_queue[OF k'(3), of "Pend a"] k3(4) in \<open>simp_all add: mk m3\<close>)
qed

text \<open>
  A timeout takes the thread out of the suspend list and leaves the count, so that the next
  \<open>rt_mp_free\<close> takes the list head itself for a thread.
\<close>

lemma rt_mp_free_after_timeout:
  assumes inv: "sys_inv {} k" and q: "k_queues k (Pend a) = [t]" and l: "ThreadTimer t \<notin> set (k_timer_list k)"
    and m: "0 < mp_suspend_count (k_mp k a)"
  obtains k' where "rt_thread_timeout t k = Some k'" "sys_inv {} k'" "k_queues k' (Pend a) = []"
    "k_mp k' = k_mp k" "k_mp_word k' = k_mp_word k"
    "\<And>b. k_mp_word k b = Pool a \<Longrightarrow> rt_mp_free (b + 4) k' = None"
proof -
  have s: "tstat k t = RT_THREAD_SUSPEND" by (rule waiting_suspended[OF inv wait_head_simps(1)[of a]]) (simp add: q)
  obtain k1 k' where k': "rt_thread_timeout t k = Some k'" "sys_inv {} k'" "sched_frame k1 k'"
    "k_queues k1 = (if k_current k = Some t then q_remove t (k_queues k)
                    else q_push_back (Ready (prio_of k t)) t (q_remove t (k_queues k)))" "ksched.more k' = ksched.more k"
    using rt_thread_timeout_ok[OF inv s l] by metis
  have qe: "k_queues k' (Pend a) = []" using frame_queue[OF k'(3), of "Pend a"] k'(4) q by simp
  have mk: "k_mp k' = k_mp k" "k_mp_word k' = k_mp_word k" using kpool_more more_fields[OF k'(5)] by blast+
  show ?thesis by (rule that[OF k'(1,2) qe mk]) (use qe m in \<open>simp add: rt_mp_free_def Let_def mk\<close>)
qed

end
