(* ===== verification/FinshVm.thy ===== *)
theory FinshVm
  imports Prelude "HOL-Library.Signed_Division"
begin

text \<open>
  The virtual machine of the FinSH shell (\<open>components/finsh/finsh_ops.c\<close>, \<open>finsh_vm.c\<close> and the
  data of \<open>finsh_vm.h\<close>). A stack slot is the 32-bit union \<open>finsh_value\<close>: an operation on its
  byte or its half-word leaves the other bytes of the slot as they were. On the Cortex-M4
  \<open>char\<close> is unsigned, \<open>short\<close> and \<open>long\<close> are signed and memory is little-endian. \<open>None\<close> is what
  the C code leaves undefined: an access outside the stack or the text segment, an
  operation code without an entry, a division by zero or overflowing, a shift by a count
  outside 0 to 31. Memory is the part of the address space the shell's variables live in,
  apart from the machine's own arrays; an access outside it is undefined as well. The
  functions of the program that a shell line calls through their addresses are the
  parameter \<open>fcall\<close>.
\<close>

section \<open>Slots and memory\<close>

datatype width = B8 | B16 | B32

fun nbytes :: "width \<Rightarrow> nat" where
  "nbytes B8 = 1"
| "nbytes B16 = 2"
| "nbytes B32 = 4"

type_synonym fmem = "u32 \<Rightarrow> u8 option"
type_synonym fcalls = "u32 \<Rightarrow> u32 list \<Rightarrow> fmem \<Rightarrow> (u32 \<times> fmem) option"

text \<open>Reading a member of the union, and assigning to it.\<close>

fun member :: "width \<Rightarrow> u32 \<Rightarrow> int" where
  "member B8 s = uint (ucast s :: u8)"
| "member B16 s = sint (ucast s :: u16)"
| "member B32 s = sint s"

fun set_member :: "width \<Rightarrow> int \<Rightarrow> u32 \<Rightarrow> u32" where
  "set_member B8 i s = (s AND NOT 0xFF) OR (word_of_int i AND 0xFF)"
| "set_member B16 i s = (s AND NOT 0xFFFF) OR (word_of_int i AND 0xFFFF)"
| "set_member B32 i s = word_of_int i"

text \<open>The value a C object of the width holds after an integer was assigned to it.\<close>

fun wrap :: "width \<Rightarrow> int \<Rightarrow> int" where
  "wrap B8 i = uint (word_of_int i :: u8)"
| "wrap B16 i = sint (word_of_int i :: u16)"
| "wrap B32 i = sint (word_of_int i :: u32)"

fun rd_mem :: "nat \<Rightarrow> fmem \<Rightarrow> u32 \<Rightarrow> int option" where
  "rd_mem 0 m a = Some 0"
| "rd_mem (Suc n) m a = do { b \<leftarrow> m a; r \<leftarrow> rd_mem n m (a + 1); Some (uint b + 256 * r) }"

fun wr_mem :: "nat \<Rightarrow> fmem \<Rightarrow> u32 \<Rightarrow> int \<Rightarrow> fmem option" where
  "wr_mem 0 m a i = Some m"
| "wr_mem (Suc n) m a i = do { b \<leftarrow> m a; wr_mem n (m(a \<mapsto> word_of_int i)) (a + 1) (i div 256) }"

definition load :: "width \<Rightarrow> fmem \<Rightarrow> u32 \<Rightarrow> int option" where
  "load w m a = rd_mem (nbytes w) m a"

definition store :: "width \<Rightarrow> fmem \<Rightarrow> u32 \<Rightarrow> int \<Rightarrow> fmem option" where
  "store w m a i = wr_mem (nbytes w) m a i"

section \<open>The machine\<close>

definition FINSH_STACK_MAX :: nat where "FINSH_STACK_MAX = 64"
definition FINSH_TEXT_MAX :: nat where "FINSH_TEXT_MAX = 128"

record vm =
  v_stk :: "u32 list"
  v_sp :: nat
  v_pc :: nat
  v_mem :: fmem

text \<open>\<open>FINSH_GET16\<close> and \<open>FINSH_GET32\<close> on the text segment.\<close>

fun get_le :: "u8 list \<Rightarrow> int" where
  "get_le [] = 0"
| "get_le (b # bs) = uint b + 256 * get_le bs"

definition fetch :: "nat \<Rightarrow> u8 list \<Rightarrow> nat \<Rightarrow> int option" where
  "fetch n code pc = (if pc + n \<le> size code then Some (get_le (take n (drop pc code))) else None)"

definition push :: "width \<Rightarrow> int \<Rightarrow> vm \<Rightarrow> vm option" where
  "push w i v = (if v_sp v < FINSH_STACK_MAX
     then Some (v\<lparr>v_stk := (v_stk v)[v_sp v := set_member w i (v_stk v ! v_sp v)], v_sp := v_sp v + 1\<rparr>)
     else None)"

section \<open>Operations\<close>

definition OP_no_op :: "vm \<Rightarrow> vm option" where "OP_no_op v = Some v"

definition OP_bin :: "(int \<Rightarrow> int \<Rightarrow> int option) \<Rightarrow> width \<Rightarrow> vm \<Rightarrow> vm option" where
  "OP_bin f w v = (if 2 \<le> v_sp v then do {
     let a = v_stk v ! (v_sp v - 2);
     r \<leftarrow> f (member w a) (member w (v_stk v ! (v_sp v - 1)));
     Some (v\<lparr>v_stk := (v_stk v)[v_sp v - 2 := set_member w r a], v_sp := v_sp v - 1\<rparr>) }
   else None)"

definition c_div :: "int \<Rightarrow> int \<Rightarrow> int option" where
  "c_div a b = (if b = 0 \<or> a = - (2 ^ 31) \<and> b = - 1 then None else Some (a sdiv b))"

definition c_mod :: "int \<Rightarrow> int \<Rightarrow> int option" where
  "c_mod a b = (if b = 0 \<or> a = - (2 ^ 31) \<and> b = - 1 then None else Some (a smod b))"

definition c_shl :: "int \<Rightarrow> int \<Rightarrow> int option" where
  "c_shl a b = (if 0 \<le> b \<and> b < 32 then Some (a * 2 ^ nat b) else None)"

definition c_shr :: "int \<Rightarrow> int \<Rightarrow> int option" where
  "c_shr a b = (if 0 \<le> b \<and> b < 32 then Some (a div 2 ^ nat b) else None)"

definition OP_add :: "width \<Rightarrow> vm \<Rightarrow> vm option" where "OP_add = OP_bin (\<lambda>a b. Some (a + b))"
definition OP_sub :: "width \<Rightarrow> vm \<Rightarrow> vm option" where "OP_sub = OP_bin (\<lambda>a b. Some (a - b))"
definition OP_div :: "width \<Rightarrow> vm \<Rightarrow> vm option" where "OP_div = OP_bin c_div"
definition OP_mod :: "width \<Rightarrow> vm \<Rightarrow> vm option" where "OP_mod = OP_bin c_mod"
definition OP_mul :: "width \<Rightarrow> vm \<Rightarrow> vm option" where "OP_mul = OP_bin (\<lambda>a b. Some (a * b))"
definition OP_and :: "width \<Rightarrow> vm \<Rightarrow> vm option" where "OP_and = OP_bin (\<lambda>a b. Some (a AND b))"
definition OP_or :: "width \<Rightarrow> vm \<Rightarrow> vm option" where "OP_or = OP_bin (\<lambda>a b. Some (a OR b))"
definition OP_xor :: "width \<Rightarrow> vm \<Rightarrow> vm option" where "OP_xor = OP_bin (\<lambda>a b. Some (a XOR b))"
definition OP_shl :: "width \<Rightarrow> vm \<Rightarrow> vm option" where "OP_shl = OP_bin c_shl"
definition OP_shr :: "width \<Rightarrow> vm \<Rightarrow> vm option" where "OP_shr = OP_bin c_shr"

text \<open>Replacement of the top of the stack.\<close>

definition top_slot :: "vm \<Rightarrow> u32" where "top_slot v = v_stk v ! (v_sp v - 1)"

definition set_top :: "width \<Rightarrow> int \<Rightarrow> vm \<Rightarrow> vm" where
  "set_top w i v = v\<lparr>v_stk := (v_stk v)[v_sp v - 1 := set_member w i (top_slot v)]\<rparr>"

definition OP_bw :: "width \<Rightarrow> vm \<Rightarrow> vm option" where
  "OP_bw w v = (if 1 \<le> v_sp v then Some (set_top w (NOT (member w (top_slot v))) v) else None)"

definition OP_ld :: "u8 list \<Rightarrow> width \<Rightarrow> vm \<Rightarrow> vm option" where
  "OP_ld code w v = do {
     i \<leftarrow> fetch (nbytes w) code (v_pc v);
     v \<leftarrow> push w i v;
     Some (v\<lparr>v_pc := v_pc v + nbytes w\<rparr>) }"

definition OP_ld_value :: "u8 list \<Rightarrow> width \<Rightarrow> vm \<Rightarrow> vm option" where
  "OP_ld_value code w v = do {
     c \<leftarrow> fetch 4 code (v_pc v);
     i \<leftarrow> load w (v_mem v) (word_of_int c);
     v \<leftarrow> push w i v;
     Some (v\<lparr>v_pc := v_pc v + 4\<rparr>) }"

definition OP_ld_value_stack :: "width \<Rightarrow> vm \<Rightarrow> vm option" where
  "OP_ld_value_stack w v = (if 1 \<le> v_sp v then do {
     i \<leftarrow> load w (v_mem v) (top_slot v);
     Some (set_top w i v) }
   else None)"

definition OP_st :: "width \<Rightarrow> vm \<Rightarrow> vm option" where
  "OP_st w v = (if 2 \<le> v_sp v then do {
     m \<leftarrow> store w (v_mem v) (v_stk v ! (v_sp v - 2)) (member w (v_stk v ! (v_sp v - 1)));
     Some (v\<lparr>v_mem := m, v_sp := v_sp v - 1\<rparr>) }
   else None)"

definition OP_pop :: "vm \<Rightarrow> vm option" where
  "OP_pop v = (if 1 \<le> v_sp v then Some (v\<lparr>v_sp := v_sp v - 1\<rparr>) else None)"

text \<open>
  The arguments were pushed after the address of the function, the last one on top; the
  array \<open>parameterv\<close> has 16 entries. A call without arguments passes one zero. The result
  takes the slot of the address.
\<close>

definition OP_call :: "fcalls \<Rightarrow> u8 list \<Rightarrow> vm \<Rightarrow> vm option" where
  "OP_call fcall code v = do {
     n \<leftarrow> fetch 1 code (v_pc v);
     let n = nat n;
     (if n \<le> 16 \<and> n + 1 \<le> v_sp v then do {
        let sp = v_sp v - 1 - n;
        let args = take n (drop (sp + 1) (v_stk v));
        (r, m) \<leftarrow> fcall (v_stk v ! sp) (if n = 0 then [0] else args) (v_mem v);
        Some (v\<lparr>v_stk := (v_stk v)[sp := r], v_sp := sp + 1, v_pc := v_pc v + 1, v_mem := m\<rparr>) }
      else None) }"

definition op_table :: "fcalls \<Rightarrow> u8 list \<Rightarrow> (vm \<Rightarrow> vm option) list" where
  "op_table fcall code =
    [OP_no_op,
     OP_add B8, OP_add B16, OP_add B32, OP_sub B8, OP_sub B16, OP_sub B32,
     OP_div B8, OP_div B16, OP_div B32, OP_mod B8, OP_mod B16, OP_mod B32,
     OP_mul B8, OP_mul B16, OP_mul B32, OP_and B8, OP_and B16, OP_and B32,
     OP_or B8, OP_or B16, OP_or B32, OP_xor B8, OP_xor B16, OP_xor B32,
     OP_bw B8, OP_bw B16, OP_bw B32, OP_shl B8, OP_shl B16, OP_shl B32,
     OP_shr B8, OP_shr B16, OP_shr B32,
     OP_ld code B8, OP_ld code B16, OP_ld code B32,
     OP_ld_value code B8, OP_ld_value code B16, OP_ld_value code B32,
     OP_st B8, OP_st B16, OP_st B32, OP_pop, OP_call fcall code,
     OP_ld_value_stack B8, OP_ld_value_stack B16, OP_ld_value_stack B32]"

definition vm_step :: "fcalls \<Rightarrow> u8 list \<Rightarrow> vm \<Rightarrow> vm option" where
  "vm_step fcall code v = (let op = unat (code ! v_pc v) in
     if op < 48 then (op_table fcall code ! op) (v\<lparr>v_pc := v_pc v + 1\<rparr>) else None)"

section \<open>Every operation moves the program counter on\<close>

lemma bind_SomeE: "x \<bind> f = Some z \<Longrightarrow> (\<And>y. x = Some y \<Longrightarrow> f y = Some z \<Longrightarrow> R) \<Longrightarrow> R"
  by (cases x) auto

text \<open>
  What the operations share: the program counter never moves back, the stack keeps its
  size, and a slot is gained only for at least one byte of operand.
\<close>

definition op_ok :: "(vm \<Rightarrow> vm option) \<Rightarrow> bool" where
  "op_ok f \<longleftrightarrow> (\<forall>v v'. f v = Some v' \<longrightarrow> v_pc v \<le> v_pc v' \<and>
     2 * v_sp v' + v_pc v \<le> 2 * v_sp v + v_pc v' + 1 \<and> size (v_stk v') = size (v_stk v))"

lemma op_okI: "(\<And>v v'. f v = Some v' \<Longrightarrow> v_pc v \<le> v_pc v' \<and>
     2 * v_sp v' + v_pc v \<le> 2 * v_sp v + v_pc v' + 1 \<and> size (v_stk v') = size (v_stk v)) \<Longrightarrow> op_ok f"
  by (simp add: op_ok_def)

lemma op_ok_bin: "op_ok (OP_bin f w)"
  by (rule op_okI) (auto simp: OP_bin_def Let_def split: if_splits elim!: bind_SomeE)

lemma nbytes_pos [simp]: "0 < nbytes w" "Suc 0 \<le> nbytes w"
  by (cases w; simp)+

lemma op_ok_ld: "op_ok (OP_ld code w)"
  by (rule op_okI, cases w) (auto simp: OP_ld_def push_def split: if_splits elim!: bind_SomeE)

lemma op_ok_ld_value: "op_ok (OP_ld_value code w)"
  by (rule op_okI) (auto simp: OP_ld_value_def push_def split: if_splits elim!: bind_SomeE)

lemma op_ok_ld_value_stack: "op_ok (OP_ld_value_stack w)"
  by (rule op_okI) (auto simp: OP_ld_value_stack_def set_top_def split: if_splits elim!: bind_SomeE)

lemma op_ok_st: "op_ok (OP_st w)"
  by (rule op_okI) (auto simp: OP_st_def split: if_splits elim!: bind_SomeE)

lemma op_ok_call: "op_ok (OP_call fcall code)"
  by (rule op_okI) (auto simp: OP_call_def Let_def split: if_splits elim!: bind_SomeE)

lemma op_ok_small: "op_ok OP_no_op" "op_ok OP_pop" "op_ok (OP_bw w)"
  by (rule op_okI; auto simp: OP_no_op_def OP_pop_def OP_bw_def set_top_def split: if_splits)+

lemmas bin_ops = OP_add_def OP_sub_def OP_div_def OP_mod_def OP_mul_def OP_and_def OP_or_def
  OP_xor_def OP_shl_def OP_shr_def

lemma op_table_ok: "list_all op_ok (op_table fcall code)"
  unfolding op_table_def bin_ops
  by (simp only: list.pred_inject op_ok_bin op_ok_ld op_ok_ld_value op_ok_ld_value_stack
      op_ok_st op_ok_call op_ok_small simp_thms)

lemma size_op_table: "size (op_table fcall code) = 48"
  by (simp add: op_table_def)

lemma vm_step_ok:
  assumes "vm_step fcall code v = Some v'"
  shows "v_pc v < v_pc v'" "2 * v_sp v' + v_pc v \<le> 2 * v_sp v + v_pc v'"
    "size (v_stk v') = size (v_stk v)"
proof -
  let ?op = "unat (code ! v_pc v)"
  have op: "?op < 48" and f: "(op_table fcall code ! ?op) (v\<lparr>v_pc := v_pc v + 1\<rparr>) = Some v'"
    using assms by (auto simp: vm_step_def Let_def split: if_splits)
  have "op_ok (op_table fcall code ! ?op)"
    using op_table_ok[of fcall code] op by (simp add: list_all_length size_op_table)
  from this[unfolded op_ok_def, rule_format, OF f]
  show "v_pc v < v_pc v'" "2 * v_sp v' + v_pc v \<le> 2 * v_sp v + v_pc v'"
    "size (v_stk v') = size (v_stk v)" by simp_all
qed

section \<open>Runs\<close>

text \<open>There are no jumps, so the loop ends when the program counter leaves the text segment.\<close>

function vm_loop :: "fcalls \<Rightarrow> u8 list \<Rightarrow> vm \<Rightarrow> vm option" where
  "vm_loop fcall code v = (if v_pc v < FINSH_TEXT_MAX
     then (case vm_step fcall code v of None \<Rightarrow> None | Some v' \<Rightarrow> vm_loop fcall code v')
     else Some v)"
  by pat_completeness auto
termination
  by (relation "measure (\<lambda>(_, _, v). FINSH_TEXT_MAX - v_pc v)")
    (auto dest: vm_step_ok(1))

declare vm_loop.simps [simp del]

definition finsh_vm_run :: "fcalls \<Rightarrow> u8 list \<Rightarrow> u32 list \<Rightarrow> fmem \<Rightarrow> vm option" where
  "finsh_vm_run fcall code stk m =
     vm_loop fcall code \<lparr>v_stk = stk, v_sp = 0, v_pc = 0, v_mem = m\<rparr>"

definition finsh_stack_bottom :: "vm \<Rightarrow> int" where
  "finsh_stack_bottom v = member B32 (v_stk v ! 0)"

inductive vm_steps :: "fcalls \<Rightarrow> u8 list \<Rightarrow> vm \<Rightarrow> vm \<Rightarrow> bool" for fcall code where
  vm_here: "vm_steps fcall code v v"
| vm_next: "vm_steps fcall code v v' \<Longrightarrow> v_pc v' < FINSH_TEXT_MAX \<Longrightarrow> vm_step fcall code v' = Some v'' \<Longrightarrow>
    vm_steps fcall code v v''"

lemma vm_steps_loop: "vm_steps fcall code v v' \<Longrightarrow> vm_loop fcall code v = vm_loop fcall code v'"
  by (induction rule: vm_steps.induct) (simp_all add: vm_loop.simps[of _ _ "_ :: vm"])

lemma vm_steps_trans:
  "vm_steps fcall code v' v'' \<Longrightarrow> vm_steps fcall code v v' \<Longrightarrow> vm_steps fcall code v v''"
  by (induction rule: vm_steps.induct) (auto intro: vm_steps.intros)

lemma vm_steps_inv:
  "vm_steps fcall code v v' \<Longrightarrow> v_pc v \<le> v_pc v' \<and> 2 * v_sp v' + v_pc v \<le> 2 * v_sp v + v_pc v' \<and>
    size (v_stk v') = size (v_stk v)"
proof (induction rule: vm_steps.induct)
  case (vm_next v v' v'')
  then show ?case using vm_step_ok[OF vm_next.hyps(3)] by simp
qed simp

text \<open>A run returns or stops at an undefined operation; it visits at most 128 states.\<close>

lemma vm_loop_steps:
  "vm_loop fcall code v = Some v' \<longleftrightarrow> vm_steps fcall code v v' \<and> FINSH_TEXT_MAX \<le> v_pc v'"
proof (induction fcall code v rule: vm_loop.induct)
  case (1 fcall code v)
  show ?case
  proof (cases "v_pc v < FINSH_TEXT_MAX")
    case False
    have "v = v'" if "vm_steps fcall code v v'"
      using that False vm_steps_inv by (induction rule: vm_steps.induct) (auto dest!: vm_steps_inv)
    then show ?thesis using False by (auto simp: vm_loop.simps[of _ _ v] intro: vm_steps.vm_here)
  next
    case True
    have unroll: "vm_steps fcall code v v' \<and> FINSH_TEXT_MAX \<le> v_pc v' \<longleftrightarrow>
      (\<exists>w. vm_step fcall code v = Some w \<and> vm_steps fcall code w v' \<and> FINSH_TEXT_MAX \<le> v_pc v')"
    proof -
      have "v' = v \<or> (\<exists>w. vm_step fcall code v = Some w \<and> vm_steps fcall code w v')"
        if "vm_steps fcall code v v'"
        using that by (induction rule: vm_steps.induct) (auto intro: vm_steps.intros)
      moreover have "vm_steps fcall code v v'"
        if "vm_step fcall code v = Some w" "vm_steps fcall code w v'" for w
        using that True by (metis vm_steps.vm_here vm_steps.vm_next vm_steps_trans)
      ultimately show ?thesis using True by auto
    qed
    show ?thesis
    proof (cases "vm_step fcall code v")
      case None
      then show ?thesis using True unroll by (simp add: vm_loop.simps[of _ _ v])
    next
      case (Some w)
      then show ?thesis using True unroll 1 by (simp add: vm_loop.simps[of _ _ v])
    qed
  qed
qed

text \<open>The stack is large enough for every text segment, whatever its bytes are.\<close>

lemma vm_stack_never_overflows_aux:
  assumes "vm_steps fcall code \<lparr>v_stk = stk, v_sp = 0, v_pc = 0, v_mem = m\<rparr> v"
  shows "2 * v_sp v \<le> v_pc v" "v_pc v < FINSH_TEXT_MAX \<Longrightarrow> v_sp v < FINSH_STACK_MAX"
  using vm_steps_inv[OF assms] by (auto simp: FINSH_TEXT_MAX_def FINSH_STACK_MAX_def)

section \<open>Operation codes\<close>

text \<open>
  The codes of \<open>finsh_ops.h\<close>: three consecutive ones, byte, word and double word, for every
  sized operation. A step on a code runs the operation the table slots_hold for it.
\<close>

fun sized :: "u8 \<Rightarrow> width \<Rightarrow> u8" where
  "sized c B8 = c"
| "sized c B16 = c + 1"
| "sized c B32 = c + 2"

datatype bop = Add | Sub | Div | Mod | Mul | And | Or | Xor | Shl | Shr

fun FINSH_OP_bin :: "bop \<Rightarrow> width \<Rightarrow> u8" where
  "FINSH_OP_bin Add w = sized 0x01 w"
| "FINSH_OP_bin Sub w = sized 0x04 w"
| "FINSH_OP_bin Div w = sized 0x07 w"
| "FINSH_OP_bin Mod w = sized 0x0A w"
| "FINSH_OP_bin Mul w = sized 0x0D w"
| "FINSH_OP_bin And w = sized 0x10 w"
| "FINSH_OP_bin Or w = sized 0x13 w"
| "FINSH_OP_bin Xor w = sized 0x16 w"
| "FINSH_OP_bin Shl w = sized 0x1C w"
| "FINSH_OP_bin Shr w = sized 0x1F w"

fun c_op :: "bop \<Rightarrow> int \<Rightarrow> int \<Rightarrow> int option" where
  "c_op Add a b = Some (a + b)"
| "c_op Sub a b = Some (a - b)"
| "c_op Div a b = c_div a b"
| "c_op Mod a b = c_mod a b"
| "c_op Mul a b = Some (a * b)"
| "c_op And a b = Some (a AND b)"
| "c_op Or a b = Some (a OR b)"
| "c_op Xor a b = Some (a XOR b)"
| "c_op Shl a b = c_shl a b"
| "c_op Shr a b = c_shr a b"

definition FINSH_OP_NOOP :: u8 where "FINSH_OP_NOOP = 0x00"
definition FINSH_OP_BITWISE :: "width \<Rightarrow> u8" where "FINSH_OP_BITWISE = sized 0x19"
definition FINSH_OP_LD :: "width \<Rightarrow> u8" where "FINSH_OP_LD = sized 0x22"
definition FINSH_OP_LD_VALUE :: "width \<Rightarrow> u8" where "FINSH_OP_LD_VALUE = sized 0x25"
definition FINSH_OP_ST :: "width \<Rightarrow> u8" where "FINSH_OP_ST = sized 0x28"
definition FINSH_OP_POP :: u8 where "FINSH_OP_POP = 0x2B"
definition FINSH_OP_SYSCALL :: u8 where "FINSH_OP_SYSCALL = 0x2C"
definition FINSH_OP_LD_VALUE_STACK :: "width \<Rightarrow> u8" where "FINSH_OP_LD_VALUE_STACK = sized 0x2D"

lemmas op_codes = FINSH_OP_NOOP_def FINSH_OP_BITWISE_def FINSH_OP_LD_def FINSH_OP_LD_VALUE_def
  FINSH_OP_ST_def FINSH_OP_POP_def FINSH_OP_SYSCALL_def FINSH_OP_LD_VALUE_STACK_def

lemma c_op_fun:
  "c_op Add = (\<lambda>a b. Some (a + b))" "c_op Sub = (\<lambda>a b. Some (a - b))" "c_op Div = c_div"
  "c_op Mod = c_mod" "c_op Mul = (\<lambda>a b. Some (a * b))" "c_op And = (\<lambda>a b. Some (a AND b))"
  "c_op Or = (\<lambda>a b. Some (a OR b))" "c_op Xor = (\<lambda>a b. Some (a XOR b))"
  "c_op Shl = c_shl" "c_op Shr = c_shr"
  by (simp_all add: fun_eq_iff)

lemma vm_step_bin:
  "code ! v_pc v = FINSH_OP_bin b w \<Longrightarrow>
    vm_step fcall code v = OP_bin (c_op b) w (v\<lparr>v_pc := v_pc v + 1\<rparr>)"
  by (cases b; cases w; simp add: vm_step_def op_table_def bin_ops c_op_fun del: c_op.simps)

lemma vm_step_codes:
  "code ! v_pc v = FINSH_OP_NOOP \<Longrightarrow> vm_step fcall code v = Some (v\<lparr>v_pc := v_pc v + 1\<rparr>)"
  "code ! v_pc v = FINSH_OP_BITWISE w \<Longrightarrow> vm_step fcall code v = OP_bw w (v\<lparr>v_pc := v_pc v + 1\<rparr>)"
  "code ! v_pc v = FINSH_OP_LD w \<Longrightarrow> vm_step fcall code v = OP_ld code w (v\<lparr>v_pc := v_pc v + 1\<rparr>)"
  "code ! v_pc v = FINSH_OP_LD_VALUE w \<Longrightarrow>
     vm_step fcall code v = OP_ld_value code w (v\<lparr>v_pc := v_pc v + 1\<rparr>)"
  "code ! v_pc v = FINSH_OP_ST w \<Longrightarrow> vm_step fcall code v = OP_st w (v\<lparr>v_pc := v_pc v + 1\<rparr>)"
  "code ! v_pc v = FINSH_OP_POP \<Longrightarrow> vm_step fcall code v = OP_pop (v\<lparr>v_pc := v_pc v + 1\<rparr>)"
  "code ! v_pc v = FINSH_OP_SYSCALL \<Longrightarrow>
     vm_step fcall code v = OP_call fcall code (v\<lparr>v_pc := v_pc v + 1\<rparr>)"
  "code ! v_pc v = FINSH_OP_LD_VALUE_STACK w \<Longrightarrow>
     vm_step fcall code v = OP_ld_value_stack w (v\<lparr>v_pc := v_pc v + 1\<rparr>)"
  by ((cases w)?; simp add: vm_step_def op_table_def op_codes OP_no_op_def)+

section \<open>Members, memory and code\<close>

lemma low_masks: "(0xFF :: u32) = mask 8" "(0xFFFF :: u32) = mask 16"
  by (simp_all add: mask_eq_decr_exp)

lemma member_set_member [simp]: "member w (set_member w i s) = wrap w i"
proof -
  have "ucast ((s AND NOT 0xFF) OR (word_of_int i AND 0xFF)) = (word_of_int i :: u8)"
    unfolding low_masks by (rule bit_word_eqI) (simp add: bit_simps)
  moreover have "ucast ((s AND NOT 0xFFFF) OR (word_of_int i AND 0xFFFF)) = (word_of_int i :: u16)"
    unfolding low_masks by (rule bit_word_eqI) (simp add: bit_simps)
  ultimately show ?thesis by (cases w) simp_all
qed

lemma wrap_member [simp]: "wrap w (member w s) = member w s"
  by (cases w) simp_all

lemma wrap_wrap [simp]: "wrap w (wrap w i) = wrap w i"
  by (cases w) simp_all

text \<open>A member is what wrapping a wider one gives.\<close>

lemma member_narrow: "nbytes w \<le> nbytes w' \<Longrightarrow> member w s = wrap w (member w' s)"
proof -
  have "ucast s = (word_of_int (sint s) :: u8)" "ucast s = (word_of_int (sint s) :: u16)"
    by (rule bit_word_eqI, simp add: bit_simps)+
  moreover have "ucast s = (word_of_int (sint (ucast s :: u16)) :: u8)"
    by (rule bit_word_eqI) (simp add: bit_simps)
  moreover assume "nbytes w \<le> nbytes w'"
  ultimately show ?thesis by (cases w; cases w') simp_all
qed

text \<open>What was stored at an address is what is loaded from it.\<close>

lemma wr_frame: "wr_mem n m b i = Some m' \<Longrightarrow> (\<And>k. k < n \<Longrightarrow> a \<noteq> b + of_nat k) \<Longrightarrow> m' a = m a"
proof (induction n arbitrary: m b i)
  case (Suc n)
  from Suc.prems(1) obtain c where w: "wr_mem n (m(b \<mapsto> word_of_int i)) (b + 1) (i div 256) = Some m'"
    by (auto elim: bind_SomeE)
  have "m' a = (m(b \<mapsto> word_of_int i)) a"
    by (rule Suc.IH[OF w]) (use Suc.prems(2)[of "Suc _"] in \<open>auto simp: algebra_simps\<close>)
  then show ?case using Suc.prems(2)[of 0] by simp
qed simp

lemma rd_wr_mem: "wr_mem n m a i = Some m' \<Longrightarrow> n \<le> 4 \<Longrightarrow> rd_mem n m' a = Some (i mod 256 ^ n)"
proof (induction n arbitrary: m a i)
  case (Suc n)
  from Suc.prems(1) obtain c where w: "wr_mem n (m(a \<mapsto> word_of_int i)) (a + 1) (i div 256) = Some m'"
    by (auto elim: bind_SomeE)
  have "m' a = (m(a \<mapsto> word_of_int i)) a"
  proof (rule wr_frame[OF w])
    fix k assume "k < n"
    then have "(of_nat (Suc k) :: u32) \<noteq> 0"
      using Suc.prems(2) by (subst word_of_nat_eq_0_iff) (auto dest: dvd_imp_le)
    then show "a \<noteq> a + 1 + of_nat k" by (simp add: add.assoc)
  qed
  moreover have "rd_mem n m' (a + 1) = Some (i div 256 mod 256 ^ n)" using Suc.IH[OF w] Suc.prems(2) by simp
  moreover have "i mod 256 + 256 * (i div 256 mod 256 ^ n) = i mod (256 * 256 ^ n)"
    by (subst zmod_zmult2_eq) simp_all
  ultimately show ?case by (simp add: uint_word_of_int)
qed simp

lemma wrap_mod: "wrap w (i mod 256 ^ nbytes w) = wrap w i"
proof -
  have "(word_of_int (i mod 256) :: u8) = word_of_int i"
    "(word_of_int (i mod 65536) :: u16) = word_of_int i"
    "(word_of_int (i mod 4294967296) :: u32) = word_of_int i"
    by (rule word_uint_eqI; simp add: uint_word_of_int)+
  then show ?thesis by (cases w) simp_all
qed

lemma load_store:
  assumes "store w m a i = Some m'"
  shows "\<exists>j. load w m' a = Some j \<and> wrap w j = wrap w i"
proof -
  have "nbytes w \<le> 4" by (cases w) simp_all
  with rd_wr_mem assms show ?thesis unfolding store_def load_def by (blast intro: wrap_mod)
qed

text \<open>Little-endian operands.\<close>

fun put_le :: "nat \<Rightarrow> u32 \<Rightarrow> u8 list" where
  "put_le 0 x = []"
| "put_le (Suc n) x = ucast x # put_le n (drop_bit 8 x)"

lemma size_put_le [simp]: "size (put_le n x) = n"
  by (induction n arbitrary: x) simp_all

lemma get_put_le: "get_le (put_le n x) = uint x mod 256 ^ n"
proof (induction n arbitrary: x)
  case (Suc n)
  have "uint x mod 256 + 256 * (uint x div 256 mod 256 ^ n) = uint x mod (256 * 256 ^ n)"
    by (subst zmod_zmult2_eq) simp_all
  then show ?case using Suc by (simp add: drop_bit_eq_div uint_div unsigned_ucast_eq take_bit_eq_mod)
qed simp

section \<open>Code that computes\<close>

definition code_at :: "u8 list \<Rightarrow> nat \<Rightarrow> u8 list \<Rightarrow> bool" where
  "code_at code pc bs \<longleftrightarrow> pc + size bs \<le> size code \<and> take (size bs) (drop pc code) = bs"

lemma code_at_append:
  "code_at code pc (as @ bs) \<longleftrightarrow> code_at code pc as \<and> code_at code (pc + size as) bs"
  by (auto simp: code_at_def take_add append_eq_conv_conj ac_simps min_def)

lemma code_at_Cons:
  "code_at code pc (b # bs) \<longleftrightarrow> pc < size code \<and> code ! pc = b \<and> code_at code (Suc pc) bs"
proof (cases "pc < size code")
  case True
  then have "drop pc code = code ! pc # drop (Suc pc) code" by (simp add: Cons_nth_drop_Suc)
  with True show ?thesis by (auto simp: code_at_def)
qed (simp add: code_at_def)

lemma code_at_Nil [simp]: "code_at code pc [] \<longleftrightarrow> pc \<le> size code"
  by (simp add: code_at_def)

lemma fetch_code_at: "code_at code pc (put_le n x) \<Longrightarrow> fetch n code pc = Some (uint x mod 256 ^ n)"
  by (simp add: code_at_def fetch_def get_put_le)

text \<open>A machine whose stack is as deep as its program counter allows.\<close>

definition vm_at :: "u8 list \<Rightarrow> vm \<Rightarrow> bool" where
  "vm_at code v \<longleftrightarrow> size code = FINSH_TEXT_MAX \<and> size (v_stk v) = FINSH_STACK_MAX \<and>
     2 * v_sp v \<le> v_pc v"

lemma vm_at_steps: "vm_at code v \<Longrightarrow> vm_steps fcall code v v' \<Longrightarrow> vm_at code v'"
  using vm_steps_inv[of fcall code v v'] by (auto simp: vm_at_def)

lemma vm_at_room: "vm_at code v \<Longrightarrow> v_pc v < size code \<Longrightarrow> v_sp v < size (v_stk v)"
  by (simp add: vm_at_def FINSH_TEXT_MAX_def FINSH_STACK_MAX_def)

definition slots_hold :: "u32 list \<Rightarrow> nat \<Rightarrow> (width \<times> int) list \<Rightarrow> bool" where
  "slots_hold stk sp ps \<longleftrightarrow> (\<forall>k < size ps. member (fst (ps ! k)) (stk ! (sp + k)) = snd (ps ! k))"

lemma slots_hold_Nil [simp]: "slots_hold stk sp []"
  by (simp add: slots_hold_def)

lemma slots_hold_Cons [simp]:
  "slots_hold stk sp ((w, i) # ps) \<longleftrightarrow> member w (stk ! sp) = i \<and> slots_hold stk (Suc sp) ps"
  by (auto simp: slots_hold_def nth_Cons less_Suc_eq_0_disj split: nat.splits)

lemma slots_hold_append: "slots_hold stk sp (ps @ qs) \<longleftrightarrow> slots_hold stk sp ps \<and> slots_hold stk (sp + size ps) qs"
  by (induction ps arbitrary: sp) auto

text \<open>
  The code takes memory \<open>m\<close> to \<open>m'\<close> and leaves slots with the given values on the stack,
  wherever it stands in the text segment and whatever is below on the stack.
\<close>

definition computes :: "fcalls \<Rightarrow> u8 list \<Rightarrow> fmem \<Rightarrow> (width \<times> int) list \<Rightarrow> fmem \<Rightarrow> bool" where
  "computes fcall bs m ps m' \<longleftrightarrow> (\<forall>code v. vm_at code v \<and> code_at code (v_pc v) bs \<and> v_mem v = m \<longrightarrow>
     (\<exists>v'. vm_steps fcall code v v' \<and> v_pc v' = v_pc v + size bs \<and> v_sp v' = v_sp v + size ps \<and>
        v_mem v' = m' \<and> take (v_sp v) (v_stk v') = take (v_sp v) (v_stk v) \<and>
        slots_hold (v_stk v') (v_sp v) ps))"

lemma computesD:
  assumes "computes fcall bs m ps m'" "vm_at code v" "code_at code (v_pc v) bs" "v_mem v = m"
  obtains v' where "vm_steps fcall code v v'" "v_pc v' = v_pc v + size bs" "v_sp v' = v_sp v + size ps"
    "v_mem v' = m'" "take (v_sp v) (v_stk v') = take (v_sp v) (v_stk v)" "slots_hold (v_stk v') (v_sp v) ps"
  using assms unfolding computes_def by blast

lemma computes_append:
  assumes "computes fcall as m ps m1" "computes fcall bs m1 qs m2"
  shows "computes fcall (as @ bs) m (ps @ qs) m2"
  unfolding computes_def
proof (intro allI impI, elim conjE)
  fix code v assume v: "vm_at code v" "code_at code (v_pc v) (as @ bs)" "v_mem v = m"
  from computesD[OF assms(1) v(1) _ v(3)] v(2) obtain u where u:
    "vm_steps fcall code v u" "v_pc u = v_pc v + size as" "v_sp u = v_sp v + size ps" "v_mem u = m1"
    "take (v_sp v) (v_stk u) = take (v_sp v) (v_stk v)" "slots_hold (v_stk u) (v_sp v) ps"
    by (auto simp: code_at_append)
  have "vm_at code u" using vm_at_steps[OF v(1) u(1)] .
  moreover have "code_at code (v_pc u) bs" using v(2) u(2) by (simp add: code_at_append)
  ultimately obtain t where t:
    "vm_steps fcall code u t" "v_pc t = v_pc u + size bs" "v_sp t = v_sp u + size qs" "v_mem t = m2"
    "take (v_sp u) (v_stk t) = take (v_sp u) (v_stk u)" "slots_hold (v_stk t) (v_sp u) qs"
    using computesD[OF assms(2)] u(4) by metis
  have low: "v_stk t ! k = v_stk u ! k" if "k < v_sp u" for k
    using arg_cong[OF t(5), of "\<lambda>l. l ! k"] that by simp
  then have "slots_hold (v_stk t) (v_sp v) ps" using u(3,6) by (simp add: slots_hold_def)
  moreover have "take (v_sp v) (v_stk t) = take (v_sp v) (v_stk v)"
    using arg_cong[OF t(5), of "take (v_sp v)"] u(3,5) by (simp add: min_def)
  ultimately show "\<exists>v'. vm_steps fcall code v v' \<and> v_pc v' = v_pc v + size (as @ bs) \<and>
      v_sp v' = v_sp v + size (ps @ qs) \<and> v_mem v' = m2 \<and>
      take (v_sp v) (v_stk v') = take (v_sp v) (v_stk v) \<and> slots_hold (v_stk v') (v_sp v) (ps @ qs)"
    using u t vm_steps_trans[OF t(1) u(1)] by (intro exI[of _ t]) (simp add: slots_hold_append)
qed

lemma computes_Nil: "computes fcall [] m [] m"
  by (auto simp: computes_def intro: vm_steps.vm_here)

text \<open>One more operation on what was computed.\<close>

lemma computes_op:
  assumes c: "computes fcall bs m ps m1"
    and op: "\<And>code v sp. vm_at code v \<Longrightarrow> code ! v_pc v = hd os \<Longrightarrow> code_at code (Suc (v_pc v)) (tl os) \<Longrightarrow>
      v_mem v = m1 \<Longrightarrow> v_sp v = sp + size ps \<Longrightarrow>
      v_sp v < size (v_stk v) \<Longrightarrow> slots_hold (v_stk v) sp ps \<Longrightarrow>
      \<exists>v'. vm_step fcall code v = Some v' \<and> v_pc v' = v_pc v + size os \<and> v_sp v' = sp + size qs \<and>
        v_mem v' = m2 \<and> take sp (v_stk v') = take sp (v_stk v) \<and> slots_hold (v_stk v') sp qs"
    and ne: "os \<noteq> []"
  shows "computes fcall (bs @ os) m qs m2"
  unfolding computes_def
proof (intro allI impI, elim conjE)
  fix code v assume v: "vm_at code v" "code_at code (v_pc v) (bs @ os)" "v_mem v = m"
  from computesD[OF c v(1) _ v(3)] v(2) obtain u where u:
    "vm_steps fcall code v u" "v_pc u = v_pc v + size bs" "v_sp u = v_sp v + size ps" "v_mem u = m1"
    "take (v_sp v) (v_stk u) = take (v_sp v) (v_stk v)" "slots_hold (v_stk u) (v_sp v) ps"
    by (auto simp: code_at_append)
  have at: "vm_at code u" using vm_at_steps[OF v(1) u(1)] .
  have os: "os = hd os # tl os" using ne by simp
  have co: "v_pc u < size code" "code ! v_pc u = hd os" "code_at code (Suc (v_pc u)) (tl os)"
    using v(2) u(2) os by (metis code_at_append code_at_Cons)+
  from op[OF at co(2,3) u(4,3) vm_at_room[OF at co(1)] u(6)] obtain t where t:
    "vm_step fcall code u = Some t" "v_pc t = v_pc u + size os" "v_sp t = v_sp v + size qs" "v_mem t = m2"
    "take (v_sp v) (v_stk t) = take (v_sp v) (v_stk u)" "slots_hold (v_stk t) (v_sp v) qs" by blast
  have "vm_steps fcall code v t"
    using vm_steps.vm_next[OF u(1) _ t(1)] co(1) at by (simp add: vm_at_def)
  then show "\<exists>v'. vm_steps fcall code v v' \<and> v_pc v' = v_pc v + size (bs @ os) \<and>
      v_sp v' = v_sp v + size qs \<and> v_mem v' = m2 \<and>
      take (v_sp v) (v_stk v') = take (v_sp v) (v_stk v) \<and> slots_hold (v_stk v') (v_sp v) qs"
    using u t by (intro exI[of _ t]) simp
qed

lemma computes_push:
  assumes "\<And>code v. vm_at code v \<Longrightarrow> code ! v_pc v = hd os \<Longrightarrow> code_at code (Suc (v_pc v)) (tl os) \<Longrightarrow>
      v_mem v = m \<Longrightarrow> v_sp v < size (v_stk v) \<Longrightarrow>
      vm_step fcall code v = Some (v\<lparr>v_stk := (v_stk v)[v_sp v := x v], v_sp := v_sp v + 1,
        v_pc := v_pc v + size os\<rparr>) \<and> member w (x v) = i"
    and "os \<noteq> []"
  shows "computes fcall os m [(w, i)] m"
proof -
  have "computes fcall ([] @ os) m [(w, i)] m"
    by (rule computes_op[OF computes_Nil _ assms(2)]) (drule (3) assms(1), auto)
  then show ?thesis by simp
qed

lemma computes_ld: "computes fcall (FINSH_OP_LD w # put_le (nbytes w) x) m [(w, wrap w (uint x))] m"
proof (rule computes_push)
  fix code v assume "vm_at code v" "code ! v_pc v = hd (FINSH_OP_LD w # put_le (nbytes w) x)"
    "code_at code (Suc (v_pc v)) (tl (FINSH_OP_LD w # put_le (nbytes w) x))" "v_sp v < size (v_stk v)"
  then show "vm_step fcall code v = Some (v\<lparr>v_stk := (v_stk v)[v_sp v :=
      set_member w (uint x mod 256 ^ nbytes w) (v_stk v ! v_sp v)], v_sp := v_sp v + 1,
      v_pc := v_pc v + size (FINSH_OP_LD w # put_le (nbytes w) x)\<rparr>) \<and>
      member w (set_member w (uint x mod 256 ^ nbytes w) (v_stk v ! v_sp v)) = wrap w (uint x)"
    by (simp add: vm_step_codes(3) OP_ld_def fetch_code_at push_def vm_at_def wrap_mod)
qed simp

lemma computes_ld_value:
  assumes "load w m a = Some i"
  shows "computes fcall (FINSH_OP_LD_VALUE w # put_le 4 a) m [(w, wrap w i)] m"
proof (rule computes_push)
  fix code v assume "vm_at code v" "code ! v_pc v = hd (FINSH_OP_LD_VALUE w # put_le 4 a)"
    "code_at code (Suc (v_pc v)) (tl (FINSH_OP_LD_VALUE w # put_le 4 a))" "v_mem v = m"
    "v_sp v < size (v_stk v)"
  moreover have "word_of_int (uint a mod 256 ^ 4) = a"
    using uint_lt2p[of a] by simp
  ultimately show "vm_step fcall code v = Some (v\<lparr>v_stk := (v_stk v)[v_sp v :=
      set_member w i (v_stk v ! v_sp v)], v_sp := v_sp v + 1,
      v_pc := v_pc v + size (FINSH_OP_LD_VALUE w # put_le 4 a)\<rparr>) \<and>
      member w (set_member w i (v_stk v ! v_sp v)) = wrap w i"
    using assms by (simp add: vm_step_codes(4) OP_ld_value_def fetch_code_at push_def vm_at_def)
qed simp

lemma computes_narrow:
  assumes "computes fcall bs m (ps @ [(w', j)]) m1" "nbytes w \<le> nbytes w'"
  shows "computes fcall bs m (ps @ [(w, wrap w j)]) m1"
  using assms(1) unfolding computes_def
  by (auto simp: slots_hold_append member_narrow[OF assms(2)])

lemma computes_bin:
  assumes "computes fcall bs m [(w, i), (w', j)] m1" "nbytes w \<le> nbytes w'" "c_op b i (wrap w j) = Some r"
  shows "computes fcall (bs @ [FINSH_OP_bin b w]) m [(w, wrap w r)] m1"
proof -
  have "computes fcall bs m [(w, i), (w, wrap w j)] m1"
    using computes_narrow[of fcall bs m "[(w, i)]"] assms(1,2) by simp
  then show ?thesis
    by (rule computes_op) (use assms(3) in \<open>auto simp: vm_step_bin OP_bin_def Let_def\<close>)
qed

lemma computes_bw:
  assumes "computes fcall bs m [(w, i)] m1"
  shows "computes fcall (bs @ [FINSH_OP_BITWISE w]) m [(w, wrap w (NOT i))] m1"
  by (rule computes_op[OF assms]) (auto simp: vm_step_codes(2) OP_bw_def set_top_def top_slot_def)

lemma computes_ld_value_stack:
  assumes "computes fcall bs m [(B32, p)] m1" "load w m1 (word_of_int p) = Some i"
  shows "computes fcall (bs @ [FINSH_OP_LD_VALUE_STACK w]) m [(w, wrap w i)] m1"
  by (rule computes_op[OF assms(1)])
    (use assms(2) in \<open>auto simp: vm_step_codes(8) OP_ld_value_stack_def set_top_def top_slot_def\<close>)

lemma computes_st:
  assumes "computes fcall bs m [(B32, p), (w', j)] m1" "nbytes w \<le> nbytes w'"
    "store w m1 (word_of_int p) (wrap w j) = Some m2"
  shows "computes fcall (bs @ [FINSH_OP_ST w]) m [(B32, p)] m2"
  by (rule computes_op[OF assms(1)])
    (use assms(3) in \<open>auto simp: vm_step_codes(5) OP_st_def member_narrow[OF assms(2)]\<close>)

lemma computes_pop:
  assumes "computes fcall bs m (ps @ [p]) m1"
  shows "computes fcall (bs @ [FINSH_OP_POP]) m ps m1"
  by (rule computes_op[OF assms]) (auto simp: vm_step_codes(6) OP_pop_def slots_hold_append)

lemma computes_noop: "computes fcall (replicate n FINSH_OP_NOOP) m [] m"
proof (induction n)
  case (Suc n)
  have "computes fcall (replicate n FINSH_OP_NOOP @ [FINSH_OP_NOOP]) m [] m"
    by (rule computes_op[OF Suc]) (auto simp: vm_step_codes(1))
  then show ?case by (simp add: replicate_append_same)
qed (simp add: computes_Nil)

lemma computes_call:
  assumes "computes fcall bs m ((B32, f) # map (Pair B32) args) m1" "size args \<le> 16"
    "fcall (word_of_int f) (if args = [] then [0] else map word_of_int args) m1 = Some (r, m2)"
  shows "computes fcall (bs @ [FINSH_OP_SYSCALL, of_nat (size args)]) m [(B32, sint r)] m2"
proof (rule computes_op[OF assms(1)])
  fix code v sp
  let ?n = "size args" and ?os = "[FINSH_OP_SYSCALL, of_nat (size args)]"
  assume v: "vm_at code v" "code ! v_pc v = hd ?os" "code_at code (Suc (v_pc v)) (tl ?os)" "v_mem v = m1"
    "v_sp v = sp + size ((B32, f) # map (Pair B32) args)" "v_sp v < size (v_stk v)"
    "slots_hold (v_stk v) sp ((B32, f) # map (Pair B32) args)"
  have n: "fetch 1 code (Suc (v_pc v)) = Some (int ?n)"
    using v(3) assms(2) by (auto simp: code_at_def fetch_def unat_of_nat uint_nat)
  have fa: "v_stk v ! sp = word_of_int f" using v(7) by auto
  have aa: "take ?n (drop (Suc sp) (v_stk v)) = map word_of_int args"
  proof (rule nth_equalityI)
    show "size (take ?n (drop (Suc sp) (v_stk v))) = size (map word_of_int args)"
      using v(5,6) by simp
    have mem: "member B32 (v_stk v ! (Suc sp + k)) = args ! k" if "k < ?n" for k
      using conjunct2[OF v(7)[unfolded slots_hold_Cons]] that by (simp add: slots_hold_def del: add_Suc)
    fix k assume "k < size (take ?n (drop (Suc sp) (v_stk v)))"
    then show "take ?n (drop (Suc sp) (v_stk v)) ! k = map word_of_int args ! k"
      using v(5,6) by (simp flip: mem)
  qed
  show "\<exists>v'. vm_step fcall code v = Some v' \<and> v_pc v' = v_pc v + size ?os \<and>
      v_sp v' = sp + size [(B32, sint r)] \<and> v_mem v' = m2 \<and> take sp (v_stk v') = take sp (v_stk v) \<and>
      slots_hold (v_stk v') sp [(B32, sint r)]"
    using v assms(2,3) n fa aa
    by (auto simp: vm_step_codes(7) OP_call_def Let_def split: if_splits)
qed simp

end
