(* ===== verification/FinshCompiler.thy ===== *)
theory FinshCompiler
  imports FinshVm
begin

text \<open>
  The compiler of the FinSH shell (\<open>components/finsh/finsh_compiler.c\<close>, with the nodes and types
  of \<open>finsh.h\<close>, \<open>finsh_node.h\<close> and \<open>finsh_var.h\<close>): from the syntax tree of a shell line to the
  byte code of the machine of \<open>FinshVm\<close>. The tree is a datatype: \<open>child\<close> and \<open>sibling\<close> are
  the two subtrees of a node and \<open>FNil\<close> is the null pointer. The code emitted so far is a
  list, and \<open>finsh_compiler_run\<close> returns \<open>None\<close> when it does not fit into the text segment
  (the C code writes past its end) or when a null pointer is followed.
\<close>

section \<open>Nodes\<close>

datatype ntype = NUnknown | NId | NChar | NInt | NLong | NString | NNull
  | NAdd | NSub | NMul | NDiv | NMod | NAnd | NOr | NXor | NBitwise | NShl | NShr
  | NFunc | NAssign | NCast | NPreInc | NPreDec | NInc | NDec | NGetValue | NGetAddr | NSysNull

datatype vtype = TUnknown | TVoid | TVoidp | TChar | TUchar | TCharp | TShort | TUshort | TShortp
  | TInt | TUint | TIntp | TLong | TUlong | TLongp

text \<open>
  What a node of an identifier points to: the address of the variable, system variable or
  system call, its type, and for the last two the address it names (the field \<open>var\<close> or \<open>func\<close>).
\<close>

record symbol =
  s_ptr :: u32
  s_type :: vtype
  s_addr :: u32

record ninfo =
  n_type :: ntype
  n_dtype :: u8
  n_idtype :: u8
  n_value :: u32
  n_id :: "symbol option"

datatype fnode = FNil | FNode ninfo fnode fnode

fun finsh_node_child :: "fnode \<Rightarrow> fnode" where
  "finsh_node_child FNil = FNil"
| "finsh_node_child (FNode i c s) = c"

fun finsh_node_sibling :: "fnode \<Rightarrow> fnode" where
  "finsh_node_sibling FNil = FNil"
| "finsh_node_sibling (FNode i c s) = s"

fun node_info :: "fnode \<Rightarrow> ninfo option" where
  "node_info FNil = None"
| "node_info (FNode i c s) = Some i"

definition FINSH_IDTYPE_VAR :: u8 where "FINSH_IDTYPE_VAR = 0x01"
definition FINSH_IDTYPE_SYSVAR :: u8 where "FINSH_IDTYPE_SYSVAR = 0x02"
definition FINSH_IDTYPE_SYSCALL :: u8 where "FINSH_IDTYPE_SYSCALL = 0x04"
definition FINSH_IDTYPE_ADDRESS :: u8 where "FINSH_IDTYPE_ADDRESS = 0x08"
definition FINSH_DATA_TYPE_VOID :: u8 where "FINSH_DATA_TYPE_VOID = 0x00"
definition FINSH_DATA_TYPE_BYTE :: u8 where "FINSH_DATA_TYPE_BYTE = 0x01"
definition FINSH_DATA_TYPE_WORD :: u8 where "FINSH_DATA_TYPE_WORD = 0x02"
definition FINSH_DATA_TYPE_DWORD :: u8 where "FINSH_DATA_TYPE_DWORD = 0x03"
definition FINSH_NODE_VALUE :: u8 where "FINSH_NODE_VALUE = 0"
definition FINSH_ERROR_UNKNOWN_TYPE :: u8 where "FINSH_ERROR_UNKNOWN_TYPE = 3"
definition FINSH_ERROR_UNKNOWN_NODE :: u8 where "FINSH_ERROR_UNKNOWN_NODE = 8"

lemmas node_defs = FINSH_IDTYPE_VAR_def FINSH_IDTYPE_SYSVAR_def FINSH_IDTYPE_SYSCALL_def
  FINSH_IDTYPE_ADDRESS_def FINSH_DATA_TYPE_VOID_def FINSH_DATA_TYPE_BYTE_def FINSH_DATA_TYPE_WORD_def
  FINSH_DATA_TYPE_DWORD_def FINSH_NODE_VALUE_def

text \<open>The flag test \<open>idtype & FLAG\<close>.\<close>

definition has_flag :: "u8 \<Rightarrow> u8 \<Rightarrow> bool" where
  "has_flag x f \<longleftrightarrow> x AND f \<noteq> 0"

text \<open>The size a data type selects in the switches of the compiler; others emit nothing.\<close>

definition data_width :: "u8 \<Rightarrow> width option" where
  "data_width d = (if d = FINSH_DATA_TYPE_BYTE then Some B8
     else if d = FINSH_DATA_TYPE_WORD then Some B16
     else if d = FINSH_DATA_TYPE_DWORD then Some B32 else None)"

section \<open>Emitting code\<close>

record cst =
  c_code :: "u8 list"
  c_err :: u8

definition finsh_code_byte :: "u8 \<Rightarrow> cst \<Rightarrow> cst" where
  "finsh_code_byte x s = s\<lparr>c_code := c_code s @ [x]\<rparr>"

definition finsh_code_word :: "u32 \<Rightarrow> cst \<Rightarrow> cst" where
  "finsh_code_word x s = s\<lparr>c_code := c_code s @ put_le 2 x\<rparr>"

definition finsh_code_dword :: "u32 \<Rightarrow> cst \<Rightarrow> cst" where
  "finsh_code_dword x s = s\<lparr>c_code := c_code s @ put_le 4 x\<rparr>"

definition finsh_error_set :: "u8 \<Rightarrow> cst \<Rightarrow> cst" where
  "finsh_error_set e s = s\<lparr>c_err := e\<rparr>"

text \<open>A constant of the given size.\<close>

fun finsh_code_sized :: "width \<Rightarrow> u32 \<Rightarrow> cst \<Rightarrow> cst" where
  "finsh_code_sized B8 x = finsh_code_byte (ucast x)"
| "finsh_code_sized B16 x = finsh_code_word x"
| "finsh_code_sized B32 x = finsh_code_dword x"

definition finsh_code_if :: "(width \<Rightarrow> u8) \<Rightarrow> u8 \<Rightarrow> cst \<Rightarrow> cst" where
  "finsh_code_if opc d s = (case data_width d of Some w \<Rightarrow> finsh_code_byte (opc w) s | None \<Rightarrow> s)"

section \<open>The switch over the node types\<close>

text \<open>
  The types whose values the compiler loads; a variable declared \<open>void*\<close> is not among them.
  The value of a variable of the shell stands at offset 20 in its \<open>struct finsh_var\<close>, after 17
  bytes of name, the type and two bytes of padding.
\<close>

fun load_width :: "vtype \<Rightarrow> width option" where
  "load_width TChar = Some B8" | "load_width TUchar = Some B8"
| "load_width TShort = Some B16" | "load_width TUshort = Some B16"
| "load_width TInt = Some B32" | "load_width TUint = Some B32"
| "load_width TLong = Some B32" | "load_width TUlong = Some B32"
| "load_width TCharp = Some B32" | "load_width TShortp = Some B32"
| "load_width TIntp = Some B32" | "load_width TLongp = Some B32"
| "load_width _ = None"

definition var_value_addr :: "u32 \<Rightarrow> u32" where
  "var_value_addr p = p + 20"

definition compile_load :: "u8 \<Rightarrow> vtype \<Rightarrow> u32 \<Rightarrow> cst \<Rightarrow> cst" where
  "compile_load idt t a s = (case load_width t of None \<Rightarrow> s
     | Some w \<Rightarrow> finsh_code_dword a (finsh_code_byte
         (if has_flag idt FINSH_IDTYPE_ADDRESS then FINSH_OP_LD B32 else FINSH_OP_LD_VALUE w) s))"

definition compile_id :: "ninfo \<Rightarrow> cst \<Rightarrow> cst option" where
  "compile_id i s =
     (if has_flag (n_idtype i) FINSH_IDTYPE_SYSCALL
      then (case n_id i of None \<Rightarrow> None
        | Some y \<Rightarrow> Some (finsh_code_dword (s_addr y) (finsh_code_byte (FINSH_OP_LD B32) s)))
      else if has_flag (n_idtype i) FINSH_IDTYPE_SYSVAR
      then (case n_id i of None \<Rightarrow> Some s
        | Some y \<Rightarrow> Some (compile_load (n_idtype i) (s_type y) (s_addr y) s))
      else (case n_id i of None \<Rightarrow> Some s
        | Some y \<Rightarrow> Some (compile_load (n_idtype i) (s_type y) (var_value_addr (s_ptr y)) s)))"

definition compile_func :: "fnode \<Rightarrow> nat \<Rightarrow> cst \<Rightarrow> cst" where
  "compile_func c n s = (if c \<noteq> FNil
     then finsh_code_byte (of_nat n) (finsh_code_byte FINSH_OP_SYSCALL s) else s)"

fun sibling_count :: "fnode \<Rightarrow> nat" where
  "sibling_count FNil = 0"
| "sibling_count (FNode i c s) = Suc (sibling_count s)"

definition compile_store :: "u8 \<Rightarrow> cst \<Rightarrow> cst" where
  "compile_store d s = (case data_width d of
     Some w \<Rightarrow> finsh_code_byte (FINSH_OP_LD_VALUE_STACK w) (finsh_code_byte (FINSH_OP_ST w) s)
   | None \<Rightarrow> finsh_error_set FINSH_ERROR_UNKNOWN_TYPE s)"

definition compile_assign :: "fnode \<Rightarrow> cst \<Rightarrow> cst option" where
  "compile_assign c s = (case node_info c of None \<Rightarrow> None
     | Some ci \<Rightarrow> Some (if n_type ci = NId then compile_store (n_dtype ci) s
         else if n_type ci = NGetValue then compile_store (n_dtype ci AND 0x0F) s
         else s))"

text \<open>
  The operand of an increment is the variable of the child node, read as a variable of the
  shell whatever kind of symbol it is. The address of a null pointer's value is 20.
\<close>

definition inc_addr :: "ninfo \<Rightarrow> u32" where
  "inc_addr ci = var_value_addr (case n_id ci of None \<Rightarrow> 0 | Some y \<Rightarrow> s_ptr y)"

definition code_step :: "bop \<Rightarrow> width \<Rightarrow> u32 \<Rightarrow> cst \<Rightarrow> cst" where
  "code_step b w a s =
     (let s = finsh_code_dword a (finsh_code_byte (FINSH_OP_LD_VALUE w) s);
          s = finsh_code_sized w 1 (finsh_code_byte (FINSH_OP_LD w) s);
          s = finsh_code_byte (FINSH_OP_bin b w) s
      in finsh_code_byte (FINSH_OP_ST w) s)"

definition compile_prestep :: "bop \<Rightarrow> u8 \<Rightarrow> fnode \<Rightarrow> cst \<Rightarrow> cst" where
  "compile_prestep b d c s = (case node_info c of None \<Rightarrow> s
     | Some ci \<Rightarrow> if n_type ci = NId then
         (case data_width d of None \<Rightarrow> s
          | Some w \<Rightarrow> finsh_code_byte (FINSH_OP_LD_VALUE_STACK B32) (code_step b w (inc_addr ci) s))
       else s)"

definition compile_poststep :: "bop \<Rightarrow> u8 \<Rightarrow> fnode \<Rightarrow> cst \<Rightarrow> cst" where
  "compile_poststep b d c s = (case node_info c of None \<Rightarrow> s
     | Some ci \<Rightarrow> if n_type ci = NId then
         (case data_width d of None \<Rightarrow> s
          | Some w \<Rightarrow> finsh_code_byte FINSH_OP_POP (code_step b w (inc_addr ci)
              (finsh_code_dword (inc_addr ci) (finsh_code_byte (FINSH_OP_LD B32) s))))
       else s)"

definition compile_node :: "ninfo \<Rightarrow> fnode \<Rightarrow> cst \<Rightarrow> cst option" where
  "compile_node i c s = (case n_type i of
     NId \<Rightarrow> compile_id i s
   | NChar \<Rightarrow> Some (finsh_code_byte (ucast (n_value i)) (finsh_code_byte (FINSH_OP_LD B8) s))
   | NInt \<Rightarrow> Some (finsh_code_dword (n_value i) (finsh_code_byte (FINSH_OP_LD B32) s))
   | NLong \<Rightarrow> Some (finsh_code_dword (n_value i) (finsh_code_byte (FINSH_OP_LD B32) s))
   | NNull \<Rightarrow> Some (finsh_code_dword (n_value i) (finsh_code_byte (FINSH_OP_LD B32) s))
   | NString \<Rightarrow> Some (finsh_code_dword (n_value i) (finsh_code_byte (FINSH_OP_LD B32) s))
   | NAdd \<Rightarrow> Some (finsh_code_if (FINSH_OP_bin Add) (n_dtype i) s)
   | NSub \<Rightarrow> Some (finsh_code_if (FINSH_OP_bin Sub) (n_dtype i) s)
   | NMul \<Rightarrow> Some (finsh_code_if (FINSH_OP_bin Mul) (n_dtype i) s)
   | NDiv \<Rightarrow> Some (finsh_code_if (FINSH_OP_bin Div) (n_dtype i) s)
   | NMod \<Rightarrow> Some (finsh_code_if (FINSH_OP_bin Mod) (n_dtype i) s)
   | NAnd \<Rightarrow> Some (finsh_code_if (FINSH_OP_bin And) (n_dtype i) s)
   | NOr \<Rightarrow> Some (finsh_code_if (FINSH_OP_bin Or) (n_dtype i) s)
   | NXor \<Rightarrow> Some (finsh_code_if (FINSH_OP_bin Xor) (n_dtype i) s)
   | NBitwise \<Rightarrow> Some (finsh_code_if FINSH_OP_BITWISE (n_dtype i) s)
   | NShl \<Rightarrow> Some (finsh_code_if (FINSH_OP_bin Shl) (n_dtype i) s)
   | NShr \<Rightarrow> Some (finsh_code_if (FINSH_OP_bin Shr) (n_dtype i) s)
   | NFunc \<Rightarrow> Some (compile_func c (sibling_count (finsh_node_sibling c)) s)
   | NAssign \<Rightarrow> compile_assign c s
   | NPreInc \<Rightarrow> Some (compile_prestep Add (n_dtype i) c s)
   | NPreDec \<Rightarrow> Some (compile_prestep Sub (n_dtype i) c s)
   | NInc \<Rightarrow> Some (compile_poststep Add (n_dtype i) c s)
   | NDec \<Rightarrow> Some (compile_poststep Sub (n_dtype i) c s)
   | NSysNull \<Rightarrow> Some (finsh_code_dword 0 s)
   | NGetValue \<Rightarrow> Some (if has_flag (n_idtype i) FINSH_IDTYPE_ADDRESS then s
       else finsh_code_if FINSH_OP_LD_VALUE_STACK (n_dtype i) s)
   | NGetAddr \<Rightarrow> Some s
   | NUnknown \<Rightarrow> Some (finsh_error_set FINSH_ERROR_UNKNOWN_NODE s)
   | NCast \<Rightarrow> Some (finsh_error_set FINSH_ERROR_UNKNOWN_NODE s))"

text \<open>The children, the node, the siblings.\<close>

fun finsh_compile :: "fnode \<Rightarrow> cst \<Rightarrow> cst option" where
  "finsh_compile FNil s = Some s"
| "finsh_compile (FNode i c sib) s = do {
     s \<leftarrow> finsh_compile c s;
     s \<leftarrow> compile_node i c s;
     finsh_compile sib s }"

section \<open>Types\<close>

fun type_data :: "vtype \<Rightarrow> u8 option" where
  "type_data TVoid = Some FINSH_DATA_TYPE_VOID"
| "type_data TChar = Some FINSH_DATA_TYPE_BYTE" | "type_data TUchar = Some FINSH_DATA_TYPE_BYTE"
| "type_data TShort = Some FINSH_DATA_TYPE_WORD" | "type_data TUshort = Some FINSH_DATA_TYPE_WORD"
| "type_data TInt = Some FINSH_DATA_TYPE_DWORD" | "type_data TUint = Some FINSH_DATA_TYPE_DWORD"
| "type_data TLong = Some FINSH_DATA_TYPE_DWORD" | "type_data TUlong = Some FINSH_DATA_TYPE_DWORD"
| "type_data TCharp = Some FINSH_DATA_TYPE_DWORD" | "type_data TVoidp = Some FINSH_DATA_TYPE_DWORD"
| "type_data TShortp = Some FINSH_DATA_TYPE_DWORD" | "type_data TIntp = Some FINSH_DATA_TYPE_DWORD"
| "type_data TLongp = Some FINSH_DATA_TYPE_DWORD"
| "type_data TUnknown = None"

definition id_data_type :: "ninfo \<Rightarrow> u8 \<Rightarrow> u8 \<times> u8" where
  "id_data_type i err =
     (if has_flag (n_idtype i) FINSH_IDTYPE_VAR \<or> has_flag (n_idtype i) FINSH_IDTYPE_SYSVAR
      then (case n_id i of None \<Rightarrow> (n_dtype i, err)
        | Some y \<Rightarrow> (case type_data (s_type y) of
            Some d \<Rightarrow> (d, err) | None \<Rightarrow> (n_dtype i, FINSH_ERROR_UNKNOWN_TYPE)))
      else (n_dtype i, err))"

definition node_data_type :: "ninfo \<Rightarrow> fnode \<Rightarrow> u8 \<Rightarrow> u8 \<times> u8" where
  "node_data_type i c err = (case node_info c of
     Some ci \<Rightarrow> (n_dtype ci, err)
   | None \<Rightarrow> if n_type i = NId then id_data_type i err
     else if n_type i = NChar then (FINSH_DATA_TYPE_BYTE, err)
     else if n_type i \<in> {NInt, NLong, NString, NNull} then (FINSH_DATA_TYPE_DWORD, err)
     else (n_dtype i, err))"

definition child_addr :: "ninfo \<Rightarrow> u8 \<Rightarrow> u8" where
  "child_addr i is_addr =
     (if n_type i \<in> {NAssign, NPreInc, NPreDec, NGetAddr} then FINSH_IDTYPE_ADDRESS
      else if n_type i = NGetValue \<and> is_addr \<noteq> 0 then 0
      else is_addr)"

fun finsh_type_check :: "fnode \<Rightarrow> u8 \<Rightarrow> u8 \<Rightarrow> fnode \<times> u8" where
  "finsh_type_check FNil is_addr err = (FNil, err)"
| "finsh_type_check (FNode i c sib) is_addr err =
     (let (c', err) = finsh_type_check c (child_addr i is_addr) err;
          (sib', err) = finsh_type_check sib FINSH_NODE_VALUE err;
          i = (if n_idtype i \<noteq> FINSH_IDTYPE_SYSCALL then i\<lparr>n_idtype := n_idtype i OR is_addr\<rparr> else i);
          (d, err) = node_data_type i c' err
      in (FNode (i\<lparr>n_dtype := d\<rparr>) c' sib', err))"

section \<open>The compiler\<close>

fun compile_line :: "fnode \<Rightarrow> cst \<Rightarrow> cst option" where
  "compile_line FNil s = Some s"
| "compile_line (FNode i c sib) s = do {
     s \<leftarrow> finsh_compile (FNode i c FNil) s;
     compile_line sib (if sib \<noteq> FNil then finsh_code_byte FINSH_OP_POP s else s) }"

text \<open>
  The result is the text segment, the stack of the machine, of which only the first slot is
  cleared, and the error number.
\<close>

definition finsh_compiler_run :: "fnode \<Rightarrow> u32 list \<Rightarrow> u8 \<Rightarrow> (u8 list \<times> u32 list \<times> u8) option" where
  "finsh_compiler_run node stk err =
     (let (node, err) = finsh_type_check node FINSH_NODE_VALUE err in do {
        s \<leftarrow> compile_line node \<lparr>c_code = [], c_err = err\<rparr>;
        (if size (c_code s) \<le> FINSH_TEXT_MAX
         then Some (c_code s @ replicate (FINSH_TEXT_MAX - size (c_code s)) 0, stk[0 := 0], c_err s)
         else None) })"

end
