(* ===== verification/FinshExpr.thy ===== *)
theory FinshExpr
  imports FinshCompiler
begin

text \<open>
  What compiled shell lines compute. Expressions of the shell language are given a meaning
  of their own (\<open>eval\<close>): C arithmetic at the size of the left operand on a memory of bytes,
  evaluated from left to right. \<open>tree\<close> is the syntax tree the parser makes of an expression
  (\<open>make_sys_node\<close>, \<open>finsh_node_new_*\<close> and \<open>proc_param_list\<close> of \<open>finsh_parser.c\<close>), \<open>compilable\<close>
  the expressions whose operands have sizes the byte code handles, and the theorem says that
  compiling the tree of such a line and running the machine gives the value and the memory
  of its meaning.
\<close>

section \<open>Expressions and their trees\<close>

text \<open>A variable of the shell, or a system variable with its address.\<close>

datatype lval = LVar u32 vtype | LSys u32 vtype u32

datatype fexpr =
    EChar u8
  | EConst ntype u32
  | EVar lval
  | EBin bop fexpr fexpr
  | ENot fexpr
  | EAssign lval fexpr
  | EStore fexpr fexpr
  | EPre bop lval
  | EPost bop lval
  | EAddr lval
  | EDeref fexpr
  | ECall u32 u32 "fexpr list"

definition node_new :: "ntype \<Rightarrow> ninfo" where
  "node_new t = \<lparr>n_type = t, n_dtype = 0, n_idtype = 0, n_value = 0, n_id = None\<rparr>"

fun lval_info :: "lval \<Rightarrow> ninfo" where
  "lval_info (LVar p t) = (node_new NId)\<lparr>n_idtype := FINSH_IDTYPE_VAR,
     n_id := Some \<lparr>s_ptr = p, s_type = t, s_addr = 0\<rparr>\<rparr>"
| "lval_info (LSys p t a) = (node_new NId)\<lparr>n_idtype := FINSH_IDTYPE_SYSVAR,
     n_id := Some \<lparr>s_ptr = p, s_type = t, s_addr = a\<rparr>\<rparr>"

definition call_info :: "u32 \<Rightarrow> u32 \<Rightarrow> ninfo" where
  "call_info p f = (node_new NId)\<lparr>n_idtype := FINSH_IDTYPE_SYSCALL,
     n_id := Some \<lparr>s_ptr = p, s_type = TUnknown, s_addr = f\<rparr>\<rparr>"

fun bop_node :: "bop \<Rightarrow> ntype" where
  "bop_node Add = NAdd" | "bop_node Sub = NSub" | "bop_node Mul = NMul" | "bop_node Div = NDiv"
| "bop_node Mod = NMod" | "bop_node And = NAnd" | "bop_node Or = NOr" | "bop_node Xor = NXor"
| "bop_node Shl = NShl" | "bop_node Shr = NShr"

definition pre_node :: "bop \<Rightarrow> ntype" where "pre_node b = (if b = Add then NPreInc else NPreDec)"
definition post_node :: "bop \<Rightarrow> ntype" where "post_node b = (if b = Add then NInc else NDec)"

text \<open>The tree of an expression with what follows it, and of a list of expressions.\<close>

fun tree :: "fexpr \<Rightarrow> fnode \<Rightarrow> fnode" and trees :: "fexpr list \<Rightarrow> fnode" where
  "tree (EChar c) s = FNode ((node_new NChar)\<lparr>n_value := ucast c\<rparr>) FNil s"
| "tree (EConst t i) s = FNode ((node_new t)\<lparr>n_value := i\<rparr>) FNil s"
| "tree (EVar l) s = FNode (lval_info l) FNil s"
| "tree (EBin b x y) s = FNode (node_new (bop_node b)) (tree x (tree y FNil)) s"
| "tree (ENot x) s = FNode (node_new NBitwise) (tree x FNil) s"
| "tree (EAssign l x) s = FNode (node_new NAssign) (FNode (lval_info l) FNil (tree x FNil)) s"
| "tree (EStore p x) s = FNode (node_new NAssign)
     (FNode (node_new NGetValue) (tree p FNil) (tree x FNil)) s"
| "tree (EPre b l) s = FNode (node_new (pre_node b)) (FNode (lval_info l) FNil FNil) s"
| "tree (EPost b l) s = FNode (node_new (post_node b)) (FNode (lval_info l) FNil FNil) s"
| "tree (EAddr l) s = FNode (node_new NGetAddr) (FNode (lval_info l) FNil FNil) s"
| "tree (EDeref p) s = FNode (node_new NGetValue) (tree p FNil) s"
| "tree (ECall p f xs) s = FNode (node_new NFunc) (FNode (call_info p f) FNil (trees xs)) s"
| "trees [] = FNil"
| "trees (x # xs) = tree x (trees xs)"

section \<open>Sizes\<close>

fun lval_type :: "lval \<Rightarrow> vtype" where
  "lval_type (LVar p t) = t"
| "lval_type (LSys p t a) = t"

fun lval_addr :: "lval \<Rightarrow> u32" where
  "lval_addr (LVar p t) = var_value_addr p"
| "lval_addr (LSys p t a) = a"

definition lval_width :: "lval \<Rightarrow> width" where
  "lval_width l = (case load_width (lval_type l) of Some w \<Rightarrow> w | None \<Rightarrow> B32)"

text \<open>
  The size the compiler works at; the result of a call has none. \<open>value_width\<close> is the size
  of the value that is left on the stack.
\<close>

fun expr_width :: "fexpr \<Rightarrow> width option" where
  "expr_width (EChar c) = Some B8"
| "expr_width (EConst t i) = Some B32"
| "expr_width (EVar l) = Some (lval_width l)"
| "expr_width (EBin b x y) = expr_width x"
| "expr_width (ENot x) = expr_width x"
| "expr_width (EAssign l x) = Some (lval_width l)"
| "expr_width (EStore p x) = expr_width p"
| "expr_width (EPre b l) = Some (lval_width l)"
| "expr_width (EPost b l) = Some (lval_width l)"
| "expr_width (EAddr l) = Some (lval_width l)"
| "expr_width (EDeref p) = expr_width p"
| "expr_width (ECall p f xs) = None"

definition value_width :: "fexpr \<Rightarrow> width" where
  "value_width x = (case expr_width x of Some w \<Rightarrow> w | None \<Rightarrow> B32)"

definition lval_ok :: "lval \<Rightarrow> bool" where
  "lval_ok l \<longleftrightarrow> load_width (lval_type l) \<noteq> None"

fun is_var :: "lval \<Rightarrow> bool" where
  "is_var (LVar p t) = True"
| "is_var (LSys p t a) = False"

fun compilable :: "fexpr \<Rightarrow> bool" where
  "compilable (EChar c) = True"
| "compilable (EConst t i) = (t \<in> {NInt, NLong, NString, NNull})"
| "compilable (EVar l) = lval_ok l"
| "compilable (EBin b x y) = (compilable x \<and> compilable y \<and> expr_width x \<noteq> None \<and>
     nbytes (value_width x) \<le> nbytes (value_width y))"
| "compilable (ENot x) = (compilable x \<and> expr_width x \<noteq> None)"
| "compilable (EAssign l x) = (lval_ok l \<and> compilable x \<and> nbytes (lval_width l) \<le> nbytes (value_width x))"
| "compilable (EStore p x) = (compilable p \<and> compilable x \<and> expr_width p = Some B32 \<and> value_width x = B32)"
| "compilable (EPre b l) = (b \<in> {Add, Sub} \<and> lval_ok l \<and> is_var l \<and> lval_width l = B32)"
| "compilable (EPost b l) = (b \<in> {Add, Sub} \<and> lval_ok l \<and> is_var l)"
| "compilable (EAddr l) = (lval_ok l \<and> lval_width l = B32)"
| "compilable (EDeref p) = (compilable p \<and> expr_width p = Some B32)"
| "compilable (ECall p f xs) = (size xs \<le> 16 \<and> list_all (\<lambda>x. compilable x \<and> value_width x = B32) xs)"

section \<open>Meaning\<close>

definition get_lval :: "lval \<Rightarrow> fmem \<Rightarrow> int option" where
  "get_lval l m = map_option (wrap (lval_width l)) (load (lval_width l) m (lval_addr l))"

definition set_lval :: "lval \<Rightarrow> int \<Rightarrow> fmem \<Rightarrow> (int \<times> fmem) option" where
  "set_lval l i m = map_option (\<lambda>m. (wrap (lval_width l) i, m))
     (store (lval_width l) m (lval_addr l) (wrap (lval_width l) i))"

fun eval :: "fcalls \<Rightarrow> fexpr \<Rightarrow> fmem \<Rightarrow> (int \<times> fmem) option"
  and evals :: "fcalls \<Rightarrow> fexpr list \<Rightarrow> fmem \<Rightarrow> (int list \<times> fmem) option" where
  "eval fcall (EChar c) m = Some (uint c, m)"
| "eval fcall (EConst t i) m = Some (sint i, m)"
| "eval fcall (EVar l) m = do { i \<leftarrow> get_lval l m; Some (i, m) }"
| "eval fcall (EBin b x y) m = do {
     (i, m) \<leftarrow> eval fcall x m;
     (j, m) \<leftarrow> eval fcall y m;
     r \<leftarrow> c_op b i (wrap (value_width x) j);
     Some (wrap (value_width x) r, m) }"
| "eval fcall (ENot x) m = do { (i, m) \<leftarrow> eval fcall x m; Some (wrap (value_width x) (NOT i), m) }"
| "eval fcall (EAssign l x) m = do { (i, m) \<leftarrow> eval fcall x m; set_lval l i m }"
| "eval fcall (EStore p x) m = do {
     (a, m) \<leftarrow> eval fcall p m;
     (i, m) \<leftarrow> eval fcall x m;
     m \<leftarrow> store B32 m (word_of_int a) (wrap B32 i);
     Some (wrap B32 i, m) }"
| "eval fcall (EPre b l) m = do { i \<leftarrow> get_lval l m; r \<leftarrow> c_op b i 1; set_lval l r m }"
| "eval fcall (EPost b l) m = do {
     i \<leftarrow> get_lval l m;
     r \<leftarrow> c_op b i 1;
     (_, m) \<leftarrow> set_lval l r m;
     Some (i, m) }"
| "eval fcall (EAddr l) m = Some (sint (lval_addr l), m)"
| "eval fcall (EDeref p) m = do {
     (a, m) \<leftarrow> eval fcall p m;
     i \<leftarrow> load B32 m (word_of_int a);
     Some (wrap B32 i, m) }"
| "eval fcall (ECall p f xs) m = do {
     (is, m) \<leftarrow> evals fcall xs m;
     (r, m) \<leftarrow> fcall f (if is = [] then [0] else map word_of_int is) m;
     Some (sint r, m) }"
| "evals fcall [] m = Some ([], m)"
| "evals fcall (x # xs) m = do {
     (i, m) \<leftarrow> eval fcall x m;
     (is, m) \<leftarrow> evals fcall xs m;
     Some (i # is, m) }"

section \<open>The code of an expression\<close>

definition step_code :: "bop \<Rightarrow> width \<Rightarrow> u32 \<Rightarrow> u8 list" where
  "step_code b w a = FINSH_OP_LD_VALUE w # put_le 4 a @ FINSH_OP_LD w # put_le (nbytes w) 1 @
     [FINSH_OP_bin b w, FINSH_OP_ST w]"

fun gen :: "fexpr \<Rightarrow> u8 list" and gens :: "fexpr list \<Rightarrow> u8 list" where
  "gen (EChar c) = FINSH_OP_LD B8 # put_le 1 (ucast c)"
| "gen (EConst t i) = FINSH_OP_LD B32 # put_le 4 i"
| "gen (EVar l) = FINSH_OP_LD_VALUE (lval_width l) # put_le 4 (lval_addr l)"
| "gen (EBin b x y) = gen x @ gen y @ [FINSH_OP_bin b (value_width x)]"
| "gen (ENot x) = gen x @ [FINSH_OP_BITWISE (value_width x)]"
| "gen (EAssign l x) = (FINSH_OP_LD B32 # put_le 4 (lval_addr l)) @ gen x @
     [FINSH_OP_ST (lval_width l), FINSH_OP_LD_VALUE_STACK (lval_width l)]"
| "gen (EStore p x) = gen p @ gen x @ [FINSH_OP_ST B32, FINSH_OP_LD_VALUE_STACK B32]"
| "gen (EPre b l) = (FINSH_OP_LD B32 # put_le 4 (lval_addr l)) @
     step_code b (lval_width l) (lval_addr l) @ [FINSH_OP_LD_VALUE_STACK B32]"
| "gen (EPost b l) = (FINSH_OP_LD_VALUE (lval_width l) # put_le 4 (lval_addr l)) @
     (FINSH_OP_LD B32 # put_le 4 (lval_addr l)) @ step_code b (lval_width l) (lval_addr l) @ [FINSH_OP_POP]"
| "gen (EAddr l) = FINSH_OP_LD B32 # put_le 4 (lval_addr l)"
| "gen (EDeref p) = gen p @ [FINSH_OP_LD_VALUE_STACK B32]"
| "gen (ECall p f xs) = (FINSH_OP_LD B32 # put_le 4 f) @ gens xs @ [FINSH_OP_SYSCALL, of_nat (size xs)]"
| "gens [] = []"
| "gens (x # xs) = gen x @ gens xs"

section \<open>The compiler emits it\<close>

definition width_data :: "width option \<Rightarrow> u8" where
  "width_data w = (case w of None \<Rightarrow> FINSH_DATA_TYPE_VOID | Some B8 \<Rightarrow> FINSH_DATA_TYPE_BYTE
     | Some B16 \<Rightarrow> FINSH_DATA_TYPE_WORD | Some B32 \<Rightarrow> FINSH_DATA_TYPE_DWORD)"

lemma data_width_data [simp]: "data_width (width_data w) = w"
  by (cases w rule: option.exhaust; cases "the w"; simp add: data_width_def width_data_def node_defs)

lemma width_data_low [simp]: "width_data w AND 15 = width_data w"
  by (cases w rule: option.exhaust; cases "the w"; simp add: width_data_def node_defs)

lemma lval_type_data: "lval_ok l \<Longrightarrow> type_data (lval_type l) = Some (width_data (Some (lval_width l)))"
  by (cases "lval_type l") (simp_all add: lval_ok_def lval_width_def width_data_def)

lemma load_width_lval: "lval_ok l \<Longrightarrow> load_width (lval_type l) = Some (lval_width l)"
  by (auto simp: lval_ok_def lval_width_def)

text \<open>A checked variable node: its flag and its data type are set.\<close>

definition lval_node :: "lval \<Rightarrow> u8 \<Rightarrow> ninfo" where
  "lval_node l a = (lval_info l)\<lparr>n_idtype := n_idtype (lval_info l) OR a,
     n_dtype := width_data (Some (lval_width l))\<rparr>"

lemma type_check_lval:
  assumes "lval_ok l" "a \<in> {0, FINSH_IDTYPE_ADDRESS}"
  shows "finsh_type_check (FNode (lval_info l) FNil s) a err =
    (FNode (lval_node l a) FNil (fst (finsh_type_check s 0 err)), snd (finsh_type_check s 0 err))"
  using assms lval_type_data[OF assms(1)]
  by (cases l) (auto simp: split_beta Let_def node_data_type_def id_data_type_def node_new_def
      has_flag_def lval_node_def node_defs)

lemma compile_lval:
  assumes "lval_ok l"
  shows "compile_node (lval_node l 0) FNil \<lparr>c_code = code, c_err = e\<rparr> =
      Some \<lparr>c_code = code @ FINSH_OP_LD_VALUE (lval_width l) # put_le 4 (lval_addr l), c_err = e\<rparr>"
    "compile_node (lval_node l FINSH_IDTYPE_ADDRESS) FNil \<lparr>c_code = code, c_err = e\<rparr> =
      Some \<lparr>c_code = code @ FINSH_OP_LD B32 # put_le 4 (lval_addr l), c_err = e\<rparr>"
  using load_width_lval[OF assms]
  by (cases l; simp add: compile_node_def compile_id_def lval_node_def node_new_def has_flag_def
      node_defs compile_load_def finsh_code_byte_def finsh_code_dword_def)+

text \<open>What the compiler makes of a checked node and its children.\<close>

definition node_emits :: "ninfo \<Rightarrow> fnode \<Rightarrow> u8 list \<Rightarrow> bool" where
  "node_emits i c bs \<longleftrightarrow> (\<forall>code e. finsh_compile c \<lparr>c_code = code, c_err = e\<rparr> \<bind> compile_node i c =
     Some \<lparr>c_code = code @ bs, c_err = e\<rparr>)"

definition checks :: "fnode \<Rightarrow> u8 \<Rightarrow> u8 \<Rightarrow> u8 list \<Rightarrow> fnode \<Rightarrow> bool" where
  "checks t err d bs s \<longleftrightarrow> (\<exists>i c. finsh_type_check t 0 err =
       (FNode i c (fst (finsh_type_check s 0 err)), snd (finsh_type_check s 0 err)) \<and>
     n_dtype i = d \<and> node_emits i c bs)"

lemma checksE:
  assumes "checks t err d bs s"
  obtains i c where "finsh_type_check t 0 err =
       (FNode i c (fst (finsh_type_check s 0 err)), snd (finsh_type_check s 0 err))"
     "n_dtype i = d" "node_emits i c bs"
  using assms unfolding checks_def by blast

lemma compile_emits:
  "node_emits i c bs \<Longrightarrow> finsh_compile (FNode i c s) \<lparr>c_code = code, c_err = e\<rparr> =
     finsh_compile s \<lparr>c_code = code @ bs, c_err = e\<rparr>"
  unfolding node_emits_def by (simp flip: Option.bind_assoc)

lemmas code_defs = finsh_code_byte_def finsh_code_word_def finsh_code_dword_def finsh_code_if_def

lemma code_step_code:
  "code_step b w a \<lparr>c_code = code, c_err = e\<rparr> = \<lparr>c_code = code @ step_code b w a, c_err = e\<rparr>"
proof -
  have "[ucast (1 :: u32)] = put_le (nbytes B8) (1 :: u32)" by simp
  then show ?thesis by (cases w) (simp_all add: code_step_def step_code_def code_defs Let_def)
qed

lemma checksI:
  assumes "finsh_type_check c (child_addr i 0) err = (c', err)"
    "\<And>err. node_data_type i c' err = (d, err)" "node_emits (i\<lparr>n_dtype := d\<rparr>) c' bs"
  shows "checks (FNode i c s) err d bs s"
proof -
  have "finsh_type_check (FNode i c s) 0 err = (FNode (i\<lparr>n_dtype := d\<rparr>) c'
      (fst (finsh_type_check s 0 err)), snd (finsh_type_check s 0 err))"
    using assms(1,2) by (simp add: FINSH_NODE_VALUE_def split_beta)
  then show ?thesis unfolding checks_def using assms(3) by auto
qed

lemma compile_bop:
  "n_type i = bop_node b \<Longrightarrow> compile_node i c s = Some (finsh_code_if (FINSH_OP_bin b) (n_dtype i) s)"
  by (cases b) (simp_all add: compile_node_def)

lemma bop_child [simp]: "child_addr (node_new (bop_node b)) 0 = 0"
  by (cases b) (simp_all add: child_addr_def node_new_def)

lemma compile_node_of:
  "n_type i = NBitwise \<Longrightarrow> compile_node i c s = Some (finsh_code_if FINSH_OP_BITWISE (n_dtype i) s)"
  "n_type i = NFunc \<Longrightarrow>
     compile_node i c s = Some (compile_func c (sibling_count (finsh_node_sibling c)) s)"
  "n_type i = NAssign \<Longrightarrow> compile_node i c s = compile_assign c s"
  "n_type i = NGetAddr \<Longrightarrow> compile_node i c s = Some s"
  "n_type i = NGetValue \<Longrightarrow> compile_node i c s =
     Some (if has_flag (n_idtype i) FINSH_IDTYPE_ADDRESS then s
       else finsh_code_if FINSH_OP_LD_VALUE_STACK (n_dtype i) s)"
  "n_type i = pre_node b \<Longrightarrow> b \<in> {Add, Sub} \<Longrightarrow>
     compile_node i c s = Some (compile_prestep b (n_dtype i) c s)"
  "n_type i = post_node b \<Longrightarrow> b \<in> {Add, Sub} \<Longrightarrow>
     compile_node i c s = Some (compile_poststep b (n_dtype i) c s)"
  by (auto simp: compile_node_def pre_node_def post_node_def)

lemma emits_Nil:
  "(\<And>code e. compile_node i FNil \<lparr>c_code = code, c_err = e\<rparr> = Some \<lparr>c_code = code @ bs, c_err = e\<rparr>) \<Longrightarrow>
    node_emits i FNil bs"
  by (simp add: node_emits_def)

lemma checks_inner:
  assumes "finsh_type_check c (child_addr (node_new t) 0) err = (FNode i cc r, err)" "n_dtype i = d"
    "node_emits ((node_new t)\<lparr>n_dtype := d\<rparr>) (FNode i cc r) bs"
  shows "checks (FNode (node_new t) c s) err d bs s"
  using assms by (intro checksI) (simp_all add: node_data_type_def)

lemma tc_single:
  assumes "checks t err d bs FNil"
  obtains i c where "finsh_type_check t 0 err = (FNode i c FNil, err)" "n_dtype i = d" "node_emits i c bs"
  using assms by (auto elim!: checksE)

lemma checks_bin:
  assumes x: "\<And>s. checks (tree x s) err (width_data (Some w)) bs s"
    and y: "checks (tree y FNil) err d bs' FNil"
  shows "checks (FNode (node_new (bop_node b)) (tree x (tree y FNil)) s) err (width_data (Some w))
     (bs @ bs' @ [FINSH_OP_bin b w]) s"
proof -
  from y obtain j cy where y': "finsh_type_check (tree y FNil) 0 err = (FNode j cy FNil, err)"
    "node_emits j cy bs'" by (rule tc_single)
  from x[of "tree y FNil"] obtain i cx where
    x': "finsh_type_check (tree x (tree y FNil)) 0 err = (FNode i cx (FNode j cy FNil), err)"
    "n_dtype i = width_data (Some w)" "node_emits i cx bs" by (auto elim!: checksE simp: y')
  have "node_emits ((node_new (bop_node b))\<lparr>n_dtype := width_data (Some w)\<rparr>) (FNode i cx (FNode j cy FNil))
      (bs @ bs' @ [FINSH_OP_bin b w])"
    unfolding node_emits_def using compile_emits[OF x'(3)] compile_emits[OF y'(2)]
    by (simp add: compile_bop node_new_def code_defs)
  with x' show ?thesis by (intro checks_inner) simp_all
qed

lemma checks_not:
  assumes "checks (tree x FNil) err (width_data (Some w)) bs FNil"
  shows "checks (FNode (node_new NBitwise) (tree x FNil) s) err (width_data (Some w))
     (bs @ [FINSH_OP_BITWISE w]) s"
proof -
  from assms obtain i c where x: "finsh_type_check (tree x FNil) 0 err = (FNode i c FNil, err)"
    "n_dtype i = width_data (Some w)" "node_emits i c bs" by (rule tc_single)
  have "node_emits ((node_new NBitwise)\<lparr>n_dtype := width_data (Some w)\<rparr>) (FNode i c FNil) (bs @ [FINSH_OP_BITWISE w])"
    unfolding node_emits_def using compile_emits[OF x(3)]
    by (simp add: compile_node_of node_new_def code_defs)
  with x show ?thesis by (intro checks_inner) (simp_all add: child_addr_def node_new_def del: finsh_type_check.simps(2))
qed

lemma checks_deref:
  assumes "checks (tree x FNil) err (width_data (Some w)) bs FNil"
  shows "checks (FNode (node_new NGetValue) (tree x FNil) s) err (width_data (Some w))
     (bs @ [FINSH_OP_LD_VALUE_STACK w]) s"
proof -
  from assms obtain i c where x: "finsh_type_check (tree x FNil) 0 err = (FNode i c FNil, err)"
    "n_dtype i = width_data (Some w)" "node_emits i c bs" by (rule tc_single)
  have "node_emits ((node_new NGetValue)\<lparr>n_dtype := width_data (Some w)\<rparr>) (FNode i c FNil)
      (bs @ [FINSH_OP_LD_VALUE_STACK w])"
    unfolding node_emits_def using compile_emits[OF x(3)]
    by (simp add: compile_node_of node_new_def code_defs has_flag_def)
  with x show ?thesis by (intro checks_inner) (simp_all add: child_addr_def node_new_def del: finsh_type_check.simps(2))
qed

lemma emits_lval:
  assumes "lval_ok l"
  shows "node_emits (lval_node l 0) FNil (FINSH_OP_LD_VALUE (lval_width l) # put_le 4 (lval_addr l))"
    "node_emits (lval_node l FINSH_IDTYPE_ADDRESS) FNil (FINSH_OP_LD B32 # put_le 4 (lval_addr l))"
  using compile_lval[OF assms] by (auto intro: emits_Nil)

lemma lval_node_simps [simp]:
  "n_dtype (lval_node l a) = width_data (Some (lval_width l))" "n_type (lval_node l a) = NId"
  "is_var l \<Longrightarrow> inc_addr (lval_node l a) = lval_addr l"
  by (cases l; simp add: lval_node_def node_new_def inc_addr_def)+

lemma checks_lval:
  assumes "lval_ok l"
  shows "checks (FNode (lval_info l) FNil s) err (width_data (Some (lval_width l)))
    (FINSH_OP_LD_VALUE (lval_width l) # put_le 4 (lval_addr l)) s"
  unfolding checks_def using type_check_lval[OF assms] emits_lval(1)[OF assms] by auto

lemma checks_addr:
  assumes "lval_ok l"
  shows "checks (FNode (node_new NGetAddr) (FNode (lval_info l) FNil FNil) s) err
    (width_data (Some (lval_width l))) (FINSH_OP_LD B32 # put_le 4 (lval_addr l)) s"
proof -
  have "node_emits ((node_new NGetAddr)\<lparr>n_dtype := width_data (Some (lval_width l))\<rparr>)
      (FNode (lval_node l FINSH_IDTYPE_ADDRESS) FNil FNil) (FINSH_OP_LD B32 # put_le 4 (lval_addr l))"
    unfolding node_emits_def using compile_emits[OF emits_lval(2)[OF assms]]
    by (simp add: compile_node_of node_new_def)
  then show ?thesis using type_check_lval[OF assms]
    by (intro checks_inner) (simp_all add: child_addr_def node_new_def del: finsh_type_check.simps(2))
qed

lemma checks_assign:
  assumes l: "lval_ok l" and x: "checks (tree x FNil) err d bs FNil"
  shows "checks (FNode (node_new NAssign) (FNode (lval_info l) FNil (tree x FNil)) s) err
    (width_data (Some (lval_width l))) ((FINSH_OP_LD B32 # put_le 4 (lval_addr l)) @ bs @
      [FINSH_OP_ST (lval_width l), FINSH_OP_LD_VALUE_STACK (lval_width l)]) s"
proof -
  from x obtain i c where x': "finsh_type_check (tree x FNil) 0 err = (FNode i c FNil, err)"
    "node_emits i c bs" by (rule tc_single)
  have "node_emits ((node_new NAssign)\<lparr>n_dtype := width_data (Some (lval_width l))\<rparr>)
      (FNode (lval_node l FINSH_IDTYPE_ADDRESS) FNil (FNode i c FNil))
      ((FINSH_OP_LD B32 # put_le 4 (lval_addr l)) @ bs @
      [FINSH_OP_ST (lval_width l), FINSH_OP_LD_VALUE_STACK (lval_width l)])"
    unfolding node_emits_def using compile_emits[OF emits_lval(2)[OF l]] compile_emits[OF x'(2)]
    by (simp add: compile_node_of node_new_def compile_assign_def compile_store_def code_defs)
  then show ?thesis using type_check_lval[OF l] x'
    by (intro checks_inner) (simp_all add: child_addr_def node_new_def del: finsh_type_check.simps(2))
qed

lemma checks_store:
  assumes p: "checks (tree p FNil) err (width_data (Some w)) bs FNil"
    and x: "checks (tree x FNil) err d bs' FNil"
  shows "checks (FNode (node_new NAssign) (FNode (node_new NGetValue) (tree p FNil) (tree x FNil)) s) err
    (width_data (Some w)) (bs @ bs' @ [FINSH_OP_ST w, FINSH_OP_LD_VALUE_STACK w]) s"
proof -
  from p obtain j cp where p': "finsh_type_check (tree p FNil) 0 err = (FNode j cp FNil, err)"
    "n_dtype j = width_data (Some w)" "node_emits j cp bs" by (rule tc_single)
  from x obtain i c where x': "finsh_type_check (tree x FNil) 0 err = (FNode i c FNil, err)"
    "node_emits i c bs'" by (rule tc_single)
  let ?g = "(node_new NGetValue)\<lparr>n_idtype := FINSH_IDTYPE_ADDRESS, n_dtype := width_data (Some w)\<rparr>"
  have g: "finsh_type_check (FNode (node_new NGetValue) (tree p FNil) (tree x FNil)) FINSH_IDTYPE_ADDRESS err
      = (FNode ?g (FNode j cp FNil) (FNode i c FNil), err)"
    using p' x' by (simp add: child_addr_def node_data_type_def node_new_def node_defs)
  have "node_emits ?g (FNode j cp FNil) bs"
    unfolding node_emits_def using compile_emits[OF p'(3)]
    by (simp add: compile_node_of node_new_def has_flag_def node_defs)
  from compile_emits[OF this] compile_emits[OF x'(2)]
  have "node_emits ((node_new NAssign)\<lparr>n_dtype := width_data (Some w)\<rparr>)
      (FNode ?g (FNode j cp FNil) (FNode i c FNil))
      (bs @ bs' @ [FINSH_OP_ST w, FINSH_OP_LD_VALUE_STACK w])"
    unfolding node_emits_def
    by (simp add: compile_node_of node_new_def compile_assign_def compile_store_def code_defs
        has_flag_def FINSH_IDTYPE_ADDRESS_def)
  then show ?thesis using g
    by (intro checks_inner) (simp_all add: child_addr_def node_new_def del: finsh_type_check.simps(2))
qed

lemma checks_pre:
  assumes "lval_ok l" "is_var l" "b \<in> {Add, Sub}"
  shows "checks (FNode (node_new (pre_node b)) (FNode (lval_info l) FNil FNil) s) err
    (width_data (Some (lval_width l))) ((FINSH_OP_LD B32 # put_le 4 (lval_addr l)) @
      step_code b (lval_width l) (lval_addr l) @ [FINSH_OP_LD_VALUE_STACK B32]) s"
proof -
  have "node_emits ((node_new (pre_node b))\<lparr>n_dtype := width_data (Some (lval_width l))\<rparr>)
      (FNode (lval_node l FINSH_IDTYPE_ADDRESS) FNil FNil) ((FINSH_OP_LD B32 # put_le 4 (lval_addr l)) @
      step_code b (lval_width l) (lval_addr l) @ [FINSH_OP_LD_VALUE_STACK B32])"
    unfolding node_emits_def using compile_emits[OF emits_lval(2)[OF assms(1)]] assms(2,3)
    by (auto simp: compile_node_of node_new_def compile_prestep_def code_step_code
        finsh_code_byte_def)
  then show ?thesis using type_check_lval[OF assms(1)] assms(3)
    by (intro checks_inner) (auto simp: child_addr_def node_new_def pre_node_def simp del: finsh_type_check.simps(2))
qed

lemma checks_post:
  assumes "lval_ok l" "is_var l" "b \<in> {Add, Sub}"
  shows "checks (FNode (node_new (post_node b)) (FNode (lval_info l) FNil FNil) s) err
    (width_data (Some (lval_width l))) ((FINSH_OP_LD_VALUE (lval_width l) # put_le 4 (lval_addr l)) @
      (FINSH_OP_LD B32 # put_le 4 (lval_addr l)) @
      step_code b (lval_width l) (lval_addr l) @ [FINSH_OP_POP]) s"
proof -
  have "node_emits ((node_new (post_node b))\<lparr>n_dtype := width_data (Some (lval_width l))\<rparr>)
      (FNode (lval_node l 0) FNil FNil) ((FINSH_OP_LD_VALUE (lval_width l) # put_le 4 (lval_addr l)) @
      (FINSH_OP_LD B32 # put_le 4 (lval_addr l)) @
      step_code b (lval_width l) (lval_addr l) @ [FINSH_OP_POP])"
    unfolding node_emits_def using compile_emits[OF emits_lval(1)[OF assms(1)]] assms(2,3)
    by (auto simp: compile_node_of node_new_def compile_poststep_def code_step_code
        finsh_code_byte_def finsh_code_dword_def)
  then show ?thesis using type_check_lval[OF assms(1)] assms(3)
    by (intro checks_inner) (auto simp: child_addr_def node_new_def post_node_def simp del: finsh_type_check.simps(2))
qed

text \<open>A list of expressions, and a call.\<close>

definition checks_list :: "fnode \<Rightarrow> u8 \<Rightarrow> nat \<Rightarrow> u8 list \<Rightarrow> bool" where
  "checks_list t err n bs \<longleftrightarrow> (\<exists>t'. finsh_type_check t 0 err = (t', err) \<and> sibling_count t' = n \<and>
     (\<forall>code e. finsh_compile t' \<lparr>c_code = code, c_err = e\<rparr> = Some \<lparr>c_code = code @ bs, c_err = e\<rparr>))"

lemma checks_list_Cons:
  assumes "checks (tree x t) err d bs t" "checks_list t err n bs'"
  shows "checks_list (tree x t) err (Suc n) (bs @ bs')"
proof -
  from assms(2) obtain t' where t': "finsh_type_check t 0 err = (t', err)" "sibling_count t' = n"
    "\<forall>code e. finsh_compile t' \<lparr>c_code = code, c_err = e\<rparr> = Some \<lparr>c_code = code @ bs', c_err = e\<rparr>"
    unfolding checks_list_def by blast
  with assms(1) obtain i c where "finsh_type_check (tree x t) 0 err = (FNode i c t', err)" "node_emits i c bs"
    by (auto elim!: checksE)
  then show ?thesis unfolding checks_list_def using t' compile_emits[of i c bs t'] by auto
qed

lemma checks_call:
  assumes "checks_list ts err n bs"
  shows "checks (FNode (node_new NFunc) (FNode (call_info p f) FNil ts) s) err (width_data None)
    ((FINSH_OP_LD B32 # put_le 4 f) @ bs @ [FINSH_OP_SYSCALL, of_nat n]) s"
proof -
  from assms obtain t' where t': "finsh_type_check ts 0 err = (t', err)" "sibling_count t' = n"
    "\<forall>code e. finsh_compile t' \<lparr>c_code = code, c_err = e\<rparr> = Some \<lparr>c_code = code @ bs, c_err = e\<rparr>"
    unfolding checks_list_def by blast
  have c: "finsh_type_check (FNode (call_info p f) FNil ts) 0 err = (FNode (call_info p f) FNil t', err)"
    using t' by (simp add: call_info_def node_new_def node_data_type_def id_data_type_def has_flag_def
        node_defs)
  have "node_emits (call_info p f) FNil (FINSH_OP_LD B32 # put_le 4 f)"
    by (rule emits_Nil) (simp add: compile_node_def compile_id_def call_info_def node_new_def has_flag_def
        node_defs code_defs)
  from compile_emits[OF this] t'
  have "node_emits ((node_new NFunc)\<lparr>n_dtype := width_data None\<rparr>) (FNode (call_info p f) FNil t')
      ((FINSH_OP_LD B32 # put_le 4 f) @ bs @ [FINSH_OP_SYSCALL, of_nat n])"
    unfolding node_emits_def
    by (simp add: compile_node_of node_new_def compile_func_def code_defs)
  then show ?thesis using c
    by (intro checks_inner) (simp_all add: child_addr_def node_new_def call_info_def width_data_def node_defs
        del: finsh_type_check.simps(2))
qed

lemma checks_const:
  "t \<in> {NInt, NLong, NString, NNull} \<Longrightarrow>
    checks (FNode ((node_new t)\<lparr>n_value := i\<rparr>) FNil s) err (width_data (Some B32)) (FINSH_OP_LD B32 # put_le 4 i) s"
  "checks (FNode ((node_new NChar)\<lparr>n_value := ucast c\<rparr>) FNil s) err (width_data (Some B8))
    (FINSH_OP_LD B8 # put_le 1 (ucast c)) s"
  by (rule checksI; auto simp: node_data_type_def node_new_def width_data_def compile_node_def code_defs
      intro!: emits_Nil)+

lemma checks_tree:
  "compilable x \<Longrightarrow> checks (tree x s) err (width_data (expr_width x)) (gen x) s"
proof (induction x arbitrary: s err)
  case (EBin b x y)
  then show ?case
    using checks_bin[of x err "value_width x" "gen x" y "width_data (expr_width y)" "gen y" b s]
    by (auto simp: value_width_def)
next
  case (ENot x)
  then show ?case
    using checks_not[of x err "value_width x" "gen x" s] by (auto simp: value_width_def)
next
  case (EStore p x)
  then show ?case
    using checks_store[of p err B32 "gen p" x "width_data (expr_width x)" "gen x" s] by auto
next
  case (EDeref p)
  then show ?case using checks_deref[of p err B32 "gen p" s] by auto
next
  case (ECall p f xs)
  have "checks_list (trees xs) err (size xs) (gens xs)"
    using ECall.IH ECall.prems
  proof (induction xs)
    case (Cons x xs)
    then have "checks (tree x (trees xs)) err (width_data (expr_width x)) (gen x) (trees xs)" by simp
    moreover have "checks_list (trees xs) err (size xs) (gens xs)" using Cons by simp
    ultimately show ?case by (simp add: checks_list_Cons)
  qed (simp add: checks_list_def)
  from checks_call[OF this, of p f s] show ?case by simp
next
  case (EChar c)
  then show ?case using checks_const(2)[of c s err] by simp
next
  case (EAssign l x)
  then show ?case using checks_assign[of l x err "width_data (expr_width x)" "gen x" s] by simp
next
  case (EPre b l)
  then show ?case using checks_pre[of l b s err] by simp
next
  case (EPost b l)
  then show ?case using checks_post[of l b s err] by simp
next
  case (EAddr l)
  then show ?case using checks_addr[of l s err] by simp
qed (simp_all add: checks_const(1) checks_lval)

lemma checks_trees:
  "list_all compilable xs \<Longrightarrow> checks_list (trees xs) err (size xs) (gens xs)"
  by (induction xs) (auto intro: checks_list_Cons checks_tree simp: checks_list_def[of FNil])

section \<open>The machine computes the meaning\<close>

lemma computes_addr: "computes fcall (FINSH_OP_LD B32 # put_le 4 a) m [(B32, sint a)] m"
proof -
  have "ucast a = a" by (rule bit_word_eqI) (simp add: bit_simps)
  then show ?thesis using computes_ld[of fcall B32 a m] by simp
qed

lemma computes_char: "computes fcall (FINSH_OP_LD B8 # put_le 1 (ucast c)) m [(B8, uint c)] m"
  for c :: u8
proof -
  have "ucast (ucast c :: u32) = c" by (rule bit_word_eqI) (simp add: bit_simps)
  then have "wrap B8 (uint (ucast c :: u32)) = uint c" by simp
  then show ?thesis using computes_ld[of fcall B8 "ucast c" m] by simp
qed

lemma get_lvalE:
  assumes "get_lval l m = Some i"
  obtains j where "load (lval_width l) m (lval_addr l) = Some j" "i = wrap (lval_width l) j"
  using assms unfolding get_lval_def map_option_eq_Some by blast

lemma set_lvalE:
  assumes "set_lval l i m = Some (r, m')"
  obtains "store (lval_width l) m (lval_addr l) (wrap (lval_width l) i) = Some m'" "r = wrap (lval_width l) i"
  using assms unfolding set_lval_def map_option_eq_Some by blast

text \<open>Storing through the address that is under the value, and loading the value again.\<close>

lemma computes_st_ld:
  assumes c: "computes fcall bs m [(B32, p), (w', j)] m1" and w: "nbytes w \<le> nbytes w'"
    and s: "store w m1 (word_of_int p) (wrap w j) = Some m2"
  shows "computes fcall (bs @ [FINSH_OP_ST w, FINSH_OP_LD_VALUE_STACK w]) m [(w, wrap w j)] m2"
proof -
  from load_store[OF s] obtain k where k: "load w m2 (word_of_int p) = Some k" "wrap w k = wrap w j"
    by auto
  have "computes fcall ((bs @ [FINSH_OP_ST w]) @ [FINSH_OP_LD_VALUE_STACK w]) m [(w, wrap w k)] m2"
    by (rule computes_ld_value_stack[OF computes_st[OF c w s] k(1)])
  with k show ?thesis by simp
qed

lemma computes_step_code:
  assumes c: "computes fcall bs m [(B32, sint a)] m1" and l: "load w m1 a = Some i"
    and r: "c_op b (wrap w i) 1 = Some r" and s: "store w m1 a (wrap w r) = Some m2"
  shows "computes fcall (bs @ step_code b w a) m [(B32, sint a)] m2"
proof -
  have one: "wrap w (uint (1 :: u32)) = 1" by (cases w) simp_all
  have "computes fcall ((FINSH_OP_LD_VALUE w # put_le 4 a) @ (FINSH_OP_LD w # put_le (nbytes w) 1)) m1
      [(w, wrap w i), (w, 1)] m1"
    using computes_append[OF computes_ld_value[OF l, of fcall] computes_ld[of fcall w 1]] one by simp
  from computes_bin[OF this, of b r] r one
  have "computes fcall (FINSH_OP_LD_VALUE w # put_le 4 a @ FINSH_OP_LD w # put_le (nbytes w) 1 @
      [FINSH_OP_bin b w]) m1 [(w, wrap w r)] m1" by simp
  from computes_st[OF computes_append[OF c this, simplified], of w m2] s
  show ?thesis by (simp add: step_code_def)
qed

lemma value_width_simps [simp]:
  "expr_width x = Some w \<Longrightarrow> value_width x = w" "expr_width x = None \<Longrightarrow> value_width x = B32"
  by (simp_all add: value_width_def)

lemma computes_eval:
  "compilable x \<Longrightarrow> eval fcall x m = Some (i, m') \<Longrightarrow> computes fcall (gen x) m [(value_width x, i)] m'"
  "list_all (\<lambda>x. compilable x \<and> value_width x = B32) xs \<Longrightarrow> evals fcall xs m = Some (is, m') \<Longrightarrow>
     computes fcall (gens xs) m (map (Pair B32) is) m' \<and> size is = size xs"
proof (induction fcall x m and fcall xs m arbitrary: i m' and "is" m' rule: eval_evals.induct)
  case (1 fcall c m)
  then show ?case using computes_char[of fcall c m] by simp
next
  case (2 fcall t c m)
  then show ?case using computes_addr[of fcall c] by simp
next
  case (3 fcall l m)
  then show ?case by (auto elim!: get_lvalE bind_SomeE intro: computes_ld_value)
next
  case (4 fcall b x y m)
  from 4(4) obtain i1 m1 j r where e: "eval fcall x m = Some (i1, m1)" "eval fcall y m1 = Some (j, m')"
    "c_op b i1 (wrap (value_width x) j) = Some r" "i = wrap (value_width x) r"
    by (auto elim!: bind_SomeE)
  then have "computes fcall (gen x @ gen y) m [(value_width x, i1), (value_width y, j)] m'"
    using computes_append 4 by fastforce
  from computes_bin[OF this] e 4(3) show ?case by (auto simp: value_width_def)
next
  case (5 fcall x m)
  then show ?case using computes_bw by (fastforce elim!: bind_SomeE simp: value_width_def)
next
  case (6 fcall l x m)
  then obtain j m1 where e: "eval fcall x m = Some (j, m1)" "set_lval l j m1 = Some (i, m')"
    by (auto elim!: bind_SomeE)
  with 6 have "computes fcall ((FINSH_OP_LD B32 # put_le 4 (lval_addr l)) @ gen x) m
      [(B32, sint (lval_addr l)), (value_width x, j)] m1"
    using computes_append[OF computes_addr] by fastforce
  from computes_st_ld[OF this] e(2) 6(2) show ?case by (auto elim!: set_lvalE)
next
  case (7 fcall p x m)
  then obtain a m1 j m2 where e: "eval fcall p m = Some (a, m1)" "eval fcall x m1 = Some (j, m2)"
    "store B32 m2 (word_of_int a) (wrap B32 j) = Some m'" "i = wrap B32 j" by (auto elim!: bind_SomeE)
  with 7 have "computes fcall (gen p @ gen x) m [(B32, a), (B32, j)] m2"
    using computes_append by fastforce
  from computes_st_ld[OF this _ e(3)] e(4) 7(3) show ?case by simp
next
  case (8 fcall b l m)
  then have w: "lval_width l = B32" by simp
  from 8 obtain i0 r where "get_lval l m = Some i0" "c_op b i0 1 = Some r" "set_lval l r m = Some (i, m')"
    by (auto elim!: bind_SomeE)
  then obtain j where e: "load B32 m (lval_addr l) = Some j" "c_op b (wrap B32 j) 1 = Some r"
    "store B32 m (lval_addr l) (wrap B32 r) = Some m'" "i = wrap B32 r"
    using w by (auto elim!: get_lvalE set_lvalE)
  from load_store[OF e(3)] obtain k where k: "load B32 m' (lval_addr l) = Some k" "wrap B32 k = wrap B32 r"
    by auto
  from computes_ld_value_stack[OF computes_step_code[OF computes_addr e(1,2,3)], of B32 k] k e(4)
  show ?case using w by simp
next
  case (9 fcall b l m)
  then obtain r n where "get_lval l m = Some i" "c_op b i 1 = Some r" "set_lval l r m = Some (n, m')"
    by (auto elim!: bind_SomeE)
  then obtain j where e: "load (lval_width l) m (lval_addr l) = Some j" "i = wrap (lval_width l) j"
    "c_op b (wrap (lval_width l) j) 1 = Some r"
    "store (lval_width l) m (lval_addr l) (wrap (lval_width l) r) = Some m'"
    by (auto elim!: get_lvalE set_lvalE)
  have "computes fcall (((FINSH_OP_LD B32 # put_le 4 (lval_addr l)) @
      step_code b (lval_width l) (lval_addr l)) @ [FINSH_OP_POP]) m [] m'"
    by (rule computes_pop) (use computes_step_code[OF computes_addr e(1,3,4)] in simp)
  from computes_append[OF computes_ld_value[OF e(1)] this] e(2) show ?case by simp
next
  case (10 fcall l m)
  then show ?case using computes_addr[of fcall "lval_addr l"] by simp
next
  case (11 fcall p m)
  then obtain a j where e: "eval fcall p m = Some (a, m')" "load B32 m' (word_of_int a) = Some j"
    "i = wrap B32 j" by (auto elim!: bind_SomeE)
  with 11 have "computes fcall (gen p) m [(B32, a)] m'" by simp
  from computes_ld_value_stack[OF this e(2)] e(3) 11(2) show ?case by simp
next
  case (12 fcall p f xs m)
  then obtain as m1 r where e: "evals fcall xs m = Some (as, m1)"
    "fcall f (if as = [] then [0] else map word_of_int as) m1 = Some (r, m')" "i = sint r"
    by (auto elim!: bind_SomeE)
  from 12(1)[OF _ e(1)] 12(2) have a: "computes fcall (gens xs) m (map (Pair B32) as) m1"
    "size as = size xs" by auto
  have "computes fcall ((FINSH_OP_LD B32 # put_le 4 f) @ gens xs) m
      ((B32, sint f) # map (Pair B32) as) m1"
    using computes_append[OF computes_addr a(1)] by simp
  from computes_call[OF this, of r m'] e(2,3) a(2) 12(2) show ?case by simp
next
  case (13 fcall m)
  then show ?case by (simp add: computes_Nil)
next
  case (14 fcall x xs m)
  then obtain i m1 is' where e: "eval fcall x m = Some (i, m1)" "evals fcall xs m1 = Some (is', m')"
    "is = i # is'" by (auto elim!: bind_SomeE)
  with 14 have "computes fcall (gen x) m [(B32, i)] m1"
    "computes fcall (gens xs) m1 (map (Pair B32) is') m' \<and> size is' = size xs" by fastforce+
  with e(3) show ?case using computes_append[of fcall "gen x" m "[(B32, i)]" m1] by auto
qed

section \<open>Whole lines\<close>

text \<open>The expressions of a line one after the other; the line's value is the last one's.\<close>

fun eval_line :: "fcalls \<Rightarrow> fexpr \<Rightarrow> fexpr list \<Rightarrow> fmem \<Rightarrow> (int \<times> fmem) option" where
  "eval_line fcall x [] m = eval fcall x m"
| "eval_line fcall x (y # ys) m = do { (_, m) \<leftarrow> eval fcall x m; eval_line fcall y ys m }"

fun line_code :: "fexpr \<Rightarrow> fexpr list \<Rightarrow> u8 list" where
  "line_code x [] = gen x"
| "line_code x (y # ys) = (gen x @ [FINSH_OP_POP]) @ line_code y ys"

lemma compile_line_code:
  "list_all compilable (x # xs) \<Longrightarrow>
    compile_line (fst (finsh_type_check (trees (x # xs)) 0 err)) \<lparr>c_code = code, c_err = e\<rparr> =
      Some \<lparr>c_code = code @ line_code x xs, c_err = e\<rparr>"
proof (induction xs arbitrary: x code)
  case Nil
  then have "checks (tree x FNil) err (width_data (expr_width x)) (gen x) FNil" by (simp add: checks_tree)
  then show ?case by (auto elim!: checksE simp: compile_emits simp del: finsh_compile.simps(2))
next
  case (Cons y ys)
  from Cons.prems have "checks (tree x (trees (y # ys))) err (width_data (expr_width x)) (gen x) (trees (y # ys))"
    by (simp add: checks_tree)
  then obtain i c where x: "fst (finsh_type_check (trees (x # y # ys)) 0 err) =
      FNode i c (fst (finsh_type_check (trees (y # ys)) 0 err))" "node_emits i c (gen x)"
    by (auto elim!: checksE)
  have "checks (tree y (trees ys)) err (width_data (expr_width y)) (gen y) (trees ys)"
    using Cons.prems by (simp add: checks_tree)
  then have "fst (finsh_type_check (trees (y # ys)) 0 err) \<noteq> FNil" by (auto elim!: checksE)
  then show ?case
    using x Cons by (simp add: compile_emits finsh_code_byte_def del: finsh_compile.simps(2) trees.simps)
qed

lemma computes_line:
  "list_all compilable (x # xs) \<Longrightarrow> eval_line fcall x xs m = Some (i, m') \<Longrightarrow>
    computes fcall (line_code x xs) m [(value_width (last (x # xs)), i)] m'"
proof (induction fcall x xs m rule: eval_line.induct)
  case (1 fcall x m)
  then show ?case by (simp add: computes_eval(1))
next
  case (2 fcall x y ys m)
  then obtain j m1 where e: "eval fcall x m = Some (j, m1)" "eval_line fcall y ys m1 = Some (i, m')"
    by (auto elim!: bind_SomeE)
  have "computes fcall (gen x @ [FINSH_OP_POP]) m [] m1"
    by (rule computes_pop[of _ _ _ "[]"]) (use computes_eval(1)[OF _ e(1)] 2 in auto)
  from computes_append[OF this 2(1)] e 2 show ?case by simp
qed

lemma finsh_compiler_run_line:
  assumes "list_all compilable (x # xs)"
  shows "finsh_compiler_run (trees (x # xs)) stk err = (if size (line_code x xs) \<le> FINSH_TEXT_MAX
    then Some (line_code x xs @ replicate (FINSH_TEXT_MAX - size (line_code x xs)) FINSH_OP_NOOP, stk[0 := 0], err)
    else None)"
proof -
  have "snd (finsh_type_check (trees (x # xs)) 0 err) = err"
    using checks_trees[OF assms, of err] by (auto simp: checks_list_def)
  then show ?thesis
    using compile_line_code[OF assms, of err "[]"]
    by (simp add: finsh_compiler_run_def split_beta FINSH_NODE_VALUE_def FINSH_OP_NOOP_def del: trees.simps)
qed

lemma run_computes:
  assumes "computes fcall bs m ps m'" "size bs = FINSH_TEXT_MAX" "size stk = FINSH_STACK_MAX"
  obtains v where "finsh_vm_run fcall bs stk m = Some v" "v_mem v = m'" "v_sp v = size ps"
    "slots_hold (v_stk v) 0 ps"
proof -
  let ?v = "\<lparr>v_stk = stk, v_sp = 0, v_pc = 0, v_mem = m\<rparr>"
  have "vm_at bs ?v" "code_at bs (v_pc ?v) bs" "v_mem ?v = m"
    using assms by (simp_all add: vm_at_def code_at_def)
  from computesD[OF assms(1) this] obtain v where "vm_steps fcall bs ?v v" "v_pc v = v_pc ?v + size bs"
    "v_sp v = v_sp ?v + size ps" "v_mem v = m'" "slots_hold (v_stk v) (v_sp ?v) ps" by metis
  with assms(2) that[of v] show ?thesis by (simp add: finsh_vm_run_def vm_loop_steps)
qed

text \<open>A shell line \<open>x = 40 + 2; x++; x * 2\<close> for an int variable \<open>x\<close>.\<close>

definition demo_mem :: fmem where
  "demo_mem a = (if 0x20000014 \<le> a \<and> a < 0x20000018 then Some 0 else None)"

definition demo_x :: lval where "demo_x = LVar 0x20000000 TInt"

definition demo_line :: "fexpr list" where
  "demo_line = [EPost Add demo_x, EBin Mul (EVar demo_x) (EConst NInt 2)]"

definition demo_first :: fexpr where
  "demo_first = EAssign demo_x (EBin Add (EConst NInt 40) (EConst NInt 2))"

definition demo_calls :: fcalls where "demo_calls f args m = None"

text \<open>
  Assigning to a \<open>char\<close> leaves three bytes of its address in the slot, and they are part
  of the value the shell prints: \<open>c = 'a'\<close> for a variable at \<open>0x20000014\<close>.
\<close>

lemma char_line_shows_address_bytes:
  "case finsh_compiler_run (trees [EAssign (LVar 0x20000000 TChar) (EChar 97)]) (replicate 64 0) 0 of
     Some (code, stk, err) \<Rightarrow> (case finsh_vm_run demo_calls code stk demo_mem of
       Some v \<Rightarrow> finsh_stack_bottom v = 0x20000061 | None \<Rightarrow> False)
   | None \<Rightarrow> False"
  by code_simp

text \<open>
  The value of \<open>++c\<close> is loaded as a double word from the address of the \<open>char\<close>: with the bytes
  \<open>4, 1\<close> in memory it is \<open>0x105\<close>.
\<close>

lemma char_preinc_loads_neighbours:
  "case finsh_compiler_run (trees [EPre Add (LVar 0x20000000 TChar)]) (replicate 64 0) 0 of
     Some (code, stk, err) \<Rightarrow>
       (case finsh_vm_run demo_calls code stk (demo_mem(0x20000014 \<mapsto> 4, 0x20000015 \<mapsto> 1)) of
          Some v \<Rightarrow> finsh_stack_bottom v = 0x105 | None \<Rightarrow> False)
   | None \<Rightarrow> False"
  by code_simp

text \<open>The result of a call has no data type: \<open>f() + 2\<close> emits no addition, its value is 2's slot above.\<close>

lemma call_result_is_not_added:
  "case finsh_compiler_run (trees [EBin Add (ECall 0 0x8000000 []) (EConst NInt 2)]) (replicate 64 0) 0 of
     Some (code, stk, err) \<Rightarrow> (case finsh_vm_run (\<lambda>f as m. Some (40, m)) code stk demo_mem of
       Some v \<Rightarrow> finsh_stack_bottom v = 40 \<and> v_sp v = 2 | None \<Rightarrow> False)
   | None \<Rightarrow> False"
  by code_simp

text \<open>A value of a \<open>void*\<close> variable emits no code at all.\<close>

lemma voidp_variable_emits_nothing:
  "finsh_compile (fst (finsh_type_check (tree (EVar (LVar p TVoidp)) FNil) 0 0)) s = Some s"
  by (simp add: node_data_type_def id_data_type_def node_new_def has_flag_def node_defs
      compile_node_def compile_id_def compile_load_def)

end
