(* ===== verification/FinshVar.thy ===== *)
theory FinshVar
  imports FinshExpr
begin

text \<open>
  The symbols of the FinSH shell (\<open>components/finsh/finsh_var.c\<close>, the system call list of
  \<open>finsh_vm.c\<close>) and the nodes made of them (\<open>finsh_node.c\<close>). The variable table is a list of
  eight entries at a base address; the values stand in memory, inside the entries. A string
  is the list of its characters before the null.
\<close>

section \<open>Variables\<close>

definition FINSH_NAME_MAX :: nat where "FINSH_NAME_MAX = 16"
definition FINSH_VARIABLE_MAX :: nat where "FINSH_VARIABLE_MAX = 8"
definition FINSH_NODE_MAX :: nat where "FINSH_NODE_MAX = 16"

record fvar =
  fv_name :: "u8 list"
  fv_type :: vtype

record named =
  nm_name :: "u8 list"
  nm_type :: vtype
  nm_addr :: u32
  nm_ptr :: u32

record finsh =
  f_base :: u32
  f_vars :: "fvar list"
  f_mem :: fmem
  f_sysvars :: "named list"
  f_sysvar_list :: "named list"
  f_syscalls :: "named list"
  f_syscall_list :: "named list"
  f_nodes :: "ntype list"
  f_errno :: u8

text \<open>\<open>strncmp (a, b, n) == 0\<close> on strings.\<close>

definition strn_eq :: "nat \<Rightarrow> u8 list \<Rightarrow> u8 list \<Rightarrow> bool" where
  "strn_eq n a b \<longleftrightarrow> take n a = take n b"

definition var_addr :: "finsh \<Rightarrow> nat \<Rightarrow> u32" where
  "var_addr s i = f_base s + of_nat (24 * i)"

definition no_var :: fvar where "no_var = \<lparr>fv_name = [], fv_type = TUnknown\<rparr>"

definition clear_value :: "fmem \<Rightarrow> u32 \<Rightarrow> fmem" where
  "clear_value m a = m(a \<mapsto> 0, a + 1 \<mapsto> 0, a + 2 \<mapsto> 0, a + 3 \<mapsto> 0)"

fun clear_values :: "nat \<Rightarrow> u32 \<Rightarrow> fmem \<Rightarrow> fmem" where
  "clear_values 0 b m = m"
| "clear_values (Suc n) b m = clear_values n (b + 24) (clear_value m (var_value_addr b))"

definition finsh_var_init :: "finsh \<Rightarrow> finsh" where
  "finsh_var_init s = s\<lparr>f_vars := replicate FINSH_VARIABLE_MAX no_var,
     f_mem := clear_values FINSH_VARIABLE_MAX (f_base s) (f_mem s)\<rparr>"

text \<open>The loop of the insertion: \<open>None\<close> for a variable of that name, else the first empty entry.\<close>

fun var_scan :: "u8 list \<Rightarrow> fvar list \<Rightarrow> nat \<Rightarrow> nat option \<Rightarrow> nat option option" where
  "var_scan name [] i empt = Some empt"
| "var_scan name (v # vs) i empt =
     (if strn_eq FINSH_NAME_MAX (fv_name v) name then None
      else var_scan name vs (i + 1)
        (if fv_type v = TUnknown \<and> empt = None then Some i else empt))"

definition finsh_var_insert :: "u8 list \<Rightarrow> vtype \<Rightarrow> finsh \<Rightarrow> int \<times> finsh" where
  "finsh_var_insert name t s = (case var_scan name (f_vars s) 0 None of
     None \<Rightarrow> (- 1, s)
   | Some None \<Rightarrow> (- 1, s)
   | Some (Some i) \<Rightarrow>
       (int i, s\<lparr>f_vars := (f_vars s)[i := \<lparr>fv_name = take FINSH_NAME_MAX name, fv_type = t\<rparr>]\<rparr>))"

fun var_index :: "u8 list \<Rightarrow> fvar list \<Rightarrow> nat option" where
  "var_index name [] = None"
| "var_index name (v # vs) = (if strn_eq FINSH_NAME_MAX (fv_name v) name then Some 0
     else map_option Suc (var_index name vs))"

definition finsh_var_delete :: "u8 list \<Rightarrow> finsh \<Rightarrow> int \<times> finsh" where
  "finsh_var_delete name s = (case var_index name (f_vars s) of None \<Rightarrow> (- 1, s)
     | Some i \<Rightarrow> (0, s\<lparr>f_vars := (f_vars s)[i := no_var],
         f_mem := clear_value (f_mem s) (var_value_addr (var_addr s i))\<rparr>))"

text \<open>The pointer to the variable's entry, with its type.\<close>

definition finsh_var_lookup :: "u8 list \<Rightarrow> finsh \<Rightarrow> (u32 \<times> vtype) option" where
  "finsh_var_lookup name s =
     map_option (\<lambda>i. (var_addr s i, fv_type (f_vars s ! i))) (var_index name (f_vars s))"

section \<open>System variables and calls\<close>

text \<open>
  \<open>item\<close> is the new element, or \<open>None\<close> when \<open>rt_malloc\<close> failed. The list is searched for a
  name that the sought one is a prefix of, the table for an equal one.
\<close>

definition finsh_sysvar_append :: "named option \<Rightarrow> finsh \<Rightarrow> finsh" where
  "finsh_sysvar_append item s = (case item of None \<Rightarrow> s
     | Some x \<Rightarrow> s\<lparr>f_sysvar_list := x # f_sysvar_list s\<rparr>)"

definition finsh_sysvar_lookup :: "u8 list \<Rightarrow> finsh \<Rightarrow> named option" where
  "finsh_sysvar_lookup name s = (case find (\<lambda>x. nm_name x = name) (f_sysvars s) of
     Some x \<Rightarrow> Some x
   | None \<Rightarrow> find (\<lambda>x. strn_eq (size name) (nm_name x) name) (f_sysvar_list s))"

definition finsh_syscall_append :: "named option \<Rightarrow> finsh \<Rightarrow> finsh" where
  "finsh_syscall_append item s = (case item of None \<Rightarrow> s
     | Some x \<Rightarrow> s\<lparr>f_syscall_list := x # f_syscall_list s\<rparr>)"

definition finsh_syscall_lookup :: "u8 list \<Rightarrow> finsh \<Rightarrow> named option" where
  "finsh_syscall_lookup name s = (case find (\<lambda>x. nm_name x = name) (f_syscalls s) of
     Some x \<Rightarrow> Some x
   | None \<Rightarrow> find (\<lambda>x. strn_eq (size name) (nm_name x) name) (f_syscall_list s))"

section \<open>Nodes\<close>

definition FINSH_ERROR_MEMORY_FULL :: u8 where "FINSH_ERROR_MEMORY_FULL = 6"
definition FINSH_ERROR_UNKNOWN_SYMBOL :: u8 where "FINSH_ERROR_UNKNOWN_SYMBOL = 13"

definition finsh_node_init :: "finsh \<Rightarrow> finsh" where
  "finsh_node_init s = s\<lparr>f_nodes := replicate FINSH_NODE_MAX NUnknown\<rparr>"

fun free_node :: "ntype list \<Rightarrow> nat option" where
  "free_node [] = None"
| "free_node (t # ts) = (if t = NUnknown then Some 0 else map_option Suc (free_node ts))"

text \<open>
  A free node is one \<open>finsh_node_init\<close> has zeroed, so the new node has all other fields zero.
\<close>

definition finsh_node_allocate :: "ntype \<Rightarrow> finsh \<Rightarrow> ninfo option \<times> finsh" where
  "finsh_node_allocate t s = (case free_node (f_nodes s) of None \<Rightarrow> (None, s)
     | Some i \<Rightarrow> (Some (node_new t), s\<lparr>f_nodes := (f_nodes s)[i := t]\<rparr>))"

definition node_or_full :: "(ninfo \<Rightarrow> ninfo) \<Rightarrow> ntype \<Rightarrow> finsh \<Rightarrow> ninfo option \<times> finsh" where
  "node_or_full f t s = (case finsh_node_allocate t s of
     (None, s) \<Rightarrow> (None, s\<lparr>f_errno := FINSH_ERROR_MEMORY_FULL\<rparr>)
   | (Some i, s) \<Rightarrow> (Some (f i), s))"

definition finsh_node_new_id :: "u8 list \<Rightarrow> finsh \<Rightarrow> ninfo option \<times> finsh" where
  "finsh_node_new_id name s =
     (case finsh_var_lookup name s of
        Some (p, t) \<Rightarrow> node_or_full (\<lambda>i. i\<lparr>n_id := Some \<lparr>s_ptr = p, s_type = t, s_addr = 0\<rparr>,
          n_idtype := FINSH_IDTYPE_VAR\<rparr>) NId s
      | None \<Rightarrow> (case finsh_sysvar_lookup name s of
          Some x \<Rightarrow> node_or_full (\<lambda>i. i\<lparr>n_id := Some \<lparr>s_ptr = nm_ptr x, s_type = nm_type x,
            s_addr = nm_addr x\<rparr>, n_idtype := FINSH_IDTYPE_SYSVAR\<rparr>) NId s
        | None \<Rightarrow> (case finsh_syscall_lookup name s of
            Some x \<Rightarrow> node_or_full (\<lambda>i. i\<lparr>n_id := Some \<lparr>s_ptr = nm_ptr x, s_type = TUnknown,
              s_addr = nm_addr x\<rparr>, n_idtype := FINSH_IDTYPE_SYSCALL\<rparr>) NId s
          | None \<Rightarrow> (None, s\<lparr>f_errno := FINSH_ERROR_UNKNOWN_SYMBOL\<rparr>))))"

definition finsh_node_new_char :: "u8 \<Rightarrow> finsh \<Rightarrow> ninfo option \<times> finsh" where
  "finsh_node_new_char c = node_or_full (\<lambda>i. i\<lparr>n_value := ucast c\<rparr>) NChar"

definition finsh_node_new_int :: "u32 \<Rightarrow> finsh \<Rightarrow> ninfo option \<times> finsh" where
  "finsh_node_new_int x = node_or_full (\<lambda>i. i\<lparr>n_value := x\<rparr>) NInt"

definition finsh_node_new_long :: "u32 \<Rightarrow> finsh \<Rightarrow> ninfo option \<times> finsh" where
  "finsh_node_new_long x = node_or_full (\<lambda>i. i\<lparr>n_value := x\<rparr>) NLong"

definition finsh_node_new_ptr :: "u32 \<Rightarrow> finsh \<Rightarrow> ninfo option \<times> finsh" where
  "finsh_node_new_ptr x = node_or_full (\<lambda>i. i\<lparr>n_value := x\<rparr>) NNull"

section \<open>The variable table\<close>

lemma var_index_Some:
  "var_index name vs = Some i \<Longrightarrow> i < size vs \<and> strn_eq FINSH_NAME_MAX (fv_name (vs ! i)) name \<and>
    (\<forall>j < i. \<not> strn_eq FINSH_NAME_MAX (fv_name (vs ! j)) name)"
  by (induction vs arbitrary: i) (auto split: if_splits simp: less_Suc_eq_0_disj nth_Cons')

lemma var_index_None:
  "var_index name vs = None \<longleftrightarrow> (\<forall>v \<in> set vs. \<not> strn_eq FINSH_NAME_MAX (fv_name v) name)"
  by (induction vs) auto

lemma var_index_eqI:
  "i < size vs \<Longrightarrow> strn_eq FINSH_NAME_MAX (fv_name (vs ! i)) name \<Longrightarrow>
    (\<forall>j < i. \<not> strn_eq FINSH_NAME_MAX (fv_name (vs ! j)) name) \<Longrightarrow> var_index name vs = Some i"
proof (induction vs arbitrary: i)
  case (Cons v vs)
  show ?case
  proof (cases i)
    case 0
    with Cons.prems show ?thesis by simp
  next
    case (Suc k)
    have "\<not> strn_eq FINSH_NAME_MAX (fv_name v) name" using Cons.prems(3) Suc by force
    moreover have "\<forall>j < k. \<not> strn_eq FINSH_NAME_MAX (fv_name (vs ! j)) name"
      using Cons.prems(3) Suc by force
    ultimately show ?thesis using Cons.IH[of k] Cons.prems Suc by simp
  qed
qed simp

lemma var_scan_Some:
  "var_scan name vs k e = Some r \<Longrightarrow> (\<forall>v \<in> set vs. \<not> strn_eq FINSH_NAME_MAX (fv_name v) name) \<and>
     (r = e \<or> e = None \<and> (\<exists>i < size vs. r = Some (k + i) \<and> fv_type (vs ! i) = TUnknown))"
proof (induction vs arbitrary: k e)
  case (Cons v vs)
  let ?e = "if fv_type v = TUnknown \<and> e = None then Some k else e"
  from Cons.prems have n: "\<not> strn_eq FINSH_NAME_MAX (fv_name v) name"
    and r: "var_scan name vs (k + 1) ?e = Some r" by (auto split: if_splits)
  from Cons.IH[OF r] n show ?case by (fastforce split: if_splits simp: nth_Cons')
qed simp

text \<open>
  Every variable is found through its entry: names are kept to 16 characters, and two
  entries in use never agree on those.
\<close>

definition vars_ok :: "fvar list \<Rightarrow> bool" where
  "vars_ok vs \<longleftrightarrow> size vs = FINSH_VARIABLE_MAX \<and> (\<forall>i < size vs. \<forall>j < size vs. i \<noteq> j \<and> fv_name (vs ! i) \<noteq> [] \<longrightarrow>
     \<not> strn_eq FINSH_NAME_MAX (fv_name (vs ! i)) (fv_name (vs ! j)))"

lemma insertE:
  assumes "finsh_var_insert name t s = (r, s')" "0 \<le> r"
  obtains i where "r = int i" "i < size (f_vars s)" "fv_type (f_vars s ! i) = TUnknown"
    "\<forall>v \<in> set (f_vars s). \<not> strn_eq FINSH_NAME_MAX (fv_name v) name"
    "s' = s\<lparr>f_vars := (f_vars s)[i := \<lparr>fv_name = take FINSH_NAME_MAX name, fv_type = t\<rparr>]\<rparr>"
proof -
  from assms obtain i where i: "var_scan name (f_vars s) 0 None = Some (Some i)" "r = int i"
    "s' = s\<lparr>f_vars := (f_vars s)[i := \<lparr>fv_name = take FINSH_NAME_MAX name, fv_type = t\<rparr>]\<rparr>"
    by (auto simp: finsh_var_insert_def split: option.splits)
  with var_scan_Some[OF i(1)] that show ?thesis by auto
qed

lemma strn_eq_take [simp]: "strn_eq n (take n a) b = strn_eq n a b" "strn_eq n a a"
  by (simp_all add: strn_eq_def)

lemma lookup_after_insert:
  assumes "finsh_var_insert name t s = (r, s')" "0 \<le> r"
  shows "finsh_var_lookup name s' = Some (var_addr s (nat r), t)"
proof -
  from insertE[OF assms] obtain i where i: "r = int i" "i < size (f_vars s)"
    "\<forall>v \<in> set (f_vars s). \<not> strn_eq FINSH_NAME_MAX (fv_name v) name"
    "s' = s\<lparr>f_vars := (f_vars s)[i := \<lparr>fv_name = take FINSH_NAME_MAX name, fv_type = t\<rparr>]\<rparr>" by metis
  then have "var_index name (f_vars s') = Some i"
    by (intro var_index_eqI) (auto simp: nth_list_update)
  with i show ?thesis by (simp add: finsh_var_lookup_def var_addr_def)
qed

text \<open>A variable is inserted only under a name that was not in use.\<close>

lemma insert_was_new:
  assumes "finsh_var_insert name t s = (r, s')" "0 \<le> r"
  shows "finsh_var_lookup name s = None"
proof -
  from insertE[OF assms] have "\<forall>v \<in> set (f_vars s). \<not> strn_eq FINSH_NAME_MAX (fv_name v) name" .
  then show ?thesis by (simp add: finsh_var_lookup_def var_index_None[THEN iffD2])
qed

lemma vars_ok_insert:
  assumes "vars_ok (f_vars s)" "finsh_var_insert name t s = (r, s')"
  shows "vars_ok (f_vars s')"
proof (cases "0 \<le> r")
  case True
  from insertE[OF assms(2) this] obtain i where i: "i < size (f_vars s)"
    "\<forall>v \<in> set (f_vars s). \<not> strn_eq FINSH_NAME_MAX (fv_name v) name"
    "s' = s\<lparr>f_vars := (f_vars s)[i := \<lparr>fv_name = take FINSH_NAME_MAX name, fv_type = t\<rparr>]\<rparr>" by metis
  have "\<not> strn_eq FINSH_NAME_MAX (fv_name (f_vars s ! j)) name \<and>
      \<not> strn_eq FINSH_NAME_MAX name (fv_name (f_vars s ! j))" if "j < size (f_vars s)" for j
    using i(2) that by (metis nth_mem strn_eq_def)
  then show ?thesis using assms(1) i
    by (auto simp: vars_ok_def nth_list_update strn_eq_def)
next
  case False
  then show ?thesis using assms by (auto simp: finsh_var_insert_def split: option.splits)
qed

lemma lookup_after_delete:
  assumes "vars_ok (f_vars s)" "name \<noteq> []" "finsh_var_delete name s = (0, s')"
  shows "finsh_var_lookup name s' = None"
proof -
  from assms(3) obtain i where i: "var_index name (f_vars s) = Some i"
    "f_vars s' = (f_vars s)[i := no_var]" by (auto simp: finsh_var_delete_def split: option.splits)
  have "\<not> strn_eq FINSH_NAME_MAX (fv_name v) name" if "v \<in> set ((f_vars s)[i := no_var])" for v
  proof -
    from that obtain j where j: "j < size (f_vars s)" "v = (f_vars s)[i := no_var] ! j"
      by (auto simp: in_set_conv_nth)
    show ?thesis
    proof (cases "j = i")
      case True
      with j i var_index_Some[OF i(1)] assms(2) show ?thesis
        by (auto simp: no_var_def strn_eq_def FINSH_NAME_MAX_def)
    next
      case False
      have ii: "i < size (f_vars s)" "strn_eq FINSH_NAME_MAX (fv_name (f_vars s ! i)) name"
        using var_index_Some[OF i(1)] by auto
      then have "fv_name (f_vars s ! i) \<noteq> []" using assms(2) by (auto simp: strn_eq_def FINSH_NAME_MAX_def)
      with assms(1) ii(1) j False have "\<not> strn_eq FINSH_NAME_MAX (fv_name (f_vars s ! i)) (fv_name v)"
        unfolding vars_ok_def by auto
      with ii(2) show ?thesis by (simp add: strn_eq_def)
    qed
  qed
  then show ?thesis by (simp add: finsh_var_lookup_def var_index_None[THEN iffD2] i(2))
qed

text \<open>A declared variable becomes the node the compiler's theorem speaks of.\<close>

lemma node_of_variable:
  assumes "finsh_var_lookup name s = Some (p, t)" "free_node (f_nodes s) = Some k"
  shows "fst (finsh_node_new_id name s) = Some (lval_info (LVar p t))"
  using assms by (simp add: finsh_node_new_id_def node_or_full_def finsh_node_allocate_def)

lemma node_of_constant:
  assumes "free_node (f_nodes s) = Some k"
  shows "fst (finsh_node_new_int x s) = Some ((node_new NInt)\<lparr>n_value := x\<rparr>)"
    "fst (finsh_node_new_char c s) = Some ((node_new NChar)\<lparr>n_value := ucast c\<rparr>)"
  using assms by (simp_all add: finsh_node_new_int_def finsh_node_new_char_def node_or_full_def
      finsh_node_allocate_def)

text \<open>A call is found in the list through any beginning of its name.\<close>

lemma syscall_found_by_prefix:
  assumes "finsh_syscall_append (Some x) s = s'" "\<forall>y \<in> set (f_syscalls s). nm_name y \<noteq> p"
    "nm_name x = p @ q"
  shows "finsh_syscall_lookup p s' = Some x"
  using assms by (auto simp: finsh_syscall_append_def finsh_syscall_lookup_def strn_eq_def
      find_None_iff[THEN iffD2] split: option.splits)

end
