(* ===== verification/Msh.thy ===== *)
theory Msh
  imports Prelude "HOL-Library.Char_ord"
begin

text \<open>
  The command shell of the board (\<open>components/finsh/msh.c\<close> with \<open>FINSH_USING_MSH_ONLY\<close>, without a
  file system and modules): splitting a command line into arguments, finding and running the
  command, completing a command name. The line is a list of bytes; pointers into it are
  indices, and an access outside is \<open>None\<close>. Console output is a list of bytes. The functions of
  the commands are the parameter \<open>run\<close>: from the index in the table, the arguments and the
  rest of the system to the result, the output and the system afterwards.
\<close>

section \<open>Characters and strings\<close>

definition ascii :: "string \<Rightarrow> u8 list" where
  "ascii = map (\<lambda>c. word_of_nat (of_char c))"

definition rdc :: "u8 list \<Rightarrow> nat \<Rightarrow> u8 option" where
  "rdc b p = (if p < size b then Some (b ! p) else None)"

text \<open>The string at a position: the bytes before the next null.\<close>

definition cstr_at :: "u8 list \<Rightarrow> nat \<Rightarrow> u8 list option" where
  "cstr_at b p = (if 0 \<in> set (drop p b) then Some (takeWhile (\<lambda>c. c \<noteq> 0) (drop p b)) else None)"

definition blank :: "u8 \<Rightarrow> bool" where
  "blank c \<longleftrightarrow> c = 0x20 \<or> c = 0x09"

abbreviation QUOTE :: u8 where "QUOTE \<equiv> 0x22"
abbreviation BACKSLASH :: u8 where "BACKSLASH \<equiv> 0x5C"

definition FINSH_ARG_MAX :: nat where "FINSH_ARG_MAX = 10"
definition CONSOLEBUF_SIZE :: nat where "CONSOLEBUF_SIZE = 128"

text \<open>\<open>rt_kprintf\<close> of a finished text: the console buffer cuts it.\<close>

definition say :: "u8 list \<Rightarrow> u8 list \<Rightarrow> u8 list" where
  "say s out = out @ take (CONSOLEBUF_SIZE - 1) s"

record command =
  cm_name :: "u8 list"
  cm_desc :: "u8 list"

type_synonym 'w runs = "nat \<Rightarrow> u8 list list \<Rightarrow> 'w \<Rightarrow> int \<times> u8 list \<times> 'w"

definition CMD_PREFIX :: "u8 list" where "CMD_PREFIX = ascii ''__cmd_''"

definition is_cmd :: "command \<Rightarrow> bool" where
  "is_cmd c \<longleftrightarrow> take 6 (cm_name c) = CMD_PREFIX"

section \<open>The list of commands\<close>

text \<open>\<open>%-16s - %s\<close> and a new line.\<close>

definition help_line :: "command \<Rightarrow> u8 list" where
  "help_line c = (let n = drop 6 (cm_name c)
     in n @ replicate (16 - size n) 0x20 @ ascii '' - '' @ cm_desc c @ [0x0A])"

fun help_lines :: "command list \<Rightarrow> u8 list \<Rightarrow> u8 list" where
  "help_lines [] out = out"
| "help_lines (c # cs) out = help_lines cs (if is_cmd c then say (help_line c) out else out)"

definition msh_help :: "command list \<Rightarrow> u8 list \<Rightarrow> u8 list" where
  "msh_help cs out = say [0x0A] (help_lines cs (say (ascii ''RT-Thread shell commands:'' @ [0x0A]) out))"

section \<open>Arguments\<close>

text \<open>
  The three inner loops of \<open>msh_split\<close>. The number is \<open>length - position\<close>; a character is read
  before the position is tested.
\<close>

fun split_strip :: "nat \<Rightarrow> u8 list \<Rightarrow> nat \<Rightarrow> (nat \<times> u8 list \<times> nat) option" where
  "split_strip 0 b p = do { _ \<leftarrow> rdc b p; Some (0, b, p) }"
| "split_strip (Suc n) b p = do {
     c \<leftarrow> rdc b p;
     if blank c then split_strip n (b[p := 0]) (p + 1) else Some (Suc n, b, p) }"

fun split_string :: "nat \<Rightarrow> u8 list \<Rightarrow> nat \<Rightarrow> (nat \<times> nat) option" where
  "split_string 0 b p = do { _ \<leftarrow> rdc b p; Some (0, p) }"
| "split_string (Suc n) b p = do {
     c \<leftarrow> rdc b p;
     if c = QUOTE then Some (Suc n, p)
     else if c = BACKSLASH then do {
       c1 \<leftarrow> rdc b (p + 1);
       if c1 = QUOTE then split_string (n - 1) b (p + 2) else split_string n b (p + 1) }
     else split_string n b (p + 1) }"

fun split_word :: "nat \<Rightarrow> u8 list \<Rightarrow> nat \<Rightarrow> (nat \<times> nat) option" where
  "split_word 0 b p = do { _ \<leftarrow> rdc b p; Some (0, p) }"
| "split_word (Suc n) b p = do {
     c \<leftarrow> rdc b p;
     if blank c then Some (Suc n, p) else split_word n b (p + 1) }"

lemma split_strip_le:
  "split_strip n b p = Some (n', b', p') \<Longrightarrow> n' \<le> n \<and> (n' = 0 \<or> (\<exists>c. rdc b' p' = Some c \<and> \<not> blank c))"
  by (induction n b p rule: split_strip.induct) (auto split: if_splits bind_splits)

lemma split_string_le: "split_string n b p = Some (n', p') \<Longrightarrow> n' \<le> n"
  by (induction n b p rule: split_string.induct) (fastforce split: if_splits bind_splits)+

lemma split_word_le: "split_word n b p = Some (n', p') \<Longrightarrow> n' \<le> n"
  by (induction n b p rule: split_word.induct) (fastforce split: if_splits bind_splits)+

lemma split_word_less:
  "split_word n b p = Some (n', p') \<Longrightarrow> rdc b p = Some c \<Longrightarrow> \<not> blank c \<Longrightarrow> 0 < n \<Longrightarrow> n' < n"
  by (cases n) (auto dest: split_word_le)

text \<open>
  The loop over the arguments; the result is where they start, the line with its separators
  overwritten, and whether there are too many.
\<close>

function split_loop :: "nat \<Rightarrow> u8 list \<Rightarrow> nat \<Rightarrow> nat list \<Rightarrow> (nat list \<times> u8 list \<times> bool) option" where
  "split_loop n b p argv =
     (if n = 0 then Some (argv, b, False) else
      case split_strip n b p of None \<Rightarrow> None | Some (n, b, p) \<Rightarrow>
        if FINSH_ARG_MAX \<le> size argv then Some (argv, b, True)
        else if n = 0 then Some (argv, b, False)
        else if b ! p = QUOTE then
          (case split_string (n - 1) b (p + 1) of None \<Rightarrow> None | Some (n, p') \<Rightarrow>
             if n = 0 then Some (argv @ [p + 1], b, False)
             else split_loop (n - 1) (b[p' := 0]) (p' + 1) (argv @ [p + 1]))
        else
          (case split_word n b p of None \<Rightarrow> None | Some (n, p') \<Rightarrow>
             if n = 0 then Some (argv @ [p], b, False)
             else split_loop n b p' (argv @ [p])))"
  by pat_completeness auto
termination
proof (relation "measure fst", goal_cases)
  case 1
  show ?case by simp
next
  case (2 n b p argv x n1 y b1 p1 z n2 p')
  then show ?case by (auto dest!: split_strip_le split_string_le)
next
  case (3 n b p argv x n1 y b1 p1 z n2 p')
  then show ?case by (auto dest!: split_strip_le dest: split_word_less)
qed

declare split_loop.simps [simp del]

fun say_args :: "u8 list \<Rightarrow> nat list \<Rightarrow> u8 list \<Rightarrow> u8 list option" where
  "say_args b [] out = Some out"
| "say_args b (a # as) out = do { s \<leftarrow> cstr_at b a; say_args b as (say (s @ [0x20]) out) }"

definition msh_split :: "u8 list \<Rightarrow> nat \<Rightarrow> nat \<Rightarrow> u8 list \<Rightarrow> (nat list \<times> u8 list \<times> u8 list) option" where
  "msh_split b p n out = do {
     (argv, b, many) \<leftarrow> split_loop n b p [];
     out \<leftarrow> (if many then map_option (say [0x0A])
               (say_args b argv (say (ascii ''Too many args ! We only Use:'' @ [0x0A]) out))
             else Some out);
     Some (argv, b, out) }"

section \<open>Commands\<close>

text \<open>
  \<open>strncmp (name, cmd, size) == 0\<close> and \<open>name[size] == 0\<close>, for a name that is a string.
\<close>

definition names_equal :: "u8 list \<Rightarrow> u8 list \<Rightarrow> nat \<Rightarrow> nat \<Rightarrow> bool option" where
  "names_equal name b p n =
     (if take n name = takeWhile (\<lambda>c. c \<noteq> 0) (take n (drop p b))
      then (if n \<le> size name then Some (n = size name) else None)
      else Some False)"

fun msh_get_cmd :: "command list \<Rightarrow> u8 list \<Rightarrow> nat \<Rightarrow> nat \<Rightarrow> nat \<Rightarrow> nat option option" where
  "msh_get_cmd [] b p n i = Some None"
| "msh_get_cmd (c # cs) b p n i =
     (if \<not> is_cmd c then msh_get_cmd cs b p n (i + 1)
      else do {
        e \<leftarrow> names_equal (drop 6 (cm_name c)) b p n;
        if e then Some (Some i) else msh_get_cmd cs b p n (i + 1) })"

text \<open>
  The result is \<open>- RT_ERROR\<close>, or 0 and what the command returned.
\<close>

definition msh_exec_cmd :: "command list \<Rightarrow> 'w runs \<Rightarrow> u8 list \<Rightarrow> nat \<Rightarrow> u32 \<Rightarrow> u8 list \<Rightarrow> 'w \<Rightarrow>
    (int \<times> int \<times> u8 list \<times> u8 list \<times> 'w) option" where
  "msh_exec_cmd cs run b p len out w = do {
     (n, _) \<leftarrow> split_word (unat len) b p;
     let sz = unat len - n;
     if sz = 0 then Some (- RT_ERROR, 0, b, out, w)
     else do {
       f \<leftarrow> msh_get_cmd cs b p sz 0;
       (case f of None \<Rightarrow> Some (- RT_ERROR, 0, b, out, w)
        | Some i \<Rightarrow> do {
            (argv, b, out) \<leftarrow> msh_split b p (unat len) out;
            if argv = [] then Some (- RT_ERROR, 0, b, out, w)
            else do {
              args \<leftarrow> those (map (cstr_at b) argv);
              let (r, o', w) = run i args w;
              Some (0, r, b, out @ o', w) } }) } }"

function msh_strim :: "u8 list \<Rightarrow> nat \<Rightarrow> u32 \<Rightarrow> (nat \<times> u32) option" where
  "msh_strim b p len = (if p < size b
     then (if blank (b ! p) then msh_strim b (p + 1) (len - 1) else Some (p, len))
     else None)"
  by pat_completeness auto
termination by (relation "measure (\<lambda>(b, p, len). size b - p)") auto

declare msh_strim.simps [simp del]

definition first_end :: "u8 list \<Rightarrow> nat \<Rightarrow> nat" where
  "first_end b p = p + size (takeWhile (\<lambda>c. c \<noteq> 0x20 \<and> c \<noteq> 0) (drop p b))"

definition msh_exec :: "command list \<Rightarrow> 'w runs \<Rightarrow> u8 list \<Rightarrow> nat \<Rightarrow> u32 \<Rightarrow> u8 list \<Rightarrow> 'w \<Rightarrow>
    (int \<times> u8 list \<times> u8 list \<times> 'w) option" where
  "msh_exec cs run b p len out w = do {
     (p, len) \<leftarrow> msh_strim b p len;
     if len = 0 then Some (0, b, out, w)
     else do {
       (e, r, b, out, w) \<leftarrow> msh_exec_cmd cs run b p len out w;
       if e = 0 then Some (r, b, out, w)
       else if first_end b p < size b then do {
         let b = b[first_end b p := 0];
         s \<leftarrow> cstr_at b p;
         Some (- 1, b, say (s @ ascii '': command not found.'' @ [0x0A]) out, w) }
       else None } }"

section \<open>Completion\<close>

fun str_common :: "u8 list \<Rightarrow> u8 list \<Rightarrow> nat" where
  "str_common (x # xs) (y # ys) = (if x = y then Suc (str_common xs ys) else 0)"
| "str_common _ _ = 0"

text \<open>The name completed to, its length and the output, over the commands with the prefix.\<close>

fun complete_loop :: "u8 list \<Rightarrow> command list \<Rightarrow> u8 list option \<Rightarrow> nat \<Rightarrow> u8 list \<Rightarrow>
    u8 list option \<times> nat \<times> u8 list" where
  "complete_loop pre [] name n out = (name, n, out)"
| "complete_loop pre (c # cs) name n out =
     (let cmd = drop 6 (cm_name c) in
      if is_cmd c \<and> take (size pre) cmd = pre
      then (let (name, n) = (if n = 0 then (cmd, size cmd) else (the name, n));
                n = min n (str_common name cmd)
            in complete_loop pre cs (Some name) n (say (cmd @ [0x0A]) out))
      else complete_loop pre cs name n out)"

definition msh_auto_complete :: "command list \<Rightarrow> u8 list \<Rightarrow> u8 list \<Rightarrow> (u8 list \<times> u8 list) option" where
  "msh_auto_complete cs b out = do {
     pre \<leftarrow> cstr_at b 0;
     if pre = [] then Some (b, msh_help cs out)
     else (let (name, n, out) = complete_loop pre cs None 0 out in
       (case name of None \<Rightarrow> Some (b, out)
        | Some s \<Rightarrow> if n \<le> size b then Some (take n s @ drop n b, out) else None)) }"

section \<open>What a line is split into\<close>

text \<open>
  A string in quotes: what stands before the closing quote, and the rest of the line behind
  it, \<open>None\<close> without a closing quote. An escaped quote does not close; its backslash stays.
\<close>

fun quoted :: "u8 list \<Rightarrow> u8 list \<times> u8 list option" where
  "quoted [] = ([], None)"
| "quoted (c # s) =
     (if c = QUOTE then ([], Some s)
      else if c = BACKSLASH \<and> s \<noteq> [] \<and> hd s = QUOTE
      then (let (q, r) = quoted (tl s) in (c # QUOTE # q, r))
      else (let (q, r) = quoted s in (c # q, r)))"

lemma quoted_split:
  "quoted s = (q, r) \<Longrightarrow> s = q @ (case r of None \<Rightarrow> [] | Some v \<Rightarrow> QUOTE # v)"
  by (induction s arbitrary: q r rule: quoted.induct)
    (auto split: if_splits prod.splits option.splits simp: neq_Nil_conv)

lemma quoted_less: "quoted s = (q, Some v) \<Longrightarrow> size v < size s"
  using quoted_split by fastforce

abbreviation unblank :: "u8 \<Rightarrow> bool" where "unblank c \<equiv> \<not> blank c"

lemma dropWhile_less: "dropWhile P s = c # u \<Longrightarrow> size u < size s \<and> \<not> P c"
  using length_dropWhile_le[of P s] hd_dropWhile[of P s] by auto

function words :: "u8 list \<Rightarrow> u8 list list" where
  "words s = (case dropWhile blank s of [] \<Rightarrow> []
     | c # u \<Rightarrow> if c = QUOTE
         then (case quoted u of (q, None) \<Rightarrow> [q] | (q, Some v) \<Rightarrow> q # words v)
         else takeWhile unblank (c # u) # words (dropWhile unblank (c # u)))"
  by pat_completeness auto

termination
  by (relation "measure size")
    (auto dest!: quoted_less[OF sym] dropWhile_less simp: le_less_trans[OF length_dropWhile_le])

declare words.simps [simp del]

section \<open>The loop splits it so\<close>

lemma cstr_at_shift: "cstr_at (xs @ ys) (size xs + o') = cstr_at ys o'"
  by (simp add: cstr_at_def)

lemma cstrs_shift: "n = size xs \<Longrightarrow> map (cstr_at (xs @ ys)) (map ((+) n) ofs) = map (cstr_at ys) ofs"
  by (simp add: cstr_at_shift)

lemma cstr_at_word: "0 \<notin> set w \<Longrightarrow> cstr_at (w @ 0 # ys) 0 = Some w"
  by (induction w) (auto simp: cstr_at_def)

lemma rdc_mid: "p = size as \<Longrightarrow> rdc (as @ c # r) p = Some c"
  by (simp add: rdc_def)

lemma split_strip_ok:
  "\<forall>x \<in> set bl. blank x \<Longrightarrow> t = [] \<or> unblank (hd t) \<Longrightarrow>
    split_strip (size bl + size t) (as @ bl @ t @ 0 # r) (size as) =
      Some (size t, as @ replicate (size bl) 0 @ t @ 0 # r, size as + size bl)"
proof (induction bl arbitrary: as)
  case Nil
  then show ?case by (cases t) (simp_all add: rdc_mid)
next
  case (Cons x bl)
  then show ?case using Cons.IH[of "as @ [0]"] by (simp add: rdc_mid list_update_append)
qed

lemma split_word_ok:
  "\<forall>x \<in> set w. unblank x \<Longrightarrow> v = [] \<or> blank (hd v) \<Longrightarrow>
    split_word (size w + size v) (as @ w @ v @ 0 # r) (size as) = Some (size v, size as + size w)"
proof (induction w arbitrary: as)
  case Nil
  then show ?case by (cases v) (simp_all add: rdc_mid)
next
  case (Cons x w)
  then show ?case using Cons.IH[of "as @ [x]"] by (simp add: rdc_mid)
qed

lemma split_string_ok:
  "quoted s = (q, v) \<Longrightarrow> split_string (size s) (as @ s @ 0 # r) (size as) =
    Some (case v of None \<Rightarrow> (0, size as + size s) | Some v \<Rightarrow> (Suc (size v), size as + size q))"
proof (induction s arbitrary: as q v rule: quoted.induct)
  case 1
  then show ?case by (auto simp: rdc_mid)
next
  case (2 c s)
  consider (quote) "c = QUOTE" | (esc) u where "c = BACKSLASH" "s = QUOTE # u"
    | (plain) "c \<noteq> QUOTE" "\<not> (c = BACKSLASH \<and> s \<noteq> [] \<and> hd s = QUOTE)"
    by (cases s) auto
  then show ?case
  proof cases
    case quote
    then show ?thesis using 2(3) by (auto simp: rdc_mid)
  next
    case esc
    obtain q' v' where q: "quoted u = (q', v')" by fastforce
    have "rdc (as @ BACKSLASH # QUOTE # u @ 0 # r) (Suc (size as)) = Some QUOTE"
      using rdc_mid[of _ "as @ [BACKSLASH]"] by simp
    then show ?thesis using 2(1)[of q' v' "as @ [BACKSLASH, QUOTE]"] 2(3) esc q
      by (auto simp: rdc_mid split: option.splits)
  next
    case plain
    obtain q' v' where q: "quoted s = (q', v')" by fastforce
    have "\<exists>c1. rdc (as @ c # s @ 0 # r) (Suc (size as)) = Some c1 \<and> (c = BACKSLASH \<longrightarrow> c1 \<noteq> QUOTE)"
      using plain rdc_mid[of _ "as @ [c]"] by (cases s) auto
    then show ?thesis using 2(2)[of q' v' "as @ [c]"] 2(3) plain q
      by (auto simp: rdc_mid split: option.splits)
  qed
qed

lemma split_loop_ok:
  assumes "0 \<notin> set s" "size argv \<le> FINSH_ARG_MAX"
  shows "\<exists>ofs m f. split_loop (size s) (as @ s @ 0 # r) (size as) argv =
      Some (argv @ map ((+) (size as)) ofs, as @ m @ 0 # r, f) \<and> size m = size s \<and>
    those (map (cstr_at (m @ 0 # r)) ofs) = Some (take (FINSH_ARG_MAX - size argv) (words s)) \<and>
    (s \<noteq> [] \<and> blank (hd s) \<longrightarrow> hd m = 0) \<and> (f \<longrightarrow> FINSH_ARG_MAX \<le> size argv + size (words s))"
  using assms
proof (induction "size s" arbitrary: s as argv rule: less_induct)
  case less
  let ?k = "FINSH_ARG_MAX - size argv"
  define bl t z where "bl = takeWhile blank s" and "t = dropWhile blank s" and
    "z = replicate (size bl) (0 :: u8)"
  have s: "s = bl @ t" by (simp add: bl_def t_def)
  have bl: "\<forall>x \<in> set bl. blank x" using set_takeWhileD unfolding bl_def by metis
  have t: "t = [] \<or> unblank (hd t)" using hd_dropWhile[of blank s] unfolding t_def by auto
  have zbl: "s \<noteq> [] \<and> blank (hd s) \<Longrightarrow> z \<noteq> []" by (cases s) (auto simp: bl_def z_def)
  have hz: "hd (z @ x) = 0" if "s \<noteq> [] \<and> blank (hd s)" for x
    using zbl[OF that] by (cases "size bl") (auto simp: z_def)
  have strip: "split_strip (size s) (as @ s @ 0 # r) (size as) =
      Some (size t, as @ z @ t @ 0 # r, size as + size bl)"
    using split_strip_ok[OF bl t, of as r] by (simp add: s z_def)
  have words: "words s = (case t of [] \<Rightarrow> []
     | c # u \<Rightarrow> if c = QUOTE
         then (case quoted u of (q, None) \<Rightarrow> [q] | (q, Some v) \<Rightarrow> q # words v)
         else takeWhile unblank (c # u) # words (dropWhile unblank (c # u)))"
    by (simp add: words.simps[of s] t_def)
  have sz: "size s = size z + size t" "size z = size bl" by (simp_all add: s z_def)
  note loop = split_loop.simps[of "size s" "as @ s @ 0 # r" "size as" argv]
  consider (empty) "s = []" | (stop) "s \<noteq> []" "?k = 0 \<or> t = []"
    | (quote) u where "t = QUOTE # u" "?k \<noteq> 0" | (word) c u where "t = c # u" "c \<noteq> QUOTE" "?k \<noteq> 0"
    by (cases t) auto
  then show ?case
  proof cases
    case empty
    then show ?thesis
      by (intro exI[of _ "[]"] exI[of _ False]) (simp add: split_loop.simps[of 0] words.simps[of "[]"])
  next
    case stop
    then have "split_loop (size s) (as @ s @ 0 # r) (size as) argv = Some (argv, as @ (z @ t) @ 0 # r, ?k = 0)"
      using less.prems(2) by (auto simp: loop strip)
    moreover have "take ?k (words s) = []" using stop words by auto
    ultimately show ?thesis using sz hz
      by (intro exI[of _ "[]"] exI[of _ "z @ t"] exI[of _ "?k = 0"]) auto
  next
    case (quote u)
    obtain q v where q: "quoted u = (q, v)" by fastforce
    have ne: "s \<noteq> []" using s quote by auto
    let ?as = "as @ z @ [QUOTE]"
    have b: "(z @ QUOTE # x) ! size bl = QUOTE" for x
      using sz(2) by (metis nth_append_length)
    have str: "split_string (size t - 1) (as @ z @ t @ 0 # r) (size as + size bl + 1) =
        Some (case v of None \<Rightarrow> (0, size ?as + size u) | Some v \<Rightarrow> (Suc (size v), size ?as + size q))"
      using split_string_ok[OF q, of ?as r] quote sz(2) by simp
    have u0: "0 \<notin> set u" using less.prems(1) s quote by simp
    show ?thesis
    proof (cases v)
      case None
      have "split_loop (size s) (as @ s @ 0 # r) (size as) argv =
          Some (argv @ [size as + size bl + 1], as @ (z @ t) @ 0 # r, False)"
        using quote str None less.prems(2) by (auto simp: loop strip b ne add.assoc)
      moreover have "cstr_at ((z @ t) @ 0 # r) (size bl + 1) = Some u"
        using cstr_at_shift[of "z @ [QUOTE]" "u @ 0 # r" 0] cstr_at_word[OF u0] quote sz(2) by simp
      moreover have "q = u" using quoted_split[OF q] None by simp
      ultimately show ?thesis using sz hz quote None q words
        by (intro exI[of _ "[size bl + 1]"] exI[of _ "z @ t"] exI[of _ False]) (auto simp: take_Cons')
    next
      case (Some v')
      have uq: "u = q @ QUOTE # v'" using quoted_split[OF q] Some by simp
      let ?as' = "as @ z @ QUOTE # q @ [0]" and ?argv = "argv @ [size as + size bl + 1]"
      have "(as @ z @ t @ 0 # r)[size ?as + size q := 0] = ?as' @ v' @ 0 # r"
        by (simp add: quote uq list_update_append)
      moreover have "size ?as + size q + 1 = size ?as'" by simp
      ultimately have l: "split_loop (size s) (as @ s @ 0 # r) (size as) argv =
          split_loop (size v') (?as' @ v' @ 0 # r) (size ?as') ?argv"
        using quote str Some less.prems(2) by (simp add: loop strip b ne add.assoc)
      have "size v' < size s" "0 \<notin> set v'" "size ?argv \<le> FINSH_ARG_MAX"
        using uq quote s less.prems by auto
      from less.hyps[OF this, of ?as'] obtain ofs m f where i:
        "split_loop (size v') (?as' @ v' @ 0 # r) (size ?as') ?argv =
          Some (?argv @ map ((+) (size ?as')) ofs, ?as' @ m @ 0 # r, f)" "size m = size v'"
        "those (map (cstr_at (m @ 0 # r)) ofs) = Some (take (FINSH_ARG_MAX - size ?argv) (words v'))"
        "f \<longrightarrow> FINSH_ARG_MAX \<le> size ?argv + size (words v')" by blast
      let ?n = "size bl + size q + 2" and ?m = "z @ QUOTE # q @ 0 # m"
      have "cstr_at (?m @ 0 # r) (size bl + 1) = Some q"
        using cstr_at_shift[of "z @ [QUOTE]" "q @ 0 # m @ 0 # r" 0] cstr_at_word[of q "m @ 0 # r"] uq u0 sz(2)
        by simp
      moreover have "map (cstr_at (?m @ 0 # r)) (map ((+) ?n) ofs) = map (cstr_at (m @ 0 # r)) ofs"
        using cstrs_shift[of ?n "z @ QUOTE # q @ [0]" "m @ 0 # r" ofs] sz(2) by simp
      moreover have "take ?k (words s) = q # take (FINSH_ARG_MAX - size ?argv) (words v')"
      proof -
        have "?k = Suc (FINSH_ARG_MAX - size ?argv)" using quote(2) by simp
        then show ?thesis using words quote(1) q Some by simp
      qed
      ultimately have "those (map (cstr_at (?m @ 0 # r)) ((size bl + 1) # map ((+) ?n) ofs)) =
          Some (take ?k (words s))" using i(3) by (simp only: list.map those.simps option.case option.map)
      moreover have "size ?m = size s" using sz quote uq i(2) by simp
      moreover have "split_loop (size s) (as @ s @ 0 # r) (size as) argv =
          Some (argv @ map ((+) (size as)) ((size bl + 1) # map ((+) ?n) ofs), as @ ?m @ 0 # r, f)"
        using l i(1) sz(2) by (simp add: comp_def algebra_simps)
      moreover have "f \<longrightarrow> FINSH_ARG_MAX \<le> size argv + size (words s)"
        using i(4) words quote(1) q Some by simp
      ultimately show ?thesis using hz by blast
    qed
  next
    case (word c u)
    have ne: "s \<noteq> []" using s word by auto
    let ?w = "takeWhile unblank t" and ?v = "dropWhile unblank t"
    have wv: "\<forall>x \<in> set ?w. unblank x" "?v = [] \<or> blank (hd ?v)"
      using set_takeWhileD[of _ unblank t] hd_dropWhile[of unblank t] by blast+
    have t2: "t = ?w @ ?v" by simp
    have c: "unblank c" using t word by simp
    have b: "(z @ c # x) ! size bl = c" for x
      using sz(2) by (metis nth_append_length)
    have str: "split_word (size t) (as @ z @ t @ 0 # r) (size as + size bl) =
        Some (size ?v, size as + size bl + size ?w)"
      using split_word_ok[OF wv, of "as @ z" r] sz(2) t2 by (metis append.assoc length_append)
    have w0: "0 \<notin> set ?w" using less.prems(1) s set_takeWhileD[of 0 unblank t] by auto
    show ?thesis
    proof (cases "?v = []")
      case True
      have "split_loop (size s) (as @ s @ 0 # r) (size as) argv =
          Some (argv @ [size as + size bl], as @ (z @ t) @ 0 # r, False)"
        using word str True less.prems(2) by (auto simp: loop strip b ne add.assoc)
      moreover have "cstr_at ((z @ t) @ 0 # r) (size bl) = Some t"
        using cstr_at_shift[of z "t @ 0 # r" 0] cstr_at_word[of t r] less.prems(1) s sz(2) by simp
      moreover have "words s = [t]" using words word True t2 by (auto simp: words.simps[of "[]"])
      ultimately show ?thesis using sz hz word
        by (intro exI[of _ "[size bl]"] exI[of _ "z @ t"] exI[of _ False]) (auto simp: take_Cons')
    next
      case False
      let ?as = "as @ z @ ?w" and ?argv = "argv @ [size as + size bl]"
      have l: "split_loop (size s) (as @ s @ 0 # r) (size as) argv =
          split_loop (size ?v) (?as @ ?v @ 0 # r) (size ?as) ?argv"
      proof -
        have tdw: "takeWhile unblank u @ dropWhile unblank u @ x = u @ x" for x
          by (metis append.assoc takeWhile_dropWhile_id)
        show ?thesis
          using word str False less.prems(2) sz(2) by (simp add: loop strip b ne add.assoc tdw)
      qed
      have "?w \<noteq> []" using word c by simp
      then have "size ?v < size s" "0 \<notin> set ?v" "size ?argv \<le> FINSH_ARG_MAX"
        using s t2 word less.prems
        by (metis length_append add.commute less_add_same_cancel2 length_greater_0_conv trans_less_add2,
          metis Un_iff set_append, simp)
      from less.hyps[OF this, of ?as] obtain ofs m f where i:
        "split_loop (size ?v) (?as @ ?v @ 0 # r) (size ?as) ?argv =
          Some (?argv @ map ((+) (size ?as)) ofs, ?as @ m @ 0 # r, f)" "size m = size ?v"
        "those (map (cstr_at (m @ 0 # r)) ofs) = Some (take (FINSH_ARG_MAX - size ?argv) (words ?v))"
        "hd m = 0" "f \<longrightarrow> FINSH_ARG_MAX \<le> size ?argv + size (words ?v)" using wv(2) False by blast
      let ?n = "size bl + size ?w" and ?m = "z @ ?w @ m"
      obtain m' where m': "m = 0 # m'" using i(2,4) False by (cases m) auto
      have "cstr_at (?m @ 0 # r) (size bl) = Some ?w"
        using cstr_at_shift[of z "?w @ m @ 0 # r" 0] cstr_at_word[OF w0, of "m' @ 0 # r"] m' sz(2) by simp
      moreover have "map (cstr_at (?m @ 0 # r)) (map ((+) ?n) ofs) = map (cstr_at (m @ 0 # r)) ofs"
        using cstrs_shift[of ?n "z @ ?w" "m @ 0 # r" ofs] sz(2) by simp
      moreover have "take ?k (words s) = ?w # take (FINSH_ARG_MAX - size ?argv) (words ?v)"
      proof -
        have "?k = Suc (FINSH_ARG_MAX - size ?argv)" using word(3) by simp
        then show ?thesis using words word(1,2) by simp
      qed
      ultimately have "those (map (cstr_at (?m @ 0 # r)) (size bl # map ((+) ?n) ofs)) =
          Some (take ?k (words s))" using i(3) by (simp only: list.map those.simps option.case option.map)
      moreover have "size ?m = size s" using sz i(2) t2 by (metis length_append)
      moreover have "split_loop (size s) (as @ s @ 0 # r) (size as) argv =
          Some (argv @ map ((+) (size as)) (size bl # map ((+) ?n) ofs), as @ ?m @ 0 # r, f)"
        using l i(1) sz(2) by (simp add: comp_def algebra_simps)
      moreover have "f \<longrightarrow> FINSH_ARG_MAX \<le> size argv + size (words s)"
        using i(5) words word(1,2) by simp
      ultimately show ?thesis using hz by blast
    qed
  qed
qed


lemma msh_split_ok:
  assumes "0 \<notin> set s" "size (words s) < FINSH_ARG_MAX"
  shows "\<exists>argv m. msh_split (as @ s @ 0 # r) (size as) (size s) out = Some (argv, as @ m @ 0 # r, out) \<and>
    size m = size s \<and> those (map (cstr_at (as @ m @ 0 # r)) argv) = Some (words s)"
proof -
  have "\<exists>ofs m f. split_loop (size s) (as @ s @ 0 # r) (size as) [] =
      Some (map ((+) (size as)) ofs, as @ m @ 0 # r, f) \<and> size m = size s \<and>
    those (map (cstr_at (m @ 0 # r)) ofs) = Some (words s) \<and> (f \<longrightarrow> FINSH_ARG_MAX \<le> size (words s))"
    using split_loop_ok[of s "[]" as r] assms by fastforce
  then obtain ofs m f where i:
    "split_loop (size s) (as @ s @ 0 # r) (size as) [] = Some (map ((+) (size as)) ofs, as @ m @ 0 # r, f)"
    "size m = size s" "those (map (cstr_at (m @ 0 # r)) ofs) = Some (words s)"
    "f \<longrightarrow> FINSH_ARG_MAX \<le> size (words s)" by blast
  then have "\<not> f" using assms(2) by simp
  then show ?thesis using i assms(2)
    by (auto simp: msh_split_def cstrs_shift simp del: map_map
        intro!: exI[of _ "map ((+) (size as)) ofs"] exI[of _ m])
qed

section \<open>Running commands\<close>

text \<open>The first command of the table with a name.\<close>

fun cmd_index :: "command list \<Rightarrow> u8 list \<Rightarrow> nat option" where
  "cmd_index [] w = None"
| "cmd_index (c # cs) w = (if is_cmd c \<and> drop 6 (cm_name c) = w then Some 0
     else map_option Suc (cmd_index cs w))"

lemma names_equal_word:
  "0 \<notin> set w \<Longrightarrow> names_equal name (as @ w @ r) (size as) (size w) = Some (name = w)"
proof -
  assume "0 \<notin> set w"
  then have "takeWhile (\<lambda>c. c \<noteq> 0) w = w" by (auto simp: takeWhile_eq_all_conv)
  note w = this
  show ?thesis by (auto simp: names_equal_def w)
qed

lemma msh_get_cmd_word:
  "0 \<notin> set w \<Longrightarrow> msh_get_cmd cs (as @ w @ r) (size as) (size w) i =
    Some (map_option ((+) i) (cmd_index cs w))"
  by (induction cs arbitrary: i) (auto simp: names_equal_word option.map_comp comp_def
      intro!: option.map_cong)

lemma msh_strim_ok:
  "\<forall>x \<in> set bl. blank x \<Longrightarrow> unblank c \<Longrightarrow>
    msh_strim (as @ bl @ c # r) (size as) len = Some (size as + size bl, len - of_nat (size bl))"
proof (induction bl arbitrary: as len)
  case Nil
  then show ?case by (simp add: msh_strim.simps)
next
  case (Cons x bl)
  then show ?case using Cons.IH[of "as @ [x]" "len - 1"]
    by (simp add: msh_strim.simps[of _ "size as"] nth_append diff_diff_eq add.commute)
qed

text \<open>A line: blanks, the name of the command, and what follows it.\<close>

definition cmd_line :: "u8 list \<Rightarrow> u8 list \<Rightarrow> u8 list \<Rightarrow> u8 list \<Rightarrow> bool" where
  "cmd_line s bl w v \<longleftrightarrow> s = bl @ w @ v \<and> 0 \<notin> set s \<and> size s < 2 ^ 32 \<and> (\<forall>x \<in> set bl. blank x) \<and>
     w \<noteq> [] \<and> (\<forall>x \<in> set w. unblank x) \<and> (v = [] \<or> blank (hd v))"

lemma words_strip: "\<forall>x \<in> set bl. blank x \<Longrightarrow> words (bl @ s) = words s"
  by (subst (1 2) words.simps) (simp add: dropWhile_append2)

lemma words_Nil [simp]: "words [] = []"
  by (simp add: words.simps)

lemma cmd_line_exec:
  assumes l: "cmd_line s bl w v"
  shows "msh_exec cs run (s @ 0 # r) 0 (of_nat (size s)) out w0 = do {
      (e, x, b, out, w1) \<leftarrow> msh_exec_cmd cs run (s @ 0 # r) (size bl) (of_nat (size (w @ v))) out w0;
      if e = 0 then Some (x, b, out, w1)
      else if first_end b (size bl) < size b then do {
        let b = b[first_end b (size bl) := 0];
        t \<leftarrow> cstr_at b (size bl);
        Some (- 1, b, say (t @ ascii '': command not found.'' @ [0x0A]) out, w1) }
      else None }"
proof -
  from l obtain c w' where w: "w = c # w'" "unblank c" by (cases w) (auto simp: cmd_line_def)
  have "msh_strim (s @ 0 # r) 0 (of_nat (size s)) = Some (size bl, of_nat (size (w @ v)))"
    using msh_strim_ok[of bl c "[]"] l w by (simp add: cmd_line_def)
  moreover have "(of_nat (size (w @ v)) :: u32) \<noteq> 0"
    using l by (subst word_of_nat_eq_0_iff) (auto simp: cmd_line_def dest: dvd_imp_le)
  ultimately show ?thesis by (simp add: msh_exec_def)
qed

lemma cmd_line_found:
  assumes l: "cmd_line s bl w v"
  shows "msh_exec_cmd cs run (s @ 0 # r) (size bl) (of_nat (size (w @ v))) out w0 =
    (case cmd_index cs w of None \<Rightarrow> Some (- RT_ERROR, 0, s @ 0 # r, out, w0)
     | Some i \<Rightarrow> do {
         (argv, b, out) \<leftarrow> msh_split (bl @ (w @ v) @ 0 # r) (size bl) (size (w @ v)) out;
         if argv = [] then Some (- RT_ERROR, 0, b, out, w0)
         else do {
           args \<leftarrow> those (map (cstr_at b) argv);
           let (x, o', w1) = run i args w0;
           Some (0, x, b, out @ o', w1) } })"
proof -
  have n: "unat (of_nat (size (w @ v)) :: u32) = size (w @ v)"
    using l unfolding unat_of_nat by (auto simp: cmd_line_def)
  have "split_word (size w + size v) (bl @ w @ v @ 0 # r) (size bl) = Some (size v, size bl + size w)"
    using split_word_ok[of w v bl r] l by (simp add: cmd_line_def)
  moreover have "msh_get_cmd cs (bl @ w @ v @ 0 # r) (size bl) (size w) 0 = Some (cmd_index cs w)"
    using msh_get_cmd_word[of w cs bl "v @ 0 # r" 0] l
    by (cases "cmd_index cs w") (auto simp: cmd_line_def)
  moreover have "w \<noteq> []" "s = bl @ w @ v" using l by (simp_all add: cmd_line_def)
  ultimately show ?thesis unfolding msh_exec_cmd_def n
    by (simp split: option.split)
qed

lemma msh_exec_runs:
  assumes l: "cmd_line s bl w v" and i: "cmd_index cs w = Some i"
    and n: "size (words s) < FINSH_ARG_MAX"
    and x: "run i (words s) w0 = (x, o', w1)"
  shows "\<exists>b. msh_exec cs run (s @ 0 # r) 0 (of_nat (size s)) out w0 = Some (x, b, out @ o', w1) \<and>
    size b = size (s @ 0 # r)"
proof -
  have s: "s = bl @ w @ v" "0 \<notin> set (w @ v)" "words (w @ v) = words s"
    using l words_strip[of bl] by (auto simp: cmd_line_def)
  from msh_split_ok[OF s(2), of bl r out] n s(3) obtain argv m where m:
    "msh_split (bl @ (w @ v) @ 0 # r) (size bl) (size (w @ v)) out = Some (argv, bl @ m @ 0 # r, out)"
    "size m = size (w @ v)" "those (map (cstr_at (bl @ m @ 0 # r)) argv) = Some (words s)" by auto
  have "words s \<noteq> []"
  proof -
    have "dropWhile blank (w @ v) = w @ v" "w @ v \<noteq> []" using l by (cases w; simp add: cmd_line_def)+
    then show ?thesis unfolding s(3)[symmetric] words.simps[of "w @ v"]
      by (auto split: list.split prod.split option.split)
  qed
  then have "argv \<noteq> []" using m(3) by auto
  then have "msh_exec_cmd cs run (s @ 0 # r) (size bl) (of_nat (size (w @ v))) out w0 =
      Some (0, x, bl @ m @ 0 # r, out @ o', w1)"
    unfolding cmd_line_found[OF l] i using m x by simp
  then show ?thesis unfolding cmd_line_exec[OF l] using m(2) s(1) by simp
qed

lemma msh_exec_not_found:
  assumes l: "cmd_line s bl w v" and i: "cmd_index cs w = None" and v: "v = [] \<or> hd v = 0x20"
  shows "\<exists>b. msh_exec cs run (s @ 0 # r) 0 (of_nat (size s)) out w0 =
    Some (- 1, b, say (w @ ascii '': command not found.'' @ [0x0A]) out, w0)"
proof -
  have s: "s = bl @ w @ v" "0 \<notin> set w" "w \<noteq> []" using l by (auto simp: cmd_line_def)
  have w: "\<forall>c \<in> set w. c \<noteq> 0x20 \<and> c \<noteq> 0" using l by (auto simp: cmd_line_def blank_def)
  obtain d q where q: "v @ 0 # r = d # q" "d = 0x20 \<or> d = 0" using v by (cases v) auto
  have e: "first_end (s @ 0 # r) (size bl) = size bl + size w"
    using q w by (auto simp: first_end_def s takeWhile_append takeWhile_eq_all_conv[THEN iffD2])
  have b: "(s @ 0 # r)[size bl + size w := 0] = bl @ w @ 0 # q"
    using q by (simp add: s list_update_append)
  have "cstr_at (bl @ w @ 0 # q) (size bl) = Some w"
    using cstr_at_shift[of bl "w @ 0 # q" 0] cstr_at_word[OF s(2)] by simp
  moreover have "size bl + size w < size (s @ 0 # r)" by (simp add: s(1))
  ultimately show ?thesis unfolding cmd_line_exec[OF l] cmd_line_found[OF l] i
    by (simp add: e b RT_ERROR_def)
qed

section \<open>What is completed\<close>

lemma str_common_take: "take (str_common xs ys) xs = take (str_common xs ys) ys"
  by (induction xs ys rule: str_common.induct) auto

lemma str_common_le: "str_common xs ys \<le> size xs" "str_common xs ys \<le> size ys"
  by (induction xs ys rule: str_common.induct) auto

lemma str_common_self [simp]: "str_common xs xs = size xs"
  by (induction xs) auto

lemma str_common_ge: "n \<le> size xs \<Longrightarrow> n \<le> size ys \<Longrightarrow> take n xs = take n ys \<Longrightarrow> n \<le> str_common xs ys"
proof (induction xs ys arbitrary: n rule: str_common.induct)
  case (1 x xs y ys)
  then show ?case by (cases n) auto
qed auto

definition matches :: "u8 list \<Rightarrow> command \<Rightarrow> bool" where
  "matches pre c \<longleftrightarrow> is_cmd c \<and> take (size pre) (drop 6 (cm_name c)) = pre"

lemma matches_size: "matches pre c \<Longrightarrow> size pre \<le> size (drop 6 (cm_name c))"
  by (metis matches_def length_take min.cobounded1)

text \<open>
  The loop yields the longest beginning that the first command with the prefix shares with
  every other one.
\<close>

lemma complete_loop_some:
  assumes "size pre \<le> n" "n \<le> size name" "0 < size pre" "take (size pre) name = pre"
  shows "\<exists>k out'. complete_loop pre cs (Some name) n out = (Some name, k, out') \<and> size pre \<le> k \<and> k \<le> n \<and>
    (\<forall>c \<in> set cs. matches pre c \<longrightarrow> k \<le> str_common name (drop 6 (cm_name c))) \<and>
    (k = n \<or> (\<exists>c \<in> set cs. matches pre c \<and> k = str_common name (drop 6 (cm_name c))))"
  using assms
proof (induction cs arbitrary: n out)
  case (Cons c cs)
  let ?cmd = "drop 6 (cm_name c)"
  show ?case
  proof (cases "matches pre c")
    case True
    let ?n = "min n (str_common name ?cmd)"
    have "size pre \<le> str_common name ?cmd"
      using str_common_ge[of "size pre" name ?cmd] True matches_size[OF True] Cons.prems
      by (auto simp: matches_def)
    with Cons.prems have "size pre \<le> ?n" "?n \<le> size name" by simp_all
    from Cons.IH[OF this Cons.prems(3,4), of "say (?cmd @ [0x0A]) out"] obtain k out' where
      "complete_loop pre cs (Some name) ?n (say (?cmd @ [0x0A]) out) = (Some name, k, out')"
      "size pre \<le> k" "k \<le> ?n" "\<forall>c \<in> set cs. matches pre c \<longrightarrow> k \<le> str_common name (drop 6 (cm_name c))"
      "k = ?n \<or> (\<exists>c \<in> set cs. matches pre c \<and> k = str_common name (drop 6 (cm_name c)))" by blast
    moreover have "0 < n" using Cons.prems(1,3) by linarith
    ultimately show ?thesis using True
      by (intro exI[of _ k] exI[of _ out']) (auto simp: matches_def Let_def min_def split: if_splits)
  next
    case False
    then show ?thesis using Cons.IH[OF Cons.prems] by (auto simp: matches_def Let_def)
  qed
qed simp

lemma complete_loop_none:
  assumes "pre \<noteq> []" "\<exists>c \<in> set cs. matches pre c"
  shows "\<exists>a k out'. a \<in> set cs \<and> matches pre a \<and>
    complete_loop pre cs None 0 out = (Some (drop 6 (cm_name a)), k, out') \<and> size pre \<le> k \<and>
    (\<forall>c \<in> set cs. matches pre c \<longrightarrow> k \<le> str_common (drop 6 (cm_name a)) (drop 6 (cm_name c))) \<and>
    (\<exists>c \<in> set cs. matches pre c \<and> k = str_common (drop 6 (cm_name a)) (drop 6 (cm_name c)))"
  using assms(2)
proof (induction cs arbitrary: out)
  case (Cons a cs)
  let ?cmd = "drop 6 (cm_name a)"
  show ?case
  proof (cases "matches pre a")
    case True
    from complete_loop_some[of pre "size ?cmd" ?cmd cs "say (?cmd @ [0x0A]) out"] assms(1)
      matches_size[OF True] True obtain k out' where
      "complete_loop pre cs (Some ?cmd) (size ?cmd) (say (?cmd @ [0x0A]) out) = (Some ?cmd, k, out')"
      "size pre \<le> k" "k \<le> size ?cmd" "\<forall>c \<in> set cs. matches pre c \<longrightarrow> k \<le> str_common ?cmd (drop 6 (cm_name c))"
      "k = size ?cmd \<or> (\<exists>c \<in> set cs. matches pre c \<and> k = str_common ?cmd (drop 6 (cm_name c)))"
      by (auto simp: matches_def)
    then show ?thesis using True
      by (intro exI[of _ a] exI[of _ k] exI[of _ out']) (auto simp: matches_def)
  next
    case False
    then have "\<exists>c \<in> set cs. matches pre c" using Cons.prems by simp
    from Cons.IH[OF this, of out] False show ?thesis by (auto simp: matches_def Let_def)
  qed
qed simp

text \<open>
  Completing a nonempty word at the start of the line that some command begins with.
\<close>

lemma msh_auto_complete_ok:
  assumes "b = pre @ replicate n 0" "0 \<notin> set pre" "pre \<noteq> []" "\<exists>c \<in> set cs. matches pre c"
    and "\<forall>c \<in> set cs. size (drop 6 (cm_name c)) < size b \<and> 0 \<notin> set (cm_name c)"
  shows "\<exists>t out'. msh_auto_complete cs b out = Some (t @ replicate (size b - size t) 0, out') \<and>
    0 \<notin> set t \<and> size t < size b \<and> take (size pre) t = pre \<and>
    (\<forall>c \<in> set cs. matches pre c \<longrightarrow> take (size t) (drop 6 (cm_name c)) = t) \<and>
    (\<exists>a \<in> set cs. \<exists>c \<in> set cs. matches pre a \<and> matches pre c \<and>
       size t = str_common (drop 6 (cm_name a)) (drop 6 (cm_name c)))"
proof -
  from complete_loop_none[OF assms(3,4)] obtain a k out' where a: "a \<in> set cs" "matches pre a"
    "complete_loop pre cs None 0 out = (Some (drop 6 (cm_name a)), k, out')" "size pre \<le> k"
    "\<forall>c \<in> set cs. matches pre c \<longrightarrow> k \<le> str_common (drop 6 (cm_name a)) (drop 6 (cm_name c))"
    "\<exists>c \<in> set cs. matches pre c \<and> k = str_common (drop 6 (cm_name a)) (drop 6 (cm_name c))" by metis
  let ?a = "drop 6 (cm_name a)" and ?t = "take k (drop 6 (cm_name a))"
  have k: "k \<le> size ?a" "size ?a < size b"
    using a(1,5,2) str_common_le(1)[of ?a ?a] assms(5) by auto
  have n: "0 < n" using k a(4) assms(1) by auto
  then have c: "cstr_at b 0 = Some pre"
    using cstr_at_word[OF assms(2), of "replicate (n - 1) 0"] assms(1)
    by (metis Suc_diff_1 replicate_Suc)
  have "drop k b = replicate (size b - k) 0" using a(4) assms(1) by simp
  then have "msh_auto_complete cs b out = Some (?t @ replicate (size b - size ?t) 0, out')"
    using c a(3) assms(3) k by (simp add: msh_auto_complete_def)
  moreover have "0 \<notin> set ?t" using assms(5) a(1) by (meson in_set_dropD in_set_takeD)
  moreover have "size ?t < size b" using k by simp
  moreover have "take (size pre) ?t = pre" using a(2,4) by (simp add: matches_def min_def)
  moreover have "take (size ?t) (drop 6 (cm_name c)) = ?t" if "c \<in> set cs" "matches pre c" for c
  proof -
    let ?s = "str_common ?a (drop 6 (cm_name c))"
    have "k \<le> ?s" using a(5) that by blast
    then have "take k ?a = take k (drop 6 (cm_name c))"
      using arg_cong[OF str_common_take[of ?a "drop 6 (cm_name c)"], of "take k"] by (simp add: min_absorb1)
    moreover have "size ?t = k" using k(1) by simp
    ultimately show ?thesis by metis
  qed
  moreover have "size ?t = k" using k by simp
  moreover have "\<exists>a \<in> set cs. \<exists>c \<in> set cs. matches pre a \<and> matches pre c \<and>
       size ?t = str_common (drop 6 (cm_name a)) (drop 6 (cm_name c))"
    using a(1,2,6) \<open>size ?t = k\<close> by blast
  ultimately show ?thesis by blast
qed

end
