(* ===== verification/Shell.thy ===== *)
theory Shell
  imports Msh
begin

text \<open>
  The line editor of the shell (\<open>components/finsh/shell.c\<close> with \<open>shell.h\<close>) in the configuration
  of the board: history of five lines of 80 bytes, the command shell only, console device as
  input, no password. One received character is one step of the loop of
  \<open>finsh_thread_entry\<close>. Positions in the line are naturals: they stay below the size of the
  line. \<open>None\<close> is an access outside the line.
\<close>

section \<open>State\<close>

definition FINSH_CMD_SIZE :: nat where "FINSH_CMD_SIZE = 80"
definition FINSH_HISTORY_LINES :: nat where "FINSH_HISTORY_LINES = 5"

datatype input_stat = WAIT_NORMAL | WAIT_SPEC_KEY | WAIT_FUNC_KEY

record 'w shell =
  sh_stat :: input_stat
  sh_echo :: bool
  sh_prompt :: bool
  sh_custom :: "u8 list option"
  sh_cur_hist :: nat
  sh_hist_count :: nat
  sh_hist :: "u8 list list"
  sh_line :: "u8 list"
  sh_pos :: nat
  sh_cur :: nat
  sh_out :: "u8 list"
  sh_env :: 'w

definition tell :: "u8 list \<Rightarrow> 'w shell \<Rightarrow> 'w shell" where
  "tell t s = s\<lparr>sh_out := say t (sh_out s)\<rparr>"

text \<open>\<open>n\<close> times \<open>rt_kprintf("\b")\<close>.\<close>

fun tell_back :: "nat \<Rightarrow> 'w shell \<Rightarrow> 'w shell" where
  "tell_back 0 s = s"
| "tell_back (Suc n) s = tell_back n (tell [0x08] s)"

section \<open>Settings\<close>

text \<open>The modes are bit fields of one bit.\<close>

definition finsh_get_echo :: "'w shell \<Rightarrow> u32" where
  "finsh_get_echo s = (if sh_echo s then 1 else 0)"

definition finsh_set_echo :: "u32 \<Rightarrow> 'w shell \<Rightarrow> 'w shell" where
  "finsh_set_echo e s = s\<lparr>sh_echo := bit e 0\<rparr>"

definition finsh_get_prompt_mode :: "'w shell \<Rightarrow> u32" where
  "finsh_get_prompt_mode s = (if sh_prompt s then 1 else 0)"

definition finsh_set_prompt_mode :: "u32 \<Rightarrow> 'w shell \<Rightarrow> 'w shell" where
  "finsh_set_prompt_mode e s = s\<lparr>sh_prompt := bit e 0\<rparr>"

text \<open>The new prompt, or \<open>None\<close> for the null pointer or when the heap has no room for the copy.\<close>

definition finsh_set_prompt :: "u8 list option \<Rightarrow> bool \<Rightarrow> 'w shell \<Rightarrow> int \<times> 'w shell" where
  "finsh_set_prompt p room s = (0, s\<lparr>sh_custom := (if room then p else None)\<rparr>)"

definition finsh_get_prompt :: "'w shell \<Rightarrow> u8 list" where
  "finsh_get_prompt s = (if \<not> sh_prompt s then []
     else case sh_custom s of Some p \<Rightarrow> take CONSOLEBUF_SIZE p
       | None \<Rightarrow> ascii ''msh '' @ ascii ''>'')"

text \<open>
  \<open>rt_kprintf(FINSH_PROMPT)\<close>: the prompt is the format, so that a percent sign in it asks for
  an argument there is none of.
\<close>

definition tell_prompt :: "'w shell \<Rightarrow> 'w shell option" where
  "tell_prompt s = (if 0x25 \<in> set (finsh_get_prompt s) then None else Some (tell (finsh_get_prompt s) s))"

text \<open>\<open>strlen(shell->line)\<close> after the line was replaced.\<close>

definition to_line_end :: "'w shell \<Rightarrow> 'w shell option" where
  "to_line_end s = do {
     t \<leftarrow> cstr_at (sh_line s) 0;
     Some (s\<lparr>sh_pos := size t, sh_cur := size t\<rparr>) }"

section \<open>History\<close>

definition shell_handle_history :: "'w shell \<Rightarrow> 'w shell option" where
  "shell_handle_history s = do {
     t \<leftarrow> cstr_at (sh_line s) 0;
     Some (tell (finsh_get_prompt s @ t) (tell [0x1B, 0x5B, 0x32, 0x4B, 0x0D] s)) }"

text \<open>A cleared entry with the characters of the line.\<close>

definition history_entry :: "'w shell \<Rightarrow> u8 list" where
  "history_entry s = take (sh_pos s) (sh_line s) @ replicate (FINSH_CMD_SIZE - sh_pos s) 0"

definition shell_push_history :: "'w shell \<Rightarrow> 'w shell" where
  "shell_push_history s =
     (let s = (if sh_pos s \<noteq> 0 then
          (if FINSH_HISTORY_LINES \<le> sh_hist_count s then
             (if sh_hist s ! (FINSH_HISTORY_LINES - 1) \<noteq> sh_line s then
                s\<lparr>sh_hist := take (FINSH_HISTORY_LINES - 1) (drop 1 (sh_hist s)) @ [history_entry s],
                  sh_hist_count := FINSH_HISTORY_LINES\<rparr>
              else s)
           else
             (if sh_hist_count s = 0 \<or> sh_hist s ! (sh_hist_count s - 1) \<noteq> sh_line s then
                s\<lparr>sh_hist := (sh_hist s)[sh_hist_count s := history_entry s],
                  sh_hist_count := sh_hist_count s + 1\<rparr>
              else s))
        else s)
      in s\<lparr>sh_cur_hist := sh_hist_count s\<rparr>)"

definition history_line :: "nat \<Rightarrow> 'w shell \<Rightarrow> 'w shell option" where
  "history_line i s = do {
     s \<leftarrow> to_line_end (s\<lparr>sh_cur_hist := i, sh_line := sh_hist s ! i\<rparr>);
     shell_handle_history s }"

definition key_up :: "'w shell \<Rightarrow> 'w shell option" where
  "key_up s = (if 0 < sh_cur_hist s then history_line (sh_cur_hist s - 1) s else Some s)"

definition key_down :: "'w shell \<Rightarrow> 'w shell option" where
  "key_down s = (if sh_cur_hist s + 1 < sh_hist_count s then history_line (sh_cur_hist s + 1) s
     else if sh_hist_count s \<noteq> 0 then history_line (sh_hist_count s - 1) s
     else Some s)"

section \<open>Editing\<close>

definition key_left :: "'w shell \<Rightarrow> 'w shell" where
  "key_left s = (if sh_cur s \<noteq> 0 then (tell [0x08] s)\<lparr>sh_cur := sh_cur s - 1\<rparr> else s)"

definition key_right :: "'w shell \<Rightarrow> 'w shell" where
  "key_right s = (if sh_cur s < sh_pos s
     then (tell [sh_line s ! sh_cur s] s)\<lparr>sh_cur := sh_cur s + 1\<rparr> else s)"

text \<open>\<open>rt_memmove(&line[d], &line[src], n)\<close>.\<close>

definition move :: "nat \<Rightarrow> nat \<Rightarrow> nat \<Rightarrow> u8 list \<Rightarrow> u8 list option" where
  "move d src n l = (if d + n \<le> size l \<and> src + n \<le> size l
     then Some (take d l @ take n (drop src l) @ drop (d + n) l) else None)"

definition key_backspace :: "'w shell \<Rightarrow> 'w shell option" where
  "key_backspace s = (if sh_cur s = 0 then Some s
     else let s = s\<lparr>sh_pos := sh_pos s - 1, sh_cur := sh_cur s - 1\<rparr> in
       if sh_cur s < sh_pos s then do {
         l \<leftarrow> move (sh_cur s) (sh_cur s + 1) (sh_pos s - sh_cur s) (sh_line s);
         let s = s\<lparr>sh_line := l[sh_pos s := 0]\<rparr>;
         t \<leftarrow> cstr_at (sh_line s) (sh_cur s);
         Some (tell_back (sh_pos s + 1 - sh_cur s) (tell ([0x08] @ t @ [0x20, 0x20, 0x08]) s)) }
       else Some ((tell [0x08, 0x20, 0x08] s)\<lparr>sh_line := (sh_line s)[sh_pos s := 0]\<rparr>))"

definition key_char :: "u8 \<Rightarrow> 'w shell \<Rightarrow> 'w shell option" where
  "key_char ch s =
     (let s = (if FINSH_CMD_SIZE \<le> sh_pos s then s\<lparr>sh_pos := 0\<rparr> else s) in do {
       s \<leftarrow> (if sh_cur s < sh_pos s then do {
           l \<leftarrow> move (sh_cur s + 1) (sh_cur s) (sh_pos s - sh_cur s) (sh_line s);
           let s = s\<lparr>sh_line := l[sh_cur s := ch]\<rparr>;
           s \<leftarrow> (if sh_echo s then do { t \<leftarrow> cstr_at (sh_line s) (sh_cur s); Some (tell t s) } else Some s);
           Some (tell_back (sh_pos s - sh_cur s) s) }
         else (let s = s\<lparr>sh_line := (sh_line s)[sh_pos s := ch]\<rparr>
           in Some (if sh_echo s then tell [ch] s else s)));
       let s = s\<lparr>sh_pos := sh_pos s + 1, sh_cur := sh_cur s + 1\<rparr>;
       Some (if FINSH_CMD_SIZE \<le> sh_pos s then s\<lparr>sh_pos := 0, sh_cur := 0\<rparr> else s) })"

definition shell_auto_complete :: "command list \<Rightarrow> 'w shell \<Rightarrow> 'w shell option" where
  "shell_auto_complete cs s = do {
     let s = tell [0x0A] s;
     (l, out) \<leftarrow> msh_auto_complete cs (sh_line s) (sh_out s);
     let s = s\<lparr>sh_line := l, sh_out := out\<rparr>;
     t \<leftarrow> cstr_at (sh_line s) 0;
     Some (tell (finsh_get_prompt s @ t) s) }"

definition key_tab :: "command list \<Rightarrow> 'w shell \<Rightarrow> 'w shell option" where
  "key_tab cs s = do {
     s \<leftarrow> shell_auto_complete cs (tell_back (sh_cur s) s);
     to_line_end s }"

definition key_enter :: "command list \<Rightarrow> 'w runs \<Rightarrow> 'w shell \<Rightarrow> 'w shell option" where
  "key_enter cs run s = do {
     let s = shell_push_history s;
     let s = (if sh_echo s then tell [0x0A] s else s);
     (_, _, out, w) \<leftarrow> msh_exec cs run (sh_line s) 0 (of_nat (sh_pos s)) (sh_out s) (sh_env s);
     let s = s\<lparr>sh_out := out, sh_env := w\<rparr>;
     s \<leftarrow> tell_prompt s;
     Some (s\<lparr>sh_line := replicate FINSH_CMD_SIZE 0, sh_pos := 0, sh_cur := 0\<rparr>) }"

definition shell_plain :: "command list \<Rightarrow> 'w runs \<Rightarrow> u8 \<Rightarrow> 'w shell \<Rightarrow> 'w shell option" where
  "shell_plain cs run ch s =
     (if ch = 0 \<or> ch = 0xFF then Some s
      else if ch = 0x09 then key_tab cs s
      else if ch = 0x7F \<or> ch = 0x08 then key_backspace s
      else if ch = 0x0D \<or> ch = 0x0A then key_enter cs run s
      else key_char ch s)"

text \<open>One character; the arrow keys send three.\<close>

definition shell_step :: "command list \<Rightarrow> 'w runs \<Rightarrow> u8 \<Rightarrow> 'w shell \<Rightarrow> 'w shell option" where
  "shell_step cs run ch s =
     (if ch = 0x1B then Some (s\<lparr>sh_stat := WAIT_SPEC_KEY\<rparr>)
      else if sh_stat s = WAIT_SPEC_KEY \<and> ch = 0x5B then Some (s\<lparr>sh_stat := WAIT_FUNC_KEY\<rparr>)
      else if sh_stat s = WAIT_FUNC_KEY \<and> ch = 0x41 then key_up (s\<lparr>sh_stat := WAIT_NORMAL\<rparr>)
      else if sh_stat s = WAIT_FUNC_KEY \<and> ch = 0x42 then key_down (s\<lparr>sh_stat := WAIT_NORMAL\<rparr>)
      else if sh_stat s = WAIT_FUNC_KEY \<and> ch = 0x44 then Some (key_left (s\<lparr>sh_stat := WAIT_NORMAL\<rparr>))
      else if sh_stat s = WAIT_FUNC_KEY \<and> ch = 0x43 then Some (key_right (s\<lparr>sh_stat := WAIT_NORMAL\<rparr>))
      else shell_plain cs run ch (s\<lparr>sh_stat := WAIT_NORMAL\<rparr>))"

fun shell_run :: "command list \<Rightarrow> 'w runs \<Rightarrow> u8 list \<Rightarrow> 'w shell \<Rightarrow> 'w shell option" where
  "shell_run cs run [] s = Some s"
| "shell_run cs run (c # ks) s = do { s \<leftarrow> shell_step cs run c s; shell_run cs run ks s }"

text \<open>The start of the thread: echo on and the prompt.\<close>

definition finsh_thread_entry :: "command list \<Rightarrow> 'w runs \<Rightarrow> u8 list \<Rightarrow> 'w shell \<Rightarrow> 'w shell option" where
  "finsh_thread_entry cs run ks s = do {
     s \<leftarrow> tell_prompt (s\<lparr>sh_echo := True\<rparr>);
     shell_run cs run ks s }"

text \<open>\<open>rt_calloc\<close> and the prompt mode of \<open>finsh_system_init\<close>.\<close>

definition shell_new :: "'w \<Rightarrow> 'w shell" where
  "shell_new w = finsh_set_prompt_mode 1 \<lparr>sh_stat = WAIT_NORMAL, sh_echo = False, sh_prompt = False, sh_custom = None,
     sh_cur_hist = 0, sh_hist_count = 0,
     sh_hist = replicate FINSH_HISTORY_LINES (replicate FINSH_CMD_SIZE 0),
     sh_line = replicate FINSH_CMD_SIZE 0, sh_pos = 0, sh_cur = 0, sh_out = [], sh_env = w\<rparr>"

section \<open>The line as two lists\<close>

text \<open>The characters before the cursor and behind it.\<close>

type_synonym zipper = "u8 list \<times> u8 list"

definition pad :: "u8 list \<Rightarrow> u8 list" where
  "pad t = t @ replicate (FINSH_CMD_SIZE - size t) 0"

definition shows_line :: "'w shell \<Rightarrow> zipper \<Rightarrow> bool" where
  "shows_line s z \<longleftrightarrow> sh_line s = pad (fst z @ snd z) \<and> sh_cur s = size (fst z) \<and>
     sh_pos s = size (fst z @ snd z) \<and> size (fst z @ snd z) < FINSH_CMD_SIZE \<and>
     0 \<notin> set (fst z @ snd z)"

datatype key = KChar u8 | KLeft | KRight | KBack

fun key_bytes :: "key \<Rightarrow> u8 list" where
  "key_bytes (KChar c) = [c]"
| "key_bytes KLeft = [0x1B, 0x5B, 0x44]"
| "key_bytes KRight = [0x1B, 0x5B, 0x43]"
| "key_bytes KBack = [0x7F]"

definition plain_char :: "u8 \<Rightarrow> bool" where
  "plain_char c \<longleftrightarrow> c \<notin> {0, 0xFF, 0x09, 0x7F, 0x08, 0x0D, 0x0A, 0x1B}"

text \<open>What a key does to the two lists; \<open>None\<close> for a line of 80 characters.\<close>

fun edit :: "key \<Rightarrow> zipper \<Rightarrow> zipper option" where
  "edit (KChar c) (x, y) =
     (if plain_char c \<and> size x + size y + 1 < FINSH_CMD_SIZE then Some (x @ [c], y) else None)"
| "edit KLeft (x, y) = Some (if x = [] then (x, y) else (butlast x, last x # y))"
| "edit KRight (x, y) = Some (if y = [] then (x, y) else (x @ [hd y], tl y))"
| "edit KBack (x, y) = Some (butlast x, y)"

fun edits :: "key list \<Rightarrow> zipper \<Rightarrow> zipper option" where
  "edits [] z = Some z"
| "edits (k # ks) z = do { z \<leftarrow> edit k z; edits ks z }"

section \<open>Editing does what is shown\<close>

definition same_rest :: "'w shell \<Rightarrow> 'w shell \<Rightarrow> bool" where
  "same_rest s s' \<longleftrightarrow> sh_stat s' = sh_stat s \<and> sh_echo s' = sh_echo s \<and> sh_prompt s' = sh_prompt s \<and>
     sh_custom s' = sh_custom s \<and> sh_cur_hist s' = sh_cur_hist s \<and> sh_hist_count s' = sh_hist_count s \<and>
     sh_hist s' = sh_hist s \<and> sh_env s' = sh_env s"

lemma same_rest_refl [simp]: "same_rest s s"
  by (simp add: same_rest_def)

lemma same_rest_trans: "same_rest s s' \<Longrightarrow> same_rest s' s'' \<Longrightarrow> same_rest s s''"
  by (simp add: same_rest_def)

lemma tell_simps [simp]:
  "same_rest s0 (tell t s) = same_rest s0 s" "sh_line (tell t s) = sh_line s" "sh_pos (tell t s) = sh_pos s"
  "sh_cur (tell t s) = sh_cur s" "sh_stat (tell t s) = sh_stat s" "sh_echo (tell t s) = sh_echo s"
  by (simp_all add: tell_def same_rest_def)

lemma tell_back_simps [simp]:
  "same_rest s0 (tell_back n s) = same_rest s0 s" "sh_line (tell_back n s) = sh_line s"
  "sh_pos (tell_back n s) = sh_pos s" "sh_cur (tell_back n s) = sh_cur s" "sh_stat (tell_back n s) = sh_stat s"
  by (induction n arbitrary: s) simp_all

lemma same_rest_upd [simp]:
  "same_rest s0 (s\<lparr>sh_line := l\<rparr>) = same_rest s0 s" "same_rest s0 (s\<lparr>sh_pos := n\<rparr>) = same_rest s0 s"
  "same_rest s0 (s\<lparr>sh_cur := n\<rparr>) = same_rest s0 s"
  by (simp_all add: same_rest_def)

lemma size_pad: "size t \<le> FINSH_CMD_SIZE \<Longrightarrow> size (pad t) = FINSH_CMD_SIZE"
  by (simp add: pad_def)

lemma cstr_at_pad:
  "size (x @ y) < FINSH_CMD_SIZE \<Longrightarrow> 0 \<notin> set y \<Longrightarrow> cstr_at (pad (x @ y)) (size x) = Some y"
proof -
  assume a: "size (x @ y) < FINSH_CMD_SIZE" "0 \<notin> set y"
  then obtain n where "FINSH_CMD_SIZE - size (x @ y) = Suc n" by (metis Suc_diff_Suc)
  then show ?thesis using cstr_at_shift[of x "y @ 0 # replicate n 0" 0] cstr_at_word[OF a(2)]
    by (simp add: pad_def)
qed

lemma pad_snoc: "size x < FINSH_CMD_SIZE \<Longrightarrow> (pad x)[size x := c] = pad (x @ [c])"
proof -
  assume "size x < FINSH_CMD_SIZE"
  then have "FINSH_CMD_SIZE - size x = Suc (FINSH_CMD_SIZE - Suc (size x))" by simp
  then show ?thesis by (simp add: pad_def list_update_append)
qed

lemma move_insert:
  assumes "size x + size y < FINSH_CMD_SIZE"
  shows "\<exists>l. move (size x + 1) (size x) (size y) (pad (x @ y)) = Some l \<and> l[size x := c] = pad (x @ c # y)"
proof -
  have n: "FINSH_CMD_SIZE - (size x + size y) = Suc (FINSH_CMD_SIZE - Suc (size x + size y))"
    using assms by simp
  have "move (size x + 1) (size x) (size y) (pad (x @ y)) = Some (take (size x + 1) (pad (x @ y)) @ y @
      replicate (FINSH_CMD_SIZE - Suc (size x + size y)) 0)"
    using assms by (simp add: move_def pad_def)
  moreover obtain e where "take (size x + 1) (pad (x @ y)) = x @ [e]"
    using assms by (cases y) (simp_all add: pad_def n)
  ultimately show ?thesis by (auto simp: pad_def list_update_append simp del: take_append)
qed

lemma move_delete:
  assumes "size x + size y + 1 < FINSH_CMD_SIZE" "y \<noteq> []"
  shows "\<exists>l. move (size x) (size x + 1) (size y) (pad (x @ c # y)) = Some l \<and>
    l[size x + size y := 0] = pad (x @ y)"
proof -
  obtain y' d where y: "y = y' @ [d]" using assms(2) by (cases y rule: rev_cases) auto
  have n: "FINSH_CMD_SIZE - (size x + size y) = Suc (FINSH_CMD_SIZE - Suc (size x + size y))"
    using assms by simp
  have "move (size x) (size x + 1) (size y) (pad (x @ c # y)) = Some (x @ y @ drop (size x + size y) (pad (x @ c # y)))"
    using assms(1) by (simp add: move_def pad_def)
  moreover have "drop (size x + size y) (pad (x @ c # y)) = d # replicate (FINSH_CMD_SIZE - Suc (size x + size y)) 0"
    using assms(1) by (simp add: pad_def y)
  ultimately show ?thesis using assms(1) n by (simp add: pad_def list_update_append)
qed

lemma shows_lineD:
  assumes "shows_line s (x, y)"
  shows "sh_line s = pad (x @ y)" "sh_cur s = size x" "sh_pos s = size x + size y"
    "size x + size y < FINSH_CMD_SIZE" "0 \<notin> set x" "0 \<notin> set y"
  using assms by (auto simp: shows_line_def)

lemma key_char_ok:
  assumes s: "shows_line s (x, y)" and n: "size x + size y + 1 < FINSH_CMD_SIZE" and c: "c \<noteq> 0"
  shows "\<exists>s'. key_char c s = Some s' \<and> shows_line s' (x @ [c], y) \<and> same_rest s s'"
proof (cases "y = []")
  case True
  then show ?thesis using shows_lineD[OF s] n c
    by (auto simp: key_char_def Let_def shows_line_def pad_snoc)
next
  case False
  from move_insert[of x y c] obtain l where l:
    "move (size x + 1) (size x) (size y) (pad (x @ y)) = Some l" "l[size x := c] = pad (x @ c # y)"
    using shows_lineD(4)[OF s] by blast
  have "cstr_at (pad (x @ c # y)) (size x) = Some (c # y)"
    using cstr_at_pad[of x "c # y"] n c shows_lineD(6)[OF s] by simp
  then show ?thesis using shows_lineD[OF s] n c l False
    by (auto simp: key_char_def Let_def shows_line_def)
qed

lemma key_backspace_ok:
  assumes s: "shows_line s (x, y)"
  shows "\<exists>s'. key_backspace s = Some s' \<and> shows_line s' (butlast x, y) \<and> same_rest s s'"
proof (cases x rule: rev_cases)
  case Nil
  then show ?thesis using shows_lineD[OF s] s by (auto simp: key_backspace_def)
next
  case (snoc x' c)
  note d = shows_lineD[OF s, unfolded snoc, simplified]
  show ?thesis
  proof (cases "y = []")
    case True
    have "FINSH_CMD_SIZE - size x' = Suc (FINSH_CMD_SIZE - Suc (size x'))" using d(4) by simp
    then have "(pad (x' @ [c]))[size x' := 0] = pad x'" by (simp add: pad_def list_update_append)
    then show ?thesis using d True snoc
      by (auto simp: key_backspace_def Let_def shows_line_def)
  next
    case False
    from move_delete[of x' y c] d(4) False obtain l where l:
      "move (size x') (size x' + 1) (size y) (pad (x' @ c # y)) = Some l"
      "l[size x' + size y := 0] = pad (x' @ y)" by auto
    have "cstr_at (pad (x' @ y)) (size x') = Some y" using cstr_at_pad[of x' y] d(4,6) by simp
    then show ?thesis using d l False snoc
      by (auto simp: key_backspace_def Let_def shows_line_def)
  qed
qed

lemma stat_normal [simp]: "sh_stat s = WAIT_NORMAL \<Longrightarrow> s\<lparr>sh_stat := WAIT_NORMAL\<rparr> = s"
  by simp

lemma shell_run_append:
  "shell_run cs run (ks @ ls) s = shell_run cs run ks s \<bind> shell_run cs run ls"
proof (induction ks arbitrary: s)
  case (Cons k ks)
  then show ?case by (cases "shell_step cs run k s") simp_all
qed simp

lemma shell_run_Nil [simp]: "shell_run cs run [] = Some"
  by (rule ext) simp

lemma arrow_bytes:
  assumes "sh_stat s = WAIT_NORMAL"
  shows "shell_run cs run [0x1B, 0x5B, 0x41] s = key_up s" "shell_run cs run [0x1B, 0x5B, 0x42] s = key_down s"
    "shell_run cs run [0x1B, 0x5B, 0x43] s = Some (key_right s)"
    "shell_run cs run [0x1B, 0x5B, 0x44] s = Some (key_left s)"
  using assms by (simp_all add: shell_step_def)

lemma edit_ok:
  assumes s: "shows_line s z" "sh_stat s = WAIT_NORMAL" and e: "edit k z = Some z'"
  shows "\<exists>s'. shell_run cs run (key_bytes k) s = Some s' \<and> shows_line s' z' \<and> same_rest s s'"
proof -
  obtain x y where z: "z = (x, y)" by fastforce
  note d = shows_lineD[OF s(1)[unfolded z]]
  show ?thesis
  proof (cases k)
    case (KChar c)
    then have c: "plain_char c" "size x + size y + 1 < FINSH_CMD_SIZE" "z' = (x @ [c], y)"
      using e z by (auto split: if_splits)
    then have "shell_run cs run (key_bytes k) s = key_char c s"
      using s(2) KChar by (simp add: shell_step_def shell_plain_def plain_char_def)
    then show ?thesis using key_char_ok[of s x y c] s c z by (auto simp: plain_char_def)
  next
    case KLeft
    then have "shell_run cs run (key_bytes k) s = Some (key_left s)" using arrow_bytes(4)[OF s(2)] by simp
    moreover have "shows_line (key_left s) z' \<and> same_rest s (key_left s)"
      using e[symmetric] d z KLeft by (cases x rule: rev_cases) (auto simp: key_left_def shows_line_def)
    ultimately show ?thesis by blast
  next
    case KRight
    then have "shell_run cs run (key_bytes k) s = Some (key_right s)" using arrow_bytes(3)[OF s(2)] by simp
    moreover have "shows_line (key_right s) z' \<and> same_rest s (key_right s)"
      using e[symmetric] d z KRight by (cases y) (simp_all add: key_right_def shows_line_def split: if_splits)
    ultimately show ?thesis by blast
  next
    case KBack
    then have "shell_run cs run (key_bytes k) s = key_backspace s"
      using s(2) by (simp add: shell_step_def shell_plain_def)
    then show ?thesis using key_backspace_ok[of s x y] s e z KBack by auto
  qed
qed

lemma edits_ok:
  "shows_line s z \<Longrightarrow> sh_stat s = WAIT_NORMAL \<Longrightarrow> edits ks z = Some z' \<Longrightarrow>
    \<exists>s'. shell_run cs run (concat (map key_bytes ks)) s = Some s' \<and> shows_line s' z' \<and> same_rest s s'"
proof (induction ks arbitrary: s z)
  case (Cons k ks)
  from Cons.prems(3) obtain z1 where z1: "edit k z = Some z1" "edits ks z1 = Some z'"
    by (cases "edit k z") auto
  from edit_ok[OF Cons.prems(1,2) z1(1)] obtain s1 where s1:
    "shell_run cs run (key_bytes k) s = Some s1" "shows_line s1 z1" "same_rest s s1" by blast
  then have "sh_stat s1 = WAIT_NORMAL" using Cons.prems(2) by (simp add: same_rest_def)
  from Cons.IH[OF s1(2) this z1(2)] s1 show ?case
    by (auto simp: shell_run_append intro: same_rest_trans)
qed simp

section \<open>History\<close>

definition hist_ok :: "'w shell \<Rightarrow> bool" where
  "hist_ok s \<longleftrightarrow> size (sh_hist s) = FINSH_HISTORY_LINES \<and> sh_hist_count s \<le> FINSH_HISTORY_LINES \<and>
     sh_cur_hist s \<le> sh_hist_count s \<and> (\<forall>i < sh_hist_count s. \<exists>t. sh_hist s ! i = pad t \<and>
       size t < FINSH_CMD_SIZE \<and> 0 \<notin> set t)"

definition last_command :: "'w shell \<Rightarrow> u8 list \<Rightarrow> bool" where
  "last_command s t \<longleftrightarrow> 0 < sh_hist_count s \<and> sh_cur_hist s = sh_hist_count s \<and>
     sh_hist s ! (sh_hist_count s - 1) = pad t"

lemma push_history_ok:
  assumes "hist_ok s" "shows_line s z" "fst z @ snd z = t" "t \<noteq> []"
  shows "hist_ok (shell_push_history s)" "last_command (shell_push_history s) t"
    "sh_line (shell_push_history s) = sh_line s" "sh_pos (shell_push_history s) = sh_pos s"
    "sh_env (shell_push_history s) = sh_env s" "sh_out (shell_push_history s) = sh_out s"
    "sh_echo (shell_push_history s) = sh_echo s" "sh_stat (shell_push_history s) = sh_stat s"
    "sh_prompt (shell_push_history s) = sh_prompt s" "sh_custom (shell_push_history s) = sh_custom s"
proof -
  have l: "sh_line s = pad t" "sh_pos s = size t" "size t < FINSH_CMD_SIZE" "0 \<notin> set t"
    using assms(2,3) by (auto simp: shows_line_def)
  have e: "history_entry s = pad t" using l by (simp add: history_entry_def pad_def)
  let ?n = "sh_hist_count s" and ?h = "sh_hist s"
  have nz: "sh_pos s \<noteq> 0" using l assms(4) by simp
  have h: "size ?h = 5" "?n \<le> 5" "\<And>i. i < ?n \<Longrightarrow> \<exists>t. ?h ! i = pad t \<and> size t < FINSH_CMD_SIZE \<and> 0 \<notin> set t"
    using assms(1) by (auto simp: hist_ok_def FINSH_HISTORY_LINES_def)
  let ?old = "?n \<noteq> 0 \<and> ?h ! (?n - 1) = pad t"
  define n' where "n' = (if ?n = 5 \<or> ?old then ?n else ?n + 1)"
  define h' where "h' = (if ?old then ?h else if ?n = 5 then take 4 (drop 1 ?h) @ [pad t] else ?h[?n := pad t])"
  have push: "shell_push_history s = s\<lparr>sh_hist := h', sh_hist_count := n', sh_cur_hist := n'\<rparr>"
    using h(2) nz l(1) by (simp add: shell_push_history_def e FINSH_HISTORY_LINES_def h'_def n'_def)
  have "size h' = 5" using h by (simp add: h'_def)
  moreover have "n' \<le> 5" using h by (auto simp: n'_def)
  moreover have "\<exists>u. h' ! i = pad u \<and> size u < FINSH_CMD_SIZE \<and> 0 \<notin> set u" if "i < n'" for i
  proof -
    consider "h' ! i = pad t" | j where "j < ?n" "h' ! i = ?h ! j"
    proof (cases ?old)
      case True
      then show thesis using that(2)[of i] \<open>i < n'\<close> by (simp add: h'_def n'_def)
    next
      case o: False
      show thesis
      proof (cases "?n = 5")
        case True
        then show thesis using that(1) that(2)[of "Suc i"] \<open>i < n'\<close> o h(1)
          by (cases "i < 4") (simp_all add: h'_def n'_def nth_append)
      next
        case False
        with o have "h' = ?h[?n := pad t]" "n' = ?n + 1" by (auto simp: h'_def n'_def)
        then show thesis using that(1) that(2)[of i] \<open>i < n'\<close> h(1,2) False
          by (cases "i = ?n") simp_all
      qed
    qed
    then show ?thesis using h(3) l by cases auto
  qed
  ultimately show "hist_ok (shell_push_history s)"
    by (simp add: push hist_ok_def FINSH_HISTORY_LINES_def)
  have "h' ! (n' - 1) = pad t" "0 < n'"
    using h(1,2) by (auto simp: h'_def n'_def nth_append)
  then show "last_command (shell_push_history s) t" by (simp add: push last_command_def)
qed (simp_all add: shell_push_history_def Let_def)

text \<open>A line of the history is shown with the cursor behind it.\<close>

lemma history_line_ok:
  assumes "hist_ok s" "i < sh_hist_count s"
  shows "\<exists>s' t. history_line i s = Some s' \<and> shows_line s' (t, []) \<and> sh_hist s ! i = pad t \<and> hist_ok s' \<and>
    sh_cur_hist s' = i \<and> sh_hist s' = sh_hist s \<and> sh_hist_count s' = sh_hist_count s \<and> sh_stat s' = sh_stat s"
proof -
  from assms obtain t where t: "sh_hist s ! i = pad t" "size t < FINSH_CMD_SIZE" "0 \<notin> set t"
    by (auto simp: hist_ok_def)
  have "cstr_at (pad t) 0 = Some t" using cstr_at_pad[of "[]" t] t by simp
  then show ?thesis using t assms
    by (auto simp: history_line_def to_line_end_def shell_handle_history_def shows_line_def hist_ok_def tell_def)
qed

lemma key_up_last:
  assumes "hist_ok s" "last_command s t" "0 \<notin> set t" "size t < FINSH_CMD_SIZE"
  shows "\<exists>s'. key_up s = Some s' \<and> shows_line s' (t, []) \<and> hist_ok s' \<and> sh_stat s' = sh_stat s"
proof -
  from assms(2) have n: "sh_hist_count s - 1 < sh_hist_count s" "key_up s = history_line (sh_hist_count s - 1) s"
    by (auto simp: last_command_def key_up_def)
  from history_line_ok[OF assms(1) n(1)] n(2) obtain s' u where u: "key_up s = Some s'" "shows_line s' (u, [])"
    "sh_hist s ! (sh_hist_count s - 1) = pad u" "hist_ok s'" "sh_stat s' = sh_stat s" by metis
  have "pad u = pad t" using assms(2) u(3) by (simp add: last_command_def)
  then have "u = t" using cstr_at_pad[of "[]" u] cstr_at_pad[of "[]" t] assms(3,4) shows_lineD[OF u(2)] by simp
  with u show ?thesis by blast
qed

section \<open>Running a line\<close>

lemma key_enter_ok:
  assumes s: "shows_line s z" "hist_ok s" "fst z @ snd z = t" "0x25 \<notin> set (finsh_get_prompt s)"
    and c: "cmd_line t bl w v" "cmd_index cs w = Some i" "size (words t) < FINSH_ARG_MAX"
      "run i (words t) (sh_env s) = (x, out, env)"
  shows "\<exists>s'. key_enter cs run s = Some s' \<and> sh_env s' = env \<and> shows_line s' ([], []) \<and> hist_ok s' \<and>
    last_command s' t \<and> sh_stat s' = sh_stat s \<and> sh_prompt s' = sh_prompt s \<and> sh_custom s' = sh_custom s"
proof -
  have t: "t \<noteq> []" "size t < FINSH_CMD_SIZE" using c(1) s(1,3) by (auto simp: cmd_line_def shows_line_def)
  note p = push_history_ok[OF s(2,1,3) t(1)]
  let ?p = "shell_push_history s"
  obtain n where n: "FINSH_CMD_SIZE - size t = Suc n" using t(2) by (metis Suc_diff_Suc)
  have l: "sh_line ?p = t @ 0 # replicate n 0" "sh_pos ?p = size t"
    using p(3,4) s(1,3) n by (simp_all add: shows_line_def pad_def)
  let ?q = "if sh_echo ?p then tell [0x0A] ?p else ?p"
  have q: "sh_line ?q = sh_line ?p" "sh_pos ?q = sh_pos ?p" "sh_env ?q = sh_env s"
    using p(5) by (simp_all add: tell_def)
  from msh_exec_runs[OF c(1-3), of run "sh_env s" x out env "replicate n 0" "sh_out ?q"] c(4)
  obtain b where b: "msh_exec cs run (sh_line ?q) 0 (of_nat (sh_pos ?q)) (sh_out ?q) (sh_env ?q) =
      Some (x, b, sh_out ?q @ out, env)" using l q by auto
  let ?r = "?q\<lparr>sh_out := sh_out ?q @ out, sh_env := env\<rparr>"
  have g: "finsh_get_prompt ?r = finsh_get_prompt s" using p(9,10) by (simp add: finsh_get_prompt_def tell_def)
  then have "key_enter cs run s = Some ((tell (finsh_get_prompt s) ?r)\<lparr>sh_line := replicate FINSH_CMD_SIZE 0,
      sh_pos := 0, sh_cur := 0\<rparr>)"
    using b s(4) by (simp add: key_enter_def Let_def tell_prompt_def)
  moreover have "shows_line ((tell (finsh_get_prompt s) ?r)\<lparr>sh_line := replicate FINSH_CMD_SIZE 0,
      sh_pos := 0, sh_cur := 0\<rparr>) ([], [])"
    by (simp add: shows_line_def pad_def FINSH_CMD_SIZE_def)
  ultimately show ?thesis using p by (auto simp: tell_def hist_ok_def last_command_def)
qed

lemma edited_line_runs_aux:
  assumes "shows_line s ([], [])" "sh_stat s = WAIT_NORMAL" "hist_ok s" "0x25 \<notin> set (finsh_get_prompt s)"
    and "edits ks ([], []) = Some (x, y)" "cmd_line (x @ y) bl w v" "cmd_index cs w = Some i"
    and "size (words (x @ y)) < FINSH_ARG_MAX" "run i (words (x @ y)) (sh_env s) = (r, out, env)"
  shows "\<exists>s'. shell_run cs run (concat (map key_bytes ks) @ [0x0D]) s = Some s' \<and> sh_env s' = env \<and>
    shows_line s' ([], []) \<and> hist_ok s' \<and> last_command s' (x @ y) \<and> sh_stat s' = WAIT_NORMAL"
proof -
  from edits_ok[OF assms(1,2,5)] obtain s1 where s1:
    "shell_run cs run (concat (map key_bytes ks)) s = Some s1" "shows_line s1 (x, y)" "same_rest s s1" by blast
  then have r: "sh_stat s1 = WAIT_NORMAL" "hist_ok s1" "finsh_get_prompt s1 = finsh_get_prompt s" "sh_env s1 = sh_env s"
    using assms(2,3) by (simp_all add: same_rest_def hist_ok_def finsh_get_prompt_def)
  have "shell_run cs run [0x0D] s1 = key_enter cs run s1"
    using r(1) by (simp add: shell_step_def shell_plain_def)
  with key_enter_ok[OF s1(2) r(2) _ _ assms(6-8), of run r out env] assms(4,9) r s1(1)
  show ?thesis by (auto simp: shell_run_append)
qed

section \<open>A small shell\<close>

text \<open>Two commands; a command leaves its arguments as the state of the system.\<close>

definition demo_cmds :: "command list" where
  "demo_cmds = [\<lparr>cm_name = ascii ''list'', cm_desc = []\<rparr>,
     \<lparr>cm_name = ascii ''__cmd_echo'', cm_desc = []\<rparr>, \<lparr>cm_name = ascii ''__cmd_exit'', cm_desc = []\<rparr>]"

definition demo_run :: "u8 list list runs" where
  "demo_run i args w = (0, [], args)"

text \<open>The keys for \<open>ecko "a b" c\<close>, going back to correct the name.\<close>

definition demo_keys :: "key list" where
  "demo_keys = map KChar (ascii ''ecko '') @ [KLeft, KLeft, KBack] @ map KChar (ascii ''h'') @ [KRight, KRight] @
     map KChar ([QUOTE] @ ascii ''a b'' @ [QUOTE] @ ascii '' c'')"

lemma shell_new_ok:
  "shows_line (shell_new w) ([], [])" "sh_stat (shell_new w) = WAIT_NORMAL" "hist_ok (shell_new w)"
  "0x25 \<notin> set (finsh_get_prompt (shell_new w))"
  by (simp_all add: shell_new_def finsh_set_prompt_mode_def shows_line_def pad_def hist_ok_def
      FINSH_CMD_SIZE_def FINSH_HISTORY_LINES_def finsh_get_prompt_def ascii_def)

section \<open>Where the editor leaves the line\<close>

text \<open>
  The 80th character empties the line but leaves its bytes, without a null: completion then
  reads past the end. Inserting the 80th character in the middle prints past the end.
\<close>

lemma full_line_then_tab_reads_outside:
  "shell_run demo_cmds demo_run (replicate 80 0x61 @ [0x09]) (shell_new []) = None"
  by code_simp

lemma insert_into_full_line_prints_outside:
  "shell_run demo_cmds demo_run (replicate 79 0x61 @ [0x1B, 0x5B, 0x44, 0x61])
     (finsh_set_echo 1 (shell_new [])) = None"
  by code_simp

text \<open>Ten arguments and a blank behind them are reported as too many.\<close>

lemma ten_arguments_reported:
  "\<exists>argv b out. msh_split (concat (replicate 10 [0x61, 0x20]) @ [0]) 0 20 [] = Some (argv, b, out) \<and>
    size argv = 10 \<and> out \<noteq> []"
proof -
  have "case msh_split (concat (replicate 10 [0x61, 0x20]) @ [0]) 0 20 [] of
      Some (argv, b, out) \<Rightarrow> size argv = 10 \<and> out \<noteq> [] | None \<Rightarrow> False"
    by code_simp
  then show ?thesis by (auto split: option.splits)
qed

text \<open>The modes keep one bit: 3 switches the echo on, and 2 the prompt off.\<close>

lemma modes_keep_one_bit:
  "finsh_get_echo (finsh_set_echo 3 s) = 1" "finsh_get_prompt_mode (finsh_set_prompt_mode 2 s) = 0"
  by (simp_all add: finsh_get_echo_def finsh_set_echo_def finsh_get_prompt_mode_def finsh_set_prompt_mode_def)

end
