(* ===== verification/Example.thy ===== *)
theory Example
  imports Sleep Sem Mutex Event Mailbox MsgQueue
begin

text \<open>
  A small concrete kernel, the input of the witnesses: thread 0 runs at priority 5, thread 1 is
  ready at priority 10, thread 2 at priority 8 waits on the object at address 7 whose class is
  the argument \<open>c\<close>. Thread 2's timer is active, three ticks ahead, when \<open>armed\<close>.
\<close>

definition demo_thread :: "u8 \<Rightarrow> u8 \<Rightarrow> thread" where
  "demo_thread st p = \<lparr>th_stat = st, th_current_priority = p, th_init_priority = p,
     th_number_mask = prio_mask (unat p), th_error = 0, th_event_set = 1, th_event_info = 5,
     th_init_tick = 4, th_remaining_tick = 4, th_cleanup = False\<rparr>"

definition demo_threads :: "nat \<Rightarrow> thread" where
  "demo_threads t = (if t = 0 then demo_thread RT_THREAD_RUNNING 5
     else if t = 1 then demo_thread RT_THREAD_READY 10
     else if t = 2 then demo_thread RT_THREAD_SUSPEND 8 else demo_thread RT_THREAD_INIT 0)"

definition demo_queues :: "(qhead, nat) queues" where
  "demo_queues = (\<lambda>l. if l = Ready 10 then [1] else if l = Pend 7 then [2] else [])"

definition demo_types :: "u8 \<Rightarrow> obj \<Rightarrow> u8" where
  "demo_types c ob = (case ob of
      ThreadObj t \<Rightarrow> if t < 3 then RT_Object_Class_Thread OR RT_Object_Class_Static else 0
    | TimerObj (ThreadTimer t) \<Rightarrow> if t < 3 then RT_Object_Class_Timer OR RT_Object_Class_Static else 0
    | IpcObj a \<Rightarrow> if a = 7 then c OR RT_Object_Class_Static else 0
    | _ \<Rightarrow> 0)"

definition demo_containers :: "u8 \<Rightarrow> u8 \<Rightarrow> obj list" where
  "demo_containers c d =
    (if d = RT_Object_Class_Thread then [ThreadObj 2, ThreadObj 1, ThreadObj 0]
     else if d = RT_Object_Class_Timer then map (TimerObj \<circ> ThreadTimer) [2, 1, 0]
     else if d = c then [IpcObj 7] else [])"

definition demo_timer :: "timer_id \<Rightarrow> rt_timer" where
  "demo_timer u = (case u of
      ThreadTimer t \<Rightarrow> \<lparr>tm_func = ThreadTimeout, tm_param = t, tm_init_tick = 3, tm_timeout_tick = 103\<rparr>
    | Timer n \<Rightarrow> \<lparr>tm_func = UserFn n, tm_param = n, tm_init_tick = 5, tm_timeout_tick = 0\<rparr>)"

definition demo :: "u8 \<Rightarrow> bool \<Rightarrow> kipc" where
  "demo c armed = \<lparr>k_threads = demo_threads, k_queues = demo_queues, k_group = prio_mask 10,
     k_current = Some 0, k_current_priority = 5, k_lock_nest = 0, k_irq_nest = 0,
     k_obj_type = demo_types c,
     k_obj_flag = (\<lambda>ob. if armed \<and> ob = TimerObj (ThreadTimer 2) then RT_TIMER_FLAG_ACTIVATED else 0),
     k_obj_name = (\<lambda>ob. replicate 8 0), k_containers = demo_containers c,
     k_tick = 100, k_timers = demo_timer, k_timer_list = (if armed then [ThreadTimer 2] else []),
     k_sem = (\<lambda>_. 0), k_mutex = (\<lambda>_. \<lparr>mx_value = 0, mx_original_priority = 10, mx_hold = 1, mx_owner = Some 1\<rparr>),
     k_event = (\<lambda>_. 0),
     k_mb = (\<lambda>_. \<lparr>mb_pool = [0, 0], mb_size = 2, mb_entry = 0, mb_in_offset = 0, mb_out_offset = 0\<rparr>),
     k_mq = (\<lambda>_. \<lparr>mq_msg_size = 4, mq_max_msgs = 2, mq_entry = 0, mq_next = (\<lambda>i. if i = 1 then Some 0 else None),
       mq_data = (\<lambda>_. [0, 0, 0, 0]), mq_head = None, mq_tail = None, mq_free = Some 1\<rparr>)\<rparr>"

lemma demo_stat [simp]:
  "stat_of (demo_thread RT_THREAD_RUNNING p) = RT_THREAD_RUNNING"
  "stat_of (demo_thread RT_THREAD_READY p) = RT_THREAD_READY"
  "stat_of (demo_thread RT_THREAD_SUSPEND p) = RT_THREAD_SUSPEND"
  "stat_of (demo_thread RT_THREAD_INIT p) = RT_THREAD_INIT"
  by (simp_all add: demo_thread_def stat_of_def stat_defs RT_THREAD_STAT_MASK_def)

lemma demo_fields [simp]:
  "k_threads (demo c b) = demo_threads" "k_queues (demo c b) = demo_queues" "k_current (demo c b) = Some 0"
  "k_lock_nest (demo c b) = 0" "k_irq_nest (demo c b) = 0" "k_tick (demo c b) = 100"
  "k_timer_list (demo c b) = (if b then [ThreadTimer 2] else [])" "k_group (demo c b) = prio_mask 10"
  "k_obj_type (demo c b) = demo_types c" "k_timers (demo c b) = demo_timer"
  "k_containers (demo c b) = demo_containers c" "k_obj_name (demo c b) ob = replicate 8 0"
  "k_obj_flag (demo c b) (IpcObj a) = 0" "k_sem (demo c b) a = 0" "k_event (demo c b) a = 0"
  by (simp_all add: demo_def)

lemma demo_sched: "sched_inv {} (demo c b)"
proof (rule sched_invI)
  show "lists_ok (k_queues (demo c b))" by (auto simp: lists_ok_def demo_queues_def)
  show "group_ok (demo c b)" by (auto simp: group_ok_def demo_queues_def)
  show "thread_ok (demo c b) t" for t
    by (auto simp: thread_ok_def mask_ok_def prio_of_def linked_def demo_queues_def demo_threads_def
        demo_thread_def RT_THREAD_PRIORITY_MAX_def stat_of_def stat_defs RT_THREAD_STAT_MASK_def)
qed simp

lemma demo_types_simps [simp]:
  "is_thread t (demo c b) \<longleftrightarrow> t < 3" "is_timer (ThreadTimer t) (demo c b) \<longleftrightarrow> t < 3"
  by (auto simp: is_thread_def is_timer_def rt_object_get_type_def demo_types_def
      RT_Object_Class_Thread_def RT_Object_Class_Timer_def RT_Object_Class_Static_def)

lemma demo_timer_inv: "timer_inv (demo c b)"
  by (auto simp: timer_inv_def due_def max_due_def demo_timer_def timer_flag_def timer_flag_defs demo_def)
    (simp add: is_timer_def rt_object_get_type_def demo_types_def RT_Object_Class_Timer_def RT_Object_Class_Static_def)

lemma demo_sys: "sys_inv {} (demo c b)"
proof (rule sys_invI[OF demo_sched _ demo_timer_inv])
  show "cur_ok (demo c b)" by (simp add: cur_ok_def demo_threads_def)
  have np: "\<not> periodic u (demo c b)" for u
    by (simp add: periodic_def timer_flag_def demo_def timer_flag_defs)
  then show "periods_ok (demo c b)" by (simp add: periods_ok_def demo_timer_def)
  show "thread_wf (demo c b) t" for t
    using np by (auto simp: thread_wf_def demo_threads_def demo_timer_def)
qed

lemma demo_on_time: "on_time (demo c b)"
  by (simp add: on_time_def due_def demo_timer_def)

lemma demo_type: "c \<in> set rt_object_container \<Longrightarrow> ipc_is c 7 (demo c b)"
  by (simp add: ipc_is_def rt_object_get_type_def demo_types_def)

lemma demo_classes [simp]:
  "RT_Object_Class_Semaphore \<in> set rt_object_container" "RT_Object_Class_Mutex \<in> set rt_object_container"
  "RT_Object_Class_Event \<in> set rt_object_container" "RT_Object_Class_MailBox \<in> set rt_object_container"
  "RT_Object_Class_MessageQueue \<in> set rt_object_container" "RT_Object_Class_Thread \<in> set rt_object_container"
  "RT_Object_Class_Timer \<in> set rt_object_container"
  by (simp_all add: rt_object_container_def)

text \<open>The mutex at 7 belongs to thread 1; in \<open>demo_owner\<close> to the running thread.\<close>

definition demo_owner :: kipc where
  "demo_owner = upd_mutex 7 (\<lambda>m. m\<lparr>mx_owner := Some 0\<rparr>) (demo RT_Object_Class_Mutex True)"

lemma demo_mutex:
  "k_mutex (demo c b) a = \<lparr>mx_value = 0, mx_original_priority = 10, mx_hold = 1, mx_owner = Some 1\<rparr>"
  by (simp add: demo_def)

lemma demo_mutex_inv: "mutex_inv 7 (demo c b)"
  by (simp add: mutex_inv_def demo_mutex demo_queues_def RT_THREAD_PRIORITY_MAX_def)

lemma demo_owner_sys: "sys_inv {} demo_owner"
  by (simp add: demo_owner_def demo_sys)

lemma demo_owner_fields:
  "k_threads demo_owner = demo_threads" "k_queues demo_owner = demo_queues" "k_current demo_owner = Some 0"
  "k_irq_nest demo_owner = 0" "in_thread_context demo_owner" "ipc_is RT_Object_Class_Mutex 7 demo_owner"
  "mutex_inv 7 demo_owner"
  "k_mutex demo_owner 7 = \<lparr>mx_value = 0, mx_original_priority = 10, mx_hold = 1, mx_owner = Some 0\<rparr>"
  using demo_mutex_inv[of RT_Object_Class_Mutex True] demo_type[of RT_Object_Class_Mutex True]
  by (simp_all add: demo_owner_def demo_mutex in_thread_context_def mutex_inv_def demo_queues_def ipc_is_def
      rt_object_get_type_def)

text \<open>Thread 2 waits for the event with flag 1 (\<open>RT_EVENT_FLAG_AND\<close>, to be cleared).\<close>

lemma demo_event_inv: "event_inv 7 (demo c b)"
  by (simp add: event_inv_def event_waits_def event_met_def demo_queues_def demo_threads_def demo_thread_def
      RT_EVENT_FLAG_AND_def)

lemma demo_waits: "\<not> event_met RT_EVENT_FLAG_OR wanted (k_event (demo c b) 7)"
  by (simp add: event_met_def RT_EVENT_FLAG_AND_def RT_EVENT_FLAG_OR_def)

text \<open>Two lists in memory, of which \<open>True\<close> holds node 3.\<close>

definition demo_heap :: "(bool + nat) lheap" where
  "demo_heap = rt_list_insert_before (Inl True) (Inr 3) \<lparr>nxt = id, prv = id\<rparr>"

lemma demo_heap_lists: "lists_in demo_heap (\<lambda>l. if l = True then [3] else [])"
proof -
  have e: "lists_in \<lparr>nxt = id, prv = id\<rparr> (\<lambda>_ :: bool. [] :: nat list)" by (simp add: lists_in_def lists_ok_def)
  have "lists_in demo_heap (q_push_back True 3 (\<lambda>_. []))"
    unfolding demo_heap_def by (rule rt_list_insert_before_head_refines[OF e]) (simp add: linked_def)
  moreover have "q_push_back True 3 (\<lambda>_. []) = (\<lambda>l. if l = True then [3 :: nat] else [])" by (rule ext) simp
  ultimately show ?thesis by simp
qed

text \<open>The objects of the example, and the example with the scheduler locked.\<close>

lemma demo_obj_inv: "obj_inv (demo RT_Object_Class_Semaphore b)"
proof -
  have t: "rt_object_get_type ob (demo RT_Object_Class_Semaphore b) = (case ob of
      ThreadObj t \<Rightarrow> if t < 3 then RT_Object_Class_Thread else 0
    | TimerObj (ThreadTimer t) \<Rightarrow> if t < 3 then RT_Object_Class_Timer else 0
    | IpcObj a \<Rightarrow> if a = 7 then RT_Object_Class_Semaphore else 0
    | _ \<Rightarrow> 0)" for ob
    by (simp add: rt_object_get_type_def demo_types_def split: obj.splits timer_id.splits)
  have c: "k_containers (demo RT_Object_Class_Semaphore b) d =
    (if d = RT_Object_Class_Thread then [ThreadObj 2, ThreadObj 1, ThreadObj 0]
     else if d = RT_Object_Class_Timer then [TimerObj (ThreadTimer 2), TimerObj (ThreadTimer 1), TimerObj (ThreadTimer 0)]
     else if d = RT_Object_Class_Semaphore then [IpcObj 7] else [])" for d
    by (simp add: demo_containers_def)
  have n: "RT_Object_Class_Thread \<noteq> RT_Object_Class_Timer" "RT_Object_Class_Thread \<noteq> RT_Object_Class_Semaphore"
    "RT_Object_Class_Timer \<noteq> RT_Object_Class_Semaphore" by (simp_all add: class_defs)
  have three: "n < 3 \<longleftrightarrow> n = 0 \<or> n = 1 \<or> n = 2" for n :: nat by auto
  have r: "k_obj_type (demo RT_Object_Class_Semaphore b) ob \<noteq> 0 \<longleftrightarrow>
    ob \<in> {ThreadObj 0, ThreadObj 1, ThreadObj 2, TimerObj (ThreadTimer 0), TimerObj (ThreadTimer 1),
      TimerObj (ThreadTimer 2), IpcObj 7}" for ob
    using three by (auto simp: demo_types_def class_defs RT_Object_Class_Static_def split: obj.splits timer_id.splits if_splits)
  show ?thesis unfolding obj_inv_def r t c using n by auto
qed

lemma demo_flag: "timer_flag (ThreadTimer 2) (demo c b) AND RT_TIMER_FLAG_PERIODIC = 0"
  by (simp add: timer_flag_def demo_def timer_flag_defs)

lemma demo_sched_ok: "sched_ok (demo c b)"
  using demo_sched sys_invD(2)[OF demo_sys] by (simp add: sched_ok_def)

lemma demo_static: "rt_object_is_systemobject (IpcObj 7) (demo c b)"
  by (simp add: rt_object_is_systemobject_def demo_types_def RT_Object_Class_Static_def
      bit.conj_disj_distrib2)

definition demo_locked :: kipc where
  "demo_locked = (demo RT_Object_Class_Semaphore True)\<lparr>k_lock_nest := 1\<rparr>"

lemma sys_inv_lock [simp]: "sys_inv X (k\<lparr>k_lock_nest := n\<rparr>) \<longleftrightarrow> sys_inv X k"
  by (simp add: sys_inv_def threads_inv_def sched_inv_def thread_ok_def group_ok_def mask_ok_def prio_of_def
      cur_ok_def timer_inv_def periods_ok_def thread_wf_def due_def periodic_def timer_flag_def is_timer_def
      is_thread_def rt_object_get_type_def cong: ball_cong map_cong)

lemma demo_locked_sys: "sys_inv {} demo_locked"
  by (simp add: demo_locked_def demo_sys)

lemma demo_locked_fields:
  "k_threads demo_locked = demo_threads" "k_current demo_locked = Some 0" "k_irq_nest demo_locked = 0"
  "k_sem demo_locked a = 0" "k_lock_nest demo_locked = 1" "ipc_flag a demo_locked = RT_IPC_FLAG_FIFO"
  "ipc_is RT_Object_Class_Semaphore 7 demo_locked"
  using demo_type[of RT_Object_Class_Semaphore True]
  by (simp_all add: demo_locked_def ipc_flag_def RT_IPC_FLAG_FIFO_def ipc_is_def rt_object_get_type_def)

end
