(* ===== verification/Spec2Isabelle.thy ===== *)
theory Spec2Isabelle
  imports RtList SList Kservice Format Sched Object Timer Thread Sleep Ipc Sem Mutex Event Mailbox MsgQueue
    DataQueue WaitQueue WorkQueue Device DfsFile RingBuffer RingBlk MemOps MemAlign Mempool FinshVar Shell Example
begin

text \<open>
  RT-Thread is a real-time operating system for microcontrollers; this repository is its source
  tree with the board support package of an STM32F407. The development models the kernel
  (\<open>src/\<close>, \<open>include/\<close>) and the data structures of the device drivers
  (\<open>components/drivers/src\<close>), in the configuration of the board
  (\<open>bsp/stm32/stm32f407-st-discovery/rtconfig.h\<close>): one processor, 32 priorities, the small memory
  manager, no signals, no soft timers, no application modules. To these it adds the device file
  system (\<open>components/dfs/src\<close>), which this board leaves out, with the default sizes of its tables, and
  the shell (\<open>components/finsh\<close>): the command shell the board uses, and the compiler and machine of
  the expression shell it can be configured with.

  \<^bold>\<open>The program.\<close> Threads and interrupts share one kernel state. The scheduler picks the thread of
  the highest priority from the ready queues; timers, kept in one list by expiry, are run by the
  tick interrupt; semaphores, mutexes, events, mailboxes and message queues suspend threads on
  wait lists and resume them from there, with a timer for a wait that ends. Every object is
  registered by class and name. The heap and the pools give memory. The drivers' structures
  (ring buffers, data queues, completions, wait queues, work queues) are built on threads, timers
  and semaphores, and the device layer counts the users of a device and calls its driver. The
  device file system normalises paths, finds the mount a path belongs to, keeps the descriptors of
  open files and calls the file system that is mounted. The shell's thread edits a line from the
  characters of the console, splits it into words and calls the command named by the first, or
  compiles a line of C expressions to byte code and runs it.

  \<^bold>\<open>State.\<close> The kernel is one extensible record that grows with the layers: \<open>ksched\<close> (threads,
  queues, current thread, nesting counters), \<open>kobj\<close> (class containers, names, flags), \<open>ktimer\<close>
  (tick, timers, the list of active timers), \<open>kipc\<close> (the fields of the IPC objects) and, each on
  top of \<open>kipc\<close>, \<open>kpool\<close>, \<open>kdrv\<close>, \<open>kwork\<close> and \<open>kdev\<close>, which \<open>kdfs\<close> extends. An operation takes the state last and
  returns an \<open>option\<close>: \<open>None\<close> is a failed assertion, a loop that does not end or the use of memory
  that is not an object, \<open>Some\<close> the result code and the new state. A call that may wait returns
  \<open>Done\<close> with its result or \<open>Blocked\<close> with the state in which the caller is suspended; the code
  after the wait is a definition of its own, named with \<open>_return\<close>. A section with interrupts
  disabled is one step. Machine integers are words of their width.

  \<^bold>\<open>Theories.\<close>
  \<^item> \<open>Prelude\<close>: word types, error codes, \<open>rt_assert\<close>, bit lemmas, wrap-around on naturals.
  \<^item> \<open>RtList\<close>, \<open>SList\<close>: the doubly and singly linked lists of \<open>rtservice.h\<close> on pointer heaps, and
    their refinement to lists; a locale of list laws is interpreted on them.
  \<^item> \<open>Kservice\<close>, \<open>Format\<close>: \<open>kservice.c\<close>: byte and string functions, find-first-set, formatted output.
  \<^item> \<open>Sched\<close>, \<open>Object\<close>, \<open>Timer\<close>, \<open>Thread\<close>, \<open>Sleep\<close>: \<open>scheduler.c\<close>, \<open>irq.c\<close>, \<open>object.c\<close>,
    \<open>timer.c\<close>, \<open>clock.c\<close>, \<open>thread.c\<close>, \<open>idle.c\<close>. \<open>sched_inv\<close>, \<open>timer_inv\<close>, \<open>obj_inv\<close> and their
    union \<open>sys_inv\<close> are the invariants; every operation has a lemma that it keeps them and says
    what it changes. \<open>Sleep\<close> follows a sleeping thread through the ticks.
  \<^item> \<open>Ipc\<close>, \<open>Sem\<close>, \<open>Mutex\<close>, \<open>Event\<close>, \<open>Fifo\<close>, \<open>Mailbox\<close>, \<open>MsgQueue\<close>: \<open>ipc.c\<close>; wait lists first, then one
    theory for each kind of object.
  \<^item> \<open>Mem\<close>, \<open>MemLayout\<close>, \<open>MemOps\<close>, \<open>MemAlign\<close>, \<open>Mempool\<close>: \<open>mem.c\<close> as headers in a byte heap refined to
    a list of blocks, aligned allocation of \<open>kservice.c\<close>, and \<open>mempool.c\<close>.
  \<^item> \<open>RingBuffer\<close>, \<open>RingBlk\<close>, \<open>Completion\<close>, \<open>DataQueue\<close>, \<open>WaitQueue\<close>, \<open>WorkQueue\<close>: the files of these
    names under \<open>components/drivers/src\<close>.
  \<^item> \<open>Device\<close>: \<open>device.c\<close>, the error number and the console device of \<open>kservice.c\<close>.
  \<^item> \<open>DfsPath\<close>, \<open>Dfs\<close>, \<open>DfsFile\<close>: paths, the tables of descriptors, file systems and mounts, and files
    with their POSIX calls (\<open>dfs.c\<close>, \<open>dfs_fs.c\<close>, \<open>dfs_file.c\<close>, \<open>dfs_posix.c\<close>). Paths are read as lists of
    names; \<open>mounts_ok\<close> and \<open>fd_ok\<close> are the invariants of the tables.
  \<^item> \<open>Msh\<close>, \<open>Shell\<close>: \<open>msh.c\<close> and \<open>shell.c\<close>; \<open>words\<close> says what a line is split into, \<open>edits\<close> what the keys
    make of a line seen as the lists before and behind the cursor, \<open>shows_line\<close> relates it to the buffer.
  \<^item> \<open>FinshVm\<close>, \<open>FinshCompiler\<close>, \<open>FinshExpr\<close>, \<open>FinshVar\<close>: \<open>finsh_ops.c\<close> and \<open>finsh_vm.c\<close>, \<open>finsh_compiler.c\<close>, the
    meaning of expressions with the correctness of their code, \<open>finsh_var.c\<close> and \<open>finsh_node.c\<close>.
    \<open>computes\<close> is the Hoare-like statement of a piece of code, with lemmas for every operation.
  \<^item> \<open>Example\<close>: a small concrete kernel on which the hypotheses of the theorems hold.

  \<^bold>\<open>Parameters.\<close> The timeout functions of an application, the functions a driver installs, the
  functions of works, the notification of a data queue and the wake-up functions of wait queue
  nodes, the commands of the shell and the functions called by byte code are arguments of the
  operations that call them; what is relied on is a named predicate
  (\<open>user_timeouts\<close>, \<open>bystanders\<close>, \<open>quiet\<close>, \<open>good_driver\<close>, \<open>good_files\<close>). What the heap returns to an operation
  that creates an object is an argument as well, null included.

  \<^bold>\<open>Loops.\<close> Loops over lists are structural. Loops that the code does not bound (waking every
  waiter, running the timers that are due, walking a heap) are \<open>partial_function (option)\<close>, with
  lemmas that they return in every state that satisfies the invariant. No fuel is used.

  \<^bold>\<open>Not modelled.\<close> Multiprocessor code, signals, soft timers, the slab and memheap managers and
  loadable modules, which this board does not configure; hooks, tracing and listings, which only
  observe; context switches, stacks and start-up, which are assembly or linker tables; pipes, the
  file systems themselves, the lock of the device file system (a recursive mutex: a section under
  it is one step), the lexer, parser and heap of the expression shell, completion of paths, the network layers and the peripheral drivers. Interrupt handlers
  act between the steps of the model, not inside them.
\<close>

section \<open>Scheduling, time and sleeping\<close>

text \<open>
  C1: \<open>rt_schedule\<close> with an unlocked scheduler returns, keeps the scheduler invariant, touches
  nothing but ready queues and the ready/running status of threads, and leaves a thread running
  whose priority is at least that of every ready thread.
\<close>

theorem rt_schedule_runs_highest:
  assumes "sched_inv {} k" "cur_ok k" "k_lock_nest k = 0"
    "k_group k \<noteq> 0 \<or> (\<exists>c. k_current k = Some c \<and> tstat k c = RT_THREAD_RUNNING)"
  shows "\<exists>k'. rt_schedule k = Some k' \<and> sched_inv {} k' \<and> sched_frame k k' \<and> highest_runs k'"
proof -
  obtain k' where "rt_schedule k = Some k'" "sched_inv {} k'" "cur_ok k'" "sched_frame k k'"
    "k_lock_nest k = 0 \<Longrightarrow> k_group k \<noteq> 0 \<or> (\<exists>c. k_current k = Some c \<and> tstat k c = RT_THREAD_RUNNING)
      \<Longrightarrow> highest_runs k'"
    using rt_schedule_spec[OF assms(1,2)] by blast
  then show ?thesis using assms(3,4) by blast
qed

lemma rt_schedule_runs_highest_witness:
  "\<exists>k'. rt_schedule (demo RT_Object_Class_Event False) = Some k' \<and> sched_inv {} k' \<and>
     sched_frame (demo RT_Object_Class_Event False) k' \<and> highest_runs k'"
  by (rule rt_schedule_runs_highest)
    (use sys_invD(1,2)[OF demo_sys] in \<open>simp_all add: prio_mask_def demo_threads_def\<close>)

text \<open>
  C2: The tick interrupt always returns: with time slices, timer callbacks and thread timeouts
  it keeps the invariant of scheduler, threads and timers, advances the tick by one and leaves
  no timer that is due, whatever the application's timeout functions do within their contract.
\<close>

theorem tick_interrupt_ok:
  assumes "user_timeouts user" "sys_inv {} k" "on_time k"
  shows "\<exists>k'. rt_tick_increase user k = Some k' \<and> sys_inv {} k' \<and> k_tick k' = k_tick k + 1 \<and>
    (\<forall>u \<in> set (k_timer_list k'). 0 < due k' u)"
  using user_timeouts.tick_ok[OF assms] .

lemma tick_interrupt_ok_witness:
  "\<exists>k'. rt_tick_increase wake_up (demo RT_Object_Class_Event True) = Some k' \<and> sys_inv {} k' \<and>
     k_tick k' = k_tick (demo RT_Object_Class_Event True) + 1 \<and> (\<forall>u \<in> set (k_timer_list k'). 0 < due k' u)"
  by (rule tick_interrupt_ok[OF kernel.user_timeouts_axioms demo_sys demo_on_time])

text \<open>
  C3: Sleeping is exact: after \<open>rt_thread_sleep n\<close> the thread is suspended through the next
  \<open>n - 1\<close> tick interrupts and the \<open>n\<close>-th makes it ready, when no other party wakes it.
\<close>

theorem sleep_wakes_exactly:
  assumes "bystanders user t" "sys_inv {} k" "on_time k" "k_current k = Some t"
    "tstat k t = RT_THREAD_RUNNING" "0 < n" "n < 0x7fffffff"
  shows "\<exists>k1. rt_thread_sleep n k = Some k1 \<and>
    (\<forall>m < unat n. \<exists>k'. ticks user m k1 = Some k' \<and> tstat k' t = RT_THREAD_SUSPEND) \<and>
    (\<exists>k'. ticks user (unat n) k1 = Some k' \<and> timed_out t k' \<and> sys_inv {} k')"
proof -
  obtain k1 where k1: "rt_thread_sleep n k = Some k1" "sys_inv {} k1" "on_time k1"
    "tstat k1 t = RT_THREAD_SUSPEND" "ThreadTimer t \<in> set (k_timer_list k1)" "due k1 (ThreadTimer t) = uint n"
    using rt_thread_sleep_ok[OF assms(2,4,5,7,3)] by blast
  have a: "asleep t (int (unat n)) k1" using k1(5,6) by (simp add: asleep_def)
  have n0: "0 < unat n" using assms(6) by (simp add: word_less_nat_alt)
  note w = bystanders.wakes_at_tick[OF assms(1) k1(2,3) a n0]
  have "\<exists>k'. ticks user m k1 = Some k' \<and> tstat k' t = RT_THREAD_SUSPEND" if m: "m < unat n" for m
  proof -
    obtain k' where k': "ticks user m k1 = Some k'" "sys_inv {} k'" "asleep t (int (unat n) - int m) k'"
      using w[of m] m by auto
    have "thread_wf k' t" by (rule sys_invD(5)[OF k'(2)])
    then show ?thesis using k'(1,3) thread_wfD(1) by (auto simp: asleep_def)
  qed
  moreover have "\<exists>k'. ticks user (unat n) k1 = Some k' \<and> timed_out t k' \<and> sys_inv {} k'" using w[of "unat n"] by auto
  ultimately show ?thesis using k1(1) by blast
qed

lemma sleep_wakes_exactly_witness:
  "\<exists>k1. rt_thread_sleep 2 (demo RT_Object_Class_Event True) = Some k1 \<and>
    (\<forall>m < unat (2 :: u32). \<exists>k'. ticks (wake_other 0) m k1 = Some k' \<and> tstat k' 0 = RT_THREAD_SUSPEND) \<and>
    (\<exists>k'. ticks (wake_other 0) (unat (2 :: u32)) k1 = Some k' \<and> timed_out 0 k' \<and> sys_inv {} k')"
  by (rule sleep_wakes_exactly[OF bystanders_wake_other demo_sys demo_on_time])
    (simp_all add: demo_threads_def)

text \<open>
  C4: A timer that is started goes behind every timer that expires no later and in front of the
  later ones, across wrap-around of the tick; the list stays sorted by expiry and holds the
  timer once.
\<close>

theorem rt_timer_start_in_order:
  assumes "timer_inv k" "is_timer t k" "tm_init_tick (k_timers k t) < 0x7fffffff"
  shows "\<exists>k'. rt_timer_start t k = Some (RT_EOK, k') \<and> timer_inv k' \<and>
    due k' t = uint (tm_init_tick (k_timers k t)) \<and>
    k_timer_list k' = filter (\<lambda>u. due k u \<le> due k' t) (removeAll t (k_timer_list k)) @
       t # filter (\<lambda>u. due k' t < due k u) (removeAll t (k_timer_list k))"
proof -
  obtain k' where k': "rt_timer_start t k = Some (RT_EOK, k')" "timer_inv k'" "timer_frame k k'"
    "k_timer_list k' = filter (\<lambda>u. due k u \<le> uint (tm_init_tick (k_timers k t))) (removeAll t (k_timer_list k)) @
       t # filter (\<lambda>u. uint (tm_init_tick (k_timers k t)) < due k u) (removeAll t (k_timer_list k))"
    "k_timers k' = (k_timers k)(t := (k_timers k t)\<lparr>tm_timeout_tick := k_tick k + tm_init_tick (k_timers k t)\<rparr>)"
    "timer_flag t k' = timer_flag t k OR RT_TIMER_FLAG_ACTIVATED" "\<forall>u. u \<noteq> t \<longrightarrow> timer_flag u k' = timer_flag u k"
    "due k' t = uint (tm_init_tick (k_timers k t))" "\<forall>u. u \<noteq> t \<longrightarrow> due k' u = due k u"
    by (rule rt_timer_start_ok[OF assms])
  show ?thesis unfolding k'(8) using k'(1,2,4) k'(8)
    by (intro exI[of _ k'] conjI) simp_all
qed

lemma rt_timer_start_in_order_witness:
  "\<exists>k'. rt_timer_start (ThreadTimer 1) (demo RT_Object_Class_Event True) = Some (RT_EOK, k') \<and> timer_inv k' \<and>
    due k' (ThreadTimer 1) = uint (tm_init_tick (k_timers (demo RT_Object_Class_Event True) (ThreadTimer 1))) \<and>
    k_timer_list k' = filter (\<lambda>u. due (demo RT_Object_Class_Event True) u \<le> due k' (ThreadTimer 1))
         (removeAll (ThreadTimer 1) (k_timer_list (demo RT_Object_Class_Event True))) @
       ThreadTimer 1 # filter (\<lambda>u. due k' (ThreadTimer 1) < due (demo RT_Object_Class_Event True) u)
         (removeAll (ThreadTimer 1) (k_timer_list (demo RT_Object_Class_Event True)))"
  by (rule rt_timer_start_in_order[OF demo_timer_inv]) (simp_all add: demo_timer_def)

text \<open>
  \<open>rt_thread_suspend\<close> of a ready or running thread takes it out of its ready queue and stops
  its timer, \<open>rt_thread_resume\<close> puts it at the tail of the queue of its priority (or marks it
  running if it is still the current thread); both keep the invariant.
\<close>

theorem suspend_resume:
  assumes "sys_inv {} k" "tstat k t = RT_THREAD_READY"
  shows "\<exists>k1 k2. rt_thread_suspend t k = Some (RT_EOK, k1) \<and> sys_inv {} k1 \<and>
    tstat k1 t = RT_THREAD_SUSPEND \<and> \<not> linked (k_queues k1) t \<and>
    rt_thread_resume t k1 = Some (RT_EOK, k2) \<and> sys_inv {} k2 \<and> tstat k2 t = RT_THREAD_READY \<and>
    k_queues k2 (Ready (prio_of k t)) = removeAll t (k_queues k (Ready (prio_of k t))) @ [t]"
proof -
  have s: "tstat k t \<in> {RT_THREAD_READY, RT_THREAD_RUNNING}" using assms(2) by simp
  obtain k1 where k1: "rt_thread_suspend t k = Some (RT_EOK, k1)" "sys_inv {} k1"
    "k_threads k1 = (k_threads k)(t := set_stat RT_THREAD_SUSPEND (k_threads k t))"
    "k_queues k1 = q_remove t (k_queues k)" "\<not> linked (k_queues k1) t" "k_current k1 = k_current k"
    using rt_thread_suspend_ok[OF assms(1) s] by blast
  have s1: "tstat k1 t = RT_THREAD_SUSPEND" using k1(3) by simp
  obtain k2 where k2: "rt_thread_resume t k1 = Some (RT_EOK, k2)" "sys_inv {} k2"
    "k_threads k2 = (k_threads k1)(t := set_stat (back_stat t k1) (k_threads k1 t))"
    "k_queues k2 = (if k_current k1 = Some t then q_remove t (k_queues k1)
                    else q_push_back (Ready (prio_of k1 t)) t (q_remove t (k_queues k1)))"
    using rt_thread_resume_ok[OF k1(2) s1] by blast
  have nc: "k_current k1 \<noteq> Some t" using sys_invD(2)[OF assms(1)] assms(2) k1(6) by (auto simp: cur_ok_def)
  have p: "prio_of k1 t = prio_of k t" using k1(3) by (simp add: prio_of_def)
  show ?thesis
    using k1(1,2,4,5) s1 k2 nc p by (intro exI[of _ k1] exI[of _ k2]) (simp add: back_stat_def)
qed

lemma suspend_resume_witness:
  "\<exists>k1 k2. rt_thread_suspend 1 (demo RT_Object_Class_Event True) = Some (RT_EOK, k1) \<and> sys_inv {} k1 \<and>
    tstat k1 1 = RT_THREAD_SUSPEND \<and> \<not> linked (k_queues k1) 1 \<and>
    rt_thread_resume 1 k1 = Some (RT_EOK, k2) \<and> sys_inv {} k2 \<and> tstat k2 1 = RT_THREAD_READY \<and>
    k_queues k2 (Ready (prio_of (demo RT_Object_Class_Event True) 1)) =
      removeAll 1 (k_queues (demo RT_Object_Class_Event True) (Ready (prio_of (demo RT_Object_Class_Event True) 1))) @ [1]"
  by (rule suspend_resume[OF demo_sys]) (simp add: demo_threads_def)

section \<open>Inter-process communication\<close>



text \<open>
  C6: Releasing a semaphore somebody waits for wakes the first waiter, with the error it had
  (\<open>RT_EOK\<close>) and its timer stopped, and does not change the value: the semaphore is handed over.
\<close>

theorem sem_release_hands_over:
  assumes "sys_inv {} k" "ipc_is RT_Object_Class_Semaphore a k" "k_queues k (Pend a) = t # ts"
  shows "\<exists>k'. rt_sem_release a k = Some (RT_EOK, k') \<and> sys_inv {} k' \<and> k_queues k' (Pend a) = ts \<and>
    tstat k' t \<in> {RT_THREAD_READY, RT_THREAD_RUNNING} \<and> th_error (k_threads k' t) = th_error (k_threads k t) \<and>
    ThreadTimer t \<notin> set (k_timer_list k') \<and> k_sem k' = k_sem k"
proof -
  obtain k' where "rt_sem_release a k = Some (RT_EOK, k')" "sys_inv {} k'" "k_queues k' (Pend a) = ts"
    "tstat k' t \<in> {RT_THREAD_READY, RT_THREAD_RUNNING}" "th_error (k_threads k' t) = th_error (k_threads k t)"
    "ThreadTimer t \<notin> set (k_timer_list k')" "k_sem k' = k_sem k"
    by (rule rt_sem_release_wakes[OF assms])
  then show ?thesis by blast
qed

lemma sem_release_hands_over_witness:
  "\<exists>k'. rt_sem_release 7 (demo RT_Object_Class_Semaphore True) = Some (RT_EOK, k') \<and> sys_inv {} k' \<and>
    k_queues k' (Pend 7) = [] \<and> tstat k' 2 \<in> {RT_THREAD_READY, RT_THREAD_RUNNING} \<and>
    th_error (k_threads k' 2) = th_error (k_threads (demo RT_Object_Class_Semaphore True) 2) \<and>
    ThreadTimer 2 \<notin> set (k_timer_list k') \<and> k_sem k' = k_sem (demo RT_Object_Class_Semaphore True)"
  by (rule sem_release_hands_over[OF demo_sys]) (simp_all add: demo_type demo_queues_def)

text \<open>
  C7: Taking a mutex that another thread owns suspends the caller and lends its priority: the
  owner, whether running, ready or itself suspended, afterwards has a priority at least as high
  as the waiting caller's; ownership and recursion depth stay as they were.
\<close>

theorem mutex_take_lends_priority:
  assumes "sys_inv {} k" "k_current k = Some t" "tstat k t = RT_THREAD_RUNNING" "k_irq_nest k = 0"
    "ipc_is RT_Object_Class_Mutex a k" "ipc_flag a k \<in> {RT_IPC_FLAG_FIFO, RT_IPC_FLAG_PRIO}"
    "mutex_inv a k" "mx_owner (k_mutex k a) = Some w" "w \<noteq> t"
    "tstat k w \<in> {RT_THREAD_READY, RT_THREAD_RUNNING, RT_THREAD_SUSPEND}" "time \<noteq> 0" "time \<noteq> 0x7fffffff"
  shows "\<exists>k'. rt_mutex_take a time k = Some (Blocked k') \<and> sys_inv {} k' \<and> mutex_inv a k' \<and>
    tstat k' t = RT_THREAD_SUSPEND \<and> t \<in> set (k_queues k' (Pend a)) \<and>
    th_current_priority (k_threads k' w) \<le> th_current_priority (k_threads k' t) \<and> k_mutex k' = k_mutex k"
proof -
  obtain k' where "rt_mutex_take a time k = Some (Blocked k')" "sys_inv {} k'" "mutex_inv a k'"
    "tstat k' t = RT_THREAD_SUSPEND" "t \<in> set (k_queues k' (Pend a))"
    "th_current_priority (k_threads k' w) \<le> th_current_priority (k_threads k' t)" "k_mutex k' = k_mutex k"
    by (rule rt_mutex_take_blocks[OF assms])
  then show ?thesis by blast
qed

lemma mutex_take_lends_priority_witness:
  "\<exists>k'. rt_mutex_take 7 5 (demo RT_Object_Class_Mutex True) = Some (Blocked k') \<and> sys_inv {} k' \<and> mutex_inv 7 k' \<and>
    tstat k' 0 = RT_THREAD_SUSPEND \<and> 0 \<in> set (k_queues k' (Pend 7)) \<and>
    th_current_priority (k_threads k' 1) \<le> th_current_priority (k_threads k' 0) \<and>
    k_mutex k' = k_mutex (demo RT_Object_Class_Mutex True)"
  by (rule mutex_take_lends_priority[OF demo_sys])
    (simp_all add: demo_threads_def demo_type ipc_flag_def RT_IPC_FLAG_FIFO_def demo_mutex demo_mutex_inv)

text \<open>
  C8: The last release of a mutex gives the owner its original priority back and hands the
  mutex to the first waiter, which becomes ready with the error it had; without a waiter the
  mutex is free.
\<close>

theorem mutex_release_hands_over:
  assumes "sys_inv {} k" "k_current k = Some t" "tstat k t = RT_THREAD_RUNNING" "k_irq_nest k = 0"
    "ipc_is RT_Object_Class_Mutex a k" "mutex_inv a k" "mx_owner (k_mutex k a) = Some t" "mx_hold (k_mutex k a) = 1"
  shows "\<exists>k'. rt_mutex_release a k = Some (RT_EOK, k') \<and> sys_inv {} k' \<and> mutex_inv a k' \<and>
    th_current_priority (k_threads k' t) = mx_original_priority (k_mutex k a) \<and>
    mx_owner (k_mutex k' a) = (case k_queues k (Pend a) of [] \<Rightarrow> None | w # _ \<Rightarrow> Some w) \<and>
    k_queues k' (Pend a) = tl (k_queues k (Pend a)) \<and>
    (\<forall>w ws. k_queues k (Pend a) = w # ws \<longrightarrow> tstat k' w \<in> {RT_THREAD_READY, RT_THREAD_RUNNING} \<and>
       th_error (k_threads k' w) = th_error (k_threads k w))"
proof -
  obtain k' where k': "rt_mutex_release a k = Some (RT_EOK, k')" "sys_inv {} k'" "mutex_inv a k'"
    "th_current_priority (k_threads k' t) = mx_original_priority (k_mutex k a)"
    "mx_owner (k_mutex k' a) = (case k_queues k (Pend a) of [] \<Rightarrow> None | w # _ \<Rightarrow> Some w)"
    "k_queues k' (Pend a) = tl (k_queues k (Pend a))"
    "\<forall>w ws. k_queues k (Pend a) = w # ws \<longrightarrow> tstat k' w \<in> {RT_THREAD_READY, RT_THREAD_RUNNING} \<and>
       th_error (k_threads k' w) = th_error (k_threads k w)"
    by (rule rt_mutex_release_last[OF assms])
  then show ?thesis by (intro exI[of _ k'] conjI)
qed

lemma mutex_release_hands_over_witness:
  "\<exists>k'. rt_mutex_release 7 demo_owner = Some (RT_EOK, k') \<and> sys_inv {} k' \<and> mutex_inv 7 k' \<and>
    th_current_priority (k_threads k' 0) = 10 \<and> mx_owner (k_mutex k' 7) = Some 2 \<and>
    k_queues k' (Pend 7) = [] \<and> tstat k' 2 \<in> {RT_THREAD_READY, RT_THREAD_RUNNING} \<and>
    th_error (k_threads k' 2) = 0"
proof -
  have st: "tstat demo_owner 0 = RT_THREAD_RUNNING" by (simp add: demo_owner_fields demo_threads_def)
  have er: "th_error (k_threads demo_owner 2) = 0" by (simp add: demo_owner_fields demo_threads_def demo_thread_def)
  show ?thesis
    using mutex_release_hands_over[OF demo_owner_sys demo_owner_fields(3) st demo_owner_fields(4,6,7)] er
    by (simp add: demo_owner_fields(2,8) demo_queues_def)
qed

text \<open>
  Taking a mutex one already owns only deepens the recursion, and the matching release
  restores the mutex exactly, as long as the 8-bit recursion counter has room.
\<close>

theorem mutex_recursion_round_trip:
  assumes "mutex_inv a k" "in_thread_context k" "k_current k = Some t" "ipc_is RT_Object_Class_Mutex a k"
    "mx_owner (k_mutex k a) = Some t" "mx_hold (k_mutex k a) \<noteq> 0xFF"
  shows "\<exists>k1 k2. rt_mutex_take a time k = Some (Done RT_EOK k1) \<and> mutex_inv a k1 \<and>
    mx_hold (k_mutex k1 a) = mx_hold (k_mutex k a) + 1 \<and> rt_mutex_release a k1 = Some (RT_EOK, k2) \<and>
    k_mutex k2 = k_mutex k \<and> k_queues k2 = k_queues k"
  using rt_mutex_nested[OF assms] by blast

lemma mutex_recursion_round_trip_witness:
  "\<exists>k1 k2. rt_mutex_take 7 5 demo_owner = Some (Done RT_EOK k1) \<and> mutex_inv 7 k1 \<and>
    mx_hold (k_mutex k1 7) = 2 \<and> rt_mutex_release 7 k1 = Some (RT_EOK, k2) \<and>
    k_mutex k2 = k_mutex demo_owner \<and> k_queues k2 = k_queues demo_owner"
  using mutex_recursion_round_trip[of 7 demo_owner 0 5] by (simp add: demo_owner_fields)



text \<open>
  C10: A receiver whose event condition does not hold waits for it in the event's list; one
  whose condition holds returns at once with exactly the flags it asked for that are set, which
  are cleared when it asked for that.
\<close>

theorem event_recv_both_ways:
  assumes "sys_inv {} k" "event_inv a k" "k_current k = Some t" "tstat k t = RT_THREAD_RUNNING" "k_irq_nest k = 0"
    "ipc_is RT_Object_Class_Event a k" "ipc_flag a k \<in> {RT_IPC_FLAG_FIFO, RT_IPC_FLAG_PRIO}" "bits \<noteq> 0"
    "opt AND RT_EVENT_FLAG_AND \<noteq> 0 \<or> opt AND RT_EVENT_FLAG_OR \<noteq> 0" "timeout \<noteq> 0" "timeout \<noteq> 0x7fffffff"
  shows "if event_met opt bits (k_event k a)
    then \<exists>k'. rt_event_recv a bits opt timeout k = Some (Done (RT_EOK, Some (k_event k a AND bits)) k') \<and>
      k_event k' a = (if opt AND RT_EVENT_FLAG_CLEAR \<noteq> 0 then k_event k a AND NOT bits else k_event k a) \<and>
      k_queues k' = k_queues k \<and> sys_inv {} k'
    else \<exists>k'. rt_event_recv a bits opt timeout k = Some (Blocked k') \<and> sys_inv {} k' \<and> event_inv a k' \<and>
      t \<in> set (k_queues k' (Pend a)) \<and> tstat k' t = RT_THREAD_SUSPEND \<and> k_event k' = k_event k"
proof (cases "event_met opt bits (k_event k a)")
  case True
  have "in_thread_context k" using assms(3,5) by (simp add: in_thread_context_def)
  then obtain k' where k': "rt_event_recv a bits opt timeout k = Some (Done (RT_EOK, Some (k_event k a AND bits)) k')"
    "k_event k' a = (if opt AND RT_EVENT_FLAG_CLEAR \<noteq> 0 then k_event k a AND NOT bits else k_event k a)"
    "k_queues k' = k_queues k" "sys_inv {} k' \<longleftrightarrow> sys_inv {} k"
    by (rule rt_event_recv_now[OF assms(6) _ assms(3,8,9) True, where X = "{}" and timeout = timeout])
  show ?thesis unfolding if_P[OF True] using k' assms(1) by (intro exI[of _ k'] conjI) simp_all
next
  case False
  obtain k' where k': "rt_event_recv a bits opt timeout k = Some (Blocked k')" "sys_inv {} k'" "event_inv a k'"
    "t \<in> set (k_queues k' (Pend a))" "tstat k' t = RT_THREAD_SUSPEND" "k_event k' = k_event k"
    by (rule rt_event_recv_blocks[OF assms(1-9) False assms(10,11)])
  show ?thesis unfolding if_not_P[OF False] using k' by (intro exI[of _ k'] conjI)
qed

lemma event_recv_both_ways_witness:
  "\<exists>k'. rt_event_recv 7 2 RT_EVENT_FLAG_OR 5 (demo RT_Object_Class_Event True) = Some (Blocked k') \<and> sys_inv {} k' \<and>
     event_inv 7 k' \<and> 0 \<in> set (k_queues k' (Pend 7)) \<and> tstat k' 0 = RT_THREAD_SUSPEND \<and>
     k_event k' = k_event (demo RT_Object_Class_Event True)"
  using event_recv_both_ways[OF demo_sys demo_event_inv, where t = 0 and bits = 2 and opt = RT_EVENT_FLAG_OR and timeout = 5]
    demo_waits
  by (simp add: demo_threads_def demo_type ipc_flag_def RT_IPC_FLAG_FIFO_def RT_EVENT_FLAG_OR_def)

text \<open>
  C11: Sending to a mailbox with room appends the mail behind the others and wakes the first
  waiting receiver; receiving from a non-empty mailbox returns the oldest mail, keeps the order
  of the rest and wakes the first waiting sender.
\<close>

theorem mailbox_is_fifo:
  assumes "sys_inv {} k" "ipc_is RT_Object_Class_MailBox a k" "mb_ok (k_mb k a)"
  shows "(length (mb_content (k_mb k a)) < mb_cap (k_mb k a) \<longrightarrow>
      (\<exists>k'. rt_mb_send_wait a v timeout k = Some (Done RT_EOK k') \<and> sys_inv {} k' \<and> mb_ok (k_mb k' a) \<and>
        mb_content (k_mb k' a) = mb_content (k_mb k a) @ [v] \<and> k_queues k' (Pend a) = tl (k_queues k (Pend a)) \<and>
        (\<forall>t ts. k_queues k (Pend a) = t # ts \<longrightarrow> tstat k' t \<in> {RT_THREAD_READY, RT_THREAD_RUNNING}))) \<and>
    (mb_content (k_mb k a) = w # ws \<longrightarrow>
      (\<exists>k'. rt_mb_recv a timeout k = Some (Done (RT_EOK, Some w) k') \<and> sys_inv {} k' \<and> mb_ok (k_mb k' a) \<and>
        mb_content (k_mb k' a) = ws \<and> k_queues k' (PendSend a) = tl (k_queues k (PendSend a)) \<and>
        (\<forall>t ts. k_queues k (PendSend a) = t # ts \<longrightarrow> tstat k' t \<in> {RT_THREAD_READY, RT_THREAD_RUNNING})))"
proof (intro conjI impI)
  assume "length (mb_content (k_mb k a)) < mb_cap (k_mb k a)"
  then show "\<exists>k'. rt_mb_send_wait a v timeout k = Some (Done RT_EOK k') \<and> sys_inv {} k' \<and> mb_ok (k_mb k' a) \<and>
        mb_content (k_mb k' a) = mb_content (k_mb k a) @ [v] \<and> k_queues k' (Pend a) = tl (k_queues k (Pend a)) \<and>
        (\<forall>t ts. k_queues k (Pend a) = t # ts \<longrightarrow> tstat k' t \<in> {RT_THREAD_READY, RT_THREAD_RUNNING})"
    using rt_mb_send_now[OF assms, of v timeout] by metis
next
  assume "mb_content (k_mb k a) = w # ws"
  then show "\<exists>k'. rt_mb_recv a timeout k = Some (Done (RT_EOK, Some w) k') \<and> sys_inv {} k' \<and> mb_ok (k_mb k' a) \<and>
        mb_content (k_mb k' a) = ws \<and> k_queues k' (PendSend a) = tl (k_queues k (PendSend a)) \<and>
        (\<forall>t ts. k_queues k (PendSend a) = t # ts \<longrightarrow> tstat k' t \<in> {RT_THREAD_READY, RT_THREAD_RUNNING})"
    using rt_mb_recv_now[OF assms, of w ws timeout] by metis
qed

lemma mailbox_is_fifo_witness:
  "\<exists>k'. rt_mb_send_wait 7 9 0 (demo RT_Object_Class_MailBox True) = Some (Done RT_EOK k') \<and>
     mb_content (k_mb k' 7) = [9] \<and> tstat k' 2 \<in> {RT_THREAD_READY, RT_THREAD_RUNNING}"
proof -
  have m: "mb_ok (k_mb (demo RT_Object_Class_MailBox True) 7)" "mb_content (k_mb (demo RT_Object_Class_MailBox True) 7) = []"
    "mb_cap (k_mb (demo RT_Object_Class_MailBox True) 7) = 2"
    by (simp_all add: demo_def mb_ok_def mb_cap_def mb_content_def ring_list_def)
  show ?thesis using mailbox_is_fifo[OF demo_sys demo_type m(1), of 9 0] m by (auto simp: demo_queues_def)
qed

text \<open>
  Whatever is put into an empty mailbox ring, at whatever offset its indices stand, comes
  out unchanged and in order, up to the full capacity of the mailbox.
\<close>

theorem mailbox_ring_round_trip:
  assumes "mb_ok m" "mb_content m = []" "length vs \<le> mb_cap m"
  shows "fst (mb.pops (length vs) (fold mb_put vs m)) = vs"
  using mb.through[OF assms(1,2) _ assms(3)] by (simp add: list_all_iff)

lemma mailbox_ring_round_trip_witness:
  "fst (mb.pops (length [4 :: u32, 5, 6]) (fold mb_put [4, 5, 6]
     \<lparr>mb_pool = [0, 0, 0], mb_size = 3, mb_entry = 0, mb_in_offset = 2, mb_out_offset = 2\<rparr>)) = [4, 5, 6]"
  using mailbox_ring_round_trip[of "\<lparr>mb_pool = [0, 0, 0], mb_size = 3, mb_entry = 0, mb_in_offset = 2, mb_out_offset = 2\<rparr>"
      "[4, 5, 6]"]
  by (auto simp: mb_ok_def mb_cap_def mb_content_def ring_list_def)



section \<open>Data structures and services under the kernel\<close>

text \<open>
  C13: Moving a thread to the tail of a wait list, by unlinking its node and inserting it before
  the list head, changes the pointers so that the doubly linked lists in memory are exactly the
  abstract lists with the thread moved; emptiness and length read off the pointers agree.
\<close>

theorem requeue_refines_lists:
  assumes "lists_in h Q"
  shows "lists_in (rt_list_insert_before (Inl l) (Inr n) (rt_list_remove (Inr n) h))
      (\<lambda>m. if m = l then removeAll n (Q l) @ [n] else removeAll n (Q m)) \<and>
    (rt_list_isempty (Inl m) h \<longleftrightarrow> Q m = []) \<and> rt_list_len (Inl m) h = Some (length (Q m))"
proof (intro conjI)
  have r: "lists_in (rt_list_remove (Inr n) h) (q_remove n Q)" by (rule rt_list_remove_refines[OF assms])
  have "lists_in (rt_list_insert_before (Inl l) (Inr n) (rt_list_remove (Inr n) h)) (q_push_back l n (q_remove n Q))"
    by (rule rt_list_insert_before_head_refines[OF r]) simp
  moreover have "q_push_back l n (q_remove n Q) = (\<lambda>m. if m = l then removeAll n (Q l) @ [n] else removeAll n (Q m))"
    by (rule ext) simp
  ultimately show "lists_in (rt_list_insert_before (Inl l) (Inr n) (rt_list_remove (Inr n) h))
      (\<lambda>m. if m = l then removeAll n (Q l) @ [n] else removeAll n (Q m))" by simp
qed (simp_all add: assms rt_list_isempty_refines rt_list_len_refines)

lemma requeue_refines_lists_witness:
  "lists_in (rt_list_insert_before (Inl True) (Inr 3) (rt_list_remove (Inr 3) demo_heap))
     (\<lambda>m. if m = True then [3 :: nat] else [])"
  using requeue_refines_lists[OF demo_heap_lists, of True 3] by (auto cong: if_cong)

text \<open>
  C14: The word-wise \<open>rt_memset\<close>, \<open>rt_memcpy\<close> and \<open>rt_memmove\<close>, with their alignment tests and
  unrolled loops, are the byte-wise operations: every byte of the destination range and no other
  is written; \<open>rt_memmove\<close> is right for overlapping ranges too.
\<close>

theorem memory_services_bytewise:
  shows "rt_memset s c n m = (\<lambda>x. if s \<le> x \<and> x < s + n then ucast (c AND 0xff) else m x) \<and>
    (d \<le> s \<or> s + n \<le> d \<longrightarrow> rt_memcpy d s n m = (\<lambda>x. if d \<le> x \<and> x < d + n then m (s + (x - d)) else m x)) \<and>
    rt_memmove d s n m = (\<lambda>x. if d \<le> x \<and> x < d + n then m (s + (x - d)) else m x)"
  using rt_memset_fill[of s c n m] rt_memcpy_blit[of d s n m] rt_memmove_blit[of d s n m]
  by (simp_all add: fill_def blit_def clear_def)

lemma memory_services_bytewise_witness:
  "rt_memcpy 4 8 21 (\<lambda>x. of_nat x) 20 = (24 :: u8)"
  using memory_services_bytewise[where d = 4 and s = 8 and n = 21 and m = "\<lambda>x. of_nat x" and c = 0] by simp

text \<open>
  The table-driven find-first-set of \<open>kservice.c\<close> is the port's, and finds the least set
  bit, which is the highest ready priority of the scheduler's bitmap; it is 0 for no bit.
\<close>

theorem table_ffs_finds_lowest:
  "table_ffs v = rt_ffs v \<and> (v = 0 \<longleftrightarrow> table_ffs v = 0) \<and>
   (table_ffs v = Suc p \<longleftrightarrow> bit v p \<and> (\<forall>q<p. \<not> bit v q))"
  using rt_ffs_0[of v] by (auto simp: table_ffs_eq rt_ffs_Suc)

lemma table_ffs_finds_lowest_witness: "table_ffs 12 = 3"
proof -
  have "bit (12 :: u32) 2" "\<forall>q<2. \<not> bit (12 :: u32) q" by (simp_all add: less_Suc_eq numeral_eq_Suc)
  then show ?thesis using table_ffs_finds_lowest[of 12 2] by simp
qed



text \<open>
  Detaching a semaphore wakes every thread that waits for it, each with the error
  \<open>-RT_ERROR\<close> and ready to run, leaves every other thread untouched and removes the object from
  its container.
\<close>

theorem sem_detach_wakes_all:
  assumes "sys_inv {} k" "obj_inv k" "ipc_is RT_Object_Class_Semaphore a k" "rt_object_is_systemobject (IpcObj a) k"
  shows "\<exists>k'. rt_sem_detach a k = Some (RT_EOK, k') \<and> obj_inv k' \<and> k_queues k' (Pend a) = [] \<and>
    (\<forall>t \<in> set (k_queues k (Pend a)). th_error (k_threads k' t) = - RT_ERROR \<and>
       tstat k' t \<in> {RT_THREAD_READY, RT_THREAD_RUNNING}) \<and>
    (\<forall>t. t \<notin> set (k_queues k (Pend a)) \<longrightarrow> k_threads k' t = k_threads k t) \<and>
    (\<forall>c. IpcObj a \<notin> set (k_containers k' c))"
  using rt_sem_detach_ok[OF assms] by blast

lemma sem_detach_wakes_all_witness:
  "\<exists>k'. rt_sem_detach 7 (demo RT_Object_Class_Semaphore True) = Some (RT_EOK, k') \<and>
     th_error (k_threads k' 2) = - RT_ERROR \<and> tstat k' 2 \<in> {RT_THREAD_READY, RT_THREAD_RUNNING}"
  using sem_detach_wakes_all[OF demo_sys demo_obj_inv demo_type demo_static, of True]
  by (auto simp: demo_queues_def)

text \<open>
  A wait given in milliseconds is converted to as many ticks, without overflow for any
  non-negative 32-bit argument; a negative one becomes \<open>RT_TICK_MAX\<close>, which \<open>rt_timer_start\<close>
  refuses, so the documented "wait forever" of \<open>rt_thread_mdelay\<close> stops the system.
\<close>

theorem tick_from_millisecond_exact:
  shows "(0 \<le> sint ms \<longrightarrow> uint (rt_tick_from_millisecond ms) = sint ms) \<and>
    (sint ms < 0 \<longrightarrow> rt_tick_from_millisecond ms = RT_TICK_MAX) \<and>
    (tm_init_tick (k_timers k t) = RT_TICK_MAX \<longrightarrow> rt_timer_start t k = None)"
  using tick_from_ms_exact tick_from_ms_neg rt_timer_start_too_long by blast

lemma tick_from_millisecond_exact_witness:
  "uint (rt_tick_from_millisecond 1500) = 1500 \<and> rt_tick_from_millisecond (- 1) = RT_TICK_MAX"
  using tick_from_millisecond_exact[of 1500 "demo RT_Object_Class_Event True" "ThreadTimer 0"]
    tick_from_millisecond_exact[of "- 1" "demo RT_Object_Class_Event True" "ThreadTimer 0"] by simp

text \<open>
  A semaphore released without a waiter at its largest value wraps to 0: 65535 releases are
  forgotten although the call returns \<open>RT_EOK\<close>. Below that value the release counts up by one.
\<close>

theorem sem_release_counts_and_wraps:
  assumes "ipc_is RT_Object_Class_Semaphore a k" "k_queues k (Pend a) = []"
  shows "\<exists>k'. rt_sem_release a k = Some (RT_EOK, k') \<and>
    unat (k_sem k' a) = (if k_sem k a = 0xFFFF then 0 else unat (k_sem k a) + 1)"
proof (intro exI conjI)
  show "rt_sem_release a k = Some (RT_EOK, k\<lparr>k_sem := (k_sem k)(a := k_sem k a + 1)\<rparr>)"
    using assms by (simp add: rt_sem_release_def)
  show "unat (k_sem (k\<lparr>k_sem := (k_sem k)(a := k_sem k a + 1)\<rparr>) a) = (if k_sem k a = 0xFFFF then 0 else unat (k_sem k a) + 1)"
    using unat_inc_wrap[of "k_sem k a"] by simp
qed

lemma sem_release_counts_and_wraps_witness:
  "\<exists>k'. rt_sem_release 7 ((demo RT_Object_Class_Semaphore True)\<lparr>k_queues := (\<lambda>_. []), k_sem := (\<lambda>_. 0xFFFF)\<rparr>)
     = Some (RT_EOK, k') \<and> unat (k_sem k' 7) = 0"
  using sem_release_counts_and_wraps[of 7 "(demo RT_Object_Class_Semaphore True)\<lparr>k_queues := (\<lambda>_. []), k_sem := (\<lambda>_. 0xFFFF)\<rparr>"]
    demo_type[of RT_Object_Class_Semaphore True]
  by (simp add: ipc_is_def rt_object_get_type_def)

text \<open>
  Taking an unavailable semaphore with the scheduler locked does not wait: \<open>rt_schedule\<close>
  returns at once to the caller, whose error is still \<open>RT_EOK\<close>, so the call reports success
  although the semaphore was not taken and the running thread is left marked suspended.
\<close>

theorem sem_take_locked_succeeds_wrongly:
  assumes "sys_inv {} k" "k_current k = Some t" "tstat k t = RT_THREAD_RUNNING" "k_irq_nest k = 0"
    "ipc_is RT_Object_Class_Semaphore a k" "ipc_flag a k \<in> {RT_IPC_FLAG_FIFO, RT_IPC_FLAG_PRIO}"
    "k_sem k a = 0" "time \<noteq> 0" "time \<noteq> 0x7fffffff" "k_lock_nest k \<noteq> 0"
  shows "\<exists>k'. rt_sem_take a time k = Some (Blocked k') \<and> k_current k' = Some t \<and>
    tstat k' t = RT_THREAD_SUSPEND \<and> rt_sem_take_return t k' = RT_EOK \<and> k_sem k' = k_sem k"
  using rt_sem_take_locked[OF assms] by blast

lemma sem_take_locked_succeeds_wrongly_witness:
  "\<exists>k'. rt_sem_take 7 5 demo_locked = Some (Blocked k') \<and> k_current k' = Some 0 \<and>
    tstat k' 0 = RT_THREAD_SUSPEND \<and> rt_sem_take_return 0 k' = RT_EOK \<and> k_sem k' = k_sem demo_locked"
  by (rule sem_take_locked_succeeds_wrongly[OF demo_locked_sys]) (simp_all add: demo_locked_fields demo_threads_def)




section \<open>The driver ring buffer\<close>

definition demo_ring :: ringbuffer where
  "demo_ring = \<lparr>rb_buffer_ptr = [1, 2, 3, 4], rb_read_mirror = False, rb_read_index = 1,
     rb_write_mirror = False, rb_write_index = 3, rb_buffer_size = 4\<rparr>"

lemma demo_ring_ok: "rb_ok demo_ring" "rb_cap demo_ring = 4" "rb_len demo_ring = 2" "rb_content demo_ring = [2, 3]"
  "rb_w demo_ring = 3" "rb_read_mirror demo_ring = rb_write_mirror demo_ring"
proof -
  have "[0..<2] = [0, 1::nat]" by (simp add: upt_rec)
  then show "rb_ok demo_ring" "rb_cap demo_ring = 4" "rb_len demo_ring = 2" "rb_content demo_ring = [2, 3]"
    "rb_w demo_ring = 3" "rb_read_mirror demo_ring = rb_write_mirror demo_ring"
    by (simp_all add: demo_ring_def rb_ok_def rb_cap_def rb_size_def rb_len_def rb_content_def ring_list_def)
qed

text \<open>
  C17: A block written to the driver ring buffer is stored behind the bytes already there, as far
  as it fits, and a block read afterwards is the oldest bytes in order, which are then gone. The
  returned counts are the numbers of bytes moved, and neither copy leaves the pool.
\<close>

theorem ringbuffer_put_then_get:
  assumes "rb_ok rb" "unat n \<le> length ptr"
  shows "\<exists>rb1 rb2 k j. k = min (unat n) (rb_cap rb - rb_len rb) \<and> j = min (unat m) (rb_len rb + k) \<and>
    rt_ringbuffer_put ptr n rb = Some (of_nat k, rb1) \<and> rb_ok rb1 \<and> rb_content rb1 = rb_content rb @ take k ptr \<and>
    rt_ringbuffer_get m rb1 = Some (of_nat j, take j (rb_content rb1), rb2) \<and> rb_ok rb2 \<and>
    rb_content rb2 = drop j (rb_content rb1) \<and> rb_cap rb2 = rb_cap rb"
proof -
  let ?k = "min (unat n) (rb_cap rb - rb_len rb)"
  obtain rb1 where rb1: "rt_ringbuffer_put ptr n rb = Some (of_nat ?k, rb1)" "rb_ok rb1" "rb_cap rb1 = rb_cap rb"
      "rb_content rb1 = rb_content rb @ take ?k ptr"
    using rt_ringbuffer_put_ok[OF assms] by blast
  have len: "rb_len rb1 = rb_len rb + ?k"
    using arg_cong[OF rb1(4), of length] assms(2) by simp
  let ?j = "min (unat m) (rb_len rb1)"
  let ?rb2 = "if rb_len rb1 = 0 then rb1 else rb_taken ?j rb1"
  have "rb_ok ?rb2 \<and> rb_content ?rb2 = drop ?j (rb_content rb1) \<and> rb_cap ?rb2 = rb_cap rb"
    using rb_taken_ok[OF rb1(2), of ?j] rb1(2,3) length_rb_content[of rb1] by simp
  then show ?thesis using rb1 rt_ringbuffer_get_ok[OF rb1(2), of m] len by metis
qed

lemma ringbuffer_put_then_get_witness:
  "\<exists>rb1 rb2 k j. k = min 3 2 \<and> j = min 4 (2 + k) \<and>
    rt_ringbuffer_put [7, 8, 9] 3 demo_ring = Some (of_nat k, rb1) \<and> rb_ok rb1 \<and> rb_content rb1 = [2, 3] @ take k [7, 8, 9] \<and>
    rt_ringbuffer_get 4 rb1 = Some (of_nat j, take j (rb_content rb1), rb2) \<and> rb_ok rb2 \<and>
    rb_content rb2 = drop j (rb_content rb1) \<and> rb_cap rb2 = 4"
  using ringbuffer_put_then_get[OF demo_ring_ok(1), of 3 "[7, 8, 9]" 4] by (simp add: demo_ring_ok)

text \<open>
  A forced block is always taken whole, up to the last \<open>buffer_size\<close> bytes of it, and pushes
  out the oldest bytes. In one case the promise breaks: where the block overwrites unread bytes,
  reaches the end of the pool and both mirrors were equal, the buffer is left empty, so the
  new block and the bytes before it are lost although the call reports them as stored.
\<close>

theorem ringbuffer_put_force_exact:
  assumes "rb_ok rb" "unat n = length ptr" "bs = drop (length ptr - rb_cap rb) ptr"
  shows "\<exists>rb'. rt_ringbuffer_put_force ptr n rb = Some (of_nat (length bs), rb') \<and> rb_ok rb' \<and> rb_cap rb' = rb_cap rb \<and>
    rb_content rb' =
      (if rb_cap rb < rb_len rb + length bs \<and> rb_cap rb \<le> rb_w rb + length bs \<and> rb_read_mirror rb = rb_write_mirror rb
       then [] else drop (rb_len rb + length bs - rb_cap rb) (rb_content rb) @ bs)"
proof -
  have "length bs \<le> rb_cap rb" using assms(3) by simp
  from put_block_ok[OF assms(1) this] show ?thesis
    using rt_ringbuffer_put_force_ok[OF assms(1,2)] assms(3) by (simp add: loses_all_def)
qed

lemma ringbuffer_put_force_exact_witness:
  "\<exists>rb'. rt_ringbuffer_put_force [7, 8, 9] 3 demo_ring = Some (3, rb') \<and> rb_ok rb' \<and> rb_content rb' = []"
  using ringbuffer_put_force_exact[OF demo_ring_ok(1), of 3 "[7, 8, 9]" "[7, 8, 9]"] by (auto simp: demo_ring_ok)

section \<open>The heap\<close>

text \<open>A sample heap with given blocks, at address 0x1000.\<close>

fun headers :: "nat \<Rightarrow> nat \<Rightarrow> blocks \<Rightarrow> (nat \<rightharpoonup> heap_mem)" where
  "headers p a [] = [a \<mapsto> \<lparr>hm_magic = HEAP_MAGIC, hm_used = 1, hm_next = a, hm_prev = a\<rparr>]"
| "headers p a ((n, u) # bs) = (headers a (a + (12 + n)) bs)(a \<mapsto> header p a u n)"

definition demo_memory :: "blocks \<Rightarrow> nat \<Rightarrow> heap" where
  "demo_memory bs l = \<lparr>heap_ptr = 0x1000, heap_end = lsize bs, lfree = l, heap_sem = 1, mem_size_aligned = lsize bs - 12,
     used_mem = in_use bs, max_mem = in_use bs, heap_hdr = headers 0 0 bs, heap_data = (\<lambda>_. 0), heap_irq = False\<rparr>"

lemma demo_memory_ok:
  "heap_is (demo_memory [(12, True), (100, False), (16, True)] 24) [(12, True), (100, False), (16, True)]"
  "heap_is (demo_memory [(12, True), (60, True)] 96) [(12, True), (60, True)]"
  by (simp_all add: demo_memory_def heap_is_def chain_def end_ok_def)

lemma demo_memory_fields [simp]: "heap_ptr (demo_memory bs l) = 0x1000" "lfree (demo_memory bs l) = l"
  "heap_end (demo_memory bs l) = lsize bs"
  by (simp_all add: demo_memory_def)

text \<open>
  C18: \<open>rt_malloc\<close> keeps the heap well-formed and changes no data byte. A null result leaves the
  heap as it was and is given only when no free block from \<open>lfree\<close> on has room, the last block
  counting only if it is larger than the request. Otherwise the result is an aligned block inside
  the heap, at least as large as asked, that no block in use overlaps.
\<close>

theorem malloc_gives_fresh_block:
  assumes "heap_is h bs" "sz \<noteq> 0" "unat sz + 3 < 2 ^ 32"
  shows "\<exists>p h' bs'. rt_malloc sz h = Some (p, h') \<and> heap_is h' bs' \<and> heap_frame h h' \<and>
    (if p = RT_NULL
     then h' = h \<and> (mem_size_aligned h < unat sz \<or> (\<forall>xs k ys. bs = xs @ (k, False) # ys \<and> lfree h \<le> lsize xs \<longrightarrow>
       k < max (unat (rt_align sz)) 12 \<or> ys = [] \<and> k = max (unat (rt_align sz)) 12))
     else p mod 4 = 0 \<and> (\<exists>k. unat sz \<le> k \<and> live (heap_ptr h) bs' = insert (p, k) (live (heap_ptr h) bs) \<and>
       heap_ptr h + 12 \<le> p \<and> p + k \<le> heap_ptr h + heap_end h \<and>
       (\<forall>(q, j) \<in> live (heap_ptr h) bs. q + j + 12 \<le> p \<or> p + k + 12 \<le> q)))"
  using assms(1)
proof (cases rule: rt_malloc_cases[where sz = sz])
  case zero
  then show ?thesis using assms(2) by simp
next
  case large
  have "mem_size_aligned h < unat sz" by (rule too_large[OF assms(1,3) large(1)])
  then show ?thesis using large assms(1) by (intro exI[of _ RT_NULL] exI[of _ h] exI[of _ bs]) (simp add: heap_frame_def)
next
  case none
  have "k < max (unat (rt_align sz)) 12 \<or> ys = [] \<and> k = max (unat (rt_align sz)) 12"
    if "bs = xs @ (k, False) # ys" "lfree h \<le> lsize xs" for xs k ys
    using none(4)[of xs k ys] that by (simp add: fits_def) linarith
  then show ?thesis using none assms(1) by (intro exI[of _ RT_NULL] exI[of _ h] exI[of _ bs]) (simp add: heap_frame_def)
next
  case (some xs k ys h')
  let ?p = "heap_ptr h + lsize xs + 12" and ?n = "max (unat (rt_align sz)) 12"
  have "heap_ptr h' = heap_ptr h" using some(7) by (simp add: heap_frame_def)
  from rt_malloc_live[OF some(6,3) this assms(3) refl]
  have l: "live (heap_ptr h) (xs @ carve ?n k @ ys) = insert (?p, got ?n k) (live (heap_ptr h) bs)" "unat sz \<le> got ?n k"
    "?p mod 4 = 0" "?p + got ?n k \<le> heap_ptr h + heap_end h'"
    "\<And>q j. (q, j) \<in> live (heap_ptr h) bs \<Longrightarrow> q + j + 12 \<le> ?p \<or> ?p + got ?n k + 12 \<le> q" by blast+
  moreover have "heap_end h' = heap_end h" using some(7) by (simp add: heap_frame_def)
  ultimately show ?thesis using some(5-7) assms(1)
    by (intro exI[of _ ?p] exI[of _ h'] exI[of _ "xs @ carve ?n k @ ys"]) auto
qed

lemma malloc_gives_fresh_block_witness:
  "\<exists>p h' bs'. rt_malloc 30 (demo_memory [(12, True), (100, False), (16, True)] 24) = Some (p, h') \<and> heap_is h' bs'"
  using malloc_gives_fresh_block[OF demo_memory_ok(1), of 30] by auto

text \<open>
  C19: Freeing what \<open>rt_malloc\<close> has just returned restores the heap exactly: the same blocks at the
  same places, the same statistics of used memory and every data byte.
\<close>

theorem malloc_free_round_trip:
  assumes "heap_is h bs" "rt_malloc sz h = Some (p, h1)" "p \<noteq> RT_NULL"
  shows "\<exists>h2. rt_free p h1 = Some h2 \<and> heap_is h2 bs \<and> used_mem h2 = used_mem h \<and> heap_frame h h2"
  using assms(1)
proof (cases rule: rt_malloc_cases[where sz = sz])
  case (some xs k ys h')
  let ?n = "max (unat (rt_align sz)) 12"
  have p: "p = heap_ptr h + lsize xs + 12" "h1 = h'" "heap_ptr h1 = heap_ptr h" using some(5,7) assms(2) by (auto simp: heap_frame_def)
  have bs: "bs = xs @ (k, False) # ys" "?n \<le> k" using some(3) by (simp_all add: fits_def)
  then have j: "\<not> ends_free xs" "\<not> starts_free ys"
    using assms(1) by (cases ys; auto simp: heap_is_def ends_free_def starts_free_def successively_append_iff)+
  have "\<exists>m zs. xs @ carve ?n k @ ys = xs @ (m, True) # zs \<and> release xs m zs = bs"
    using bs j by (auto simp: carve_def release_def join_right_def starts_free_def)
  then obtain m zs where "heap_is h1 (xs @ (m, True) # zs)" "release xs m zs = bs" using some(6) p(2) by metis
  then obtain h2 where h2: "rt_free p h1 = Some h2" "heap_is h2 bs" "heap_frame h1 h2"
    using rt_free_ok[of h1 xs m zs] p by auto
  then have "used_mem h2 = used_mem h" using assms(1) by (simp add: heap_is_def)
  then show ?thesis using h2 some(7) p(2) by (auto simp: heap_frame_def)
qed (use assms in auto)

lemma malloc_free_round_trip_witness:
  "\<exists>p h1 h2. rt_malloc 30 (demo_memory [(12, True), (100, False), (16, True)] 24) = Some (p, h1) \<and> rt_free p h1 = Some h2 \<and>
     heap_is h2 [(12, True), (100, False), (16, True)]"
proof (rule rt_malloc_cases[OF demo_memory_ok(1), of 30])
  fix xs k ys h'
  assume r: "rt_malloc 30 (demo_memory [(12, True), (100, False), (16, True)] 24) =
    Some (heap_ptr (demo_memory [(12, True), (100, False), (16, True)] 24) + lsize xs + 12, h')"
  from malloc_free_round_trip[OF demo_memory_ok(1) r] show ?thesis using r by auto
next
  assume n: "\<And>xs k ys. fits (max (unat (rt_align 30)) 12) (lfree (demo_memory [(12, True), (100, False), (16, True)] 24))
      [(12, True), (100, False), (16, True)] xs k ys \<Longrightarrow> ys = [] \<and> k = max (unat (rt_align 30)) 12"
  show ?thesis using n[of "[(12, True)]" 100 "[(16, True)]"] by (simp add: fits_def unat_rt_align)
qed (simp_all add: unat_rt_align demo_memory_def)

text \<open>
  \<open>rt_free\<close> of a block in use returns it to the heap: the heap stays well-formed, with free
  neighbours joined, the other blocks in use and all data are untouched, and the statistics count
  the memory back.
\<close>

theorem free_gives_back:
  assumes "heap_is h bs" "(p, k) \<in> live (heap_ptr h) bs"
  shows "\<exists>h' bs'. rt_free p h = Some h' \<and> heap_is h' bs' \<and> heap_frame h h' \<and>
    live (heap_ptr h) bs' = live (heap_ptr h) bs - {(p, k)} \<and> used_mem h' + (k + 12) = used_mem h"
  by (rule rt_free_live[OF assms])

lemma free_gives_back_witness:
  "\<exists>h' bs'. rt_free (0x1000 + 12) (demo_memory [(12, True), (100, False), (16, True)] 24) = Some h' \<and> heap_is h' bs' \<and>
     used_mem h' + 24 = used_mem (demo_memory [(12, True), (100, False), (16, True)] 24)"
  using free_gives_back[OF demo_memory_ok(1), of "0x1000 + 12" 12] by auto

text \<open>
  C20: \<open>rt_realloc\<close> to a new size either fails and changes nothing, or returns a block of at least
  that size that starts with the old bytes, as many as both sizes allow; every other block in use
  keeps its place and its bytes.
\<close>

theorem realloc_keeps_contents:
  assumes "heap_is h bs" "(p, k) \<in> live (heap_ptr h) bs" "nsize \<noteq> 0" "unat nsize + 3 < 2 ^ 32"
  shows "\<exists>q h'. rt_realloc p nsize h = Some (q, h') \<and>
    (if q = RT_NULL then h' = h
     else \<exists>bs' j. heap_is h' bs' \<and> unat nsize \<le> j \<and> live (heap_ptr h) bs' = insert (q, j) (live (heap_ptr h) bs - {(p, k)}) \<and>
       (\<forall>i < min k (unat nsize). heap_data h' (q + i) = heap_data h (p + i)) \<and>
       (\<forall>(r, m) \<in> live (heap_ptr h) bs - {(p, k)}. \<forall>i < m. heap_data h' (r + i) = heap_data h (r + i)))"
  using assms(1,2,4,3)
proof (cases rule: rt_realloc_ok)
  case (block q j h' bs')
  let ?n = "unat (rt_align nsize)"
  have n: "unat nsize \<le> ?n" using assms(4) by (simp add: unat_rt_align)
  then have "heap_data h' (q + i) = heap_data h (p + i)" if "i < min k (unat nsize)" for i
    using that block(6) by (simp add: blit_def)
  moreover have "heap_data h' (r + i) = heap_data h (r + i)"
    if "(r, m) \<in> live (heap_ptr h) bs - {(p, k)}" "i < m" for r m i
  proof -
    have "r + m + 12 \<le> q \<or> q + min k ?n \<le> r \<or> q = p"
      using block(7,8) that(1) by fastforce
    moreover have "r + m + 12 \<le> p \<or> p + k + 12 \<le> r"
      using live_disjoint[OF assms(2), of r m] that(1) by auto
    ultimately show ?thesis using block(6) that(2) by (auto simp: blit_def)
  qed
  ultimately have "\<exists>bs' j. heap_is h' bs' \<and> unat nsize \<le> j \<and> live (heap_ptr h) bs' = insert (q, j) (live (heap_ptr h) bs - {(p, k)}) \<and>
       (\<forall>i < min k (unat nsize). heap_data h' (q + i) = heap_data h (p + i)) \<and>
       (\<forall>(r, m) \<in> live (heap_ptr h) bs - {(p, k)}. \<forall>i < m. heap_data h' (r + i) = heap_data h (r + i))"
    using block(3-5) by (intro exI[of _ bs'] exI[of _ j]) auto
  then show ?thesis using block(1) by (intro exI[of _ q] exI[of _ h'] conjI) (simp_all only: block(2) if_False)
qed simp

lemma realloc_keeps_contents_witness:
  "\<exists>q h'. rt_realloc (0x1000 + 12) 40 (demo_memory [(12, True), (100, False), (16, True)] 24) = Some (q, h')"
  using realloc_keeps_contents[OF demo_memory_ok(1), of "0x1000 + 12" 12 40] by auto

text \<open>
  \<open>rt_calloc\<close> either returns null and changes nothing, or a fresh block whose first
  \<open>count * size\<close> bytes are zero, while all other blocks keep their bytes. The product is the one of
  32-bit arithmetic: where it wraps, the block is smaller than \<open>count\<close> objects of \<open>size\<close> bytes.
\<close>

theorem calloc_zeroes:
  assumes "heap_is h bs" "unat (count * sz) + 3 < 2 ^ 32"
  shows "\<exists>p h'. rt_calloc count sz h = Some (p, h') \<and>
    (if p = RT_NULL then h' = h
     else \<exists>bs' k. heap_is h' bs' \<and> unat (count * sz) \<le> k \<and> live (heap_ptr h) bs' = insert (p, k) (live (heap_ptr h) bs) \<and>
       (\<forall>i < unat (count * sz). heap_data h' (p + i) = 0) \<and>
       (\<forall>(q, j) \<in> live (heap_ptr h) bs. \<forall>i < j. heap_data h' (q + i) = heap_data h (q + i)))"
  using assms
proof (cases rule: rt_malloc_ok)
  case (block p k h' bs')
  let ?n = "unat (count * sz)"
  let ?h = "h'\<lparr>heap_data := rt_memset p 0 ?n (heap_data h')\<rparr>"
  have d: "heap_data ?h = fill p ?n 0 (heap_data h)" using block(6) by (simp add: rt_memset_fill heap_frame_def)
  have other: "heap_data ?h (q + i) = heap_data h (q + i)" if "(q, j) \<in> live (heap_ptr h) bs" "i < j" for q j i
    using block(3) block(8)[OF that(1)] that(2) unfolding d by (auto simp: fill_def)
  have zero: "heap_data ?h (p + i) = 0" if "i < ?n" for i using that unfolding d by (simp add: fill_def)
  have "heap_is ?h bs'" using block(5) by (simp add: heap_is_def)
  then have "\<exists>bs' k. heap_is ?h bs' \<and> ?n \<le> k \<and> live (heap_ptr h) bs' = insert (p, k) (live (heap_ptr h) bs) \<and>
       (\<forall>i < ?n. heap_data ?h (p + i) = 0) \<and>
       (\<forall>(q, j) \<in> live (heap_ptr h) bs. \<forall>i < j. heap_data ?h (q + i) = heap_data h (q + i))"
    using block(3,7) other zero by (intro exI[of _ bs'] exI[of _ k]) blast
  moreover have "rt_calloc count sz h = Some (p, ?h)" using block(1,2) by (simp add: rt_calloc_def)
  ultimately show ?thesis by (intro exI[of _ p] exI[of _ ?h] conjI) (simp_all only: block(2) if_False)
qed (simp add: rt_calloc_def)

lemma calloc_zeroes_witness:
  "\<exists>p h'. rt_calloc 5 4 (demo_memory [(12, True), (100, False), (16, True)] 24) = Some (p, h')"
  using calloc_zeroes[OF demo_memory_ok(1), of 5 4] by auto

text \<open>
  The three largest sizes wrap to 0 in \<open>RT_ALIGN\<close>: \<open>rt_malloc\<close> then serves them like a request
  of 12 bytes and returns a block, and \<open>rt_realloc\<close> frees the block it should enlarge.
\<close>

theorem huge_sizes_wrap:
  assumes "heap_is h bs" "2 ^ 32 \<le> unat sz + 3"
  shows "rt_malloc sz h = rt_malloc 12 h \<and> rt_realloc p sz h = map_option (\<lambda>h1. (RT_NULL, h1)) (rt_free p h)"
proof -
  have a: "unat (rt_align sz) = 0" "unat (rt_align 12) = 12" "sz \<noteq> 0" "12 \<le> mem_size_aligned h" "\<not> heap_irq h"
    using assms by (auto simp: unat_rt_align heap_is_def)
  have "rt_malloc sz h = rt_malloc 12 h"
    using a(3-5) unfolding rt_malloc_def a(1,2) MIN_SIZE_ALIGNED_def Let_def by simp
  then show ?thesis using a unfolding rt_realloc_def by simp
qed

lemma huge_sizes_wrap_witness:
  "rt_malloc 0xFFFFFFFE (demo_memory [(12, True), (100, False), (16, True)] 24) =
     rt_malloc 12 (demo_memory [(12, True), (100, False), (16, True)] 24)"
proof -
  have "(2::nat) ^ 32 \<le> unat (0xFFFFFFFE :: u32) + 3" by simp
  from huge_sizes_wrap[OF demo_memory_ok(1) this] show ?thesis by (rule conjunct1)
qed

text \<open>
  \<open>rt_realloc\<close> to a smaller size does not move \<open>lfree\<close> down. In a heap without free blocks the
  memory it gives back is therefore lost to every later \<open>rt_malloc\<close>, whatever the size, although it
  is a free block of the heap.
\<close>

theorem realloc_shrink_hides_memory:
  assumes "heap_is h bs" "(p, k) \<in> live (heap_ptr h) bs" "lfree h = heap_end h" "\<forall>(n, u) \<in> set bs. u"
    "unat nsize + 36 \<le> k" "nsize \<noteq> 0"
  shows "\<exists>h' xs ys n. rt_realloc p nsize h = Some (p, h') \<and> heap_is h' (xs @ (n, False) # ys) \<and> 12 \<le> n \<and>
    used_mem h' + n + 12 = used_mem h \<and> (\<forall>sz. rt_malloc sz h' = Some (RT_NULL, h'))"
proof -
  obtain xs ys where bs: "bs = xs @ (k, True) # ys" "p = heap_ptr h + lsize xs + 12" using live_split[OF assms(2)] by blast
  let ?n = "unat (rt_align nsize)" and ?m = "k - unat (rt_align nsize) - 12"
  have km: "k \<le> mem_size_aligned h" using assms(1) bs(1) by (simp add: heap_is_def)
  have "k < 2 ^ 32 - 12" using assms(1) bs(1) by (simp add: heap_is_def)
  then have "?n = (unat nsize + 3) div 4 * 4" using assms(5) by (simp add: unat_rt_align)
  moreover have "unat nsize \<noteq> 0" using assms(6) by (simp add: unat_eq_zero)
  ultimately have n: "?n + 32 < k" "0 < ?n" using assms(5) by presburger+
  have used: "\<not> starts_free ys" using assms(4) bs(1) by (cases ys) (auto simp: starts_free_def)
  show ?thesis
  proof (rule rt_realloc_cases[OF assms(1)[unfolded bs(1)], of nsize, folded bs(2)])
    fix h' assume r: "?n + 24 < k" "rt_realloc p nsize h = Some (p, h')"
      "heap_is h' (release (xs @ [(?n, True)]) ?m ys)" "heap_frame h h'" "\<not> starts_free ys \<Longrightarrow> lfree h' = lfree h"
    have rel: "release (xs @ [(?n, True)]) ?m ys = (xs @ [(?n, True)]) @ (?m, False) # ys"
      using used by (simp add: release_def ends_free_def join_right_def)
    have "rt_malloc sz h' = Some (RT_NULL, h')" for sz
    proof (rule rt_malloc_cases[OF r(3), of sz])
      fix vs j ws assume "fits (max (unat (rt_align sz)) 12) (lfree h') (release (xs @ [(?n, True)]) ?m ys) vs j ws"
      then have "heap_end h \<le> lsize vs" "lsize (vs @ (j, False) # ws) = heap_end h'"
        using r(3) r(5)[OF used] assms(3) by (auto simp: fits_def heap_is_def)
      then show ?thesis using r(4) by (simp add: heap_frame_def)
    qed
    moreover have "used_mem h' + ?m + 12 = used_mem h" using r(1,3) assms(1) bs(1) rel by (simp add: heap_is_def)
    ultimately show ?thesis using r rel
      by (intro exI[of _ h'] exI[of _ "xs @ [(?n, True)]"] exI[of _ ys] exI[of _ ?m]) auto
  qed (use n km in auto)
qed

lemma realloc_shrink_hides_memory_witness:
  "\<exists>h' xs ys n. rt_realloc (0x1000 + 36) 20 (demo_memory [(12, True), (60, True)] 96) = Some (0x1000 + 36, h') \<and>
     heap_is h' (xs @ (n, False) # ys) \<and> 12 \<le> n \<and> (\<forall>sz. rt_malloc sz h' = Some (RT_NULL, h'))"
  using realloc_shrink_hides_memory[OF demo_memory_ok(2), of "0x1000 + 36" 60 20] by auto


section \<open>Memory pools\<close>

text \<open>The sample kernel with a pool at 7, whose blocks at 100 and 112 are free when \<open>left\<close>.\<close>

definition demo_pool :: "bool \<Rightarrow> u32 \<Rightarrow> kpool" where
  "demo_pool left n = kipc.extend (demo RT_Object_Class_MemPool False)
     \<lparr>k_mp = (\<lambda>_. \<lparr>mp_start = 100, mp_size = 36, mp_block_size = 8, mp_block_list = (if left then Some 100 else None), mp_total = 3,
        mp_free = (if left then 2 else 0), mp_suspend_count = n\<rparr>),
      k_mp_word = (\<lambda>b. if left \<and> b = 100 then Link (Some 112) else if left \<and> b = 112 then Link None else Pool 7)\<rparr>"

lemma demo_pool_fields [simp]:
  "k_threads (demo_pool l n) = demo_threads" "k_queues (demo_pool l n) = demo_queues" "k_current (demo_pool l n) = Some 0"
  "k_irq_nest (demo_pool l n) = 0" "mp_suspend_count (k_mp (demo_pool l n) a) = n" "k_timer_list (demo_pool l n) = []"
  "mp_free (k_mp (demo_pool l n) a) = (if l then 2 else 0)" "mp_block_list (k_mp (demo_pool l n) a) = (if l then Some 100 else None)"
  "k_mp_word (demo_pool l n) b = (if l \<and> b = 100 then Link (Some 112) else if l \<and> b = 112 then Link None else Pool 7)"
  by (simp_all add: demo_pool_def kipc.defs demo_def)

lemma sys_inv_extend: "sys_inv X (kipc.extend k m) \<longleftrightarrow> sys_inv X k"
  by (simp add: kipc.defs sys_inv_def threads_inv_def sched_inv_def thread_ok_def group_ok_def
      mask_ok_def prio_of_def cur_ok_def timer_inv_def periods_ok_def thread_wf_def due_def periodic_def timer_flag_def
      is_timer_def is_thread_def rt_object_get_type_def cong: ball_cong map_cong)

lemma demo_pool_sys: "sys_inv {} (demo_pool l n)"
  by (simp add: demo_pool_def sys_inv_extend demo_sys)

lemma demo_pool_ok: "mp_ok 7 [100, 112] (demo_pool True n)" "mp_ok 7 [] (demo_pool False n)"
  by (simp_all add: mp_ok_def)

text \<open>
  A new memory pool consists of its blocks one behind the other, all of them free and each
  behind its own word, with nobody waiting.
\<close>

theorem mempool_starts_with_all_blocks:
  assumes "0 < cnt" "unat bsize + 4 < 2 ^ 32"
  shows "\<exists>k'. mp_setup a start sz bsize cnt k = Some k' \<and>
    mp_ok a (map (\<lambda>i. start + i * (unat bsize + 4)) [0..<unat cnt]) k' \<and> k_queues k' (Pend a) = [] \<and>
    mp_suspend_count (k_mp k' a) = 0"
  by (rule mp_setup_ok[OF assms])

lemma mempool_starts_with_all_blocks_witness:
  "\<exists>k'. mp_setup 7 100 36 8 3 (demo_pool False 0) = Some k' \<and> mp_ok 7 (map (\<lambda>i. 100 + i * 12) [0..<3]) k'"
  using mempool_starts_with_all_blocks[of 3 8 7 100 36 "demo_pool False 0"] by auto

text \<open>
  C21: While a pool has a free block, \<open>rt_mp_alloc\<close> returns the data address of the first one and
  marks it with its pool; \<open>rt_mp_free\<close> of that address, with nobody waiting, restores the state
  exactly.
\<close>

theorem mempool_alloc_free_round_trip:
  assumes "mp_ok a (b # bs) k" "mp_suspend_count (k_mp k a) = 0"
  shows "\<exists>k'. rt_mp_alloc a time k = Some (Done (Some (b + 4)) k') \<and> mp_ok a bs k' \<and> k_mp_word k' b = Pool a \<and>
    rt_mp_free (b + 4) k' = Some k"
  using rt_mp_alloc_ok[OF assms(1), of time] assms(2) by metis

lemma mempool_alloc_free_round_trip_witness:
  "\<exists>k'. rt_mp_alloc 7 0 (demo_pool True 0) = Some (Done (Some 104) k') \<and> mp_ok 7 [112] k' \<and>
     rt_mp_free 104 k' = Some (demo_pool True 0)"
  using mempool_alloc_free_round_trip[OF demo_pool_ok(1), of 0 0] by auto

text \<open>
  A thread that finds no free block is suspended in front of the threads that wait already,
  with its timer armed for a positive time, and the pool counts one more waiter.
\<close>

theorem mempool_waits_newest_first:
  assumes "sys_inv {} k" "k_current k = Some t" "tstat k t = RT_THREAD_RUNNING" "k_irq_nest k = 0"
    "mp_free (k_mp k a) = 0" "time \<noteq> 0" "time \<noteq> 0x7fffffff"
  shows "\<exists>k'. rt_mp_alloc a time k = Some (Blocked k') \<and> sys_inv {} k' \<and> tstat k' t = RT_THREAD_SUSPEND \<and>
    k_queues k' (Pend a) = t # k_queues k (Pend a) \<and>
    mp_suspend_count (k_mp k' a) = mp_suspend_count (k_mp k a) + 1 \<and>
    (0 < sint time \<longrightarrow> ThreadTimer t \<in> set (k_timer_list k') \<and> due k' (ThreadTimer t) = sint time)"
  using rt_mp_alloc_blocks[OF assms] by metis

lemma mempool_waits_newest_first_witness:
  "\<exists>k'. rt_mp_alloc 7 5 (demo_pool False 1) = Some (Blocked k') \<and> k_queues k' (Pend 7) = [0, 2]"
  using mempool_waits_newest_first[OF demo_pool_sys, of False 1 0 7 5] by (auto simp: demo_threads_def demo_queues_def)

text \<open>
  \<open>rt_mp_free\<close> with a thread waiting puts the block back into the pool and makes the first
  waiter ready, without an error, for its next attempt.
\<close>

theorem mempool_free_wakes_first:
  assumes "sys_inv {} k" "k_queues k (Pend a) = t # ts" "k_mp_word k b = Pool a" "b \<notin> set bs"
    "0 < mp_suspend_count (k_mp k a)" "mp_ok a bs k" "mp_free (k_mp k a) \<noteq> 0xFFFFFFFF"
  shows "\<exists>k'. rt_mp_free (b + 4) k = Some k' \<and> sys_inv {} k' \<and> k_queues k' (Pend a) = ts \<and> mp_ok a (b # bs) k' \<and>
    tstat k' t \<in> {RT_THREAD_READY, RT_THREAD_RUNNING} \<and> th_error (k_threads k' t) = RT_EOK"
  using rt_mp_free_wakes[OF assms] by metis

lemma mempool_free_wakes_first_witness:
  "\<exists>k'. rt_mp_free 104 (demo_pool False 1) = Some k' \<and> k_queues k' (Pend 7) = [] \<and> mp_ok 7 [100] k'"
  using mempool_free_wakes_first[OF demo_pool_sys, of False 1 7 2 "[]" 100 "[]"] demo_pool_ok(2)[of 1]
  by (auto simp: demo_queues_def)

text \<open>
  The count of waiters survives the timeout of the last waiter: the next \<open>rt_mp_free\<close> of any
  block of the pool takes the empty list's head for a thread and corrupts the kernel.
\<close>

theorem mempool_timeout_breaks_free:
  assumes "sys_inv {} k" "k_queues k (Pend a) = [t]" "ThreadTimer t \<notin> set (k_timer_list k)" "0 < mp_suspend_count (k_mp k a)"
  shows "\<exists>k'. rt_thread_timeout t k = Some k' \<and> sys_inv {} k' \<and> k_queues k' (Pend a) = [] \<and>
    (\<forall>b. k_mp_word k' b = Pool a \<longrightarrow> rt_mp_free (b + 4) k' = None)"
  using rt_mp_free_after_timeout[OF assms] by metis

lemma mempool_timeout_breaks_free_witness:
  "\<exists>k'. rt_thread_timeout 2 (demo_pool False 1) = Some k' \<and> k_queues k' (Pend 7) = []"
  using mempool_timeout_breaks_free[OF demo_pool_sys, of False 1 7 2] by (auto simp: demo_queues_def)
section \<open>Formatted output\<close>





unbundle bit_operations_syntax

section \<open>Drivers: queues, completions and wait queues\<close>

text \<open>
  The sample kernel with the drivers' state: the data queue \<open>q\<close>, nobody in a wait queue and no
  completion.
\<close>

definition demo_drv :: "dataqueue \<Rightarrow> kdrv" where
  "demo_drv q = kipc.extend (demo RT_Object_Class_Event False)
     \<lparr>k_completion = (\<lambda>_. 0), k_dq = (\<lambda>_. q), k_wq_flag = (\<lambda>_. 0), k_wq_list = (\<lambda>_. []), k_wq_thread = (\<lambda>_. 0)\<rparr>"

lemma demo_drv_fields [simp]:
  "k_threads (demo_drv q) = demo_threads" "k_queues (demo_drv q) = demo_queues" "k_current (demo_drv q) = Some 0"
  "k_irq_nest (demo_drv q) = 0" "k_dq (demo_drv q) a = q" "k_wq_flag (demo_drv q) a = 0" "k_wq_list (demo_drv q) a = []"
  by (simp_all add: demo_drv_def kipc.defs demo_def)

lemma demo_drv_sys: "sys_inv {} (demo_drv q)"
  by (simp add: demo_drv_def sys_inv_extend demo_sys)

text \<open>
  C24: A data queue whose indices have not wrapped is first in, first out: \<open>rt_data_queue_push\<close>
  with room stores the item behind the others and wakes the first waiting reader, and
  \<open>rt_data_queue_pop\<close> then returns the oldest item and leaves the others in their order.
\<close>

theorem data_queue_is_fifo:
  assumes "sys_inv {} k" "quiet notify" "dq_ok (k_dq k a)" "length (dq_content (k_dq k a)) < unat (dq_size (k_dq k a))"
    "unat (dq_put (k_dq k a)) < 65535"
  shows "\<exists>k1 k2. rt_data_queue_push notify a x timeout k = Some (Done RT_EOK k1) \<and> sys_inv {} k1 \<and>
    dq_content (k_dq k1 a) = dq_content (k_dq k a) @ [x] \<and>
    (\<forall>t ts. k_queues k (Pend a) = t # ts \<longrightarrow> k_queues k1 (Pend a) = ts \<and> tstat k1 t \<in> {RT_THREAD_READY, RT_THREAD_RUNNING}) \<and>
    rt_data_queue_pop notify a timeout' k1 = Some (Done (RT_EOK, Some (hd (dq_content (k_dq k a) @ [x]))) k2) \<and>
    sys_inv {} k2 \<and> dq_content (k_dq k2 a) = tl (dq_content (k_dq k a) @ [x])"
proof -
  obtain k1 where k1: "rt_data_queue_push notify a x timeout k = Some (Done RT_EOK k1)" "sys_inv {} k1" "dq_ok (k_dq k1 a)"
    "dq_content (k_dq k1 a) = dq_content (k_dq k a) @ [x]"
    "\<forall>t ts. k_queues k (Pend a) = t # ts \<longrightarrow> k_queues k1 (Pend a) = ts \<and> tstat k1 t \<in> {RT_THREAD_READY, RT_THREAD_RUNNING}"
    by (rule rt_data_queue_push_now[OF assms])
  have c: "dq_content (k_dq k1 a) = hd (dq_content (k_dq k a) @ [x]) # tl (dq_content (k_dq k a) @ [x])"
    using k1(4) by simp
  obtain k2 where "rt_data_queue_pop notify a timeout' k1 = Some (Done (RT_EOK, Some (hd (dq_content (k_dq k a) @ [x]))) k2)"
    "sys_inv {} k2" "dq_ok (k_dq k2 a)" "dq_content (k_dq k2 a) = tl (dq_content (k_dq k a) @ [x])"
    by (rule rt_data_queue_pop_now[OF k1(2) assms(2) k1(3) c])
  then show ?thesis using k1 by blast
qed

lemma data_queue_is_fifo_witness:
  "\<exists>k1. rt_data_queue_push (\<lambda>_. Some) 7 (3, 4) 0
      (demo_drv \<lparr>dq_size = 2, dq_lwm = 0, dq_get = 3, dq_put = 4, dq_items = [(9, 9), (1, 2)]\<rparr>) = Some (Done RT_EOK k1) \<and>
    dq_content (k_dq k1 7) = [(1, 2), (3, 4)] \<and> tstat k1 2 \<in> {RT_THREAD_READY, RT_THREAD_RUNNING}"
proof -
  define q where "q = \<lparr>dq_size = 2, dq_lwm = 0, dq_get = 3, dq_put = 4, dq_items = [(9, 9), (1 :: u32, 2 :: u32)]\<rparr>"
  have "quiet (\<lambda>_. Some :: kdrv \<Rightarrow> kdrv option)" by (simp add: quiet_def)
  moreover have "dq_ok q" "dq_content q = [(1, 2)]" "dq_size q = 2" "dq_put q = 4"
    by (simp_all add: q_def dq_ok_def dq_content_def upt_rec)
  ultimately show ?thesis unfolding q_def[symmetric]
    using data_queue_is_fifo[OF demo_drv_sys, of "\<lambda>_. Some" q 7 "(3, 4)" 0 0] by (auto simp: demo_queues_def)
qed

text \<open>
  The indices of a data queue are 16 bits wide, but the test for a full queue computes their
  difference without wrap-around: after 65535 rounds of one push and one pop, which leave the
  queue empty, every push is accepted, however many items are in it already, and overwrites them.
\<close>

theorem data_queue_overflows_after_wrap:
  assumes "dq_idle a k" "dq_get (k_dq k a) = 0" "dq_put (k_dq k a) = 0"
  shows "\<exists>k1. dq_cycles a x 65535 k = Some k1 \<and> dq_ok (k_dq k1 a) \<and> dq_content (k_dq k1 a) = [] \<and>
    (\<forall>xs. \<exists>k2. dq_push_all a xs k1 = Some k2 \<and> length (dq_items (k_dq k2 a)) = unat (dq_size (k_dq k a)))"
  by (rule dq_wrap_ok[OF assms])

lemma data_queue_overflows_after_wrap_witness:
  "\<exists>k1 k2. dq_cycles 9 (5, 6) 65535 (demo_drv \<lparr>dq_size = 2, dq_lwm = 0, dq_get = 0, dq_put = 0, dq_items = [(0, 0), (0, 0)]\<rparr>) = Some k1 \<and>
    dq_content (k_dq k1 9) = [] \<and> dq_push_all 9 [(1, 1), (2, 2), (3, 3)] k1 = Some k2"
proof -
  have "dq_idle 9 (demo_drv \<lparr>dq_size = 2, dq_lwm = 0, dq_get = 0, dq_put = 0, dq_items = [(0, 0), (0, 0)]\<rparr>)"
    by (simp add: dq_idle_def demo_queues_def)
  then show ?thesis using data_queue_overflows_after_wrap[of 9 _ "(5, 6)"] by fastforce
qed

text \<open>
  C25: A thread that waits in an empty wait queue is suspended with its timer armed;
  \<open>rt_wqueue_wakeup\<close> with a key its node accepts makes it ready, stops the timer and empties the
  queue, and when the thread runs again it clears the flag of the wake-up.
\<close>

theorem wqueue_wait_then_wakeup:
  assumes "sys_inv {} k" "k_current k = Some t" "tstat k t = RT_THREAD_RUNNING" "k_irq_nest k = 0"
    "k_wq_flag k a \<noteq> RT_WQ_FLAG_WAKEUP" "k_wq_list k a = []" "0 < sint msec" "msec \<noteq> 0x7fffffff" "wakeup node key = 0"
  shows "\<exists>k1 k2 k3. rt_wqueue_wait node a False msec k = Some (Blocked k1) \<and> tstat k1 t = RT_THREAD_SUSPEND \<and>
    due k1 (ThreadTimer t) = sint msec \<and>
    rt_wqueue_wakeup wakeup a key k1 = Some k2 \<and> sys_inv {} k2 \<and> tstat k2 t \<in> {RT_THREAD_READY, RT_THREAD_RUNNING} \<and>
    ThreadTimer t \<notin> set (k_timer_list k2) \<and> k_wq_list k2 a = [] \<and>
    rt_wqueue_wait_return node a k2 = (0, k3) \<and> k_wq_flag k3 a = RT_WQ_FLAG_CLEAN"
proof -
  obtain k1 where k1: "rt_wqueue_wait node a False msec k = Some (Blocked k1)" "sys_inv {} k1" "tstat k1 t = RT_THREAD_SUSPEND"
    "k_wq_list k1 = (k_wq_list k)(a := k_wq_list k a @ [node])" "k_wq_thread k1 = (k_wq_thread k)(node := t)"
    "due k1 (ThreadTimer t) = sint msec"
    using rt_wqueue_wait_blocks[OF assms(1-5,7,8), of node] by metis
  have f: "wq_find wakeup key (k_wq_list k1 a) = Some node" using k1(4) assms(6,9) by simp
  have th: "k_wq_thread k1 node = t" using k1(5) by simp
  have s: "tstat k1 (k_wq_thread k1 node) = RT_THREAD_SUSPEND" using k1(3) th by simp
  obtain k2 where k2: "rt_wqueue_wakeup wakeup a key k1 = Some k2" "sys_inv {} k2"
    "tstat k2 (k_wq_thread k1 node) \<in> {RT_THREAD_READY, RT_THREAD_RUNNING}"
    "k_wq_list k2 = (\<lambda>b. removeAll node (k_wq_list k1 b))" "ThreadTimer (k_wq_thread k1 node) \<notin> set (k_timer_list k2)"
    using rt_wqueue_wakeup_wakes[OF k1(2) f s] by metis
  have l: "k_wq_list k2 a = []" using k2(4) k1(4) assms(6) by simp
  have r: "rt_wqueue_wait_return node a k2 = (0, rt_wqueue_remove node (set_wq_flag a 0 k2))" by (simp add: rt_wqueue_wait_return_def)
  show ?thesis
    using k1(1,3,6) k2(1,2) k2(3,5)[unfolded th] l r by (intro exI conjI) (auto simp: RT_WQ_FLAG_CLEAN_def)
qed

lemma wqueue_wait_then_wakeup_witness:
  "\<exists>k1 k2. rt_wqueue_wait 50 9 False 20 (demo_drv \<lparr>dq_size = 1, dq_lwm = 0, dq_get = 0, dq_put = 0, dq_items = [(0, 0)]\<rparr>) = Some (Blocked k1) \<and> tstat k1 0 = RT_THREAD_SUSPEND \<and>
    rt_wqueue_wakeup wqueue_default_wake 9 0 k1 = Some k2 \<and> tstat k2 0 \<in> {RT_THREAD_READY, RT_THREAD_RUNNING}"
  using wqueue_wait_then_wakeup[OF demo_drv_sys, of "\<lparr>dq_size = 1, dq_lwm = 0, dq_get = 0, dq_put = 0, dq_items = [(0, 0)]\<rparr>" 0 9 20 wqueue_default_wake 50 0]
  by (auto simp: demo_threads_def RT_WQ_FLAG_WAKEUP_def wqueue_default_wake_def)





section \<open>Aligned allocation\<close>

text \<open>
  \<open>rt_malloc_align\<close> with a power of two either returns null and changes nothing, or an address of
  that alignment with room for the size asked for, inside one fresh block of the heap that keeps
  clear of all others and that \<open>rt_free_align\<close> gives back; no data outside the block changes.
\<close>

theorem malloc_align_fits:
  fixes sz al :: u32
  assumes "heap_is h bs" "al = 2 ^ i" "2 \<le> i" "i < 32" "unat sz + unat al + 6 < 2 ^ 32"
  shows "rt_malloc_align sz al h = Some (RT_NULL, h) \<or>
    (\<exists>q p n h' bs'. rt_malloc_align sz al h = Some (q, h') \<and> q mod unat al = 0 \<and> p + 4 \<le> q \<and> q + unat sz \<le> p + n \<and>
      heap_is h' bs' \<and> live (heap_ptr h) bs' = insert (p, n) (live (heap_ptr h) bs) \<and>
      (\<forall>(r, j) \<in> live (heap_ptr h) bs. r + j + 12 \<le> p \<or> p + n + 12 \<le> r) \<and>
      (\<forall>x. x < p \<or> p + n \<le> x \<longrightarrow> heap_data h' x = heap_data h x) \<and> rt_free_align q h' = rt_free p h')"
proof (rule rt_malloc_align_ok[OF assms])
  show ?thesis if "rt_malloc_align sz al h = Some (RT_NULL, h)" using that by blast
  show ?thesis if "rt_malloc_align sz al h = Some (q, h')" "q mod unat al = 0" "p + 4 \<le> q" "q + unat sz \<le> p + n" "heap_is h' bs'"
    "live (heap_ptr h) bs' = insert (p, n) (live (heap_ptr h) bs)"
    "\<And>r j. (r, j) \<in> live (heap_ptr h) bs \<Longrightarrow> r + j + 12 \<le> p \<or> p + n + 12 \<le> r"
    "\<And>x. x < p \<or> p + n \<le> x \<Longrightarrow> heap_data h' x = heap_data h x" "rt_free_align q h' = rt_free p h'" for q p n h' bs'
  proof (rule disjI2, intro exI conjI)
    show "\<forall>(r, j) \<in> live (heap_ptr h) bs. r + j + 12 \<le> p \<or> p + n + 12 \<le> r" using that(7) by blast
    show "\<forall>x. x < p \<or> p + n \<le> x \<longrightarrow> heap_data h' x = heap_data h x" using that(8) by blast
  qed (rule that(1-6,9))+
qed

lemma malloc_align_fits_witness:
  "\<exists>q h'. rt_malloc_align 20 16 (demo_memory [(12, True), (100, False), (16, True)] 24) = Some (q, h') \<and> q mod 16 = 0"
  using malloc_align_fits[OF demo_memory_ok(1), of 16 4 20] by auto

section \<open>Devices\<close>

text \<open>The sample kernel with devices of the type 20; device 3 has no driver function but an open that does nothing.\<close>

definition demo_dev :: "bool \<Rightarrow> kdev" where
  "demo_dev reg = kipc.extend ((demo RT_Object_Class_Semaphore True)
       \<lparr>k_obj_type := (\<lambda>ob. if reg \<and> ob = DevObj 3 then RT_Object_Class_Device OR RT_Object_Class_Static else demo_types RT_Object_Class_Semaphore ob)\<rparr>)
     \<lparr>k_dev = (\<lambda>_. \<lparr>dev_type = 20, dev_flag = 0, dev_open_flag = 0, dev_ref_count = 0, dev_rx_indicate = None, dev_tx_complete = None\<rparr>),
      k_errno = 0, k_console = None\<rparr>"





text \<open>
  C28: Registering a device under a new name types it: the object becomes a device at the front of
  the container of devices, every object still is in the container of the class its type names,
  and the device, closed and without references, is what its name leads to from then on. Under
  the same name no second device is registered, and unregistering restores the containers.
\<close>

theorem device_register_typed:
  assumes "sched_ok k" "obj_inv k" "k_obj_type k (DevObj d) = 0"
    "\<forall>ob \<in> set (k_containers k RT_Object_Class_Device). \<not> name_eq RT_NAME_MAX (k_obj_name k ob) name"
  shows "\<exists>k1 k2 k3. rt_device_register (Some d) name flags k = Some (RT_EOK, k1) \<and> obj_inv k1 \<and>
    rt_object_get_type (DevObj d) k1 = RT_Object_Class_Device \<and> dev_ref_count (k_dev k1 d) = 0 \<and> \<not> opened (k_dev k1 d) \<and>
    k_containers k1 = (k_containers k)(RT_Object_Class_Device := DevObj d # k_containers k RT_Object_Class_Device) \<and>
    rt_device_find name k1 = Some (Some (DevObj d), k2) \<and> (\<forall>e. \<exists>k'. rt_device_register (Some e) name flags k1 = Some (- RT_ERROR, k')) \<and>
    rt_device_unregister d k1 = Some (RT_EOK, k3) \<and> obj_inv k3 \<and> k_containers k3 = k_containers k"
proof -
  obtain k1 k2 where k1: "rt_device_register (Some d) name flags k = Some (RT_EOK, k1)" "obj_inv k1" "is_device d k1"
    "k_containers k1 = (k_containers k)(RT_Object_Class_Device := DevObj d # k_containers k RT_Object_Class_Device)"
    "dev_ref_count (k_dev k1 d) = 0" "dev_open_flag (k_dev k1 d) = 0" "rt_device_find name k1 = Some (Some (DevObj d), k2)"
    "rt_object_is_systemobject (DevObj d) k1"
    using rt_device_register_ok[OF assms] by blast
  obtain k3 where k3: "rt_device_unregister d k1 = Some (RT_EOK, k3)" "obj_inv k3"
    "\<forall>c. k_containers k3 c = removeAll (DevObj d) (k_containers k1 c)"
    using rt_device_unregister_ok[OF k1(2,3,8)] by blast
  have "k_containers k3 c = k_containers k c" for c
    using k3(3) k1(4) unregistered[OF assms(2,3), of c] unregistered[OF assms(2,3), of RT_Object_Class_Device] by simp
  then have "k_containers k3 = k_containers k" by blast
  moreover have "\<exists>k'. rt_device_register (Some e) name flags k1 = Some (- RT_ERROR, k')" for e
    using k1(7) by (simp add: rt_device_register_def)
  ultimately show ?thesis
    using k1 k3 by (intro exI[of _ k1] exI[of _ k2] exI[of _ k3]) (simp add: is_device_def opened_def)
qed

lemma device_register_typed_witness:
  "\<exists>k1 k2. rt_device_register (Some 3) [117, 49, 0] 2 (demo_dev False) = Some (RT_EOK, k1) \<and> obj_inv k1 \<and>
    rt_device_find [117, 49, 0] k1 = Some (Some (DevObj 3), k2)"
proof -
  let ?m = "demo RT_Object_Class_Semaphore True"
  have f: "k_obj_type (demo_dev False) = k_obj_type ?m" "k_containers (demo_dev False) = k_containers ?m"
    "k_obj_name (demo_dev False) = k_obj_name ?m"
    by (simp_all add: demo_dev_def kipc.defs)
  have "sched_ok (demo_dev False)"
    by (rule iffD1[OF sched_ok_cong demo_sched_ok]) (simp add: demo_dev_def kipc.defs ksched.truncate_def)
  moreover have "obj_inv (demo_dev False)"
    using demo_obj_inv[of True] unfolding obj_inv_def rt_object_get_type_def f .
  ultimately show ?thesis using device_register_typed[of "demo_dev False" 3 "[117, 49, 0]" 2] f
    by (auto simp: demo_types_def demo_containers_def RT_Object_Class_Device_def RT_Object_Class_Thread_def
        RT_Object_Class_Timer_def RT_Object_Class_Semaphore_def)
qed

section \<open>Work queues\<close>

text \<open>The sample kernel with a work queue at 4, whose semaphore is the object at 7 and whose idle thread is 2.\<close>

definition demo_work :: "work \<Rightarrow> kwork" where
  "demo_work w = kipc.extend (demo RT_Object_Class_Semaphore False)
     \<lparr>k_work_list = (\<lambda>_. []), k_work_current = (\<lambda>_. None), k_work_sem = (\<lambda>_. 7), k_work_thread = (\<lambda>_. 2), k_work = (\<lambda>_. w)\<rparr>"

lemma demo_work_fields [simp]:
  "k_threads (demo_work w) = demo_threads" "k_queues (demo_work w) = demo_queues" "k_sem (demo_work w) a = 0"
  "k_work_list (demo_work w) q = []" "k_work_current (demo_work w) q = None" "k_work_sem (demo_work w) q = 7"
  "k_work_thread (demo_work w) q = 2" "k_work (demo_work w) v = w"
  "ipc_is c a (demo_work w) = ipc_is c a (demo RT_Object_Class_Semaphore False)"
  by (simp_all add: demo_work_def kipc.defs demo_def ipc_is_def rt_object_get_type_def)

lemma demo_work_sys: "sys_inv {} (demo_work w)"
  by (simp add: demo_work_def sys_inv_extend demo_sys)

text \<open>
  C29: A work submitted to an idle queue goes behind the works already there and makes the queue's
  thread ready; a second submission is refused. The thread takes the oldest work, which can be
  submitted again only when it has been run.
\<close>

theorem work_runs_in_order:
  assumes "sys_inv {} k" "\<not> work_pending w k" "\<forall>p. w \<notin> set (k_work_list k p)" "distinct (k_work_list k q)"
    "k_work_current k q = None" "tstat k (k_work_thread k q) = RT_THREAD_SUSPEND"
  shows "\<exists>k1 k2. rt_workqueue_dowork q w k = Some (RT_EOK, k1) \<and> sys_inv {} k1 \<and>
    tstat k1 (k_work_thread k q) \<in> {RT_THREAD_READY, RT_THREAD_RUNNING} \<and> k_work_list k1 q = k_work_list k q @ [w] \<and>
    rt_workqueue_dowork q w k1 = Some (- RT_EBUSY, k1) \<and>
    worker_fetch q k1 = Some (hd (k_work_list k q @ [w]), k2) \<and> sys_inv {} k2 \<and>
    k_work_list k2 q = tl (k_work_list k q @ [w]) \<and>
    rt_workqueue_dowork q (hd (k_work_list k q @ [w])) k2 = Some (- RT_EBUSY, k2)"
proof -
  obtain k1 where k1: "workqueue_submit_work q w k = Some (RT_EOK, k1)" "sys_inv {} k1"
    "k_work_list k1 = (k_work_list k)(q := k_work_list k q @ [w])" "work_pending w k1"
    "tstat k1 (k_work_thread k q) \<in> {RT_THREAD_READY, RT_THREAD_RUNNING}"
    using workqueue_submit_ok[OF assms(1-3,5,6)] by metis
  define v vs where "v = hd (k_work_list k q @ [w])" and "vs = tl (k_work_list k q @ [w])"
  have l: "k_work_list k1 q = v # vs" using k1(3) by (simp add: v_def vs_def)
  have "distinct (v # vs)" using l k1(3) assms(3,4) by (metis distinct.simps distinct_append empty_iff fun_upd_same inf_bot_right
        disjoint_insert(1) list.set(1,2) distinct_singleton)
  then have nv: "v \<notin> set vs" by simp
  obtain k2 where k2: "worker_fetch q k1 = Some (v, k2)" "k_work_list k2 q = vs"
    "workqueue_submit_work q v k2 = Some (- RT_EBUSY, k2)" "sys_inv {} k2 = sys_inv {} k1"
    using worker_fetch_ok[where X = "{}", OF l nv] by metis
  have "workqueue_submit_work q w k1 = Some (- RT_EBUSY, k1)" by (rule workqueue_submit_busy) (simp add: k1(4))
  then show ?thesis
    using k1 k2 by (intro exI[of _ k1] exI[of _ k2]) (simp add: rt_workqueue_dowork_def v_def[symmetric] vs_def[symmetric])
qed

lemma work_runs_in_order_witness:
  "\<exists>k1 k2. rt_workqueue_dowork 4 30 (demo_work \<lparr>wk_flags = 0, wk_type = 0, wk_func = 1, wk_data = 2, wk_queue = None\<rparr>) = Some (RT_EOK, k1) \<and>
    worker_fetch 4 k1 = Some (30, k2)"
  using work_runs_in_order[OF demo_work_sys[of "\<lparr>wk_flags = 0, wk_type = 0, wk_func = 1, wk_data = 2, wk_queue = None\<rparr>"], where w = 30 and q = 4]
  by (auto simp: work_pending_def demo_threads_def)

text \<open>
  C30: At the end of a work the queue's thread returns from its loop over the semaphore with every
  thread that waits for the end of the work ready to run and the semaphore back at 0.
\<close>

theorem work_completion_wakes_all:
  assumes "sys_inv {} k" "ipc_is RT_Object_Class_Semaphore (k_work_sem k q) k" "k_sem k (k_work_sem k q) = 0"
  shows "\<exists>k'. workqueue_work_completion q k = Some (RT_EOK, k') \<and> sys_inv {} k' \<and> k_sem k' (k_work_sem k q) = 0 \<and>
    (\<forall>t \<in> set (k_queues k (Pend (k_work_sem k q))). tstat k' t \<in> {RT_THREAD_READY, RT_THREAD_RUNNING})"
  by (rule work_completion_ok[OF assms])

lemma work_completion_wakes_all_witness:
  "\<exists>k'. workqueue_work_completion 4 (demo_work \<lparr>wk_flags = 0, wk_type = 0, wk_func = 1, wk_data = 2, wk_queue = None\<rparr>) = Some (RT_EOK, k') \<and> tstat k' 2 \<in> {RT_THREAD_READY, RT_THREAD_RUNNING}"
  using work_completion_wakes_all[OF demo_work_sys[of "\<lparr>wk_flags = 0, wk_type = 0, wk_func = 1, wk_data = 2, wk_queue = None\<rparr>"], where q = 4] demo_type[of RT_Object_Class_Semaphore False]
  by (auto simp: demo_queues_def)



section \<open>The device file system\<close>

text \<open>The sample kernel with the file system 5 mounted on the root, and a file system whose files open or fail to.\<close>

definition demo_dfs :: kdfs where
  "demo_dfs = kdev.extend (demo_dev False)
     \<lparr>d_types = (\<lambda>i. if i = 0 then Some 5 else None),
      d_table = (\<lambda>i. if i = 0 then \<lparr>fs_dev = None, fs_path = Some [47], fs_ops = Some 5, fs_data = 0\<rparr> else mfs_zero),
      d_fds = [], d_heap = (\<lambda>_. None), d_wd = None, d_stat = (\<lambda>_. \<lparr>st_dev = None, st_mode = 0, st_size = 0, st_mtime = 0\<rparr>),
      d_dirs = (\<lambda>_. None), d_init = True\<rparr>"


lemma demo_mounted: "mounted i p demo_dfs \<longleftrightarrow> i = 0 \<and> p = [47]"
  by (auto simp: mounted_def demo_dfs_def kdev.defs mfs_zero_def DFS_FILESYSTEMS_MAX_def)

lemma demo_canonical: "canonical [47]" "canonical [47, 97]" "canonical [47, 97, 47, 98]"
  using canonical_abs_text[of "[]"] canonical_abs_text[of "[[97]]"] canonical_abs_text[of "[[97], [98]]"]
  by (simp_all add: abs_text_def plain_name_def name_ok_def)

lemma demo_comps: "comps [47] = []" "comps [47, 97] = [[97]]" "comps [47, 97, 47, 98] = [[97], [98]]"
  using comps_abs_text[of "[]"] comps_abs_text[of "[[97]]"] comps_abs_text[of "[[97], [98]]"]
  by (simp_all add: abs_text_def name_ok_def)

lemma demo_mounts_ok: "mounts_ok demo_dfs"
  using demo_mounted demo_canonical(1)
  by (auto simp: mounts_ok_def) (simp add: demo_dfs_def kdev.defs)





text \<open>
  C32: A path that stays below the root is normalised, in its own buffer, to the path of the
  directory it leads to: the names between the slashes taken one by one, with a dot staying and two
  dots going up. The result is canonical, with single slashes and neither kind of dots, and is its
  own normal form.
\<close>

theorem path_normalised_canonical:
  assumes "full_path wd directory filename = Some s" "chd s = SLASH" "0 \<notin> set s" "walk (True, []) (comps s) = Some (True, ds)"
  shows "dfs_normalize_path wd True directory filename = Some (Some (abs_text (rev ds))) \<and> canonical (abs_text (rev ds)) \<and>
    dfs_normalize_path wd True directory (abs_text (rev ds)) = Some (Some (abs_text (rev ds)))"
proof -
  have "normal_form s = Some (Some (abs_text (rev ds)))" using assms(2,4) by (simp add: normal_form_def path_text_abs)
  then have "dfs_normalize_path wd True directory filename = Some (Some (abs_text (rev ds)))"
    by (rule dfs_normalize_path_ok[OF assms(1,3)])
  moreover have "canonical (abs_text (rev ds))" by (rule normalized_canonical(2)[OF assms(2-4)])
  ultimately show ?thesis using canonical_fixed by blast
qed

lemma path_normalised_canonical_witness:
  "dfs_normalize_path (Some [47, 97]) True None [46, 46, 47, 98] = Some (Some [47, 98])"
proof -
  have c: "comps [97, 47, 46, 46, 47, 98] = [[97], [46, 46], [98]]"
    using comps_abs_text[of "[[97], [46, 46], [98]]"] by (simp add: abs_text_def name_ok_def)
  show ?thesis
    using path_normalised_canonical[of "Some [47, 97]" None "[46, 46, 47, 98]" "[47, 97, 47, 46, 46, 47, 98]" "[[98]]"]
    by (simp add: full_path_def chd_def c enter_def abs_text_def)
qed

text \<open>
  C33: The file system of a path is the one mounted innermost: when the mount points are canonical,
  the search over the strings of the mount table finds a mount whose directories begin those of the
  path and which every other such mount is above of, and finds none if there is no such mount.
\<close>

theorem lookup_finds_innermost_mount:
  assumes "mounts_ok k" "canonical path"
  shows "case dfs_filesystem_lookup path k of
      None \<Rightarrow> \<not> (\<exists>i p. mounted i p k \<and> prefix (comps p) (comps path))
    | Some i \<Rightarrow> \<exists>p. mounted i p k \<and> prefix (comps p) (comps path) \<and>
        (\<forall>j q. mounted j q k \<and> prefix (comps q) (comps path) \<longrightarrow> prefix (comps q) (comps p))"
  by (rule lookup_innermost[OF mounts_ok_canonical[OF assms(1)] assms(2)])

lemma lookup_finds_innermost_mount_witness: "dfs_filesystem_lookup [47, 97, 47, 98] demo_dfs = Some 0"
  using lookup_finds_innermost_mount[OF demo_mounts_ok demo_canonical(3)]
  by (auto simp: demo_mounted demo_comps split: option.splits)







section \<open>The shell\<close>



text \<open>
  C38: Completing the beginning of a command name replaces it by the longest beginning that all
  commands with it share, and writes nothing else into the line.
\<close>

theorem completion_is_common_beginning:
  assumes "b = pre @ replicate n 0" "0 \<notin> set pre" "pre \<noteq> []" "\<exists>c \<in> set cs. matches pre c"
    and "\<forall>c \<in> set cs. size (drop 6 (cm_name c)) < size b \<and> 0 \<notin> set (cm_name c)"
  shows "\<exists>t out'. msh_auto_complete cs b out = Some (t @ replicate (size b - size t) 0, out') \<and>
    0 \<notin> set t \<and> size t < size b \<and> take (size pre) t = pre \<and>
    (\<forall>c \<in> set cs. matches pre c \<longrightarrow> take (size t) (drop 6 (cm_name c)) = t) \<and>
    (\<exists>a \<in> set cs. \<exists>c \<in> set cs. matches pre a \<and> matches pre c \<and>
       size t = str_common (drop 6 (cm_name a)) (drop 6 (cm_name c)))"
  by (rule msh_auto_complete_ok[OF assms])

lemma completion_is_common_beginning_witness:
  "\<exists>t out'. msh_auto_complete demo_cmds (ascii ''e'' @ replicate 79 0) [] =
      Some (t @ replicate (size (ascii ''e'' @ replicate 79 0) - size t) 0, out') \<and>
    0 \<notin> set t \<and> take (size (ascii ''e'')) t = ascii ''e'' \<and>
    (\<forall>c \<in> set demo_cmds. matches (ascii ''e'') c \<longrightarrow> take (size t) (drop 6 (cm_name c)) = t)"
proof -
  have "0 \<notin> set (ascii ''e'')" "ascii ''e'' \<noteq> []" "\<exists>c \<in> set demo_cmds. matches (ascii ''e'') c"
    "\<forall>c \<in> set demo_cmds. size (drop 6 (cm_name c)) < size (ascii ''e'' @ replicate 79 0 :: u8 list) \<and> 0 \<notin> set (cm_name c)"
    by code_simp+
  from completion_is_common_beginning[OF refl this] show ?thesis by blast
qed

section \<open>The expression shell\<close>



text \<open>
  C40: The stack of the machine never overflows: whatever bytes are in the text segment, every
  state of a run that still has an operation to fetch has a free slot.
\<close>

theorem finsh_vm_stack_never_overflows:
  assumes "vm_steps fcall code \<lparr>v_stk = stk, v_sp = 0, v_pc = 0, v_mem = m\<rparr> v" "v_pc v < FINSH_TEXT_MAX"
  shows "v_sp v < FINSH_STACK_MAX"
  using vm_stack_never_overflows_aux[OF assms(1)] assms(2) by blast

lemma finsh_vm_stack_never_overflows_witness:
  "\<exists>v. vm_step demo_calls ([0x22, 7] @ replicate 126 0) \<lparr>v_stk = replicate 64 0, v_sp = 0, v_pc = 0, v_mem = demo_mem\<rparr> =
    Some v \<and> v_sp v = 1 \<and> v_sp v < FINSH_STACK_MAX"
proof -
  let ?v = "\<lparr>v_stk = replicate 64 0, v_sp = 0, v_pc = 0, v_mem = demo_mem\<rparr>" and ?c = "[0x22, 7] @ replicate 126 0"
  have "map_option v_sp (vm_step demo_calls ?c ?v) = Some 1" "map_option v_pc (vm_step demo_calls ?c ?v) = Some 2"
    by code_simp+
  then obtain v where v: "vm_step demo_calls ?c ?v = Some v" "v_sp v = 1" "v_pc v = 2" by auto
  have "vm_steps demo_calls ?c ?v v"
    by (rule vm_steps.vm_next[OF vm_steps.vm_here _ v(1)]) (simp add: FINSH_TEXT_MAX_def)
  from finsh_vm_stack_never_overflows[OF this] v show ?thesis by (auto simp: FINSH_TEXT_MAX_def)
qed

end
